(* ===== verification/Prelude.thy ===== *)
theory Prelude
  imports Main "HOL-Library.Word"
begin

text \<open>
  Shared vocabulary of the development: results with errors as values, the string and
  character operations of the Rust standard library that the sources use, decimal printing of
  machine integers, and the stacks of finite maps by which the sources model lexical scopes.

  Strings. A Rust \<open>String\<close> is modelled by the list of its characters, over the code points
  U+0000 to U+00FF (the type \<open>char\<close>); \<open>utf8_len\<close> is the byte length \<open>str::len\<close> of such a
  string. Results. \<open>Result<T, E>\<close> is the sum type \<open>'e + 'a\<close> with \<open>Inl\<close> the error;
  \<open>res_bind\<close> is the \<open>?\<close> operator and \<open>res_all\<close> is
  \<open>iter().map(f).collect::<Result<Vec<_>, _>>()\<close>.
\<close>

named_theorems res_elims \<open>inversion of successful results\<close>
named_theorems scope_simps \<open>laws of stacks of scopes\<close>

section \<open>Results\<close>

type_synonym ('e, 'a) res = "'e + 'a"

definition res_bind :: "'e + 'a \<Rightarrow> ('a \<Rightarrow> 'e + 'b) \<Rightarrow> 'e + 'b" where
  "res_bind m f = (case m of Inl e \<Rightarrow> Inl e | Inr x \<Rightarrow> f x)"

lemma res_bind_simps [simp]:
  "res_bind (Inl e) f = Inl e"
  "res_bind (Inr x) f = f x"
  by (simp_all add: res_bind_def)

lemma res_bind_Inr_iff [res_elims]:
  "res_bind m f = Inr y \<longleftrightarrow> (\<exists>x. m = Inr x \<and> f x = Inr y)"
  by (cases m) simp_all

lemma res_bind_cong [fundef_cong]:
  assumes "m = m'" and "\<And>x. m' = Inr x \<Longrightarrow> f x = f' x"
  shows "res_bind m f = res_bind m' f'"
  using assms by (cases m') simp_all

lemma res_bind_assoc: "res_bind (res_bind m f) g = res_bind m (\<lambda>x. res_bind (f x) g)"
  by (cases m) simp_all

fun res_all :: "('a \<Rightarrow> 'e + 'b) \<Rightarrow> 'a list \<Rightarrow> 'e + 'b list" where
  "res_all f [] = Inr []"
| "res_all f (x # xs) = res_bind (f x) (\<lambda>y. res_bind (res_all f xs) (\<lambda>ys. Inr (y # ys)))"

lemma res_all_cong [fundef_cong]:
  assumes "xs = ys" and "\<And>x. x \<in> set ys \<Longrightarrow> f x = g x"
  shows "res_all f xs = res_all g ys"
  using assms by (induction ys arbitrary: xs) auto

lemma res_all_Inr_iff: "res_all f xs = Inr ys \<longleftrightarrow> list_all2 (\<lambda>x y. f x = Inr y) xs ys"
proof (induction xs arbitrary: ys)
  case Nil
  then show ?case by auto
next
  case (Cons x xs)
  then show ?case by (cases ys) (auto simp: res_bind_Inr_iff)
qed

lemma res_all_length: "res_all f xs = Inr ys \<Longrightarrow> length ys = length xs"
  by (auto simp: res_all_Inr_iff dest: list_all2_lengthD)

lemma res_all_total:
  assumes "\<And>x. x \<in> set xs \<Longrightarrow> \<exists>y. f x = Inr y"
  shows "\<exists>ys. res_all f xs = Inr ys"
  using assms
proof (induction xs)
  case Nil
  then show ?case by simp
next
  case (Cons x xs)
  then obtain y ys where "f x = Inr y" "res_all f xs = Inr ys" by fastforce
  then show ?case by simp
qed

fun is_ok :: "'e + 'a \<Rightarrow> bool" where
  "is_ok (Inl _) = False"
| "is_ok (Inr _) = True"

lemma is_ok_iff: "is_ok r \<longleftrightarrow> (\<exists>x. r = Inr x)"
  by (cases r) simp_all

section \<open>Characters and strings\<close>

definition ch_code :: "char \<Rightarrow> nat" where
  "ch_code c = of_char c"

definition is_ascii_digit :: "char \<Rightarrow> bool" where
  "is_ascii_digit c \<longleftrightarrow> 48 \<le> ch_code c \<and> ch_code c \<le> 57"

definition is_ascii_alphabetic :: "char \<Rightarrow> bool" where
  "is_ascii_alphabetic c \<longleftrightarrow>
     65 \<le> ch_code c \<and> ch_code c \<le> 90 \<or> 97 \<le> ch_code c \<and> ch_code c \<le> 122"

definition is_ascii_alphanumeric :: "char \<Rightarrow> bool" where
  "is_ascii_alphanumeric c \<longleftrightarrow> is_ascii_alphabetic c \<or> is_ascii_digit c"

definition is_ascii_hexdigit :: "char \<Rightarrow> bool" where
  "is_ascii_hexdigit c \<longleftrightarrow> is_ascii_digit c
     \<or> 65 \<le> ch_code c \<and> ch_code c \<le> 70 \<or> 97 \<le> ch_code c \<and> ch_code c \<le> 102"

text \<open>\<open>char::is_control\<close>: the category Cc, that is U+0000-U+001F and U+007F-U+009F.\<close>

definition is_control :: "char \<Rightarrow> bool" where
  "is_control c \<longleftrightarrow> ch_code c < 32 \<or> 127 \<le> ch_code c \<and> ch_code c < 160"

text \<open>\<open>char::to_digit\<close> for a radix of at most 36.\<close>

definition to_digit :: "nat \<Rightarrow> char \<Rightarrow> nat option" where
  "to_digit radix c =
     (let n = ch_code c;
          d = (if 48 \<le> n \<and> n \<le> 57 then Some (n - 48)
               else if 97 \<le> n \<and> n \<le> 122 then Some (n - 87)
               else if 65 \<le> n \<and> n \<le> 90 then Some (n - 55) else None)
      in case d of None \<Rightarrow> None | Some v \<Rightarrow> if v < radix then Some v else None)"

lemma ch_code_bound: "ch_code c < 256"
  by (simp add: ch_code_def)

lemma to_digit_decimal: "is_ascii_digit c \<Longrightarrow> to_digit 10 c = Some (ch_code c - 48)"
  by (auto simp: is_ascii_digit_def to_digit_def Let_def)

lemma to_digit_hex: "is_ascii_hexdigit c \<Longrightarrow> \<exists>d<16. to_digit 16 c = Some d"
  by (auto simp: is_ascii_hexdigit_def is_ascii_digit_def to_digit_def Let_def)

lemma to_digit_less: "to_digit r c = Some d \<Longrightarrow> d < r"
  by (auto simp: to_digit_def Let_def split: if_splits option.splits)

fun strip_prefix :: "string \<Rightarrow> string \<Rightarrow> string option" where
  "strip_prefix [] s = Some s"
| "strip_prefix (p # ps) [] = None"
| "strip_prefix (p # ps) (c # cs) = (if p = c then strip_prefix ps cs else None)"

definition strip_suffix :: "string \<Rightarrow> string \<Rightarrow> string option" where
  "strip_suffix p s = map_option rev (strip_prefix (rev p) (rev s))"

definition starts_with :: "string \<Rightarrow> string \<Rightarrow> bool" where
  "starts_with p s \<longleftrightarrow> strip_prefix p s \<noteq> None"

lemma strip_prefix_iff: "strip_prefix p s = Some r \<longleftrightarrow> s = p @ r"
  by (induction p s rule: strip_prefix.induct) auto

lemma strip_prefix_append [simp]: "strip_prefix p (p @ r) = Some r"
  by (simp add: strip_prefix_iff)

lemma strip_suffix_iff: "strip_suffix p s = Some r \<longleftrightarrow> s = r @ p"
proof -
  have "strip_suffix p s = Some r \<longleftrightarrow> rev s = rev p @ rev r"
    by (auto simp: strip_suffix_def strip_prefix_iff[symmetric])
  then show ?thesis by (metis rev_append rev_rev_ident)
qed

lemma starts_with_append [simp]: "starts_with p (p @ r)"
  by (simp add: starts_with_def)

definition trim_start_matches :: "char \<Rightarrow> string \<Rightarrow> string" where
  "trim_start_matches c s = dropWhile (\<lambda>x. x = c) s"

fun join :: "string \<Rightarrow> string list \<Rightarrow> string" where
  "join sep [] = []"
| "join sep [x] = x"
| "join sep (x # y # zs) = x @ sep @ join sep (y # zs)"

definition utf8_len :: "string \<Rightarrow> nat" where
  "utf8_len s = sum_list (map (\<lambda>c. if ch_code c < 128 then 1 else 2) s)"

lemma utf8_len_ascii: "\<forall>c\<in>set s. ch_code c < 128 \<Longrightarrow> utf8_len s = length s"
  by (induction s) (auto simp: utf8_len_def)

section \<open>Decimal numerals\<close>

text \<open>\<open>digit_char\<close> is \<open>(b'0' + d) as char\<close>; \<open>show_nat\<close> is \<open>to_string\<close> of an unsigned integer.\<close>

definition digit_char :: "nat \<Rightarrow> char" where
  "digit_char d = char_of (48 + d)"

fun show_nat :: "nat \<Rightarrow> string" where
  "show_nat n = (if n < 10 then [digit_char n] else show_nat (n div 10) @ [digit_char (n mod 10)])"

declare show_nat.simps [simp del]

text \<open>The value that a digit string denotes in a radix: the reference for every parser here.\<close>

definition digit_val :: "nat \<Rightarrow> char \<Rightarrow> nat" where
  "digit_val r c = (case to_digit r c of Some d \<Rightarrow> d | None \<Rightarrow> 0)"

definition digits_value :: "nat \<Rightarrow> string \<Rightarrow> nat" where
  "digits_value r s = foldl (\<lambda>v c. v * r + digit_val r c) 0 s"

lemma ch_code_digit_char: "d < 10 \<Longrightarrow> ch_code (digit_char d) = 48 + d"
  by (simp add: ch_code_def digit_char_def)

lemma digit_char_is_digit: "d < 10 \<Longrightarrow> is_ascii_digit (digit_char d)"
  by (simp add: is_ascii_digit_def ch_code_digit_char)

lemma digit_val_digit_char: "d < 10 \<Longrightarrow> digit_val 10 (digit_char d) = d"
  by (simp add: digit_val_def to_digit_decimal digit_char_is_digit ch_code_digit_char)

lemma digits_value_Nil [simp]: "digits_value r [] = 0"
  by (simp add: digits_value_def)

lemma digits_value_snoc [simp]: "digits_value r (s @ [c]) = digits_value r s * r + digit_val r c"
  by (simp add: digits_value_def)

lemma digits_value_show_nat: "digits_value 10 (show_nat n) = n"
proof (induction n rule: show_nat.induct)
  case (1 n)
  show ?case
  proof (cases "n < 10")
    case True
    then have "show_nat n = [] @ [digit_char n]"
      by (subst show_nat.simps) simp
    with True show ?thesis
      by (simp only: digits_value_snoc) (simp add: digit_val_digit_char)
  next
    case False
    then have "show_nat n = show_nat (n div 10) @ [digit_char (n mod 10)]"
      by (subst show_nat.simps) simp
    with False 1 show ?thesis by (simp add: digit_val_digit_char)
  qed
qed

lemma show_nat_inj: "show_nat m = show_nat n \<longleftrightarrow> m = n"
  by (metis digits_value_show_nat)

lemma show_nat_digits: "c \<in> set (show_nat n) \<Longrightarrow> is_ascii_digit c"
proof (induction n rule: show_nat.induct)
  case (1 n)
  then show ?case
    by (cases "n < 10") (auto simp: show_nat.simps[of n] digit_char_is_digit)
qed

lemma show_nat_nonempty: "show_nat n \<noteq> []"
  by (subst show_nat.simps) simp

section \<open>Stacks of scopes\<close>

text \<open>
  A stack of scopes is a \<open>Vec<BTreeMap<String, T>>\<close>, innermost scope last. \<open>find_map\<close> over
  the reversed vector is the lookup that the checker, the translator and the assembly
  converter all use.
\<close>

fun find_map :: "('a \<Rightarrow> 'b option) \<Rightarrow> 'a list \<Rightarrow> 'b option" where
  "find_map f [] = None"
| "find_map f (x # xs) = (case f x of Some y \<Rightarrow> Some y | None \<Rightarrow> find_map f xs)"

definition scopes_lookup :: "('k \<rightharpoonup> 'v) list \<Rightarrow> 'k \<Rightarrow> 'v option" where
  "scopes_lookup ss k = find_map (\<lambda>m. m k) (rev ss)"

text \<open>\<open>last_mut().expect(..).insert(k, v)\<close>: a panic on the empty stack is the value None.\<close>

definition scopes_insert :: "'k \<Rightarrow> 'v \<Rightarrow> ('k \<rightharpoonup> 'v) list \<Rightarrow> ('k \<rightharpoonup> 'v) list option" where
  "scopes_insert k v ss = (if ss = [] then None else Some (butlast ss @ [(last ss)(k \<mapsto> v)]))"

definition vec_push :: "'a \<Rightarrow> 'a list \<Rightarrow> 'a list" where
  "vec_push x xs = xs @ [x]"

definition vec_pop :: "'a list \<Rightarrow> ('a \<times> 'a list) option" where
  "vec_pop xs = (if xs = [] then None else Some (last xs, butlast xs))"

lemma find_map_append:
  "find_map f (xs @ ys) = (case find_map f xs of Some y \<Rightarrow> Some y | None \<Rightarrow> find_map f ys)"
  by (induction xs) (auto split: option.splits)

lemma scopes_lookup_Nil [scope_simps]: "scopes_lookup [] k = None"
  by (simp add: scopes_lookup_def)

lemma scopes_lookup_snoc [scope_simps]:
  "scopes_lookup (ss @ [m]) k = (case m k of Some v \<Rightarrow> Some v | None \<Rightarrow> scopes_lookup ss k)"
  by (simp add: scopes_lookup_def split: option.split)

lemma scopes_lookup_push_empty [scope_simps]:
  "scopes_lookup (vec_push Map.empty ss) = scopes_lookup ss"
  by (rule ext) (simp add: vec_push_def scopes_lookup_snoc)

lemma vec_pop_push [simp]: "vec_pop (vec_push x xs) = Some (x, xs)"
  by (simp add: vec_pop_def vec_push_def)

lemma scopes_insert_nonempty [scope_simps]:
  "ss \<noteq> [] \<Longrightarrow> scopes_insert k v ss = Some (butlast ss @ [(last ss)(k \<mapsto> v)])"
  by (simp add: scopes_insert_def)

lemma scopes_lookup_insert [scope_simps]:
  assumes "ss \<noteq> []"
  shows "scopes_lookup (butlast ss @ [(last ss)(k \<mapsto> v)]) = (scopes_lookup ss)(k \<mapsto> v)"
proof -
  have "ss = butlast ss @ [last ss]" using assms by simp
  then have "scopes_lookup ss k' =
      (case last ss k' of Some v \<Rightarrow> Some v | None \<Rightarrow> scopes_lookup (butlast ss) k')" for k'
    by (metis scopes_lookup_snoc)
  then show ?thesis by (auto simp: scopes_lookup_snoc fun_eq_iff)
qed

text \<open>
  The interface of a component that keeps lexical scopes. Its clients only enter, leave,
  declare and look up; \<open>ok\<close> is the provider's invariant that the stack is never empty, which is
  what makes every \<open>expect\<close> on it succeed.
\<close>

locale lexical_scopes =
  fixes enter :: "'s \<Rightarrow> 's"
    and leave :: "'s \<Rightarrow> 's"
    and declare_var :: "'k \<Rightarrow> 'v \<Rightarrow> 's \<Rightarrow> 's"
    and look :: "'s \<Rightarrow> 'k \<Rightarrow> 'v option"
    and ok :: "'s \<Rightarrow> bool"
  assumes ok_enter: "ok s \<Longrightarrow> ok (enter s)"
    and ok_declare: "ok s \<Longrightarrow> ok (declare_var k v s)"
    and leave_enter: "ok s \<Longrightarrow> leave (enter s) = s"
    and leave_declare: "ok s \<Longrightarrow> leave (declare_var k v s) = leave s"
    and look_enter: "ok s \<Longrightarrow> look (enter s) = look s"
    and look_declare: "ok s \<Longrightarrow> look (declare_var k v s) = (look s)(k \<mapsto> v)"
begin

lemma declare_all_ok: "ok s \<Longrightarrow> ok (fold (\<lambda>(k, v). declare_var k v) kvs s)"
  by (induction kvs arbitrary: s) (auto simp: ok_declare)

lemma leave_declare_all:
  "ok s \<Longrightarrow> leave (fold (\<lambda>(k, v). declare_var k v) kvs s) = leave s"
  by (induction kvs arbitrary: s) (auto simp: ok_declare leave_declare)

text \<open>A block that only declares is undone by leaving it.\<close>

lemma block_restores: "ok s \<Longrightarrow> leave (fold (\<lambda>(k, v). declare_var k v) kvs (enter s)) = s"
  by (simp add: leave_declare_all ok_enter leave_enter)

text \<open>Inside it, the latest declaration of a name wins and the others show through.\<close>

lemma look_declare_all:
  "ok s \<Longrightarrow> look (fold (\<lambda>(k, v). declare_var k v) kvs s) = look s ++ map_of (rev kvs)"
  by (induction kvs arbitrary: s) (auto simp: ok_declare look_declare map_add_def fun_eq_iff
      split: option.splits)

end

end
