(* ===== verification/Hull_IR.thy ===== *)
theory Hull_IR
  imports Prelude
begin

text \<open>
  The Hull intermediate representation (\<open>crates/hull/src/ir.rs\<close>) and the inline-assembly trees
  it embeds (\<open>crates/hir/src/ast/function.rs\<close>), one datatype per Rust enum and one record or
  one-constructor datatype per struct. Spans keep their three fields; interned identifiers and
  anchors are their identity, a natural number, and the text of an identifier is obtained
  through the database, a function \<open>hir_db\<close> (the interning table is not code of these crates).
  \<open>usize\<close> indices are natural numbers.

  The second half gives the abstraction that the rest of the development uses: \<open>erase\<close> forgets
  spans and nominal wrappers, and the locale \<open>slot_measure\<close> states what every stack-slot
  counting function of the code base promises.
\<close>

section \<open>Spans, identifiers, database\<close>

record span =
  anchor :: nat
  sp_begin :: "32 word"
  sp_end :: "32 word"

type_synonym ident = nat

type_synonym hir_db = "ident \<Rightarrow> string"

datatype 'a spanned = Spanned (atom: 'a) (spanned_span: span)

type_synonym ident_at = "ident spanned"

section \<open>Inline assembly\<close>

datatype hir_yul_lit =
    HLNumber string
  | HLHex string
  | HLString string
  | HLBool bool
  | HLError

datatype hir_yul_expr = HirYulExpr (hye_span: span) (hye_kind: hir_yul_expr_kind)
  and hir_yul_expr_kind =
    HELit hir_yul_lit
  | HEIdent ident_at
  | HECall ident_at "hir_yul_expr list"
  | HEError

datatype hir_yul_stmt = HirYulStmt (hys_span: span) (hys_kind: hir_yul_stmt_kind)
  and hir_yul_stmt_kind =
    HSBlock "hir_yul_stmt list"
  | HSLet "ident_at list" "hir_yul_expr option"
  | HSAssign "ident_at list" hir_yul_expr
  | HSExpr hir_yul_expr
  | HSIf hir_yul_expr "hir_yul_stmt list"
  | HSFor "hir_yul_stmt list" hir_yul_expr "hir_yul_stmt list" "hir_yul_stmt list"
  | HSSwitch hir_yul_expr "hir_yul_case list" "hir_yul_stmt list option"
  | HSFunctionDef ident_at "ident_at list" "ident_at list" "hir_yul_stmt list"
  | HSLeave
  | HSBreak
  | HSContinue
  | HSError
  and hir_yul_case = HirYulCase span hir_yul_lit "hir_yul_stmt list"

section \<open>Hull types, expressions, statements\<close>

type_synonym name = string

datatype ty = Ty (ty_span: span) (ty_kind: ty_kind)
  and ty_kind =
    TyWord
  | TyBool
  | TyUnit
  | TyProduct ty ty
  | TySum ty ty
  | TyNamed name ty
  | TyNamedRef name
  | TyFunction "ty list" ty

datatype expr = Expr (expr_span: span) (expr_ty: ty) (expr_kind: expr_kind)
  and expr_kind =
    EWord string
  | EBool bool
  | EUnit
  | EVar name
  | EPair expr expr
  | EFst expr
  | ESnd expr
  | EInl ty expr
  | EInr ty expr
  | EInK nat ty expr
  | ECall name "expr list"
  | EIf ty expr expr expr

datatype con = Inl_con | Inr_con | InK_con nat

datatype pat_kind = PVar name | PCon con | PWildcard | PIntLit string

datatype pat = Pat (pat_span: span) (pat_kind: pat_kind)

datatype stmt = Stmt (stmt_span: span) (stmt_kind: stmt_kind)
  and stmt_kind =
    SLet name ty
  | SAssign expr expr
  | SExpr expr
  | SReturn expr
  | SBlock "stmt list"
  | SFor "stmt list" expr "stmt list" "stmt list"
  | SBreak
  | SContinue
  | SMatch ty expr "alt list"
  | SAssembly "hir_yul_stmt list"
  | SRevert string
  | SComment string
  and alt = Alt (alt_span: span) (alt_pat: pat) (alt_binder: name) (alt_body: "stmt list")

record arg =
  arg_span :: span
  arg_name :: name
  arg_ty :: ty

record hull_function =
  fn_span :: span
  fn_name :: name
  fn_args :: "arg list"
  fn_ret :: ty
  fn_body :: "stmt list"

record code_block =
  cb_span :: span
  cb_stmts :: "stmt list"
  cb_functions :: "hull_function list"

datatype hull_object =
  Object (obj_span: span) (obj_name: name) (obj_code: code_block) (obj_inners: "hull_object list")

record program =
  prog_span :: span
  entry_points :: "name list"
  prog_functions :: "hull_function list"
  prog_objects :: "hull_object list"

section \<open>Constructors and queries of \<open>impl Ty\<close>, \<open>impl Expr\<close>, \<open>impl Con\<close>\<close>

fun ty_word :: "span \<Rightarrow> ty" where
  "ty_word sp = Ty sp TyWord"

fun ty_bool :: "span \<Rightarrow> ty" where
  "ty_bool sp = Ty sp TyBool"

fun ty_unit :: "span \<Rightarrow> ty" where
  "ty_unit sp = Ty sp TyUnit"

fun ty_product :: "span \<Rightarrow> ty \<Rightarrow> ty \<Rightarrow> ty" where
  "ty_product sp lhs rhs = Ty sp (TyProduct lhs rhs)"

fun ty_sum :: "span \<Rightarrow> ty \<Rightarrow> ty \<Rightarrow> ty" where
  "ty_sum sp lhs rhs = Ty sp (TySum lhs rhs)"

fun ty_named :: "span \<Rightarrow> name \<Rightarrow> ty \<Rightarrow> ty" where
  "ty_named sp n inner = Ty sp (TyNamed n inner)"

fun ty_named_ref :: "span \<Rightarrow> name \<Rightarrow> ty" where
  "ty_named_ref sp n = Ty sp (TyNamedRef n)"

fun ty_function :: "span \<Rightarrow> ty list \<Rightarrow> ty \<Rightarrow> ty" where
  "ty_function sp params ret = Ty sp (TyFunction params ret)"

fun strip_named :: "ty \<Rightarrow> ty" where
  "strip_named (Ty sp (TyNamed n inner)) = strip_named inner"
| "strip_named t = t"

fun contains_function :: "ty \<Rightarrow> bool" where
  "contains_function (Ty sp (TyFunction params ret)) = True"
| "contains_function (Ty sp (TyProduct lhs rhs)) = (contains_function lhs \<or> contains_function rhs)"
| "contains_function (Ty sp (TySum lhs rhs)) = (contains_function lhs \<or> contains_function rhs)"
| "contains_function (Ty sp (TyNamed n inner)) = contains_function inner"
| "contains_function (Ty sp (TyNamedRef n)) = False"
| "contains_function (Ty sp TyWord) = False"
| "contains_function (Ty sp TyBool) = False"
| "contains_function (Ty sp TyUnit) = False"

fun expr_var :: "span \<Rightarrow> name \<Rightarrow> ty \<Rightarrow> expr" where
  "expr_var sp n t = Expr sp t (EVar n)"

fun expr_unit :: "span \<Rightarrow> expr" where
  "expr_unit sp = Expr sp (ty_unit sp) EUnit"

fun expr_word :: "span \<Rightarrow> string \<Rightarrow> expr" where
  "expr_word sp v = Expr sp (ty_word sp) (EWord v)"

fun con_as_str :: "con \<Rightarrow> string" where
  "con_as_str Inl_con = ''inl''"
| "con_as_str Inr_con = ''inr''"
| "con_as_str (InK_con _) = ''in''"

section \<open>Erasure: the shape of a type\<close>

datatype shape =
    ShWord
  | ShBool
  | ShUnit
  | ShProduct shape shape
  | ShSum shape shape
  | ShRef name
  | ShFunction "shape list" shape

fun erase :: "ty \<Rightarrow> shape" where
  "erase (Ty sp TyWord) = ShWord"
| "erase (Ty sp TyBool) = ShBool"
| "erase (Ty sp TyUnit) = ShUnit"
| "erase (Ty sp (TyProduct lhs rhs)) = ShProduct (erase lhs) (erase rhs)"
| "erase (Ty sp (TySum lhs rhs)) = ShSum (erase lhs) (erase rhs)"
| "erase (Ty sp (TyNamed n inner)) = erase inner"
| "erase (Ty sp (TyNamedRef n)) = ShRef n"
| "erase (Ty sp (TyFunction params ret)) = ShFunction (map erase params) (erase ret)"

text \<open>A type without the placeholder \<open>NamedRef\<close>, which the emitter only produces together with a
  diagnostic.\<close>

fun ref_free :: "ty \<Rightarrow> bool" where
  "ref_free (Ty sp TyWord) = True"
| "ref_free (Ty sp TyBool) = True"
| "ref_free (Ty sp TyUnit) = True"
| "ref_free (Ty sp (TyProduct lhs rhs)) = (ref_free lhs \<and> ref_free rhs)"
| "ref_free (Ty sp (TySum lhs rhs)) = (ref_free lhs \<and> ref_free rhs)"
| "ref_free (Ty sp (TyNamed n inner)) = ref_free inner"
| "ref_free (Ty sp (TyNamedRef n)) = False"
| "ref_free (Ty sp (TyFunction params ret)) = (list_all ref_free params \<and> ref_free ret)"

lemma erase_strip_named [simp]: "erase (strip_named t) = erase t"
  by (induction t rule: strip_named.induct) simp_all

lemma ref_free_strip_named [simp]: "ref_free (strip_named t) = ref_free t"
  by (induction t rule: strip_named.induct) simp_all

lemma strip_named_idem [simp]: "strip_named (strip_named t) = strip_named t"
  by (induction t rule: strip_named.induct) simp_all

lemma strip_named_not_named: "ty_kind (strip_named t) \<noteq> TyNamed n inner"
  by (induction t rule: strip_named.induct) simp_all

lemma size_strip_named: "size (strip_named t) \<le> size t"
  by (induction t rule: strip_named.induct) simp_all

lemma size_ty_kind: "size (ty_kind t) < size t"
  by (cases t) simp

lemma size_strip_kind: "size (ty_kind (strip_named t)) < size t"
  using size_ty_kind[of "strip_named t"] size_strip_named[of t] by simp

lemma strip_parts_smaller:
  "ty_kind (strip_named t) = TyProduct l r \<Longrightarrow> size l < size t \<and> size r < size t"
  "ty_kind (strip_named t) = TySum l r \<Longrightarrow> size l < size t \<and> size r < size t"
  "ty_kind (strip_named t) = TyNamed n l \<Longrightarrow> size l < size t"
  "ty_kind (strip_named t) = TyFunction ps r \<Longrightarrow> (\<forall>p\<in>set ps. size p < size t) \<and> size r < size t"
  using size_strip_kind[of t] by (auto dest: size_list_estimation'[OF _ order_refl, of _ _ size])

text \<open>What the head of a stripped type says about the shape, and back.\<close>

lemma erase_kind:
  "ty_kind (strip_named t) = TyWord \<longleftrightarrow> erase t = ShWord"
  "ty_kind (strip_named t) = TyBool \<longleftrightarrow> erase t = ShBool"
  "ty_kind (strip_named t) = TyUnit \<longleftrightarrow> erase t = ShUnit"
  "ty_kind (strip_named t) = TyNamedRef n \<longleftrightarrow> erase t = ShRef n"
  by (induction t rule: strip_named.induct) simp_all

lemma erase_kind_product:
  "erase t = ShProduct a b \<longleftrightarrow>
     (\<exists>l r. ty_kind (strip_named t) = TyProduct l r \<and> erase l = a \<and> erase r = b)"
  by (induction t rule: strip_named.induct) auto

lemma erase_kind_sum:
  "erase t = ShSum a b \<longleftrightarrow>
     (\<exists>l r. ty_kind (strip_named t) = TySum l r \<and> erase l = a \<and> erase r = b)"
  by (induction t rule: strip_named.induct) auto

lemma ref_free_parts:
  "ty_kind (strip_named t) = TyProduct l r \<Longrightarrow> ref_free t \<longleftrightarrow> ref_free l \<and> ref_free r"
  "ty_kind (strip_named t) = TySum l r \<Longrightarrow> ref_free t \<longleftrightarrow> ref_free l \<and> ref_free r"
  "ty_kind (strip_named t) = TyFunction ps q \<Longrightarrow> ref_free t \<longleftrightarrow> list_all ref_free ps \<and> ref_free q"
  "ty_kind (strip_named t) = TyNamedRef n \<Longrightarrow> \<not> ref_free t"
  by (induction t rule: strip_named.induct) simp_all

lemma erase_of_strip_kind:
  "ty_kind (strip_named t) = TyProduct l r \<Longrightarrow> erase t = ShProduct (erase l) (erase r)"
  "ty_kind (strip_named t) = TySum l r \<Longrightarrow> erase t = ShSum (erase l) (erase r)"
  "ty_kind (strip_named t) = TyFunction ps q \<Longrightarrow> erase t = ShFunction (map erase ps) (erase q)"
  by (induction t rule: strip_named.induct) simp_all

section \<open>Stack slots\<close>

text \<open>The reference count of stack words a value of a shape takes: a sum takes its tag and the
  larger of its sides.\<close>

fun shape_slots :: "shape \<Rightarrow> nat" where
  "shape_slots ShWord = 1"
| "shape_slots ShBool = 1"
| "shape_slots ShUnit = 0"
| "shape_slots (ShProduct a b) = shape_slots a + shape_slots b"
| "shape_slots (ShSum a b) = 1 + max (shape_slots a) (shape_slots b)"
| "shape_slots (ShRef n) = 1"
| "shape_slots (ShFunction ps r) = 1"

text \<open>
  Three crates count slots on their own: \<open>return_count\<close> in the checker, \<open>hull_ty_word_slots\<close>
  in the emitter and \<open>size_of_ty\<close> in the translator. The locale is the contract they share;
  whoever satisfies it computes \<open>shape_slots \<circ> erase\<close>, so any two agree.
\<close>

locale slot_measure =
  fixes slots :: "ty \<Rightarrow> nat"
  assumes slots_word: "slots (Ty sp TyWord) = 1"
    and slots_bool: "slots (Ty sp TyBool) = 1"
    and slots_unit: "slots (Ty sp TyUnit) = 0"
    and slots_product: "slots (Ty sp (TyProduct l r)) = slots l + slots r"
    and slots_sum: "slots (Ty sp (TySum l r)) = 1 + max (slots l) (slots r)"
    and slots_named: "slots (Ty sp (TyNamed n t)) = slots t"
    and slots_named_ref: "slots (Ty sp (TyNamedRef n)) = 1"
    and slots_function: "slots (Ty sp (TyFunction ps r)) = 1"
begin

lemma slots_shape: "slots t = shape_slots (erase t)"
  by (induction t rule: erase.induct)
     (simp_all add: slots_word slots_bool slots_unit slots_product slots_sum slots_named
        slots_named_ref slots_function)

lemma slots_strip_named: "slots (strip_named t) = slots t"
  by (simp add: slots_shape)

end

end
