(* ===== verification/Hull_Types.thy ===== *)
theory Hull_Types
  imports Hull_IR
begin

text \<open>
  The type-level functions of the Hull checker (\<open>crates/hull/src/check.rs\<close>): type equality up to
  nominal wrappers, sum payloads, slot counts, display, and the function tables of Hull
  (\<open>builtin_funs\<close>) and of inline assembly (\<open>asm_builtin_sig\<close>). The lemmas relate
  \<open>type_eq\<close> to equality of erased shapes, give its exact limits on the \<open>NamedRef\<close> placeholder,
  and compare the two builtin tables.
\<close>

section \<open>Displays\<close>

fun ty_display :: "ty \<Rightarrow> string" where
  "ty_display (Ty sp TyWord) = ''word''"
| "ty_display (Ty sp TyBool) = ''bool''"
| "ty_display (Ty sp TyUnit) = ''unit''"
| "ty_display (Ty sp (TyProduct lhs rhs)) = ''('' @ ty_display lhs @ '' * '' @ ty_display rhs @ '')''"
| "ty_display (Ty sp (TySum lhs rhs)) = ''('' @ ty_display lhs @ '' + '' @ ty_display rhs @ '')''"
| "ty_display (Ty sp (TyNamed n inner)) = n @ ''{'' @ ty_display inner @ ''}''"
| "ty_display (Ty sp (TyNamedRef n)) = n"
| "ty_display (Ty sp (TyFunction params ret)) =
     ''('' @ join '', '' (map ty_display params) @ '' -> '' @ ty_display ret @ '')''"

fun pat_display :: "pat \<Rightarrow> string" where
  "pat_display (Pat sp (PVar n)) = n"
| "pat_display (Pat sp (PCon Inl_con)) = ''inl''"
| "pat_display (Pat sp (PCon Inr_con)) = ''inr''"
| "pat_display (Pat sp (PCon (InK_con index))) = ''in('' @ show_nat index @ '')''"
| "pat_display (Pat sp PWildcard) = ''_''"
| "pat_display (Pat sp (PIntLit v)) = v"

section \<open>Queries on types\<close>

fun bool_sum_ty :: "span \<Rightarrow> ty" where
  "bool_sum_ty sp = ty_sum sp (ty_unit sp) (ty_unit sp)"

definition is_bool_like :: "ty \<Rightarrow> bool" where
  "is_bool_like t \<longleftrightarrow>
     ty_kind (strip_named t) = TyBool
     \<or> (case ty_kind (strip_named t) of
          TySum lhs rhs \<Rightarrow> ty_kind (strip_named lhs) = TyUnit \<and> ty_kind (strip_named rhs) = TyUnit
        | _ \<Rightarrow> False)"

definition is_word_type :: "ty \<Rightarrow> bool" where
  "is_word_type t \<longleftrightarrow> ty_kind (strip_named t) = TyWord"

function return_count :: "ty \<Rightarrow> nat" where
  "return_count t =
     (case ty_kind (strip_named t) of
        TyUnit \<Rightarrow> 0
      | TyWord \<Rightarrow> 1
      | TyBool \<Rightarrow> 1
      | TyProduct lhs rhs \<Rightarrow> return_count lhs + return_count rhs
      | TySum lhs rhs \<Rightarrow> 1 + max (return_count lhs) (return_count rhs)
      | TyNamed n inner \<Rightarrow> return_count inner
      | TyNamedRef n \<Rightarrow> 1
      | TyFunction ps r \<Rightarrow> 1)"
  by pat_completeness auto
termination
  by (relation "measure size") (auto dest!: sym[of _ "ty_kind _"] strip_parts_smaller)

declare return_count.simps [simp del]

fun n_returns :: "span \<Rightarrow> nat \<Rightarrow> ty" where
  "n_returns sp 0 = ty_unit sp"
| "n_returns sp (Suc 0) = ty_word sp"
| "n_returns sp (Suc (Suc n)) = ty_product sp (ty_word sp) (n_returns sp (Suc n))"

definition requires_terminator :: "ty \<Rightarrow> bool" where
  "requires_terminator t \<longleftrightarrow> return_count t > 0"

text \<open>The loop of \<open>nth_sum_payload\<close>.\<close>

fun nth_sum_payload_loop :: "ty \<Rightarrow> nat \<Rightarrow> ty option" where
  "nth_sum_payload_loop current remaining =
     (case ty_kind (strip_named current) of
        TySum lhs rhs \<Rightarrow>
          if remaining = 0 then Some lhs
          else nth_sum_payload_loop (strip_named rhs) (remaining - 1)
      | _ \<Rightarrow> if remaining = 0 then Some current else None)"

declare nth_sum_payload_loop.simps [simp del]

definition nth_sum_payload :: "ty \<Rightarrow> nat \<Rightarrow> ty option" where
  "nth_sum_payload target index = nth_sum_payload_loop (strip_named target) index"

definition payload_type :: "ty \<Rightarrow> pat \<Rightarrow> ty option" where
  "payload_type target p =
     (case (ty_kind (strip_named target), pat_kind p) of
        (TySum lhs rhs, PCon Inl_con) \<Rightarrow> Some lhs
      | (TySum lhs rhs, PCon Inr_con) \<Rightarrow> Some rhs
      | (_, PCon (InK_con index)) \<Rightarrow> nth_sum_payload target index
      | (_, PWildcard) \<Rightarrow> Some target
      | (_, PVar n) \<Rightarrow> Some target
      | (TyWord, PIntLit v) \<Rightarrow> Some (ty_word (pat_span p))
      | _ \<Rightarrow> None)"

section \<open>Type equality\<close>

text \<open>The early return of \<open>type_eq\<close>: a \<open>NamedRef\<close> is compared by name.\<close>

definition named_ref_eq :: "ty \<Rightarrow> ty \<Rightarrow> bool option" where
  "named_ref_eq lhs rhs =
     (case (ty_kind lhs, ty_kind rhs) of
        (TyNamedRef a, TyNamedRef b) \<Rightarrow> Some (a = b)
      | (TyNamedRef a, TyNamed b _) \<Rightarrow> Some (a = b)
      | (TyNamed a _, TyNamedRef b) \<Rightarrow> Some (a = b)
      | _ \<Rightarrow> None)"

function type_eq :: "ty \<Rightarrow> ty \<Rightarrow> bool" where
  "type_eq lhs rhs =
     (case named_ref_eq lhs rhs of
        Some b \<Rightarrow> b
      | None \<Rightarrow>
          (case ty_kind (strip_named lhs) of
             TyWord \<Rightarrow> ty_kind (strip_named rhs) = TyWord
           | TyBool \<Rightarrow> ty_kind (strip_named rhs) = TyBool
           | TyUnit \<Rightarrow> ty_kind (strip_named rhs) = TyUnit
           | TyProduct a_lhs a_rhs \<Rightarrow>
               (case ty_kind (strip_named rhs) of
                  TyProduct b_lhs b_rhs \<Rightarrow> type_eq a_lhs b_lhs \<and> type_eq a_rhs b_rhs
                | _ \<Rightarrow> False)
           | TySum a_lhs a_rhs \<Rightarrow>
               (case ty_kind (strip_named rhs) of
                  TySum b_lhs b_rhs \<Rightarrow> type_eq a_lhs b_lhs \<and> type_eq a_rhs b_rhs
                | _ \<Rightarrow> False)
           | TyFunction a_params a_ret \<Rightarrow>
               (case ty_kind (strip_named rhs) of
                  TyFunction b_params b_ret \<Rightarrow>
                    length a_params = length b_params
                    \<and> list_all (\<lambda>(p, q). type_eq p q) (zip a_params b_params)
                    \<and> type_eq a_ret b_ret
                | _ \<Rightarrow> False)
           | _ \<Rightarrow> False))"
  by pat_completeness auto
termination
  by (relation "measure (\<lambda>(l, r). size l)")
     (auto dest!: sym[of _ "ty_kind _"] set_zip_leftD strip_parts_smaller)

declare type_eq.simps [simp del]

section \<open>Lemmas: slot counts\<close>

lemma return_count_simps [simp]:
  "return_count (Ty sp TyWord) = 1"
  "return_count (Ty sp TyBool) = 1"
  "return_count (Ty sp TyUnit) = 0"
  "return_count (Ty sp (TyProduct l r)) = return_count l + return_count r"
  "return_count (Ty sp (TySum l r)) = 1 + max (return_count l) (return_count r)"
  "return_count (Ty sp (TyNamed n t)) = return_count t"
  "return_count (Ty sp (TyNamedRef n)) = 1"
  "return_count (Ty sp (TyFunction ps r)) = 1"
proof -
  show "return_count (Ty sp (TyNamed n t)) = return_count t"
    by (subst (1 2) return_count.simps) simp
qed (subst return_count.simps, simp)+

interpretation checker_slots: slot_measure return_count
  by unfold_locales simp_all

lemma return_count_n_returns: "return_count (n_returns sp n) = n"
  by (induction sp n rule: n_returns.induct) simp_all

text \<open>A one-result assembly function returns a word, so \<open>is_word_type\<close> accepts exactly the
  types \<open>n_returns\<close> builds for one result.\<close>

lemma is_word_type_erase: "is_word_type t \<longleftrightarrow> erase t = ShWord"
  by (simp add: is_word_type_def erase_kind)

lemma is_word_type_n_returns: "is_word_type (n_returns sp n) \<longleftrightarrow> n = 1"
  by (induction sp n rule: n_returns.induct) (simp_all add: is_word_type_def)

lemma is_bool_like_erase:
  "is_bool_like t \<longleftrightarrow> erase t = ShBool \<or> erase t = ShSum ShUnit ShUnit"
proof -
  have "(case ty_kind (strip_named t) of
          TySum lhs rhs \<Rightarrow> ty_kind (strip_named lhs) = TyUnit \<and> ty_kind (strip_named rhs) = TyUnit
        | _ \<Rightarrow> False) \<longleftrightarrow> erase t = ShSum ShUnit ShUnit"
    by (cases "ty_kind (strip_named t)"; simp add: erase_kind_sum; simp add: erase_kind(3))
  then show ?thesis by (simp add: is_bool_like_def erase_kind)
qed

lemma bool_like_one_slot: "is_bool_like t \<Longrightarrow> return_count t = 1"
  by (auto simp: is_bool_like_erase checker_slots.slots_shape)

section \<open>Lemmas: sum payloads\<close>

text \<open>The \<open>k\<close>-th summand of a right-nested sum shape; the last index names the whole tail.\<close>

fun shape_summand :: "shape \<Rightarrow> nat \<Rightarrow> shape option" where
  "shape_summand (ShSum a b) 0 = Some a"
| "shape_summand (ShSum a b) (Suc k) = shape_summand b k"
| "shape_summand s 0 = Some s"
| "shape_summand s (Suc k) = None"

lemma nth_sum_payload_loop_shape:
  "map_option erase (nth_sum_payload_loop t k) = shape_summand (erase t) k"
proof (induction t k rule: nth_sum_payload_loop.induct)
  case (1 current remaining)
  show ?case
  proof (cases "\<exists>l r. ty_kind (strip_named current) = TySum l r")
    case True
    then obtain l r where k: "ty_kind (strip_named current) = TySum l r" by blast
    then have "erase current = ShSum (erase l) (erase r)" by (rule erase_of_strip_kind)
    with k 1[OF k] show ?thesis
      by (cases remaining) (simp_all add: nth_sum_payload_loop.simps[of current])
  next
    case False
    then have "\<And>a b. erase current \<noteq> ShSum a b" by (auto simp: erase_kind_sum)
    then have "shape_summand (erase current) remaining =
        (if remaining = 0 then Some (erase current) else None)"
      by (cases "erase current"; cases remaining) simp_all
    with False show ?thesis
      by (subst nth_sum_payload_loop.simps) (auto split: ty_kind.splits)
  qed
qed

lemma nth_sum_payload_shape:
  "map_option erase (nth_sum_payload t k) = shape_summand (erase t) k"
  by (simp add: nth_sum_payload_def nth_sum_payload_loop_shape)

lemma shape_summand_slots: "shape_summand s k = Some s' \<Longrightarrow> shape_slots s' \<le> shape_slots s"
  by (induction s k rule: shape_summand.induct) auto

section \<open>Lemmas: type equality\<close>

declare strip_named_not_named [simp]

lemma erase_unfold:
  "erase t = (case ty_kind (strip_named t) of
      TyWord \<Rightarrow> ShWord | TyBool \<Rightarrow> ShBool | TyUnit \<Rightarrow> ShUnit
    | TyProduct l r \<Rightarrow> ShProduct (erase l) (erase r)
    | TySum l r \<Rightarrow> ShSum (erase l) (erase r)
    | TyNamed n inner \<Rightarrow> erase inner
    | TyNamedRef n \<Rightarrow> ShRef n
    | TyFunction ps r \<Rightarrow> ShFunction (map erase ps) (erase r))"
  by (induction t rule: strip_named.induct) simp_all

lemma named_ref_eq_sym: "named_ref_eq a b = named_ref_eq b a"
  by (auto simp: named_ref_eq_def split: ty_kind.split)

lemma ref_free_named_ref_eq: "ref_free a \<Longrightarrow> ref_free b \<Longrightarrow> named_ref_eq a b = None"
  by (cases a; cases b) (auto simp: named_ref_eq_def split: ty_kind.split)

text \<open>The equation of \<open>type_eq\<close> on the heads of the stripped types.\<close>

lemma type_eq_structural:
  assumes "named_ref_eq a b = None"
  shows "type_eq a b \<longleftrightarrow>
    (case (ty_kind (strip_named a), ty_kind (strip_named b)) of
       (TyWord, TyWord) \<Rightarrow> True
     | (TyBool, TyBool) \<Rightarrow> True
     | (TyUnit, TyUnit) \<Rightarrow> True
     | (TyProduct l r, TyProduct l' r') \<Rightarrow> type_eq l l' \<and> type_eq r r'
     | (TySum l r, TySum l' r') \<Rightarrow> type_eq l l' \<and> type_eq r r'
     | (TyFunction ps r, TyFunction qs r') \<Rightarrow> list_all2 type_eq ps qs \<and> type_eq r r'
     | _ \<Rightarrow> False)"
  using assms
  by (subst type_eq.simps) (simp add: list_all2_iff list_all_iff case_prod_beta conj_assoc split: ty_kind.split)

lemma type_eq_by_name: "named_ref_eq a b = Some r \<Longrightarrow> type_eq a b = r"
  by (subst type_eq.simps) simp

lemma type_eq_sym_imp: "type_eq a b \<Longrightarrow> type_eq b a"
proof (induction a b rule: type_eq.induct)
  case (1 a b)
  show ?case
  proof (cases "named_ref_eq a b")
    case (Some r)
    with 1(7) show ?thesis by (metis named_ref_eq_sym type_eq_by_name)
  next
    case None
    then have n': "named_ref_eq b a = None" by (simp add: named_ref_eq_sym)
    show ?thesis
    proof (cases "ty_kind (strip_named a)")
      case (TyFunction ps r)
      with 1(7) None obtain qs r' where f: "ty_kind (strip_named b) = TyFunction qs r'"
        and all: "list_all2 type_eq ps qs" and ret: "type_eq r r'"
        by (auto simp: type_eq_structural split: ty_kind.splits)
      have len: "length ps = length qs" using all by (rule list_all2_lengthD)
      have "type_eq q p" if "(p, q) \<in> set (zip ps qs)" for p q
        using 1(5)[OF None TyFunction f that refl] all that by (auto simp: list_all2_iff)
      then have "list_all2 type_eq qs ps"
        using len by (auto simp: list_all2_conv_all_nth in_set_zip)
      moreover have "type_eq r' r"
        using 1(6)[OF None TyFunction f] ret all by (auto simp: list_all2_iff list_all_iff)
      ultimately show ?thesis using TyFunction f n' by (simp add: type_eq_structural)
    next
      case (TyProduct l r)
      with 1(7) None obtain l' r' where f: "ty_kind (strip_named b) = TyProduct l' r'"
        and c: "type_eq l l'" "type_eq r r'"
        by (auto simp: type_eq_structural split: ty_kind.splits)
      from 1(1)[OF None TyProduct f c(1)] 1(2)[OF None TyProduct f c(2)] show ?thesis
        using TyProduct f n' by (simp add: type_eq_structural)
    next
      case (TySum l r)
      with 1(7) None obtain l' r' where f: "ty_kind (strip_named b) = TySum l' r'"
        and c: "type_eq l l'" "type_eq r r'"
        by (auto simp: type_eq_structural split: ty_kind.splits)
      from 1(3)[OF None TySum f c(1)] 1(4)[OF None TySum f c(2)] show ?thesis
        using TySum f n' by (simp add: type_eq_structural)
    qed (use 1(7) None n' in \<open>auto simp: type_eq_structural split: ty_kind.splits\<close>)
  qed
qed

text \<open>On types without placeholders the code's comparison decides equality of shapes.\<close>

lemma type_eq_erase:
  assumes "ref_free a" and "ref_free b"
  shows "type_eq a b \<longleftrightarrow> erase a = erase b"
  using assms
proof (induction a b rule: type_eq.induct)
  case (1 a b)
  note n = ref_free_named_ref_eq[OF 1(7,8)]
  show ?case
  proof (cases "ty_kind (strip_named a)")
    case (TyFunction ps r)
    have rf: "list_all ref_free ps" "ref_free r" using 1(7) ref_free_parts(3)[OF TyFunction] by simp_all
    show ?thesis
    proof (cases "ty_kind (strip_named b)")
      case f: (TyFunction qs r')
      have rf': "list_all ref_free qs" "ref_free r'" using 1(8) ref_free_parts(3)[OF f] by simp_all
      have "type_eq p q \<longleftrightarrow> erase p = erase q"
        if "(p, q) \<in> set (zip ps qs)" for p q
        using 1(5)[OF n TyFunction f that refl] rf(1) rf'(1) that
        by (auto simp: list_all_iff dest: set_zip_leftD set_zip_rightD)
      then have "type_eq (ps ! i) (qs ! i) \<longleftrightarrow> erase (ps ! i) = erase (qs ! i)"
        if "length ps = length qs" "i < length qs" for i
        using that by (simp add: in_set_zip) blast
      then have ps: "list_all2 type_eq ps qs \<longleftrightarrow> map erase ps = map erase qs"
        by (auto simp: list_all2_conv_all_nth list_eq_iff_nth_eq)
      have "type_eq r r' \<longleftrightarrow> erase r = erase r'"
        using 1(6)[OF n TyFunction f] rf(2) rf'(2) by simp
      with ps show ?thesis using n TyFunction f
        by (auto simp: type_eq_structural erase_of_strip_kind)
    qed (use n TyFunction in \<open>simp_all add: type_eq_structural erase_unfold[of a] erase_unfold[of b]\<close>)
  next
    case (TyNamedRef x)
    with 1(7) show ?thesis by (simp add: ref_free_parts)
  next
    case (TyNamed x t)
    then show ?thesis by (simp add: strip_named_not_named)
  next
    case (TyProduct l r)
    then show ?thesis
    proof (cases "ty_kind (strip_named b)")
      case f: (TyProduct l' r')
      with TyProduct 1(1)[OF n TyProduct f] 1(2)[OF n TyProduct f] 1(7,8) n show ?thesis
        by (auto simp: type_eq_structural ref_free_parts erase_of_strip_kind)
    qed (use n in \<open>simp_all add: type_eq_structural erase_unfold[of a] erase_unfold[of b]\<close>)
  next
    case (TySum l r)
    then show ?thesis
    proof (cases "ty_kind (strip_named b)")
      case f: (TySum l' r')
      with TySum 1(3)[OF n TySum f] 1(4)[OF n TySum f] 1(7,8) n show ?thesis
        by (auto simp: type_eq_structural ref_free_parts erase_of_strip_kind)
    qed (use n in \<open>simp_all add: type_eq_structural erase_unfold[of a] erase_unfold[of b]\<close>)
  qed (use n in \<open>simp_all add: type_eq_structural erase_unfold[of a] erase_unfold[of b] split: ty_kind.split\<close>)
qed

section \<open>Properties\<close>

text \<open>C32. On types without the \<open>NamedRef\<close> placeholder the recursive comparison of the checker is
  equality of shapes: nominal wrappers and spans are invisible to it. In particular it is an
  equivalence relation there.\<close>

theorem type_eq_decides_shape:
  assumes "ref_free a" and "ref_free b"
  shows "type_eq a b \<longleftrightarrow> erase a = erase b"
  using assms by (rule type_eq_erase)

theorem type_eq_decides_shape_witness:
  "let sp = \<lparr>anchor = 0, sp_begin = 1, sp_end = 2\<rparr>; sp' = \<lparr>anchor = 7, sp_begin = 0, sp_end = 0\<rparr>;
       t = Ty sp (TyNamed ''A'' (Ty sp TyWord)); u = Ty sp' TyWord
   in ref_free t \<and> ref_free u \<and> type_eq t u"
  using type_eq_decides_shape[of "Ty \<lparr>anchor = 0, sp_begin = 1, sp_end = 2\<rparr> (TyNamed ''A''
      (Ty \<lparr>anchor = 0, sp_begin = 1, sp_end = 2\<rparr> TyWord))"
    "Ty \<lparr>anchor = 7, sp_begin = 0, sp_end = 0\<rparr> TyWord"]
  by (simp add: Let_def)

text \<open>C40. The comparison is symmetric on all types, but with \<open>NamedRef\<close> it is neither
  reflexive (a wrapper directly around a placeholder differs from itself) nor transitive.\<close>

theorem type_eq_symmetric_not_equivalence:
  "(\<forall>a b. type_eq a b = type_eq b a)
    \<and> (\<exists>t. \<not> type_eq t t)
    \<and> (\<exists>a b c. type_eq a b \<and> type_eq b c \<and> \<not> type_eq a c)"
proof (intro conjI exI)
  fix sp
  let ?ref = "Ty sp (TyNamedRef ''A'')" and ?w = "Ty sp TyWord"
  let ?a = "Ty sp (TyNamed ''A'' ?w)" and ?b = "Ty sp (TyNamed ''B'' ?ref)"
  show "\<forall>a b. type_eq a b = type_eq b a" by (blast intro: type_eq_sym_imp)
  show "\<not> type_eq ?b ?b" by (subst type_eq.simps) (simp add: named_ref_eq_def)
  show "type_eq ?ref ?a" by (subst type_eq.simps) (simp add: named_ref_eq_def)
  show "type_eq ?a ?w" by (subst type_eq.simps) (simp add: named_ref_eq_def)
  show "\<not> type_eq ?ref ?w" by (subst type_eq.simps) (simp add: named_ref_eq_def)
qed

end
