(* ===== verification/Hull_Check.thy ===== *)
theory Hull_Check
  imports Hull_Builtins
begin

text \<open>
  The Hull validator (\<open>crates/hull/src/check.rs\<close>): its diagnostics, its environment \<open>Env\<close> as a
  record, and every method that reads or changes it, in the order of the file. A method with
  \<open>&mut self\<close> is a function from the environment to the environment (paired with its value).
  Scope stacks are lists with the innermost scope last (\<open>crates/hull/src/scope_stack.rs\<close>); where
  the code would panic on an empty stack the model leaves the environment unchanged, and
  the theory \<open>Hull_Check_Frame\<close> shows that the stack is never empty.
\<close>

section \<open>Diagnostics\<close>

datatype check_diagnostic_kind =
    UndefinedVariable string
  | UndefinedFunction string
  | DuplicateFunction string
  | ArityMismatch string nat nat
  | TypeMismatch string string
  | ExprAnnotationMismatch string string
  | ExpectedProduct string
  | ExpectedSum string
  | ExpectedBool string
  | BadInjectionIndex nat string
  | BadMatchPattern string string
  | ReturnOutsideFunction
  | FunctionTypeNotFirstOrder string
  | MissingTerminator string
  | AssemblyRequiresDatabase
  | AssemblyReturnCountMismatch string nat nat
  | AssemblyExpressionNotUnit string
  | AssemblyExpectedWordArgument string
  | AssemblyExpectedWordAssignment string string
  | AssemblyVoidArgument

record check_diagnostic =
  diag_span :: span
  diag_kind :: check_diagnostic_kind

fun diagnostic_code :: "check_diagnostic_kind \<Rightarrow> string" where
  "diagnostic_code (UndefinedVariable _) = ''SC0430''"
| "diagnostic_code (UndefinedFunction _) = ''SC0431''"
| "diagnostic_code (DuplicateFunction _) = ''SC0432''"
| "diagnostic_code (ArityMismatch _ _ _) = ''SC0433''"
| "diagnostic_code (TypeMismatch _ _) = ''SC0434''"
| "diagnostic_code (ExprAnnotationMismatch _ _) = ''SC0435''"
| "diagnostic_code (ExpectedProduct _) = ''SC0436''"
| "diagnostic_code (ExpectedSum _) = ''SC0437''"
| "diagnostic_code (ExpectedBool _) = ''SC0438''"
| "diagnostic_code (BadInjectionIndex _ _) = ''SC0439''"
| "diagnostic_code (BadMatchPattern _ _) = ''SC0440''"
| "diagnostic_code ReturnOutsideFunction = ''SC0441''"
| "diagnostic_code (FunctionTypeNotFirstOrder _) = ''SC0442''"
| "diagnostic_code (MissingTerminator _) = ''SC0443''"
| "diagnostic_code AssemblyRequiresDatabase = ''SC0444''"
| "diagnostic_code (AssemblyReturnCountMismatch _ _ _) = ''SC0445''"
| "diagnostic_code (AssemblyExpressionNotUnit _) = ''SC0446''"
| "diagnostic_code (AssemblyExpectedWordArgument _) = ''SC0447''"
| "diagnostic_code (AssemblyExpectedWordAssignment _ _) = ''SC0448''"
| "diagnostic_code AssemblyVoidArgument = ''SC0449''"

fun diagnostic_message :: "check_diagnostic_kind \<Rightarrow> string" where
  "diagnostic_message (UndefinedVariable n) = ''undefined Hull variable `'' @ n @ ''`''"
| "diagnostic_message (UndefinedFunction n) = ''undefined Hull function `'' @ n @ ''`''"
| "diagnostic_message (DuplicateFunction n) = ''duplicate Hull function `'' @ n @ ''`''"
| "diagnostic_message (ArityMismatch n expected actual) =
     ''wrong arity for Hull function `'' @ n @ ''`: expected '' @ show_nat expected
       @ '', got '' @ show_nat actual"
| "diagnostic_message (TypeMismatch expected actual) =
     ''Hull type mismatch: expected '' @ expected @ '', got '' @ actual"
| "diagnostic_message (ExprAnnotationMismatch annotated inferred) =
     ''Hull expression annotation mismatch: annotated '' @ annotated @ '', inferred '' @ inferred"
| "diagnostic_message (ExpectedProduct actual) = ''expected Hull product, got '' @ actual"
| "diagnostic_message (ExpectedSum actual) = ''expected Hull sum, got '' @ actual"
| "diagnostic_message (ExpectedBool actual) = ''expected Hull bool, got '' @ actual"
| "diagnostic_message (BadInjectionIndex index t) =
     ''bad Hull injection index '' @ show_nat index @ '' for '' @ t"
| "diagnostic_message (BadMatchPattern p t) = ''Hull pattern '' @ p @ '' does not match '' @ t"
| "diagnostic_message ReturnOutsideFunction = ''Hull return appears outside a function''"
| "diagnostic_message (FunctionTypeNotFirstOrder n) =
     ''Hull function `'' @ n @ ''` has a non-first-order type''"
| "diagnostic_message (MissingTerminator f) = ''Hull function `'' @ f @ ''` is missing a terminator''"
| "diagnostic_message AssemblyRequiresDatabase =
     ''cannot check inline assembly without a source database''"
| "diagnostic_message (AssemblyReturnCountMismatch ctx expected actual) =
     ''inline assembly '' @ ctx @ '' returns '' @ show_nat actual @ '' values, expected ''
       @ show_nat expected"
| "diagnostic_message (AssemblyExpressionNotUnit actual) =
     ''inline assembly expression must have unit type, got '' @ actual"
| "diagnostic_message (AssemblyExpectedWordArgument actual) =
     ''inline assembly argument must have word type, got '' @ actual"
| "diagnostic_message (AssemblyExpectedWordAssignment n actual) =
     ''inline assembly assignment to `'' @ n @ ''` requires word type, got '' @ actual"
| "diagnostic_message AssemblyVoidArgument = ''inline assembly argument does not produce a value''"

fun primary_label :: "check_diagnostic_kind \<Rightarrow> string" where
  "primary_label (UndefinedVariable _) = ''undefined variable''"
| "primary_label (UndefinedFunction _) = ''undefined function''"
| "primary_label (DuplicateFunction _) = ''duplicate function''"
| "primary_label (ArityMismatch _ _ _) = ''wrong number of arguments''"
| "primary_label (TypeMismatch _ _) = ''type mismatch''"
| "primary_label (ExprAnnotationMismatch _ _) = ''annotation mismatch''"
| "primary_label (ExpectedProduct _) = ''product value required''"
| "primary_label (ExpectedSum _) = ''sum value required''"
| "primary_label (ExpectedBool _) = ''boolean value required''"
| "primary_label (BadInjectionIndex _ _) = ''bad injection index''"
| "primary_label (BadMatchPattern _ _) = ''bad match pattern''"
| "primary_label ReturnOutsideFunction = ''return outside function''"
| "primary_label (FunctionTypeNotFirstOrder _) = ''function type is not first-order''"
| "primary_label (MissingTerminator _) = ''missing terminator''"
| "primary_label AssemblyRequiresDatabase = ''database required for assembly check''"
| "primary_label (AssemblyReturnCountMismatch _ _ _) = ''assembly return count mismatch''"
| "primary_label (AssemblyExpressionNotUnit _) = ''assembly expression must be unit''"
| "primary_label (AssemblyExpectedWordArgument _) = ''assembly argument must be word''"
| "primary_label (AssemblyExpectedWordAssignment _ _) = ''assembly assignment must be word''"
| "primary_label AssemblyVoidArgument = ''assembly argument has no value''"

section \<open>The environment\<close>

record env =
  env_db :: "hir_db option"
  env_vars :: "(name \<rightharpoonup> ty) list"
  env_funs :: "name \<rightharpoonup> fun_sig"
  env_asm_funs :: "(name \<rightharpoonup> fun_sig) list"
  env_ret :: "ty option"
  diagnostics :: "check_diagnostic list"

definition push_diag :: "span \<Rightarrow> check_diagnostic_kind \<Rightarrow> env \<Rightarrow> env" where
  "push_diag sp k env =
     env\<lparr>diagnostics := diagnostics env @ [\<lparr>diag_span = sp, diag_kind = k\<rparr>]\<rparr>"

definition insert_var :: "name \<Rightarrow> ty \<Rightarrow> env \<Rightarrow> env" where
  "insert_var n t env =
     (case scopes_insert n t (env_vars env) of
        None \<Rightarrow> env
      | Some vars \<Rightarrow> env\<lparr>env_vars := vars\<rparr>)"

definition lookup_var :: "env \<Rightarrow> name \<Rightarrow> ty option" where
  "lookup_var env n = scopes_lookup (env_vars env) n"

text \<open>\<open>with_scope(f)\<close> is \<open>leave_scope (f (enter_scope env))\<close>.\<close>

definition enter_scope :: "env \<Rightarrow> env" where
  "enter_scope env = env\<lparr>env_vars := vec_push Map.empty (env_vars env)\<rparr>"

definition leave_scope :: "env \<Rightarrow> env" where
  "leave_scope env =
     (case vec_pop (env_vars env) of
        None \<Rightarrow> env
      | Some (_, vars) \<Rightarrow> env\<lparr>env_vars := vars\<rparr>)"

definition enter_asm_scope :: "env \<Rightarrow> env" where
  "enter_asm_scope env = env\<lparr>env_asm_funs := vec_push Map.empty (env_asm_funs env)\<rparr>"

definition leave_asm_scope :: "env \<Rightarrow> env" where
  "leave_asm_scope env =
     (case vec_pop (env_asm_funs env) of
        None \<Rightarrow> env
      | Some (_, scopes) \<Rightarrow> env\<lparr>env_asm_funs := scopes\<rparr>)"

definition insert_asm_fun :: "name \<Rightarrow> fun_sig \<Rightarrow> env \<Rightarrow> env" where
  "insert_asm_fun n s env =
     (case scopes_insert n s (env_asm_funs env) of
        None \<Rightarrow> env
      | Some scopes \<Rightarrow> env\<lparr>env_asm_funs := scopes\<rparr>)"

definition expect_type :: "span \<Rightarrow> ty \<Rightarrow> ty \<Rightarrow> env \<Rightarrow> env" where
  "expect_type sp expected actual env =
     (if type_eq expected actual then env
      else push_diag sp (TypeMismatch (ty_display expected) (ty_display actual)) env)"

definition yul_name :: "env \<Rightarrow> ident_at \<Rightarrow> string" where
  "yul_name env n = (case env_db env of Some db \<Rightarrow> db (atom n) | None \<Rightarrow> ''<unknown>'')"

section \<open>Expressions\<close>

text \<open>\<open>check_args\<close> is the loop over \<open>sig.args.iter().zip(args)\<close>.\<close>

fun check_expr :: "expr \<Rightarrow> env \<Rightarrow> ty \<times> env"
  and infer_expr :: "expr \<Rightarrow> env \<Rightarrow> ty \<times> env"
  and check_args :: "ty list \<Rightarrow> expr list \<Rightarrow> env \<Rightarrow> env" where
  "check_expr e env =
     (let (inferred, env) = infer_expr e env
      in (inferred,
          if type_eq (expr_ty e) inferred then env
          else push_diag (expr_span e)
                 (ExprAnnotationMismatch (ty_display (expr_ty e)) (ty_display inferred)) env))"
| "infer_expr (Expr sp t (EWord _)) env = (ty_word sp, env)"
| "infer_expr (Expr sp t (EBool _)) env = (ty_bool sp, env)"
| "infer_expr (Expr sp t EUnit) env = (ty_unit sp, env)"
| "infer_expr (Expr sp t (EVar n)) env =
     (case lookup_var env n of
        Some t' \<Rightarrow> (t', env)
      | None \<Rightarrow> (t, push_diag sp (UndefinedVariable n) env))"
| "infer_expr (Expr sp t (EPair lhs rhs)) env =
     (let (lhs_ty, env) = check_expr lhs env;
          (rhs_ty, env) = check_expr rhs env
      in (ty_product sp lhs_ty rhs_ty, env))"
| "infer_expr (Expr sp t (EFst inner)) env =
     (let (actual, env) = check_expr inner env
      in case ty_kind (strip_named actual) of
           TyProduct lhs _ \<Rightarrow> (lhs, env)
         | _ \<Rightarrow> (t, push_diag (expr_span inner) (ExpectedProduct (ty_display actual)) env))"
| "infer_expr (Expr sp t (ESnd inner)) env =
     (let (actual, env) = check_expr inner env
      in case ty_kind (strip_named actual) of
           TyProduct _ rhs \<Rightarrow> (rhs, env)
         | _ \<Rightarrow> (t, push_diag (expr_span inner) (ExpectedProduct (ty_display actual)) env))"
| "infer_expr (Expr sp t (EInl target v)) env =
     (case ty_kind (strip_named target) of
        TySum lhs _ \<Rightarrow>
          (let (actual, env) = check_expr v env
           in (target, expect_type (expr_span v) lhs actual env))
      | _ \<Rightarrow> (target, push_diag (ty_span target) (ExpectedSum (ty_display target)) env))"
| "infer_expr (Expr sp t (EInr target v)) env =
     (case ty_kind (strip_named target) of
        TySum _ rhs \<Rightarrow>
          (let (actual, env) = check_expr v env
           in (target, expect_type (expr_span v) rhs actual env))
      | _ \<Rightarrow> (target, push_diag (ty_span target) (ExpectedSum (ty_display target)) env))"
| "infer_expr (Expr sp t (EInK index target v)) env =
     (case nth_sum_payload target index of
        Some expected \<Rightarrow>
          (let (actual, env) = check_expr v env
           in (target, expect_type (expr_span v) expected actual env))
      | None \<Rightarrow> (target, push_diag (ty_span target) (BadInjectionIndex index (ty_display target)) env))"
| "infer_expr (Expr sp t (ECall callee args)) env =
     (case env_funs env callee of
        None \<Rightarrow> (t, push_diag sp (UndefinedFunction callee) env)
      | Some s \<Rightarrow>
          if length (sig_args s) \<noteq> length args
          then (sig_ret s, push_diag sp (ArityMismatch callee (length (sig_args s)) (length args)) env)
          else (sig_ret s, check_args (sig_args s) args env))"
| "infer_expr (Expr sp t (EIf target cond then_expr else_expr)) env =
     (let (cond_ty, env) = check_expr cond env;
          env = (if is_bool_like cond_ty then env
                 else push_diag (expr_span cond) (ExpectedBool (ty_display cond_ty)) env);
          (then_ty, env) = check_expr then_expr env;
          (else_ty, env) = check_expr else_expr env;
          env = expect_type (expr_span then_expr) target then_ty env;
          env = expect_type (expr_span else_expr) target else_ty env
      in (target, env))"
| "check_args (expected # ts) (a # as) env =
     (let (actual, env) = check_expr a env
      in check_args ts as (expect_type (expr_span a) expected actual env))"
| "check_args [] as env = env"
| "check_args (t # ts) [] env = env"

declare check_expr.simps [simp del]

section \<open>Inline assembly\<close>

definition lookup_asm_fun :: "span \<Rightarrow> name \<Rightarrow> env \<Rightarrow> fun_sig \<times> env" where
  "lookup_asm_fun sp n env =
     (let word_sig = (\<lambda>s. \<lparr>sig_args = replicate (length (sig_args s)) (ty_word sp),
                           sig_ret = n_returns sp (return_count (sig_ret s))\<rparr>);
          undefined_sig = (\<lparr>sig_args = [], sig_ret = ty_unit sp\<rparr>,
                           push_diag sp (UndefinedFunction n) env)
      in case strip_prefix ''usr$'' n of
           Some key \<Rightarrow>
             (case env_funs env key of
                Some s \<Rightarrow> (word_sig s, env)
              | None \<Rightarrow> undefined_sig)
         | None \<Rightarrow>
             (case asm_builtin_sig sp n of
                Some s \<Rightarrow> (s, env)
              | None \<Rightarrow>
                  (case (case scopes_lookup (env_asm_funs env) n of
                           Some s \<Rightarrow> Some s
                         | None \<Rightarrow> env_funs env n) of
                     Some s \<Rightarrow> (word_sig s, env)
                   | None \<Rightarrow> undefined_sig)))"

fun check_asm_expr :: "hir_yul_expr \<Rightarrow> env \<Rightarrow> ty \<times> env"
  and check_asm_arg :: "hir_yul_expr \<Rightarrow> env \<Rightarrow> env"
  and check_asm_args :: "hir_yul_expr list \<Rightarrow> env \<Rightarrow> env" where
  "check_asm_expr (HirYulExpr sp (HELit _)) env = (ty_word sp, env)"
| "check_asm_expr (HirYulExpr sp (HEIdent x)) env =
     (case lookup_var env (yul_name env x) of
        Some t \<Rightarrow> (t, env)
      | None \<Rightarrow> (ty_word sp, push_diag sp (UndefinedVariable (yul_name env x)) env))"
| "check_asm_expr (HirYulExpr sp (HECall f args)) env =
     (let n = yul_name env f;
          (s, env) = lookup_asm_fun sp n env
      in if length (sig_args s) \<noteq> length args
         then (sig_ret s, push_diag sp (ArityMismatch n (length (sig_args s)) (length args)) env)
         else (sig_ret s, check_asm_args args env))"
| "check_asm_expr (HirYulExpr sp HEError) env = (ty_word sp, env)"
| "check_asm_arg e env =
     (let (t, env) = check_asm_expr e env
      in if is_word_type t then env
         else if type_eq t (ty_unit (hye_span e)) then push_diag (hye_span e) AssemblyVoidArgument env
         else push_diag (hye_span e) (AssemblyExpectedWordArgument (ty_display t)) env)"
| "check_asm_args [] env = env"
| "check_asm_args (a # as) env = check_asm_args as (check_asm_arg a env)"

declare check_asm_arg.simps [simp del]

fun predeclare_asm_function :: "hir_yul_stmt \<Rightarrow> env \<Rightarrow> env" where
  "predeclare_asm_function (HirYulStmt sp (HSFunctionDef f params rets body)) env =
     (let n = yul_name env f;
          env = (if env_asm_funs env \<noteq> [] \<and> last (env_asm_funs env) n \<noteq> None
                 then push_diag sp (DuplicateFunction n) env else env)
      in insert_asm_fun n
           \<lparr>sig_args = replicate (length params) (ty_word sp),
            sig_ret = n_returns sp (length rets)\<rparr> env)"
| "predeclare_asm_function _ env = env"

definition predeclare_asm_functions :: "hir_yul_stmt list \<Rightarrow> env \<Rightarrow> env" where
  "predeclare_asm_functions stmts env = fold predeclare_asm_function stmts env"

definition insert_words :: "span \<Rightarrow> ident_at list \<Rightarrow> env \<Rightarrow> env" where
  "insert_words sp names env =
     fold (\<lambda>x env. insert_var (yul_name env x) (ty_word sp) env) names env"

text \<open>The loop over the names of an assembly assignment.\<close>

definition check_asm_target :: "span \<Rightarrow> ident_at \<Rightarrow> env \<Rightarrow> env" where
  "check_asm_target sp x env =
     (let n = yul_name env x
      in case lookup_var env n of
           Some t \<Rightarrow>
             if is_word_type t then env
             else push_diag sp (AssemblyExpectedWordAssignment n (ty_display t)) env
         | None \<Rightarrow> push_diag sp (UndefinedVariable n) env)"

definition expect_return_count :: "span \<Rightarrow> string \<Rightarrow> nat \<Rightarrow> nat \<Rightarrow> env \<Rightarrow> env" where
  "expect_return_count sp ctx expected actual env =
     (if actual \<noteq> expected then push_diag sp (AssemblyReturnCountMismatch ctx expected actual) env
      else env)"

fun check_asm_block :: "hir_yul_stmt list \<Rightarrow> env \<Rightarrow> env"
  and check_asm_stmt_seq :: "hir_yul_stmt list \<Rightarrow> env \<Rightarrow> env"
  and check_asm_stmt :: "hir_yul_stmt \<Rightarrow> env \<Rightarrow> env"
  and check_asm_cases :: "hir_yul_case list \<Rightarrow> env \<Rightarrow> env" where
  "check_asm_block stmts env =
     leave_asm_scope (check_asm_stmt_seq stmts
       (predeclare_asm_functions stmts (enter_asm_scope env)))"
| "check_asm_stmt_seq [] env = env"
| "check_asm_stmt_seq (s # ss) env = check_asm_stmt_seq ss (check_asm_stmt s env)"
| "check_asm_stmt (HirYulStmt sp (HSBlock stmts)) env =
     leave_scope (check_asm_block stmts (enter_scope env))"
| "check_asm_stmt (HirYulStmt sp (HSLet names None)) env = insert_words sp names env"
| "check_asm_stmt (HirYulStmt sp (HSLet names (Some init))) env =
     (let (t, env) = check_asm_expr init env;
          env = expect_return_count (hye_span init) ''let binding'' (length names) (return_count t) env
      in insert_words sp names env)"
| "check_asm_stmt (HirYulStmt sp (HSAssign names v)) env =
     (let env = fold (check_asm_target sp) names env;
          (t, env) = check_asm_expr v env
      in expect_return_count (hye_span v) ''assignment'' (length names) (return_count t) env)"
| "check_asm_stmt (HirYulStmt sp (HSExpr e)) env =
     (let (t, env) = check_asm_expr e env
      in if type_eq t (ty_unit (hye_span e)) then env
         else push_diag (hye_span e) (AssemblyExpressionNotUnit (ty_display t)) env)"
| "check_asm_stmt (HirYulStmt sp (HSIf cond body)) env =
     check_asm_block body (check_asm_arg cond env)"
| "check_asm_stmt (HirYulStmt sp (HSFor init cond post body)) env =
     (let env = enter_asm_scope (enter_scope env);
          env = check_asm_stmt_seq init (predeclare_asm_functions init env);
          env = check_asm_arg cond env;
          env = leave_scope (check_asm_block post (enter_scope env));
          env = leave_scope (check_asm_block body (enter_scope env))
      in leave_scope (leave_asm_scope env))"
| "check_asm_stmt (HirYulStmt sp (HSSwitch e cases None)) env =
     check_asm_cases cases (check_asm_arg e env)"
| "check_asm_stmt (HirYulStmt sp (HSSwitch e cases (Some dflt))) env =
     check_asm_block dflt (check_asm_cases cases (check_asm_arg e env))"
| "check_asm_stmt (HirYulStmt sp (HSFunctionDef f params rets body)) env =
     (let saved_vars = env_vars env;
          env = insert_words sp rets (insert_words sp params (env\<lparr>env_vars := [Map.empty]\<rparr>));
          env = check_asm_block body env
      in env\<lparr>env_vars := saved_vars\<rparr>)"
| "check_asm_stmt (HirYulStmt sp HSLeave) env = env"
| "check_asm_stmt (HirYulStmt sp HSBreak) env = env"
| "check_asm_stmt (HirYulStmt sp HSContinue) env = env"
| "check_asm_stmt (HirYulStmt sp HSError) env = env"
| "check_asm_cases [] env = env"
| "check_asm_cases (HirYulCase sp lit body # cases) env = check_asm_cases cases (check_asm_block body env)"

declare check_asm_block.simps [simp del]

section \<open>Statements\<close>

fun check_body :: "stmt list \<Rightarrow> env \<Rightarrow> env"
  and check_stmt :: "stmt \<Rightarrow> env \<Rightarrow> env"
  and check_alts :: "ty \<Rightarrow> alt list \<Rightarrow> env \<Rightarrow> env" where
  "check_body [] env = env"
| "check_body (s # ss) env = check_body ss (check_stmt s env)"
| "check_stmt (Stmt sp (SLet n t)) env = insert_var n t env"
| "check_stmt (Stmt sp (SAssign lhs rhs)) env =
     (let (lhs_ty, env) = check_expr lhs env;
          (rhs_ty, env) = check_expr rhs env
      in expect_type (expr_span lhs) lhs_ty rhs_ty env)"
| "check_stmt (Stmt sp (SExpr e)) env = snd (check_expr e env)"
| "check_stmt (Stmt sp (SReturn e)) env =
     (let (actual, env) = check_expr e env
      in case env_ret env of
           Some expected \<Rightarrow> expect_type (expr_span e) expected actual env
         | None \<Rightarrow> push_diag (expr_span e) ReturnOutsideFunction env)"
| "check_stmt (Stmt sp (SBlock stmts)) env = leave_scope (check_body stmts (enter_scope env))"
| "check_stmt (Stmt sp (SFor init cond post body)) env =
     (let env = check_body init (enter_scope env);
          (cond_ty, env) = check_expr cond env;
          env = (if is_bool_like cond_ty then env
                 else push_diag (expr_span cond) (ExpectedBool (ty_display cond_ty)) env);
          env = check_body post env;
          env = check_body body env
      in leave_scope env)"
| "check_stmt (Stmt sp SBreak) env = env"
| "check_stmt (Stmt sp SContinue) env = env"
| "check_stmt (Stmt sp (SMatch target scrutinee alts)) env =
     (let (scrutinee_ty, env) = check_expr scrutinee env;
          env = expect_type (expr_span scrutinee) target scrutinee_ty env
      in check_alts target alts env)"
| "check_stmt (Stmt sp (SAssembly stmts)) env =
     (case env_db env of
        Some _ \<Rightarrow> leave_scope (check_asm_block stmts (enter_scope env))
      | None \<Rightarrow> push_diag sp AssemblyRequiresDatabase env)"
| "check_stmt (Stmt sp (SRevert _)) env = env"
| "check_stmt (Stmt sp (SComment _)) env = env"
| "check_alts target [] env = env"
| "check_alts target (Alt sp p bndr body # alts) env =
     (let (payload, env) =
            (case payload_type target p of
               Some payload \<Rightarrow> (payload, env)
             | None \<Rightarrow> (ty_unit sp,
                         push_diag sp (BadMatchPattern (pat_display p) (ty_display target)) env));
          env = check_body body (insert_var bndr payload (enter_scope env))
      in check_alts target alts (leave_scope env))"

section \<open>Terminators\<close>

definition asm_terminators :: "name list" where
  "asm_terminators = [''return'', ''revert'', ''stop'', ''invalid'', ''selfdestruct'']"

fun asm_block_terminates :: "hir_db option \<Rightarrow> hir_yul_stmt list \<Rightarrow> bool"
  and asm_stmt_terminates :: "hir_db option \<Rightarrow> hir_yul_stmt \<Rightarrow> bool"
  and asm_cases_terminate :: "hir_db option \<Rightarrow> hir_yul_case list \<Rightarrow> bool" where
  "asm_block_terminates db [] = False"
| "asm_block_terminates db [s] = asm_stmt_terminates db s"
| "asm_block_terminates db (s # s' # ss) = asm_block_terminates db (s' # ss)"
| "asm_stmt_terminates db (HirYulStmt sp (HSBlock stmts)) = asm_block_terminates db stmts"
| "asm_stmt_terminates db (HirYulStmt sp (HSExpr (HirYulExpr _ (HECall f _)))) =
     (case db of Some text \<Rightarrow> text (atom f) \<in> set asm_terminators | None \<Rightarrow> False)"
| "asm_stmt_terminates db (HirYulStmt sp (HSSwitch e cases (Some dflt))) =
     (cases \<noteq> [] \<and> asm_cases_terminate db cases \<and> asm_block_terminates db dflt)"
| "asm_stmt_terminates db _ = False"
| "asm_cases_terminate db [] = True"
| "asm_cases_terminate db (HirYulCase _ _ body # cases) =
     (asm_block_terminates db body \<and> asm_cases_terminate db cases)"

fun body_terminates :: "hir_db option \<Rightarrow> stmt list \<Rightarrow> bool"
  and stmt_terminates :: "hir_db option \<Rightarrow> stmt \<Rightarrow> bool"
  and alts_terminate :: "hir_db option \<Rightarrow> alt list \<Rightarrow> bool" where
  "body_terminates db [] = False"
| "body_terminates db [s] = stmt_terminates db s"
| "body_terminates db (s # s' # ss) = body_terminates db (s' # ss)"
| "stmt_terminates db (Stmt sp (SReturn _)) = True"
| "stmt_terminates db (Stmt sp (SRevert _)) = True"
| "stmt_terminates db (Stmt sp (SBlock body)) = body_terminates db body"
| "stmt_terminates db (Stmt sp (SMatch _ _ alts)) = (alts \<noteq> [] \<and> alts_terminate db alts)"
| "stmt_terminates db (Stmt sp (SAssembly stmts)) = asm_block_terminates db stmts"
| "stmt_terminates db _ = False"
| "alts_terminate db [] = True"
| "alts_terminate db (Alt _ _ _ body # alts) = (body_terminates db body \<and> alts_terminate db alts)"

section \<open>Functions, objects, programs\<close>

definition register_function :: "hull_function \<Rightarrow> env \<Rightarrow> env" where
  "register_function f env =
     (let env = (if env_funs env (fn_name f) \<noteq> None
                 then push_diag (fn_span f) (DuplicateFunction (fn_name f)) env else env)
      in env\<lparr>env_funs := (env_funs env)(fn_name f \<mapsto>
           \<lparr>sig_args = map arg_ty (fn_args f), sig_ret = fn_ret f\<rparr>)\<rparr>)"

definition check_first_order :: "hull_function \<Rightarrow> env \<Rightarrow> env" where
  "check_first_order f env =
     (let env = fold (\<lambda>a env.
            if contains_function (arg_ty a)
            then push_diag (arg_span a) (FunctionTypeNotFirstOrder (fn_name f)) env else env)
            (fn_args f) env
      in if contains_function (fn_ret f)
         then push_diag (ty_span (fn_ret f)) (FunctionTypeNotFirstOrder (fn_name f)) env else env)"

definition check_function :: "hull_function \<Rightarrow> env \<Rightarrow> env" where
  "check_function f env =
     (let env = enter_scope (check_first_order f env);
          env = fold (\<lambda>a. insert_var (arg_name a) (arg_ty a)) (fn_args f) env;
          saved_ret = env_ret env;
          env = check_body (fn_body f) (env\<lparr>env_ret := Some (fn_ret f)\<rparr>);
          env = (if requires_terminator (fn_ret f) \<and> \<not> body_terminates (env_db env) (fn_body f)
                 then push_diag (fn_span f) (MissingTerminator (fn_name f)) env else env)
      in leave_scope (env\<lparr>env_ret := saved_ret\<rparr>))"

fun check_object :: "hull_object \<Rightarrow> env \<Rightarrow> env" where
  "check_object (Object sp n code inners) env =
     (let saved_funs = env_funs env;
          env = fold register_function (cb_functions code) env;
          env = enter_scope env;
          env = fold check_function (cb_functions code) env;
          env = check_body (cb_stmts code) env;
          env = leave_scope env;
          env = env\<lparr>env_funs := saved_funs\<rparr>
      in fold check_object inners env)"

definition initial_env :: "hir_db option \<Rightarrow> span \<Rightarrow> env" where
  "initial_env db sp =
     \<lparr>env_db = db, env_vars = [Map.empty], env_funs = builtin_funs sp,
      env_asm_funs = [Map.empty], env_ret = None, diagnostics = []\<rparr>"

definition check_program_inner :: "hir_db option \<Rightarrow> program \<Rightarrow> check_diagnostic list" where
  "check_program_inner db p =
     (let env = initial_env db (prog_span p);
          env = fold register_function (prog_functions p) env;
          env = fold check_function (prog_functions p) env;
          env = fold check_object (prog_objects p) env
      in diagnostics env)"

definition check_program :: "program \<Rightarrow> check_diagnostic list" where
  "check_program p = check_program_inner None p"

definition check_program_with_db :: "hir_db \<Rightarrow> program \<Rightarrow> check_diagnostic list" where
  "check_program_with_db db p = check_program_inner (Some db) p"

end
