(* ===== verification/Hull_Check_Frame.thy ===== *)
theory Hull_Check_Frame
  imports Hull_Check
begin

text \<open>
  What the validator may change. \<open>emits\<close> relates an environment to one that differs only by
  appended diagnostics; \<open>scoped\<close> also allows new variables in the innermost scope. Every method
  on expressions and every block-structured statement satisfies the first, a plain \<open>let\<close> the
  second. Because the scope stacks never become empty, the branches that stand for a panic of
  \<open>ScopeStack\<close> are never taken.
\<close>

definition env_ok :: "env \<Rightarrow> bool" where
  "env_ok env \<longleftrightarrow> env_vars env \<noteq> [] \<and> env_asm_funs env \<noteq> []"

definition emits :: "env \<Rightarrow> env \<Rightarrow> bool" where
  "emits env env' \<longleftrightarrow> (\<exists>ds. env' = env\<lparr>diagnostics := diagnostics env @ ds\<rparr>)"

definition scoped :: "env \<Rightarrow> env \<Rightarrow> bool" where
  "scoped env env' \<longleftrightarrow>
     (\<exists>ds top. env' = env\<lparr>env_vars := butlast (env_vars env) @ [top],
                         diagnostics := diagnostics env @ ds\<rparr>)"

named_theorems frame_intros \<open>how operations on the environment relate to emits and scoped\<close>

section \<open>The two relations\<close>

lemma emits_refl [frame_intros]: "emits env env"
  by (auto simp: emits_def intro: exI[of _ "[]"])

lemma emits_trans [trans]: "emits a b \<Longrightarrow> emits b c \<Longrightarrow> emits a c"
  by (auto simp: emits_def)

lemma emits_push_diag [frame_intros]: "emits env (push_diag sp k env)"
  by (auto simp: emits_def push_diag_def)

lemma emits_expect_type [frame_intros]: "emits env (expect_type sp a b env)"
  by (simp add: expect_type_def frame_intros)

lemma emits_expect_return_count [frame_intros]: "emits env (expect_return_count sp c a b env)"
  by (simp add: expect_return_count_def frame_intros)

lemma emits_fields:
  assumes "emits env env'"
  shows "env_db env' = env_db env" "env_vars env' = env_vars env" "env_funs env' = env_funs env"
    "env_asm_funs env' = env_asm_funs env" "env_ret env' = env_ret env"
    "lookup_var env' = lookup_var env" "yul_name env' = yul_name env"
  using assms by (auto simp: emits_def lookup_var_def yul_name_def fun_eq_iff)

lemma emits_ok: "emits env env' \<Longrightarrow> env_ok env' = env_ok env"
  by (simp add: env_ok_def emits_fields)

text \<open>No new diagnostic means no change at all.\<close>

lemma emits_clean: "emits env env' \<Longrightarrow> diagnostics env' = diagnostics env \<longleftrightarrow> env' = env"
  by (auto simp: emits_def)

lemma emits_antisym: "emits a b \<Longrightarrow> emits b a \<Longrightarrow> a = b"
  by (auto simp: emits_def dest: arg_cong[where f = diagnostics])

lemma emits_back: "emits a b \<Longrightarrow> emits b a \<Longrightarrow> b = a"
  using emits_antisym by blast

lemma emits_prefix: "emits a b \<Longrightarrow> \<exists>ds. diagnostics b = diagnostics a @ ds"
  by (auto simp: emits_def)

lemma emits_scoped: "env_ok env \<Longrightarrow> emits env env' \<Longrightarrow> scoped env env'"
  by (auto simp: emits_def scoped_def env_ok_def intro!: exI[of _ "last (env_vars env)"])

lemma scoped_refl [frame_intros]: "env_ok env \<Longrightarrow> scoped env env"
  by (simp add: emits_scoped emits_refl)

lemma scoped_trans [trans]:
  assumes "scoped a b" and "scoped b c"
  shows "scoped a c"
proof -
  from assms obtain ds t ds' t' where
    "b = a\<lparr>env_vars := butlast (env_vars a) @ [t], diagnostics := diagnostics a @ ds\<rparr>"
    "c = b\<lparr>env_vars := butlast (env_vars b) @ [t'], diagnostics := diagnostics b @ ds'\<rparr>"
    by (auto simp: scoped_def)
  then have "c = a\<lparr>env_vars := butlast (env_vars a) @ [t'],
      diagnostics := diagnostics a @ (ds @ ds')\<rparr>" by simp
  then show ?thesis unfolding scoped_def by blast
qed

lemma scoped_ok: "env_ok env \<Longrightarrow> scoped env env' \<Longrightarrow> env_ok env'"
  by (auto simp: scoped_def env_ok_def)

lemma scoped_fields:
  assumes "scoped env env'"
  shows "env_db env' = env_db env" "env_funs env' = env_funs env"
    "env_asm_funs env' = env_asm_funs env" "env_ret env' = env_ret env"
    "butlast (env_vars env') = butlast (env_vars env)" "yul_name env' = yul_name env"
  using assms by (auto simp: scoped_def yul_name_def fun_eq_iff)

lemma scoped_prefix: "scoped a b \<Longrightarrow> \<exists>ds. diagnostics b = diagnostics a @ ds"
  by (auto simp: scoped_def)

lemma enter_scope_ok [simp]: "env_ok env \<Longrightarrow> env_ok (enter_scope env)"
  by (simp add: env_ok_def enter_scope_def vec_push_def)

lemma scoped_insert_var [frame_intros]: "env_ok env \<Longrightarrow> scoped env (insert_var n t env)"
  by (auto simp: scoped_def insert_var_def env_ok_def scope_simps intro!: exI[of _ "[]"])

text \<open>Leaving a scope forgets everything but the diagnostics.\<close>

lemma leave_scope_emits:
  assumes "env_ok env" and "scoped (enter_scope env) env'"
  shows "emits env (leave_scope env')"
  using assms
  by (auto simp: scoped_def emits_def leave_scope_def enter_scope_def vec_push_def vec_pop_def)

lemma leave_asm_scope_enter:
  assumes "env_asm_funs env' = env_asm_funs (enter_asm_scope env) \<or>
      (\<exists>top. env_asm_funs env' = env_asm_funs env @ [top])"
  shows "leave_asm_scope env' = env'\<lparr>env_asm_funs := env_asm_funs env\<rparr>"
  using assms by (auto simp: leave_asm_scope_def enter_asm_scope_def vec_push_def vec_pop_def)

section \<open>The scope stack of variables as an interface\<close>

interpretation check_vars: lexical_scopes enter_scope leave_scope insert_var lookup_var env_ok
proof unfold_locales
  fix s :: env and n t
  assume ok: "env_ok s"
  then show "env_ok (enter_scope s)" by simp
  show "env_ok (insert_var n t s)" using ok scoped_insert_var scoped_ok by blast
  show "leave_scope (enter_scope s) = s"
    by (simp add: leave_scope_def enter_scope_def)
  show "leave_scope (insert_var n t s) = leave_scope s" using ok
    by (simp add: env_ok_def leave_scope_def insert_var_def scope_simps vec_pop_def)
  show "lookup_var (enter_scope s) = lookup_var s"
    by (rule ext) (simp add: lookup_var_def enter_scope_def scope_simps)
  show "lookup_var (insert_var n t s) = (lookup_var s)(n \<mapsto> t)" using ok
    by (intro ext) (simp add: lookup_var_def insert_var_def env_ok_def scope_simps)
qed

section \<open>Expressions only emit\<close>

text \<open>The relation composed with one more step, in the form backward chaining needs.\<close>

lemma emits_steps:
  "emits env0 env \<Longrightarrow> emits env0 (push_diag sp k env)"
  "emits env0 env \<Longrightarrow> emits env0 (expect_type sp a b env)"
  "emits env0 env \<Longrightarrow> emits env0 (expect_return_count sp c m n env)"
  by (blast intro: emits_trans frame_intros)+

lemma infer_emits_from:
  "emits env0 env \<Longrightarrow> emits env0 (snd (check_expr e env))"
  "emits env0 env \<Longrightarrow> emits env0 (snd (infer_expr e env))"
  "emits env0 env \<Longrightarrow> emits env0 (check_args ts as env)"
proof (induction e env and e env and ts as env arbitrary: env0 and env0 and env0
    rule: check_expr_infer_expr_check_args.induct)
  case (1 e env)
  then show ?case
    by (subst check_expr.simps) (auto simp: case_prod_beta Let_def intro: emits_steps)
qed ((fastforce simp: Let_def intro!: emits_steps split: option.split ty_kind.split prod.split)+)

lemma check_expr_emits [frame_intros]:
  "emits env (snd (check_expr e env))"
  "emits env (snd (infer_expr e env))"
  "emits env (check_args ts as env)"
  by (simp_all only: infer_emits_from emits_refl)

section \<open>Inline assembly\<close>

lemma lookup_asm_fun_emits: "emits env (snd (lookup_asm_fun sp n env))"
  by (auto simp: lookup_asm_fun_def Let_def frame_intros split: option.split)

lemma check_asm_expr_emits_from:
  "emits env0 env \<Longrightarrow> emits env0 (snd (check_asm_expr e env))"
  "emits env0 env \<Longrightarrow> emits env0 (check_asm_arg e env)"
  "emits env0 env \<Longrightarrow> emits env0 (check_asm_args as env)"
proof (induction e env and e env and as env arbitrary: env0 and env0 and env0
    rule: check_asm_expr_check_asm_arg_check_asm_args.induct)
  case (3 sp f args env)
  obtain s env1 where l: "lookup_asm_fun sp (yul_name env f) env = (s, env1)"
    by (cases "lookup_asm_fun sp (yul_name env f) env")
  then have "emits env0 env1"
    using 3(2) lookup_asm_fun_emits[of env sp "yul_name env f"] by (auto intro: emits_trans)
  then show ?case using 3(1)[OF refl l[symmetric] refl] l
    by (auto simp: Let_def intro: emits_steps)
next
  case (5 e env)
  then show ?case
    by (subst check_asm_arg.simps) (auto simp: case_prod_beta Let_def intro: emits_steps)
qed (auto intro: emits_steps split: option.split)

lemma check_asm_expr_emits [frame_intros]:
  "emits env (snd (check_asm_expr e env))"
  "emits env (check_asm_arg e env)"
  "emits env (check_asm_args as env)"
  by (simp_all only: check_asm_expr_emits_from emits_refl)

lemma check_asm_target_emits: "emits env (check_asm_target sp x env)"
  by (auto simp: check_asm_target_def Let_def frame_intros split: option.split)

lemma check_asm_targets_emits: "emits env (fold (check_asm_target sp) xs env)"
  by (induction xs arbitrary: env) (auto intro: emits_refl emits_trans check_asm_target_emits)

lemma insert_words_scoped:
  "env_ok env \<Longrightarrow> scoped env (insert_words sp xs env)"
proof (induction xs arbitrary: env)
  case Nil
  then show ?case by (simp add: insert_words_def frame_intros)
next
  case (Cons x xs)
  let ?env = "insert_var (yul_name env x) (ty_word sp) env"
  have step: "scoped env ?env" using Cons.prems by (rule scoped_insert_var)
  then have "scoped ?env (insert_words sp xs ?env)"
    using Cons by (blast intro: scoped_ok)
  with step show ?case by (simp add: insert_words_def) (rule scoped_trans)
qed

text \<open>Predeclaring functions only adds to the innermost function scope.\<close>

definition predeclares :: "env \<Rightarrow> env \<Rightarrow> bool" where
  "predeclares env env' \<longleftrightarrow>
     (\<exists>ds top. env' = env\<lparr>env_asm_funs := butlast (env_asm_funs env) @ [top],
                         diagnostics := diagnostics env @ ds\<rparr>)"

lemma predeclares_trans:
  assumes "predeclares a b" and "predeclares b c"
  shows "predeclares a c"
proof -
  from assms obtain ds t ds' t' where
    "b = a\<lparr>env_asm_funs := butlast (env_asm_funs a) @ [t], diagnostics := diagnostics a @ ds\<rparr>"
    "c = b\<lparr>env_asm_funs := butlast (env_asm_funs b) @ [t'], diagnostics := diagnostics b @ ds'\<rparr>"
    by (auto simp: predeclares_def)
  then have "c = a\<lparr>env_asm_funs := butlast (env_asm_funs a) @ [t'],
      diagnostics := diagnostics a @ (ds @ ds')\<rparr>" by simp
  then show ?thesis unfolding predeclares_def by blast
qed

lemma emits_predeclares: "env_ok env \<Longrightarrow> emits env env' \<Longrightarrow> predeclares env env'"
  by (auto simp: emits_def predeclares_def env_ok_def intro!: exI[of _ "last (env_asm_funs env)"])

lemma insert_asm_fun_predeclares: "env_ok env \<Longrightarrow> predeclares env (insert_asm_fun n s env)"
  by (auto simp: predeclares_def insert_asm_fun_def env_ok_def scope_simps intro!: exI[of _ "[]"])

lemma predeclares_ok: "env_ok env \<Longrightarrow> predeclares env env' \<Longrightarrow> env_ok env'"
  by (auto simp: predeclares_def env_ok_def)

lemma predeclare_asm_function_predeclares:
  assumes "env_ok env"
  shows "predeclares env (predeclare_asm_function s env)"
proof (cases "(s, env)" rule: predeclare_asm_function.cases)
  case (1 sp f params rets body env')
  let ?n = "yul_name env f"
  let ?env = "if env_asm_funs env \<noteq> [] \<and> last (env_asm_funs env) ?n \<noteq> None
     then push_diag sp (DuplicateFunction ?n) env else env"
  have e: "emits env ?env" by (simp add: frame_intros)
  with assms have "env_ok ?env" by (simp only: emits_ok)
  then have "predeclares ?env (insert_asm_fun ?n
      \<lparr>sig_args = replicate (length params) (ty_word sp), sig_ret = n_returns sp (length rets)\<rparr> ?env)"
    by (rule insert_asm_fun_predeclares)
  with emits_predeclares[OF assms e] 1 show ?thesis
    by (auto simp: Let_def intro: predeclares_trans simp del: ty_word.simps)
qed (use assms in \<open>simp_all add: emits_predeclares emits_refl\<close>)

lemma predeclare_asm_functions_predeclares:
  "env_ok env \<Longrightarrow> predeclares env (predeclare_asm_functions stmts env)"
  unfolding predeclare_asm_functions_def
proof (induction stmts arbitrary: env)
  case Nil
  then show ?case by (simp add: emits_predeclares emits_refl)
next
  case (Cons s ss)
  then show ?case
    using predeclare_asm_function_predeclares[OF Cons.prems, of s]
    by (auto intro: predeclares_trans predeclares_ok)
qed

lemma enter_asm_scope_ok: "env_ok env \<Longrightarrow> env_ok (enter_asm_scope env)"
  by (simp add: env_ok_def enter_asm_scope_def vec_push_def)

text \<open>Leaving the function scope entered before restores it, whatever was predeclared.\<close>

lemma asm_block_scoped:
  assumes "predeclares (enter_asm_scope env) env1" and "scoped env1 env2"
  shows "scoped env (leave_asm_scope env2)"
proof -
  from assms obtain ds t ds' t' where
    "env1 = env\<lparr>env_asm_funs := env_asm_funs env @ [t], diagnostics := diagnostics env @ ds\<rparr>"
    "env2 = env1\<lparr>env_vars := butlast (env_vars env1) @ [t'], diagnostics := diagnostics env1 @ ds'\<rparr>"
    by (auto simp: predeclares_def scoped_def enter_asm_scope_def vec_push_def)
  then have "leave_asm_scope env2 = env\<lparr>env_vars := butlast (env_vars env) @ [t'],
      diagnostics := diagnostics env @ (ds @ ds')\<rparr>"
    by (simp add: leave_asm_scope_def vec_pop_def)
  then show ?thesis unfolding scoped_def by blast
qed

lemma block_scoped:
  assumes "env_ok env0" "scoped env0 env" "scoped (enter_scope env) env'"
  shows "scoped env0 (leave_scope env')"
proof -
  have "env_ok env" using assms by (blast intro: scoped_ok)
  then have "scoped env (leave_scope env')"
    using assms(3) by (blast intro: leave_scope_emits emits_scoped)
  with assms(2) show ?thesis by (rule scoped_trans)
qed

lemma scoped_emits: "env_ok env0 \<Longrightarrow> scoped env0 env \<Longrightarrow> emits env env' \<Longrightarrow> scoped env0 env'"
  by (meson emits_scoped scoped_ok scoped_trans)

lemma check_asm_scoped_from:
  "env_ok env0 \<Longrightarrow> scoped env0 env \<Longrightarrow> scoped env0 (check_asm_block ss env)"
  "env_ok env0 \<Longrightarrow> scoped env0 env \<Longrightarrow> scoped env0 (check_asm_stmt_seq ss env)"
  "env_ok env0 \<Longrightarrow> scoped env0 env \<Longrightarrow> scoped env0 (check_asm_stmt s env)"
  "env_ok env0 \<Longrightarrow> scoped env0 env \<Longrightarrow> scoped env0 (check_asm_cases cs env)"
proof (induction ss env and ss env and s env and cs env
    arbitrary: env0 and env0 and env0 and env0
    rule: check_asm_block_check_asm_stmt_seq_check_asm_stmt_check_asm_cases.induct)
  case (1 stmts env)
  have ok: "env_ok env" using 1 by (blast intro: scoped_ok)
  let ?env1 = "predeclare_asm_functions stmts (enter_asm_scope env)"
  have p: "predeclares (enter_asm_scope env) ?env1"
    using ok by (blast intro: predeclare_asm_functions_predeclares enter_asm_scope_ok)
  then have "env_ok ?env1" using ok by (blast intro: predeclares_ok enter_asm_scope_ok)
  then have "scoped ?env1 (check_asm_stmt_seq stmts ?env1)" by (blast intro: 1(1) scoped_refl)
  from asm_block_scoped[OF p this] 1(3) show ?case
    by (subst check_asm_block.simps) (rule scoped_trans)
next
  case (4 sp stmts env)
  have "scoped (enter_scope env) (check_asm_block stmts (enter_scope env))"
    using 4 by (blast intro: 4(1) scoped_refl scoped_ok enter_scope_ok)
  with 4 show ?case by (simp add: block_scoped)
next
  case (5 sp names env)
  then show ?case by (auto intro: scoped_trans scoped_ok insert_words_scoped)
next
  case (6 sp names init env)
  let ?r = "check_asm_expr init env"
  let ?env1 = "expect_return_count (hye_span init) ''let binding'' (length names)
      (return_count (fst ?r)) (snd ?r)"
  have "emits env ?env1" by (blast intro: emits_steps frame_intros)
  with 6 have "scoped env0 ?env1" by (blast intro: scoped_emits)
  moreover from this 6 have "scoped ?env1 (insert_words sp names ?env1)"
    by (blast intro: insert_words_scoped scoped_ok)
  ultimately have "scoped env0 (insert_words sp names ?env1)" by (rule scoped_trans)
  then show ?case by (simp add: case_prod_beta Let_def)
next
  case (7 sp names v env)
  let ?env1 = "fold (check_asm_target sp) names env"
  let ?r = "check_asm_expr v ?env1"
  have "emits env (expect_return_count (hye_span v) ''assignment'' (length names)
      (return_count (fst ?r)) (snd ?r))"
    by (intro emits_steps check_asm_expr_emits_from check_asm_targets_emits)
  with 7 have "scoped env0 (expect_return_count (hye_span v) ''assignment'' (length names)
      (return_count (fst ?r)) (snd ?r))" by (blast intro: scoped_emits)
  then show ?case by (simp add: case_prod_beta Let_def)
next
  case (8 sp e env)
  have "emits env (snd (check_asm_expr e env))" by (rule frame_intros)
  with 8 show ?case by (auto simp: case_prod_beta Let_def intro: scoped_emits emits_steps)
next
  case (9 sp cond body env)
  then show ?case by (auto intro: scoped_emits frame_intros)
next
  case (10 sp init cond post body env)
  have ok: "env_ok env" using 10 by (blast intro: scoped_ok)
  let ?e1 = "enter_asm_scope (enter_scope env)"
  let ?e2 = "predeclare_asm_functions init ?e1"
  have ok1: "env_ok ?e1" using ok by (blast intro: enter_asm_scope_ok enter_scope_ok)
  have p: "predeclares ?e1 ?e2" using ok1 by (rule predeclare_asm_functions_predeclares)
  have ok2: "env_ok ?e2" using ok1 p by (rule predeclares_ok)
  let ?e3 = "check_asm_stmt_seq init ?e2"
  let ?e4 = "check_asm_arg cond ?e3"
  let ?e5 = "leave_scope (check_asm_block post (enter_scope ?e4))"
  let ?e6 = "leave_scope (check_asm_block body (enter_scope ?e5))"
  have s3: "scoped ?e2 ?e3" using ok2 by (intro 10(1) refl scoped_refl)
  have s4: "scoped ?e2 ?e4" using ok2 s3 by (blast intro: scoped_emits frame_intros)
  have ok4: "env_ok ?e4" using ok2 s4 by (rule scoped_ok)
  have "scoped (enter_scope ?e4) (check_asm_block post (enter_scope ?e4))"
    using ok4 by (intro 10(2)[OF refl refl refl] enter_scope_ok scoped_refl)
  with ok2 s4 have s5: "scoped ?e2 ?e5" by (rule block_scoped)
  have ok5: "env_ok ?e5" using ok2 s5 by (rule scoped_ok)
  have "scoped (enter_scope ?e5) (check_asm_block body (enter_scope ?e5))"
    using ok5 by (intro 10(3)[OF refl refl refl refl] enter_scope_ok scoped_refl)
  with ok2 s5 have s6: "scoped ?e2 ?e6" by (rule block_scoped)
  have "scoped (enter_scope env) (leave_asm_scope ?e6)" using p s6 by (rule asm_block_scoped)
  with 10(4,5) have "scoped env0 (leave_scope (leave_asm_scope ?e6))" by (rule block_scoped)
  then show ?case by (simp add: Let_def)
next
  case (11 sp e cases env)
  then show ?case by (auto intro: scoped_emits frame_intros)
next
  case (12 sp e cases dflt env)
  then show ?case by (auto intro: scoped_emits frame_intros)
next
  case (13 sp f params rets body env)
  have ok: "env_ok env" using 13 by (blast intro: scoped_ok)
  let ?e1 = "env\<lparr>env_vars := [Map.empty]\<rparr>"
  let ?e2 = "insert_words sp rets (insert_words sp params ?e1)"
  have ok1: "env_ok ?e1" using ok by (simp add: env_ok_def)
  then have s2: "scoped ?e1 ?e2"
    by (blast intro: insert_words_scoped scoped_trans scoped_ok)
  then have "scoped ?e1 (check_asm_block body ?e2)" using ok1 by (intro 13(1)[OF refl refl])
  then have "emits env ((check_asm_block body ?e2)\<lparr>env_vars := env_vars env\<rparr>)"
    by (auto simp: scoped_def emits_def)
  with 13 show ?case by (simp add: Let_def scoped_emits)
qed auto

lemma check_asm_scoped [frame_intros]:
  assumes "env_ok env"
  shows "scoped env (check_asm_block ss env)"
    and "scoped env (check_asm_stmt_seq ss env)"
    and "scoped env (check_asm_stmt s env)"
    and "scoped env (check_asm_cases cs env)"
  using assms by (blast intro: check_asm_scoped_from scoped_refl)+

section \<open>Statements\<close>

lemma check_stmt_scoped_from:
  "env_ok env0 \<Longrightarrow> scoped env0 env \<Longrightarrow> scoped env0 (check_body ss env)"
  "env_ok env0 \<Longrightarrow> scoped env0 env \<Longrightarrow> scoped env0 (check_stmt s env)"
  "env_ok env0 \<Longrightarrow> scoped env0 env \<Longrightarrow> scoped env0 (check_alts t as env)"
proof (induction ss env and s env and t as env arbitrary: env0 and env0 and env0
    rule: check_body_check_stmt_check_alts.induct)
  case (3 sp n t env)
  then show ?case by (auto intro: scoped_trans scoped_ok scoped_insert_var)
next
  case (4 sp lhs rhs env)
  have "emits env (snd (check_expr rhs (snd (check_expr lhs env))))"
    by (intro infer_emits_from emits_refl)
  with 4 show ?case by (auto simp: case_prod_beta Let_def intro: scoped_emits emits_steps)
next
  case (5 sp e env)
  then show ?case by (auto intro: scoped_emits frame_intros)
next
  case (6 sp e env)
  have "emits env (snd (check_expr e env))" by (rule frame_intros)
  with 6 show ?case
    by (auto simp: case_prod_beta Let_def intro: scoped_emits emits_steps split: option.split)
next
  case (7 sp stmts env)
  have "scoped (enter_scope env) (check_body stmts (enter_scope env))"
    using 7 by (blast intro: 7(1) scoped_refl scoped_ok enter_scope_ok)
  with 7 show ?case by (simp add: block_scoped)
next
  case (8 sp init cond post body env)
  have ok: "env_ok (enter_scope env)" using 8 by (blast intro: scoped_ok enter_scope_ok)
  let ?e1 = "check_body init (enter_scope env)"
  let ?r = "check_expr cond ?e1"
  let ?e2 = "if is_bool_like (fst ?r) then snd ?r
     else push_diag (expr_span cond) (ExpectedBool (ty_display (fst ?r))) (snd ?r)"
  have s1: "scoped (enter_scope env) ?e1" using ok by (intro 8(1) scoped_refl)
  have "emits ?e1 ?e2" using check_expr_emits(1)[of ?e1 cond] by (auto intro: emits_steps)
  with ok s1 have s2: "scoped (enter_scope env) ?e2" by (rule scoped_emits)
  have s3: "scoped (enter_scope env) (check_body post ?e2)"
    using 8(2)[OF refl refl prod.collapse refl ok s2] by simp
  have s4: "scoped (enter_scope env) (check_body body (check_body post ?e2))"
    using 8(3)[OF refl refl prod.collapse refl refl ok s3] by simp
  from 8(4,5) s4 have "scoped env0 (leave_scope (check_body body (check_body post ?e2)))"
    by (rule block_scoped)
  then show ?case by (simp add: case_prod_beta Let_def)
next
  case (11 sp target scrutinee alts env)
  let ?r = "check_expr scrutinee env"
  have "emits env (expect_type (expr_span scrutinee) target (fst ?r) (snd ?r))"
    by (intro emits_steps frame_intros)
  with 11(2,3) have "scoped env0 (expect_type (expr_span scrutinee) target (fst ?r) (snd ?r))"
    by (rule scoped_emits)
  with 11(2) show ?case
    using 11(1)[OF prod.collapse refl] by (simp add: case_prod_beta Let_def)
next
  case (12 sp stmts env)
  have "scoped (enter_scope env) (check_asm_block stmts (enter_scope env))"
    using 12 by (blast intro: frame_intros scoped_ok enter_scope_ok)
  then have "scoped env0 (leave_scope (check_asm_block stmts (enter_scope env)))"
    using 12 by (blast intro: block_scoped)
  with 12 show ?case by (auto intro: scoped_emits frame_intros split: option.split)
next
  case (16 target sp p bndr body alts env)
  obtain payload env1 where r: "(case payload_type target p of
      Some payload \<Rightarrow> (payload, env)
    | None \<Rightarrow> (ty_unit sp, push_diag sp (BadMatchPattern (pat_display p) (ty_display target)) env))
    = (payload, env1)" (is "?r = _") by (cases ?r)
  then have "emits env env1" by (auto simp: frame_intros split: option.splits)
  with 16(3,4) have s1: "scoped env0 env1" by (rule scoped_emits)
  then have ok: "env_ok (enter_scope env1)" using 16(3) by (blast intro: scoped_ok enter_scope_ok)
  let ?e2 = "check_body body (insert_var bndr payload (enter_scope env1))"
  have "scoped (enter_scope env1) ?e2"
    using 16(1)[OF r[symmetric] refl ok] ok by (blast intro: scoped_insert_var)
  with 16(3) s1 have "scoped env0 (leave_scope ?e2)" by (rule block_scoped)
  then show ?case using 16(2)[OF r[symmetric] refl refl 16(3)] r by (simp add: Let_def)
qed auto

lemma check_stmt_scoped [frame_intros]:
  assumes "env_ok env"
  shows "scoped env (check_body ss env)"
    and "scoped env (check_stmt s env)"
    and "scoped env (check_alts t as env)"
  using assms by (blast intro: check_stmt_scoped_from scoped_refl)+

end
