(* ===== verification/Hull_Typing.thy ===== *)
theory Hull_Typing
  imports Hull_Check_Frame
begin

text \<open>
  A declarative type system for Hull and its agreement with the validator. \<open>wt_expr\<close> types
  expressions over the visible functions and variables, \<open>wt_stmt\<close> statements over the stack of
  scopes. The validator reports nothing on a piece of code exactly when the code is well typed in
  this sense, so it is both sound and complete for the rules below. Inline assembly enters as
  the predicate \<open>asm_clean\<close>.
\<close>

section \<open>Typing rules for expressions\<close>

inductive wt_infer :: "(name \<rightharpoonup> fun_sig) \<Rightarrow> (name \<Rightarrow> ty option) \<Rightarrow> expr \<Rightarrow> ty \<Rightarrow> bool"
  and wt_expr :: "(name \<rightharpoonup> fun_sig) \<Rightarrow> (name \<Rightarrow> ty option) \<Rightarrow> expr \<Rightarrow> ty \<Rightarrow> bool"
  and wt_args :: "(name \<rightharpoonup> fun_sig) \<Rightarrow> (name \<Rightarrow> ty option) \<Rightarrow> ty list \<Rightarrow> expr list \<Rightarrow> bool"
  for F :: "name \<rightharpoonup> fun_sig" and G :: "name \<Rightarrow> ty option" where
  annotated: "wt_infer F G e t \<Longrightarrow> type_eq (expr_ty e) t \<Longrightarrow> wt_expr F G e t"
| word: "wt_infer F G (Expr sp a (EWord w)) (Ty sp TyWord)"
| bool: "wt_infer F G (Expr sp a (EBool b)) (Ty sp TyBool)"
| unit: "wt_infer F G (Expr sp a EUnit) (Ty sp TyUnit)"
| var: "G x = Some t \<Longrightarrow> wt_infer F G (Expr sp a (EVar x)) t"
| pair: "wt_expr F G l lt \<Longrightarrow> wt_expr F G r rt \<Longrightarrow>
    wt_infer F G (Expr sp a (EPair l r)) (Ty sp (TyProduct lt rt))"
| first: "wt_expr F G e t \<Longrightarrow> ty_kind (strip_named t) = TyProduct lt rt \<Longrightarrow>
    wt_infer F G (Expr sp a (EFst e)) lt"
| second: "wt_expr F G e t \<Longrightarrow> ty_kind (strip_named t) = TyProduct lt rt \<Longrightarrow>
    wt_infer F G (Expr sp a (ESnd e)) rt"
| inl: "ty_kind (strip_named target) = TySum lt rt \<Longrightarrow> wt_expr F G v t \<Longrightarrow> type_eq lt t \<Longrightarrow>
    wt_infer F G (Expr sp a (EInl target v)) target"
| inr: "ty_kind (strip_named target) = TySum lt rt \<Longrightarrow> wt_expr F G v t \<Longrightarrow> type_eq rt t \<Longrightarrow>
    wt_infer F G (Expr sp a (EInr target v)) target"
| ink: "nth_sum_payload target k = Some p \<Longrightarrow> wt_expr F G v t \<Longrightarrow> type_eq p t \<Longrightarrow>
    wt_infer F G (Expr sp a (EInK k target v)) target"
| call: "F f = Some s \<Longrightarrow> wt_args F G (sig_args s) es \<Longrightarrow>
    wt_infer F G (Expr sp a (ECall f es)) (sig_ret s)"
| cond: "wt_expr F G c tc \<Longrightarrow> is_bool_like tc \<Longrightarrow> wt_expr F G e1 t1 \<Longrightarrow> wt_expr F G e2 t2 \<Longrightarrow>
    type_eq target t1 \<Longrightarrow> type_eq target t2 \<Longrightarrow>
    wt_infer F G (Expr sp a (EIf target c e1 e2)) target"
| args_nil: "wt_args F G [] []"
| args_cons: "wt_expr F G e t' \<Longrightarrow> type_eq t t' \<Longrightarrow> wt_args F G ts es \<Longrightarrow>
    wt_args F G (t # ts) (e # es)"

lemmas wt_intros = wt_infer_wt_expr_wt_args.intros

inductive_cases wt_exprE: "wt_expr F G e t"
inductive_cases wt_argsE: "wt_args F G ts es"
inductive_simps wt_args_simps [simp]:
  "wt_args F G [] es" "wt_args F G ts []" "wt_args F G (t # ts) (e # es)"

lemma wt_args_length: "wt_args F G ts es \<Longrightarrow> length ts = length es"
proof (induction ts arbitrary: es)
  case Nil
  then show ?case by simp
next
  case (Cons t ts)
  then show ?case by (cases es) auto
qed

section \<open>Steps that report nothing\<close>

named_theorems clean_iffs \<open>when a step leaves the environment unchanged\<close>

lemma push_diag_dirty [simp]: "emits env env' \<Longrightarrow> push_diag sp k env' \<noteq> env"
  by (auto simp: emits_def push_diag_def dest: arg_cong[where f = diagnostics])

lemma expect_type_clean:
  "emits env env' \<Longrightarrow> expect_type sp a b env' = env \<longleftrightarrow> env' = env \<and> type_eq a b"
  by (auto simp: expect_type_def)

lemma emits_two_clean: "emits a b \<Longrightarrow> emits b c \<Longrightarrow> c = a \<longleftrightarrow> b = a \<and> c = b"
  using emits_antisym by blast

section \<open>Completeness: well-typed code is accepted\<close>

lemma wt_accepted:
  "wt_infer F G e t \<Longrightarrow> env_funs env = F \<Longrightarrow> lookup_var env = G \<Longrightarrow> infer_expr e env = (t, env)"
  "wt_expr F G e t \<Longrightarrow> env_funs env = F \<Longrightarrow> lookup_var env = G \<Longrightarrow> check_expr e env = (t, env)"
  "wt_args F G ts es \<Longrightarrow> env_funs env = F \<Longrightarrow> lookup_var env = G \<Longrightarrow> check_args ts es env = env"
proof (induction rule: wt_infer_wt_expr_wt_args.inducts)
  case (annotated e t)
  then show ?case by (subst check_expr.simps) simp
next
  case (call f s es sp a)
  then show ?case by (auto dest: wt_args_length)
qed (simp_all add: expect_type_def)

section \<open>Soundness: accepted code is well typed\<close>

lemma accepted_wt:
  "snd (check_expr e env) = env \<Longrightarrow>
     wt_expr (env_funs env) (lookup_var env) e (fst (check_expr e env))"
  "snd (infer_expr e env) = env \<Longrightarrow>
     wt_infer (env_funs env) (lookup_var env) e (fst (infer_expr e env))"
  "check_args ts es env = env \<Longrightarrow> length ts = length es \<Longrightarrow>
     wt_args (env_funs env) (lookup_var env) ts es"
proof (induction e env and e env and ts es env rule: check_expr_infer_expr_check_args.induct)
  case (1 e env)
  have e: "emits env (snd (infer_expr e env))" by (rule frame_intros)
  with 1(2) have "type_eq (expr_ty e) (fst (infer_expr e env))" "snd (infer_expr e env) = env"
    by (auto simp: check_expr.simps case_prod_beta Let_def split: if_splits)
  with 1(1) show ?case
    by (auto simp: check_expr.simps case_prod_beta Let_def intro: wt_intros)
next
  case (5 sp t n env)
  then show ?case by (auto intro: wt_intros simp: emits_refl split: option.splits)
next
  case (6 sp t lhs rhs env)
  let ?l = "check_expr lhs env" and ?r = "check_expr rhs (snd (check_expr lhs env))"
  have "snd ?r = env" using 6(3) by (simp add: case_prod_beta Let_def)
  then have l: "snd ?l = env" and r: "snd ?r = env"
    using emits_two_clean[OF check_expr_emits(1) check_expr_emits(1)] by metis+
  with 6(1) 6(2)[OF prod.collapse refl] show ?case
    by (auto simp: case_prod_beta Let_def intro: wt_intros)
next
  case (7 sp t inner env)
  have "emits env (snd (check_expr inner env))" by (rule frame_intros)
  with 7 show ?case
    by (auto simp: case_prod_beta Let_def intro: wt_intros split: ty_kind.splits)
next
  case (8 sp t inner env)
  have "emits env (snd (check_expr inner env))" by (rule frame_intros)
  with 8 show ?case
    by (auto simp: case_prod_beta Let_def intro: wt_intros split: ty_kind.splits)
next
  case (9 sp t target v env)
  have "emits env (snd (check_expr v env))" by (rule frame_intros)
  with 9 show ?case
    by (auto simp: case_prod_beta Let_def expect_type_clean emits_refl intro: wt_intros
        split: ty_kind.splits)
next
  case (10 sp t target v env)
  have "emits env (snd (check_expr v env))" by (rule frame_intros)
  with 10 show ?case
    by (auto simp: case_prod_beta Let_def expect_type_clean emits_refl intro: wt_intros
        split: ty_kind.splits)
next
  case (11 sp t index target v env)
  have "emits env (snd (check_expr v env))" by (rule frame_intros)
  with 11 show ?case
    by (auto simp: case_prod_beta Let_def expect_type_clean emits_refl intro: wt_intros
        split: option.splits)
next
  case (12 sp t callee args env)
  then show ?case
    by (auto simp: emits_refl intro: wt_intros split: option.splits if_splits)
next
  case (13 sp t target c e1 e2 env)
  let ?c = "check_expr c env"
  let ?env1 = "if is_bool_like (fst ?c) then snd ?c
     else push_diag (expr_span c) (ExpectedBool (ty_display (fst ?c))) (snd ?c)"
  let ?t = "check_expr e1 ?env1"
  let ?e = "check_expr e2 (snd ?t)"
  have m: "emits env (snd ?c)" "emits env ?env1" "emits ?env1 (snd ?t)" "emits (snd ?t) (snd ?e)"
    using check_expr_emits(1)[of env c] by (auto intro: emits_steps frame_intros)
  have m3: "emits env (snd ?t)" "emits env (snd ?e)"
    using m by (blast intro: emits_trans)+
  have "expect_type (expr_span e2) target (fst ?e)
      (expect_type (expr_span e1) target (fst ?t) (snd ?e)) = env"
    using 13(4) by (simp add: case_prod_beta Let_def)
  then have te: "type_eq target (fst ?e)" "type_eq target (fst ?t)" and e: "snd ?e = env"
    using m3(2) by (auto simp: expect_type_clean emits_steps)
  have t: "snd ?t = env" using e m3(1) m(4) emits_antisym by metis
  have "?env1 = env" using t m(2,3) emits_antisym by metis
  then have b: "is_bool_like (fst ?c)" and c: "snd ?c = env" using m(1) by (auto split: if_splits)
  have env1: "?env1 = env" using b c by simp
  show ?case
    using 13(1)[OF c] 13(2)[OF refl prod.collapse refl, unfolded env1] 13(3)[OF refl prod.collapse refl refl prod.collapse, unfolded env1]
      te b c t e env1
    by (auto simp: case_prod_beta Let_def intro: wt_intros)
next
  case (14 expected ts a as env)
  let ?a = "check_expr a env"
  let ?env1 = "expect_type (expr_span a) expected (fst ?a) (snd ?a)"
  have m: "emits env (snd ?a)" "emits env ?env1" by (intro emits_steps frame_intros)+
  have fin: "check_args ts as ?env1 = env" using 14(3) by (simp add: case_prod_beta Let_def)
  then have "?env1 = env" using m(2) check_expr_emits(3)[of ?env1 ts as] emits_antisym by metis
  with m(1) have a: "snd ?a = env" "type_eq expected (fst ?a)" by (simp_all add: expect_type_clean)
  with 14(1) 14(2)[OF prod.collapse] fin 14(4) show ?case
    by (auto simp: expect_type_def)
qed (auto intro: wt_intros)

lemma check_expr_clean_iff:
  "check_expr e env = (t, env) \<longleftrightarrow> wt_expr (env_funs env) (lookup_var env) e t"
  using wt_accepted(2)[OF _ refl refl] accepted_wt(1)[of e env] by force

section \<open>Properties\<close>

text \<open>C14. The checker is sound and complete for the declarative type system: it accepts an
  expression, reporting nothing and inferring a type, exactly when the typing rules derive
  that type from the visible functions and variables.\<close>

theorem check_expr_iff_well_typed:
  "check_expr e env = (t, env) \<longleftrightarrow> wt_expr (env_funs env) (lookup_var env) e t"
  by (rule check_expr_clean_iff)

text \<open>C16. Whether it accepts the expression or not, the checker only appends diagnostics, and it
  appends none exactly when the expression is well typed.\<close>

theorem check_expr_reports_iff_ill_typed:
  "\<exists>ds. snd (check_expr e env) = env\<lparr>diagnostics := diagnostics env @ ds\<rparr>
     \<and> (ds = [] \<longleftrightarrow> (\<exists>t. wt_expr (env_funs env) (lookup_var env) e t))"
proof -
  obtain ds where ds: "snd (check_expr e env) = env\<lparr>diagnostics := diagnostics env @ ds\<rparr>"
    using check_expr_emits(1)[of env e] by (auto simp: emits_def)
  have "ds = [] \<longleftrightarrow> snd (check_expr e env) = env"
    using ds by (auto dest: arg_cong[where f = diagnostics])
  also have "\<dots> \<longleftrightarrow> (\<exists>t. check_expr e env = (t, env))" by (metis prod.collapse snd_conv)
  finally show ?thesis using ds check_expr_clean_iff by blast
qed

end
