(* ===== verification/Hull_Reach.thy ===== *)
theory Hull_Reach
  imports Hull_IR "HOL-Library.Char_ord" "HOL-Library.List_Lexorder"
begin

text \<open>
  Reachability of functions from a constructor (\<open>crates/hull/src/emit/reachability.rs\<close>). The
  collectors insert callee names into a set; the model of each is the set it inserts. The
  worklist of \<open>deployment_closure\<close> is a \<open>Vec\<close> used as a stack, modelled by the reversed list, and
  a \<open>BTreeSet\<close> is iterated in the order of its strings. The loop terminates and computes the set
  of functions that the call relation reaches.
\<close>

section \<open>Callees\<close>

fun collect_expr_callees :: "expr \<Rightarrow> name set" where
  "collect_expr_callees (Expr sp t (EWord _)) = {}"
| "collect_expr_callees (Expr sp t (EBool _)) = {}"
| "collect_expr_callees (Expr sp t EUnit) = {}"
| "collect_expr_callees (Expr sp t (EVar _)) = {}"
| "collect_expr_callees (Expr sp t (EPair lhs rhs)) =
     collect_expr_callees lhs \<union> collect_expr_callees rhs"
| "collect_expr_callees (Expr sp t (EFst inner)) = collect_expr_callees inner"
| "collect_expr_callees (Expr sp t (ESnd inner)) = collect_expr_callees inner"
| "collect_expr_callees (Expr sp t (EInl _ v)) = collect_expr_callees v"
| "collect_expr_callees (Expr sp t (EInr _ v)) = collect_expr_callees v"
| "collect_expr_callees (Expr sp t (EInK _ _ v)) = collect_expr_callees v"
| "collect_expr_callees (Expr sp t (ECall callee args)) =
     insert callee (\<Union> (set (map collect_expr_callees args)))"
| "collect_expr_callees (Expr sp t (EIf _ cond then_expr else_expr)) =
     collect_expr_callees cond \<union> collect_expr_callees then_expr \<union> collect_expr_callees else_expr"

fun collect_yul_expr_callees :: "hir_db \<Rightarrow> hir_yul_expr \<Rightarrow> name set" where
  "collect_yul_expr_callees db (HirYulExpr sp (HELit _)) = {}"
| "collect_yul_expr_callees db (HirYulExpr sp (HEIdent _)) = {}"
| "collect_yul_expr_callees db (HirYulExpr sp HEError) = {}"
| "collect_yul_expr_callees db (HirYulExpr sp (HECall f args)) =
     (let txt = db (atom f)
      in insert (case strip_prefix ''usr$'' txt of Some rest \<Rightarrow> rest | None \<Rightarrow> txt)
           (\<Union> (set (map (collect_yul_expr_callees db) args))))"

fun collect_yul_stmt_callees :: "hir_db \<Rightarrow> hir_yul_stmt \<Rightarrow> name set"
  and collect_yul_case_callees :: "hir_db \<Rightarrow> hir_yul_case \<Rightarrow> name set" where
  "collect_yul_stmt_callees db (HirYulStmt sp (HSBlock stmts)) =
     \<Union> (set (map (collect_yul_stmt_callees db) stmts))"
| "collect_yul_stmt_callees db (HirYulStmt sp (HSLet _ None)) = {}"
| "collect_yul_stmt_callees db (HirYulStmt sp (HSLet _ (Some init))) = collect_yul_expr_callees db init"
| "collect_yul_stmt_callees db (HirYulStmt sp (HSAssign _ v)) = collect_yul_expr_callees db v"
| "collect_yul_stmt_callees db (HirYulStmt sp (HSExpr e)) = collect_yul_expr_callees db e"
| "collect_yul_stmt_callees db (HirYulStmt sp (HSIf cond body)) =
     collect_yul_expr_callees db cond \<union> \<Union> (set (map (collect_yul_stmt_callees db) body))"
| "collect_yul_stmt_callees db (HirYulStmt sp (HSFor init cond post body)) =
     \<Union> (set (map (collect_yul_stmt_callees db) init))
       \<union> \<Union> (set (map (collect_yul_stmt_callees db) post))
       \<union> \<Union> (set (map (collect_yul_stmt_callees db) body))
       \<union> collect_yul_expr_callees db cond"
| "collect_yul_stmt_callees db (HirYulStmt sp (HSSwitch e cases dflt)) =
     collect_yul_expr_callees db e
       \<union> \<Union> (set (map (collect_yul_case_callees db) cases))
       \<union> (case dflt of None \<Rightarrow> {} | Some body \<Rightarrow> \<Union> (set (map (collect_yul_stmt_callees db) body)))"
| "collect_yul_stmt_callees db (HirYulStmt sp (HSFunctionDef _ _ _ body)) =
     \<Union> (set (map (collect_yul_stmt_callees db) body))"
| "collect_yul_stmt_callees db (HirYulStmt sp HSLeave) = {}"
| "collect_yul_stmt_callees db (HirYulStmt sp HSBreak) = {}"
| "collect_yul_stmt_callees db (HirYulStmt sp HSContinue) = {}"
| "collect_yul_stmt_callees db (HirYulStmt sp HSError) = {}"
| "collect_yul_case_callees db (HirYulCase sp lit body) =
     \<Union> (set (map (collect_yul_stmt_callees db) body))"

fun collect_stmt_callees :: "hir_db \<Rightarrow> stmt \<Rightarrow> name set"
  and collect_alt_callees :: "hir_db \<Rightarrow> alt \<Rightarrow> name set" where
  "collect_stmt_callees db (Stmt sp (SLet _ _)) = {}"
| "collect_stmt_callees db (Stmt sp SBreak) = {}"
| "collect_stmt_callees db (Stmt sp SContinue) = {}"
| "collect_stmt_callees db (Stmt sp (SComment _)) = {}"
| "collect_stmt_callees db (Stmt sp (SRevert _)) = {}"
| "collect_stmt_callees db (Stmt sp (SAssign lhs rhs)) =
     collect_expr_callees lhs \<union> collect_expr_callees rhs"
| "collect_stmt_callees db (Stmt sp (SExpr e)) = collect_expr_callees e"
| "collect_stmt_callees db (Stmt sp (SReturn e)) = collect_expr_callees e"
| "collect_stmt_callees db (Stmt sp (SBlock stmts)) = \<Union> (set (map (collect_stmt_callees db) stmts))"
| "collect_stmt_callees db (Stmt sp (SFor init cond post body)) =
     \<Union> (set (map (collect_stmt_callees db) init)) \<union> collect_expr_callees cond
       \<union> \<Union> (set (map (collect_stmt_callees db) post)) \<union> \<Union> (set (map (collect_stmt_callees db) body))"
| "collect_stmt_callees db (Stmt sp (SMatch _ scrutinee alts)) =
     collect_expr_callees scrutinee \<union> \<Union> (set (map (collect_alt_callees db) alts))"
| "collect_stmt_callees db (Stmt sp (SAssembly stmts)) =
     \<Union> (set (map (collect_yul_stmt_callees db) stmts))"
| "collect_alt_callees db (Alt sp p bndr body) = \<Union> (set (map (collect_stmt_callees db) body))"

definition collect_body_callees :: "hir_db \<Rightarrow> stmt list \<Rightarrow> name set" where
  "collect_body_callees db body = \<Union> (set (map (collect_stmt_callees db) body))"

section \<open>The worklist\<close>

definition by_name :: "hull_function list \<Rightarrow> name \<rightharpoonup> hull_function" where
  "by_name fns = fold (\<lambda>f m. m(fn_name f \<mapsto> f)) fns Map.empty"

text \<open>The loop over the callees of one function: the closed set and the worklist.\<close>

fun add_callees :: "hull_function list \<Rightarrow> name list \<Rightarrow> name set \<Rightarrow> name list \<Rightarrow> name set \<times> name list" where
  "add_callees fns [] closed work = (closed, work)"
| "add_callees fns (c # cs) closed work =
     (if by_name fns c \<noteq> None \<and> c \<notin> closed
      then add_callees fns cs (insert c closed) (c # work)
      else add_callees fns cs closed work)"

lemma by_name_dom: "by_name fns n \<noteq> None \<longleftrightarrow> n \<in> set (map fn_name fns)"
proof -
  have "fold (\<lambda>f m. m(fn_name f \<mapsto> f)) fns m n \<noteq> None \<longleftrightarrow>
      n \<in> set (map fn_name fns) \<or> m n \<noteq> None" for m
    by (induction fns arbitrary: m) auto
  then show ?thesis by (simp add: by_name_def)
qed

lemma add_callees_props:
  "add_callees fns cs closed work = (closed', work') \<Longrightarrow>
     closed' = closed \<union> {c \<in> set cs. by_name fns c \<noteq> None}
     \<and> set work' = set work \<union> (closed' - closed)
     \<and> (closed' = closed \<longrightarrow> work' = work)"
proof (induction fns cs closed work rule: add_callees.induct)
  case (1 fns closed work)
  then show ?case by auto
next
  case (2 fns c cs closed work)
  show ?case
  proof (cases "by_name fns c \<noteq> None \<and> c \<notin> closed")
    case True
    with 2(1)[OF True] 2(3) show ?thesis by auto
  next
    case False
    with 2(2)[OF False] 2(3) show ?thesis by auto
  qed
qed

function closure_loop :: "hir_db \<Rightarrow> hull_function list \<Rightarrow> name set \<Rightarrow> name list \<Rightarrow> name set" where
  "closure_loop db fns closed [] = closed"
| "closure_loop db fns closed (n # work) =
     (case by_name fns n of
        None \<Rightarrow> closure_loop db fns closed work
      | Some f \<Rightarrow>
          (let callees = sorted_list_of_set (collect_body_callees db (fn_body f));
               (closed, work) = add_callees fns callees closed work
           in closure_loop db fns closed work))"
  by pat_completeness auto

termination
proof (relation "measures [\<lambda>(db, fs, closed, work). card (set (map fn_name fs) - closed),
    \<lambda>(db, fs, closed, work). length work]")
  fix db :: hir_db and fns n f callees closed work closed' and work' and x
  assume "by_name fns n = Some f" "callees = sorted_list_of_set (collect_body_callees db (fn_body f))"
    "x = add_callees fns callees closed work" "(closed', work') = x"
  then have p: "closed' = closed \<union> {c \<in> set callees. by_name fns c \<noteq> None}"
    "closed' = closed \<longrightarrow> work' = work"
    using add_callees_props[of fns callees closed work closed' work'] by simp_all
  show "((db, fns, closed', work'), db, fns, closed, n # work)
      \<in> measures [\<lambda>(db, fs, closed, work). card (set (map fn_name fs) - closed),
          \<lambda>(db, fs, closed, work). length work]"
  proof (cases "closed' = closed")
    case True
    with p show ?thesis by simp
  next
    case False
    with p have "set (map fn_name fns) - closed' \<subset> set (map fn_name fns) - closed"
      using by_name_dom by fastforce
    then show ?thesis by (simp add: psubset_card_mono)
  qed
qed simp_all

definition deployment_closure :: "hir_db \<Rightarrow> hull_function list \<Rightarrow> name set \<Rightarrow> name set" where
  "deployment_closure db fns roots =
     closure_loop db fns roots (rev (sorted_list_of_set roots))"

section \<open>The closure is the reachable set\<close>

definition calls :: "hir_db \<Rightarrow> hull_function list \<Rightarrow> name \<Rightarrow> name \<Rightarrow> bool" where
  "calls db fns n m \<longleftrightarrow>
     (\<exists>f. by_name fns n = Some f \<and> m \<in> collect_body_callees db (fn_body f)
        \<and> by_name fns m \<noteq> None)"

inductive reached :: "hir_db \<Rightarrow> hull_function list \<Rightarrow> name set \<Rightarrow> name \<Rightarrow> bool"
  for db fns roots where
  reached_root: "n \<in> roots \<Longrightarrow> reached db fns roots n"
| reached_call: "reached db fns roots n \<Longrightarrow> calls db fns n m \<Longrightarrow> reached db fns roots m"

lemma finite_expr_callees: "finite (collect_expr_callees e)"
  by (induction e rule: collect_expr_callees.induct) auto

lemma finite_yul_expr_callees: "finite (collect_yul_expr_callees db e)"
  by (induction db e rule: collect_yul_expr_callees.induct) (auto simp: Let_def)

lemma finite_yul_stmt_callees:
  "finite (collect_yul_stmt_callees db s)" "finite (collect_yul_case_callees db c)"
  by (induction db s and db c rule: collect_yul_stmt_callees_collect_yul_case_callees.induct)
     (auto simp: finite_yul_expr_callees split: option.split)

lemma finite_stmt_callees:
  "finite (collect_stmt_callees db s)" "finite (collect_alt_callees db a)"
  by (induction db s and db a rule: collect_stmt_callees_collect_alt_callees.induct)
     (auto simp: finite_expr_callees finite_yul_stmt_callees)

lemma finite_body_callees: "finite (collect_body_callees db body)"
  by (simp add: collect_body_callees_def finite_stmt_callees)

text \<open>The loop invariant: what is closed is reachable, and only functions on the worklist may
  still have callees outside.\<close>

lemma closure_loop_correct:
  assumes "\<And>n. n \<in> closed \<Longrightarrow> reached db fns roots n"
    and "roots \<subseteq> closed" and "set work \<subseteq> closed"
    and "\<And>n m. n \<in> closed - set work \<Longrightarrow> calls db fns n m \<Longrightarrow> m \<in> closed"
  shows "closure_loop db fns closed work = {n. reached db fns roots n}"
  using assms
proof (induction db fns closed work rule: closure_loop.induct)
  case (1 db fns closed)
  have "n \<in> closed" if "reached db fns roots n" for n
    using that 1(2,4) by induction auto
  with 1(1) show ?case by auto
next
  case (2 db fns closed n work)
  show ?case
  proof (cases "by_name fns n")
    case None
    then have leaf: "\<not> calls db fns n m" for m by (simp add: calls_def)
    have "closure_loop db fns closed work = {n. reached db fns roots n}"
    proof (rule 2(1)[OF None])
      show "m \<in> closed" if "k \<in> closed - set work" "calls db fns k m" for k m
        using that leaf by (intro 2(6)[of k m]) auto
    qed (use 2(3-5) in auto)
    with None show ?thesis by simp
  next
    case (Some f)
    let ?cs = "sorted_list_of_set (collect_body_callees db (fn_body f))"
    obtain closed' work' where a: "add_callees fns ?cs closed work = (closed', work')"
      by (cases "add_callees fns ?cs closed work")
    have cs: "set ?cs = collect_body_callees db (fn_body f)"
      by (simp add: finite_body_callees)
    have callees: "calls db fns n m \<longleftrightarrow> m \<in> set ?cs \<and> by_name fns m \<noteq> None" for m
      unfolding cs using Some by (simp add: calls_def)
    have closed': "closed' = closed \<union> {m. calls db fns n m}"
      and work': "set work' = set work \<union> (closed' - closed)"
      using add_callees_props[OF a] callees by auto
    have "closure_loop db fns closed' work' = {n. reached db fns roots n}"
    proof (rule 2(2)[OF Some refl refl a[symmetric]])
      show "reached db fns roots m" if "m \<in> closed'" for m
        using that closed' 2(3,5) by (auto intro: reached.intros)
      show "m \<in> closed'" if "k \<in> closed' - set work'" "calls db fns k m" for k m
      proof (cases "k = n")
        case True
        with that(2) closed' show ?thesis by simp
      next
        case False
        with that(1) work' have "k \<in> closed - set (n # work)" by auto
        then have "m \<in> closed" using that(2) by (rule 2(6))
        with closed' show ?thesis by simp
      qed
    qed (use closed' work' 2(4,5) in auto)
    with a Some show ?thesis by simp
  qed
qed

text \<open>C17. For every set of roots the worklist terminates with exactly the functions that calls,
  in Hull code or in inline assembly, reach from the roots.\<close>

theorem deployment_closure_is_reachable:
  assumes "finite roots"
  shows "deployment_closure db fns roots = {n. reached db fns roots n}"
  unfolding deployment_closure_def
  by (rule closure_loop_correct) (use assms in \<open>auto intro: reached.intros\<close>)

theorem deployment_closure_is_reachable_witness:
  "let sp = \<lparr>anchor = 0, sp_begin = 0, sp_end = 0\<rparr>; u = ty_unit sp;
       fn = (\<lambda>n body. \<lparr>fn_span = sp, fn_name = n, fn_args = [], fn_ret = u, fn_body = body\<rparr>)
   in ''f'' \<in> deployment_closure (\<lambda>_. ''usr$f'')
        [fn ''main'' [Stmt sp (SAssembly [HirYulStmt sp (HSExpr (HirYulExpr sp
            (HECall (Spanned 0 sp) [])))])], fn ''f'' [], fn ''g'' []] {''main''}"
  by (auto simp: Let_def deployment_closure_is_reachable calls_def by_name_def
      collect_body_callees_def intro!: reached_call[OF reached_root])

end
