(* ===== verification/Word_Literal.thy ===== *)
theory Word_Literal
  imports Prelude
begin

text \<open>
  256-bit word literals (\<open>crates/hull/src/word.rs\<close>): the parser into eight 32-bit limbs with an
  overflow flag, the long division that prints a word in decimal, and the two entry points
  \<open>wrap_word_literal\<close> and \<open>canonical_word_literal\<close>. Limbs are \<open>32 word\<close> values and the
  intermediate products and remainders \<open>64 word\<close> values, as in the code; the lemmas show that
  no 64-bit operation wraps. The reference is the natural number \<open>literal_value\<close> a spelling
  denotes.
\<close>

unbundle bit_operations_syntax

section \<open>Definitions\<close>

datatype word_literal_error =
    InvalidHexWordLiteral string
  | InvalidDecimalWordLiteral string

record word256 =
  limbs :: "32 word list"
  overflow :: bool

definition word256_default :: word256 where
  "word256_default = \<lparr>limbs = replicate 8 0, overflow = False\<rparr>"

text \<open>The loop of \<open>mul_add_small\<close>, least significant limb first, with its carry.\<close>

fun mul_add_limbs :: "32 word list \<Rightarrow> 32 word \<Rightarrow> 64 word \<Rightarrow> 32 word list \<times> 64 word" where
  "mul_add_limbs [] base carry = ([], carry)"
| "mul_add_limbs (limb # rest) base carry =
     (let value = ucast limb * ucast base + carry;
          (rest', carry') = mul_add_limbs rest base (drop_bit 32 value)
      in (ucast value # rest', carry'))"

definition mul_add_small :: "32 word \<Rightarrow> 32 word \<Rightarrow> word256 \<Rightarrow> word256" where
  "mul_add_small base digit w =
     (let (ls, carry) = mul_add_limbs (limbs w) base (ucast digit)
      in if carry \<noteq> 0 then w\<lparr>limbs := ls, overflow := True\<rparr> else w\<lparr>limbs := ls\<rparr>)"

text \<open>The loop of \<open>div_rem_small\<close>, most significant limb first, with its remainder. The code
  calls it with the divisor 10 only, so the division never panics.\<close>

fun div_rem_limbs :: "32 word list \<Rightarrow> 32 word \<Rightarrow> 64 word \<Rightarrow> 32 word list \<times> 64 word" where
  "div_rem_limbs [] divisor r = ([], r)"
| "div_rem_limbs (limb # rest) divisor r =
     (let value = push_bit 32 r OR ucast limb;
          (rest', r') = div_rem_limbs rest divisor (value mod ucast divisor)
      in (ucast (value div ucast divisor) # rest', r'))"

definition div_rem_small :: "32 word list \<Rightarrow> 32 word \<Rightarrow> 32 word list \<times> 32 word" where
  "div_rem_small ls divisor =
     (let (qs, r) = div_rem_limbs (rev ls) divisor 0 in (rev qs, ucast r))"

fun limbs_value :: "32 word list \<Rightarrow> nat" where
  "limbs_value [] = 0"
| "limbs_value (l # ls) = unat l + 2 ^ 32 * limbs_value ls"

section \<open>Arithmetic of the limbs\<close>

lemma unat_bound: "unat (w :: 'a::len word) < 2 ^ LENGTH('a)"
  by (rule unsigned_less)

lemma unat_ucast_take: "unat (ucast (w :: 'a::len word) :: 'b::len word) = unat w mod 2 ^ LENGTH('b)"
  by (simp add: unsigned_ucast_eq take_bit_eq_mod)

lemma unat_ucast_32_64 [simp]: "unat (ucast (w :: 32 word) :: 64 word) = unat w"
  using unat_bound[of w] by (simp add: unat_ucast_take)

lemma limbs_value_append:
  "limbs_value (xs @ ys) = limbs_value xs + 2 ^ (32 * length xs) * limbs_value ys"
  by (induction xs) (simp_all add: algebra_simps power_add)

lemma limbs_value_zero_iff: "limbs_value ls = 0 \<longleftrightarrow> list_all (\<lambda>l. l = 0) ls"
  by (induction ls) (auto simp: unat_eq_zero)

lemma limbs_value_bound: "limbs_value ls < 2 ^ (32 * length ls)"
proof (induction ls)
  case Nil
  then show ?case by simp
next
  case (Cons l ls)
  have "unat l < 2 ^ 32" using unat_bound[of l] by simp
  moreover have "2 ^ 32 * (limbs_value ls + 1) \<le> (2::nat) ^ 32 * 2 ^ (32 * length ls)"
    using Cons by (intro mult_le_mono2) simp
  ultimately show ?case by (simp add: power_add algebra_simps)
qed

lemma mul_add_value_bound:
  fixes limb base :: "32 word" and carry :: "64 word"
  assumes "unat carry < 2 ^ 32"
  shows "unat (ucast limb * ucast base + carry :: 64 word) = unat limb * unat base + unat carry"
    and "unat limb * unat base + unat carry < 2 ^ 64"
proof -
  have "unat limb \<le> 2 ^ 32 - 1" "unat base \<le> 2 ^ 32 - 1"
    using unat_bound[of limb] unat_bound[of base] by simp_all
  then have "unat limb * unat base \<le> (2 ^ 32 - 1) * (2 ^ 32 - 1)" by (rule mult_le_mono)
  with assms show b: "unat limb * unat base + unat carry < 2 ^ 64" by simp
  then show "unat (ucast limb * ucast base + carry :: 64 word) = unat limb * unat base + unat carry"
    by (simp add: unat_word_ariths)
qed

lemma mul_add_limbs_value:
  assumes "unat carry < 2 ^ 32" and "mul_add_limbs ls base carry = (ls', carry')"
  shows "limbs_value ls' + 2 ^ (32 * length ls) * unat carry' = limbs_value ls * unat base + unat carry
    \<and> unat carry' < 2 ^ 32 \<and> length ls' = length ls"
  using assms
proof (induction ls arbitrary: carry ls' carry')
  case Nil
  then show ?case by simp
next
  case (Cons limb rest)
  define v :: "64 word" where "v = ucast limb * ucast base + carry"
  have v: "unat v = unat limb * unat base + unat carry" and vb: "unat v < 2 ^ 64"
    using mul_add_value_bound[OF Cons.prems(1), of limb base] by (simp_all add: v_def)
  obtain rest' where rec: "mul_add_limbs rest base (drop_bit 32 v) = (rest', carry')"
    and ls': "ls' = ucast v # rest'"
    using Cons.prems(2) by (auto simp: v_def Let_def split: prod.splits)
  have d: "unat (drop_bit 32 v) = unat v div 2 ^ 32"
    by (simp only: unat_drop_bit_eq) (simp add: drop_bit_eq_div)
  moreover have "unat v div 2 ^ 32 < 2 ^ 32" using vb by (simp add: less_mult_imp_div_less)
  ultimately have "unat (drop_bit 32 v) < 2 ^ 32" by simp
  from Cons.IH[OF this rec] d
  have ih: "limbs_value rest' + 2 ^ (32 * length rest) * unat carry'
      = limbs_value rest * unat base + unat v div 2 ^ 32"
    and c: "unat carry' < 2 ^ 32" and len: "length rest' = length rest" by simp_all
  have lo: "unat (ucast v :: 32 word) = unat v mod 2 ^ 32" by (simp add: unat_ucast_take)
  have "limbs_value ls' + 2 ^ (32 * length (limb # rest)) * unat carry'
      = unat v mod 2 ^ 32 + 2 ^ 32 * (limbs_value rest' + 2 ^ (32 * length rest) * unat carry')"
    by (simp add: ls' lo power_add algebra_simps)
  also have "\<dots> = unat v mod 2 ^ 32 + 2 ^ 32 * (unat v div 2 ^ 32) + 2 ^ 32 * (limbs_value rest * unat base)"
    by (subst ih) (simp add: distrib_left)
  also have "\<dots> = unat v + 2 ^ 32 * (limbs_value rest * unat base)" by simp
  also have "\<dots> = limbs_value (limb # rest) * unat base + unat carry"
    by (simp add: v algebra_simps)
  finally show ?case using c len by (simp add: ls')
qed

lemma div_rem_step_bound:
  fixes r :: "64 word" and limb divisor :: "32 word"
  assumes "unat r < unat divisor"
  defines "v \<equiv> push_bit 32 r OR (ucast limb :: 64 word)"
  shows "unat v = unat r * 2 ^ 32 + unat limb"
    and "unat v div unat divisor < 2 ^ 32"
proof -
  have rb: "unat r < 2 ^ 32" using assms(1) unat_bound[of divisor] by simp
  have lb: "unat limb < 2 ^ 32" using unat_bound[of limb] by simp
  have "push_bit 32 r AND (ucast limb :: 64 word) = 0"
    by (rule bit_eqI) (auto simp: bit_simps dest: bit_imp_le_length)
  then have "v = push_bit 32 r + ucast limb"
    unfolding v_def by (simp add: disjunctive_add_eq_or)
  moreover have "unat (push_bit 32 r) = unat r * 2 ^ 32"
  proof -
    have "unat r * 2 ^ 32 < 2 ^ 32 * 2 ^ 32" using rb by (intro mult_strict_right_mono) simp_all
    then show ?thesis
      by (simp add: unat_word_ariths push_bit_eq_mult unat_mult_lem[symmetric])
  qed
  moreover have "unat r * 2 ^ 32 + unat limb < 2 ^ 64"
  proof -
    have "unat r * 2 ^ 32 \<le> (2 ^ 32 - 1) * 2 ^ 32" using rb by (intro mult_le_mono1) simp
    with lb show ?thesis by simp
  qed
  ultimately show v: "unat v = unat r * 2 ^ 32 + unat limb"
    by (simp add: unat_word_ariths unat_ucast_take)
  have "(unat r + 1) * 2 ^ 32 \<le> unat divisor * 2 ^ 32" using assms(1) by (intro mult_le_mono1) simp
  then have "unat v < unat divisor * 2 ^ 32" using v lb by simp
  then show "unat v div unat divisor < 2 ^ 32"
    by (simp add: less_mult_imp_div_less mult.commute)
qed

lemma div_rem_limbs_value:
  assumes "unat r < unat divisor" and "div_rem_limbs ls divisor r = (qs, r')"
  shows "limbs_value (rev qs) * unat divisor + unat r'
      = unat r * 2 ^ (32 * length ls) + limbs_value (rev ls)
    \<and> unat r' < unat divisor \<and> length qs = length ls"
  using assms
proof (induction ls arbitrary: r qs r')
  case Nil
  then show ?case by simp
next
  case (Cons limb rest)
  define v where "v = push_bit 32 r OR (ucast limb :: 64 word)"
  have v: "unat v = unat r * 2 ^ 32 + unat limb" and q: "unat v div unat divisor < 2 ^ 32"
    using div_rem_step_bound[OF Cons.prems(1), of limb] by (simp_all add: v_def)
  obtain qs' where rec: "div_rem_limbs rest divisor (v mod ucast divisor) = (qs', r')"
    and qs: "qs = ucast (v div ucast divisor) # qs'"
    using Cons.prems(2) by (auto simp: v_def Let_def split: prod.splits)
  have m: "unat (v mod ucast divisor) = unat v mod unat divisor"
    by (simp add: unat_mod)
  have "unat (v mod ucast divisor) < unat divisor" using Cons.prems(1) by (simp add: m)
  from Cons.IH[OF this rec] m
  have ih: "limbs_value (rev qs') * unat divisor + unat r'
      = unat v mod unat divisor * 2 ^ (32 * length rest) + limbs_value (rev rest)"
    and b: "unat r' < unat divisor" and len: "length qs' = length rest" by simp_all
  have hi: "unat (ucast (v div ucast divisor) :: 32 word) = unat v div unat divisor"
    using q by (simp add: unat_ucast_take unat_div)
  let ?P = "2 ^ (32 * length rest) :: nat"
  have "limbs_value (rev qs) * unat divisor + unat r'
      = (limbs_value (rev qs') * unat divisor + unat r') + ?P * (unat v div unat divisor * unat divisor)"
    by (simp add: qs limbs_value_append len hi algebra_simps)
  also have "\<dots> = ?P * (unat v mod unat divisor + unat v div unat divisor * unat divisor)
      + limbs_value (rev rest)"
    by (subst ih) (simp only: distrib_left distrib_right ac_simps)
  also have "\<dots> = ?P * unat v + limbs_value (rev rest)" by simp
  also have "\<dots> = unat r * 2 ^ (32 * length (limb # rest)) + limbs_value (rev (limb # rest))"
    by (simp add: v limbs_value_append power_add algebra_simps)
  finally show ?case using b len by (simp add: qs)
qed

lemma div_rem_small_value:
  assumes "divisor \<noteq> 0"
  shows "limbs_value (fst (div_rem_small ls divisor)) = limbs_value ls div unat divisor"
    and "unat (snd (div_rem_small ls divisor)) = limbs_value ls mod unat divisor"
    and "length (fst (div_rem_small ls divisor)) = length ls"
proof -
  obtain qs r where qr: "div_rem_limbs (rev ls) divisor 0 = (qs, r)" by (cases "div_rem_limbs (rev ls) divisor 0")
  have pos: "unat (0 :: 64 word) < unat divisor" using assms by (simp add: unat_gt_0)
  from div_rem_limbs_value[OF pos qr]
  have e: "limbs_value (rev qs) * unat divisor + unat r = limbs_value ls"
    and b: "unat r < unat divisor" and len: "length qs = length ls" by simp_all
  have "unat r < 2 ^ 32" using b unat_bound[of divisor] by simp
  then have r: "unat (ucast r :: 32 word) = unat r" by (simp add: unat_ucast_take)
  show "limbs_value (fst (div_rem_small ls divisor)) = limbs_value ls div unat divisor"
    unfolding e[symmetric] using b by (simp add: div_rem_small_def qr)
  show "unat (snd (div_rem_small ls divisor)) = limbs_value ls mod unat divisor"
    unfolding e[symmetric] using b by (simp add: div_rem_small_def qr r)
  show "length (fst (div_rem_small ls divisor)) = length ls"
    by (simp add: div_rem_small_def qr len)
qed

section \<open>Printing\<close>

lemma ten_facts: "(10 :: 32 word) \<noteq> 0" "unat (10 :: 32 word) = 10"
  by simp_all

text \<open>The \<open>while\<close> loop of \<open>to_decimal_string\<close>: the digits it pushes, most significant first
  after the final reversal. Each round divides the value by ten, so it stops.\<close>

function decimal_digits :: "32 word list \<Rightarrow> string" where
  "decimal_digits ls =
     (if list_ex (\<lambda>l. l \<noteq> 0) ls
      then (let (ls', r) = div_rem_small ls 10 in decimal_digits ls' @ [char_of (48 + unat r)])
      else [])"
  by pat_completeness auto
termination
proof (relation "measure limbs_value")
  fix ls r x ls'
  assume nz: "list_ex (\<lambda>l. l \<noteq> 0) ls" and x: "x = div_rem_small ls 10" "(ls', r) = x"
  have "limbs_value ls \<noteq> 0" using nz by (auto simp: limbs_value_zero_iff list_ex_iff list_all_iff)
  moreover have "limbs_value ls' = limbs_value ls div 10"
    using div_rem_small_value(1)[of 10 ls] x(2) unfolding x(1) by (metis fst_conv ten_facts)
  ultimately show "(ls', ls) \<in> measure limbs_value" by simp
qed simp

declare decimal_digits.simps [simp del]

definition to_decimal_string :: "word256 \<Rightarrow> string" where
  "to_decimal_string w =
     (if list_all (\<lambda>l. l = 0) (limbs w) then ''0'' else decimal_digits (limbs w))"

section \<open>Parsing\<close>

definition hex_digits :: "string \<Rightarrow> string option" where
  "hex_digits s = (case strip_prefix ''0x'' s of Some d \<Rightarrow> Some d | None \<Rightarrow> strip_prefix ''0X'' s)"

text \<open>The loop over the digits. The code's \<open>expect\<close> on \<open>to_digit\<close> is the None branch, which
  the validation before the loop excludes.\<close>

fun push_digits :: "nat \<Rightarrow> word256 \<Rightarrow> string \<Rightarrow> word256 option" where
  "push_digits radix w [] = Some w"
| "push_digits radix w (ch # chs) =
     (case to_digit radix ch of
        None \<Rightarrow> None
      | Some d \<Rightarrow> push_digits radix (mul_add_small (of_nat radix) (of_nat d) w) chs)"

text \<open>The outer None is the panic of \<open>expect\<close>; \<open>parse_word_literal_returns\<close> excludes it.\<close>

definition parse_word_literal :: "string \<Rightarrow> (word_literal_error + word256) option" where
  "parse_word_literal s =
     (case hex_digits s of
        Some digits \<Rightarrow>
          if digits = [] \<or> \<not> list_all is_ascii_hexdigit digits
          then Some (Inl (InvalidHexWordLiteral s))
          else map_option Inr (push_digits 16 word256_default digits)
      | None \<Rightarrow>
          if s = [] \<or> \<not> list_all is_ascii_digit s
          then Some (Inl (InvalidDecimalWordLiteral s))
          else map_option Inr (push_digits 10 word256_default s))"

definition wrap_word_literal :: "string \<Rightarrow> (word_literal_error + string) option" where
  "wrap_word_literal s =
     map_option
       (\<lambda>r. res_bind r (\<lambda>w. if overflow w then Inr (to_decimal_string w) else Inr s))
       (parse_word_literal s)"

definition canonical_word_literal :: "string \<Rightarrow> (word_literal_error + string) option" where
  "canonical_word_literal s =
     map_option (\<lambda>r. res_bind r (\<lambda>w. Inr (to_decimal_string w))) (parse_word_literal s)"

section \<open>The reference: what a literal denotes\<close>

definition literal_value :: "string \<Rightarrow> nat" where
  "literal_value s = (case hex_digits s of Some d \<Rightarrow> digits_value 16 d | None \<Rightarrow> digits_value 10 s)"

definition literal_error :: "string \<Rightarrow> word_literal_error option" where
  "literal_error s =
     (case hex_digits s of
        Some d \<Rightarrow> if d \<noteq> [] \<and> list_all is_ascii_hexdigit d then None else Some (InvalidHexWordLiteral s)
      | None \<Rightarrow> if s \<noteq> [] \<and> list_all is_ascii_digit s then None else Some (InvalidDecimalWordLiteral s))"

text \<open>\<open>word_modulus\<close> keeps the numeral out of the simplifier's sight.\<close>

definition word_modulus :: nat where
  "word_modulus = 2 ^ 256"

lemma digit_char_0: "digit_char 0 = CHR ''0''"
  by code_simp

lemma char_of_digit: "char_of (48 + d) = digit_char d"
  by (simp add: digit_char_def)

lemma decimal_digits_value:
  "decimal_digits ls = (if limbs_value ls = 0 then [] else show_nat (limbs_value ls))"
proof (induction ls rule: decimal_digits.induct)
  case (1 ls)
  obtain ls' r where qr: "div_rem_small ls 10 = (ls', r)" by (cases "div_rem_small ls 10")
  have v: "limbs_value ls' = limbs_value ls div 10" "unat r = limbs_value ls mod 10"
    using div_rem_small_value[OF ten_facts(1), of ls] by (simp_all add: qr)
  show ?case
  proof (cases "limbs_value ls = 0")
    case True
    then have "\<not> list_ex (\<lambda>l. l \<noteq> 0) ls"
      by (simp add: limbs_value_zero_iff list_ex_iff list_all_iff)
    with True show ?thesis by (subst decimal_digits.simps) simp
  next
    case False
    then have ex: "list_ex (\<lambda>l. l \<noteq> 0) ls"
      by (simp add: limbs_value_zero_iff list_ex_iff list_all_iff)
    then have "decimal_digits ls = decimal_digits ls' @ [digit_char (limbs_value ls mod 10)]"
      by (subst decimal_digits.simps) (simp add: qr v char_of_digit)
    also have "decimal_digits ls' = (if limbs_value ls div 10 = 0 then [] else show_nat (limbs_value ls div 10))"
      using 1[OF ex qr[symmetric] refl] by (simp add: v)
    finally show ?thesis using False
      by (subst show_nat.simps) (auto simp: div_eq_0_iff)
  qed
qed

lemma to_decimal_string_value: "to_decimal_string w = show_nat (limbs_value (limbs w))"
  by (simp add: to_decimal_string_def decimal_digits_value limbs_value_zero_iff[symmetric]
      show_nat.simps[of 0] digit_char_0)

lemma mul_add_small_value:
  assumes len: "length (limbs w) = 8"
    and base: "0 < unat base"
    and w: "limbs_value (limbs w) = v mod word_modulus" "overflow w \<longleftrightarrow> word_modulus \<le> v"
  shows "limbs_value (limbs (mul_add_small base d w)) = (v * unat base + unat d) mod word_modulus"
    and "overflow (mul_add_small base d w) \<longleftrightarrow> word_modulus \<le> v * unat base + unat d"
    and "length (limbs (mul_add_small base d w)) = 8"
proof -
  obtain ls c where m: "mul_add_limbs (limbs w) base (ucast d) = (ls, c)"
    by (cases "mul_add_limbs (limbs w) base (ucast d)")
  have "unat (ucast d :: 64 word) < 2 ^ 32" using unat_bound[of d] by simp
  from mul_add_limbs_value[OF this m] len
  have e: "limbs_value ls + word_modulus * unat c = limbs_value (limbs w) * unat base + unat d"
    and lsl: "length ls = 8" by (simp_all add: word_modulus_def)
  have lsb: "limbs_value ls < word_modulus"
    using limbs_value_bound[of ls] lsl by (simp add: word_modulus_def)
  have "limbs_value ls = (limbs_value ls + word_modulus * unat c) mod word_modulus"
    using lsb by (simp only: mod_mult_self2 mod_less)
  also have "\<dots> = (v mod word_modulus * unat base + unat d) mod word_modulus" by (simp only: e w(1))
  also have "\<dots> = (v * unat base + unat d) mod word_modulus"
    by (simp only: mod_add_left_eq[symmetric, of "_ * _"] mod_mult_left_eq)
  finally have val: "limbs_value ls = (v * unat base + unat d) mod word_modulus" .
  then show "limbs_value (limbs (mul_add_small base d w)) = (v * unat base + unat d) mod word_modulus"
    by (simp add: mul_add_small_def m)
  show "length (limbs (mul_add_small base d w)) = 8" by (simp add: mul_add_small_def m lsl)
  show "overflow (mul_add_small base d w) \<longleftrightarrow> word_modulus \<le> v * unat base + unat d"
  proof (cases "word_modulus \<le> v")
    case True
    then have "word_modulus \<le> v * unat base + unat d"
      using base by (metis le_add1 le_trans mult.right_neutral mult_le_mono2 Suc_leI One_nat_def)
    with True w(2) show ?thesis by (simp add: mul_add_small_def m)
  next
    case False
    then have "limbs_value (limbs w) = v" by (simp add: w(1))
    with e have e': "limbs_value ls + word_modulus * unat c = v * unat base + unat d" by simp
    have "c \<noteq> 0 \<longleftrightarrow> word_modulus \<le> v * unat base + unat d"
    proof (cases "c = 0")
      case True
      with e' lsb show ?thesis by simp
    next
      case False
      then have "1 \<le> unat c" by (simp add: Suc_leI unat_gt_0)
      then have "word_modulus \<le> word_modulus * unat c" by (cases "unat c") simp_all
      with e' have "word_modulus \<le> v * unat base + unat d" by linarith
      with False show ?thesis by simp
    qed
    with False w(2) show ?thesis by (simp add: mul_add_small_def m)
  qed
qed

text \<open>The loop invariant: after any prefix the limbs hold the prefix modulo \<open>2^256\<close>.\<close>

lemma push_digits_value:
  assumes "length (limbs w) = 8" and "0 < radix" and "radix \<le> 16"
    and "limbs_value (limbs w) = v mod word_modulus" and "overflow w \<longleftrightarrow> word_modulus \<le> v"
    and "\<forall>c\<in>set s. to_digit radix c \<noteq> None"
  shows "\<exists>w'. push_digits radix w s = Some w'
    \<and> limbs_value (limbs w') = foldl (\<lambda>v c. v * radix + digit_val radix c) v s mod word_modulus
    \<and> (overflow w' \<longleftrightarrow> word_modulus \<le> foldl (\<lambda>v c. v * radix + digit_val radix c) v s)"
  using assms
proof (induction s arbitrary: w v)
  case Nil
  then show ?case by simp
next
  case (Cons c s)
  from Cons.prems(6) obtain d where d: "to_digit radix c = Some d" by auto
  then have "d < 16" using Cons.prems(3) to_digit_less by fastforce
  then have ud: "unat (of_nat d :: 32 word) = d" by (simp add: unat_of_nat)
  have ur: "unat (of_nat radix :: 32 word) = radix" using Cons.prems(3) by (simp add: unat_of_nat)
  have pos: "0 < unat (of_nat radix :: 32 word)" using Cons.prems(2) by (simp only: ur)
  note step = mul_add_small_value[OF Cons.prems(1) pos Cons.prems(4,5), of "of_nat d", unfolded ud ur]
  have dv: "digit_val radix c = d" by (simp add: digit_val_def d)
  have "\<forall>c\<in>set s. to_digit radix c \<noteq> None" using Cons.prems(6) by simp
  from Cons.IH[OF step(3) Cons.prems(2,3) step(1,2) this] show ?case by (simp add: d dv)
qed

lemma word256_default_value:
  "length (limbs word256_default) = 8"
  "limbs_value (limbs word256_default) = 0 mod word_modulus"
  "overflow word256_default \<longleftrightarrow> word_modulus \<le> (0 :: nat)"
  by (simp_all add: word256_default_def word_modulus_def limbs_value_zero_iff list_all_iff)

lemma parse_word_literal_error:
  "literal_error s = Some e \<Longrightarrow> parse_word_literal s = Some (Inl e)"
  by (auto simp: parse_word_literal_def literal_error_def split: option.splits if_splits)

lemma parse_word_literal_ok:
  assumes "literal_error s = None"
  shows "\<exists>w. parse_word_literal s = Some (Inr w)
    \<and> limbs_value (limbs w) = literal_value s mod word_modulus
    \<and> (overflow w \<longleftrightarrow> word_modulus \<le> literal_value s)"
proof (cases "hex_digits s")
  case (Some d)
  with assms have wf: "d \<noteq> []" "list_all is_ascii_hexdigit d"
    by (simp_all add: literal_error_def split: if_splits)
  then have "\<forall>c\<in>set d. to_digit 16 c \<noteq> None"
    by (metis list_all_iff option.distinct(1) to_digit_hex)
  from push_digits_value[OF word256_default_value(1) _ _ word256_default_value(2,3) this]
  show ?thesis using wf Some
    by (auto simp: parse_word_literal_def literal_value_def digits_value_def)
next
  case None
  with assms have wf: "s \<noteq> []" "list_all is_ascii_digit s"
    by (simp_all add: literal_error_def split: if_splits)
  then have "\<forall>c\<in>set s. to_digit 10 c \<noteq> None"
    by (simp add: list_all_iff to_digit_decimal)
  from push_digits_value[OF word256_default_value(1) _ _ word256_default_value(2,3) this]
  show ?thesis using wf None
    by (auto simp: parse_word_literal_def literal_value_def digits_value_def)
qed

lemma wrap_word_literal_value:
  "wrap_word_literal s =
     Some (case literal_error s of
             Some e \<Rightarrow> Inl e
           | None \<Rightarrow> Inr (if literal_value s < word_modulus then s
                          else show_nat (literal_value s mod word_modulus)))"
  using parse_word_literal_error[of s] parse_word_literal_ok[of s]
  by (cases "literal_error s")
     (auto simp: wrap_word_literal_def to_decimal_string_value not_less)

text \<open>C24. The parser never panics and computes the denoted number modulo \<open>2^256\<close>, raising the
  overflow flag exactly when the number does not fit; a malformed spelling gives the error the
  code names.\<close>

theorem parse_word_literal_correct:
  "\<exists>r. parse_word_literal s = Some r
    \<and> (case r of
         Inl e \<Rightarrow> literal_error s = Some e
       | Inr w \<Rightarrow> literal_error s = None
           \<and> limbs_value (limbs w) = literal_value s mod 2 ^ 256
           \<and> (overflow w \<longleftrightarrow> 2 ^ 256 \<le> literal_value s))"
  using parse_word_literal_error[of s] parse_word_literal_ok[of s, unfolded word_modulus_def]
  by (cases "literal_error s") fastforce+

text \<open>\<open>canonical_word_literal\<close> returns, for every input, either the validation error or the
  decimal spelling of the denoted number modulo \<open>2^256\<close>.\<close>

theorem canonical_word_literal_correct:
  "canonical_word_literal s =
     Some (case literal_error s of
             Some e \<Rightarrow> Inl e
           | None \<Rightarrow> Inr (show_nat (literal_value s mod 2 ^ 256)))"
  using parse_word_literal_error[of s] parse_word_literal_ok[of s]
  by (cases "literal_error s")
     (auto simp: canonical_word_literal_def to_decimal_string_value word_modulus_def)

text \<open>\<open>wrap_word_literal\<close> keeps the spelling of a literal that fits in a word and otherwise
  prints its residue modulo \<open>2^256\<close>.\<close>

theorem wrap_word_literal_correct:
  "wrap_word_literal s =
     Some (case literal_error s of
             Some e \<Rightarrow> Inl e
           | None \<Rightarrow> Inr (if literal_value s < 2 ^ 256 then s
                          else show_nat (literal_value s mod 2 ^ 256)))"
  by (simp only: wrap_word_literal_value word_modulus_def)

end
