(* ===== verification/Yul_Ast.thy ===== *)
theory Yul_Ast
  imports Word_Literal Hull_IR "HOL-Library.FSet"
begin

text \<open>
  The Yul syntax tree (\<open>crates/yul/src/ast.rs\<close>) and the data of the translator
  (\<open>crates/yul/src/translate/mod.rs\<close> and the enum \<open>Location\<close> of
  \<open>translate/location.rs\<close>). The name types are newtypes over \<open>String\<close> and are modelled by
  \<open>string\<close>. A \<open>TranslationError\<close> is its message; the model has one constructor per place that
  builds one, carrying the values the message prints, and \<open>Panicked\<close> for an index out of
  range or a failed \<open>expect\<close>.
\<close>

section \<open>Syntax trees\<close>

datatype yul_literal = YNumber string | YHex string | YString string | YBool bool

datatype yul_expr = YCall name "yul_expr list" | YIdent name | YLit yul_literal

datatype yul_stmt =
    YBlock "yul_stmt list"
  | YFunction name "name list" "name list" "yul_stmt list"
  | YLet "name list" "yul_expr option"
  | YAssign "name list" yul_expr
  | YIf yul_expr "yul_stmt list"
  | YSwitch yul_expr "yul_case list" "yul_stmt list option"
  | YFor "yul_stmt list" yul_expr "yul_stmt list" "yul_stmt list"
  | YBreak
  | YContinue
  | YLeave
  | YComment string
  | YExpr yul_expr
  and yul_case = YCase (case_lit: yul_literal) (case_body: "yul_stmt list")

record yul_code =
  code_stmts :: "yul_stmt list"

datatype data_value = DHex string | DString string

record yul_data =
  data_name :: name
  data_value :: data_value

datatype yul_object =
    YObject (yobj_name: name) (yobj_code: yul_code) (yobj_inners: "yul_inner list")
  and yul_inner = InnerObject yul_object | InnerData yul_data

record yul_program =
  yprog_objects :: "yul_object list"

definition single_object :: "yul_object \<Rightarrow> yul_program" where
  "single_object ob = \<lparr>yprog_objects = [ob]\<rparr>"

definition y_call :: "name \<Rightarrow> yul_expr list \<Rightarrow> yul_expr" where
  "y_call n args = YCall n args"

definition y_ident :: "name \<Rightarrow> yul_expr" where
  "y_ident n = YIdent n"

definition y_number :: "string \<Rightarrow> yul_expr" where
  "y_number v = YLit (YNumber v)"

definition y_string :: "string \<Rightarrow> yul_expr" where
  "y_string v = YLit (YString v)"

definition y_bool :: "bool \<Rightarrow> yul_expr" where
  "y_bool b = YLit (YBool b)"

lemmas y_defs = y_call_def y_ident_def y_number_def y_string_def y_bool_def

section \<open>Locations, errors, translator state\<close>

datatype location =
    LWord string
  | LBool bool
  | LStack nat
  | LNamed name
  | LSeq "location list"
  | LEmpty nat

datatype translation_error =
    InvalidYulString
  | InvalidDecimalLit string
  | HexLitPrefix string
  | InvalidHexLit string
  | BadWordLiteral word_literal_error
  | BadInjectionTarget nat
  | NotAssignable location
  | CannotLoad location
  | CopyArity nat nat
  | CopyMismatch location location
  | ExpectedProductLoc location
  | InPatternOnSum nat
  | DuplicateYulFunction string
  | MissingYulFunction string
  | VariableNotFound name
  | InlNotSum
  | InrNotSum
  | IdentityWithoutArgument
  | EmptyMatch
  | EntryCount nat
  | EntryWithoutBody name
  | EntryTakesArguments name
  | EntryNotOneWord name
  | ObjectNotFound name string
  | NoTopObject
  | ManyTopObjects nat string
  | ControlInLoopInit string
  | ControlInLoopPost string
  | ControlOutsideLoop string
  | InvalidIdentifier name
  | ReservedIdentifier name
  | InvalidFunctionName name
  | WrapperObjectCount nat
  | WrapperRuntimeCount name
  | WrapperEntryMissing name name
  | WrapperEntryShape name
  | WrapperNoRuntime
  | Panicked

type_synonym 'a tr_res = "translation_error + 'a"

record translator =
  tr_db :: hir_db
  counter :: nat
  name_counter :: nat
  used_yul_names :: "string fset"
  tr_vars :: "(name \<rightharpoonup> location) list"
  user_functions :: "name set"

definition new_translator :: "hir_db \<Rightarrow> translator" where
  "new_translator db =
     \<lparr>tr_db = db, counter = 0, name_counter = 0, used_yul_names = {||},
      tr_vars = [Map.empty], user_functions = {}\<rparr>"

end
