(* ===== verification/String_Literal.thy ===== *)
theory String_Literal
  imports Prelude
begin

text \<open>
  The source spelling of string literals (\<open>crates/hir/src/string_literal.rs\<close>): decoding with
  the lexer's four escapes, encoding, and the round trip the encoder's comment promises.
\<close>

section \<open>Definitions\<close>

text \<open>The loop of \<open>decode_string_literal\<close> over the characters between the quotes.\<close>

fun decode_chars :: "string \<Rightarrow> string option" where
  "decode_chars [] = Some []"
| "decode_chars (ch # chars) =
     (if ch = CHR 0x22 then None
      else if ch \<noteq> CHR 0x5C then map_option (\<lambda>out. ch # out) (decode_chars chars)
      else (case chars of
              [] \<Rightarrow> None
            | e # rest \<Rightarrow>
                if e = CHR 0x22 then map_option (\<lambda>out. CHR 0x22 # out) (decode_chars rest)
                else if e = CHR 0x5C then map_option (\<lambda>out. CHR 0x5C # out) (decode_chars rest)
                else if e = CHR ''n'' then map_option (\<lambda>out. CHR 0x0A # out) (decode_chars rest)
                else if e = CHR ''t'' then map_option (\<lambda>out. CHR 0x09 # out) (decode_chars rest)
                else None))"

definition decode_string_literal :: "string \<Rightarrow> string option" where
  "decode_string_literal text =
     (case strip_prefix [CHR 0x22] text of
        None \<Rightarrow> None
      | Some rest \<Rightarrow>
          (case strip_suffix [CHR 0x22] rest of
             None \<Rightarrow> None
           | Some inner \<Rightarrow> decode_chars inner))"

definition encode_char :: "char \<Rightarrow> string" where
  "encode_char ch =
     (if ch = CHR 0x22 then [CHR 0x5C, CHR 0x22]
      else if ch = CHR 0x5C then [CHR 0x5C, CHR 0x5C]
      else if ch = CHR 0x0A then [CHR 0x5C, CHR ''n'']
      else if ch = CHR 0x09 then [CHR 0x5C, CHR ''t'']
      else [ch])"

definition encode_string_literal :: "string \<Rightarrow> string" where
  "encode_string_literal value =
     [CHR 0x22] @ concat (map encode_char value) @ [CHR 0x22]"

section \<open>Round trip\<close>

lemma decode_chars_encode_char:
  "decode_chars (encode_char c @ rest) = map_option (\<lambda>out. c # out) (decode_chars rest)"
  by (simp add: encode_char_def)

lemma decode_chars_encode: "decode_chars (concat (map encode_char s)) = Some s"
  by (induction s) (simp_all add: decode_chars_encode_char)

lemma strip_quotes: "strip_suffix [q] (inner @ [q]) = Some inner"
  by (simp add: strip_suffix_iff)

text \<open>C33. Every string survives encoding and decoding: the round trip that the comment of
  \<open>encode_string_literal\<close> states, carriage returns and control characters included.\<close>

theorem decode_encode_string_literal: "decode_string_literal (encode_string_literal value) = Some value"
  by (simp add: decode_string_literal_def encode_string_literal_def strip_quotes
      decode_chars_encode)

lemma decode_encode_canonical:
  assumes "decode_string_literal t = Some v"
  shows "decode_string_literal (encode_string_literal v) = decode_string_literal t"
  using assms
  by (simp add: decode_string_literal_def encode_string_literal_def strip_quotes
      decode_chars_encode)

end
