(* ===== verification/Yul_Names.thy ===== *)
theory Yul_Names
  imports Yul_Ast String_Literal Hull_Builtins
begin

text \<open>
  Names and literals of the translator (\<open>crates/yul/src/translate/names.rs\<close>): identifier
  validity, the reserved words and builtins, fresh names, the lowering of callees, and the
  canonical spelling of literals. The loop of \<open>fresh_yul_name\<close> is shown to terminate because
  only finitely many names are used or reserved; the locale \<open>name_supply\<close> is what the
  translator relies on in each of the three fresh-name methods.
\<close>

section \<open>Identifiers\<close>

definition ident_char :: "char \<Rightarrow> bool" where
  "ident_char c \<longleftrightarrow> is_ascii_alphanumeric c \<or> c = CHR ''_'' \<or> c = CHR ''$''"

fun is_valid_yul_identifier :: "string \<Rightarrow> bool" where
  "is_valid_yul_identifier [] = False"
| "is_valid_yul_identifier (c # cs) =
     ((is_ascii_alphabetic c \<or> c = CHR ''_'' \<or> c = CHR ''$'') \<and> list_all ident_char cs)"

definition yul_builtin_names :: "name list" where
  "yul_builtin_names =
     [''stop'', ''add'', ''sub'', ''mul'', ''div'', ''sdiv'', ''mod'', ''smod'', ''exp'', ''not'',
      ''lt'', ''gt'', ''slt'', ''sgt'', ''eq'', ''iszero'', ''and'', ''or'', ''xor'', ''byte'',
      ''shl'', ''shr'', ''sar'', ''addmod'', ''mulmod'', ''signextend'', ''keccak256'', ''pop'',
      ''mload'', ''mstore'', ''mstore8'', ''sload'', ''sstore'', ''tload'', ''tstore'', ''msize'',
      ''gas'', ''address'', ''balance'', ''selfbalance'', ''caller'', ''callvalue'',
      ''calldataload'', ''calldatasize'', ''calldatacopy'', ''codesize'', ''codecopy'',
      ''extcodesize'', ''extcodecopy'', ''returndatasize'', ''returndatacopy'', ''extcodehash'',
      ''create'', ''create2'', ''call'', ''callcode'', ''delegatecall'', ''staticcall'',
      ''return'', ''revert'', ''selfdestruct'', ''invalid'', ''log0'', ''log1'', ''log2'', ''log3'',
      ''log4'', ''chainid'', ''origin'', ''gasprice'', ''blockhash'', ''coinbase'', ''timestamp'',
      ''number'', ''prevrandao'', ''gaslimit'', ''basefee'', ''blobhash'', ''blobbasefee'',
      ''memoryguard'', ''dataoffset'', ''datasize'', ''datacopy'', ''setimmutable'',
      ''loadimmutable'', ''linkersymbol'', ''mcopy'', ''clz'']"

definition is_yul_builtin :: "name \<Rightarrow> bool" where
  "is_yul_builtin n \<longleftrightarrow> n \<in> set yul_builtin_names"

definition yul_keywords :: "name list" where
  "yul_keywords =
     [''object'', ''code'', ''data'', ''function'', ''let'', ''if'', ''switch'', ''case'',
      ''default'', ''for'', ''break'', ''continue'', ''leave'', ''true'', ''false'', ''pc'',
      ''difficulty'']"

definition is_forbidden_yul_identifier :: "name \<Rightarrow> bool" where
  "is_forbidden_yul_identifier n \<longleftrightarrow> n \<in> set yul_keywords \<or> is_yul_builtin n"

definition yul_fun_name :: "name \<Rightarrow> name" where
  "yul_fun_name n = ''usr$'' @ n"

definition yul_var_name :: "name \<Rightarrow> name" where
  "yul_var_name n = n"

definition stack_name :: "nat \<Rightarrow> name" where
  "stack_name index = ''_v'' @ show_nat index"

section \<open>Fresh names\<close>

definition yul_ident_fragment :: "string \<Rightarrow> string" where
  "yul_ident_fragment source =
     (let out = map (\<lambda>ch. if ident_char ch then ch else CHR ''_'') source
      in if out = [] then ''anon'' else out)"

definition candidate_name :: "string \<Rightarrow> string \<Rightarrow> nat \<Rightarrow> name" where
  "candidate_name prefix source n = prefix @ ''$'' @ source @ ''_'' @ show_nat n"

lemma candidate_name_inj: "candidate_name p s m = candidate_name p s n \<longleftrightarrow> m = n"
  by (simp add: candidate_name_def show_nat_inj)

lemma finite_blocked:
  "finite {k. is_forbidden_yul_identifier (candidate_name p s k) \<or> candidate_name p s k |\<in>| used}"
    (is "finite ?K")
proof -
  let ?N = "set yul_keywords \<union> set yul_builtin_names \<union> fset used"
  have "?K \<subseteq> candidate_name p s -` ?N"
    by (auto simp: is_forbidden_yul_identifier_def is_yul_builtin_def)
  moreover have "finite (candidate_name p s -` ?N)"
    by (rule finite_vimageI) (auto simp: inj_on_def candidate_name_inj)
  ultimately show ?thesis by (rule finite_subset)
qed

text \<open>The loop: the name found, the next counter and the extended set of used names.\<close>

function fresh_loop :: "string \<Rightarrow> string \<Rightarrow> nat \<Rightarrow> string fset \<Rightarrow> name \<times> nat \<times> string fset" where
  "fresh_loop prefix source n used =
     (let n' = candidate_name prefix source n
      in if \<not> is_forbidden_yul_identifier n' \<and> n' |\<notin>| used
         then (n', n + 1, finsert n' used)
         else fresh_loop prefix source (n + 1) used)"
  by pat_completeness auto

termination
proof (relation "measure (\<lambda>(p, s, n, used). card {k. n \<le> k \<and>
    (is_forbidden_yul_identifier (candidate_name p s k) \<or> candidate_name p s k |\<in>| used)})")
  fix prefix source :: string and n used n'
  assume n': "n' = candidate_name prefix source n"
    and c: "\<not> (\<not> is_forbidden_yul_identifier n' \<and> n' |\<notin>| used)"
  let ?B = "\<lambda>m. {k. m \<le> k \<and> (is_forbidden_yul_identifier (candidate_name prefix source k)
      \<or> candidate_name prefix source k |\<in>| used)}"
  have "n \<in> ?B n" "n \<notin> ?B (n + 1)" "?B (n + 1) \<subseteq> ?B n" using n' c by auto
  then have "?B (n + 1) \<subset> ?B n" by blast
  moreover have "finite (?B n)" using finite_blocked by (rule finite_subset[rotated]) blast
  ultimately show "((prefix, source, n + 1, used), (prefix, source, n, used))
      \<in> measure (\<lambda>(p, s, n, used). card {k. n \<le> k \<and>
        (is_forbidden_yul_identifier (candidate_name p s k) \<or> candidate_name p s k |\<in>| used)})"
    by (simp add: psubset_card_mono)
qed simp

declare fresh_loop.simps [simp del]

definition fresh_yul_name :: "string \<Rightarrow> string \<Rightarrow> translator \<Rightarrow> name \<times> translator" where
  "fresh_yul_name prefix source tr =
     (let (n, k, used) = fresh_loop prefix (yul_ident_fragment source) (name_counter tr) (used_yul_names tr)
      in (n, tr\<lparr>name_counter := k, used_yul_names := used\<rparr>))"

definition fresh_source_name :: "string \<Rightarrow> translator \<Rightarrow> name \<times> translator" where
  "fresh_source_name source tr = fresh_yul_name ''src'' source tr"

definition fresh_asm_name :: "string \<Rightarrow> translator \<Rightarrow> name \<times> translator" where
  "fresh_asm_name source tr = fresh_yul_name ''asm'' source tr"

definition fresh_internal_name :: "string \<Rightarrow> translator \<Rightarrow> name \<times> translator" where
  "fresh_internal_name source tr = fresh_yul_name ''gen'' source tr"

section \<open>Callees\<close>

datatype lowered_callee = Call_callee name | Identity_callee

definition callee_arms :: "(name list \<times> name) list" where
  "callee_arms =
     [([''primAddWord'', ''integerAdd''], ''add''),
      ([''subWord'', ''integerSub''], ''sub''),
      ([''mulWord'', ''integerMul''], ''mul''),
      ([''primEqWord'', ''integerEq''], ''eq''),
      ([''gtWord''], ''gt''),
      ([''integerLt''], ''lt''),
      ([''bxorWord''], ''xor''),
      ([''bandWord''], ''and''),
      ([''borWord''], ''or''),
      ([''bnotWord''], ''not'')]"

definition lower_callee :: "name \<Rightarrow> name set \<Rightarrow> lowered_callee" where
  "lower_callee callee users =
     (if callee \<in> users then Call_callee (yul_fun_name callee)
      else if callee \<in> {''wordFromInteger'', ''wordToInteger''} then Identity_callee
      else case find (\<lambda>(names, _). callee \<in> set names) callee_arms of
             Some (_, n) \<Rightarrow> Call_callee n
           | None \<Rightarrow> Call_callee callee)"

section \<open>Literals\<close>

definition canonical_decimal_lit :: "string \<Rightarrow> string tr_res" where
  "canonical_decimal_lit s =
     (if s = [] \<or> \<not> list_all is_ascii_digit s then Inl (InvalidDecimalLit s)
      else let trimmed = trim_start_matches (CHR ''0'') s
           in Inr (if trimmed = [] then ''0'' else trimmed))"

definition canonical_hex_lit :: "string \<Rightarrow> string tr_res" where
  "canonical_hex_lit s =
     (case hex_digits s of
        None \<Rightarrow> Inl (HexLitPrefix s)
      | Some digits \<Rightarrow>
          if digits = [] \<or> \<not> list_all is_ascii_hexdigit digits then Inl (InvalidHexLit s)
          else Inr (''0x'' @ digits))"

definition canonical_numeric_lit :: "string \<Rightarrow> string tr_res" where
  "canonical_numeric_lit s =
     (if starts_with ''0x'' s \<or> starts_with ''0X'' s then canonical_hex_lit s
      else canonical_decimal_lit s)"

definition canonical_word_lit :: "string \<Rightarrow> string tr_res" where
  "canonical_word_lit s =
     (case wrap_word_literal s of
        None \<Rightarrow> Inl Panicked
      | Some (Inl err) \<Rightarrow> Inl (BadWordLiteral err)
      | Some (Inr wrapped) \<Rightarrow> canonical_numeric_lit wrapped)"

fun convert_yul_lit :: "hir_yul_lit \<Rightarrow> yul_literal tr_res" where
  "convert_yul_lit (HLNumber v) = res_bind (canonical_numeric_lit v) (\<lambda>v. Inr (YNumber v))"
| "convert_yul_lit (HLHex v) = res_bind (canonical_hex_lit v) (\<lambda>v. Inr (YHex v))"
| "convert_yul_lit (HLString v) =
     (case decode_string_literal v of Some s \<Rightarrow> Inr (YString s) | None \<Rightarrow> Inl InvalidYulString)"
| "convert_yul_lit (HLBool b) = Inr (YBool b)"
| "convert_yul_lit HLError = Inr (YNumber ''0'')"

definition tr_yul_name :: "hir_db \<Rightarrow> ident_at \<Rightarrow> string" where
  "tr_yul_name db n = db (atom n)"

section \<open>The supply of fresh names\<close>

text \<open>
  What a caller of a fresh-name method relies on: the name is a legal identifier, is not
  reserved, was not handed out before and is remembered from now on.
\<close>

definition legal_name :: "name \<Rightarrow> bool" where
  "legal_name n \<longleftrightarrow> is_valid_yul_identifier n \<and> \<not> is_forbidden_yul_identifier n"

locale name_supply =
  fixes fresh :: "string \<Rightarrow> 's \<Rightarrow> name \<times> 's"
    and used :: "'s \<Rightarrow> name fset"
  assumes fresh_legal: "fresh s st = (n, st') \<Longrightarrow> legal_name n"
    and fresh_unused: "fresh s st = (n, st') \<Longrightarrow> n |\<notin>| used st"
    and fresh_recorded: "fresh s st = (n, st') \<Longrightarrow> used st' = finsert n (used st)"
begin

fun fresh_list :: "string list \<Rightarrow> 's \<Rightarrow> name list \<times> 's" where
  "fresh_list [] st = ([], st)"
| "fresh_list (s # ss) st =
     (let (n, st) = fresh s st; (ns, st) = fresh_list ss st in (n # ns, st))"

lemma fresh_list_props:
  "fresh_list ss st = (ns, st') \<Longrightarrow>
     length ns = length ss \<and> distinct ns \<and> list_all legal_name ns
     \<and> set ns \<inter> fset (used st) = {} \<and> fset (used st') = fset (used st) \<union> set ns"
proof (induction ss arbitrary: st st' ns)
  case Nil
  then show ?case by simp
next
  case (Cons s ss)
  obtain n st1 ns1 st2 where f: "fresh s st = (n, st1)" "fresh_list ss st1 = (ns1, st2)"
    by (metis surj_pair)
  with Cons.prems have "ns = n # ns1" "st' = st2" by simp_all
  with Cons.IH[OF f(2)] fresh_legal[OF f(1)] fresh_unused[OF f(1)] fresh_recorded[OF f(1)]
  show ?case by auto
qed

end

lemma ident_char_digit: "is_ascii_digit c \<Longrightarrow> ident_char c"
  by (simp add: ident_char_def is_ascii_alphanumeric_def)

lemma ident_char_consts: "ident_char (CHR ''_'')" "ident_char (CHR ''$'')"
  by (simp_all add: ident_char_def)

lemma yul_ident_fragment_chars: "list_all ident_char (yul_ident_fragment s)"
proof -
  have "list_all ident_char ''anon''" by code_simp
  then show ?thesis by (auto simp: yul_ident_fragment_def Let_def list_all_iff ident_char_consts)
qed

lemma forbidden_no_dollar: "is_forbidden_yul_identifier n \<Longrightarrow> CHR ''$'' \<notin> set n"
proof -
  have "list_all (\<lambda>n. \<not> List.member n (CHR ''$'')) (yul_keywords @ yul_builtin_names)" by code_simp
  moreover assume "is_forbidden_yul_identifier n"
  ultimately show ?thesis
    by (auto simp: is_forbidden_yul_identifier_def is_yul_builtin_def list_all_iff)
qed

lemma candidate_not_forbidden: "\<not> is_forbidden_yul_identifier (candidate_name p s k)"
  using forbidden_no_dollar by (force simp: candidate_name_def)

lemma candidate_valid:
  assumes "is_valid_yul_identifier p" and "list_all ident_char s"
  shows "is_valid_yul_identifier (candidate_name p s k)"
  using assms
  by (cases p) (auto simp: candidate_name_def ident_char_consts list_all_iff
      intro: ident_char_digit show_nat_digits)

text \<open>The counter can be read off a candidate, whatever its prefix and source.\<close>

lemma candidate_name_counter: "candidate_name p s m = candidate_name q t n \<Longrightarrow> m = n"
proof -
  have suffix: "takeWhile is_ascii_digit (rev (candidate_name p s k)) = rev (show_nat k)" for p s k
    using show_nat_digits by (simp add: candidate_name_def takeWhile_append is_ascii_digit_def ch_code_def)
  assume "candidate_name p s m = candidate_name q t n"
  then have "rev (show_nat m) = rev (show_nat n)" by (metis suffix)
  then show "m = n" by (simp add: show_nat_inj)
qed

lemma fresh_loop_props:
  "fresh_loop p s n used = (x, n', used') \<Longrightarrow>
     x |\<notin>| used \<and> used' = finsert x used \<and> n < n' \<and> x = candidate_name p s (n' - 1)"
proof (induction p s n used rule: fresh_loop.induct)
  case (1 p s n used)
  then show ?case
    by (subst (asm) (2) fresh_loop.simps) (fastforce simp: Let_def split: if_splits)
qed

lemma fresh_yul_name_props:
  assumes "fresh_yul_name p s tr = (x, tr')"
  obtains k where "x = candidate_name p (yul_ident_fragment s) k"
    and "x |\<notin>| used_yul_names tr" and "name_counter tr \<le> k"
    and "tr' = tr\<lparr>name_counter := k + 1, used_yul_names := finsert x (used_yul_names tr)\<rparr>"
proof -
  obtain y n u where l: "fresh_loop p (yul_ident_fragment s) (name_counter tr) (used_yul_names tr) = (y, n, u)"
    by (metis surj_pair)
  from fresh_loop_props[OF this] assms l show ?thesis
    by (intro that[of "n - 1"]) (auto simp: fresh_yul_name_def Let_def)
qed

lemma prefixes_valid:
  "is_valid_yul_identifier ''src''" "is_valid_yul_identifier ''asm''" "is_valid_yul_identifier ''gen''"
  by code_simp+

lemma fresh_yul_name_supply:
  assumes "is_valid_yul_identifier p"
  shows "name_supply (fresh_yul_name p) used_yul_names"
proof
  fix s st n and st' :: translator
  assume "fresh_yul_name p s st = (n, st')"
  then obtain k where "n = candidate_name p (yul_ident_fragment s) k" "n |\<notin>| used_yul_names st"
    "used_yul_names st' = finsert n (used_yul_names st)"
    by (rule fresh_yul_name_props) simp
  with assms show "legal_name n" "n |\<notin>| used_yul_names st"
    "used_yul_names st' = finsert n (used_yul_names st)"
    by (simp_all add: legal_name_def candidate_valid candidate_not_forbidden yul_ident_fragment_chars)
qed

interpretation source_names: name_supply fresh_source_name used_yul_names
  using fresh_yul_name_supply[OF prefixes_valid(1)] by (simp add: fresh_source_name_def[abs_def])

interpretation asm_names: name_supply fresh_asm_name used_yul_names
  using fresh_yul_name_supply[OF prefixes_valid(2)] by (simp add: fresh_asm_name_def[abs_def])

interpretation internal_names: name_supply fresh_internal_name used_yul_names
  using fresh_yul_name_supply[OF prefixes_valid(3)] by (simp add: fresh_internal_name_def[abs_def])

text \<open>As every candidate ends in its counter, a name handed out earlier can only come back if
  the counter does, so under the translator's invariant the first candidate is taken.\<close>

definition names_below :: "translator \<Rightarrow> bool" where
  "names_below tr \<longleftrightarrow>
     (\<forall>u. u |\<in>| used_yul_names tr \<longrightarrow> (\<exists>p s k. u = candidate_name p s k \<and> k < name_counter tr))"

lemma fresh_yul_name_first:
  assumes "names_below tr"
  shows "fresh_yul_name p s tr =
      (candidate_name p (yul_ident_fragment s) (name_counter tr),
       tr\<lparr>name_counter := name_counter tr + 1,
          used_yul_names := finsert (candidate_name p (yul_ident_fragment s) (name_counter tr))
            (used_yul_names tr)\<rparr>)"
proof -
  let ?x = "candidate_name p (yul_ident_fragment s) (name_counter tr)"
  have "?x |\<notin>| used_yul_names tr"
    using assms by (auto simp: names_below_def dest: candidate_name_counter)
  then have "fresh_loop p (yul_ident_fragment s) (name_counter tr) (used_yul_names tr)
      = (?x, name_counter tr + 1, finsert ?x (used_yul_names tr))"
    by (subst fresh_loop.simps) (simp add: candidate_not_forbidden Let_def)
  then show ?thesis by (simp add: fresh_yul_name_def)
qed

lemma fresh_yul_name_below:
  assumes "names_below tr"
  shows "names_below (snd (fresh_yul_name p s tr))"
  using assms by (fastforce simp: fresh_yul_name_first names_below_def intro: less_SucI)

lemma candidate_heads:
  assumes "p \<in> {''src'', ''asm'', ''gen''}"
  shows "candidate_name p s k \<noteq> stack_name i" and "candidate_name p s k \<noteq> yul_fun_name f"
  using assms by (auto simp: candidate_name_def stack_name_def yul_fun_name_def)

text \<open>C34. A fresh name is a legal Yul identifier that was not used before, is recorded as used,
  and is neither a stack slot, nor the name of a user function, nor a builtin, whatever text it
  was derived from.\<close>

theorem fresh_names_never_collide:
  assumes "p \<in> {''src'', ''asm'', ''gen''}" and "fresh_yul_name p source tr = (x, tr')"
  shows "is_valid_yul_identifier x \<and> \<not> is_forbidden_yul_identifier x
    \<and> x |\<notin>| used_yul_names tr \<and> used_yul_names tr' = finsert x (used_yul_names tr)
    \<and> x \<notin> range stack_name \<and> x \<notin> range yul_fun_name \<and> \<not> is_yul_builtin x"
proof -
  have p: "is_valid_yul_identifier p" using assms(1) prefixes_valid by blast
  note sup = fresh_yul_name_supply[OF p]
  have "legal_name x" using assms(2) by (rule name_supply.fresh_legal[OF sup])
  moreover have "x |\<notin>| used_yul_names tr" using assms(2) by (rule name_supply.fresh_unused[OF sup])
  moreover have "used_yul_names tr' = finsert x (used_yul_names tr)"
    using assms(2) by (rule name_supply.fresh_recorded[OF sup])
  moreover have "x \<notin> range stack_name" "x \<notin> range yul_fun_name"
    using assms by (auto elim!: fresh_yul_name_props simp: candidate_heads)
  ultimately show ?thesis
    by (simp add: legal_name_def is_forbidden_yul_identifier_def)
qed

theorem fresh_names_never_collide_witness: "\<not> is_yul_builtin ''asm$add_0''"
proof -
  let ?tr = "new_translator (\<lambda>_. [])"
  have "names_below ?tr" by (simp add: names_below_def new_translator_def)
  moreover have "candidate_name ''asm'' (yul_ident_fragment ''add'') 0 = ''asm$add_0''" by code_simp
  ultimately have "fresh_yul_name ''asm'' ''add'' ?tr
      = (''asm$add_0'', ?tr\<lparr>name_counter := 1, used_yul_names := {|''asm$add_0''|}\<rparr>)"
    by (simp add: fresh_yul_name_first) (simp add: new_translator_def)
  from fresh_names_never_collide[OF _ this] show ?thesis by simp
qed

text \<open>C35. The retry loop of \<open>fresh_yul_name\<close> never retries: from the initial translator on,
  all used names carry smaller counters, so the first candidate is free and the invariant is
  kept.\<close>

theorem fresh_yul_name_first_try:
  assumes "names_below tr"
  shows "fst (fresh_yul_name p source tr) = candidate_name p (yul_ident_fragment source) (name_counter tr)
    \<and> name_counter (snd (fresh_yul_name p source tr)) = name_counter tr + 1
    \<and> names_below (snd (fresh_yul_name p source tr))"
  using fresh_yul_name_below[OF assms] by (simp add: fresh_yul_name_first[OF assms])

theorem fresh_yul_name_first_try_witness:
  "fst (fresh_yul_name ''gen'' ''result'' (new_translator (\<lambda>_. []))) = ''gen$result_0''"
proof -
  have "names_below (new_translator (\<lambda>_. []))" by (simp add: names_below_def new_translator_def)
  from fresh_yul_name_first_try[OF this, of "''gen''" "''result''"]
  have "fst (fresh_yul_name ''gen'' ''result'' (new_translator (\<lambda>_. [])))
      = candidate_name ''gen'' (yul_ident_fragment ''result'') 0" by (simp add: new_translator_def)
  also have "\<dots> = ''gen$result_0''" by code_simp
  finally show ?thesis .
qed

section \<open>Canonical literals\<close>

lemma digits_value_trim: "digits_value 10 (trim_start_matches (CHR ''0'') s) = digits_value 10 s"
proof -
  have "digit_val 10 (CHR ''0'') = 0" by code_simp
  then have "foldl (\<lambda>v c. v * 10 + digit_val 10 c) 0 (dropWhile (\<lambda>x. x = CHR ''0'') s)
      = foldl (\<lambda>v c. v * 10 + digit_val 10 c) 0 s"
    by (induction s) auto
  then show ?thesis by (simp add: digits_value_def trim_start_matches_def)
qed

lemma digit_not_x: "is_ascii_digit c \<Longrightarrow> c \<noteq> CHR ''x'' \<and> c \<noteq> CHR ''X''"
  by (auto simp: is_ascii_digit_def ch_code_def)

lemma hex_digits_decimal: "list_all is_ascii_digit s \<Longrightarrow> hex_digits s = None"
  using digit_not_x by (cases s; cases "tl s") (auto simp: hex_digits_def)

lemma starts_with_hex: "starts_with ''0x'' s \<or> starts_with ''0X'' s \<longleftrightarrow> hex_digits s \<noteq> None"
  by (simp add: starts_with_def hex_digits_def split: option.split)

lemma canonical_numeric_lit_value:
  "canonical_numeric_lit s =
     (case literal_error s of
        Some (InvalidHexWordLiteral e) \<Rightarrow> Inl (InvalidHexLit e)
      | Some (InvalidDecimalWordLiteral e) \<Rightarrow> Inl (InvalidDecimalLit e)
      | None \<Rightarrow> canonical_numeric_lit s)"
  by (auto simp: canonical_numeric_lit_def starts_with_hex literal_error_def canonical_hex_lit_def
      canonical_decimal_lit_def split: option.splits)

lemma canonical_numeric_lit_ok:
  assumes "literal_error s = None"
  shows "\<exists>r. canonical_numeric_lit s = Inr r \<and> literal_error r = None
    \<and> literal_value r = literal_value s \<and> canonical_numeric_lit r = Inr r"
proof (cases "hex_digits s")
  case (Some d)
  have "hex_digits (''0x'' @ d) = Some d" by (simp add: hex_digits_def)
  with assms Some show ?thesis
    by (auto simp: canonical_numeric_lit_def starts_with_hex literal_error_def canonical_hex_lit_def
        literal_value_def split: if_splits)
next
  case None
  with assms have s: "s \<noteq> []" "list_all is_ascii_digit s"
    by (simp_all add: literal_error_def split: if_splits)
  let ?t = "trim_start_matches (CHR ''0'') s"
  let ?r = "if ?t = [] then ''0'' else ?t"
  have z: "is_ascii_digit (CHR ''0'')" "digits_value 10 ''0'' = 0"
    "trim_start_matches (CHR ''0'') ''0'' = []" by code_simp+
  have t: "list_all is_ascii_digit ?t" "trim_start_matches (CHR ''0'') ?t = ?t"
    using s(2) by (auto simp: trim_start_matches_def list_all_iff dest: set_dropWhileD)
  have r: "?r \<noteq> []" "list_all is_ascii_digit ?r" "digits_value 10 ?r = digits_value 10 s"
    using t z digits_value_trim[of s] by auto
  have c: "canonical_numeric_lit x = Inr (if trim_start_matches (CHR ''0'') x = [] then ''0''
      else trim_start_matches (CHR ''0'') x)" if "x \<noteq> []" "list_all is_ascii_digit x" for x
    using that by (simp add: canonical_numeric_lit_def starts_with_hex hex_digits_decimal
        canonical_decimal_lit_def Let_def)
  show ?thesis
  proof (intro exI conjI)
    show "canonical_numeric_lit s = Inr ?r" using c[OF s] by simp
    show "canonical_numeric_lit ?r = Inr ?r" using c[OF r(1,2)] t(2) z(3) by auto
    show "literal_error ?r = None" "literal_value ?r = literal_value s"
      using r None hex_digits_decimal[OF r(2)] by (simp_all only: literal_error_def literal_value_def) simp_all
  qed
qed

lemma show_nat_literal: "literal_error (show_nat n) = None" "literal_value (show_nat n) = n"
proof -
  have "list_all is_ascii_digit (show_nat n)" using show_nat_digits by (simp add: list_all_iff)
  then show "literal_error (show_nat n) = None" "literal_value (show_nat n) = n"
    by (simp_all add: literal_error_def literal_value_def hex_digits_decimal show_nat_nonempty
        digits_value_show_nat)
qed

lemma canonical_word_lit_ok:
  assumes "literal_error s = None"
  shows "\<exists>r. canonical_word_lit s = Inr r \<and> literal_error r = None
    \<and> literal_value r = literal_value s mod word_modulus \<and> canonical_numeric_lit r = Inr r"
proof (cases "literal_value s < word_modulus")
  case True
  with assms canonical_numeric_lit_ok[OF assms] show ?thesis
    by (simp add: canonical_word_lit_def wrap_word_literal_value)
next
  case False
  with assms canonical_numeric_lit_ok[OF show_nat_literal(1)] show ?thesis
    by (simp add: canonical_word_lit_def wrap_word_literal_value show_nat_literal)
qed

lemma canonical_word_lit_error:
  "literal_error s = Some e \<Longrightarrow> canonical_word_lit s = Inl (BadWordLiteral e)"
  by (simp add: canonical_word_lit_def wrap_word_literal_value)

text \<open>C25. A word literal is lowered to a Yul number that denotes its value modulo \<open>2^256\<close> and is
  already in canonical form; the only error is the validation error of its spelling, and the
  conversion never panics.\<close>

theorem canonical_word_lit_correct:
  "case canonical_word_lit s of
     Inl e \<Rightarrow> \<exists>err. literal_error s = Some err \<and> e = BadWordLiteral err
   | Inr r \<Rightarrow> literal_error s = None \<and> literal_value r = literal_value s mod 2 ^ 256
       \<and> canonical_numeric_lit r = Inr r"
  using canonical_word_lit_ok[of s, unfolded word_modulus_def] canonical_word_lit_error[of s]
  by (cases "literal_error s") auto

end
