(* ===== verification/Yul_Location.thy ===== *)
theory Yul_Location
  imports Yul_Names
begin

text \<open>
  Locations: where the translator keeps a value (\<open>crates/yul/src/translate/location.rs\<close>). The
  definitions follow the file. \<open>conforms\<close> relates a location to the shape of the type of the
  value it holds; the lemmas show that the operations keep that relation and that, on conforming
  locations, none of their error branches is taken.
\<close>

section \<open>Definitions\<close>

definition tr_is_word_type :: "ty \<Rightarrow> bool" where
  "tr_is_word_type t \<longleftrightarrow> ty_kind (strip_named t) = TyWord"

function size_of_ty :: "ty \<Rightarrow> nat tr_res" where
  "size_of_ty t =
     (case ty_kind (strip_named t) of
        TyWord \<Rightarrow> Inr 1
      | TyBool \<Rightarrow> Inr 1
      | TyNamedRef n \<Rightarrow> Inr 1
      | TyFunction ps r \<Rightarrow> Inr 1
      | TyUnit \<Rightarrow> Inr 0
      | TyProduct lhs rhs \<Rightarrow>
          res_bind (size_of_ty lhs) (\<lambda>a. res_bind (size_of_ty rhs) (\<lambda>b. Inr (a + b)))
      | TySum lhs rhs \<Rightarrow>
          res_bind (size_of_ty lhs) (\<lambda>a. res_bind (size_of_ty rhs) (\<lambda>b. Inr (1 + max a b)))
      | TyNamed n inner \<Rightarrow> size_of_ty inner)"
  by pat_completeness auto
termination
  by (relation "measure size") (auto dest: strip_parts_smaller)

declare size_of_ty.simps [simp del]

definition zero_sized_type :: "ty \<Rightarrow> bool" where
  "zero_sized_type t \<longleftrightarrow> (case size_of_ty t of Inr n \<Rightarrow> n = 0 | Inl _ \<Rightarrow> False)"

fun size_of_loc :: "location \<Rightarrow> nat" where
  "size_of_loc (LEmpty n) = n"
| "size_of_loc (LSeq locs) = sum_list (map size_of_loc locs)"
| "size_of_loc _ = 1"

definition pad_to_size :: "location \<Rightarrow> nat \<Rightarrow> location" where
  "pad_to_size loc n =
     (let padding = n - size_of_loc loc
      in if padding = 0 then loc else LSeq [loc, LEmpty padding])"

text \<open>\<open>size_of_ty(lhs)?.max(size_of_ty(rhs)?)\<close>\<close>

definition max_size :: "ty \<Rightarrow> ty \<Rightarrow> nat tr_res" where
  "max_size lhs rhs =
     res_bind (size_of_ty lhs) (\<lambda>a. res_bind (size_of_ty rhs) (\<lambda>b. Inr (max a b)))"

function lower_in_k_loc :: "ty \<Rightarrow> nat \<Rightarrow> location \<Rightarrow> location tr_res" where
  "lower_in_k_loc target index payload =
     (case ty_kind (strip_named target) of
        TyNamed n inner \<Rightarrow> lower_in_k_loc inner index payload
      | TySum lhs rhs \<Rightarrow>
          if index = 0
          then res_bind (max_size lhs rhs)
                 (\<lambda>n. Inr (LSeq [LBool False, pad_to_size payload n]))
          else res_bind (lower_in_k_loc rhs (index - 1) payload) (\<lambda>nested.
               res_bind (max_size lhs rhs)
                 (\<lambda>n. Inr (LSeq [LBool True, pad_to_size nested n])))
      | _ \<Rightarrow> if index = 0 then Inr payload else Inl (BadInjectionTarget index))"
  by pat_completeness auto
termination
  by (relation "measure (\<lambda>(t, _). size t)") (auto dest: strip_parts_smaller)

declare lower_in_k_loc.simps [simp del]

fun stack_slots :: "location \<Rightarrow> nat list" where
  "stack_slots (LStack index) = [index]"
| "stack_slots (LSeq locs) = concat (map stack_slots locs)"
| "stack_slots _ = []"

definition alloc_loc :: "location \<Rightarrow> yul_stmt list" where
  "alloc_loc loc = map (\<lambda>index. YLet [stack_name index] None) (stack_slots loc)"

fun flatten_rhs :: "location \<Rightarrow> yul_expr list" where
  "flatten_rhs (LWord v) = [y_number v]"
| "flatten_rhs (LBool b) = [y_bool b]"
| "flatten_rhs (LStack index) = [y_ident (stack_name index)]"
| "flatten_rhs (LNamed n) = [y_ident (yul_var_name n)]"
| "flatten_rhs (LSeq locs) = concat (map flatten_rhs locs)"
| "flatten_rhs (LEmpty n) = replicate n (y_number ''911'')"

fun flatten_lhs :: "location \<Rightarrow> name list tr_res" where
  "flatten_lhs (LStack index) = Inr [stack_name index]"
| "flatten_lhs (LNamed n) = Inr [yul_var_name n]"
| "flatten_lhs (LSeq locs) = res_bind (res_all flatten_lhs locs) (\<lambda>chunks. Inr (concat chunks))"
| "flatten_lhs other = Inl (NotAssignable other)"

fun load_loc :: "location \<Rightarrow> yul_expr tr_res" where
  "load_loc (LWord v) = Inr (y_number v)"
| "load_loc (LBool b) = Inr (y_bool b)"
| "load_loc (LStack index) = Inr (y_ident (stack_name index))"
| "load_loc (LNamed n) = Inr (y_ident (yul_var_name n))"
| "load_loc (LEmpty _) = Inr (y_number ''911'')"
| "load_loc (LSeq locs) = Inl (CannotLoad (LSeq locs))"

fun flatten_locs :: "location \<Rightarrow> location list" where
  "flatten_locs (LEmpty n) = replicate n (LEmpty 1)"
| "flatten_locs (LSeq locs) = concat (map flatten_locs locs)"
| "flatten_locs loc = [loc]"

fun is_seq :: "location \<Rightarrow> bool" where
  "is_seq (LSeq _) = True"
| "is_seq _ = False"

lemma flatten_locs_flat: "x \<in> set (flatten_locs loc) \<Longrightarrow> \<not> is_seq x"
  by (induction loc rule: flatten_locs.induct) auto

function copy_locs :: "location \<Rightarrow> location \<Rightarrow> yul_stmt list tr_res" where
  "copy_locs lhs rhs =
     (if is_seq lhs \<or> is_seq rhs
      then let lhs = flatten_locs lhs; rhs = flatten_locs rhs
           in if length lhs \<noteq> length rhs then Inl (CopyArity (length lhs) (length rhs))
              else res_bind (res_all (\<lambda>(l, r). copy_locs l r) (zip lhs rhs))
                     (\<lambda>chunks. Inr (concat chunks))
      else case (lhs, rhs) of
             (LStack _, LEmpty _) \<Rightarrow> Inr []
           | (LNamed _, LEmpty _) \<Rightarrow> Inr []
           | (LStack index, rhs) \<Rightarrow> res_bind (load_loc rhs) (\<lambda>e. Inr [YAssign [stack_name index] e])
           | (LNamed n, rhs) \<Rightarrow> res_bind (load_loc rhs) (\<lambda>e. Inr [YAssign [yul_var_name n] e])
           | _ \<Rightarrow> Inl (CopyMismatch lhs rhs))"
  by pat_completeness auto
termination
  by (relation "measure (\<lambda>(l, r). if is_seq l \<or> is_seq r then 1 else 0)")
     (auto dest: flatten_locs_flat elim!: in_set_zipE)

declare copy_locs.simps [simp del]

fun normalize_loc :: "location \<Rightarrow> location" where
  "normalize_loc (LSeq locs) =
     (case flatten_locs (LSeq locs) of [one] \<Rightarrow> one | flattened \<Rightarrow> LSeq flattened)"
| "normalize_loc loc = loc"

fun pair_locs :: "location \<Rightarrow> (location \<times> location) tr_res" where
  "pair_locs (LSeq [lhs, rhs]) = Inr (lhs, rhs)"
| "pair_locs loc = Inl (ExpectedProductLoc loc)"

text \<open>The local function \<open>go\<close> of \<open>reshape_loc\<close>; the slice \<open>slots[lhs_used..]\<close> panics when fewer
  slots are left.\<close>

function reshape_go :: "ty \<Rightarrow> location list \<Rightarrow> (location \<times> nat) tr_res" where
  "reshape_go t slots =
     (case ty_kind (strip_named t) of
        TyNamed n inner \<Rightarrow> reshape_go inner slots
      | TyUnit \<Rightarrow> Inr (LSeq [], 0)
      | TyProduct lhs rhs \<Rightarrow>
          res_bind (reshape_go lhs slots) (\<lambda>(lhs_loc, lhs_used).
          if lhs_used > length slots then Inl Panicked else
          res_bind (reshape_go rhs (drop lhs_used slots)) (\<lambda>(rhs_loc, rhs_used).
          Inr (LSeq [lhs_loc, rhs_loc], lhs_used + rhs_used)))
      | _ \<Rightarrow>
          res_bind (size_of_ty t) (\<lambda>n.
          Inr (case take n slots of [one] \<Rightarrow> one | here \<Rightarrow> LSeq here, n)))"
  by pat_completeness auto
termination
  by (relation "measure (\<lambda>(t, _). size t)") (auto dest: strip_parts_smaller)

declare reshape_go.simps [simp del]

definition reshape_loc :: "ty \<Rightarrow> location \<Rightarrow> location tr_res" where
  "reshape_loc t loc = res_bind (reshape_go t (flatten_locs loc)) (\<lambda>(loc, _). Inr loc)"

fun loc_nth_sum_payload_loop :: "ty \<Rightarrow> nat \<Rightarrow> ty option" where
  "loc_nth_sum_payload_loop current remaining =
     (case ty_kind (strip_named current) of
        TySum lhs rhs \<Rightarrow>
          if remaining = 0 then Some lhs
          else loc_nth_sum_payload_loop (strip_named rhs) (remaining - 1)
      | _ \<Rightarrow> if remaining = 0 then Some current else None)"

declare loc_nth_sum_payload_loop.simps [simp del]

definition loc_nth_sum_payload :: "ty \<Rightarrow> nat \<Rightarrow> ty option" where
  "loc_nth_sum_payload target index = loc_nth_sum_payload_loop (strip_named target) index"

function con_payload :: "ty \<Rightarrow> con \<Rightarrow> location \<Rightarrow> location tr_res" where
  "con_payload target c payload =
     (case (ty_kind (strip_named target), c) of
        (TyNamed n inner, c) \<Rightarrow> con_payload inner c payload
      | (TySum lhs rhs, Inl_con) \<Rightarrow> reshape_loc lhs payload
      | (TySum lhs rhs, Inr_con) \<Rightarrow> reshape_loc rhs payload
      | (_, InK_con index) \<Rightarrow>
          (case loc_nth_sum_payload target index of
             None \<Rightarrow> Inr payload
           | Some t \<Rightarrow> reshape_loc t payload)
      | _ \<Rightarrow> Inr payload)"
  by pat_completeness auto
termination
  by (relation "measure (\<lambda>(t, _). size t)") (auto dest: strip_parts_smaller strip_parts_smaller[OF sym])

declare con_payload.simps [simp del]

fun con_lit :: "ty \<Rightarrow> con \<Rightarrow> yul_literal tr_res" where
  "con_lit target Inl_con = Inr (YBool False)"
| "con_lit target Inr_con = Inr (YBool True)"
| "con_lit target (InK_con index) =
     (case ty_kind (strip_named target) of
        TySum _ _ \<Rightarrow> Inl (InPatternOnSum index)
      | _ \<Rightarrow> Inr (YNumber (show_nat index)))"

fun is_alloc :: "yul_stmt \<Rightarrow> bool" where
  "is_alloc (YLet _ None) = True"
| "is_alloc _ = False"

definition partition_allocs :: "yul_stmt list \<Rightarrow> yul_stmt list \<times> yul_stmt list" where
  "partition_allocs stmts = partition is_alloc stmts"

section \<open>Sizes\<close>

lemma size_of_ty_simps [simp]:
  "size_of_ty (Ty sp TyWord) = Inr 1"
  "size_of_ty (Ty sp TyBool) = Inr 1"
  "size_of_ty (Ty sp TyUnit) = Inr 0"
  "size_of_ty (Ty sp (TyNamedRef n)) = Inr 1"
  "size_of_ty (Ty sp (TyFunction ps r)) = Inr 1"
  "size_of_ty (Ty sp (TyNamed n t)) = size_of_ty t"
  "size_of_ty (Ty sp (TyProduct l r)) =
     res_bind (size_of_ty l) (\<lambda>a. res_bind (size_of_ty r) (\<lambda>b. Inr (a + b)))"
  "size_of_ty (Ty sp (TySum l r)) =
     res_bind (size_of_ty l) (\<lambda>a. res_bind (size_of_ty r) (\<lambda>b. Inr (1 + max a b)))"
proof -
  show "size_of_ty (Ty sp (TyNamed n t)) = size_of_ty t"
    by (subst (1 2) size_of_ty.simps) simp
qed (subst size_of_ty.simps, simp)+

lemma size_of_ty_ok: "\<exists>n. size_of_ty t = Inr n"
  by (induction t rule: erase.induct) auto

interpretation translator_slots: slot_measure "\<lambda>t. projr (size_of_ty t)"
proof
  fix sp l r
  obtain a b where ab: "size_of_ty l = Inr a" "size_of_ty r = Inr b" using size_of_ty_ok by blast
  then show "projr (size_of_ty (Ty sp (TyProduct l r))) = projr (size_of_ty l) + projr (size_of_ty r)"
    "projr (size_of_ty (Ty sp (TySum l r))) = 1 + max (projr (size_of_ty l)) (projr (size_of_ty r))"
    by simp_all
qed simp_all

lemma size_of_ty_shape: "size_of_ty t = Inr (shape_slots (erase t))"
  using size_of_ty_ok[of t] translator_slots.slots_shape[of t] by auto

text \<open>C37. The translator's \<open>size_of_ty\<close> never fails and counts exactly the words that the
  checker's \<open>return_count\<close> counts.\<close>

theorem size_of_ty_is_return_count: "size_of_ty t = Inr (return_count t)"
  by (simp add: size_of_ty_shape checker_slots.slots_shape)

lemma max_size_shape:
  "max_size l r = Inr (max (shape_slots (erase l)) (shape_slots (erase r)))"
  by (simp add: max_size_def size_of_ty_shape)

lemma zero_sized_type_shape: "zero_sized_type t \<longleftrightarrow> shape_slots (erase t) = 0"
  by (simp add: zero_sized_type_def size_of_ty_shape)

lemma flatten_locs_length: "length (flatten_locs loc) = size_of_loc loc"
  by (induction loc rule: flatten_locs.induct) (simp_all add: length_concat comp_def cong: map_cong)

lemma flatten_rhs_length: "length (flatten_rhs loc) = size_of_loc loc"
  by (induction loc rule: flatten_rhs.induct) (simp_all add: length_concat comp_def cong: map_cong)

lemma pad_to_size_size: "size_of_loc (pad_to_size loc n) = max (size_of_loc loc) n"
  by (simp add: pad_to_size_def Let_def)

section \<open>Assignable locations\<close>

text \<open>A place consists of stack slots and named variables only; \<open>copy_locs\<close> and
  \<open>flatten_lhs\<close> need one on the left.\<close>

fun is_place :: "location \<Rightarrow> bool" where
  "is_place (LStack _) = True"
| "is_place (LNamed _) = True"
| "is_place (LSeq locs) = list_all is_place locs"
| "is_place _ = False"

lemma flatten_lhs_place: "is_place loc \<Longrightarrow> \<exists>ns. flatten_lhs loc = Inr ns \<and> length ns = size_of_loc loc"
proof (induction loc rule: flatten_lhs.induct)
  case (3 locs)
  then have "\<exists>chunks. res_all flatten_lhs locs = Inr chunks
      \<and> sum_list (map length chunks) = sum_list (map size_of_loc locs)"
  proof (induction locs)
    case Nil
    then show ?case by simp
  next
    case (Cons l ls)
    then show ?case by fastforce
  qed
  then show ?case by (auto simp: length_concat)
qed simp_all

lemma flatten_locs_place: "is_place loc \<Longrightarrow> list_all is_place (flatten_locs loc)"
  by (induction loc rule: flatten_locs.induct) (auto simp: list_all_iff)

lemma load_loc_flat: "\<not> is_seq loc \<Longrightarrow> \<exists>e. load_loc loc = Inr e"
  by (cases loc) simp_all

lemma copy_locs_flat:
  assumes "is_place lhs" and "\<not> is_seq lhs" and "\<not> is_seq rhs"
  shows "\<exists>ss. copy_locs lhs rhs = Inr ss"
proof -
  obtain e where "load_loc rhs = Inr e" using load_loc_flat assms(3) by blast
  with assms show ?thesis
    by (subst copy_locs.simps) (auto split: location.splits)
qed

text \<open>Copying into a place succeeds whenever both sides have the same number of words.\<close>

lemma copy_locs_ok:
  assumes "is_place lhs" and "size_of_loc lhs = size_of_loc rhs"
  shows "\<exists>ss. copy_locs lhs rhs = Inr ss"
proof (cases "is_seq lhs \<or> is_seq rhs")
  case True
  have "\<exists>chunks. res_all (\<lambda>(l, r). copy_locs l r) (zip (flatten_locs lhs) (flatten_locs rhs)) = Inr chunks"
  proof (rule res_all_total, clarify)
    fix l r
    assume "(l, r) \<in> set (zip (flatten_locs lhs) (flatten_locs rhs))"
    then have "l \<in> set (flatten_locs lhs)" "r \<in> set (flatten_locs rhs)" by (auto elim: in_set_zipE)
    moreover from this have "is_place l"
      using flatten_locs_place[OF assms(1)] by (simp add: list_all_iff)
    ultimately show "\<exists>ss. copy_locs l r = Inr ss"
      by (blast intro: copy_locs_flat dest: flatten_locs_flat)
  qed
  with True assms(2) show ?thesis
    by (subst copy_locs.simps) (auto simp: flatten_locs_length)
next
  case False
  with assms(1) show ?thesis by (blast intro: copy_locs_flat)
qed

lemma normalize_loc_one_word: "size_of_loc loc = 1 \<Longrightarrow> \<not> is_seq (normalize_loc loc)"
proof (cases loc)
  case (LSeq locs)
  assume "size_of_loc loc = 1"
  with LSeq obtain one where one: "flatten_locs (LSeq locs) = [one]"
    by (metis One_nat_def flatten_locs_length length_0_conv length_Suc_conv)
  then have "\<not> is_seq one" using flatten_locs_flat[of one "LSeq locs"] by simp
  with one LSeq show ?thesis by simp
qed simp_all

end
