(* ===== verification/Yul_Asm.thy ===== *)
theory Yul_Asm
  imports Yul_Location
begin

text \<open>
  Conversion of inline assembly to Yul (\<open>crates/yul/src/translate/asm.rs\<close>) and the variable
  lookup of the translator that it uses (\<open>lookup_var_opt\<close> of \<open>translate/lower.rs\<close>).
  \<open>asm_scopes\<close> is the struct \<open>AsmScopes\<close>. A method with \<open>&mut self\<close> and \<open>&mut AsmScopes\<close>
  returns its value with both states; on an error the states are dropped, as every caller
  returns the error. In \<open>If\<close> and in a case the code evaluates a second part before it inspects the
  result of the first, so an error of the second part wins; the model keeps that order.
\<close>

section \<open>Scopes\<close>

record asm_scopes =
  asm_values :: "(name \<rightharpoonup> name) list"
  asm_functions :: "(name \<rightharpoonup> name) list"
  outer_values_visible :: bool

definition new_asm_scopes :: asm_scopes where
  "new_asm_scopes =
     \<lparr>asm_values = [Map.empty], asm_functions = [Map.empty], outer_values_visible = True\<rparr>"

definition push_scope :: "asm_scopes \<Rightarrow> asm_scopes" where
  "push_scope asm =
     asm\<lparr>asm_values := vec_push Map.empty (asm_values asm),
         asm_functions := vec_push Map.empty (asm_functions asm)\<rparr>"

definition pop_scope :: "asm_scopes \<Rightarrow> asm_scopes" where
  "pop_scope asm =
     (case (vec_pop (asm_values asm), vec_pop (asm_functions asm)) of
        (Some (_, vs), Some (_, fs)) \<Rightarrow> asm\<lparr>asm_values := vs, asm_functions := fs\<rparr>
      | _ \<Rightarrow> asm)"

definition insert_value :: "name \<Rightarrow> name \<Rightarrow> asm_scopes \<Rightarrow> asm_scopes" where
  "insert_value source emitted asm =
     (case scopes_insert source emitted (asm_values asm) of
        Some vs \<Rightarrow> asm\<lparr>asm_values := vs\<rparr>
      | None \<Rightarrow> asm)"

definition insert_function :: "name \<Rightarrow> name \<Rightarrow> asm_scopes \<Rightarrow> asm_scopes" where
  "insert_function source emitted asm =
     (case scopes_insert source emitted (asm_functions asm) of
        Some fs \<Rightarrow> asm\<lparr>asm_functions := fs\<rparr>
      | None \<Rightarrow> asm)"

definition current_function :: "asm_scopes \<Rightarrow> name \<Rightarrow> name option" where
  "current_function asm n = (if asm_functions asm = [] then None else last (asm_functions asm) n)"

definition lookup_value :: "asm_scopes \<Rightarrow> name \<Rightarrow> name option" where
  "lookup_value asm n = scopes_lookup (asm_values asm) n"

definition lookup_function :: "asm_scopes \<Rightarrow> name \<Rightarrow> name option" where
  "lookup_function asm n = scopes_lookup (asm_functions asm) n"

definition function_body_scope :: "asm_scopes \<Rightarrow> asm_scopes" where
  "function_body_scope asm =
     \<lparr>asm_values = [Map.empty], asm_functions = vec_push Map.empty (asm_functions asm),
      outer_values_visible = False\<rparr>"

section \<open>Names of the enclosing Hull function\<close>

definition lookup_var_opt :: "translator \<Rightarrow> name \<Rightarrow> location option" where
  "lookup_var_opt tr n = scopes_lookup (tr_vars tr) n"

definition subst_asm_expr_name :: "translator \<Rightarrow> name \<Rightarrow> yul_expr" where
  "subst_asm_expr_name tr n =
     (case lookup_var_opt tr n of
        Some loc \<Rightarrow> (case flatten_rhs loc of [e] \<Rightarrow> e | _ \<Rightarrow> y_ident n)
      | None \<Rightarrow> y_ident n)"

definition subst_asm_lhs_name :: "translator \<Rightarrow> name \<Rightarrow> name" where
  "subst_asm_lhs_name tr n =
     (case lookup_var_opt tr n of
        Some loc \<Rightarrow> (case flatten_lhs loc of Inr [x] \<Rightarrow> x | _ \<Rightarrow> n)
      | None \<Rightarrow> n)"

section \<open>Expressions\<close>

definition resolve_asm_value :: "translator \<Rightarrow> asm_scopes \<Rightarrow> name \<Rightarrow> yul_expr" where
  "resolve_asm_value tr asm n =
     (case lookup_value asm n of
        Some n' \<Rightarrow> y_ident n'
      | None \<Rightarrow> if outer_values_visible asm then subst_asm_expr_name tr n else y_ident n)"

definition resolve_asm_target :: "translator \<Rightarrow> asm_scopes \<Rightarrow> name \<Rightarrow> name" where
  "resolve_asm_target tr asm raw =
     (case lookup_value asm raw of
        Some n \<Rightarrow> n
      | None \<Rightarrow> if outer_values_visible asm then subst_asm_lhs_name tr raw else raw)"

definition resolve_asm_call :: "translator \<Rightarrow> asm_scopes \<Rightarrow> name \<Rightarrow> name" where
  "resolve_asm_call tr asm raw =
     (if starts_with ''usr$'' raw \<or> is_yul_builtin raw then raw
      else case lookup_function asm raw of
             Some n \<Rightarrow> n
           | None \<Rightarrow> if raw \<in> user_functions tr then yul_fun_name raw else raw)"

fun convert_yul_expr :: "translator \<Rightarrow> asm_scopes \<Rightarrow> hir_yul_expr \<Rightarrow> yul_expr tr_res" where
  "convert_yul_expr tr asm (HirYulExpr sp (HELit lit)) =
     res_bind (convert_yul_lit lit) (\<lambda>l. Inr (YLit l))"
| "convert_yul_expr tr asm (HirYulExpr sp (HEIdent n)) =
     Inr (resolve_asm_value tr asm (tr_yul_name (tr_db tr) n))"
| "convert_yul_expr tr asm (HirYulExpr sp (HECall f args)) =
     res_bind (res_all (convert_yul_expr tr asm) args)
       (\<lambda>args. Inr (y_call (resolve_asm_call tr asm (tr_yul_name (tr_db tr) f)) args))"
| "convert_yul_expr tr asm (HirYulExpr sp HEError) = Inr (y_ident ''error'')"

section \<open>Statements\<close>

text \<open>The closure that the \<open>Let\<close> arm and the parameter lists of \<open>FunctionDef\<close> map over names.\<close>

fun declare_values :: "ident_at list \<Rightarrow> asm_scopes \<Rightarrow> translator \<Rightarrow> name list \<times> asm_scopes \<times> translator" where
  "declare_values [] asm tr = ([], asm, tr)"
| "declare_values (n # ns) asm tr =
     (let raw = tr_yul_name (tr_db tr) n;
          (emitted, tr) = fresh_asm_name raw tr;
          (rest, asm, tr) = declare_values ns (insert_value raw emitted asm) tr
      in (emitted # rest, asm, tr))"

fun predeclare_yul_functions ::
  "hir_yul_stmt list \<Rightarrow> asm_scopes \<Rightarrow> translator \<Rightarrow> (asm_scopes \<times> translator) tr_res" where
  "predeclare_yul_functions [] asm tr = Inr (asm, tr)"
| "predeclare_yul_functions (HirYulStmt sp (HSFunctionDef n params rets body) # stmts) asm tr =
     (let raw = tr_yul_name (tr_db tr) n
      in if current_function asm raw \<noteq> None then Inl (DuplicateYulFunction raw)
         else let (emitted, tr) = fresh_asm_name raw tr
              in predeclare_yul_functions stmts (insert_function raw emitted asm) tr)"
| "predeclare_yul_functions (_ # stmts) asm tr = predeclare_yul_functions stmts asm tr"

fun convert_yul_stmts ::
  "hir_yul_stmt list \<Rightarrow> asm_scopes \<Rightarrow> translator \<Rightarrow> (yul_stmt list \<times> asm_scopes \<times> translator) tr_res"
  and convert_yul_seq ::
  "hir_yul_stmt list \<Rightarrow> asm_scopes \<Rightarrow> translator \<Rightarrow> (yul_stmt list \<times> asm_scopes \<times> translator) tr_res"
  and convert_yul_stmt ::
  "hir_yul_stmt \<Rightarrow> asm_scopes \<Rightarrow> translator \<Rightarrow> (yul_stmt \<times> asm_scopes \<times> translator) tr_res"
  and convert_yul_cases ::
  "hir_yul_case list \<Rightarrow> asm_scopes \<Rightarrow> translator \<Rightarrow> (yul_case list \<times> asm_scopes \<times> translator) tr_res"
  and convert_yul_case ::
  "hir_yul_case \<Rightarrow> asm_scopes \<Rightarrow> translator \<Rightarrow> (yul_case \<times> asm_scopes \<times> translator) tr_res" where
  "convert_yul_stmts stmts asm tr =
     res_bind (predeclare_yul_functions stmts asm tr) (\<lambda>(asm, tr). convert_yul_seq stmts asm tr)"
| "convert_yul_seq [] asm tr = Inr ([], asm, tr)"
| "convert_yul_seq (s # ss) asm tr =
     res_bind (convert_yul_stmt s asm tr) (\<lambda>(y, asm, tr).
     res_bind (convert_yul_seq ss asm tr) (\<lambda>(ys, asm, tr). Inr (y # ys, asm, tr)))"
| "convert_yul_stmt (HirYulStmt sp (HSBlock stmts)) asm tr =
     res_bind (convert_yul_stmts stmts (push_scope asm) tr)
       (\<lambda>(body, asm, tr). Inr (YBlock body, pop_scope asm, tr))"
| "convert_yul_stmt (HirYulStmt sp (HSLet names init)) asm tr =
     res_bind (case init of
                 None \<Rightarrow> Inr None
               | Some e \<Rightarrow> res_bind (convert_yul_expr tr asm e) (\<lambda>e. Inr (Some e)))
       (\<lambda>init. let (names, asm, tr) = declare_values names asm tr in Inr (YLet names init, asm, tr))"
| "convert_yul_stmt (HirYulStmt sp (HSAssign names v)) asm tr =
     res_bind (convert_yul_expr tr asm v)
       (\<lambda>v. Inr (YAssign (map (\<lambda>n. resolve_asm_target tr asm (tr_yul_name (tr_db tr) n)) names) v,
                 asm, tr))"
| "convert_yul_stmt (HirYulStmt sp (HSExpr e)) asm tr =
     res_bind (convert_yul_expr tr asm e) (\<lambda>e. Inr (YExpr e, asm, tr))"
| "convert_yul_stmt (HirYulStmt sp (HSIf cond body)) asm tr =
     (case convert_yul_stmts body (push_scope asm) tr of
        Inl err \<Rightarrow> (case convert_yul_expr tr asm cond of Inl err' \<Rightarrow> Inl err' | Inr _ \<Rightarrow> Inl err)
      | Inr (body, asm, tr) \<Rightarrow>
          res_bind (convert_yul_expr tr (pop_scope asm) cond)
            (\<lambda>cond. Inr (YIf cond body, pop_scope asm, tr)))"
| "convert_yul_stmt (HirYulStmt sp (HSFor init cond post body)) asm tr =
     res_bind (convert_yul_stmts init (push_scope asm) tr) (\<lambda>(init, asm, tr).
     res_bind (convert_yul_expr tr asm cond) (\<lambda>cond.
     res_bind (convert_yul_stmts post (push_scope asm) tr) (\<lambda>(post, asm, tr).
     res_bind (convert_yul_stmts body (push_scope (pop_scope asm)) tr) (\<lambda>(body, asm, tr).
     Inr (YFor init cond post body, pop_scope (pop_scope asm), tr)))))"
| "convert_yul_stmt (HirYulStmt sp (HSSwitch e cases dflt)) asm tr =
     res_bind (convert_yul_expr tr asm e) (\<lambda>e.
     res_bind (convert_yul_cases cases asm tr) (\<lambda>(cases, asm, tr).
     case dflt of
       None \<Rightarrow> Inr (YSwitch e cases None, asm, tr)
     | Some body \<Rightarrow>
         res_bind (convert_yul_stmts body (push_scope asm) tr) (\<lambda>(body, asm, tr).
         Inr (YSwitch e cases (Some body), pop_scope asm, tr))))"
| "convert_yul_stmt (HirYulStmt sp (HSFunctionDef n params rets body)) asm tr =
     (let raw_name = tr_yul_name (tr_db tr) n
      in case lookup_function asm raw_name of
           None \<Rightarrow> Inl (MissingYulFunction raw_name)
         | Some n \<Rightarrow>
             (let (params, function_asm, tr) = declare_values params (function_body_scope asm) tr;
                  (returns, function_asm, tr) = declare_values rets function_asm tr
              in res_bind (convert_yul_stmts body function_asm tr) (\<lambda>(body, _, tr).
                 Inr (YFunction n params returns body, asm, tr))))"
| "convert_yul_stmt (HirYulStmt sp HSLeave) asm tr = Inr (YLeave, asm, tr)"
| "convert_yul_stmt (HirYulStmt sp HSBreak) asm tr = Inr (YBreak, asm, tr)"
| "convert_yul_stmt (HirYulStmt sp HSContinue) asm tr = Inr (YContinue, asm, tr)"
| "convert_yul_stmt (HirYulStmt sp HSError) asm tr = Inr (YComment ''error'', asm, tr)"
| "convert_yul_cases [] asm tr = Inr ([], asm, tr)"
| "convert_yul_cases (c # cs) asm tr =
     res_bind (convert_yul_case c asm tr) (\<lambda>(y, asm, tr).
     res_bind (convert_yul_cases cs asm tr) (\<lambda>(ys, asm, tr). Inr (y # ys, asm, tr)))"
| "convert_yul_case (HirYulCase sp lit body) asm tr =
     (case convert_yul_stmts body (push_scope asm) tr of
        Inl err \<Rightarrow> (case convert_yul_lit lit of Inl err' \<Rightarrow> Inl err' | Inr _ \<Rightarrow> Inl err)
      | Inr (body, asm, tr) \<Rightarrow>
          res_bind (convert_yul_lit lit) (\<lambda>lit. Inr (YCase lit body, pop_scope asm, tr)))"

declare convert_yul_stmts.simps [simp del]

end
