(* ===== verification/Hull_Check_Props.thy ===== *)
theory Hull_Check_Props
  imports Hull_Check_Frame Yul_Asm
begin

text \<open>
  Properties of whole statements, functions and objects in the validator: what survives a
  function or an object, when registration reports duplicates, and where the scoping of inline assembly in the checker differs
  from the translator's.
\<close>

section \<open>Functions and objects\<close>

text \<open>The two frame relations field by field.\<close>

lemma emits_iff:
  "emits env env' \<longleftrightarrow> env_db env' = env_db env \<and> env_vars env' = env_vars env
     \<and> env_funs env' = env_funs env \<and> env_asm_funs env' = env_asm_funs env
     \<and> env_ret env' = env_ret env \<and> (\<exists>ds. diagnostics env' = diagnostics env @ ds)"
  (is "_ \<longleftrightarrow> ?R")
proof
  show "emits env env' \<Longrightarrow> ?R" by (auto simp: emits_def)
next
  assume ?R
  then obtain ds where "diagnostics env' = diagnostics env @ ds" by blast
  with \<open>?R\<close> have "env' = env\<lparr>diagnostics := diagnostics env @ ds\<rparr>" by (intro env.equality) simp_all
  then show "emits env env'" by (auto simp: emits_def)
qed

lemma scoped_iff:
  "scoped env env' \<longleftrightarrow> env_db env' = env_db env \<and> env_funs env' = env_funs env
     \<and> env_asm_funs env' = env_asm_funs env \<and> env_ret env' = env_ret env
     \<and> (\<exists>top. env_vars env' = butlast (env_vars env) @ [top])
     \<and> (\<exists>ds. diagnostics env' = diagnostics env @ ds)"
  (is "_ \<longleftrightarrow> ?R")
proof
  show "scoped env env' \<Longrightarrow> ?R" by (auto simp: scoped_def)
next
  assume ?R
  then obtain ds top where "diagnostics env' = diagnostics env @ ds"
    "env_vars env' = butlast (env_vars env) @ [top]" by blast
  with \<open>?R\<close> have "env' = env\<lparr>env_vars := butlast (env_vars env) @ [top], diagnostics := diagnostics env @ ds\<rparr>"
    by (intro env.equality) simp_all
  then show "scoped env env'" by (auto simp: scoped_def)
qed

lemma fold_emits:
  assumes "\<And>x env. env_ok env \<Longrightarrow> emits env (f x env)" and "env_ok env"
  shows "emits env (fold f xs env)"
  using assms(2)
proof (induction xs arbitrary: env)
  case Nil
  then show ?case by (simp add: emits_refl)
next
  case (Cons x xs)
  have "emits env (f x env)" using assms(1) Cons.prems by blast
  moreover from this have "emits (f x env) (fold f xs (f x env))"
    using Cons emits_ok by blast
  ultimately show ?case by (simp add: emits_trans)
qed

lemma fold_scoped:
  assumes "\<And>x env. env_ok env \<Longrightarrow> scoped env (f x env)" and "env_ok env"
  shows "scoped env (fold f xs env)"
  using assms(2)
proof (induction xs arbitrary: env)
  case Nil
  then show ?case by (simp add: scoped_refl)
next
  case (Cons x xs)
  have "scoped env (f x env)" using assms(1) Cons.prems by blast
  moreover from this have "scoped (f x env) (fold f xs (f x env))"
    using Cons scoped_ok by blast
  ultimately show ?case by (auto intro: scoped_trans)
qed

lemma check_first_order_emits: "emits env (check_first_order f env)"
proof -
  have "emits env (fold (\<lambda>a env. if contains_function (arg_ty a)
      then push_diag (arg_span a) (FunctionTypeNotFirstOrder (fn_name f)) env else env) as env)" for as
    by (induction as arbitrary: env) (auto intro: emits_refl emits_trans emits_push_diag)
  then show ?thesis by (auto simp: check_first_order_def Let_def intro: emits_steps)
qed

lemma env_ret_update: "scoped (env\<lparr>env_ret := r\<rparr>) env' \<Longrightarrow> scoped env (env'\<lparr>env_ret := env_ret env\<rparr>)"
  by (simp add: scoped_iff)

lemma check_function_emits:
  assumes "env_ok env"
  shows "emits env (check_function f env)"
proof -
  let ?e0 = "check_first_order f env"
  let ?e1 = "fold (\<lambda>a. insert_var (arg_name a) (arg_ty a)) (fn_args f) (enter_scope ?e0)"
  let ?e2 = "check_body (fn_body f) (?e1\<lparr>env_ret := Some (fn_ret f)\<rparr>)"
  let ?e3 = "if requires_terminator (fn_ret f) \<and> \<not> body_terminates (env_db ?e2) (fn_body f)
      then push_diag (fn_span f) (MissingTerminator (fn_name f)) ?e2 else ?e2"
  have e0: "emits env ?e0" by (rule check_first_order_emits)
  have ok0: "env_ok ?e0" using assms e0 by (simp add: emits_ok)
  then have s1: "scoped (enter_scope ?e0) ?e1"
    by (intro fold_scoped scoped_insert_var enter_scope_ok)
  then have ok1: "env_ok (?e1\<lparr>env_ret := Some (fn_ret f)\<rparr>)"
    using scoped_ok[OF enter_scope_ok[OF ok0] s1] by (simp add: env_ok_def)
  have "emits ?e2 ?e3" by (simp add: emits_push_diag emits_refl)
  then have "scoped (?e1\<lparr>env_ret := Some (fn_ret f)\<rparr>) ?e3"
    by (rule scoped_emits[OF ok1 check_stmt_scoped(1)[OF ok1]])
  then have "scoped ?e1 (?e3\<lparr>env_ret := env_ret ?e1\<rparr>)" by (rule env_ret_update)
  with s1 have "scoped (enter_scope ?e0) (?e3\<lparr>env_ret := env_ret ?e1\<rparr>)" by (rule scoped_trans)
  with ok0 have "emits ?e0 (leave_scope (?e3\<lparr>env_ret := env_ret ?e1\<rparr>))" by (rule leave_scope_emits)
  with e0 have "emits env (leave_scope (?e3\<lparr>env_ret := env_ret ?e1\<rparr>))" by (rule emits_trans)
  then show ?thesis by (simp add: check_function_def Let_def)
qed

text \<open>Registering functions changes the table of functions and adds diagnostics.\<close>

lemma fold_register_emits: "emits env ((fold register_function fs env)\<lparr>env_funs := env_funs env\<rparr>)"
proof (induction fs arbitrary: env)
  case Nil
  then show ?case by (simp add: emits_refl)
next
  case (Cons f fs)
  let ?env = "register_function f env"
  have "emits env (?env\<lparr>env_funs := env_funs env\<rparr>)"
    by (auto simp: emits_iff register_function_def push_diag_def Let_def)
  with Cons.IH[of ?env] show ?case by (auto simp: emits_iff)
qed

lemma check_object_emits:
  "env_ok env \<Longrightarrow> emits env (check_object ob env)"
proof (induction ob env rule: check_object.induct)
  case (1 sp n code inners env)
  let ?e1 = "fold register_function (cb_functions code) env"
  let ?e2 = "fold check_function (cb_functions code) (enter_scope ?e1)"
  let ?e3 = "leave_scope (check_body (cb_stmts code) ?e2)"
  let ?e4 = "?e3\<lparr>env_funs := env_funs env\<rparr>"
  have r: "emits env (?e1\<lparr>env_funs := env_funs env\<rparr>)" by (rule fold_register_emits)
  have ok1: "env_ok ?e1" using 1(2) emits_ok[OF r] by (simp add: env_ok_def)
  have s2: "emits (enter_scope ?e1) ?e2" using ok1 by (intro fold_emits check_function_emits) simp_all
  then have ok2: "env_ok ?e2" using ok1 by (simp add: emits_ok)
  have "scoped (enter_scope ?e1) (check_body (cb_stmts code) ?e2)"
    using emits_scoped[OF _ s2] check_stmt_scoped(1)[OF ok2] ok1 by (auto intro: scoped_trans)
  with ok1 have e3: "emits ?e1 ?e3" by (rule leave_scope_emits)
  have e4: "emits env ?e4" using r e3 by (auto simp: emits_iff)
  have "emits ?e4 (fold check_object inners ?e4)"
  proof -
    have "emits env' (fold check_object obs env')" if "set obs \<subseteq> set inners" "env_ok env'" for obs env'
      using that
    proof (induction obs arbitrary: env')
      case Nil
      then show ?case by (simp add: emits_refl)
    next
      case (Cons ob obs)
      have "emits env' (check_object ob env')"
        using 1(1)[OF refl refl refl refl refl refl refl] Cons.prems by simp
      with Cons show ?case by (auto intro: emits_trans simp: emits_ok)
    qed
    then show ?thesis using emits_ok[OF e4] 1(2) by simp
  qed
  with e4 have "emits env (fold check_object inners ?e4)" by (rule emits_trans)
  then show ?case by (simp add: Let_def)
qed

text \<open>C31. Checking a function or an object, whatever it contains, changes nothing in the validator
  but its list of diagnostics, and only appends to it: variables, function tables, assembly
  scopes and the expected return type are those of before.\<close>

theorem check_object_only_appends:
  assumes "env_vars env \<noteq> []" and "env_asm_funs env \<noteq> []"
  shows "(\<exists>ds. check_function f env = env\<lparr>diagnostics := diagnostics env @ ds\<rparr>)
    \<and> (\<exists>ds. check_object ob env = env\<lparr>diagnostics := diagnostics env @ ds\<rparr>)"
  using check_function_emits[of env f] check_object_emits[of env ob] assms
  by (auto simp: emits_def env_ok_def)

theorem check_object_only_appends_witness:
  "let sp = \<lparr>anchor = 0, sp_begin = 0, sp_end = 0\<rparr>; env = initial_env None sp;
       f = \<lparr>fn_span = sp, fn_name = ''f'', fn_args = [], fn_ret = ty_unit sp,
            fn_body = [Stmt sp (SLet ''x'' (ty_word sp)), Stmt sp (SExpr (Expr sp (ty_word sp) (EVar ''y'')))]\<rparr>
   in env_vars (check_function f env) = env_vars env"
proof -
  let ?sp = "\<lparr>anchor = 0, sp_begin = 0, sp_end = 0\<rparr>"
  let ?ob = "Object ?sp ''o'' \<lparr>cb_span = ?sp, cb_stmts = [], cb_functions = []\<rparr> []"
  have "env_vars (check_function f (initial_env None ?sp)) = env_vars (initial_env None ?sp)" for f
  proof -
    have "env_vars (initial_env None ?sp) \<noteq> []" "env_asm_funs (initial_env None ?sp) \<noteq> []"
      by (simp_all add: initial_env_def)
    from check_object_only_appends[OF this, of f ?ob] show ?thesis by force
  qed
  then show ?thesis by (simp only: Let_def)
qed

section \<open>Registration\<close>

lemma register_clean:
  "diagnostics (fold register_function fs env) = diagnostics env \<longleftrightarrow>
     distinct (map fn_name fs) \<and> (\<forall>f\<in>set fs. env_funs env (fn_name f) = None)"
proof (induction fs arbitrary: env)
  case Nil
  then show ?case by simp
next
  case (Cons f fs)
  let ?env = "register_function f env"
  obtain ds where ds: "diagnostics (fold register_function fs ?env) = diagnostics ?env @ ds"
    using emits_prefix[OF fold_register_emits[of ?env fs]] by auto
  have d: "diagnostics ?env = diagnostics env \<longleftrightarrow> env_funs env (fn_name f) = None"
    "\<exists>es. diagnostics ?env = diagnostics env @ es"
    by (auto simp: register_function_def push_diag_def Let_def)
  have F: "env_funs ?env = (env_funs env)(fn_name f \<mapsto> \<lparr>sig_args = map arg_ty (fn_args f), sig_ret = fn_ret f\<rparr>)"
    by (simp add: register_function_def push_diag_def Let_def)
  have "diagnostics (fold register_function fs ?env) = diagnostics env \<longleftrightarrow>
      diagnostics ?env = diagnostics env \<and> diagnostics (fold register_function fs ?env) = diagnostics ?env"
    using ds d(2) by auto
  then show ?case using Cons.IH[of ?env] d(1) by (auto simp: F image_iff dest: sym)
qed

text \<open>Registering a list of functions reports nothing exactly when their names are distinct and
  none of them is already a function, builtins included; and a later registration always wins.\<close>

theorem register_functions_clean_iff:
  "(diagnostics (fold register_function fs env) = diagnostics env) =
     (distinct (map fn_name fs) \<and> list_all (\<lambda>f. env_funs env (fn_name f) = None) fs)
   \<and> env_funs (fold register_function fs env) = env_funs env ++ map_of (rev (map (\<lambda>f.
       (fn_name f, \<lparr>sig_args = map arg_ty (fn_args f), sig_ret = fn_ret f\<rparr>)) fs))"
proof -
  have "env_funs (fold register_function fs env) = env_funs env ++ map_of (rev (map (\<lambda>f.
       (fn_name f, \<lparr>sig_args = map arg_ty (fn_args f), sig_ret = fn_ret f\<rparr>)) fs))"
    by (induction fs arbitrary: env)
       (auto simp: register_function_def push_diag_def Let_def map_add_def fun_eq_iff split: option.splits)
  then show ?thesis by (simp add: register_clean list_all_iff)
qed

section \<open>Scoping of \<open>if\<close> in inline assembly\<close>

text \<open>The program \<open>if 1 { let x := 1 } x := 2\<close>: the checker opens no scope of variables for the
  body of \<open>if\<close> (only \<open>Block\<close>, \<open>For\<close> and \<open>FunctionDef\<close> do), the translator does.\<close>

definition leak_sp :: span where
  "leak_sp = \<lparr>anchor = 0, sp_begin = 0, sp_end = 0\<rparr>"

definition leak_db :: hir_db where
  "leak_db i = ''x''"

definition leak_lit :: "string \<Rightarrow> hir_yul_expr" where
  "leak_lit v = HirYulExpr leak_sp (HELit (HLNumber v))"

definition leak_program :: "hir_yul_stmt list" where
  "leak_program =
     [HirYulStmt leak_sp (HSIf (leak_lit ''1'')
        [HirYulStmt leak_sp (HSLet [Spanned 0 leak_sp] (Some (leak_lit ''1'')))]),
      HirYulStmt leak_sp (HSAssign [Spanned 0 leak_sp] (leak_lit ''2''))]"

lemmas leak_defs = leak_program_def leak_lit_def leak_db_def

lemma leak_lits: "canonical_numeric_lit ''1'' = Inr ''1''" "canonical_numeric_lit ''2'' = Inr ''2''"
  by code_simp+

lemma new_translator_fields: "tr_db (new_translator db) = db" "tr_vars (new_translator db) = [Map.empty]"
  by (simp_all add: new_translator_def)

lemma leak_fresh: "fresh_asm_name ''x'' (new_translator db) =
    (''asm$x_0'', (new_translator db)\<lparr>name_counter := 1, used_yul_names := {|''asm$x_0''|}\<rparr>)"
proof -
  have "names_below (new_translator db)" by (simp add: names_below_def new_translator_def)
  moreover have "candidate_name ''asm'' (yul_ident_fragment ''x'') 0 = ''asm$x_0''" by code_simp
  ultimately show ?thesis
    by (simp add: fresh_asm_name_def fresh_yul_name_first) (simp add: new_translator_def)
qed

text \<open>The checker accepts an assembly block that assigns, after an \<open>if\<close>, a variable declared
  inside the \<open>if\<close>; the translator renames the declaration and leaves the assignment with the
  source name, which nothing declares.\<close>

theorem asm_if_scope_leak:
  "diagnostics (check_asm_block leak_program (initial_env (Some leak_db) leak_sp)) = []
   \<and> map_sum id fst (convert_yul_stmts leak_program new_asm_scopes (new_translator leak_db)) =
       Inr [YIf (y_number ''1'') [YLet [''asm$x_0''] (Some (y_number ''1''))],
            YAssign [''x''] (y_number ''2'')]"
proof
  show "diagnostics (check_asm_block leak_program (initial_env (Some leak_db) leak_sp)) = []"
    by (simp add: leak_defs check_asm_block.simps check_asm_arg.simps predeclare_asm_functions_def
        enter_asm_scope_def leave_asm_scope_def initial_env_def insert_words_def insert_var_def
        scopes_insert_def vec_push_def vec_pop_def yul_name_def expect_return_count_def
        is_word_type_def check_asm_target_def lookup_var_def scopes_lookup_def)
  show "map_sum id fst (convert_yul_stmts leak_program new_asm_scopes (new_translator leak_db)) =
       Inr [YIf (y_number ''1'') [YLet [''asm$x_0''] (Some (y_number ''1''))],
            YAssign [''x''] (y_number ''2'')]"
    by (simp add: leak_defs convert_yul_stmts.simps leak_lits leak_fresh tr_yul_name_def
        new_translator_fields new_asm_scopes_def push_scope_def pop_scope_def vec_push_def
        vec_pop_def insert_value_def scopes_insert_def resolve_asm_target_def lookup_value_def
        scopes_lookup_def subst_asm_lhs_name_def lookup_var_opt_def y_defs)
qed

end
