(* ===== verification/Yul_Asm_Frame.thy ===== *)
theory Yul_Asm_Frame
  imports Yul_Asm
begin

text \<open>
  What converting inline assembly may change, and when it succeeds. A converted statement can
  only add values to the innermost scope; a list of statements can also add functions to it;
  the translator changes only in its supply of names. Conversion succeeds exactly when every
  literal has a canonical form and no block declares a function twice, so a predeclared
  function is always found.
\<close>

section \<open>The two stacks as scopes\<close>

definition asm_ok :: "asm_scopes \<Rightarrow> bool" where
  "asm_ok asm \<longleftrightarrow> asm_values asm \<noteq> [] \<and> asm_functions asm \<noteq> []"

lemmas asm_scope_defs = push_scope_def pop_scope_def insert_value_def insert_function_def
  lookup_value_def lookup_function_def asm_ok_def

interpretation asm_value_scopes: lexical_scopes push_scope pop_scope insert_value lookup_value asm_ok
proof unfold_locales
  fix s :: asm_scopes and k v
  assume ok: "asm_ok s"
  show "asm_ok (push_scope s)" by (simp add: asm_scope_defs vec_push_def)
  show "asm_ok (insert_value k v s)" "pop_scope (insert_value k v s) = pop_scope s"
    using ok by (simp_all add: asm_scope_defs scope_simps vec_pop_def)
  show "pop_scope (push_scope s) = s" by (simp add: asm_scope_defs)
  show "lookup_value (push_scope s) = lookup_value s"
    by (rule ext) (simp add: asm_scope_defs scope_simps)
  show "lookup_value (insert_value k v s) = (lookup_value s)(k \<mapsto> v)"
    using ok by (intro ext) (simp add: asm_scope_defs scope_simps)
qed

interpretation asm_function_scopes:
  lexical_scopes push_scope pop_scope insert_function lookup_function asm_ok
proof unfold_locales
  fix s :: asm_scopes and k v
  assume ok: "asm_ok s"
  show "asm_ok (push_scope s)" by (rule asm_value_scopes.ok_enter[OF ok])
  show "pop_scope (push_scope s) = s" by (rule asm_value_scopes.leave_enter[OF ok])
  show "asm_ok (insert_function k v s)" "pop_scope (insert_function k v s) = pop_scope s"
    using ok by (simp_all add: asm_scope_defs scope_simps vec_pop_def)
  show "lookup_function (push_scope s) = lookup_function s"
    by (rule ext) (simp add: asm_scope_defs scope_simps)
  show "lookup_function (insert_function k v s) = (lookup_function s)(k \<mapsto> v)"
    using ok by (intro ext) (simp add: asm_scope_defs scope_simps)
qed

section \<open>What may change\<close>

definition names_only :: "translator \<Rightarrow> translator \<Rightarrow> bool" where
  "names_only tr tr' \<longleftrightarrow>
     (\<exists>k u. tr' = tr\<lparr>name_counter := k, used_yul_names := u\<rparr> \<and> used_yul_names tr |\<subseteq>| u)"

definition values_scoped :: "asm_scopes \<Rightarrow> asm_scopes \<Rightarrow> bool" where
  "values_scoped asm asm' \<longleftrightarrow>
     outer_values_visible asm' = outer_values_visible asm
     \<and> asm_functions asm' = asm_functions asm
     \<and> (\<exists>v. asm_values asm' = butlast (asm_values asm) @ [v])"

definition asm_scoped :: "asm_scopes \<Rightarrow> asm_scopes \<Rightarrow> bool" where
  "asm_scoped asm asm' \<longleftrightarrow>
     outer_values_visible asm' = outer_values_visible asm
     \<and> (\<exists>f. asm_functions asm' = butlast (asm_functions asm) @ [f])
     \<and> (\<exists>v. asm_values asm' = butlast (asm_values asm) @ [v])"

named_theorems asm_frame \<open>introduction rules for the frame relations of assembly\<close>

lemma names_only_refl [asm_frame]: "names_only tr tr"
  by (auto simp: names_only_def intro!: exI[of _ "name_counter tr"] exI[of _ "used_yul_names tr"])

lemma names_only_trans: "names_only a b \<Longrightarrow> names_only b c \<Longrightarrow> names_only a c"
  by (fastforce simp: names_only_def)

lemma names_only_fields:
  assumes "names_only tr tr'"
  shows "tr_db tr' = tr_db tr" "counter tr' = counter tr" "tr_vars tr' = tr_vars tr"
    "user_functions tr' = user_functions tr"
  using assms by (auto simp: names_only_def)

lemma ex_last: "xs \<noteq> [] \<Longrightarrow> \<exists>x. xs = butlast xs @ [x]"
  by (metis append_butlast_last_id)

lemma values_scoped_refl [asm_frame]: "asm_ok asm \<Longrightarrow> values_scoped asm asm"
  by (simp add: values_scoped_def asm_ok_def ex_last)

lemma values_scoped_trans: "values_scoped a b \<Longrightarrow> values_scoped b c \<Longrightarrow> values_scoped a c"
  by (auto simp: values_scoped_def)

lemma values_scoped_asm: "asm_ok asm \<Longrightarrow> values_scoped asm asm' \<Longrightarrow> asm_scoped asm asm'"
  by (simp add: values_scoped_def asm_scoped_def asm_ok_def ex_last)

lemma asm_scoped_trans: "asm_scoped a b \<Longrightarrow> asm_scoped b c \<Longrightarrow> asm_scoped a c"
  by (auto simp: asm_scoped_def)

lemma scoped_asm_ok:
  "asm_ok asm \<Longrightarrow> values_scoped asm asm' \<Longrightarrow> asm_ok asm'"
  "asm_ok asm \<Longrightarrow> asm_scoped asm asm' \<Longrightarrow> asm_ok asm'"
  by (auto simp: values_scoped_def asm_scoped_def asm_ok_def)

lemma values_scoped_functions: "values_scoped asm asm' \<Longrightarrow> lookup_function asm' = lookup_function asm"
  by (auto simp: values_scoped_def lookup_function_def fun_eq_iff)

text \<open>Leaving a scope undoes everything done inside it.\<close>

lemma pop_push_scoped: "asm_ok asm \<Longrightarrow> asm_scoped (push_scope asm) asm' \<Longrightarrow> pop_scope asm' = asm"
  by (auto simp: asm_scoped_def asm_scope_defs vec_push_def vec_pop_def)

lemma values_scoped_insert: "asm_ok asm \<Longrightarrow> values_scoped asm (insert_value k v asm)"
  by (auto simp: values_scoped_def asm_scope_defs scope_simps)

lemma asm_scoped_insert_function: "asm_ok asm \<Longrightarrow> asm_scoped asm (insert_function k v asm)"
  by (simp add: asm_scoped_def asm_scope_defs scope_simps ex_last)

lemma fresh_asm_name_frame: "fresh_asm_name s tr = (n, tr') \<Longrightarrow> names_only tr tr'"
  unfolding fresh_asm_name_def by (erule fresh_yul_name_props) (auto simp: names_only_def)

lemma declare_values_frame:
  "declare_values ns asm tr = (es, asm', tr') \<Longrightarrow> asm_ok asm \<Longrightarrow>
     values_scoped asm asm' \<and> names_only tr tr'"
proof (induction ns asm tr arbitrary: es asm' tr' rule: declare_values.induct)
  case (1 asm tr)
  then show ?case by (simp add: asm_frame)
next
  case (2 n ns asm tr)
  obtain e tr1 where f: "fresh_asm_name (tr_yul_name (tr_db tr) n) tr = (e, tr1)" by (metis surj_pair)
  let ?asm1 = "insert_value (tr_yul_name (tr_db tr) n) e asm"
  obtain es2 asm2 tr2 where r: "declare_values ns ?asm1 tr1 = (es2, asm2, tr2)" by (metis surj_pair)
  have ok: "asm_ok ?asm1" "values_scoped asm ?asm1"
    using 2(3) asm_value_scopes.ok_declare values_scoped_insert by auto
  have "values_scoped ?asm1 asm2 \<and> names_only tr1 tr2"
    by (rule 2(1)[OF refl f[symmetric] refl r ok(1)])
  moreover have "asm' = asm2" "tr' = tr2" using 2(2) f r by (simp_all add: Let_def)
  ultimately show ?case
    using ok fresh_asm_name_frame[OF f] by (blast intro: values_scoped_trans names_only_trans)
qed

lemma predeclare_frame:
  "predeclare_yul_functions ss asm tr = Inr (asm', tr') \<Longrightarrow> asm_ok asm \<Longrightarrow>
     asm_scoped asm asm' \<and> names_only tr tr' \<and> asm_values asm' = asm_values asm"
proof (induction ss asm tr arbitrary: asm' tr' rule: predeclare_yul_functions.induct)
  case (2 sp n params rets body stmts asm tr)
  let ?raw = "tr_yul_name (tr_db tr) n"
  obtain e tr1 where f: "fresh_asm_name ?raw tr = (e, tr1)" by (metis surj_pair)
  let ?asm1 = "insert_function ?raw e asm"
  have c: "\<not> current_function asm ?raw \<noteq> None" using 2(2) by (auto simp: Let_def split: if_splits)
  have ok: "asm_ok ?asm1" "asm_scoped asm ?asm1" "asm_values ?asm1 = asm_values asm"
    using 2(3) asm_function_scopes.ok_declare asm_scoped_insert_function
    by (auto simp: insert_function_def split: option.split)
  have "predeclare_yul_functions stmts ?asm1 tr1 = Inr (asm', tr')" using 2(2) c f by (simp add: Let_def)
  with 2(1)[OF refl c f[symmetric] refl] ok
  have "asm_scoped ?asm1 asm' \<and> names_only tr1 tr' \<and> asm_values asm' = asm_values ?asm1" by blast
  then show ?case using ok fresh_asm_name_frame[OF f]
    by (metis asm_scoped_trans names_only_trans)
qed (auto simp: asm_frame values_scoped_asm)

section \<open>Conversion of statements\<close>

lemma convert_frame:
  "convert_yul_stmts ss asm tr = Inr (ys, asm', tr') \<Longrightarrow> asm_ok asm \<Longrightarrow>
     asm_scoped asm asm' \<and> names_only tr tr'"
  "convert_yul_seq ss asm tr = Inr (ys, asm', tr') \<Longrightarrow> asm_ok asm \<Longrightarrow>
     values_scoped asm asm' \<and> names_only tr tr'"
  "convert_yul_stmt s asm tr = Inr (y, asm', tr') \<Longrightarrow> asm_ok asm \<Longrightarrow>
     values_scoped asm asm' \<and> names_only tr tr'"
  "convert_yul_cases cs asm tr = Inr (cys, asm', tr') \<Longrightarrow> asm_ok asm \<Longrightarrow> asm' = asm \<and> names_only tr tr'"
  "convert_yul_case c asm tr = Inr (cy, asm', tr') \<Longrightarrow> asm_ok asm \<Longrightarrow> asm' = asm \<and> names_only tr tr'"
proof (induction ss asm tr and ss asm tr and s asm tr and cs asm tr and c asm tr
    arbitrary: ys asm' tr' and ys asm' tr' and y asm' tr' and cys asm' tr' and cy asm' tr'
    rule: convert_yul_stmts_convert_yul_seq_convert_yul_stmt_convert_yul_cases_convert_yul_case.induct)
  case (1 stmts asm tr)
  then obtain asm1 tr1 where p: "predeclare_yul_functions stmts asm tr = Inr (asm1, tr1)"
    "convert_yul_seq stmts asm1 tr1 = Inr (ys, asm', tr')"
    by (auto simp: convert_yul_stmts.simps res_elims)
  with predeclare_frame[OF p(1) 1(3)] have a: "asm_scoped asm asm1" "names_only tr tr1" "asm_ok asm1"
    using 1(3) scoped_asm_ok(2) by auto
  have "values_scoped asm1 asm' \<and> names_only tr1 tr'" using 1(1) p a(3) by blast
  with a show ?case by (blast intro: asm_scoped_trans values_scoped_asm names_only_trans)
next
  case (3 s ss asm tr)
  then show ?case
    by (auto simp: res_elims) (blast intro: values_scoped_trans names_only_trans scoped_asm_ok)+
next
  case (4 sp stmts asm tr)
  then show ?case
    by (auto simp: res_elims asm_value_scopes.ok_enter pop_push_scoped asm_frame)
next
  case (5 sp names init asm tr)
  obtain es asm1 tr1 where d: "declare_values names asm tr = (es, asm1, tr1)" by (metis surj_pair)
  from declare_values_frame[OF d 5(2)] 5(1) show ?case by (auto simp: d res_elims)
next
  case (8 sp cond body asm tr)
  then show ?case
    by (auto simp: res_elims asm_value_scopes.ok_enter pop_push_scoped asm_frame split: sum.splits)
next
  case (9 sp init cond post body asm tr)
  obtain i asm1 tr1 c p asm2 tr2 b asm3 where
    i: "convert_yul_stmts init (push_scope asm) tr = Inr (i, asm1, tr1)"
    and c: "convert_yul_expr tr1 asm1 cond = Inr c"
    and p: "convert_yul_stmts post (push_scope asm1) tr1 = Inr (p, asm2, tr2)"
    and b: "convert_yul_stmts body (push_scope (pop_scope asm2)) tr2 = Inr (b, asm3, tr')"
    and asm': "asm' = pop_scope (pop_scope asm3)"
    using 9(4) by (auto simp: res_elims)
  have ok: "asm_ok (push_scope asm)" using 9(5) by (rule asm_value_scopes.ok_enter)
  have 1: "asm_scoped (push_scope asm) asm1" "names_only tr tr1" using 9(1)[OF i ok] by simp_all
  then have ok1: "asm_ok asm1" using ok scoped_asm_ok(2) by blast
  have 2: "asm_scoped (push_scope asm1) asm2" "names_only tr1 tr2"
    using 9(2)[OF i refl refl c p asm_value_scopes.ok_enter[OF ok1]] by simp_all
  then have pop2: "pop_scope asm2 = asm1" using ok1 pop_push_scoped by blast
  have 3: "asm_scoped (push_scope asm1) asm3" "names_only tr2 tr'"
    using 9(3)[OF i refl refl c p refl refl] b ok1 pop2 asm_value_scopes.ok_enter by auto
  then have "pop_scope asm3 = asm1" using ok1 pop_push_scoped by blast
  then have "asm' = asm" using asm' 1 9(5) pop_push_scoped by simp
  with 1 2 3 9(5) show ?case by (auto intro: asm_frame names_only_trans)
next
  case (10 sp e cases dflt asm tr)
  obtain e' cs asm1 tr1 where e: "convert_yul_expr tr asm e = Inr e'"
    and c: "convert_yul_cases cases asm tr = Inr (cs, asm1, tr1)"
    using 10(3) by (auto simp: res_elims)
  have 1: "asm1 = asm" "names_only tr tr1" using 10(1)[OF e c 10(4)] by simp_all
  show ?case
  proof (cases dflt)
    case None
    with 1 e c 10(3,4) show ?thesis by (simp add: asm_frame)
  next
    case (Some body)
    then obtain b asm2 where b: "convert_yul_stmts body (push_scope asm) tr1 = Inr (b, asm2, tr')"
      "asm' = pop_scope asm2"
      using 1 e c 10(3) by (auto simp: res_elims)
    have ok: "asm_ok (push_scope asm)" using 10(4) by (rule asm_value_scopes.ok_enter)
    have "asm_scoped (push_scope asm) asm2 \<and> names_only tr1 tr'"
      using 10(2)[OF e c refl refl Some] b(1) ok 1(1) by blast
    with 1(2) b(2) 10(4) show ?thesis by (auto simp: pop_push_scoped intro: asm_frame names_only_trans)
  qed
next
  case (11 sp n params rets body asm tr)
  obtain n' where n': "lookup_function asm (tr_yul_name (tr_db tr) n) = Some n'"
    using 11(2) by (auto simp: Let_def split: option.splits)
  obtain ps asm1 tr1 where d1: "declare_values params (function_body_scope asm) tr = (ps, asm1, tr1)"
    by (metis surj_pair)
  obtain rs asm2 tr2 where d2: "declare_values rets asm1 tr1 = (rs, asm2, tr2)" by (metis surj_pair)
  have ok: "asm_ok (function_body_scope asm)" by (simp add: asm_ok_def function_body_scope_def vec_push_def)
  note f1 = declare_values_frame[OF d1 ok]
  then have ok1: "asm_ok asm1" using ok scoped_asm_ok by blast
  note f2 = declare_values_frame[OF d2 ok1]
  then have ok2: "asm_ok asm2" using ok1 scoped_asm_ok by blast
  obtain b asm3 where "convert_yul_stmts body asm2 tr2 = Inr (b, asm3, tr')" "asm' = asm"
    using 11(2) n' d1 d2 by (auto simp: Let_def res_elims)
  with 11(1)[OF refl n' refl d1[symmetric] refl refl d2[symmetric] refl] f1 f2 ok2 11(3)
  show ?case by (auto intro: asm_frame names_only_trans)
next
  case (17 c cs asm tr)
  obtain y1 asm1 tr1 ys1 where c: "convert_yul_case c asm tr = Inr (y1, asm1, tr1)"
    "convert_yul_cases cs asm1 tr1 = Inr (ys1, asm', tr')"
    using 17(3) by (auto simp: res_elims)
  have "asm1 = asm" "names_only tr tr1" using 17(1)[OF c(1) 17(4)] by simp_all
  moreover from this have "asm' = asm1 \<and> names_only tr1 tr'"
    using 17(2)[OF c(1) refl refl c(2)] 17(4) by simp
  ultimately show ?case by (blast intro: names_only_trans)
next
  case (18 sp lit body asm tr)
  then show ?case
    by (auto simp: res_elims asm_value_scopes.ok_enter pop_push_scoped split: sum.splits)
qed (auto simp: res_elims asm_frame)

section \<open>When conversion succeeds\<close>

fun asm_expr_convertible :: "hir_yul_expr \<Rightarrow> bool" where
  "asm_expr_convertible (HirYulExpr sp (HELit lit)) = is_ok (convert_yul_lit lit)"
| "asm_expr_convertible (HirYulExpr sp (HECall f args)) = list_all asm_expr_convertible args"
| "asm_expr_convertible _ = True"

text \<open>The names of the functions that a list of statements declares, in order.\<close>

fun asm_fun_names :: "hir_db \<Rightarrow> hir_yul_stmt list \<Rightarrow> name list" where
  "asm_fun_names db [] = []"
| "asm_fun_names db (HirYulStmt sp (HSFunctionDef n params rets body) # ss) =
     tr_yul_name db n # asm_fun_names db ss"
| "asm_fun_names db (_ # ss) = asm_fun_names db ss"

fun asm_stmt_convertible :: "hir_db \<Rightarrow> hir_yul_stmt \<Rightarrow> bool"
  and asm_case_convertible :: "hir_db \<Rightarrow> hir_yul_case \<Rightarrow> bool" where
  "asm_stmt_convertible db (HirYulStmt sp (HSBlock ss)) =
     (distinct (asm_fun_names db ss) \<and> list_all (asm_stmt_convertible db) ss)"
| "asm_stmt_convertible db (HirYulStmt sp (HSLet names init)) =
     (case init of None \<Rightarrow> True | Some e \<Rightarrow> asm_expr_convertible e)"
| "asm_stmt_convertible db (HirYulStmt sp (HSAssign names v)) = asm_expr_convertible v"
| "asm_stmt_convertible db (HirYulStmt sp (HSExpr e)) = asm_expr_convertible e"
| "asm_stmt_convertible db (HirYulStmt sp (HSIf cond body)) =
     (asm_expr_convertible cond \<and> distinct (asm_fun_names db body)
      \<and> list_all (asm_stmt_convertible db) body)"
| "asm_stmt_convertible db (HirYulStmt sp (HSFor init cond post body)) =
     (distinct (asm_fun_names db init) \<and> list_all (asm_stmt_convertible db) init
      \<and> asm_expr_convertible cond
      \<and> distinct (asm_fun_names db post) \<and> list_all (asm_stmt_convertible db) post
      \<and> distinct (asm_fun_names db body) \<and> list_all (asm_stmt_convertible db) body)"
| "asm_stmt_convertible db (HirYulStmt sp (HSSwitch e cases dflt)) =
     (asm_expr_convertible e \<and> list_all (asm_case_convertible db) cases
      \<and> (case dflt of
            None \<Rightarrow> True
          | Some body \<Rightarrow> distinct (asm_fun_names db body) \<and> list_all (asm_stmt_convertible db) body))"
| "asm_stmt_convertible db (HirYulStmt sp (HSFunctionDef n params rets body)) =
     (distinct (asm_fun_names db body) \<and> list_all (asm_stmt_convertible db) body)"
| "asm_stmt_convertible db (HirYulStmt sp HSLeave) = True"
| "asm_stmt_convertible db (HirYulStmt sp HSBreak) = True"
| "asm_stmt_convertible db (HirYulStmt sp HSContinue) = True"
| "asm_stmt_convertible db (HirYulStmt sp HSError) = True"
| "asm_case_convertible db (HirYulCase sp lit body) =
     (is_ok (convert_yul_lit lit) \<and> distinct (asm_fun_names db body)
      \<and> list_all (asm_stmt_convertible db) body)"

definition asm_convertible :: "hir_db \<Rightarrow> hir_yul_stmt list \<Rightarrow> bool" where
  "asm_convertible db ss \<longleftrightarrow> distinct (asm_fun_names db ss) \<and> list_all (asm_stmt_convertible db) ss"

lemma is_ok_bind: "is_ok (res_bind m f) \<longleftrightarrow> (\<exists>x. m = Inr x \<and> is_ok (f x))"
  by (cases m) simp_all

lemma is_ok_ex:
  "(\<exists>x. m = Inr x) \<longleftrightarrow> is_ok m"
  "(\<exists>a b. p = Inr (a, b)) \<longleftrightarrow> is_ok p"
  "(\<exists>a b c. t = Inr (a, b, c)) \<longleftrightarrow> is_ok t"
  subgoal by (cases m) auto
  subgoal by (cases p) auto
  subgoal by (cases t) auto
  done

lemma is_ok_res_all: "is_ok (res_all f xs) \<longleftrightarrow> list_all (\<lambda>x. is_ok (f x)) xs"
proof (induction xs)
  case (Cons x xs)
  then show ?case by (cases "f x"; cases "res_all f xs") auto
qed simp

lemma convert_yul_expr_ok: "is_ok (convert_yul_expr tr asm e) \<longleftrightarrow> asm_expr_convertible e"
proof (induction e rule: asm_expr_convertible.induct)
  case (2 sp f args)
  have "is_ok (convert_yul_expr tr asm (HirYulExpr sp (HECall f args)))
      \<longleftrightarrow> is_ok (res_all (convert_yul_expr tr asm) args)"
    by (auto simp: is_ok_bind is_ok_ex)
  with 2 show ?case by (auto simp: is_ok_res_all list_all_iff)
qed (auto simp: is_ok_bind is_ok_ex)

lemma current_function_insert:
  "asm_ok asm \<Longrightarrow> current_function (insert_function k v asm) = (current_function asm)(k \<mapsto> v)"
  by (rule ext) (simp add: current_function_def asm_scope_defs scope_simps)

lemma current_function_push: "current_function (push_scope asm) n = None"
  by (simp add: current_function_def push_scope_def vec_push_def)

lemma predeclare_ok:
  "asm_ok asm \<Longrightarrow> is_ok (predeclare_yul_functions ss asm tr) \<longleftrightarrow>
     distinct (asm_fun_names (tr_db tr) ss)
     \<and> (\<forall>n\<in>set (asm_fun_names (tr_db tr) ss). current_function asm n = None)"
proof (induction ss asm tr rule: predeclare_yul_functions.induct)
  case (2 sp n params rets body stmts asm tr)
  let ?raw = "tr_yul_name (tr_db tr) n"
  obtain e tr1 where f: "fresh_asm_name ?raw tr = (e, tr1)" by (metis surj_pair)
  have db: "tr_db tr1 = tr_db tr" using fresh_asm_name_frame[OF f] by (rule names_only_fields)
  show ?case
  proof (cases "current_function asm ?raw")
    case None
    then have c: "\<not> current_function asm ?raw \<noteq> None" by simp
    from 2(1)[OF refl c f[symmetric] refl] 2(2) None f show ?thesis
      by (auto simp: Let_def db current_function_insert asm_function_scopes.ok_declare split: if_splits)
  next
    case (Some g)
    then show ?thesis by (simp add: Let_def)
  qed
qed auto

lemma predeclared_found:
  "predeclare_yul_functions ss asm tr = Inr (asm', tr') \<Longrightarrow> asm_ok asm \<Longrightarrow>
     (\<forall>n\<in>set (asm_fun_names (tr_db tr) ss) \<union> dom (lookup_function asm). lookup_function asm' n \<noteq> None)"
proof (induction ss asm tr rule: predeclare_yul_functions.induct)
  case (2 sp n params rets body stmts asm tr)
  let ?raw = "tr_yul_name (tr_db tr) n"
  obtain e tr1 where f: "fresh_asm_name ?raw tr = (e, tr1)" by (metis surj_pair)
  have db: "tr_db tr1 = tr_db tr" using fresh_asm_name_frame[OF f] by (rule names_only_fields)
  have c: "\<not> current_function asm ?raw \<noteq> None" using 2(2) by (auto simp: Let_def split: if_splits)
  have "predeclare_yul_functions stmts (insert_function ?raw e asm) tr1 = Inr (asm', tr')"
    using 2(2) c f by (simp add: Let_def)
  from 2(1)[OF refl c f[symmetric] refl this] 2(3) show ?case
    by (auto simp: db asm_function_scopes.ok_declare asm_function_scopes.look_declare)
qed auto

lemma asm_fun_names_Cons:
  "set (asm_fun_names db (s # ss)) = set (asm_fun_names db [s]) \<union> set (asm_fun_names db ss)"
  by (cases s; cases "hys_kind s") auto

text \<open>The block case is used by every construct that opens a scope.\<close>

lemma convert_ok:
  "asm_ok asm \<Longrightarrow> (\<forall>n\<in>set (asm_fun_names (tr_db tr) ss). current_function asm n = None) \<Longrightarrow>
     is_ok (convert_yul_stmts ss asm tr) \<longleftrightarrow> asm_convertible (tr_db tr) ss"
  "asm_ok asm \<Longrightarrow> (\<forall>n\<in>set (asm_fun_names (tr_db tr) ss). lookup_function asm n \<noteq> None) \<Longrightarrow>
     is_ok (convert_yul_seq ss asm tr) \<longleftrightarrow> list_all (asm_stmt_convertible (tr_db tr)) ss"
  "asm_ok asm \<Longrightarrow> (\<forall>n\<in>set (asm_fun_names (tr_db tr) [s]). lookup_function asm n \<noteq> None) \<Longrightarrow>
     is_ok (convert_yul_stmt s asm tr) \<longleftrightarrow> asm_stmt_convertible (tr_db tr) s"
  "asm_ok asm \<Longrightarrow> is_ok (convert_yul_cases cs asm tr) \<longleftrightarrow> list_all (asm_case_convertible (tr_db tr)) cs"
  "asm_ok asm \<Longrightarrow> is_ok (convert_yul_case c asm tr) \<longleftrightarrow> asm_case_convertible (tr_db tr) c"
proof (induction ss asm tr and ss asm tr and s asm tr and cs asm tr and c asm tr
    rule: convert_yul_stmts_convert_yul_seq_convert_yul_stmt_convert_yul_cases_convert_yul_case.induct)
  case (1 stmts asm tr)
  show ?case
  proof (cases "predeclare_yul_functions stmts asm tr")
    case (Inl e)
    then show ?thesis using predeclare_ok[OF 1(2), of stmts tr] 1(3)
      by (simp add: convert_yul_stmts.simps asm_convertible_def)
  next
    case (Inr p)
    then obtain asm1 tr1 where p: "predeclare_yul_functions stmts asm tr = Inr (asm1, tr1)" by (cases p) simp
    have f: "asm_ok asm1" "tr_db tr1 = tr_db tr"
      using predeclare_frame[OF p 1(2)] 1(2) by (auto dest: scoped_asm_ok(2) names_only_fields(1))
    have "is_ok (convert_yul_seq stmts asm1 tr1) \<longleftrightarrow> list_all (asm_stmt_convertible (tr_db tr)) stmts"
      using 1(1)[OF p refl f(1)] f(2) predeclared_found[OF p 1(2)] by auto
    then show ?thesis using predeclare_ok[OF 1(2), of stmts tr] p
      by (simp add: convert_yul_stmts.simps asm_convertible_def)
  qed
next
  case (3 s ss asm tr)
  show ?case
  proof (cases "convert_yul_stmt s asm tr")
    case (Inl e)
    with 3(1)[OF 3(3)] 3(4) show ?thesis by (auto simp: asm_fun_names_Cons[of _ s ss])
  next
    case (Inr r)
    then obtain y asm1 tr1 where r: "convert_yul_stmt s asm tr = Inr (y, asm1, tr1)" by (cases r) auto
    have f: "values_scoped asm asm1" "names_only tr tr1" using convert_frame(3)[OF r 3(3)] by simp_all
    have s: "asm_stmt_convertible (tr_db tr) s"
      using 3(1)[OF 3(3)] 3(4) r by (auto simp: asm_fun_names_Cons[of _ s ss])
    have "is_ok (convert_yul_seq ss asm1 tr1) \<longleftrightarrow> list_all (asm_stmt_convertible (tr_db tr)) ss"
      using 3(2)[OF r refl refl scoped_asm_ok(1)[OF 3(3) f(1)]] 3(4) f
      by (auto simp: asm_fun_names_Cons[of _ s ss] values_scoped_functions names_only_fields)
    with r s show ?thesis by (simp add: is_ok_bind is_ok_ex)
  qed
next
  case (4 sp stmts asm tr)
  then have "is_ok (convert_yul_stmts stmts (push_scope asm) tr) \<longleftrightarrow> asm_convertible (tr_db tr) stmts"
    by (simp add: asm_value_scopes.ok_enter current_function_push)
  then show ?case by (auto simp: is_ok_bind is_ok_ex asm_convertible_def)
next
  case (5 sp names init asm tr)
  show ?case
  proof (cases init)
    case None
    then show ?thesis by (auto simp: Let_def split: prod.split)
  next
    case (Some e)
    have "is_ok (let (names, asm, tr) = declare_values names asm tr
        in Inr (YLet names i, asm, tr) :: (yul_stmt \<times> asm_scopes \<times> translator) tr_res)" for i
      by (simp split: prod.split)
    with Some show ?thesis using convert_yul_expr_ok[of tr asm e]
      by (cases "convert_yul_expr tr asm e") simp_all
  qed
next
  case (6 sp names v asm tr)
  then show ?case using convert_yul_expr_ok[of tr asm v] by (auto simp: is_ok_bind is_ok_ex)
next
  case (7 sp e asm tr)
  then show ?case using convert_yul_expr_ok[of tr asm e] by (auto simp: is_ok_bind is_ok_ex)
next
  case (8 sp cond body asm tr)
  have b: "is_ok (convert_yul_stmts body (push_scope asm) tr) \<longleftrightarrow> asm_convertible (tr_db tr) body"
    using 8 by (simp add: asm_value_scopes.ok_enter current_function_push)
  have c: "is_ok (convert_yul_expr t a cond) \<longleftrightarrow> asm_expr_convertible cond" for t a
    by (rule convert_yul_expr_ok)
  show ?case
  proof (cases "convert_yul_stmts body (push_scope asm) tr")
    case (Inl err)
    with b show ?thesis by (auto simp: asm_convertible_def split: sum.split)
  next
    case (Inr r)
    with b show ?thesis
      using c[of "snd (snd r)" "pop_scope (fst (snd r))"]
      by (auto simp: asm_convertible_def is_ok_bind is_ok_ex split: prod.splits)
  qed
next
  case (9 sp init cond post body asm tr)
  have ok: "asm_ok (push_scope asm)" using 9(4) by (rule asm_value_scopes.ok_enter)
  have i: "is_ok (convert_yul_stmts init (push_scope asm) tr) \<longleftrightarrow> asm_convertible (tr_db tr) init"
    by (rule 9(1)[OF ok]) (simp add: current_function_push)
  show ?case
  proof (cases "convert_yul_stmts init (push_scope asm) tr")
    case (Inl err)
    with i show ?thesis by (auto simp: asm_convertible_def)
  next
    case (Inr r)
    then obtain y1 asm1 tr1 where r: "convert_yul_stmts init (push_scope asm) tr = Inr (y1, asm1, tr1)"
      by (cases r) auto
    then have f1: "asm_ok asm1" "tr_db tr1 = tr_db tr"
      using convert_frame(1)[OF r ok] ok scoped_asm_ok(2) names_only_fields(1) by auto
    show ?thesis
    proof (cases "convert_yul_expr tr1 asm1 cond")
      case (Inl err)
      then show ?thesis using i r convert_yul_expr_ok[of tr1 asm1 cond] by simp
    next
      case (Inr c)
      have ok1: "asm_ok (push_scope asm1)" using f1(1) by (rule asm_value_scopes.ok_enter)
      have p: "is_ok (convert_yul_stmts post (push_scope asm1) tr1) \<longleftrightarrow> asm_convertible (tr_db tr1) post"
        by (rule 9(2)[OF r refl refl Inr ok1]) (simp add: current_function_push)
      have c: "asm_expr_convertible cond" using Inr convert_yul_expr_ok[of tr1 asm1 cond] by simp
      show ?thesis
      proof (cases "convert_yul_stmts post (push_scope asm1) tr1")
        case (Inl err)
        with i r p c f1 \<open>convert_yul_expr tr1 asm1 cond = Inr c\<close> show ?thesis
          by (auto simp: asm_convertible_def)
      next
        case (Inr q)
        then obtain y2 asm2 tr2 where q: "convert_yul_stmts post (push_scope asm1) tr1 = Inr (y2, asm2, tr2)"
          by (cases q) auto
        then have f2: "pop_scope asm2 = asm1" "tr_db tr2 = tr_db tr"
          using convert_frame(1)[OF q ok1] f1 pop_push_scoped names_only_fields(1) by auto
        have "is_ok (convert_yul_stmts body (push_scope (pop_scope asm2)) tr2) \<longleftrightarrow> asm_convertible (tr_db tr2) body"
          by (rule 9(3)[OF r refl refl \<open>convert_yul_expr tr1 asm1 cond = Inr c\<close> q refl refl])
             (simp_all add: current_function_push f2 ok1)
        with i r p q c f1 f2 \<open>convert_yul_expr tr1 asm1 cond = Inr c\<close> show ?thesis
          by (simp add: asm_convertible_def is_ok_bind is_ok_ex)
      qed
    qed
  qed
next
  case (10 sp e cases dflt asm tr)
  show ?case
  proof (cases "convert_yul_expr tr asm e")
    case (Inl err)
    then show ?thesis using convert_yul_expr_ok[of tr asm e] by simp
  next
    case (Inr e')
    then have e: "asm_expr_convertible e" using convert_yul_expr_ok[of tr asm e] by simp
    have c: "is_ok (convert_yul_cases cases asm tr) \<longleftrightarrow> list_all (asm_case_convertible (tr_db tr)) cases"
      by (rule 10(1)[OF Inr 10(3)])
    show ?thesis
    proof (cases "convert_yul_cases cases asm tr")
      case (Inl err)
      with c Inr show ?thesis by simp
    next
      case (Inr r)
      then obtain ys asm1 tr1 where r: "convert_yul_cases cases asm tr = Inr (ys, asm1, tr1)" by (cases r) auto
      then have f: "asm1 = asm" "tr_db tr1 = tr_db tr"
        using convert_frame(4)[OF r 10(3)] names_only_fields(1) by auto
      show ?thesis
      proof (cases dflt)
        case None
        with r c e \<open>convert_yul_expr tr asm e = Inr e'\<close> show ?thesis by simp
      next
        case (Some body)
        have "is_ok (convert_yul_stmts body (push_scope asm1) tr1) \<longleftrightarrow> asm_convertible (tr_db tr1) body"
          by (rule 10(2)[OF \<open>convert_yul_expr tr asm e = Inr e'\<close> r refl refl Some])
             (use f 10(3) in \<open>simp_all add: asm_value_scopes.ok_enter current_function_push\<close>)
        with r c e f Some \<open>convert_yul_expr tr asm e = Inr e'\<close> show ?thesis
          by (simp add: asm_convertible_def is_ok_bind is_ok_ex)
      qed
    qed
  qed
next
  case (11 sp n params rets body asm tr)
  obtain n' where n': "lookup_function asm (tr_yul_name (tr_db tr) n) = Some n'" using 11(3) by auto
  obtain ps asm1 tr1 where d1: "declare_values params (function_body_scope asm) tr = (ps, asm1, tr1)"
    by (metis surj_pair)
  obtain rs asm2 tr2 where d2: "declare_values rets asm1 tr1 = (rs, asm2, tr2)" by (metis surj_pair)
  have ok: "asm_ok (function_body_scope asm)" by (simp add: asm_ok_def function_body_scope_def vec_push_def)
  note f1 = declare_values_frame[OF d1 ok]
  then have ok1: "asm_ok asm1" using ok scoped_asm_ok by blast
  note f2 = declare_values_frame[OF d2 ok1]
  then have ok2: "asm_ok asm2" using ok1 scoped_asm_ok by blast
  have "current_function asm2 = current_function (function_body_scope asm)" "tr_db tr2 = tr_db tr"
    using f1 f2 names_only_fields(1) by (auto simp: values_scoped_def current_function_def fun_eq_iff)
  then have "is_ok (convert_yul_stmts body asm2 tr2) \<longleftrightarrow> asm_convertible (tr_db tr) body"
    using 11(1)[OF refl n' refl d1[symmetric] refl refl d2[symmetric] refl ok2]
    by (simp add: current_function_def function_body_scope_def vec_push_def)
  with n' d1 d2 show ?case by (simp add: Let_def is_ok_bind is_ok_ex asm_convertible_def)
next
  case (17 c cs asm tr)
  show ?case
  proof (cases "convert_yul_case c asm tr")
    case (Inl err)
    with 17(1)[OF 17(3)] show ?thesis by simp
  next
    case (Inr r)
    then obtain y asm1 tr1 where r: "convert_yul_case c asm tr = Inr (y, asm1, tr1)" by (cases r) auto
    then have f: "asm1 = asm" "tr_db tr1 = tr_db tr"
      using convert_frame(5)[OF r 17(3)] names_only_fields(1) by auto
    have "is_ok (convert_yul_cases cs asm1 tr1) \<longleftrightarrow> list_all (asm_case_convertible (tr_db tr)) cs"
      using 17(2)[OF r refl refl] 17(3) f by simp
    with 17(1)[OF 17(3)] r show ?thesis by (simp add: is_ok_bind is_ok_ex)
  qed
next
  case (18 sp lit body asm tr)
  have b: "is_ok (convert_yul_stmts body (push_scope asm) tr) \<longleftrightarrow> asm_convertible (tr_db tr) body"
    using 18 by (simp add: asm_value_scopes.ok_enter current_function_push)
  then show ?case
    by (cases "convert_yul_stmts body (push_scope asm) tr")
       (auto simp: asm_convertible_def is_ok_bind is_ok_ex split: sum.split prod.splits)
qed auto

section \<open>Properties\<close>

lemma new_asm_scopes_ok: "asm_ok new_asm_scopes" "current_function new_asm_scopes n = None"
  by (simp_all add: asm_ok_def new_asm_scopes_def current_function_def)

text \<open>C20. The conversion of an \<open>assembly\<close> statement succeeds exactly when all its literals have a
  canonical form and no block declares a function name twice; in particular every function
  definition finds the name that was predeclared for it.\<close>

theorem convert_yul_stmts_succeeds_iff:
  "(\<exists>out. convert_yul_stmts stmts new_asm_scopes tr = Inr out) \<longleftrightarrow> asm_convertible (tr_db tr) stmts"
  using convert_ok(1)[of new_asm_scopes tr stmts] by (simp add: new_asm_scopes_ok is_ok_ex)



end
