(* ===== verification/Yul_Lower.thy ===== *)
theory Yul_Lower
  imports Yul_Asm
begin

text \<open>
  Lowering of Hull programs to Yul (\<open>crates/yul/src/translate/lower.rs\<close>). The state is the record
  \<open>translator\<close>; a method with \<open>&mut self\<close> returns its value paired with the new state, or an error
  (every caller passes an error on, so the state after an error is not modelled).
  \<open>with_local_env(f)\<close> is \<open>push_env\<close>, \<open>f\<close>, \<open>pop_env\<close>.
\<close>

section \<open>Variables and stack slots\<close>

definition tr_lookup_var :: "translator \<Rightarrow> name \<Rightarrow> location tr_res" where
  "tr_lookup_var tr n =
     (case lookup_var_opt tr n of Some loc \<Rightarrow> Inr loc | None \<Rightarrow> Inl (VariableNotFound n))"

definition tr_insert_var :: "name \<Rightarrow> location \<Rightarrow> translator \<Rightarrow> translator" where
  "tr_insert_var n loc tr =
     (case scopes_insert n loc (tr_vars tr) of
        Some vars \<Rightarrow> tr\<lparr>tr_vars := vars\<rparr>
      | None \<Rightarrow> tr)"

definition push_env :: "translator \<Rightarrow> translator" where
  "push_env tr = tr\<lparr>tr_vars := vec_push Map.empty (tr_vars tr)\<rparr>"

definition pop_env :: "translator \<Rightarrow> translator" where
  "pop_env tr = (case vec_pop (tr_vars tr) of Some (_, vars) \<Rightarrow> tr\<lparr>tr_vars := vars\<rparr> | None \<Rightarrow> tr)"

definition fresh_stack_loc :: "translator \<Rightarrow> location \<times> translator" where
  "fresh_stack_loc tr = (LStack (counter tr), tr\<lparr>counter := counter tr + 1\<rparr>)"

fun fresh_stack_locs :: "nat \<Rightarrow> translator \<Rightarrow> location list \<times> translator" where
  "fresh_stack_locs 0 tr = ([], tr)"
| "fresh_stack_locs (Suc n) tr =
     (let (loc, tr) = fresh_stack_loc tr; (locs, tr) = fresh_stack_locs n tr in (loc # locs, tr))"

function build_loc :: "ty \<Rightarrow> translator \<Rightarrow> (location \<times> translator) tr_res" where
  "build_loc t tr =
     (case ty_kind (strip_named t) of
        TyWord \<Rightarrow> Inr (fresh_stack_loc tr)
      | TyBool \<Rightarrow> Inr (fresh_stack_loc tr)
      | TyNamedRef n \<Rightarrow> Inr (fresh_stack_loc tr)
      | TyFunction ps r \<Rightarrow> Inr (fresh_stack_loc tr)
      | TyUnit \<Rightarrow> Inr (LSeq [], tr)
      | TyProduct lhs rhs \<Rightarrow>
          res_bind (build_loc lhs tr) (\<lambda>(l, tr).
          res_bind (build_loc rhs tr) (\<lambda>(r, tr). Inr (LSeq [l, r], tr)))
      | TySum lhs rhs \<Rightarrow>
          res_bind (size_of_ty t) (\<lambda>n.
          let (slots, tr) = fresh_stack_locs n tr in Inr (LSeq slots, tr))
      | TyNamed n inner \<Rightarrow> build_loc inner tr)"
  by pat_completeness auto
termination
  by (relation "measure (\<lambda>(t, _). size t)") (auto dest: strip_parts_smaller)

declare build_loc.simps [simp del]

definition hull_alloc :: "ty \<Rightarrow> translator \<Rightarrow> (yul_stmt list \<times> location \<times> translator) tr_res" where
  "hull_alloc t tr = res_bind (build_loc t tr) (\<lambda>(loc, tr). Inr (alloc_loc loc, loc, tr))"

definition alloc_var :: "name \<Rightarrow> ty \<Rightarrow> translator \<Rightarrow> (yul_stmt list \<times> translator) tr_res" where
  "alloc_var n t tr =
     (if tr_is_word_type t
      then let (yul_name, tr) = fresh_source_name n tr
           in Inr ([YLet [yul_name] None], tr_insert_var n (LNamed yul_name) tr)
      else res_bind (hull_alloc t tr)
             (\<lambda>(stmts, loc, tr). Inr (stmts, tr_insert_var n loc tr)))"

section \<open>Expressions\<close>

text \<open>\<open>gen_args\<close> is the loop of the \<open>Call\<close> arm: the statements, the flattened arguments and the
  locations.\<close>

fun gen_expr :: "expr \<Rightarrow> translator \<Rightarrow> (yul_stmt list \<times> location \<times> translator) tr_res"
  and gen_args :: "expr list \<Rightarrow> translator
      \<Rightarrow> (yul_stmt list \<times> yul_expr list \<times> location list \<times> translator) tr_res" where
  "gen_expr (Expr sp t (EWord v)) tr = res_bind (canonical_word_lit v) (\<lambda>w. Inr ([], LWord w, tr))"
| "gen_expr (Expr sp t (EBool b)) tr = Inr ([], LBool b, tr)"
| "gen_expr (Expr sp t EUnit) tr = Inr ([], LSeq [], tr)"
| "gen_expr (Expr sp t (EVar n)) tr = res_bind (tr_lookup_var tr n) (\<lambda>loc. Inr ([], loc, tr))"
| "gen_expr (Expr sp t (EPair lhs rhs)) tr =
     res_bind (gen_expr lhs tr) (\<lambda>(lhs_stmts, lhs_loc, tr).
     res_bind (gen_expr rhs tr) (\<lambda>(rhs_stmts, rhs_loc, tr).
     Inr (lhs_stmts @ rhs_stmts, LSeq [lhs_loc, rhs_loc], tr)))"
| "gen_expr (Expr sp t (EFst inner)) tr =
     res_bind (gen_expr inner tr) (\<lambda>(stmts, loc, tr).
     res_bind (pair_locs loc) (\<lambda>(lhs, _). Inr (stmts, lhs, tr)))"
| "gen_expr (Expr sp t (ESnd inner)) tr =
     res_bind (gen_expr inner tr) (\<lambda>(stmts, loc, tr).
     res_bind (pair_locs loc) (\<lambda>(_, rhs). Inr (stmts, rhs, tr)))"
| "gen_expr (Expr sp t (EInl target v)) tr =
     res_bind (gen_expr v tr) (\<lambda>(stmts, loc, tr).
     case ty_kind (strip_named target) of
       TySum lhs rhs \<Rightarrow>
         res_bind (max_size lhs rhs) (\<lambda>n. Inr (stmts, LSeq [LBool False, pad_to_size loc n], tr))
     | _ \<Rightarrow> Inl InlNotSum)"
| "gen_expr (Expr sp t (EInr target v)) tr =
     res_bind (gen_expr v tr) (\<lambda>(stmts, loc, tr).
     case ty_kind (strip_named target) of
       TySum lhs rhs \<Rightarrow>
         res_bind (max_size lhs rhs) (\<lambda>n. Inr (stmts, LSeq [LBool True, pad_to_size loc n], tr))
     | _ \<Rightarrow> Inl InrNotSum)"
| "gen_expr (Expr sp t (EInK index target v)) tr =
     res_bind (gen_expr v tr) (\<lambda>(stmts, loc, tr).
     res_bind (lower_in_k_loc target index loc) (\<lambda>loc. Inr (stmts, loc, tr)))"
| "gen_expr (Expr sp t (ECall callee args)) tr =
     res_bind (gen_args args tr) (\<lambda>(out, yul_args, arg_locs, tr).
     case lower_callee callee (user_functions tr) of
       Identity_callee \<Rightarrow>
         (case arg_locs of [] \<Rightarrow> Inl IdentityWithoutArgument | loc # _ \<Rightarrow> Inr (out, loc, tr))
     | Call_callee n \<Rightarrow>
         res_bind (hull_alloc t tr) (\<lambda>(alloc_stmts, result_loc, tr).
         if size_of_loc result_loc = 0
         then Inr (out @ alloc_stmts @ [YExpr (y_call n yul_args)], result_loc, tr)
         else res_bind (flatten_lhs result_loc) (\<lambda>names.
              Inr (out @ alloc_stmts @ [YAssign names (y_call n yul_args)], result_loc, tr))))"
| "gen_expr (Expr sp t (EIf target cond then_expr else_expr)) tr =
     res_bind (hull_alloc target tr) (\<lambda>(out, result_loc, tr).
     res_bind (gen_expr cond tr) (\<lambda>(cond_stmts, cond_loc, tr).
     res_bind (gen_expr then_expr tr) (\<lambda>(then_stmts, then_loc, tr).
     res_bind (gen_expr else_expr tr) (\<lambda>(else_stmts, else_loc, tr).
     res_bind (copy_locs result_loc then_loc) (\<lambda>then_copy.
     res_bind (copy_locs result_loc else_loc) (\<lambda>else_copy.
     res_bind (load_loc (normalize_loc cond_loc)) (\<lambda>cond.
     Inr (out @ cond_stmts
            @ [YSwitch cond [YCase (YNumber ''0'') (else_stmts @ else_copy)]
                 (Some (then_stmts @ then_copy))],
          result_loc, tr))))))))"
| "gen_args [] tr = Inr ([], [], [], tr)"
| "gen_args (a # as) tr =
     res_bind (gen_expr a tr) (\<lambda>(stmts, loc, tr).
     res_bind (gen_args as tr) (\<lambda>(out, yul_args, locs, tr).
     Inr (stmts @ out, flatten_rhs loc @ yul_args, loc # locs, tr)))"

section \<open>Statements\<close>

definition hull_assign :: "expr \<Rightarrow> expr \<Rightarrow> translator \<Rightarrow> (yul_stmt list \<times> translator) tr_res" where
  "hull_assign lhs rhs tr =
     res_bind (gen_expr lhs tr) (\<lambda>(lhs_stmts, lhs_loc, tr).
     res_bind (gen_expr rhs tr) (\<lambda>(rhs_stmts, rhs_loc, tr).
     if size_of_loc lhs_loc = 0 then Inr (rhs_stmts, tr)
     else res_bind (copy_locs lhs_loc rhs_loc) (\<lambda>copy.
          Inr (lhs_stmts @ rhs_stmts @ copy, tr))))"

definition revert_stmts :: "string \<Rightarrow> yul_stmt list" where
  "revert_stmts message =
     [YExpr (y_call ''mstore'' [y_number ''0'', y_string message]),
      YExpr (y_call ''revert'' [y_number ''0'', y_number (show_nat (utf8_len message))])]"

text \<open>The tag and the payload that a \<open>Match\<close> takes from its normalized scrutinee.\<close>

fun split_tag :: "location \<Rightarrow> (location \<times> location) tr_res" where
  "split_tag (LSeq []) = Inl EmptyMatch"
| "split_tag (LSeq (tag # locs)) = Inr (tag, LSeq locs)"
| "split_tag tag = Inr (tag, LSeq [])"

fun gen_stmts :: "stmt list \<Rightarrow> translator \<Rightarrow> (yul_stmt list \<times> translator) tr_res"
  and gen_stmt :: "stmt \<Rightarrow> translator \<Rightarrow> (yul_stmt list \<times> translator) tr_res"
  and gen_alts :: "ty \<Rightarrow> location \<Rightarrow> alt list \<Rightarrow> translator
      \<Rightarrow> (yul_case list \<times> yul_stmt list option \<times> translator) tr_res" where
  "gen_stmts [] tr = Inr ([], tr)"
| "gen_stmts (s # ss) tr =
     res_bind (gen_stmt s tr) (\<lambda>(out, tr).
     res_bind (gen_stmts ss tr) (\<lambda>(outs, tr). Inr (out @ outs, tr)))"
| "gen_stmt (Stmt sp (SLet n t)) tr = alloc_var n t tr"
| "gen_stmt (Stmt sp (SAssign lhs rhs)) tr = hull_assign lhs rhs tr"
| "gen_stmt (Stmt sp (SExpr e)) tr = res_bind (gen_expr e tr) (\<lambda>(stmts, _, tr). Inr (stmts, tr))"
| "gen_stmt (Stmt sp (SReturn e)) tr =
     res_bind (gen_expr e tr) (\<lambda>(out, loc, tr).
     if size_of_loc loc \<noteq> 0
     then res_bind (tr_lookup_var tr ''_result'') (\<lambda>result.
          res_bind (copy_locs result loc) (\<lambda>copy. Inr (out @ copy @ [YLeave], tr)))
     else Inr (out @ [YLeave], tr))"
| "gen_stmt (Stmt sp (SBlock stmts)) tr =
     res_bind (gen_stmts stmts (push_env tr)) (\<lambda>(body, tr). Inr ([YBlock body], pop_env tr))"
| "gen_stmt (Stmt sp (SFor init cond post body)) tr =
     res_bind (gen_stmts init (push_env tr)) (\<lambda>(init_stmts, tr).
     res_bind (gen_expr cond tr) (\<lambda>(cond_stmts, cond_loc, tr).
     res_bind (load_loc (normalize_loc cond_loc)) (\<lambda>cond_expr.
     res_bind (gen_stmts post tr) (\<lambda>(post_stmts, tr).
     res_bind (gen_stmts body tr) (\<lambda>(body_stmts, tr).
     let (cond_allocs, cond_compute) = partition_allocs cond_stmts;
         (post_allocs, post_compute) = partition_allocs post_stmts
     in Inr ([YFor (init_stmts @ cond_allocs @ post_allocs @ cond_compute) cond_expr
                (post_compute @ cond_compute) body_stmts],
             pop_env tr))))))"
| "gen_stmt (Stmt sp SBreak) tr = Inr ([YBreak], tr)"
| "gen_stmt (Stmt sp SContinue) tr = Inr ([YContinue], tr)"
| "gen_stmt (Stmt sp (SMatch target scrutinee alts)) tr =
     res_bind (gen_expr scrutinee tr) (\<lambda>(out, loc, tr).
     res_bind (split_tag (normalize_loc loc)) (\<lambda>(tag, payload).
     res_bind (gen_alts (strip_named target) payload alts tr) (\<lambda>(cases, dflt, tr).
     res_bind (load_loc tag) (\<lambda>e. Inr (out @ [YSwitch e cases dflt], tr)))))"
| "gen_stmt (Stmt sp (SAssembly stmts)) tr =
     res_bind (convert_yul_stmts stmts new_asm_scopes tr) (\<lambda>(out, _, tr). Inr (out, tr))"
| "gen_stmt (Stmt sp (SRevert message)) tr = Inr (revert_stmts message, tr)"
| "gen_stmt (Stmt sp (SComment comment)) tr = Inr ([YComment comment], tr)"
| "gen_alts target payload [] tr = Inr ([], None, tr)"
| "gen_alts target payload (Alt sp (Pat psp (PCon c)) bndr body # alts) tr =
     res_bind (con_lit target c) (\<lambda>lit.
     res_bind (con_payload target c payload) (\<lambda>p.
     res_bind (gen_stmts body (tr_insert_var bndr p (push_env tr))) (\<lambda>(body, tr).
     res_bind (gen_alts target payload alts (pop_env tr)) (\<lambda>(cases, dflt, tr).
     Inr (YCase lit body # cases, dflt, tr)))))"
| "gen_alts target payload (Alt sp (Pat psp (PIntLit v)) bndr body # alts) tr =
     res_bind (gen_stmts body (tr_insert_var bndr payload (push_env tr))) (\<lambda>(body, tr).
     res_bind (canonical_word_lit v) (\<lambda>v.
     res_bind (gen_alts target payload alts (pop_env tr)) (\<lambda>(cases, dflt, tr).
     Inr (YCase (YNumber v) body # cases, dflt, tr))))"
| "gen_alts target payload (Alt sp (Pat psp (PVar n)) bndr body # alts) tr =
     res_bind (gen_stmts body (tr_insert_var bndr payload (tr_insert_var n payload (push_env tr))))
       (\<lambda>(body, tr).
     res_bind (gen_alts target payload alts (pop_env tr)) (\<lambda>(cases, dflt, tr).
     Inr (cases, (case dflt of Some d \<Rightarrow> Some d | None \<Rightarrow> Some body), tr)))"
| "gen_alts target payload (Alt sp (Pat psp PWildcard) bndr body # alts) tr =
     res_bind (gen_stmts body (tr_insert_var bndr payload (push_env tr))) (\<lambda>(body, tr).
     res_bind (gen_alts target payload alts (pop_env tr)) (\<lambda>(cases, dflt, tr).
     Inr (cases, (case dflt of Some d \<Rightarrow> Some d | None \<Rightarrow> Some body), tr)))"

section \<open>Functions, objects, programs\<close>

fun gen_params :: "arg list \<Rightarrow> translator \<Rightarrow> (name list \<times> translator) tr_res" where
  "gen_params [] tr = Inr ([], tr)"
| "gen_params (a # as) tr =
     (if tr_is_word_type (arg_ty a)
      then let (n, tr) = fresh_source_name (arg_name a) tr
           in res_bind (gen_params as (tr_insert_var (arg_name a) (LNamed n) tr)) (\<lambda>(ns, tr).
              Inr (n # ns, tr))
      else res_bind (build_loc (arg_ty a) tr) (\<lambda>(loc, tr).
           res_bind (flatten_lhs loc) (\<lambda>names.
           res_bind (gen_params as (tr_insert_var (arg_name a) loc tr)) (\<lambda>(ns, tr).
           Inr (names @ ns, tr)))))"

definition gen_returns :: "ty \<Rightarrow> translator \<Rightarrow> (name list \<times> translator) tr_res" where
  "gen_returns ret tr =
     (case ty_kind (strip_named ret) of
        TyUnit \<Rightarrow> Inr ([], tr)
      | TyWord \<Rightarrow>
          (let (n, tr) = fresh_internal_name ''result'' tr
           in Inr ([n], tr_insert_var ''_result'' (LNamed n) tr))
      | _ \<Rightarrow>
          if zero_sized_type ret then Inr ([], tr)
          else res_bind (build_loc ret tr) (\<lambda>(loc, tr).
               res_bind (flatten_lhs loc) (\<lambda>returns.
               Inr (returns, tr_insert_var ''_result'' loc tr))))"

definition translate_function :: "hull_function \<Rightarrow> translator \<Rightarrow> (yul_stmt \<times> translator) tr_res" where
  "translate_function f tr =
     (let saved_vars = tr_vars tr
      in res_bind (gen_params (fn_args f) (tr\<lparr>tr_vars := [Map.empty]\<rparr>)) (\<lambda>(params, tr).
         res_bind (gen_returns (fn_ret f) tr) (\<lambda>(returns, tr).
         res_bind (gen_stmts (fn_body f) tr) (\<lambda>(body, tr).
         Inr (YFunction (yul_fun_name (fn_name f)) params returns body,
              tr\<lparr>tr_vars := saved_vars\<rparr>)))))"

fun translate_functions :: "hull_function list \<Rightarrow> translator \<Rightarrow> (yul_stmt list \<times> translator) tr_res" where
  "translate_functions [] tr = Inr ([], tr)"
| "translate_functions (f # fs) tr =
     res_bind (translate_function f tr) (\<lambda>(s, tr).
     res_bind (translate_functions fs tr) (\<lambda>(ss, tr). Inr (s # ss, tr)))"

definition translate_code_parts ::
  "hull_function list \<Rightarrow> stmt list \<Rightarrow> translator \<Rightarrow> (yul_code \<times> translator) tr_res" where
  "translate_code_parts functions stmts tr =
     (let saved_vars = tr_vars tr; saved_functions = user_functions tr
      in res_bind (translate_functions functions
              (tr\<lparr>tr_vars := [Map.empty], user_functions := set (map fn_name functions)\<rparr>))
           (\<lambda>(out, tr).
         res_bind (gen_stmts stmts tr) (\<lambda>(body, tr).
         Inr (\<lparr>code_stmts = out @ body\<rparr>,
              tr\<lparr>tr_vars := saved_vars, user_functions := saved_functions\<rparr>))))"

definition translate_code_block :: "code_block \<Rightarrow> translator \<Rightarrow> (yul_code \<times> translator) tr_res" where
  "translate_code_block code tr = translate_code_parts (cb_functions code) (cb_stmts code) tr"

fun translate_object :: "hull_object \<Rightarrow> translator \<Rightarrow> (yul_object \<times> translator) tr_res"
  and translate_objects :: "hull_object list \<Rightarrow> translator \<Rightarrow> (yul_object list \<times> translator) tr_res" where
  "translate_object (Object sp n code inners) tr =
     res_bind (translate_code_block code tr) (\<lambda>(code, tr).
     res_bind (translate_objects inners tr) (\<lambda>(inners, tr).
     Inr (YObject n code (map InnerObject inners), tr)))"
| "translate_objects [] tr = Inr ([], tr)"
| "translate_objects (ob # obs) tr =
     res_bind (translate_object ob tr) (\<lambda>(y, tr).
     res_bind (translate_objects obs tr) (\<lambda>(ys, tr). Inr (y # ys, tr)))"

definition main_result_return_block :: "yul_stmt list" where
  "main_result_return_block =
     [YBlock
       [YExpr (y_call ''mstore'' [y_number ''0'', y_ident ''_mainresult'']),
        YExpr (y_call ''return'' [y_number ''0'', y_number ''32''])]]"

text \<open>The statements that call the entry point and return its word, which two methods append.\<close>

definition entry_call :: "name \<Rightarrow> yul_stmt list" where
  "entry_call entry =
     YLet [''_mainresult''] (Some (y_call (yul_fun_name entry) [])) # main_result_return_block"

definition translate_program :: "program \<Rightarrow> translator \<Rightarrow> (yul_program \<times> translator) tr_res" where
  "translate_program p tr =
     (if prog_objects p = []
      then case entry_points p of
             [entry] \<Rightarrow>
               (case find (\<lambda>f. fn_name f = entry) (prog_functions p) of
                  None \<Rightarrow> Inl (EntryWithoutBody entry)
                | Some f \<Rightarrow>
                    if fn_args f \<noteq> [] then Inl (EntryTakesArguments entry)
                    else res_bind (size_of_ty (fn_ret f)) (\<lambda>n.
                         if n \<noteq> 1 then Inl (EntryNotOneWord entry)
                         else res_bind (translate_code_parts (prog_functions p) [] tr) (\<lambda>(code, tr).
                              Inr (single_object
                                     (YObject ''OutputDeploy'' \<lparr>code_stmts = []\<rparr>
                                        [InnerObject (YObject ''Output''
                                           \<lparr>code_stmts = code_stmts code @ entry_call entry\<rparr> [])]),
                                   tr))))
           | entries \<Rightarrow> Inl (EntryCount (length entries))
      else res_bind (translate_objects (prog_objects p) tr) (\<lambda>(objects, tr).
           Inr (\<lparr>yprog_objects = objects\<rparr>, tr)))"

definition translate_hull_program :: "hir_db \<Rightarrow> program \<Rightarrow> yul_program tr_res" where
  "translate_hull_program db p =
     res_bind (translate_program p (new_translator db)) (\<lambda>(program, _). Inr program)"

end
