(* ===== verification/Yul_Conforms.thy ===== *)
theory Yul_Conforms
  imports Yul_Lower
begin

text \<open>
  The shape of a value and the location that holds it. \<open>conforms s loc\<close> says that \<open>loc\<close> has the
  words of a value of shape \<open>s\<close>, with the two halves of a product addressable. Allocation,
  padding, injection, pattern payloads and reshaping all establish it.
\<close>

section \<open>Scopes of the translator\<close>

definition tr_ok :: "translator \<Rightarrow> bool" where
  "tr_ok tr \<longleftrightarrow> tr_vars tr \<noteq> []"

lemmas tr_scope_defs = push_env_def pop_env_def tr_insert_var_def lookup_var_opt_def tr_ok_def

interpretation tr_scopes: lexical_scopes push_env pop_env tr_insert_var lookup_var_opt tr_ok
proof unfold_locales
  fix s :: translator and k v
  assume ok: "tr_ok s"
  show "tr_ok (push_env s)" by (simp add: tr_scope_defs vec_push_def)
  show "tr_ok (tr_insert_var k v s)" "pop_env (tr_insert_var k v s) = pop_env s"
    using ok by (simp_all add: tr_scope_defs scope_simps vec_pop_def)
  show "pop_env (push_env s) = s" by (simp add: tr_scope_defs)
  show "lookup_var_opt (push_env s) = lookup_var_opt s"
    by (rule ext) (simp add: tr_scope_defs scope_simps)
  show "lookup_var_opt (tr_insert_var k v s) = (lookup_var_opt s)(k \<mapsto> v)"
    using ok by (intro ext) (simp add: tr_scope_defs scope_simps)
qed

section \<open>Conformance\<close>

text \<open>Padding of several words is only ever part of a larger location.\<close>

fun solid :: "location \<Rightarrow> bool" where
  "solid (LEmpty n) \<longleftrightarrow> n \<le> 1"
| "solid _ \<longleftrightarrow> True"

fun conforms :: "shape \<Rightarrow> location \<Rightarrow> bool" where
  "conforms (ShProduct a b) loc =
     (case loc of LSeq [l, r] \<Rightarrow> conforms a l \<and> conforms b r | _ \<Rightarrow> False)"
| "conforms s loc = (size_of_loc loc = shape_slots s \<and> solid loc)"

lemma conforms_product:
  "conforms (ShProduct a b) loc \<longleftrightarrow> (\<exists>l r. loc = LSeq [l, r] \<and> conforms a l \<and> conforms b r)"
  by (auto split: location.splits list.splits)

lemma conforms_size: "conforms s loc \<Longrightarrow> size_of_loc loc = shape_slots s"
proof (induction s arbitrary: loc)
  case (ShProduct a b)
  then show ?case by (fastforce simp: conforms_product simp del: conforms.simps(1))
qed simp_all

lemma conforms_no_product:
  assumes "\<And>a b. s \<noteq> ShProduct a b"
  shows "conforms s loc \<longleftrightarrow> size_of_loc loc = shape_slots s \<and> solid loc"
proof (cases s)
  case (ShProduct a b)
  with assms show ?thesis by blast
qed simp_all

declare conforms.simps(1) [simp del]

lemma pair_locs_conforms:
  assumes "conforms (ShProduct a b) loc"
  obtains l r where "pair_locs loc = Inr (l, r)" "conforms a l" "conforms b r"
  using assms by (auto simp: conforms_product)

section \<open>Allocation\<close>

lemma fresh_stack_locs_eq:
  "fresh_stack_locs n tr = (map LStack [counter tr..<counter tr + n], tr\<lparr>counter := counter tr + n\<rparr>)"
proof (induction n arbitrary: tr)
  case 0
  then show ?case by simp
next
  case (Suc n)
  have "[counter tr..<counter tr + Suc n] = counter tr # [Suc (counter tr)..<Suc (counter tr) + n]"
    by (metis add_Suc add_Suc_right less_add_Suc1 upt_conv_Cons)
  with Suc show ?case by (simp add: fresh_stack_loc_def)
qed

lemma build_loc_simps:
  "build_loc (Ty sp TyWord) tr = Inr (fresh_stack_loc tr)"
  "build_loc (Ty sp TyBool) tr = Inr (fresh_stack_loc tr)"
  "build_loc (Ty sp (TyNamedRef n)) tr = Inr (fresh_stack_loc tr)"
  "build_loc (Ty sp (TyFunction ps r)) tr = Inr (fresh_stack_loc tr)"
  "build_loc (Ty sp TyUnit) tr = Inr (LSeq [], tr)"
  "build_loc (Ty sp (TyProduct lhs rhs)) tr =
     res_bind (build_loc lhs tr) (\<lambda>(l, tr). res_bind (build_loc rhs tr) (\<lambda>(r, tr). Inr (LSeq [l, r], tr)))"
  "build_loc (Ty sp (TyNamed n t)) tr = build_loc t tr"
proof -
  show "build_loc (Ty sp (TyNamed n t)) tr = build_loc t tr"
    by (subst (1 2) build_loc.simps) (simp cong: ty_kind.case_cong)
qed (subst build_loc.simps, simp)+

text \<open>\<open>build_loc\<close> hands out consecutive stack slots, as many as the type has words.\<close>

lemma build_loc_ok:
  "\<exists>loc. build_loc t tr = Inr (loc, tr\<lparr>counter := counter tr + shape_slots (erase t)\<rparr>)
     \<and> conforms (erase t) loc \<and> is_place loc
     \<and> stack_slots loc = [counter tr..<counter tr + shape_slots (erase t)]"
proof (induction t arbitrary: tr rule: erase.induct)
  case (4 sp lhs rhs)
  obtain l where l: "build_loc lhs tr = Inr (l, tr\<lparr>counter := counter tr + shape_slots (erase lhs)\<rparr>)"
    "conforms (erase lhs) l" "is_place l"
    "stack_slots l = [counter tr..<counter tr + shape_slots (erase lhs)]"
    using 4(1)[of tr] by blast
  obtain r where r: "build_loc rhs (tr\<lparr>counter := counter tr + shape_slots (erase lhs)\<rparr>) =
      Inr (r, tr\<lparr>counter := counter tr + shape_slots (erase lhs) + shape_slots (erase rhs)\<rparr>)"
    "conforms (erase rhs) r" "is_place r"
    "stack_slots r = [counter tr + shape_slots (erase lhs)..<
        counter tr + shape_slots (erase lhs) + shape_slots (erase rhs)]"
    using 4(2)[of "tr\<lparr>counter := counter tr + shape_slots (erase lhs)\<rparr>"] by auto
  have "stack_slots (LSeq [l, r]) =
      [counter tr..<counter tr + (shape_slots (erase lhs) + shape_slots (erase rhs))]"
    by (simp only: stack_slots.simps list.map concat.simps l(4) r(4) append_Nil2)
       (metis add.assoc le_add1 upt_add_eq_append)
  moreover have "build_loc (Ty sp (TyProduct lhs rhs)) tr = Inr (LSeq [l, r],
      tr\<lparr>counter := counter tr + (shape_slots (erase lhs) + shape_slots (erase rhs))\<rparr>)"
    using l(1) r(1) by (simp add: build_loc_simps add.assoc)
  ultimately show ?case using l(2,3) r(2,3) by (simp add: conforms_product)
next
  case (5 sp lhs rhs)
  have "size_of_ty (Ty sp (TySum lhs rhs)) = Inr (shape_slots (erase (Ty sp (TySum lhs rhs))))"
    by (rule size_of_ty_shape)
  then show ?case
    by (subst build_loc.simps)
       (auto simp: fresh_stack_locs_eq comp_def list_all_iff sum_list_triv simp del: upt_Suc)
qed (auto simp: build_loc_simps fresh_stack_loc_def)

lemma hull_alloc_ok:
  "\<exists>out loc. hull_alloc t tr = Inr (out, loc, tr\<lparr>counter := counter tr + shape_slots (erase t)\<rparr>)
     \<and> conforms (erase t) loc \<and> is_place loc
     \<and> out = map (\<lambda>i. YLet [stack_name i] None) [counter tr..<counter tr + shape_slots (erase t)]"
proof -
  obtain loc where "build_loc t tr = Inr (loc, tr\<lparr>counter := counter tr + shape_slots (erase t)\<rparr>)"
    "conforms (erase t) loc" "is_place loc"
    "stack_slots loc = [counter tr..<counter tr + shape_slots (erase t)]"
    using build_loc_ok[of t tr] by blast
  then show ?thesis by (simp add: hull_alloc_def alloc_loc_def)
qed

section \<open>Injections\<close>

lemma loc_nth_sum_payload_eq: "loc_nth_sum_payload t k = nth_sum_payload t k"
proof -
  have "loc_nth_sum_payload_loop t k = nth_sum_payload_loop t k" for t
    by (induction t k rule: nth_sum_payload_loop.induct)
       (subst loc_nth_sum_payload_loop.simps, subst nth_sum_payload_loop.simps, auto split: ty_kind.split)
  then show ?thesis by (simp add: loc_nth_sum_payload_def nth_sum_payload_def)
qed

lemma lower_in_k_ok:
  assumes "shape_summand (erase t) k = Some s" and "conforms s payload"
  shows "\<exists>loc. lower_in_k_loc t k payload = Inr loc \<and> conforms (erase t) loc"
  using assms
proof (induction t k payload rule: lower_in_k_loc.induct)
  case (1 target index payload)
  show ?case
  proof (cases "\<exists>l r. ty_kind (strip_named target) = TySum l r")
    case True
    then obtain l r where k: "ty_kind (strip_named target) = TySum l r" by blast
    then have e: "erase target = ShSum (erase l) (erase r)" by (rule erase_of_strip_kind)
    show ?thesis
    proof (cases index)
      case 0
      with e 1(3) have "s = erase l" by simp
      with 0 k e 1(4) show ?thesis
        by (subst lower_in_k_loc.simps)
           (auto simp: max_size_shape pad_to_size_size dest: conforms_size)
    next
      case (Suc i)
      with k e 1(1)[OF k] 1(3,4) obtain nested where
        "lower_in_k_loc r i payload = Inr nested" "conforms (erase r) nested" by auto
      with Suc k e show ?thesis
        by (subst lower_in_k_loc.simps)
           (auto simp: max_size_shape pad_to_size_size dest: conforms_size)
    qed
  next
    case False
    then have ns: "\<And>a b. erase target \<noteq> ShSum a b" by (auto simp: erase_kind_sum)
    then have "index = 0 \<and> s = erase target"
      using 1(3) by (cases "erase target"; cases index) auto
    with False 1(4) show ?thesis
      by (subst lower_in_k_loc.simps) (auto split: ty_kind.split)
  qed
qed

section \<open>Reshaping\<close>

lemma flatten_locs_sizes: "list_all (\<lambda>l. size_of_loc l = 1) (flatten_locs loc)"
proof -
  have "x \<in> set (flatten_locs loc) \<Longrightarrow> size_of_loc x = 1" for x
    by (induction loc rule: flatten_locs.induct) auto
  then show ?thesis by (simp add: list_all_iff)
qed

lemma sum_list_ones: "list_all (\<lambda>l. f l = (1::nat)) ls \<Longrightarrow> sum_list (map f ls) = length ls"
  by (induction ls) auto

lemma reshape_leaf:
  assumes "list_all (\<lambda>l. size_of_loc l = 1) slots" and "n \<le> length slots"
  shows "size_of_loc (case take n slots of [one] \<Rightarrow> one | here \<Rightarrow> LSeq here) = n"
proof -
  have "list_all (\<lambda>l. size_of_loc l = 1) (take n slots)"
    using assms(1) by (auto simp: list_all_iff dest: in_set_takeD)
  then have "sum_list (map size_of_loc (take n slots)) = n" using assms(2) by (simp add: sum_list_ones)
  then show ?thesis by (auto split: list.split)
qed

lemma reshape_solid:
  assumes "list_all (\<lambda>l. size_of_loc l = 1) slots"
  shows "solid (case take n slots of [one] \<Rightarrow> one | here \<Rightarrow> LSeq here)"
proof -
  have "solid l" if "l \<in> set (take n slots)" for l
  proof -
    have "size_of_loc l = 1" using assms in_set_takeD[OF that] by (simp add: list_all_iff)
    then show ?thesis by (cases l) simp_all
  qed
  then show ?thesis by (auto split: list.split)
qed

lemma reshape_go_ok:
  assumes "list_all (\<lambda>l. size_of_loc l = 1) slots" and "shape_slots (erase t) \<le> length slots"
  shows "\<exists>loc. reshape_go t slots = Inr (loc, shape_slots (erase t)) \<and> conforms (erase t) loc"
  using assms
proof (induction t slots rule: reshape_go.induct)
  case (1 t slots)
  show ?case
  proof (cases "\<exists>l r. ty_kind (strip_named t) = TyProduct l r")
    case True
    then obtain l r where k: "ty_kind (strip_named t) = TyProduct l r" by blast
    then have e: "erase t = ShProduct (erase l) (erase r)" by (rule erase_of_strip_kind)
    obtain ll where ll: "reshape_go l slots = Inr (ll, shape_slots (erase l))" "conforms (erase l) ll"
      using 1(1)[OF k] 1(4,5) e by auto
    have "list_all (\<lambda>l. size_of_loc l = 1) (drop (shape_slots (erase l)) slots)"
      using 1(4) by (auto simp: list_all_iff dest: in_set_dropD)
    then obtain rl where "reshape_go r (drop (shape_slots (erase l)) slots) = Inr (rl, shape_slots (erase r))"
      "conforms (erase r) rl"
      using 1(2)[OF k ll(1) refl] 1(5) e by (auto simp: le_diff_conv2)
    with k e ll 1(5) show ?thesis by (subst reshape_go.simps) (auto simp: conforms_product)
  next
    case False
    then have np: "\<And>a b. erase t \<noteq> ShProduct a b" by (auto simp: erase_kind_product)
    show ?thesis
    proof (cases "ty_kind (strip_named t) = TyUnit")
      case True
      then have "erase t = ShUnit" by (simp add: erase_kind)
      with True show ?thesis by (subst reshape_go.simps) simp
    next
      case nu: False
      have "reshape_go t slots =
          Inr (case take (shape_slots (erase t)) slots of [one] \<Rightarrow> one | here \<Rightarrow> LSeq here, shape_slots (erase t))"
        using False nu by (subst reshape_go.simps) (auto simp: size_of_ty_shape split: ty_kind.split)
      with reshape_leaf[OF 1(4,5)] reshape_solid[OF 1(4)] np show ?thesis by (simp add: conforms_no_product)
    qed
  qed
qed

lemma reshape_loc_ok:
  assumes "shape_slots (erase t) \<le> size_of_loc loc"
  shows "\<exists>loc'. reshape_loc t loc = Inr loc' \<and> conforms (erase t) loc'"
  using reshape_go_ok[OF flatten_locs_sizes, of t loc] assms
  by (auto simp: reshape_loc_def flatten_locs_length)

text \<open>The payload bound by an \<open>inl\<close> or \<open>inr\<close> pattern conforms to its side of the sum.\<close>

lemma con_payload_ok:
  assumes "ty_kind (strip_named target) = TySum l r"
    and "size_of_loc payload = max (shape_slots (erase l)) (shape_slots (erase r))"
  shows "\<exists>loc. con_payload target Inl_con payload = Inr loc \<and> conforms (erase l) loc"
    and "\<exists>loc. con_payload target Inr_con payload = Inr loc \<and> conforms (erase r) loc"
  using assms reshape_loc_ok[of l payload] reshape_loc_ok[of r payload]
  by (simp_all add: con_payload.simps)

end
