(* ===== verification/Yul_Functions.thy ===== *)
theory Yul_Functions
  imports Yul_Conforms Yul_Asm_Frame
begin

text \<open>
  Signatures of generated Yul functions. A translated function has one Yul parameter per word of
  its Hull parameters and one Yul result per word of its Hull result, all of them legal and
  pairwise distinct names, and translating it leaves the scopes of the caller alone.
\<close>

section \<open>Stack slots as names\<close>

fun stack_only :: "location \<Rightarrow> bool" where
  "stack_only (LStack _) = True"
| "stack_only (LSeq locs) = list_all stack_only locs"
| "stack_only _ = False"

lemma flatten_lhs_stack: "stack_only loc \<Longrightarrow> flatten_lhs loc = Inr (map stack_name (stack_slots loc))"
proof (induction loc rule: flatten_lhs.induct)
  case (3 locs)
  then have "\<And>l. l \<in> set locs \<Longrightarrow> flatten_lhs l = Inr (map stack_name (stack_slots l))"
    by (simp add: list_all_iff)
  then have "res_all flatten_lhs locs = Inr (map (\<lambda>l. map stack_name (stack_slots l)) locs)"
    by (induction locs) simp_all
  then show ?case by (simp add: map_concat comp_def)
qed simp_all

lemma build_loc_stack: "build_loc t tr = Inr (loc, tr') \<Longrightarrow> stack_only loc"
proof (induction t arbitrary: tr loc tr' rule: erase.induct)
  case (4 sp lhs rhs)
  then show ?case by (auto simp: build_loc_simps res_elims)
next
  case (5 sp lhs rhs)
  then show ?case
    by (subst (asm) build_loc.simps) (auto simp: size_of_ty_shape fresh_stack_locs_eq list_all_iff)
qed (auto simp: build_loc_simps fresh_stack_loc_def)

lemma build_loc_names:
  assumes "build_loc t tr = Inr (loc, tr')"
  shows "tr' = tr\<lparr>counter := counter tr + return_count t\<rparr>"
    and "flatten_lhs loc = Inr (map stack_name [counter tr..<counter tr + return_count t])"
  using build_loc_ok[of t tr] assms flatten_lhs_stack[OF build_loc_stack[OF assms]]
  by (auto simp: checker_slots.slots_shape)

lemma stack_name_inj: "stack_name i = stack_name j \<longleftrightarrow> i = j"
  by (simp add: stack_name_def show_nat_inj)

lemma stack_name_legal: "legal_name (stack_name i)"
proof -
  have "list_all (\<lambda>n. n = [] \<or> hd n \<noteq> CHR ''_'') (yul_keywords @ yul_builtin_names)" by code_simp
  then have "\<not> is_forbidden_yul_identifier (stack_name i)"
    by (auto simp: is_forbidden_yul_identifier_def is_yul_builtin_def stack_name_def list_all_iff)
  moreover have "is_valid_yul_identifier (stack_name i)"
    using show_nat_digits by (auto simp: stack_name_def list_all_iff ident_char_def is_ascii_alphanumeric_def
        is_ascii_alphabetic_def ch_code_def)
  ultimately show ?thesis by (simp add: legal_name_def)
qed

section \<open>Parameters and results\<close>

text \<open>Where a declared name comes from: the supply of fresh names or the stack counter, and which
  part of either was consumed between two states.\<close>

definition consumed :: "translator \<Rightarrow> translator \<Rightarrow> name \<Rightarrow> bool" where
  "consumed tr tr' n \<longleftrightarrow>
     n |\<in>| used_yul_names tr' \<and> n |\<notin>| used_yul_names tr \<and> n \<notin> range stack_name \<and> legal_name n
     \<or> (\<exists>i. n = stack_name i \<and> counter tr \<le> i \<and> i < counter tr')"

definition advances :: "translator \<Rightarrow> translator \<Rightarrow> bool" where
  "advances tr tr' \<longleftrightarrow> counter tr \<le> counter tr' \<and> used_yul_names tr |\<subseteq>| used_yul_names tr'
     \<and> user_functions tr' = user_functions tr \<and> tr_db tr' = tr_db tr"

text \<open>The names declared between two states, the unit of the induction over parameters.\<close>

definition declares :: "translator \<Rightarrow> name list \<Rightarrow> translator \<Rightarrow> bool" where
  "declares tr ns tr' \<longleftrightarrow> advances tr tr' \<and> distinct ns \<and> (\<forall>n\<in>set ns. consumed tr tr' n)"

lemma consumed_legal: "consumed tr tr' n \<Longrightarrow> legal_name n"
  by (auto simp: consumed_def stack_name_legal)

lemma consumed_disjoint:
  "consumed a b n \<Longrightarrow> consumed b c n \<Longrightarrow> False"
  by (auto simp: consumed_def stack_name_inj)

lemma consumed_mono:
  "advances a b \<Longrightarrow> consumed b c n \<Longrightarrow> consumed a c n"
  "advances b c \<Longrightarrow> consumed a b n \<Longrightarrow> consumed a c n"
  by (auto simp: consumed_def advances_def)

lemma advances_trans: "advances a b \<Longrightarrow> advances b c \<Longrightarrow> advances a c"
  by (auto simp: advances_def)

lemma declares_append:
  assumes "declares a ns b" and "declares b ms c"
  shows "declares a (ns @ ms) c"
proof -
  have adv: "advances a b" "advances b c" and ns: "distinct ns" "\<And>n. n \<in> set ns \<Longrightarrow> consumed a b n"
    and ms: "distinct ms" "\<And>n. n \<in> set ms \<Longrightarrow> consumed b c n"
    using assms by (simp_all add: declares_def)
  have "set ns \<inter> set ms = {}" using ns(2) ms(2) consumed_disjoint by blast
  moreover have "consumed a c n" if "n \<in> set (ns @ ms)" for n
    using that ns(2) ms(2) consumed_mono[OF adv(1)] consumed_mono(2)[OF adv(2)] by auto
  ultimately show ?thesis using ns(1) ms(1) advances_trans[OF adv] by (simp add: declares_def)
qed

lemma declares_Nil: "declares tr [] tr"
  by (simp add: declares_def advances_def)

lemma declares_vars:
  "declares (tr\<lparr>tr_vars := v\<rparr>) ns tr' = declares tr ns tr'"
  "declares tr ns (tr'\<lparr>tr_vars := v\<rparr>) = declares tr ns tr'"
  by (simp_all add: declares_def advances_def consumed_def)

lemma declares_insert: "declares (tr_insert_var x loc tr) ns tr' = declares tr ns tr'"
  "declares tr ns (tr_insert_var x loc tr') = declares tr ns tr'"
  by (simp_all add: tr_insert_var_def declares_vars split: option.split)

lemma fresh_yul_name_declares:
  assumes "p \<in> {''src'', ''asm'', ''gen''}" and "fresh_yul_name p s tr = (n, tr')"
  shows "declares tr [n] tr'"
  using assms(2)
proof (rule fresh_yul_name_props)
  fix k
  assume n: "n = candidate_name p (yul_ident_fragment s) k" "n |\<notin>| used_yul_names tr"
    and tr': "tr' = tr\<lparr>name_counter := k + 1, used_yul_names := finsert n (used_yul_names tr)\<rparr>"
  have "is_valid_yul_identifier p" using assms(1) prefixes_valid by blast
  then have "legal_name n"
    using n(1) by (simp add: legal_name_def candidate_valid candidate_not_forbidden yul_ident_fragment_chars)
  moreover have "n \<notin> range stack_name" using n(1) assms(1) candidate_heads(1) by auto
  ultimately show ?thesis using n(2) tr' by (auto simp: declares_def advances_def consumed_def)
qed

lemma build_loc_declares:
  assumes "build_loc t tr = Inr (loc, tr')" and "flatten_lhs loc = Inr ns"
  shows "declares tr ns tr'" and "length ns = return_count t"
  using build_loc_names[OF assms(1)] assms(2)
  by (auto simp: declares_def advances_def consumed_def distinct_map inj_on_def stack_name_inj)

lemma gen_params_declares:
  "gen_params as tr = Inr (ns, tr') \<Longrightarrow>
     declares tr ns tr' \<and> length ns = sum_list (map (\<lambda>a. return_count (arg_ty a)) as)"
proof (induction as arbitrary: tr ns)
  case Nil
  then show ?case by (simp add: declares_Nil)
next
  case (Cons a as)
  show ?case
  proof (cases "tr_is_word_type (arg_ty a)")
    case True
    then have one: "return_count (arg_ty a) = 1"
      by (simp add: tr_is_word_type_def erase_kind checker_slots.slots_shape)
    obtain n tr1 where f: "fresh_source_name (arg_name a) tr = (n, tr1)" by (metis surj_pair)
    then have d: "declares tr [n] tr1"
      unfolding fresh_source_name_def by (rule fresh_yul_name_declares[rotated]) simp
    obtain ms where "gen_params as (tr_insert_var (arg_name a) (LNamed n) tr1) = Inr (ms, tr')" "ns = n # ms"
      using Cons.prems True f by (auto simp: res_elims)
    with Cons.IH[of "tr_insert_var (arg_name a) (LNamed n) tr1" ms] declares_append[OF d, of ms tr'] one
    show ?thesis by (simp add: declares_insert)
  next
    case False
    then obtain loc tr1 names ms where b: "build_loc (arg_ty a) tr = Inr (loc, tr1)" "flatten_lhs loc = Inr names"
      and r: "gen_params as (tr_insert_var (arg_name a) loc tr1) = Inr (ms, tr')" "ns = names @ ms"
      using Cons.prems by (auto simp: res_elims)
    from Cons.IH[OF r(1)] build_loc_declares[OF b] r(2) show ?thesis
      by (auto simp: declares_insert intro: declares_append)
  qed
qed

lemma gen_returns_declares:
  "gen_returns ret tr = Inr (ns, tr') \<Longrightarrow> declares tr ns tr' \<and> length ns = return_count ret"
proof -
  assume g: "gen_returns ret tr = Inr (ns, tr')"
  consider (unit) "ty_kind (strip_named ret) = TyUnit" | (word) "ty_kind (strip_named ret) = TyWord"
    | (other) "ty_kind (strip_named ret) \<noteq> TyUnit" "ty_kind (strip_named ret) \<noteq> TyWord" by blast
  then show ?thesis
  proof cases
    case unit
    with g show ?thesis
      by (simp add: gen_returns_def declares_Nil erase_kind checker_slots.slots_shape)
  next
    case word
    obtain n tr1 where f: "fresh_internal_name ''result'' tr = (n, tr1)" by (metis surj_pair)
    then have "declares tr [n] tr1"
      unfolding fresh_internal_name_def by (rule fresh_yul_name_declares[rotated]) simp
    with g f word show ?thesis
      by (auto simp: gen_returns_def declares_insert erase_kind checker_slots.slots_shape)
  next
    case other
    then have "gen_returns ret tr = (if zero_sized_type ret then Inr ([], tr)
        else res_bind (build_loc ret tr) (\<lambda>(loc, tr).
             res_bind (flatten_lhs loc) (\<lambda>returns. Inr (returns, tr_insert_var ''_result'' loc tr))))"
      by (simp add: gen_returns_def split: ty_kind.split)
    with g show ?thesis
      by (auto simp: declares_Nil declares_insert zero_sized_type_shape checker_slots.slots_shape res_elims
          dest: build_loc_declares split: if_splits)
  qed
qed

text \<open>C19. A translated function has one Yul parameter per word of its Hull parameters and one Yul
  result per word of its result type; all these names are legal and distinct, and the scopes of
  the enclosing code are restored.\<close>

theorem translate_function_signature:
  assumes "translate_function f tr = Inr (s, tr')"
  shows "\<exists>params returns body. s = YFunction (yul_fun_name (fn_name f)) params returns body
    \<and> length params = sum_list (map (\<lambda>a. return_count (arg_ty a)) (fn_args f))
    \<and> length returns = return_count (fn_ret f)
    \<and> distinct (params @ returns) \<and> list_all legal_name (params @ returns)
    \<and> tr_vars tr' = tr_vars tr"
proof -
  obtain params tr1 returns tr2 body tr3 where
    p: "gen_params (fn_args f) (tr\<lparr>tr_vars := [Map.empty]\<rparr>) = Inr (params, tr1)"
    and r: "gen_returns (fn_ret f) tr1 = Inr (returns, tr2)"
    and s: "s = YFunction (yul_fun_name (fn_name f)) params returns body"
      "tr' = tr3\<lparr>tr_vars := tr_vars tr\<rparr>"
    using assms by (auto simp: translate_function_def Let_def res_elims)
  have "declares (tr\<lparr>tr_vars := [Map.empty]\<rparr>) (params @ returns) tr2"
    using gen_params_declares[OF p] gen_returns_declares[OF r] by (blast intro: declares_append)
  then have "distinct (params @ returns)" "list_all legal_name (params @ returns)"
    by (auto simp: declares_def list_all_iff dest: consumed_legal)
  then show ?thesis using s gen_params_declares[OF p] gen_returns_declares[OF r] by auto
qed

theorem translate_function_signature_witness:
  "distinct [''_v0'', ''_v1'', ''_v2''] \<and> list_all legal_name [''_v0'', ''_v1'', ''_v2'']"
proof -
  let ?sp = "\<lparr>anchor = 0, sp_begin = 0, sp_end = 0\<rparr>"
  let ?bool = "Ty ?sp TyBool" and ?tr = "new_translator (\<lambda>_. [])"
  let ?f = "\<lparr>fn_span = ?sp, fn_name = ''f'',
      fn_args = [\<lparr>arg_span = ?sp, arg_name = ''p'', arg_ty = Ty ?sp (TyProduct ?bool ?bool)\<rparr>],
      fn_ret = ?bool, fn_body = []\<rparr>"
  have n: "show_nat 0 = ''0''" "show_nat 1 = ''1''" "show_nat 2 = ''2''" by code_simp+
  obtain tr' where "translate_function ?f ?tr = Inr (YFunction ''usr$f'' [''_v0'', ''_v1''] [''_v2''] [], tr')"
    by (simp add: translate_function_def gen_returns_def tr_is_word_type_def zero_sized_type_def
        build_loc_simps fresh_stack_loc_def new_translator_def stack_name_def yul_fun_name_def n
        tr_insert_var_def scopes_insert_def
        flip: One_nat_def numeral_2_eq_2)
  from translate_function_signature[OF this] show ?thesis by simp
qed

end
