(* ===== verification/Yul_Pretty_Props.thy ===== *)
theory Yul_Pretty_Props
  imports Yul_Pretty Yul_Lower
begin

text \<open>
  Correctness of the printer's leaves: the bytes that a printed string literal denotes, comments
  that cannot end early, and numeric literals. \<open>yul_bytes\<close> is the reference: the bytes that Yul
  reads from the inside of a string literal, by its documented escapes.
\<close>

section \<open>What a Yul string literal denotes\<close>

definition utf8_char :: "char \<Rightarrow> nat list" where
  "utf8_char c =
     (let n = ch_code c in if n < 128 then [n] else [192 + n div 64, 128 + n mod 64])"

definition utf8_bytes :: "string \<Rightarrow> nat list" where
  "utf8_bytes s = concat (map utf8_char s)"

lemma utf8_bytes_length: "length (utf8_bytes s) = utf8_len s"
  by (induction s) (simp_all add: utf8_bytes_def utf8_len_def utf8_char_def Let_def)

text \<open>A raw character stands for its UTF-8 encoding, \<open>\x\<close> and two hexadecimal digits for one
  byte; a bare quote or line break ends the literal and is no part of it.\<close>

fun yul_bytes :: "string \<Rightarrow> nat list option" where
  "yul_bytes [] = Some []"
| "yul_bytes (c # cs) =
     (if c = dquote \<or> c = CHR 0x0A \<or> c = CHR 0x0D then None
      else if c \<noteq> backslash then map_option (\<lambda>bs. utf8_char c @ bs) (yul_bytes cs)
      else case cs of
             [] \<Rightarrow> None
           | e # rest \<Rightarrow>
               if e = dquote \<or> e = backslash then map_option (\<lambda>bs. ch_code e # bs) (yul_bytes rest)
               else if e = CHR ''n'' then map_option (\<lambda>bs. 10 # bs) (yul_bytes rest)
               else if e = CHR ''r'' then map_option (\<lambda>bs. 13 # bs) (yul_bytes rest)
               else if e = CHR ''t'' then map_option (\<lambda>bs. 9 # bs) (yul_bytes rest)
               else if e = CHR ''x'' then
                 (case rest of
                    h # l # rest' \<Rightarrow>
                      (case (to_digit 16 h, to_digit 16 l) of
                         (Some a, Some b) \<Rightarrow> map_option (\<lambda>bs. (16 * a + b) # bs) (yul_bytes rest')
                       | _ \<Rightarrow> None)
                  | _ \<Rightarrow> None)
               else None)"

definition printed_bytes :: "char \<Rightarrow> nat list" where
  "printed_bytes c = (if is_control c then [ch_code c] else utf8_char c)"

lemma char_const_codes:
  "ch_code dquote = 34" "ch_code backslash = 92" "ch_code (CHR ''x'') = 120"
  by code_simp+

lemma ch_code_hex_char: "d < 16 \<Longrightarrow> ch_code (hex_char d) = (if d < 10 then 48 + d else 87 + d)"
  by (simp add: ch_code_def hex_char_def)

lemma to_digit_hex_char: "d < 16 \<Longrightarrow> to_digit 16 (hex_char d) = Some d"
  by (simp add: to_digit_def ch_code_hex_char Let_def)

lemma escape_control:
  assumes "is_control c" "c \<noteq> CHR 0x0A" "c \<noteq> CHR 0x0D" "c \<noteq> CHR 0x09"
  shows "escape_char c = [backslash, CHR ''x'', hex_char (ch_code c div 16), hex_char (ch_code c mod 16)]"
  using assms by (auto simp: escape_char_def is_control_def char_const_codes)

lemma yul_bytes_hex:
  assumes "a < 16" and "b < 16"
  shows "yul_bytes (backslash # CHR ''x'' # hex_char a # hex_char b # rest)
    = map_option (\<lambda>bs. (16 * a + b) # bs) (yul_bytes rest)"
  by (simp add: to_digit_hex_char assms dquote_def backslash_def)

lemma yul_bytes_escape_char:
  "yul_bytes (escape_char c @ rest) = map_option (\<lambda>bs. printed_bytes c @ bs) (yul_bytes rest)"
proof (cases "is_control c \<and> c \<noteq> CHR 0x0A \<and> c \<noteq> CHR 0x0D \<and> c \<noteq> CHR 0x09")
  case True
  then have "yul_bytes (escape_char c @ rest) =
      map_option (\<lambda>bs. (16 * (ch_code c div 16) + ch_code c mod 16) # bs) (yul_bytes rest)"
    using yul_bytes_hex[of "ch_code c div 16" "ch_code c mod 16" rest] ch_code_bound[of c]
    by (simp add: escape_control)
  with True show ?thesis by (simp add: printed_bytes_def)
next
  case False
  have codes: "is_control (CHR 0x0A)" "is_control (CHR 0x0D)" "is_control (CHR 0x09)"
    "ch_code (CHR 0x0A) = 10" "ch_code (CHR 0x0D) = 13" "ch_code (CHR 0x09) = 9"
    "\<not> is_control dquote" "\<not> is_control backslash" "dquote \<noteq> backslash"
    "CHR 0x0A \<noteq> dquote" "CHR 0x0A \<noteq> backslash" "CHR 0x0D \<noteq> dquote" "CHR 0x0D \<noteq> backslash"
    "CHR 0x09 \<noteq> dquote" "CHR 0x09 \<noteq> backslash" "CHR ''n'' \<noteq> dquote" "CHR ''n'' \<noteq> backslash"
    "CHR ''r'' \<noteq> dquote" "CHR ''r'' \<noteq> backslash" "CHR ''t'' \<noteq> dquote" "CHR ''t'' \<noteq> backslash"
    "backslash \<noteq> CHR 0x0A" "backslash \<noteq> CHR 0x0D"
    by code_simp+
  consider "c = dquote" | "c = backslash" | "c = CHR 0x0A" | "c = CHR 0x0D" | "c = CHR 0x09"
    | (plain) "\<not> is_control c" "c \<noteq> dquote" "c \<noteq> backslash" using False by blast
  then show ?thesis
  proof cases
    case plain
    then have "c \<noteq> CHR 0x0A" "c \<noteq> CHR 0x0D" "c \<noteq> CHR 0x09" using codes by auto
    with plain show ?thesis by (simp add: escape_char_def printed_bytes_def)
  qed (use codes in \<open>simp_all add: escape_char_def printed_bytes_def utf8_char_def char_const_codes\<close>)
qed

lemma yul_bytes_escape_string: "yul_bytes (escape_string s) = Some (concat (map printed_bytes s))"
  by (induction s) (simp_all add: escape_string_def yul_bytes_escape_char)

text \<open>The C1 controls U+0080 to U+009F are the characters whose single-byte escape is shorter
  than their encoding.\<close>

definition is_c1_control :: "char \<Rightarrow> bool" where
  "is_c1_control c \<longleftrightarrow> 128 \<le> ch_code c \<and> ch_code c < 160"

lemma printed_bytes_eq: "\<not> is_c1_control c \<Longrightarrow> printed_bytes c = utf8_char c"
  by (auto simp: printed_bytes_def is_c1_control_def is_control_def utf8_char_def Let_def)

lemma printed_bytes_length:
  "length (printed_bytes c) + (if is_c1_control c then 1 else 0) = length (utf8_char c)"
  by (auto simp: printed_bytes_def is_c1_control_def is_control_def utf8_char_def Let_def)

lemma printed_length:
  "length (concat (map printed_bytes s)) + length (filter is_c1_control s) = utf8_len s"
proof (induction s)
  case Nil
  then show ?case by (simp add: utf8_len_def)
next
  case (Cons c s)
  have "utf8_len (c # s) = length (utf8_char c) + utf8_len s"
    by (simp add: utf8_len_def utf8_char_def Let_def)
  with Cons printed_bytes_length[of c] show ?case by (auto split: if_splits)
qed

section \<open>Properties\<close>

text \<open>C38. A printed string literal denotes the UTF-8 bytes of its value exactly when the value has
  no character from U+0080 to U+009F: those are escaped as one byte although their encoding has two,
  and the literal then also disagrees with the byte length that \<open>revert\<close> statements pass.\<close>

theorem escape_string_denotes_iff:
  "(yul_bytes (escape_string s) = Some (utf8_bytes s)) = (\<not> list_ex is_c1_control s)
   \<and> (map_option length (yul_bytes (escape_string s)) = Some (utf8_len s)) = (\<not> list_ex is_c1_control s)"
proof -
  have plain: "concat (map printed_bytes s) = utf8_bytes s" if "\<not> list_ex is_c1_control s"
    using that by (induction s) (simp_all add: utf8_bytes_def printed_bytes_eq)
  have "length (concat (map printed_bytes s)) \<noteq> utf8_len s" if "list_ex is_c1_control s"
  proof -
    have "filter is_c1_control s \<noteq> []" using that by (induction s) auto
    then show ?thesis using printed_length[of s] by (cases "filter is_c1_control s") auto
  qed
  then show ?thesis using plain utf8_bytes_length[of s]
    by (cases "list_ex is_c1_control s") (auto simp: yul_bytes_escape_string)
qed

fun contains_close :: "string \<Rightarrow> bool" where
  "contains_close (c # d # cs) = (c = CHR ''*'' \<and> d = CHR ''/'' \<or> contains_close (d # cs))"
| "contains_close _ = False"

lemma contains_close_append: "contains_close (a @ CHR ''*'' # CHR ''/'' # b)"
proof (induction a)
  case (Cons c a)
  then show ?case by (cases a) simp_all
qed simp

lemma contains_close_head: "hd cs \<noteq> CHR ''/'' \<Longrightarrow> contains_close (c # cs) \<longleftrightarrow> contains_close cs"
  by (cases cs) simp_all

lemma break_comment_end_head: "cs \<noteq> [] \<Longrightarrow> hd (break_comment_end cs) = hd cs"
  by (cases cs rule: break_comment_end.cases) simp_all

lemma contains_close_break: "\<not> contains_close (break_comment_end cs)"
proof (induction cs rule: break_comment_end.induct)
  case (1 a b cs)
  show ?case
  proof (cases "a = CHR ''*'' \<and> b = CHR ''/''")
    case True
    then have "\<not> contains_close (break_comment_end cs)" by (rule 1(1))
    then have "\<not> contains_close (CHR ''/'' # break_comment_end cs)"
      by (cases "break_comment_end cs") simp_all
    with True show ?thesis by simp
  next
    case False
    then have "\<not> contains_close (break_comment_end (b # cs))" by (rule 1(2))
    moreover have "hd (break_comment_end (b # cs)) = b" by (simp add: break_comment_end_head)
    ultimately have "\<not> contains_close (a # break_comment_end (b # cs))"
      using False by (cases "break_comment_end (b # cs)") auto
    moreover have "break_comment_end (a # b # cs) = a # break_comment_end (b # cs)"
      using False by (simp only: break_comment_end.simps if_False)
    ultimately show ?thesis by simp
  qed
qed simp_all

text \<open>The text of a printed comment never contains the two characters that would close it.\<close>

theorem comment_not_closed: "\<nexists>a b. break_comment_end cs = a @ ''*/'' @ b"
  using contains_close_append contains_close_break[of cs] by fastforce

text \<open>The printer and the translator agree on the canonical spelling of numeric literals: a
  well-formed literal is printed as the translator would rewrite it, and anything else verbatim.\<close>

theorem printed_number_is_canonical:
  "canonical_numeric_for_print s = (case canonical_numeric_lit s of Inr r \<Rightarrow> r | Inl _ \<Rightarrow> s)
   \<and> canonical_hex_for_print s = (case canonical_hex_lit s of Inr r \<Rightarrow> r | Inl _ \<Rightarrow> s)"
  by (simp add: canonical_numeric_for_print_def canonical_numeric_lit_def canonical_hex_for_print_def
      canonical_hex_lit_def canonical_decimal_for_print_def canonical_decimal_lit_def Let_def
      split: option.split)

end
