(* ===== verification/Yul_Validate.thy ===== *)
theory Yul_Validate
  imports Yul_Pretty Yul_Lower
begin

text \<open>
  The structural validator that runs before printing (\<open>crates/yul/src/translate/validate.rs\<close>), the
  selection of the top-level object, and the three rendering entry points of
  \<open>translate/lower.rs\<close>.
\<close>

section \<open>Names and literals\<close>

definition validate_decl_name :: "name \<Rightarrow> unit tr_res" where
  "validate_decl_name n =
     (if \<not> is_valid_yul_identifier n then Inl (InvalidIdentifier n)
      else if is_forbidden_yul_identifier n then Inl (ReservedIdentifier n)
      else Inr ())"

definition validate_call_name :: "name \<Rightarrow> unit tr_res" where
  "validate_call_name n =
     (if is_valid_yul_identifier n then Inr () else Inl (InvalidFunctionName n))"

fun validate_lit :: "yul_literal \<Rightarrow> unit tr_res" where
  "validate_lit (YNumber v) = res_bind (canonical_numeric_lit v) (\<lambda>_. Inr ())"
| "validate_lit (YHex v) = res_bind (canonical_hex_lit v) (\<lambda>_. Inr ())"
| "validate_lit (YString _) = Inr ()"
| "validate_lit (YBool _) = Inr ()"

text \<open>A loop that validates one item after the other and stops at the first error.\<close>

fun validate_each :: "('a \<Rightarrow> unit tr_res) \<Rightarrow> 'a list \<Rightarrow> unit tr_res" where
  "validate_each f [] = Inr ()"
| "validate_each f (x # xs) = res_bind (f x) (\<lambda>_. validate_each f xs)"

lemma validate_each_cong [fundef_cong]:
  assumes "xs = ys" and "\<And>x. x \<in> set ys \<Longrightarrow> f x = g x"
  shows "validate_each f xs = validate_each g ys"
  using assms by (induction ys arbitrary: xs) auto

lemma validate_each_ok: "validate_each f xs = Inr () \<longleftrightarrow> (\<forall>x\<in>set xs. f x = Inr ())"
  by (induction xs) (auto simp: res_bind_Inr_iff)

fun validate_expr :: "yul_expr \<Rightarrow> unit tr_res" where
  "validate_expr (YCall n args) =
     res_bind (validate_call_name n) (\<lambda>_. validate_each validate_expr args)"
| "validate_expr (YIdent n) = validate_decl_name n"
| "validate_expr (YLit l) = validate_lit l"

section \<open>Control regions\<close>

datatype control_region = Outside | LoopInit | LoopPost | LoopBody

fun validate_break_continue :: "string \<Rightarrow> control_region \<Rightarrow> unit tr_res" where
  "validate_break_continue keyword LoopBody = Inr ()"
| "validate_break_continue keyword LoopInit = Inl (ControlInLoopInit keyword)"
| "validate_break_continue keyword LoopPost = Inl (ControlInLoopPost keyword)"
| "validate_break_continue keyword Outside = Inl (ControlOutsideLoop keyword)"

fun validate_stmt :: "control_region \<Rightarrow> yul_stmt \<Rightarrow> unit tr_res"
  and validate_case :: "control_region \<Rightarrow> yul_case \<Rightarrow> unit tr_res" where
  "validate_stmt region (YBlock stmts) = validate_each (validate_stmt region) stmts"
| "validate_stmt region (YFunction n params returns body) =
     res_bind (validate_decl_name n) (\<lambda>_.
     res_bind (validate_each validate_decl_name (params @ returns)) (\<lambda>_.
     validate_each (validate_stmt Outside) body))"
| "validate_stmt region (YLet names init) =
     res_bind (validate_each validate_decl_name names) (\<lambda>_.
     case init of None \<Rightarrow> Inr () | Some e \<Rightarrow> validate_expr e)"
| "validate_stmt region (YAssign names v) =
     res_bind (validate_each validate_decl_name names) (\<lambda>_. validate_expr v)"
| "validate_stmt region (YIf cond body) =
     res_bind (validate_expr cond) (\<lambda>_. validate_each (validate_stmt region) body)"
| "validate_stmt region (YSwitch e cases dflt) =
     res_bind (validate_expr e) (\<lambda>_.
     res_bind (validate_each (validate_case region) cases) (\<lambda>_.
     case dflt of None \<Rightarrow> Inr () | Some stmts \<Rightarrow> validate_each (validate_stmt region) stmts))"
| "validate_stmt region (YFor init cond post body) =
     res_bind (validate_each (validate_stmt LoopInit) init) (\<lambda>_.
     res_bind (validate_expr cond) (\<lambda>_.
     res_bind (validate_each (validate_stmt LoopPost) post) (\<lambda>_.
     validate_each (validate_stmt LoopBody) body)))"
| "validate_stmt region YBreak = validate_break_continue ''break'' region"
| "validate_stmt region YContinue = validate_break_continue ''continue'' region"
| "validate_stmt region YLeave = Inr ()"
| "validate_stmt region (YComment _) = Inr ()"
| "validate_stmt region (YExpr e) = validate_expr e"
| "validate_case region (YCase lit body) =
     res_bind (validate_lit lit) (\<lambda>_. validate_each (validate_stmt region) body)"

definition validate_stmts :: "yul_stmt list \<Rightarrow> control_region \<Rightarrow> unit tr_res" where
  "validate_stmts stmts region = validate_each (validate_stmt region) stmts"

definition validate_code :: "yul_code \<Rightarrow> unit tr_res" where
  "validate_code code = validate_stmts (code_stmts code) Outside"

fun validate_object :: "yul_object \<Rightarrow> unit tr_res"
  and validate_inner :: "yul_inner \<Rightarrow> unit tr_res" where
  "validate_object (YObject n code inners) =
     res_bind (validate_code code) (\<lambda>_. validate_each validate_inner inners)"
| "validate_inner (InnerObject ob) = validate_object ob"
| "validate_inner (InnerData _) = Inr ()"

section \<open>Rendering\<close>

definition top_level_object_list :: "yul_program \<Rightarrow> string" where
  "top_level_object_list p = join '', '' (map yobj_name (yprog_objects p))"

definition select_strict_object :: "yul_program \<Rightarrow> name option \<Rightarrow> yul_object tr_res" where
  "select_strict_object p object_name =
     (case object_name of
        Some n \<Rightarrow>
          (case find (\<lambda>ob. yobj_name ob = n) (yprog_objects p) of
             Some ob \<Rightarrow> Inr ob
           | None \<Rightarrow> Inl (ObjectNotFound n (top_level_object_list p)))
      | None \<Rightarrow>
          (case yprog_objects p of
             [ob] \<Rightarrow> Inr ob
           | [] \<Rightarrow> Inl NoTopObject
           | _ \<Rightarrow> Inl (ManyTopObjects (length (yprog_objects p)) (top_level_object_list p))))"

definition render_strict_assembly_program :: "yul_program \<Rightarrow> name option \<Rightarrow> string tr_res" where
  "render_strict_assembly_program p object_name =
     res_bind (select_strict_object p object_name) (\<lambda>ob.
     res_bind (validate_object ob) (\<lambda>_. Inr (pretty_object ob)))"

definition render_hull_program_object :: "hir_db \<Rightarrow> program \<Rightarrow> name option \<Rightarrow> string tr_res" where
  "render_hull_program_object db p object_name =
     res_bind (translate_hull_program db p) (\<lambda>y. render_strict_assembly_program y object_name)"

definition render_hull_program :: "hir_db \<Rightarrow> program \<Rightarrow> string tr_res" where
  "render_hull_program db p = render_hull_program_object db p None"

text \<open>The update of the first inner object of the first object; \<open>translated.objects[0]\<close> panics on a
  program without objects.\<close>

fun append_runtime :: "yul_stmt list \<Rightarrow> yul_program \<Rightarrow> yul_program tr_res" where
  "append_runtime extra p =
     (case yprog_objects p of
        [] \<Rightarrow> Inl Panicked
      | YObject n code (InnerObject (YObject rn rcode rinners) # inners) # obs \<Rightarrow>
          Inr (p\<lparr>yprog_objects :=
                 YObject n code
                   (InnerObject (YObject rn \<lparr>code_stmts = code_stmts rcode @ extra\<rparr> rinners) # inners)
                 # obs\<rparr>)
      | _ \<Rightarrow> Inl WrapperNoRuntime)"

definition render_hull_program_returning_runtime_entry ::
  "hir_db \<Rightarrow> program \<Rightarrow> name \<Rightarrow> string tr_res" where
  "render_hull_program_returning_runtime_entry db p entry =
     (case prog_objects p of
        [Object _ obn _ [Object _ rn rcode _]] \<Rightarrow>
          (case find (\<lambda>f. fn_name f = entry) (cb_functions rcode) of
             None \<Rightarrow> Inl (WrapperEntryMissing entry rn)
           | Some f \<Rightarrow>
               (let wrap = res_bind (translate_hull_program db p) (\<lambda>translated.
                      res_bind (append_runtime (entry_call entry) translated) (\<lambda>translated.
                      render_strict_assembly_program translated None))
                in if fn_args f \<noteq> [] then Inl (WrapperEntryShape entry)
                   else res_bind (size_of_ty (fn_ret f)) (\<lambda>n.
                        if n \<noteq> 1 then Inl (WrapperEntryShape entry) else wrap)))
      | [Object _ obn _ _] \<Rightarrow> Inl (WrapperRuntimeCount obn)
      | obs \<Rightarrow> Inl (WrapperObjectCount (length obs)))"

end
