(* ===== verification/Yul_Valid_Output.thy ===== *)
theory Yul_Valid_Output
  imports Yul_Validate Yul_Functions Hull_Reach
begin

text \<open>
  What the structural validator accepts, stated independently of its traversal, and the fact
  that the code generated for Hull expressions always passes it.
\<close>

section \<open>A specification of valid Yul\<close>

fun lit_canonical :: "yul_literal \<Rightarrow> bool" where
  "lit_canonical (YNumber v) = is_ok (canonical_numeric_lit v)"
| "lit_canonical (YHex v) = is_ok (canonical_hex_lit v)"
| "lit_canonical _ = True"

fun expr_names_ok :: "yul_expr \<Rightarrow> bool" where
  "expr_names_ok (YCall n args) = (is_valid_yul_identifier n \<and> list_all expr_names_ok args)"
| "expr_names_ok (YIdent n) = legal_name n"
| "expr_names_ok (YLit l) = lit_canonical l"

text \<open>Names and literals of a statement, wherever they occur.\<close>

fun names_ok :: "yul_stmt \<Rightarrow> bool"
  and case_names_ok :: "yul_case \<Rightarrow> bool" where
  "names_ok (YBlock ss) = list_all names_ok ss"
| "names_ok (YFunction n ps rs body) = (list_all legal_name (n # ps @ rs) \<and> list_all names_ok body)"
| "names_ok (YLet ns init) = (list_all legal_name ns \<and> (case init of None \<Rightarrow> True | Some e \<Rightarrow> expr_names_ok e))"
| "names_ok (YAssign ns v) = (list_all legal_name ns \<and> expr_names_ok v)"
| "names_ok (YIf c body) = (expr_names_ok c \<and> list_all names_ok body)"
| "names_ok (YSwitch e cs d) =
     (expr_names_ok e \<and> list_all case_names_ok cs \<and> (case d of None \<Rightarrow> True | Some ss \<Rightarrow> list_all names_ok ss))"
| "names_ok (YFor init c post body) =
     (list_all names_ok init \<and> expr_names_ok c \<and> list_all names_ok post \<and> list_all names_ok body)"
| "names_ok (YExpr e) = expr_names_ok e"
| "names_ok YBreak = True"
| "names_ok YContinue = True"
| "names_ok YLeave = True"
| "names_ok (YComment _) = True"
| "case_names_ok (YCase l body) = (lit_canonical l \<and> list_all names_ok body)"

text \<open>\<open>break\<close> and \<open>continue\<close> occur only where the innermost enclosing loop part or function body
  is a loop body.\<close>

fun control_ok :: "bool \<Rightarrow> yul_stmt \<Rightarrow> bool"
  and case_control_ok :: "bool \<Rightarrow> yul_case \<Rightarrow> bool" where
  "control_ok b (YBlock ss) = list_all (control_ok b) ss"
| "control_ok b (YFunction _ _ _ body) = list_all (control_ok False) body"
| "control_ok b (YIf _ body) = list_all (control_ok b) body"
| "control_ok b (YSwitch _ cs d) =
     (list_all (case_control_ok b) cs \<and> (case d of None \<Rightarrow> True | Some ss \<Rightarrow> list_all (control_ok b) ss))"
| "control_ok b (YFor init _ post body) =
     (list_all (control_ok False) init \<and> list_all (control_ok False) post \<and> list_all (control_ok True) body)"
| "control_ok b YBreak = b"
| "control_ok b YContinue = b"
| "control_ok b (YLet _ _) = True"
| "control_ok b (YAssign _ _) = True"
| "control_ok b YLeave = True"
| "control_ok b (YComment _) = True"
| "control_ok b (YExpr _) = True"
| "case_control_ok b (YCase _ body) = list_all (control_ok b) body"

lemma validate_decl_name_ok: "validate_decl_name n = Inr () \<longleftrightarrow> legal_name n"
  by (simp add: validate_decl_name_def legal_name_def)

lemma validate_call_name_ok: "validate_call_name n = Inr () \<longleftrightarrow> is_valid_yul_identifier n"
  by (simp add: validate_call_name_def)

lemma validate_lit_ok: "validate_lit l = Inr () \<longleftrightarrow> lit_canonical l"
  by (cases l) (auto simp: res_elims is_ok_iff)

lemma validate_expr_ok: "validate_expr e = Inr () \<longleftrightarrow> expr_names_ok e"
  by (induction e)
     (auto simp: res_elims validate_each_ok validate_call_name_ok validate_decl_name_ok validate_lit_ok list_all_iff)

lemma validate_break_continue_ok: "validate_break_continue k r = Inr () \<longleftrightarrow> r = LoopBody"
  by (cases r) simp_all

lemma validate_stmt_ok:
  "validate_stmt r s = Inr () \<longleftrightarrow> control_ok (r = LoopBody) s \<and> names_ok s"
  "validate_case r c = Inr () \<longleftrightarrow> case_control_ok (r = LoopBody) c \<and> case_names_ok c"
  by (induction r s and r c rule: validate_stmt_validate_case.induct)
     (auto simp: res_elims validate_each_ok validate_expr_ok validate_decl_name_ok validate_lit_ok
        validate_break_continue_ok list_all_iff split: option.splits)

text \<open>C21. The validator accepts a list of statements exactly when every declared, assigned or
  mentioned name is legal, every literal is canonical, and \<open>break\<close> and \<open>continue\<close> stand in a
  loop body that no nested function definition or loop header separates them from.\<close>

theorem validate_stmts_accepts_iff:
  "validate_stmts ss r = Inr () \<longleftrightarrow> list_all (\<lambda>s. control_ok (r = LoopBody) s \<and> names_ok s) ss"
  by (simp add: validate_stmts_def validate_each_ok validate_stmt_ok list_all_iff)

section \<open>Generated expressions are valid\<close>

text \<open>A location all of whose names and literals are legal, as the translator creates them.\<close>

fun loc_legal :: "location \<Rightarrow> bool" where
  "loc_legal (LWord w) = is_ok (canonical_numeric_lit w)"
| "loc_legal (LNamed n) = legal_name n"
| "loc_legal (LSeq locs) = list_all loc_legal locs"
| "loc_legal _ = True"

definition vars_legal :: "translator \<Rightarrow> bool" where
  "vars_legal tr \<longleftrightarrow> (\<forall>x loc. lookup_var_opt tr x = Some loc \<longrightarrow> loc_legal loc)"

text \<open>The callees of an expression are lowered to valid function names.\<close>

definition callees_valid :: "translator \<Rightarrow> name set \<Rightarrow> bool" where
  "callees_valid tr fs \<longleftrightarrow>
     (\<forall>f\<in>fs. \<forall>n. lower_callee f (user_functions tr) = Call_callee n \<longrightarrow> is_valid_yul_identifier n)"

definition valid_code :: "yul_stmt list \<Rightarrow> bool" where
  "valid_code ss \<longleftrightarrow> list_all (\<lambda>s. control_ok False s \<and> names_ok s) ss"

lemma valid_code_simps [simp]:
  "valid_code []" "valid_code (s # ss) \<longleftrightarrow> (control_ok False s \<and> names_ok s) \<and> valid_code ss"
  "valid_code (ss @ ts) \<longleftrightarrow> valid_code ss \<and> valid_code ts"
  by (auto simp: valid_code_def)

lemma number_canonical: "is_ok (canonical_numeric_lit (show_nat n))" "is_ok (canonical_numeric_lit ''911'')"
  "is_ok (canonical_numeric_lit ''0'')"
proof -
  show "is_ok (canonical_numeric_lit (show_nat n))"
    using canonical_numeric_lit_ok[OF show_nat_literal(1), of n] by auto
qed code_simp+

lemma flatten_rhs_legal: "loc_legal loc \<Longrightarrow> list_all expr_names_ok (flatten_rhs loc)"
  by (induction loc rule: flatten_rhs.induct)
     (auto simp: y_defs stack_name_legal yul_var_name_def number_canonical list_all_iff)

lemma flatten_lhs_legal: "flatten_lhs loc = Inr ns \<Longrightarrow> loc_legal loc \<Longrightarrow> list_all legal_name ns"
proof (induction loc arbitrary: ns rule: flatten_lhs.induct)
  case (3 locs)
  then obtain chunks where "res_all flatten_lhs locs = Inr chunks" "ns = concat chunks" by (auto simp: res_elims)
  with 3 show ?case
    by (fastforce simp: res_all_Inr_iff list_all_iff list_all2_conv_all_nth in_set_conv_nth)
qed (auto simp: stack_name_legal yul_var_name_def)

lemma load_loc_legal: "load_loc loc = Inr e \<Longrightarrow> loc_legal loc \<Longrightarrow> expr_names_ok e"
  by (cases loc) (auto simp: y_defs stack_name_legal yul_var_name_def number_canonical)

lemma flatten_locs_legal: "loc_legal loc \<Longrightarrow> list_all loc_legal (flatten_locs loc)"
  by (induction loc rule: flatten_locs.induct) (auto simp: list_all_iff)

lemma normalize_loc_legal: "loc_legal loc \<Longrightarrow> loc_legal (normalize_loc loc)"
  using flatten_locs_legal[of loc]
  by (cases loc) (auto simp: list_all_iff simp del: flatten_locs.simps split: list.split)

lemma res_all_in: "res_all f xs = Inr ys \<Longrightarrow> y \<in> set ys \<Longrightarrow> \<exists>x\<in>set xs. f x = Inr y"
  by (induction xs arbitrary: ys) (auto simp: res_elims)

lemma copy_locs_valid: "copy_locs l r = Inr ss \<Longrightarrow> loc_legal l \<Longrightarrow> loc_legal r \<Longrightarrow> valid_code ss"
proof (induction l r arbitrary: ss rule: copy_locs.induct)
  case (1 lhs rhs)
  show ?case
  proof (cases "is_seq lhs \<or> is_seq rhs")
    case True
    then obtain chunks where c: "res_all (\<lambda>(l, r). copy_locs l r) (zip (flatten_locs lhs) (flatten_locs rhs)) = Inr chunks"
      "ss = concat chunks"
      using 1(2) by (subst (asm) copy_locs.simps) (auto simp: Let_def res_elims split: if_splits)
    have len: "length (flatten_locs lhs) = length (flatten_locs rhs)"
      using 1(2) True by (subst (asm) copy_locs.simps) (auto simp: Let_def split: if_splits)
    have "valid_code x" if x: "x \<in> set chunks" for x
    proof -
      obtain l r where lr: "(l, r) \<in> set (zip (flatten_locs lhs) (flatten_locs rhs))" "copy_locs l r = Inr x"
        using res_all_in[OF c(1) x] by auto
      then have "loc_legal l" "loc_legal r"
        using flatten_locs_legal[OF 1(3)] flatten_locs_legal[OF 1(4)]
        by (auto simp: list_all_iff dest: set_zip_leftD set_zip_rightD)
      with lr 1(1)[OF True refl refl _ lr(1) refl] len show ?thesis by simp
    qed
    then show ?thesis by (auto simp: c(2) valid_code_def list_all_iff)
  next
    case False
    with 1(2-4) show ?thesis
      by (subst (asm) copy_locs.simps)
         (auto simp: y_defs res_elims stack_name_legal yul_var_name_def split: location.splits intro: load_loc_legal)
  qed
qed

lemma stack_only_legal: "stack_only loc \<Longrightarrow> loc_legal loc"
  by (induction loc rule: stack_only.induct) (auto simp: list_all_iff)

lemma hull_alloc_legal:
  assumes "hull_alloc t tr = Inr (out, loc, tr')"
  shows "loc_legal loc" "valid_code out" "user_functions tr' = user_functions tr"
    "lookup_var_opt tr' = lookup_var_opt tr"
proof -
  from assms have b: "build_loc t tr = Inr (loc, tr')" and out: "out = alloc_loc loc"
    by (auto simp: hull_alloc_def res_elims)
  show "loc_legal loc" using build_loc_stack[OF b] by (rule stack_only_legal)
  show "valid_code out" by (auto simp: out alloc_loc_def valid_code_def list_all_iff stack_name_legal)
  show "user_functions tr' = user_functions tr" "lookup_var_opt tr' = lookup_var_opt tr"
    using build_loc_names(1)[OF b] by (auto simp: lookup_var_opt_def fun_eq_iff)
qed

lemma pad_legal: "loc_legal loc \<Longrightarrow> loc_legal (pad_to_size loc n)"
  by (simp add: pad_to_size_def Let_def)

lemma lower_in_k_legal: "lower_in_k_loc t k loc = Inr loc' \<Longrightarrow> loc_legal loc \<Longrightarrow> loc_legal loc'"
proof (induction t k loc arbitrary: loc' rule: lower_in_k_loc.induct)
  case (1 target index payload)
  then show ?case
    by (subst (asm) (3) lower_in_k_loc.simps)
       (auto simp: res_elims pad_legal split: ty_kind.splits if_splits)
qed

lemma pair_locs_legal: "pair_locs loc = Inr (l, r) \<Longrightarrow> loc_legal loc \<Longrightarrow> loc_legal l \<and> loc_legal r"
  by (cases loc rule: pair_locs.cases) auto

lemma canonical_word_lit_canonical: "canonical_word_lit v = Inr w \<Longrightarrow> is_ok (canonical_numeric_lit w)"
  using canonical_word_lit_ok[of v] canonical_word_lit_error[of v]
  by (cases "literal_error v") auto

text \<open>Two translators with the same variables and user functions.\<close>

definition keeps :: "translator \<Rightarrow> translator \<Rightarrow> bool" where
  "keeps tr tr' \<longleftrightarrow> user_functions tr' = user_functions tr \<and> lookup_var_opt tr' = lookup_var_opt tr"

lemma keeps_refl [simp]: "keeps tr tr"
  by (simp add: keeps_def)

lemma keeps_trans: "keeps a b \<Longrightarrow> keeps b c \<Longrightarrow> keeps a c"
  by (simp add: keeps_def)

lemma keeps_legal: "keeps tr tr' \<Longrightarrow> vars_legal tr' = vars_legal tr"
  "keeps tr tr' \<Longrightarrow> callees_valid tr' fs = callees_valid tr fs"
  by (simp_all add: keeps_def vars_legal_def callees_valid_def)

lemma callees_valid_parts:
  "callees_valid tr (A \<union> B) \<longleftrightarrow> callees_valid tr A \<and> callees_valid tr B"
  "callees_valid tr (insert f A) \<longleftrightarrow> callees_valid tr {f} \<and> callees_valid tr A"
  by (auto simp: callees_valid_def)

lemma gen_valid:
  "gen_expr e tr = Inr (out, loc, tr') \<Longrightarrow> vars_legal tr \<Longrightarrow> callees_valid tr (collect_expr_callees e) \<Longrightarrow>
     valid_code out \<and> loc_legal loc \<and> keeps tr tr'"
  "gen_args es tr = Inr (out, args, locs, tr') \<Longrightarrow> vars_legal tr \<Longrightarrow>
     callees_valid tr (\<Union> (set (map collect_expr_callees es))) \<Longrightarrow>
     valid_code out \<and> list_all expr_names_ok args \<and> list_all loc_legal locs \<and> keeps tr tr'"
proof (induction e tr and es tr arbitrary: out loc tr' and out args locs tr' rule: gen_expr_gen_args.induct)
  case (1 sp t v tr)
  then show ?case by (auto simp: res_elims intro: canonical_word_lit_canonical)
next
  case (4 sp t n tr)
  then show ?case by (auto simp: res_elims tr_lookup_var_def vars_legal_def split: option.splits)
next
  case (5 sp t lhs rhs tr)
  obtain o1 l1 tr1 o2 l2 where g: "gen_expr lhs tr = Inr (o1, l1, tr1)" "gen_expr rhs tr1 = Inr (o2, l2, tr')"
    "out = o1 @ o2" "loc = LSeq [l1, l2]"
    using 5(3) by (auto simp: res_elims)
  have v: "callees_valid tr (collect_expr_callees lhs)" "callees_valid tr (collect_expr_callees rhs)"
    using 5(5) by (simp_all add: callees_valid_parts)
  note h1 = 5(1)[OF g(1) 5(4) v(1)]
  then have k: "keeps tr tr1" by blast
  have "valid_code o2 \<and> loc_legal l2 \<and> keeps tr1 tr'"
    using 5(2)[OF g(1) refl refl g(2)] 5(4) v(2) by (simp add: keeps_legal[OF k])
  with h1 g show ?case by (auto intro: keeps_trans)
next
  case (6 sp t inner tr)
  then show ?case by (auto simp: res_elims dest: pair_locs_legal)
next
  case (7 sp t inner tr)
  then show ?case by (auto simp: res_elims dest: pair_locs_legal)
next
  case (8 sp t target v tr)
  then show ?case by (cases "ty_kind (strip_named target)") (auto simp: res_elims pad_legal)
next
  case (9 sp t target v tr)
  then show ?case by (cases "ty_kind (strip_named target)") (auto simp: res_elims pad_legal)
next
  case (10 sp t index target v tr)
  then show ?case by (auto simp: res_elims dest: lower_in_k_legal)
next
  case (11 sp t callee args tr)
  obtain o1 ys locs tr1 where g: "gen_args args tr = Inr (o1, ys, locs, tr1)"
    using 11(2) by (auto simp: res_elims)
  have v: "callees_valid tr {callee}" "callees_valid tr (\<Union> (set (map collect_expr_callees args)))"
    using 11(4) callees_valid_parts(2)[of tr callee "\<Union> (set (map collect_expr_callees args))"] by auto
  note h = 11(1)[OF g 11(3) v(2)]
  then have u: "user_functions tr1 = user_functions tr" by (simp add: keeps_def)
  show ?case
  proof (cases "lower_callee callee (user_functions tr1)")
    case Identity_callee
    with g 11(2) h show ?thesis by (cases locs) auto
  next
    case (Call_callee n)
    obtain al rl tr2 where a: "hull_alloc t tr1 = Inr (al, rl, tr2)"
      using g Call_callee 11(2) by (auto simp: res_elims)
    have n: "is_valid_yul_identifier n" using v(1) Call_callee u by (simp add: callees_valid_def)
    have k: "keeps tr tr2" using hull_alloc_legal(3,4)[OF a] h by (simp add: keeps_def)
    show ?thesis
      using g Call_callee a 11(2) n k h hull_alloc_legal(1,2)[OF a]
      by (auto simp: res_elims y_call_def dest: flatten_lhs_legal split: if_splits)
  qed
next
  case (12 sp t target cond then_expr else_expr tr)
  obtain o0 rl tr0 oc lc tr1 o1 l1 tr2 o2 l2 k1 k2 ce where
    a: "hull_alloc target tr = Inr (o0, rl, tr0)" and c: "gen_expr cond tr0 = Inr (oc, lc, tr1)"
    and g1: "gen_expr then_expr tr1 = Inr (o1, l1, tr2)" and g2: "gen_expr else_expr tr2 = Inr (o2, l2, tr')"
    and k: "copy_locs rl l1 = Inr k1" "copy_locs rl l2 = Inr k2" "load_loc (normalize_loc lc) = Inr ce"
    and out: "out = o0 @ oc @ [YSwitch ce [YCase (YNumber ''0'') (o2 @ k2)] (Some (o1 @ k1))]" "loc = rl"
    using 12(4) by (auto simp: res_elims)
  have v: "callees_valid tr (collect_expr_callees cond)" "callees_valid tr (collect_expr_callees then_expr)"
    "callees_valid tr (collect_expr_callees else_expr)"
    using 12(6) by (simp_all add: callees_valid_parts)
  have k0: "keeps tr tr0" using hull_alloc_legal(3,4)[OF a] by (simp add: keeps_def)
  have h0: "valid_code oc \<and> loc_legal lc \<and> keeps tr0 tr1"
    using 12(1)[OF a refl refl c] 12(5) v(1) by (simp add: keeps_legal[OF k0])
  then have k1': "keeps tr tr1" using k0 by (blast intro: keeps_trans)
  have h1: "valid_code o1 \<and> loc_legal l1 \<and> keeps tr1 tr2"
    using 12(2)[OF a refl refl c refl refl g1] 12(5) v(2) by (simp add: keeps_legal[OF k1'])
  then have k2': "keeps tr tr2" using k1' by (blast intro: keeps_trans)
  have h2: "valid_code o2 \<and> loc_legal l2 \<and> keeps tr2 tr'"
    using 12(3)[OF a refl refl c refl refl g1 refl refl g2] 12(5) v(3) by (simp add: keeps_legal[OF k2'])
  have "expr_names_ok ce" using k(3) h0 normalize_loc_legal load_loc_legal by blast
  moreover have "valid_code k1" "valid_code k2"
    using copy_locs_valid[OF k(1)] copy_locs_valid[OF k(2)] h1 h2 hull_alloc_legal(1)[OF a] by simp_all
  ultimately show ?case
    using out h0 h1 h2 k2' hull_alloc_legal(1,2)[OF a] number_canonical(3)
    by (auto simp: valid_code_def list_all_iff intro: keeps_trans)
next
  case (14 a as tr)
  obtain o1 l1 tr1 o2 ys ls where g: "gen_expr a tr = Inr (o1, l1, tr1)" "gen_args as tr1 = Inr (o2, ys, ls, tr')"
    "out = o1 @ o2" "args = flatten_rhs l1 @ ys" "locs = l1 # ls"
    using 14(3) by (auto simp: res_elims)
  have v: "callees_valid tr (collect_expr_callees a)" "callees_valid tr (\<Union> (set (map collect_expr_callees as)))"
    using 14(5) by (simp_all add: callees_valid_parts)
  note h1 = 14(1)[OF g(1) 14(4) v(1)]
  then have k: "keeps tr tr1" by blast
  have "valid_code o2 \<and> list_all expr_names_ok ys \<and> list_all loc_legal ls \<and> keeps tr1 tr'"
    using 14(2)[OF g(1) refl refl g(2)] 14(4) v(2) by (simp add: keeps_legal[OF k])
  with h1 g show ?case by (auto simp: flatten_rhs_legal intro: keeps_trans)
qed auto

text \<open>C18. Whatever code the translator generates for an expression passes the validator in every
  control region, and its location only mentions legal names, provided the variables in scope
  have legal locations and the callees have names that Yul accepts.\<close>

theorem generated_expressions_valid:
  assumes "gen_expr e tr = Inr (out, loc, tr')" and "vars_legal tr"
    and "callees_valid tr (collect_expr_callees e)"
  shows "validate_stmts out Outside = Inr ()
    \<and> list_all (\<lambda>x. validate_expr x = Inr ()) (flatten_rhs loc)"
  using gen_valid(1)[OF assms] flatten_rhs_legal[of loc]
  by (simp add: validate_stmts_def validate_each_ok validate_stmt_ok validate_expr_ok valid_code_def list_all_iff)

theorem generated_expressions_valid_witness:
  "let sp = \<lparr>anchor = 0, sp_begin = 0, sp_end = 0\<rparr>;
       e = Expr sp (ty_word sp) (ECall ''f'' [Expr sp (ty_word sp) (EWord ''007'')])
   in case gen_expr e ((new_translator (\<lambda>_. []))\<lparr>user_functions := {''f''}\<rparr>) of
        Inr (out, _, _) \<Rightarrow> validate_stmts out Outside = Inr ()
      | Inl _ \<Rightarrow> False"
proof -
  let ?sp = "\<lparr>anchor = 0, sp_begin = 0, sp_end = 0\<rparr>"
  let ?e = "Expr ?sp (ty_word ?sp) (ECall ''f'' [Expr ?sp (ty_word ?sp) (EWord ''007'')])"
  let ?tr = "(new_translator (\<lambda>_. []))\<lparr>user_functions := {''f''}\<rparr>"
  have "literal_error ''007'' = None" by code_simp
  then obtain w where "canonical_word_lit ''007'' = Inr w" using canonical_word_lit_ok by blast
  then obtain out loc tr' where g: "gen_expr ?e ?tr = Inr (out, loc, tr')"
    by (simp add: new_translator_def lower_callee_def hull_alloc_def build_loc_simps fresh_stack_loc_def)
  have v: "vars_legal ?tr"
    by (simp add: vars_legal_def lookup_var_opt_def new_translator_def scopes_lookup_def)
  have "is_valid_yul_identifier (yul_fun_name ''f'')" by code_simp
  then have "callees_valid ?tr (collect_expr_callees ?e)"
    by (simp add: callees_valid_def lower_callee_def)
  from generated_expressions_valid[OF g v this] g show ?thesis by simp
qed

end
