(* ===== verification/Yul_Lower_Sound.thy ===== *)
theory Yul_Lower_Sound
  imports Yul_Conforms Hull_Typing
begin

text \<open>
  What the checker guarantees to the translator. An expression that the checker accepts is
  lowered without an error, to a location with the shape of its type. The side conditions are
  the ones the checker leaves open: word literals must have a valid spelling, no type mentions
  the \<open>NamedRef\<close> placeholder, and the two tables of functions must agree.
\<close>

section \<open>Side conditions\<close>

text \<open>Every type in the expression is free of placeholders and every word literal is valid.\<close>

fun expr_plain :: "expr \<Rightarrow> bool" where
  "expr_plain (Expr sp t (EWord v)) \<longleftrightarrow> ref_free t \<and> literal_error v = None"
| "expr_plain (Expr sp t (EBool _)) \<longleftrightarrow> ref_free t"
| "expr_plain (Expr sp t EUnit) \<longleftrightarrow> ref_free t"
| "expr_plain (Expr sp t (EVar _)) \<longleftrightarrow> ref_free t"
| "expr_plain (Expr sp t (EPair l r)) \<longleftrightarrow> ref_free t \<and> expr_plain l \<and> expr_plain r"
| "expr_plain (Expr sp t (EFst e)) \<longleftrightarrow> ref_free t \<and> expr_plain e"
| "expr_plain (Expr sp t (ESnd e)) \<longleftrightarrow> ref_free t \<and> expr_plain e"
| "expr_plain (Expr sp t (EInl target v)) \<longleftrightarrow> ref_free t \<and> ref_free target \<and> expr_plain v"
| "expr_plain (Expr sp t (EInr target v)) \<longleftrightarrow> ref_free t \<and> ref_free target \<and> expr_plain v"
| "expr_plain (Expr sp t (EInK _ target v)) \<longleftrightarrow> ref_free t \<and> ref_free target \<and> expr_plain v"
| "expr_plain (Expr sp t (ECall _ args)) \<longleftrightarrow> ref_free t \<and> list_all expr_plain args"
| "expr_plain (Expr sp t (EIf target c e1 e2)) \<longleftrightarrow>
     ref_free t \<and> ref_free target \<and> expr_plain c \<and> expr_plain e1 \<and> expr_plain e2"

definition sigs_plain :: "(name \<rightharpoonup> fun_sig) \<Rightarrow> bool" where
  "sigs_plain F \<longleftrightarrow>
     (\<forall>f s. F f = Some s \<longrightarrow> ref_free (sig_ret s) \<and> list_all ref_free (sig_args s))"

text \<open>A callee that is lowered to its argument takes one argument of the type it returns.\<close>

definition identities_ok :: "(name \<rightharpoonup> fun_sig) \<Rightarrow> name set \<Rightarrow> bool" where
  "identities_ok F users \<longleftrightarrow>
     (\<forall>f s. F f = Some s \<longrightarrow> lower_callee f users = Identity_callee \<longrightarrow>
        (\<exists>a. sig_args s = [a] \<and> erase a = erase (sig_ret s)))"

text \<open>Every variable the checker sees has a location of its shape in the translator.\<close>

definition vars_match :: "(name \<Rightarrow> ty option) \<Rightarrow> translator \<Rightarrow> bool" where
  "vars_match G tr \<longleftrightarrow>
     (\<forall>x t. G x = Some t \<longrightarrow> ref_free t \<and> (\<exists>loc. lookup_var_opt tr x = Some loc \<and> conforms (erase t) loc))"

text \<open>The translator and the checker see the same program.\<close>

definition agrees :: "(name \<rightharpoonup> fun_sig) \<Rightarrow> (name \<Rightarrow> ty option) \<Rightarrow> translator \<Rightarrow> bool" where
  "agrees F G tr \<longleftrightarrow> sigs_plain F \<and> identities_ok F (user_functions tr) \<and> vars_match G tr"

text \<open>The outcome: a location of the shape of the type, and a translator that differs only in
  its stack counter, which has not decreased.\<close>

definition lowers :: "(name \<rightharpoonup> fun_sig) \<Rightarrow> (name \<Rightarrow> ty option) \<Rightarrow> expr \<Rightarrow> ty \<Rightarrow> bool" where
  "lowers F G e t \<longleftrightarrow>
     (\<forall>tr. agrees F G tr \<longrightarrow> ref_free t \<and>
        (\<exists>out loc c. gen_expr e tr = Inr (out, loc, tr\<lparr>counter := c\<rparr>) \<and> counter tr \<le> c
           \<and> conforms (erase t) loc))"

definition args_lower ::
  "(name \<rightharpoonup> fun_sig) \<Rightarrow> (name \<Rightarrow> ty option) \<Rightarrow> expr list \<Rightarrow> ty list \<Rightarrow> bool" where
  "args_lower F G es ts \<longleftrightarrow>
     (\<forall>tr. agrees F G tr \<longrightarrow>
        (\<exists>out args locs c. gen_args es tr = Inr (out, args, locs, tr\<lparr>counter := c\<rparr>) \<and> counter tr \<le> c
           \<and> list_all2 (\<lambda>t loc. conforms (erase t) loc) ts locs
           \<and> length args = sum_list (map (\<lambda>t. shape_slots (erase t)) ts)))"

lemma vars_match_counter [simp]: "vars_match G (tr\<lparr>counter := c\<rparr>) = vars_match G tr"
  by (simp add: vars_match_def lookup_var_opt_def)

lemma agrees_counter [simp]: "agrees F G (tr\<lparr>counter := c\<rparr>) = agrees F G tr"
  by (simp add: agrees_def)

lemma type_eq_erases: "type_eq a b \<Longrightarrow> ref_free a \<Longrightarrow> ref_free b \<Longrightarrow> erase b = erase a"
  using type_eq_erase by auto

lemma nth_sum_payload_ref_free:
  "ref_free t \<Longrightarrow> nth_sum_payload t k = Some p \<Longrightarrow> ref_free p"
proof -
  have "ref_free t \<Longrightarrow> nth_sum_payload_loop t k = Some p \<Longrightarrow> ref_free p" for t
  proof (induction t k rule: nth_sum_payload_loop.induct)
    case (1 current remaining)
    show ?case
    proof (cases "\<exists>l r. ty_kind (strip_named current) = TySum l r")
      case True
      then obtain l r where k: "ty_kind (strip_named current) = TySum l r" by blast
      with 1 show ?thesis
        by (auto simp: nth_sum_payload_loop.simps[of current] ref_free_parts split: if_splits)
    next
      case False
      with 1(3) have "p = current"
        by (subst (asm) nth_sum_payload_loop.simps) (auto split: ty_kind.splits if_splits)
      with 1(2) show ?thesis by simp
    qed
  qed
  from this[of "strip_named t"] show "ref_free t \<Longrightarrow> nth_sum_payload t k = Some p \<Longrightarrow> ref_free p"
    by (simp add: nth_sum_payload_def)
qed

lemma nth_sum_payload_summand:
  "nth_sum_payload t k = Some p \<Longrightarrow> shape_summand (erase t) k = Some (erase p)"
  by (metis nth_sum_payload_shape option.simps(9))

lemma expr_plain_ty: "expr_plain e \<Longrightarrow> ref_free (expr_ty e)"
  by (cases e rule: expr_plain.cases) simp_all

section \<open>Well-typed expressions are lowered\<close>

lemma lowersI:
  assumes "\<And>tr. agrees F G tr \<Longrightarrow> ref_free t"
    and "\<And>tr. agrees F G tr \<Longrightarrow> ref_free t \<Longrightarrow>
      \<exists>out loc c. gen_expr e tr = Inr (out, loc, tr\<lparr>counter := c\<rparr>) \<and> counter tr \<le> c \<and> conforms (erase t) loc"
  shows "lowers F G e t"
  using assms unfolding lowers_def by blast

lemma lowersE:
  assumes "lowers F G e t" and "agrees F G tr"
  obtains out loc c where "ref_free t" "gen_expr e tr = Inr (out, loc, tr\<lparr>counter := c\<rparr>)"
    "counter tr \<le> c" "conforms (erase t) loc"
  using assms unfolding lowers_def by blast

lemma lowers_ref_free: "lowers F G e t \<Longrightarrow> agrees F G tr \<Longrightarrow> ref_free t"
  by (auto simp: lowers_def)

lemma args_lowerE:
  assumes "args_lower F G es ts" and "agrees F G tr"
  obtains out args locs c where "gen_args es tr = Inr (out, args, locs, tr\<lparr>counter := c\<rparr>)"
    "counter tr \<le> c" "list_all2 (\<lambda>t loc. conforms (erase t) loc) ts locs"
    "length args = sum_list (map (\<lambda>t. shape_slots (erase t)) ts)"
  using assms unfolding args_lower_def by blast

lemma lowers_leaf:
  assumes "ref_free t" and "\<And>tr. \<exists>loc. gen_expr e tr = Inr ([], loc, tr) \<and> conforms (erase t) loc"
  shows "lowers F G e t"
proof (rule lowersI)
  fix tr :: translator
  obtain loc where "gen_expr e tr = Inr ([], loc, tr\<lparr>counter := counter tr\<rparr>)" "conforms (erase t) loc"
    using assms(2)[of tr] by auto
  then show "\<exists>out loc c. gen_expr e tr = Inr (out, loc, tr\<lparr>counter := c\<rparr>) \<and> counter tr \<le> c \<and> conforms (erase t) loc"
    by blast
qed (rule assms(1))

lemma lowers_var:
  assumes "G x = Some t"
  shows "lowers F G (Expr sp a (EVar x)) t"
proof (rule lowersI)
  fix tr
  assume "agrees F G tr"
  then obtain loc where l: "ref_free t" "lookup_var_opt tr x = Some loc" "conforms (erase t) loc"
    using assms by (auto simp: agrees_def vars_match_def)
  then have "gen_expr (Expr sp a (EVar x)) tr = Inr ([], loc, tr\<lparr>counter := counter tr\<rparr>)"
    by (simp add: tr_lookup_var_def)
  with l show "ref_free t" and "\<exists>out loc c. gen_expr (Expr sp a (EVar x)) tr = Inr (out, loc, tr\<lparr>counter := c\<rparr>)
      \<and> counter tr \<le> c \<and> conforms (erase t) loc" by blast+
qed

lemma lowers_pair:
  assumes l: "lowers F G l lt" and r: "lowers F G r rt"
  shows "lowers F G (Expr sp a (EPair l r)) (Ty sp (TyProduct lt rt))"
proof (rule lowersI)
  fix tr
  assume tr: "agrees F G tr"
  then show "ref_free (Ty sp (TyProduct lt rt))" using l r by (simp add: lowers_ref_free)
  from l tr obtain o1 l1 c1 where 1: "gen_expr l tr = Inr (o1, l1, tr\<lparr>counter := c1\<rparr>)"
    "counter tr \<le> c1" "conforms (erase lt) l1" by (rule lowersE)
  have "agrees F G (tr\<lparr>counter := c1\<rparr>)" using tr by simp
  with r obtain o2 l2 c2 where 2: "gen_expr r (tr\<lparr>counter := c1\<rparr>) = Inr (o2, l2, tr\<lparr>counter := c2\<rparr>)"
    "c1 \<le> c2" "conforms (erase rt) l2" by (rule lowersE) simp
  from 1 2 show "\<exists>out loc c. gen_expr (Expr sp a (EPair l r)) tr = Inr (out, loc, tr\<lparr>counter := c\<rparr>)
      \<and> counter tr \<le> c \<and> conforms (erase (Ty sp (TyProduct lt rt))) loc"
    by (auto simp: conforms_product)
qed

text \<open>The operators that only post-process the location of their operand.\<close>

lemma lowers_map:
  assumes e: "lowers F G e t"
    and rf: "\<And>tr. agrees F G tr \<Longrightarrow> ref_free t \<Longrightarrow> ref_free t'"
    and step: "\<And>tr out loc tr'. gen_expr e tr = Inr (out, loc, tr') \<Longrightarrow> ref_free t \<Longrightarrow>
      conforms (erase t) loc \<Longrightarrow> \<exists>loc'. gen_expr e' tr = Inr (out, loc', tr') \<and> conforms (erase t') loc'"
  shows "lowers F G e' t'"
proof (rule lowersI)
  fix tr
  assume tr: "agrees F G tr"
  then show "ref_free t'" using lowers_ref_free[OF e] rf by blast
  from e tr obtain out loc c where 1: "ref_free t" "gen_expr e tr = Inr (out, loc, tr\<lparr>counter := c\<rparr>)"
    "counter tr \<le> c" "conforms (erase t) loc" by (rule lowersE)
  from step[OF 1(2,1,4)] 1(3)
  show "\<exists>out loc c. gen_expr e' tr = Inr (out, loc, tr\<lparr>counter := c\<rparr>) \<and> counter tr \<le> c \<and> conforms (erase t') loc"
    by blast
qed

lemma lowers_proj:
  assumes e: "lowers F G e t" and k: "ty_kind (strip_named t) = TyProduct lt rt"
  shows "lowers F G (Expr sp a (EFst e)) lt" and "lowers F G (Expr sp a (ESnd e)) rt"
  using k erase_of_strip_kind(1)[OF k]
  by (auto intro!: lowers_map[OF e] simp: ref_free_parts conforms_product)

lemma lowers_inj:
  assumes e: "lowers F G v t" and k: "ty_kind (strip_named target) = TySum lt rt"
    and target: "ref_free target"
  shows "type_eq lt t \<Longrightarrow> lowers F G (Expr sp a (EInl target v)) target"
    and "type_eq rt t \<Longrightarrow> lowers F G (Expr sp a (EInr target v)) target"
  using k erase_of_strip_kind(2)[OF k] target ref_free_parts(2)[OF k]
  by (auto intro!: lowers_map[OF e] simp: max_size_shape pad_to_size_size
      dest!: conforms_size type_eq_erases)

lemma lowers_in_k:
  assumes e: "lowers F G v t" and p: "nth_sum_payload target k = Some p" "type_eq p t"
    and target: "ref_free target"
  shows "lowers F G (Expr sp a (EInK k target v)) target"
proof (rule lowers_map[OF e])
  fix tr out loc tr'
  assume g: "gen_expr v tr = Inr (out, loc, tr')" and t: "ref_free t" "conforms (erase t) loc"
  have "erase t = erase p" using type_eq_erases[OF p(2) nth_sum_payload_ref_free[OF target p(1)] t(1)] .
  with t(2) lower_in_k_ok[OF nth_sum_payload_summand[OF p(1)]] obtain loc' where
    "lower_in_k_loc target k loc = Inr loc'" "conforms (erase target) loc'" by metis
  with g show "\<exists>loc'. gen_expr (Expr sp a (EInK k target v)) tr = Inr (out, loc', tr') \<and> conforms (erase target) loc'"
    by simp
qed (rule target)

lemma lowers_call:
  assumes F: "F f = Some s" and args: "args_lower F G es (sig_args s)"
    and a: "ref_free a" "type_eq a (sig_ret s)"
  shows "lowers F G (Expr sp a (ECall f es)) (sig_ret s)"
proof (rule lowersI)
  fix tr
  assume tr: "agrees F G tr"
  then show rf: "ref_free (sig_ret s)" using F by (auto simp: agrees_def sigs_plain_def)
  from args tr obtain out ys locs c where g: "gen_args es tr = Inr (out, ys, locs, tr\<lparr>counter := c\<rparr>)"
    "counter tr \<le> c" "list_all2 (\<lambda>t loc. conforms (erase t) loc) (sig_args s) locs"
    by (rule args_lowerE)
  show "\<exists>out loc c. gen_expr (Expr sp a (ECall f es)) tr = Inr (out, loc, tr\<lparr>counter := c\<rparr>)
      \<and> counter tr \<le> c \<and> conforms (erase (sig_ret s)) loc"
  proof (cases "lower_callee f (user_functions tr)")
    case Identity_callee
    with tr F obtain b where "sig_args s = [b]" "erase b = erase (sig_ret s)"
      by (auto simp: agrees_def identities_ok_def)
    with g Identity_callee show ?thesis by (auto simp: list_all2_Cons1)
  next
    case (Call_callee n)
    have e: "erase (sig_ret s) = erase a" by (rule type_eq_erases[OF a(2,1) rf])
    obtain al loc where "hull_alloc a (tr\<lparr>counter := c\<rparr>) = Inr (al, loc, tr\<lparr>counter := c + shape_slots (erase a)\<rparr>)"
      "conforms (erase a) loc" "is_place loc"
      using hull_alloc_ok[of a "tr\<lparr>counter := c\<rparr>"] by auto
    with flatten_lhs_place[of loc] g Call_callee e show ?thesis
      by (auto intro!: exI[of _ "c + shape_slots (erase a)"])
  qed
qed

lemma lowers_if:
  assumes c: "lowers F G c tc" "is_bool_like tc"
    and 1: "lowers F G e1 t1" "type_eq target t1" and 2: "lowers F G e2 t2" "type_eq target t2"
    and target: "ref_free target"
  shows "lowers F G (Expr sp a (EIf target c e1 e2)) target"
proof (rule lowersI)
  fix tr
  assume tr: "agrees F G tr"
  let ?n = "counter tr + shape_slots (erase target)"
  obtain al loc where al: "hull_alloc target tr = Inr (al, loc, tr\<lparr>counter := ?n\<rparr>)"
    "conforms (erase target) loc" "is_place loc"
    using hull_alloc_ok[of target tr] by auto
  have "agrees F G (tr\<lparr>counter := ?n\<rparr>)" using tr by simp
  with c(1) obtain oc lc nc where gc: "gen_expr c (tr\<lparr>counter := ?n\<rparr>) = Inr (oc, lc, tr\<lparr>counter := nc\<rparr>)"
    "?n \<le> nc" "conforms (erase tc) lc" by (rule lowersE) simp
  have "agrees F G (tr\<lparr>counter := nc\<rparr>)" using tr by simp
  with 1(1) obtain o1 l1 n1 where g1: "ref_free t1" "gen_expr e1 (tr\<lparr>counter := nc\<rparr>) = Inr (o1, l1, tr\<lparr>counter := n1\<rparr>)"
    "nc \<le> n1" "conforms (erase t1) l1" by (rule lowersE) simp
  have "agrees F G (tr\<lparr>counter := n1\<rparr>)" using tr by simp
  with 2(1) obtain o2 l2 n2 where g2: "ref_free t2" "gen_expr e2 (tr\<lparr>counter := n1\<rparr>) = Inr (o2, l2, tr\<lparr>counter := n2\<rparr>)"
    "n1 \<le> n2" "conforms (erase t2) l2" by (rule lowersE) simp
  have "size_of_loc loc = size_of_loc l1" "size_of_loc loc = size_of_loc l2"
    using al(2) g1(4) g2(4) type_eq_erases[OF 1(2) target g1(1)] type_eq_erases[OF 2(2) target g2(1)]
    by (simp_all add: conforms_size)
  then obtain k1 k2 where "copy_locs loc l1 = Inr k1" "copy_locs loc l2 = Inr k2"
    using copy_locs_ok[OF al(3)] by blast
  moreover have "size_of_loc lc = 1"
    using gc(3) bool_like_one_slot[OF c(2)] by (simp add: conforms_size checker_slots.slots_shape)
  then obtain ce where "load_loc (normalize_loc lc) = Inr ce"
    using load_loc_flat normalize_loc_one_word by blast
  ultimately show "\<exists>out loc c'. gen_expr (Expr sp a (EIf target c e1 e2)) tr = Inr (out, loc, tr\<lparr>counter := c'\<rparr>)
      \<and> counter tr \<le> c' \<and> conforms (erase target) loc"
    using al gc g1 g2 by auto
qed (rule target)

lemma args_lower_Cons:
  assumes e: "lowers F G e t'" "type_eq t t'" "ref_free t" and es: "args_lower F G es ts"
  shows "args_lower F G (e # es) (t # ts)"
  unfolding args_lower_def
proof (intro allI impI)
  fix tr
  assume tr: "agrees F G tr"
  from e(1) tr obtain o1 l1 c1 where 1: "ref_free t'" "gen_expr e tr = Inr (o1, l1, tr\<lparr>counter := c1\<rparr>)"
    "counter tr \<le> c1" "conforms (erase t') l1" by (rule lowersE)
  have "agrees F G (tr\<lparr>counter := c1\<rparr>)" using tr by simp
  with es obtain o2 ys ls c2 where 2: "gen_args es (tr\<lparr>counter := c1\<rparr>) = Inr (o2, ys, ls, tr\<lparr>counter := c2\<rparr>)"
    "c1 \<le> c2" "list_all2 (\<lambda>t loc. conforms (erase t) loc) ts ls"
    "length ys = sum_list (map (\<lambda>t. shape_slots (erase t)) ts)" by (rule args_lowerE) simp
  have "erase t' = erase t" by (rule type_eq_erases[OF e(2,3) 1(1)])
  with 1 2 show "\<exists>out args locs c. gen_args (e # es) tr = Inr (out, args, locs, tr\<lparr>counter := c\<rparr>) \<and> counter tr \<le> c
      \<and> list_all2 (\<lambda>t loc. conforms (erase t) loc) (t # ts) locs
      \<and> length args = sum_list (map (\<lambda>t. shape_slots (erase t)) (t # ts))"
    by (auto simp: flatten_rhs_length conforms_size)
qed

lemma wt_lowers:
  assumes F: "sigs_plain F"
  shows "wt_infer F G e t \<Longrightarrow> type_eq (expr_ty e) t \<Longrightarrow> expr_plain e \<Longrightarrow> lowers F G e t"
    and "wt_expr F G e t \<Longrightarrow> expr_plain e \<Longrightarrow> lowers F G e t"
    and "wt_args F G ts es \<Longrightarrow> list_all expr_plain es \<Longrightarrow> list_all ref_free ts \<Longrightarrow> args_lower F G es ts"
proof (induction rule: wt_infer_wt_expr_wt_args.inducts)
  case (word sp a w)
  then show ?case using canonical_word_lit_ok[of w] by (auto intro!: lowers_leaf)
next
  case (call f s es sp a)
  then have "list_all ref_free (sig_args s)" using F by (auto simp: sigs_plain_def)
  with call show ?case by (auto intro: lowers_call)
next
  case args_nil
  show ?case by (auto simp: args_lower_def intro!: exI[of _ "counter _"])
qed (auto intro: lowers_leaf lowers_var lowers_pair lowers_proj lowers_inj lowers_in_k lowers_if args_lower_Cons)

section \<open>The tables of the checker and the translator agree\<close>

lemma register_function_funs:
  "env_funs (register_function f env) =
     (env_funs env)(fn_name f \<mapsto> \<lparr>sig_args = map arg_ty (fn_args f), sig_ret = fn_ret f\<rparr>)"
  by (simp add: register_function_def push_diag_def Let_def)

lemma registered_funs:
  "env_funs (fold register_function fs env) n = Some s \<Longrightarrow>
     (\<exists>f\<in>set fs. fn_name f = n \<and> s = \<lparr>sig_args = map arg_ty (fn_args f), sig_ret = fn_ret f\<rparr>)
     \<or> n \<notin> set (map fn_name fs) \<and> env_funs env n = Some s"
proof (induction fs arbitrary: env)
  case Nil
  then show ?case by simp
next
  case (Cons f fs)
  then show ?case by (fastforce simp: register_function_funs split: if_splits)
qed

definition row_plain :: "name \<times> fun_sig \<Rightarrow> bool" where
  "row_plain = (\<lambda>(n, s). ref_free (sig_ret s) \<and> list_all ref_free (sig_args s)
     \<and> (lower_callee n {} = Identity_callee \<longrightarrow>
          list_all2 (\<lambda>a b. erase a = erase b) (sig_args s) [sig_ret s]))"

lemma builtin_rows_plain: "list_all row_plain (builtin_rows sp)"
  by code_simp

lemma lower_callee_user: "f \<notin> users \<Longrightarrow> lower_callee f users = lower_callee f {}"
  by (simp add: lower_callee_def)

text \<open>A translator inside a code block whose functions the checker has registered on top of the
  builtins.\<close>

lemma registered_agree:
  assumes "env_funs env = builtin_funs sp"
    and "\<And>f. f \<in> set fs \<Longrightarrow> ref_free (fn_ret f) \<and> list_all (\<lambda>a. ref_free (arg_ty a)) (fn_args f)"
    and "user_functions tr = set (map fn_name fs)"
  shows "sigs_plain (env_funs (fold register_function fs env))
    \<and> identities_ok (env_funs (fold register_function fs env)) (user_functions tr)"
proof -
  have row: "row_plain (n, s)" if "env_funs env n = Some s" for n s
  proof -
    have "(n, s) \<in> set (builtin_rows sp)"
      using that assms(1) by (auto simp: builtin_funs_map_of dest: map_of_SomeD)
    then show ?thesis using builtin_rows_plain by (simp add: list_all_iff)
  qed
  have user: "lower_callee (fn_name f) (user_functions tr) \<noteq> Identity_callee" if "f \<in> set fs" for f
    using that assms(3) by (simp add: lower_callee_def)
  let ?F = "env_funs (fold register_function fs env)"
  have each: "ref_free (sig_ret s) \<and> list_all ref_free (sig_args s)
      \<and> (lower_callee n (user_functions tr) = Identity_callee \<longrightarrow>
          (\<exists>a. sig_args s = [a] \<and> erase a = erase (sig_ret s)))" if n: "?F n = Some s" for n s
    using registered_funs[OF n]
  proof
    assume "\<exists>f\<in>set fs. fn_name f = n \<and> s = \<lparr>sig_args = map arg_ty (fn_args f), sig_ret = fn_ret f\<rparr>"
    with assms(2) user show ?thesis by (auto simp: list_all_iff)
  next
    assume b: "n \<notin> set (map fn_name fs) \<and> env_funs env n = Some s"
    then have "lower_callee n (user_functions tr) = lower_callee n {}"
      using assms(3) by (intro lower_callee_user) simp
    with row[of n s] b show ?thesis by (auto simp: row_plain_def list_all2_Cons2)
  qed
  then show ?thesis unfolding sigs_plain_def identities_ok_def by blast
qed

text \<open>A concrete environment for the examples: the builtins and a word variable \<open>x\<close>.\<close>

definition sp0 :: span where
  "sp0 = \<lparr>anchor = 0, sp_begin = 0, sp_end = 0\<rparr>"

definition env0 :: env where
  "env0 = insert_var ''x'' (ty_word sp0) (initial_env None sp0)"

definition tr0 :: translator where
  "tr0 = tr_insert_var ''x'' (LNamed ''src$x_0'') (new_translator (\<lambda>_. []))"

definition args0 :: "expr list" where
  "args0 = [Expr sp0 (ty_word sp0) (EVar ''x''), Expr sp0 (ty_word sp0) (EWord ''7'')]"

lemma env0_fields:
  "env_funs env0 = builtin_funs sp0"
  "lookup_var env0 = [''x'' \<mapsto> ty_word sp0]"
  by (simp_all add: env0_def insert_var_def initial_env_def scopes_insert_def lookup_var_def
      scopes_lookup_def fun_eq_iff)

lemma builtin_add: "builtin_funs sp0 ''add'' = Some \<lparr>sig_args = [ty_word sp0, ty_word sp0], sig_ret = ty_word sp0\<rparr>"
  by (simp add: builtin_funs_map_of builtin_rows_def Let_def numeral_2_eq_2)

lemma agrees0: "agrees (env_funs env0) (lookup_var env0) tr0"
proof -
  have "user_functions tr0 = set (map fn_name [])"
    by (simp add: tr0_def tr_insert_var_def new_translator_def scopes_insert_def)
  from registered_agree[OF env0_fields(1) _ this] have
    "sigs_plain (env_funs env0)" "identities_ok (env_funs env0) (user_functions tr0)" by simp_all
  moreover have "lookup_var_opt tr0 ''x'' = Some (LNamed ''src$x_0'')"
    by (simp add: lookup_var_opt_def tr0_def tr_insert_var_def new_translator_def scopes_insert_def scopes_lookup_def)
  ultimately show ?thesis by (simp add: agrees_def vars_match_def env0_fields)
qed

lemma literal_7: "literal_error ''7'' = None"
  by code_simp

lemma word_eq: "type_eq (Ty sp TyWord) (Ty sp' TyWord)"
  by (simp add: type_eq_erase)

lemma args0_accepted: "check_args [ty_word sp0, ty_word sp0] args0 env0 = env0"
  by (simp add: args0_def check_expr.simps env0_fields word_eq expect_type_def)

section \<open>Properties\<close>

text \<open>C4. An expression that the checker accepts without a diagnostic is lowered without an error
  or panic. The location of the result has the shape of the inferred type and as many words as
  the checker counts for it; the only change to the translator is that stack slots were
  handed out.\<close>

theorem accepted_expressions_lower:
  assumes "check_expr e env = (t, env)" and "expr_plain e"
    and "agrees (env_funs env) (lookup_var env) tr"
  shows "\<exists>out loc c. gen_expr e tr = Inr (out, loc, tr\<lparr>counter := c\<rparr>) \<and> counter tr \<le> c
    \<and> size_of_loc loc = return_count t \<and> conforms (erase t) loc"
proof -
  have "wt_expr (env_funs env) (lookup_var env) e t" using assms(1) by (simp add: check_expr_clean_iff)
  moreover have "sigs_plain (env_funs env)" using assms(3) by (simp add: agrees_def)
  ultimately have "lowers (env_funs env) (lookup_var env) e t" using wt_lowers(2) assms(2) by blast
  then obtain out loc c where "gen_expr e tr = Inr (out, loc, tr\<lparr>counter := c\<rparr>)" "counter tr \<le> c"
    "conforms (erase t) loc" using assms(3) by (rule lowersE)
  then show ?thesis by (auto simp: conforms_size checker_slots.slots_shape)
qed

theorem accepted_expressions_lower_witness:
  "\<exists>out loc c. gen_expr (Expr sp0 (ty_word sp0) (ECall ''add'' args0)) tr0 = Inr (out, loc, tr0\<lparr>counter := c\<rparr>)
     \<and> size_of_loc loc = 1"
proof -
  have "check_expr (Expr sp0 (ty_word sp0) (ECall ''add'' args0)) env0 = (ty_word sp0, env0)"
    using args0_accepted
    by (simp add: check_expr.simps env0_fields builtin_add word_eq) (simp add: args0_def)
  moreover have "expr_plain (Expr sp0 (ty_word sp0) (ECall ''add'' args0))"
    by (simp add: args0_def literal_7)
  ultimately show ?thesis using accepted_expressions_lower[OF _ _ agrees0] by fastforce
qed

text \<open>C23. The code generated for the arguments of an accepted call passes exactly as many words
  as the parameter types of the signature take, in order.\<close>

theorem accepted_call_arguments:
  assumes "check_args (sig_args s) es env = env" and "length (sig_args s) = length es"
    and "list_all expr_plain es" and "agrees (env_funs env) (lookup_var env) tr"
    and "env_funs env f = Some s"
  shows "\<exists>out ys locs c. gen_args es tr = Inr (out, ys, locs, tr\<lparr>counter := c\<rparr>)
    \<and> length ys = sum_list (map return_count (sig_args s))
    \<and> list_all2 (\<lambda>t loc. conforms (erase t) loc) (sig_args s) locs"
proof -
  have "wt_args (env_funs env) (lookup_var env) (sig_args s) es"
    using assms(1,2) by (rule accepted_wt(3))
  moreover have "sigs_plain (env_funs env)" using assms(4) by (simp add: agrees_def)
  moreover from this have "list_all ref_free (sig_args s)" using assms(5) by (auto simp: sigs_plain_def)
  ultimately have "args_lower (env_funs env) (lookup_var env) es (sig_args s)"
    using wt_lowers(3) assms(3) by blast
  then obtain out ys locs c where "gen_args es tr = Inr (out, ys, locs, tr\<lparr>counter := c\<rparr>)"
    "list_all2 (\<lambda>t loc. conforms (erase t) loc) (sig_args s) locs"
    "length ys = sum_list (map (\<lambda>t. shape_slots (erase t)) (sig_args s))"
    using assms(4) by (rule args_lowerE)
  then show ?thesis by (auto simp: checker_slots.slots_shape[abs_def])
qed

theorem accepted_call_arguments_witness:
  "\<exists>out ys locs c. gen_args args0 tr0 = Inr (out, ys, locs, tr0\<lparr>counter := c\<rparr>) \<and> length ys = 2"
proof -
  let ?s = "\<lparr>sig_args = [ty_word sp0, ty_word sp0], sig_ret = ty_word sp0\<rparr>"
  have "env_funs env0 ''add'' = Some ?s" by (simp add: env0_fields builtin_add)
  moreover have "length (sig_args ?s) = length args0" "list_all expr_plain args0"
    by (simp_all add: args0_def literal_7)
  ultimately show ?thesis
    using accepted_call_arguments[of ?s args0 env0 tr0 "''add''"] args0_accepted agrees0 by fastforce
qed

end
