(* ===== verification/Builtin_Agreement.thy ===== *)
theory Builtin_Agreement
  imports Yul_Names
begin

text \<open>
  Agreement of the function tables that three parts of the code keep separately: the builtins
  of Hull expressions and those of inline assembly in \<open>crates/hull/src/check.rs\<close>, and the
  lowering of callees in \<open>crates/yul/src/translate/names.rs\<close>. The tables are compared row by row
  by evaluation.
\<close>

definition asm_row_agrees :: "span \<Rightarrow> name \<Rightarrow> bool" where
  "asm_row_agrees sp n =
     (case (builtin_funs sp n, asm_builtin_sig sp n) of
        (Some s, Some s') \<Rightarrow> length (sig_args s) = length (sig_args s')
          \<and> return_count (sig_ret s) = return_count (sig_ret s')
      | _ \<Rightarrow> False)"

lemma asm_rows_agree: "list_all (asm_row_agrees sp) asm_builtin_names"
  unfolding asm_row_agrees_def builtin_funs_map_of by code_simp

text \<open>Every assembly builtin is also callable from Hull expressions, with the same number of
  arguments and the same number of results.\<close>

theorem asm_builtins_are_hull_builtins:
  assumes "asm_builtin_sig sp n = Some s"
  shows "\<exists>s'. builtin_funs sp n = Some s' \<and> length (sig_args s') = length (sig_args s)
    \<and> return_count (sig_ret s') = return_count (sig_ret s)"
proof -
  have "n \<in> set asm_builtin_names" using assms asm_builtin_sig_defined[of sp n] by simp
  then have "asm_row_agrees sp n" using asm_rows_agree by (simp add: list_all_iff)
  with assms show ?thesis by (auto simp: asm_row_agrees_def split: option.splits)
qed

theorem asm_builtins_are_hull_builtins_witness:
  "\<exists>s'. builtin_funs \<lparr>anchor = 0, sp_begin = 0, sp_end = 0\<rparr> ''sload'' = Some s'
     \<and> length (sig_args s') = 1 \<and> return_count (sig_ret s') = 1"
  using asm_builtins_are_hull_builtins[of "\<lparr>anchor = 0, sp_begin = 0, sp_end = 0\<rparr>" "''sload''"]
  by (simp add: asm_builtin_sig_def asm_builtin_arms_def)

lemma yul_builtin_iff: "is_yul_builtin n \<longleftrightarrow> asm_builtin_sig sp n \<noteq> None"
proof -
  have "list_all (\<lambda>n. List.member asm_builtin_names n) yul_builtin_names"
    "list_all (\<lambda>n. List.member yul_builtin_names n) asm_builtin_names" by code_simp+
  then have "set yul_builtin_names = set asm_builtin_names" by (auto simp: list_all_iff)
  then show ?thesis by (simp only: is_yul_builtin_def asm_builtin_sig_defined)
qed

text \<open>The names the translator refuses as builtins are exactly the names the checker types
  as assembly builtins, so both resolve a call in inline assembly the same way.\<close>

theorem yul_builtins_are_asm_builtins: "is_yul_builtin n \<longleftrightarrow> asm_builtin_sig sp n \<noteq> None"
  by (rule yul_builtin_iff)

definition builtin_row_lowers :: "span \<Rightarrow> name \<times> fun_sig \<Rightarrow> bool" where
  "builtin_row_lowers sp = (\<lambda>(n, s). case lower_callee n {} of
      Identity_callee \<Rightarrow> length (sig_args s) = 1 \<and> return_count (sig_ret s) = 1
    | Call_callee m \<Rightarrow>
        (case asm_builtin_sig sp m of
           None \<Rightarrow> False
         | Some s' \<Rightarrow> length (sig_args s') = length (sig_args s)
             \<and> return_count (sig_ret s') = return_count (sig_ret s)))"

lemma builtin_rows_lower: "list_all (builtin_row_lowers sp) (builtin_rows sp)"
  by code_simp

text \<open>C36. Every builtin that the checker admits in Hull expressions is lowered either to its own
  argument or to a Yul builtin that takes as many arguments and returns as many words as the
  checker's signature says.\<close>

theorem hull_builtins_lower_correctly:
  assumes "builtin_funs sp f = Some s"
  shows "case lower_callee f {} of
      Identity_callee \<Rightarrow> length (sig_args s) = 1 \<and> return_count (sig_ret s) = 1
    | Call_callee m \<Rightarrow> is_yul_builtin m \<and>
        (\<exists>s'. asm_builtin_sig sp m = Some s' \<and> length (sig_args s') = length (sig_args s)
          \<and> return_count (sig_ret s') = return_count (sig_ret s))"
proof -
  have "(f, s) \<in> set (builtin_rows sp)"
    using assms by (auto simp: builtin_funs_map_of dest: map_of_SomeD)
  then have "builtin_row_lowers sp (f, s)" using builtin_rows_lower by (simp add: list_all_iff)
  moreover have "is_yul_builtin m \<longleftrightarrow> (\<exists>s'. asm_builtin_sig sp m = Some s')" for m
    using yul_builtin_iff by simp
  ultimately show ?thesis
    by (auto simp: builtin_row_lowers_def split: lowered_callee.splits option.splits)
qed

theorem hull_builtins_lower_correctly_witness: "is_yul_builtin ''not''"
proof -
  have "lower_callee ''bnotWord'' {} = Call_callee ''not''" by (simp add: lower_callee_def callee_arms_def)
  moreover have "map_of (rev (builtin_rows \<lparr>anchor = 0, sp_begin = 0, sp_end = 0\<rparr>)) ''bnotWord'' \<noteq> None"
    by code_simp
  ultimately show ?thesis
    using hull_builtins_lower_correctly[of "\<lparr>anchor = 0, sp_begin = 0, sp_end = 0\<rparr>" "''bnotWord''"]
    by (auto simp: builtin_funs_map_of)
qed

end
