(* ===== verification/Sem_Results.thy ===== *)
theory Sem_Results
  imports Prelude
begin

text \<open>
  Results of the two reference interpreters, for Hull and for Yul, and the relation that says
  that one run simulates another. A run returns, or it stops: \<open>Stuck\<close> is a type or scope error,
  \<open>Timeout\<close> means that the fuel ran out, \<open>Halted w\<close> that a builtin ended the execution in the
  machine state \<open>w\<close>.
\<close>

datatype 'w stop = Stuck | Timeout | Halted 'w

text \<open>The second run does what the first does, which does not get stuck; the values are related by
  \<open>R\<close>.\<close>

definition sim :: "('a \<Rightarrow> 'b \<Rightarrow> bool) \<Rightarrow> 'w stop + 'a \<Rightarrow> 'w stop + 'b \<Rightarrow> bool" where
  "sim R a b \<longleftrightarrow>
     (case a of
        Inr x \<Rightarrow> (\<exists>y. b = Inr y \<and> R x y)
      | Inl e \<Rightarrow> e \<noteq> Stuck \<and> b = Inl e)"

lemma sim_Inr [simp]: "sim R (Inr x) b \<longleftrightarrow> (\<exists>y. b = Inr y \<and> R x y)"
  by (simp add: sim_def)

lemma sim_Inl [simp]: "sim R (Inl e) b \<longleftrightarrow> e \<noteq> Stuck \<and> b = Inl e"
  by (simp add: sim_def)

lemma sim_cases [case_names Returns Stops]:
  assumes "sim R a b"
  obtains x y where "a = Inr x" "b = Inr y" "R x y" | e where "a = Inl e" "b = Inl e" "e \<noteq> Stuck"
  using assms by (cases a) auto

lemma sim_mono: "sim R a b \<Longrightarrow> (\<And>x y. R x y \<Longrightarrow> S x y) \<Longrightarrow> sim S a b"
  by (cases a) auto

text \<open>Simulation composes along the sequencing of computations.\<close>

lemma sim_bind:
  assumes "sim R a b" and "\<And>x y. R x y \<Longrightarrow> sim S (f x) (g y)"
  shows "sim S (res_bind a f) (res_bind b g)"
  using assms by (cases a) auto

lemma sim_bind_right:
  assumes "sim R a b" and "\<And>x y. R x y \<Longrightarrow> \<exists>z. g y = Inr z \<and> S x z"
  shows "sim S a (res_bind b g)"
  using assms by (cases a) auto

lemma sim_bind_left:
  assumes "sim R a b" and "\<And>x y. R x y \<Longrightarrow> \<exists>z. f x = Inr z \<and> S z y"
  shows "sim S (res_bind a f) b"
  using assms by (cases a) (fastforce simp: sim_def)+

lemma sim_not_stuck: "sim R a b \<Longrightarrow> a \<noteq> Inl Stuck"
  by auto

end
