(* ===== verification/Yul_Sem.thy ===== *)
theory Yul_Sem
  imports Sem_Results Yul_Pretty_Props
begin

text \<open>
  A reference semantics of the Yul that the translator produces: an interpreter over a store of
  256-bit variables and an abstract machine state \<open>'w\<close> (memory, storage, call context). It is the
  documented meaning of Yul, which the sources rely on but do not contain: arguments are
  evaluated from right to left, a block drops the variables it declares, redeclaring a visible
  variable is an error, a switch takes the first case with the value. Calls are a parameter, so that
  the same interpreter serves for the builtins of the machine and for the functions of a
  program. Loop iterations consume fuel; running out of it is the result \<open>Timeout\<close>, which is
  different from every other result.
\<close>

datatype mode = MNormal | MBreak | MContinue | MLeave

type_synonym store = "name \<rightharpoonup> 256 word"

type_synonym 'w ycalls = "name \<Rightarrow> 256 word list \<Rightarrow> 'w \<Rightarrow> 'w stop + (256 word list \<times> 'w)"

section \<open>Literals\<close>

text \<open>A string literal is its bytes, left aligned in a word; longer ones have no value.\<close>

definition bytes_word :: "nat list \<Rightarrow> 256 word" where
  "bytes_word bs = of_nat (fold (\<lambda>b n. n * 256 + b) bs 0 * 256 ^ (32 - length bs))"

definition number_word :: "string \<Rightarrow> 256 word option" where
  "number_word s =
     (if is_ok (canonical_numeric_lit s) \<and> literal_value s < 2 ^ 256
      then Some (of_nat (literal_value s)) else None)"

fun lit_word :: "yul_literal \<Rightarrow> 256 word option" where
  "lit_word (YNumber s) = number_word s"
| "lit_word (YHex s) = number_word s"
| "lit_word (YString s) =
     (let bs = utf8_bytes s in if length bs \<le> 32 then Some (bytes_word bs) else None)"
| "lit_word (YBool b) = Some (of_bool b)"

section \<open>Expressions\<close>

fun yeval :: "'w ycalls \<Rightarrow> store \<Rightarrow> yul_expr \<Rightarrow> 'w \<Rightarrow> 'w stop + (256 word list \<times> 'w)"
  and yargs :: "'w ycalls \<Rightarrow> store \<Rightarrow> yul_expr list \<Rightarrow> 'w \<Rightarrow> 'w stop + (256 word list \<times> 'w)" where
  "yeval C \<sigma> (YLit l) w = (case lit_word l of Some v \<Rightarrow> Inr ([v], w) | None \<Rightarrow> Inl Stuck)"
| "yeval C \<sigma> (YIdent x) w = (case \<sigma> x of Some v \<Rightarrow> Inr ([v], w) | None \<Rightarrow> Inl Stuck)"
| "yeval C \<sigma> (YCall f es) w = res_bind (yargs C \<sigma> es w) (\<lambda>(vs, w). C f vs w)"
| "yargs C \<sigma> [] w = Inr ([], w)"
| "yargs C \<sigma> (e # es) w =
     res_bind (yargs C \<sigma> es w) (\<lambda>(vs, w).
     res_bind (yeval C \<sigma> e w) (\<lambda>(us, w).
     case us of [u] \<Rightarrow> Inr (u # vs, w) | _ \<Rightarrow> Inl Stuck))"

definition yeval1 :: "'w ycalls \<Rightarrow> store \<Rightarrow> yul_expr \<Rightarrow> 'w \<Rightarrow> 'w stop + (256 word \<times> 'w)" where
  "yeval1 C \<sigma> e w =
     res_bind (yeval C \<sigma> e w) (\<lambda>(us, w). case us of [u] \<Rightarrow> Inr (u, w) | _ \<Rightarrow> Inl Stuck)"

section \<open>Statements\<close>

definition declare_vars :: "name list \<Rightarrow> 256 word list \<Rightarrow> store \<Rightarrow> 'w stop + store" where
  "declare_vars xs vs \<sigma> =
     (if length vs = length xs \<and> distinct xs \<and> list_all (\<lambda>x. \<sigma> x = None) xs
      then Inr (\<sigma>(xs [\<mapsto>] vs)) else Inl Stuck)"

definition assign_vars :: "name list \<Rightarrow> 256 word list \<Rightarrow> store \<Rightarrow> 'w stop + store" where
  "assign_vars xs vs \<sigma> =
     (if length vs = length xs \<and> distinct xs \<and> list_all (\<lambda>x. \<sigma> x \<noteq> None) xs
      then Inr (\<sigma>(xs [\<mapsto>] vs)) else Inl Stuck)"

fun find_case :: "256 word \<Rightarrow> yul_case list \<Rightarrow> yul_stmt list option" where
  "find_case v [] = None"
| "find_case v (YCase l body # cases) = (if lit_word l = Some v then Some body else find_case v cases)"

lemma find_case_size: "find_case v cases = Some body \<Longrightarrow> size_list size body < size_list size cases"
proof (induction cases)
  case (Cons c cases)
  then show ?case by (cases c) (auto split: if_splits)
qed simp

type_synonym 'w yres = "'w stop + (mode \<times> store \<times> 'w)"

text \<open>The fuel decreases in every iteration, the size of the code everywhere else.\<close>

function (sequential) yseq :: "'w ycalls \<Rightarrow> nat \<Rightarrow> yul_stmt list \<Rightarrow> store \<Rightarrow> 'w \<Rightarrow> 'w yres"
  and yblock :: "'w ycalls \<Rightarrow> nat \<Rightarrow> yul_stmt list \<Rightarrow> store \<Rightarrow> 'w \<Rightarrow> 'w yres"
  and ystmt :: "'w ycalls \<Rightarrow> nat \<Rightarrow> yul_stmt \<Rightarrow> store \<Rightarrow> 'w \<Rightarrow> 'w yres"
  and yloop :: "'w ycalls \<Rightarrow> nat \<Rightarrow> yul_expr \<Rightarrow> yul_stmt list \<Rightarrow> yul_stmt list \<Rightarrow> store \<Rightarrow> 'w \<Rightarrow> 'w yres" where
  "yseq C n [] \<sigma> w = Inr (MNormal, \<sigma>, w)"
| "yseq C n (s # ss) \<sigma> w =
     res_bind (ystmt C n s \<sigma> w) (\<lambda>(m, \<sigma>, w).
     if m = MNormal then yseq C n ss \<sigma> w else Inr (m, \<sigma>, w))"
| "yblock C n ss \<sigma> w = res_bind (yseq C n ss \<sigma> w) (\<lambda>(m, \<sigma>', w). Inr (m, \<sigma>' |` dom \<sigma>, w))"
| "ystmt C n (YBlock ss) \<sigma> w = yblock C n ss \<sigma> w"
| "ystmt C n (YFunction _ _ _ _) \<sigma> w = Inr (MNormal, \<sigma>, w)"
| "ystmt C n (YLet xs None) \<sigma> w =
     res_bind (declare_vars xs (replicate (length xs) 0) \<sigma>) (\<lambda>\<sigma>. Inr (MNormal, \<sigma>, w))"
| "ystmt C n (YLet xs (Some e)) \<sigma> w =
     res_bind (yeval C \<sigma> e w) (\<lambda>(vs, w).
     res_bind (declare_vars xs vs \<sigma>) (\<lambda>\<sigma>. Inr (MNormal, \<sigma>, w)))"
| "ystmt C n (YAssign xs e) \<sigma> w =
     res_bind (yeval C \<sigma> e w) (\<lambda>(vs, w).
     res_bind (assign_vars xs vs \<sigma>) (\<lambda>\<sigma>. Inr (MNormal, \<sigma>, w)))"
| "ystmt C n (YIf e body) \<sigma> w =
     res_bind (yeval1 C \<sigma> e w) (\<lambda>(v, w).
     if v = 0 then Inr (MNormal, \<sigma>, w) else yblock C n body \<sigma> w)"
| "ystmt C n (YSwitch e cases dflt) \<sigma> w =
     res_bind (yeval1 C \<sigma> e w) (\<lambda>(v, w).
     case find_case v cases of
       Some body \<Rightarrow> yblock C n body \<sigma> w
     | None \<Rightarrow> (case dflt of Some body \<Rightarrow> yblock C n body \<sigma> w | None \<Rightarrow> Inr (MNormal, \<sigma>, w)))"
| "ystmt C n (YFor init cond post body) \<sigma> w =
     res_bind (yseq C n init \<sigma> w) (\<lambda>(m, \<sigma>', w).
     if m = MNormal
     then res_bind (yloop C n cond post body \<sigma>' w) (\<lambda>(m, \<sigma>', w). Inr (m, \<sigma>' |` dom \<sigma>, w))
     else Inr (m, \<sigma>' |` dom \<sigma>, w))"
| "ystmt C n YBreak \<sigma> w = Inr (MBreak, \<sigma>, w)"
| "ystmt C n YContinue \<sigma> w = Inr (MContinue, \<sigma>, w)"
| "ystmt C n YLeave \<sigma> w = Inr (MLeave, \<sigma>, w)"
| "ystmt C n (YComment _) \<sigma> w = Inr (MNormal, \<sigma>, w)"
| "ystmt C n (YExpr e) \<sigma> w =
     res_bind (yeval C \<sigma> e w) (\<lambda>(vs, w). if vs = [] then Inr (MNormal, \<sigma>, w) else Inl Stuck)"
| "yloop C 0 cond post body \<sigma> w = Inl Timeout"
| "yloop C (Suc n) cond post body \<sigma> w =
     res_bind (yeval1 C \<sigma> cond w) (\<lambda>(v, w).
     if v = 0 then Inr (MNormal, \<sigma>, w)
     else res_bind (yblock C n body \<sigma> w) (\<lambda>(m, \<sigma>, w).
          if m = MBreak then Inr (MNormal, \<sigma>, w)
          else if m = MLeave then Inr (MLeave, \<sigma>, w)
          else res_bind (yblock C n post \<sigma> w) (\<lambda>(m, \<sigma>, w).
               if m = MNormal then yloop C n cond post body \<sigma> w else Inr (m, \<sigma>, w))))"
  by pat_completeness auto

termination
proof (relation "measures
    [case_sum (case_sum (\<lambda>(C, n, ss, \<sigma>, w). n) (\<lambda>(C, n, ss, \<sigma>, w). n))
       (case_sum (\<lambda>(C, n, s, \<sigma>, w). n) (\<lambda>(C, n, e, p, b, \<sigma>, w). n)),
     case_sum (case_sum (\<lambda>(C, n, ss, \<sigma>, w). 2 * size_list size ss) (\<lambda>(C, n, ss, \<sigma>, w). 2 * size_list size ss + 1))
       (case_sum (\<lambda>(C, n, s, \<sigma>, w). 2 * size s) (\<lambda>(C, n, e, p, b, \<sigma>, w). 0))]", goal_cases)
qed (auto dest: find_case_size)

end
