(* ===== verification/Hull_Sem.thy ===== *)
theory Hull_Sem
  imports Sem_Results Word_Literal Hull_Typing
begin

text \<open>
  A reference semantics of Hull: an interpreter over structured values. It is what the theorems
  about the translation measure the generated Yul against. Words are 256 bits wide, a
  declaration without initialiser gives the default value of its type (the comment in
  \<open>crates/hull/src/emit/emitter.rs\<close> on declarations says so), operands are evaluated from left to
  right. Calls are a parameter, as in the semantics of Yul; loop iterations consume fuel.
  Variables live in numbered cells: an environment maps names to cells, and leaving a block
  restores the environment and drops the cells of the block.
\<close>

section \<open>Values\<close>

datatype hval = VWord "256 word" | VBool bool | VUnit | VPair hval hval | VInl hval | VInr hval

text \<open>Values of a shape. Placeholders and function types have none.\<close>

fun fits :: "shape \<Rightarrow> hval \<Rightarrow> bool" where
  "fits ShWord (VWord _) = True"
| "fits ShBool (VBool _) = True"
| "fits ShUnit VUnit = True"
| "fits (ShProduct a b) (VPair u v) = (fits a u \<and> fits b v)"
| "fits (ShSum a b) (VInl v) = fits a v"
| "fits (ShSum a b) (VInr v) = fits b v"
| "fits _ _ = False"

fun default_value :: "shape \<Rightarrow> hval" where
  "default_value ShWord = VWord 0"
| "default_value ShBool = VBool False"
| "default_value ShUnit = VUnit"
| "default_value (ShProduct a b) = VPair (default_value a) (default_value b)"
| "default_value (ShSum a b) = VInl (default_value a)"
| "default_value _ = VUnit"

fun truth :: "hval \<Rightarrow> bool option" where
  "truth (VBool b) = Some b"
| "truth (VInl _) = Some False"
| "truth (VInr _) = Some True"
| "truth _ = None"

text \<open>The \<open>k\<close>-th injection into a right-nested sum; the last index names the tail itself.\<close>

fun inject :: "shape \<Rightarrow> nat \<Rightarrow> hval \<Rightarrow> hval option" where
  "inject (ShSum a b) 0 v = Some (VInl v)"
| "inject (ShSum a b) (Suc k) v = map_option VInr (inject b k v)"
| "inject s 0 v = Some v"
| "inject s (Suc k) v = None"

section \<open>Expressions\<close>

type_synonym 'w hcalls = "name \<Rightarrow> hval list \<Rightarrow> 'w \<Rightarrow> 'w stop + (hval \<times> 'w)"

fun heval :: "'w hcalls \<Rightarrow> (name \<Rightarrow> hval option) \<Rightarrow> expr \<Rightarrow> 'w \<Rightarrow> 'w stop + (hval \<times> 'w)"
  and hargs :: "'w hcalls \<Rightarrow> (name \<Rightarrow> hval option) \<Rightarrow> expr list \<Rightarrow> 'w \<Rightarrow> 'w stop + (hval list \<times> 'w)" where
  "heval H \<rho> (Expr sp t (EWord s)) w =
     (if literal_error s = None then Inr (VWord (of_nat (literal_value s)), w) else Inl Stuck)"
| "heval H \<rho> (Expr sp t (EBool b)) w = Inr (VBool b, w)"
| "heval H \<rho> (Expr sp t EUnit) w = Inr (VUnit, w)"
| "heval H \<rho> (Expr sp t (EVar x)) w = (case \<rho> x of Some v \<Rightarrow> Inr (v, w) | None \<Rightarrow> Inl Stuck)"
| "heval H \<rho> (Expr sp t (EPair l r)) w =
     res_bind (heval H \<rho> l w) (\<lambda>(u, w). res_bind (heval H \<rho> r w) (\<lambda>(v, w). Inr (VPair u v, w)))"
| "heval H \<rho> (Expr sp t (EFst e)) w =
     res_bind (heval H \<rho> e w) (\<lambda>(v, w). case v of VPair a b \<Rightarrow> Inr (a, w) | _ \<Rightarrow> Inl Stuck)"
| "heval H \<rho> (Expr sp t (ESnd e)) w =
     res_bind (heval H \<rho> e w) (\<lambda>(v, w). case v of VPair a b \<Rightarrow> Inr (b, w) | _ \<Rightarrow> Inl Stuck)"
| "heval H \<rho> (Expr sp t (EInl target e)) w =
     res_bind (heval H \<rho> e w) (\<lambda>(v, w). Inr (VInl v, w))"
| "heval H \<rho> (Expr sp t (EInr target e)) w =
     res_bind (heval H \<rho> e w) (\<lambda>(v, w). Inr (VInr v, w))"
| "heval H \<rho> (Expr sp t (EInK k target e)) w =
     res_bind (heval H \<rho> e w) (\<lambda>(v, w).
     case inject (erase target) k v of Some v \<Rightarrow> Inr (v, w) | None \<Rightarrow> Inl Stuck)"
| "heval H \<rho> (Expr sp t (ECall f es)) w = res_bind (hargs H \<rho> es w) (\<lambda>(vs, w). H f vs w)"
| "heval H \<rho> (Expr sp t (EIf target c e1 e2)) w =
     res_bind (heval H \<rho> c w) (\<lambda>(v, w).
     case truth v of
       Some b \<Rightarrow> if b then heval H \<rho> e1 w else heval H \<rho> e2 w
     | None \<Rightarrow> Inl Stuck)"
| "hargs H \<rho> [] w = Inr ([], w)"
| "hargs H \<rho> (e # es) w =
     res_bind (heval H \<rho> e w) (\<lambda>(v, w). res_bind (hargs H \<rho> es w) (\<lambda>(vs, w). Inr (v # vs, w)))"

section \<open>Words of a value\<close>

text \<open>\<open>enc s v ws\<close>: the words \<open>ws\<close> represent the value \<open>v\<close> of shape \<open>s\<close>. A word that is padding, because
  the value is on the smaller side of a sum, may be anything; an undetermined word is \<open>None\<close>.\<close>

fun enc :: "shape \<Rightarrow> hval \<Rightarrow> 256 word option list \<Rightarrow> bool" where
  "enc ShWord (VWord x) ws \<longleftrightarrow> ws = [Some x]"
| "enc ShBool (VBool b) ws \<longleftrightarrow> ws = [Some (of_bool b)]"
| "enc ShUnit VUnit ws \<longleftrightarrow> ws = []"
| "enc (ShProduct a b) (VPair u v) ws \<longleftrightarrow>
     enc a u (take (shape_slots a) ws) \<and> enc b v (drop (shape_slots a) ws)"
| "enc (ShSum a b) (VInl v) ws \<longleftrightarrow>
     length ws = 1 + max (shape_slots a) (shape_slots b) \<and> hd ws = Some 0
     \<and> enc a v (take (shape_slots a) (tl ws))"
| "enc (ShSum a b) (VInr v) ws \<longleftrightarrow>
     length ws = 1 + max (shape_slots a) (shape_slots b) \<and> hd ws = Some 1
     \<and> enc b v (take (shape_slots b) (tl ws))"
| "enc _ _ _ \<longleftrightarrow> False"

lemma enc_fits: "enc s v ws \<Longrightarrow> fits s v"
  by (induction s v ws rule: enc.induct) auto

lemma enc_length: "enc s v ws \<Longrightarrow> length ws = shape_slots s"
proof (induction s v ws rule: enc.induct)
  case (4 a b u v ws)
  then show ?case by (auto simp: min_def split: if_splits)
qed auto

text \<open>\<open>filled os ws\<close>: the words \<open>ws\<close> are \<open>os\<close> with some undetermined words determined.\<close>

definition filled :: "256 word option list \<Rightarrow> 256 word option list \<Rightarrow> bool" where
  "filled os ws \<longleftrightarrow> list_all2 (\<lambda>u w. u = None \<or> u = w) os ws"

lemma filled_refl: "filled os os"
  by (simp add: filled_def list_all2_refl)

lemma filled_length: "filled os ws \<Longrightarrow> length ws = length os"
  by (auto simp: filled_def dest: list_all2_lengthD)

lemma filled_take: "filled os ws \<Longrightarrow> filled (take n os) (take n ws)"
  by (simp add: filled_def list_all2_takeI)

lemma filled_drop: "filled os ws \<Longrightarrow> filled (drop n os) (drop n ws)"
  by (simp add: filled_def list_all2_dropI)

lemma filled_tl: "filled os ws \<Longrightarrow> filled (tl os) (tl ws)"
  using filled_drop[of os ws 1] by (simp add: drop_Suc)

lemma filled_hd: "filled os ws \<Longrightarrow> length os = Suc n \<Longrightarrow> hd os = Some x \<Longrightarrow> hd ws = Some x"
  by (cases os; cases ws) (auto simp: filled_def)

lemma filled_Nil: "filled [] ws \<longleftrightarrow> ws = []"
  by (auto simp: filled_def)

lemma filled_one: "filled [Some x] ws \<longleftrightarrow> ws = [Some x]"
  by (auto simp: filled_def list_all2_Cons1)

lemma enc_filled: "enc s v os \<Longrightarrow> filled os ws \<Longrightarrow> enc s v ws"
proof (induction s v os arbitrary: ws rule: enc.induct)
  case (4 a b u v os)
  then show ?case by (simp add: filled_take filled_drop)
next
  case (5 a b v os)
  then show ?case by (auto simp: filled_length filled_tl filled_take intro: filled_hd)
next
  case (6 a b v os)
  then show ?case by (auto simp: filled_length filled_tl filled_take intro: filled_hd)
qed (auto simp: filled_one filled_Nil)

text \<open>Zeroed words represent the default value.\<close>

fun first_order :: "shape \<Rightarrow> bool" where
  "first_order (ShProduct a b) \<longleftrightarrow> first_order a \<and> first_order b"
| "first_order (ShSum a b) \<longleftrightarrow> first_order a \<and> first_order b"
| "first_order (ShRef _) \<longleftrightarrow> False"
| "first_order (ShFunction _ _) \<longleftrightarrow> False"
| "first_order _ \<longleftrightarrow> True"

lemma enc_default:
  "first_order s \<Longrightarrow> enc s (default_value s) (replicate (shape_slots s) (Some 0))"
  by (induction s) (auto simp: min_def)

lemma enc_inject:
  assumes "shape_summand s k = Some p" and "fits p v"
  shows "\<exists>v'. inject s k v = Some v' \<and> fits s v'"
  using assms by (induction s k v rule: inject.induct) auto

end
