(* ===== verification/Yul_Store.thy ===== *)
theory Yul_Store
  imports Yul_Sem Hull_Sem Yul_Conforms Yul_Functions
begin

text \<open>
  Locations in a Yul store: the words a location denotes, when it holds a Hull value, and the
  effect of the three kinds of code the translator builds from locations, namely reading them,
  allocating stack slots and copying.
\<close>

section \<open>Reading a location\<close>

fun rd :: "store \<Rightarrow> location \<Rightarrow> 256 word option list" where
  "rd \<sigma> (LWord s) = [number_word s]"
| "rd \<sigma> (LBool b) = [Some (of_bool b)]"
| "rd \<sigma> (LStack i) = [\<sigma> (stack_name i)]"
| "rd \<sigma> (LNamed x) = [\<sigma> (yul_var_name x)]"
| "rd \<sigma> (LSeq locs) = concat (map (rd \<sigma>) locs)"
| "rd \<sigma> (LEmpty n) = replicate n None"

text \<open>Every variable of the location is declared and every literal is a word.\<close>

fun readable :: "store \<Rightarrow> location \<Rightarrow> bool" where
  "readable \<sigma> (LWord s) \<longleftrightarrow> number_word s \<noteq> None"
| "readable \<sigma> (LBool b) \<longleftrightarrow> True"
| "readable \<sigma> (LStack i) \<longleftrightarrow> \<sigma> (stack_name i) \<noteq> None"
| "readable \<sigma> (LNamed x) \<longleftrightarrow> \<sigma> (yul_var_name x) \<noteq> None"
| "readable \<sigma> (LSeq locs) \<longleftrightarrow> list_all (readable \<sigma>) locs"
| "readable \<sigma> (LEmpty n) \<longleftrightarrow> True"

text \<open>The variables that a location mentions.\<close>

fun loc_vars :: "location \<Rightarrow> name set" where
  "loc_vars (LStack i) = {stack_name i}"
| "loc_vars (LNamed x) = {yul_var_name x}"
| "loc_vars (LSeq locs) = \<Union> (set (map loc_vars locs))"
| "loc_vars _ = {}"

definition holds :: "store \<Rightarrow> location \<Rightarrow> shape \<Rightarrow> hval \<Rightarrow> bool" where
  "holds \<sigma> loc s v \<longleftrightarrow> readable \<sigma> loc \<and> conforms s loc \<and> enc s v (rd \<sigma> loc)"

lemma rd_length: "length (rd \<sigma> loc) = size_of_loc loc"
  by (induction loc rule: flatten_rhs.induct) (simp_all add: length_concat comp_def cong: map_cong)

lemma rd_cong: "(\<And>x. x \<in> loc_vars loc \<Longrightarrow> \<sigma>' x = \<sigma> x) \<Longrightarrow> rd \<sigma>' loc = rd \<sigma> loc"
proof (induction loc rule: flatten_rhs.induct)
  case (5 locs)
  then have "rd \<sigma>' l = rd \<sigma> l" if "l \<in> set locs" for l using that by simp blast
  then show ?case by (simp cong: map_cong)
qed simp_all

lemma readable_cong: "(\<And>x. x \<in> loc_vars loc \<Longrightarrow> \<sigma>' x = \<sigma> x) \<Longrightarrow> readable \<sigma>' loc = readable \<sigma> loc"
  by (induction loc rule: flatten_rhs.induct) (auto simp: list_all_iff)

lemma readable_vars: "readable \<sigma> loc \<Longrightarrow> loc_vars loc \<subseteq> dom \<sigma>"
  by (induction loc rule: flatten_rhs.induct) (auto simp: list_all_iff)

lemma holds_cong:
  assumes "\<And>x. x \<in> loc_vars loc \<Longrightarrow> \<sigma>' x = \<sigma> x"
  shows "holds \<sigma>' loc s v = holds \<sigma> loc s v"
  using rd_cong[of loc \<sigma>' \<sigma>] readable_cong[of loc \<sigma>' \<sigma>] assms by (simp add: holds_def)

lemma map_le_on_vars: "\<sigma> \<subseteq>\<^sub>m \<sigma>' \<Longrightarrow> readable \<sigma> loc \<Longrightarrow> x \<in> loc_vars loc \<Longrightarrow> \<sigma>' x = \<sigma> x"
  by (metis map_le_def readable_vars subsetD)

lemma holds_mono:
  assumes "holds \<sigma> loc s v" and "\<sigma> \<subseteq>\<^sub>m \<sigma>'"
  shows "holds \<sigma>' loc s v"
proof -
  have "\<sigma>' x = \<sigma> x" if "x \<in> loc_vars loc" for x
    using map_le_on_vars[OF assms(2) _ that] assms(1) by (simp add: holds_def)
  from holds_cong[OF this] show ?thesis using assms(1) by simp
qed

lemma holds_size: "holds \<sigma> loc s v \<Longrightarrow> size_of_loc loc = shape_slots s"
  by (simp add: holds_def conforms_size)

section \<open>Evaluating the words of a location\<close>

lemma yargs_append:
  "yargs C \<sigma> (as @ bs) w = res_bind (yargs C \<sigma> bs w) (\<lambda>(vs, w).
     res_bind (yargs C \<sigma> as w) (\<lambda>(us, w). Inr (us @ vs, w)))"
proof (induction as arbitrary: w)
  case Nil
  then show ?case by (cases "yargs C \<sigma> bs w") auto
next
  case (Cons a as)
  show ?case
  proof (cases "yargs C \<sigma> bs w")
    case (Inr p)
    obtain vs w1 where p: "p = (vs, w1)" by fastforce
    show ?thesis
    proof (cases "yargs C \<sigma> as w1")
      case (Inr q)
      obtain us w2 where "q = (us, w2)" by fastforce
      with Inr p \<open>yargs C \<sigma> bs w = Inr p\<close> show ?thesis
        by (cases "yeval C \<sigma> a w2") (auto simp: Cons split: list.split)
    qed (simp add: Cons Inr p)
  qed (simp add: Cons)
qed

lemma number_911: "number_word ''911'' = Some 911"
proof -
  have "is_ok (canonical_numeric_lit ''911'')" "literal_value ''911'' = 911" by code_simp+
  then show ?thesis by (simp add: number_word_def)
qed

text \<open>The expressions of a location evaluate without effect to words that agree with it.\<close>

lemma yargs_flatten_rhs:
  "readable \<sigma> loc \<Longrightarrow> \<exists>ws. (\<forall>w. yargs C \<sigma> (flatten_rhs loc) w = Inr (ws, w)) \<and> filled (rd \<sigma> loc) (map Some ws)"
proof (induction loc rule: flatten_rhs.induct)
  case (5 locs)
  then show ?case
  proof (induction locs)
    case Nil
    then show ?case by (simp add: filled_Nil)
  next
    case (Cons l ls)
    then obtain us ws where "\<forall>w. yargs C \<sigma> (flatten_rhs l) w = Inr (us, w)" "filled (rd \<sigma> l) (map Some us)"
      "\<forall>w. yargs C \<sigma> (concat (map flatten_rhs ls)) w = Inr (ws, w)"
      "filled (concat (map (rd \<sigma>) ls)) (map Some ws)" by fastforce
    then show ?case
      by (auto simp: yargs_append filled_def intro!: exI[of _ "us @ ws"] list_all2_appendI)
  qed
next
  case (6 n)
  show ?case
  proof (induction n)
    case 0
    then show ?case by (simp add: filled_Nil)
  next
    case (Suc n)
    then obtain ws where "\<forall>w. yargs C \<sigma> (replicate n (y_number ''911'')) w = Inr (ws, w)"
      "filled (replicate n None) (map Some ws)" by auto
    then show ?case by (auto simp: y_defs number_911 filled_def intro!: exI[of _ "911 # ws"])
  qed
qed (auto simp: y_defs filled_def)

section \<open>Sequences of statements\<close>

lemma yseq_append:
  "yseq C n (ss @ ts) \<sigma> w = res_bind (yseq C n ss \<sigma> w) (\<lambda>(m, \<sigma>, w).
     if m = MNormal then yseq C n ts \<sigma> w else Inr (m, \<sigma>, w))"
proof (induction ss arbitrary: \<sigma> w)
  case Nil
  then show ?case by simp
next
  case (Cons s ss)
  then show ?case by (cases "ystmt C n s \<sigma> w") (auto split: prod.split)
qed

lemma yseq_append_normal:
  "yseq C n ss \<sigma> w = Inr (MNormal, \<sigma>1, w1) \<Longrightarrow> yseq C n (ss @ ts) \<sigma> w = yseq C n ts \<sigma>1 w1"
  by (simp add: yseq_append)

lemma yseq_single: "yseq C n [s] \<sigma> w = ystmt C n s \<sigma> w"
  by (cases "ystmt C n s \<sigma> w") auto

section \<open>Allocating stack slots\<close>

definition zeroed :: "nat list \<Rightarrow> store \<Rightarrow> store" where
  "zeroed is \<sigma> = (\<lambda>x. if x \<in> stack_name ` set is then Some 0 else \<sigma> x)"

lemma zeroed_slot: "zeroed is \<sigma> (stack_name i) = (if i \<in> set is then Some 0 else \<sigma> (stack_name i))"
  by (auto simp: zeroed_def stack_name_inj)

lemma zeroed_grows: "(\<And>i. i \<in> set is \<Longrightarrow> \<sigma> (stack_name i) = None) \<Longrightarrow> \<sigma> \<subseteq>\<^sub>m zeroed is \<sigma>"
  by (auto simp: zeroed_def map_le_def)

lemma dom_zeroed: "dom (zeroed is \<sigma>) = dom \<sigma> \<union> stack_name ` set is"
  by (auto simp: zeroed_def)

lemma yseq_alloc:
  "distinct is \<Longrightarrow> (\<And>i. i \<in> set is \<Longrightarrow> \<sigma> (stack_name i) = None) \<Longrightarrow>
     yseq C n (map (\<lambda>i. YLet [stack_name i] None) is) \<sigma> w = Inr (MNormal, zeroed is \<sigma>, w)"
proof (induction "is" arbitrary: \<sigma>)
  case Nil
  then show ?case by (simp add: zeroed_def)
next
  case (Cons i "is")
  let ?\<sigma> = "\<sigma>(stack_name i \<mapsto> 0)"
  have none: "?\<sigma> (stack_name j) = None" if "j \<in> set is" for j
    using Cons.prems that by (auto simp: stack_name_inj)
  have "yseq C n (map (\<lambda>i. YLet [stack_name i] None) is) ?\<sigma> w = Inr (MNormal, zeroed is ?\<sigma>, w)"
    by (rule Cons.IH[rotated]) (use Cons.prems(1) in \<open>simp_all only: none distinct.simps\<close>)
  moreover have "zeroed is ?\<sigma> = zeroed (i # is) \<sigma>" by (auto simp: zeroed_def fun_eq_iff)
  moreover have "\<sigma> (stack_name i) = None" using Cons.prems(2) by simp
  ultimately show ?case by (simp add: declare_vars_def del: fun_upd_apply)
qed

text \<open>Locations that consist of stack slots.\<close>

lemma stack_only_vars: "stack_only loc \<Longrightarrow> loc_vars loc = stack_name ` set (stack_slots loc)"
  by (induction loc rule: stack_only.induct) (auto simp: list_all_iff)

lemma rd_stack_only: "stack_only loc \<Longrightarrow> rd \<sigma> loc = map (\<lambda>i. \<sigma> (stack_name i)) (stack_slots loc)"
proof (induction loc rule: stack_only.induct)
  case (2 locs)
  then have "\<And>l. l \<in> set locs \<Longrightarrow> rd \<sigma> l = map (\<lambda>i. \<sigma> (stack_name i)) (stack_slots l)"
    by (simp add: list_all_iff)
  then show ?case by (simp add: map_concat comp_def cong: map_cong)
qed simp_all

lemma readable_stack_only:
  "stack_only loc \<Longrightarrow> readable \<sigma> loc \<longleftrightarrow> (\<forall>i\<in>set (stack_slots loc). \<sigma> (stack_name i) \<noteq> None)"
  by (induction loc rule: stack_only.induct) (auto simp: list_all_iff)

section \<open>Assigning words\<close>

lemma map_upds_other: "x \<notin> set xs \<Longrightarrow> (\<sigma>(xs [\<mapsto>] vs)) x = \<sigma> x"
  by simp

lemma map_upds_read:
  "distinct xs \<Longrightarrow> length vs = length xs \<Longrightarrow> map (\<sigma>(xs [\<mapsto>] vs)) xs = map Some vs"
proof (induction xs arbitrary: vs \<sigma>)
  case Nil
  then show ?case by simp
next
  case (Cons x xs)
  then obtain u us where "vs = u # us" by (cases vs) auto
  with Cons.prems Cons.IH[of us "\<sigma>(x \<mapsto> u)"] show ?case
    by (simp del: map_upds_twist fun_upd_apply add: fun_upd_same)
qed

section \<open>Copying\<close>

lemma concat_map_concat: "concat (map (\<lambda>x. concat (g x)) xs) = concat (concat (map g xs))"
  by (induction xs) simp_all

text \<open>The variables of a place, in the order of its words.\<close>

definition place_names :: "location \<Rightarrow> name list" where
  "place_names loc = (case flatten_lhs loc of Inr ns \<Rightarrow> ns | Inl _ \<Rightarrow> [])"

lemma place_names_simps [simp]:
  "place_names (LStack i) = [stack_name i]"
  "place_names (LNamed x) = [yul_var_name x]"
  by (simp_all add: place_names_def)

lemma place_names_flat:
  "is_place loc \<Longrightarrow> flatten_lhs loc = Inr (concat (map place_names (flatten_locs loc)))"
proof (induction loc rule: flatten_lhs.induct)
  case (3 locs)
  then have "\<And>l. l \<in> set locs \<Longrightarrow> flatten_lhs l = Inr (concat (map place_names (flatten_locs l)))"
    by (simp add: list_all_iff)
  then have "res_all flatten_lhs locs = Inr (map (\<lambda>l. concat (map place_names (flatten_locs l))) locs)"
    by (induction locs) simp_all
  then show ?case by (simp add: map_concat comp_def concat_map_concat)
qed simp_all

lemma place_names_concat: "is_place loc \<Longrightarrow> place_names loc = concat (map place_names (flatten_locs loc))"
  by (simp add: place_names_def[of loc] place_names_flat)

lemma place_names_vars: "is_place loc \<Longrightarrow> set (place_names loc) = loc_vars loc"
proof -
  assume p: "is_place loc"
  have "set (concat (map place_names (flatten_locs loc))) = loc_vars loc"
    using p by (induction loc rule: flatten_locs.induct) (auto simp: list_all_iff)
  with p show ?thesis by (simp add: place_names_concat)
qed

lemma rd_flatten: "rd \<sigma> loc = concat (map (rd \<sigma>) (flatten_locs loc))"
proof (induction loc rule: flatten_locs.induct)
  case (1 n)
  show ?case by (induction n) simp_all
next
  case (2 locs)
  then show ?case by (simp add: map_concat comp_def concat_map_concat cong: map_cong)
qed simp_all

lemma readable_flatten: "readable \<sigma> loc \<longleftrightarrow> list_all (readable \<sigma>) (flatten_locs loc)"
  by (induction loc rule: flatten_locs.induct) (auto simp: list_all_iff)

lemma loc_vars_flatten: "loc_vars loc = (\<Union>l\<in>set (flatten_locs loc). loc_vars l)"
  by (induction loc rule: flatten_locs.induct) auto

text \<open>What a copy does: only the destination changes, and it then holds the words of the source.\<close>

definition copies :: "location list \<Rightarrow> location list \<Rightarrow> store \<Rightarrow> store \<Rightarrow> bool" where
  "copies ls rs \<sigma> \<sigma>' \<longleftrightarrow> dom \<sigma>' = dom \<sigma>
     \<and> (\<forall>x. x \<notin> (\<Union>l\<in>set ls. loc_vars l) \<longrightarrow> \<sigma>' x = \<sigma> x)
     \<and> filled (concat (map (rd \<sigma>) rs)) (concat (map (rd \<sigma>') ls))"

lemma load_loc_value:
  assumes "\<not> is_seq loc" and "readable \<sigma> loc" and "size_of_loc loc = 1" and "load_loc loc = Inr e"
  shows "\<exists>v. yeval C \<sigma> e w = Inr ([v], w) \<and> filled (rd \<sigma> loc) [Some v]"
proof (cases loc)
  case (LEmpty k)
  with assms show ?thesis by (auto simp: y_defs number_911 filled_def numeral_eq_Suc)
qed (use assms in \<open>auto simp: y_defs filled_def\<close>)

lemma copy_flat_eq:
  assumes "is_place l" and "\<not> is_seq l" and "\<not> is_seq r"
  shows "copy_locs l r = (case r of LEmpty k \<Rightarrow> Inr []
    | _ \<Rightarrow> res_bind (load_loc r) (\<lambda>e. Inr [YAssign (place_names l) e]))"
  using assms by (cases l; cases r) (simp_all add: copy_locs.simps)

lemma copy_flat:
  assumes c: "copy_locs l r = Inr ss" and l: "is_place l" "\<not> is_seq l" and r: "\<not> is_seq r" "size_of_loc r = 1"
    and \<sigma>: "loc_vars l \<subseteq> dom \<sigma>" "readable \<sigma> r"
  shows "\<exists>\<sigma>'. yseq C n ss \<sigma> w = Inr (MNormal, \<sigma>', w) \<and> copies [l] [r] \<sigma> \<sigma>'"
proof -
  obtain x where x: "place_names l = [x]" "loc_vars l = {x}" "\<And>\<tau>. rd \<tau> l = [\<tau> x]"
    using l by (cases l) auto
  then have dx: "\<sigma> x \<noteq> None" using \<sigma>(1) by auto
  show ?thesis
  proof (cases "\<exists>k. r = LEmpty k")
    case True
    then have "ss = []" using c copy_flat_eq[OF l r(1)] by auto
    moreover have "rd \<sigma> r = [None]" using True r(2) by auto
    ultimately show ?thesis using x by (auto simp: copies_def filled_def)
  next
    case False
    then have "copy_locs l r = res_bind (load_loc r) (\<lambda>e. Inr [YAssign (place_names l) e])"
      using copy_flat_eq[OF l r(1)] by (cases r) simp_all
    with c have "res_bind (load_loc r) (\<lambda>e. Inr [YAssign (place_names l) e]) = Inr ss" by simp
    then obtain e where e: "load_loc r = Inr e" "ss = [YAssign [x] e]"
      using x(1) by (cases "load_loc r") simp_all
    obtain v where v: "yeval C \<sigma> e w = Inr ([v], w)" "filled (rd \<sigma> r) [Some v]"
      using load_loc_value[OF r(1) \<sigma>(2) r(2) e(1), of C w] by blast
    have "yseq C n ss \<sigma> w = Inr (MNormal, \<sigma>(x \<mapsto> v), w)"
      using e(2) v(1) dx by (simp add: assign_vars_def)
    moreover have "copies [l] [r] \<sigma> (\<sigma>(x \<mapsto> v))"
      using v(2) x dx by (auto simp: copies_def)
    ultimately show ?thesis by blast
  qed
qed

lemma copies_Cons:
  assumes 1: "copies [l] [r] \<sigma> \<sigma>1" and 2: "copies ls rs \<sigma>1 \<sigma>2"
    and l: "loc_vars l \<inter> (\<Union>l\<in>set ls. loc_vars l) = {}" and r: "\<And>r'. r' \<in> set rs \<Longrightarrow> loc_vars l \<inter> loc_vars r' = {}"
  shows "copies (l # ls) (r # rs) \<sigma> \<sigma>2"
proof -
  have "rd \<sigma>2 l = rd \<sigma>1 l" using 2 l by (intro rd_cong) (unfold copies_def, blast)
  moreover have "rd \<sigma>1 r' = rd \<sigma> r'" if "r' \<in> set rs" for r'
    using 1 r[OF that] by (intro rd_cong) (auto simp: copies_def)
  then have "map (rd \<sigma>1) rs = map (rd \<sigma>) rs" by simp
  ultimately have "filled (concat (map (rd \<sigma>) (r # rs))) (concat (map (rd \<sigma>2) (l # ls)))"
    using 1 2 unfolding copies_def filled_def by (simp add: list_all2_appendI del: map_eq_conv)
  with 1 2 show ?thesis by (simp add: copies_def)
qed

lemma copy_list:
  assumes "res_all (\<lambda>(l, r). copy_locs l r) (zip ls rs) = Inr chunks" and "length ls = length rs"
    and "list_all (\<lambda>l. is_place l \<and> \<not> is_seq l) ls" and "list_all (\<lambda>r. \<not> is_seq r \<and> size_of_loc r = 1) rs"
    and "distinct (concat (map place_names ls))" and "(\<Union>l\<in>set ls. loc_vars l) \<subseteq> dom \<sigma>"
    and "list_all (readable \<sigma>) rs" and "(\<Union>l\<in>set ls. loc_vars l) \<inter> (\<Union>r\<in>set rs. loc_vars r) = {}"
  shows "\<exists>\<sigma>'. yseq C n (concat chunks) \<sigma> w = Inr (MNormal, \<sigma>', w) \<and> copies ls rs \<sigma> \<sigma>'"
  using assms
proof (induction ls arbitrary: rs chunks \<sigma>)
  case Nil
  then show ?case by (auto simp: copies_def filled_def)
next
  case (Cons l ls)
  then obtain r rs' where rs: "rs = r # rs'" by (cases rs) auto
  with Cons.prems(1) obtain c cs where c: "copy_locs l r = Inr c"
    "res_all (\<lambda>(l, r). copy_locs l r) (zip ls rs') = Inr cs" "chunks = c # cs"
    by (auto simp: res_elims)
  obtain \<sigma>1 where 1: "yseq C n c \<sigma> w = Inr (MNormal, \<sigma>1, w)" "copies [l] [r] \<sigma> \<sigma>1"
    using copy_flat[OF c(1), where \<sigma> = \<sigma> and n = n and w = w and C = C] Cons.prems(3,4,6,7) rs by auto
  have apart: "loc_vars l \<inter> (\<Union>l\<in>set ls. loc_vars l) = {}"
    using Cons.prems(3,5) by (auto simp: list_all_iff place_names_vars[symmetric])
  have keep: "\<sigma>1 x = \<sigma> x" if "x \<in> loc_vars r'" "r' \<in> set rs'" for x r'
    using 1(2) Cons.prems(8) that rs by (auto simp: copies_def)
  have "readable \<sigma>1 r'" if "r' \<in> set rs'" for r'
    using readable_cong[of r' \<sigma>1 \<sigma>] keep that Cons.prems(7) rs by (simp add: list_all_iff)
  then have "list_all (readable \<sigma>1) rs'" by (simp add: list_all_iff)
  moreover have disj: "(\<Union>l\<in>set ls. loc_vars l) \<inter> (\<Union>r\<in>set rs'. loc_vars r) = {}"
    using Cons.prems(8) rs by auto
  ultimately obtain \<sigma>2 where 2: "yseq C n (concat cs) \<sigma>1 w = Inr (MNormal, \<sigma>2, w)" "copies ls rs' \<sigma>1 \<sigma>2"
    using Cons.IH[OF c(2), of \<sigma>1] Cons.prems 1(2) rs disj by (auto simp: copies_def)
  have "copies (l # ls) rs \<sigma> \<sigma>2"
    unfolding rs using Cons.prems(8) rs by (intro copies_Cons[OF 1(2) 2(2) apart]) auto
  with 1(1) 2(1) c(3) show ?case by (auto simp: yseq_append_normal)
qed

text \<open>Copying between locations of the same size that share no variable.\<close>

lemma copy_locs_exec:
  assumes c: "copy_locs dst src = Inr ss" and p: "is_place dst" "distinct (place_names dst)"
    and sz: "size_of_loc dst = size_of_loc src"
    and \<sigma>: "loc_vars dst \<subseteq> dom \<sigma>" "readable \<sigma> src" and dj: "loc_vars dst \<inter> loc_vars src = {}"
  shows "\<exists>\<sigma>'. yseq C n ss \<sigma> w = Inr (MNormal, \<sigma>', w) \<and> dom \<sigma>' = dom \<sigma>
    \<and> (\<forall>x. x \<notin> loc_vars dst \<longrightarrow> \<sigma>' x = \<sigma> x) \<and> filled (rd \<sigma> src) (rd \<sigma>' dst)"
proof (cases "is_seq dst \<or> is_seq src")
  case False
  then have "size_of_loc dst = 1" using p(1) by (cases dst) auto
  with False copy_flat[OF c p(1) _ _ _ \<sigma>] sz show ?thesis by (auto simp: copies_def)
next
  case True
  let ?ls = "flatten_locs dst" and ?rs = "flatten_locs src"
  from True c sz obtain chunks where ch: "res_all (\<lambda>(l, r). copy_locs l r) (zip ?ls ?rs) = Inr chunks"
    "ss = concat chunks"
    by (subst (asm) copy_locs.simps) (auto simp: flatten_locs_length res_elims)
  have flat: "list_all (\<lambda>l. is_place l \<and> \<not> is_seq l) ?ls" "list_all (\<lambda>r. \<not> is_seq r \<and> size_of_loc r = 1) ?rs"
    using flatten_locs_place[OF p(1)] flatten_locs_sizes[of src]
    by (auto simp: list_all_iff dest: flatten_locs_flat)
  have "\<exists>\<sigma>'. yseq C n (concat chunks) \<sigma> w = Inr (MNormal, \<sigma>', w) \<and> copies ?ls ?rs \<sigma> \<sigma>'"
    by (rule copy_list[OF ch(1) _ flat])
       (use p sz \<sigma> dj in \<open>simp_all add: flatten_locs_length place_names_concat[OF p(1), symmetric]
          loc_vars_flatten[symmetric] readable_flatten[symmetric] del: flatten_locs.simps\<close>)
  then obtain \<sigma>' where e: "yseq C n ss \<sigma> w = Inr (MNormal, \<sigma>', w)" "copies ?ls ?rs \<sigma> \<sigma>'"
    by (auto simp: ch(2))
  then show ?thesis
    unfolding copies_def rd_flatten[of _ src] rd_flatten[of _ dst] loc_vars_flatten[of dst] by blast
qed

end
