(* ===== verification/Lower_Runs.thy ===== *)
theory Lower_Runs
  imports Yul_Store Yul_Lower_Sound
begin

text \<open>
  The framework in which lowering is shown to preserve meaning: locations that hold a value, the
  changes that generated code makes to a store, the correspondence of a Hull environment with a
  store, and \<open>runs\<close>, which says that a piece of generated code computes what a Hull computation
  computes.
\<close>

section \<open>Locations that hold a value\<close>

lemma rd_pad: "rd \<sigma> (pad_to_size loc n) = rd \<sigma> loc @ replicate (n - size_of_loc loc) None"
  by (simp add: pad_to_size_def Let_def)

lemma readable_pad: "readable \<sigma> (pad_to_size loc n) = readable \<sigma> loc"
  by (simp add: pad_to_size_def Let_def)

lemma enc_pad: "enc s v ws \<Longrightarrow> enc s v (take (shape_slots s) (ws @ us))"
  using enc_length[of s v ws] by simp

lemma holds_pair:
  "holds \<sigma> (LSeq [l, r]) (ShProduct a b) (VPair u v) \<longleftrightarrow> holds \<sigma> l a u \<and> holds \<sigma> r b v"
proof -
  have "take (shape_slots a) (rd \<sigma> l @ rd \<sigma> r) = rd \<sigma> l" "drop (shape_slots a) (rd \<sigma> l @ rd \<sigma> r) = rd \<sigma> r"
    if "conforms a l" using conforms_size[OF that] by (simp_all add: rd_length)
  then show ?thesis by (auto simp: holds_def conforms_product)
qed

lemma holds_product:
  assumes "holds \<sigma> loc (ShProduct a b) v"
  obtains l r u1 u2 where "loc = LSeq [l, r]" "v = VPair u1 u2" "holds \<sigma> l a u1" "holds \<sigma> r b u2"
proof -
  from assms obtain u1 u2 where v: "v = VPair u1 u2"
    by (cases "(ShProduct a b, v, rd \<sigma> loc)" rule: enc.cases) (auto simp: holds_def)
  moreover from assms obtain l r where "loc = LSeq [l, r]" by (auto simp: holds_def conforms_product)
  ultimately show ?thesis using that assms by (simp add: holds_pair)
qed

lemma enc_tag:
  "length ws = max (shape_slots a) (shape_slots b) \<Longrightarrow> enc a v (take (shape_slots a) ws) \<Longrightarrow>
     enc (ShSum a b) (VInl v) (Some 0 # ws)"
  "length ws = max (shape_slots a) (shape_slots b) \<Longrightarrow> enc b v (take (shape_slots b) ws) \<Longrightarrow>
     enc (ShSum a b) (VInr v) (Some 1 # ws)"
  by simp_all

lemma holds_injection:
  assumes "holds \<sigma> loc s v"
  shows "s = a \<Longrightarrow> holds \<sigma> (LSeq [LBool False, pad_to_size loc (max (shape_slots a) (shape_slots b))]) (ShSum a b) (VInl v)"
    and "s = b \<Longrightarrow> holds \<sigma> (LSeq [LBool True, pad_to_size loc (max (shape_slots a) (shape_slots b))]) (ShSum a b) (VInr v)"
  using assms holds_size[OF assms]
  by (auto simp: holds_def readable_pad rd_pad rd_length pad_to_size_size enc_pad)

lemma holds_in_k:
  assumes "shape_summand (erase t) k = Some s" and "holds \<sigma> loc s v"
  shows "\<exists>loc' v'. lower_in_k_loc t k loc = Inr loc' \<and> inject (erase t) k v = Some v' \<and> holds \<sigma> loc' (erase t) v'"
  using assms
proof (induction t k loc rule: lower_in_k_loc.induct)
  case (1 target index payload)
  show ?case
  proof (cases "\<exists>l r. ty_kind (strip_named target) = TySum l r")
    case True
    then obtain l r where k: "ty_kind (strip_named target) = TySum l r" by blast
    then have e: "erase target = ShSum (erase l) (erase r)" by (rule erase_of_strip_kind)
    show ?thesis
    proof (cases index)
      case 0
      with e 1(3) have "s = erase l" by simp
      with 0 k e holds_injection(1)[OF 1(4)] show ?thesis
        by (subst lower_in_k_loc.simps) (simp add: max_size_shape)
    next
      case (Suc i)
      with k e 1(1)[OF k] 1(3,4) obtain nested v' where n: "lower_in_k_loc r i payload = Inr nested"
        "inject (erase r) i v = Some v'" "holds \<sigma> nested (erase r) v'" by auto
      with Suc k e holds_injection(2)[OF n(3)] show ?thesis
        by (subst lower_in_k_loc.simps) (simp add: max_size_shape)
    qed
  next
    case False
    then have ns: "\<And>a b. erase target \<noteq> ShSum a b" by (auto simp: erase_kind_sum)
    then have "index = 0 \<and> s = erase target"
      using 1(3) by (cases "erase target"; cases index) auto
    moreover have "inject (erase target) 0 v = Some v" using ns by (cases "erase target") auto
    ultimately show ?thesis
      using False 1(4) by (subst lower_in_k_loc.simps) (auto split: ty_kind.split)
  qed
qed

lemma pad_vars: "loc_vars (pad_to_size loc n) = loc_vars loc"
  by (simp add: pad_to_size_def Let_def)

lemma lower_in_k_vars: "lower_in_k_loc t k loc = Inr loc' \<Longrightarrow> loc_vars loc' \<subseteq> loc_vars loc"
proof (induction t k loc arbitrary: loc' rule: lower_in_k_loc.induct)
  case (1 target index payload)
  show ?case
  proof (cases "\<exists>l r. ty_kind (strip_named target) = TySum l r")
    case True
    then obtain l r where k: "ty_kind (strip_named target) = TySum l r" by blast
    show ?thesis
    proof (cases index)
      case 0
      with 1(3) k show ?thesis
        by (auto simp: lower_in_k_loc.simps[of target] max_size_shape pad_vars)
    next
      case (Suc i)
      with 1(3) k obtain nested where n: "lower_in_k_loc r i payload = Inr nested"
        "loc_vars loc' = loc_vars nested"
        by (auto simp: lower_in_k_loc.simps[of target] max_size_shape pad_vars res_elims)
      with 1(1)[OF k, of nested] Suc show ?thesis by simp
    qed
  next
    case False
    with 1(3) have "loc' = payload"
      by (subst (asm) lower_in_k_loc.simps)
         (auto split: ty_kind.splits if_splits dest: strip_named_not_named[THEN notE])
    then show ?thesis by simp
  qed
qed

lemma holds_conforms: "holds \<sigma> loc s v \<Longrightarrow> conforms s loc"
  by (simp add: holds_def)

section \<open>Literals and conditions\<close>

lemma number_word_canonical:
  assumes "literal_error v = None"
  shows "\<exists>r. canonical_word_lit v = Inr r \<and> number_word r = Some (of_nat (literal_value v))"
proof -
  obtain r where r: "canonical_word_lit v = Inr r" "literal_value r = literal_value v mod word_modulus"
    "canonical_numeric_lit r = Inr r"
    using canonical_word_lit_ok[OF assms] by blast
  have "(of_nat (literal_value r) :: 256 word) = of_nat (literal_value v)"
    by (simp add: r(2) word_modulus_def word_of_nat_eq_iff take_bit_eq_mod)
  with r show ?thesis by (simp add: number_word_def word_modulus_def)
qed

lemma number_0: "lit_word (YNumber ''0'') = Some 0"
proof -
  have "is_ok (canonical_numeric_lit ''0'')" "literal_value ''0'' = 0" by code_simp+
  then show ?thesis by (simp add: number_word_def)
qed

lemma rd_normalize:
  assumes "size_of_loc loc = 1"
  shows "rd \<sigma> (normalize_loc loc) = rd \<sigma> loc \<and> readable \<sigma> (normalize_loc loc) = readable \<sigma> loc
    \<and> size_of_loc (normalize_loc loc) = 1"
proof (cases loc)
  case (LSeq locs)
  with assms obtain one where one: "flatten_locs (LSeq locs) = [one]"
    by (metis One_nat_def flatten_locs_length length_0_conv length_Suc_conv)
  then have "rd \<sigma> one = rd \<sigma> loc" "readable \<sigma> one = readable \<sigma> loc"
    using LSeq rd_flatten[of \<sigma> loc] readable_flatten[of \<sigma> loc] by simp_all
  moreover have "size_of_loc one = 1"
    using flatten_locs_sizes[of loc] one LSeq by simp
  ultimately show ?thesis using one LSeq by simp
qed (use assms in simp_all)

lemma place_readable: "is_place loc \<Longrightarrow> loc_vars loc \<subseteq> dom \<sigma> \<Longrightarrow> readable \<sigma> loc"
  by (induction loc rule: is_place.induct) (auto simp: list_all_iff UN_subset_iff)

text \<open>A condition is lowered to one word, which is 1 when the condition holds and 0 otherwise.\<close>

lemma condition_word:
  assumes b: "is_bool_like t" and h: "holds \<sigma> loc (erase t) v" and l: "load_loc (normalize_loc loc) = Inr e"
  shows "\<exists>p. truth v = Some p \<and> yeval1 C \<sigma> e w = Inr (of_bool p, w)"
proof -
  have "size_of_loc loc = 1"
    using holds_size[OF h] b by (auto simp: is_bool_like_erase)
  note n = rd_normalize[OF this, of \<sigma>]
  have "\<exists>p. truth v = Some p \<and> rd \<sigma> loc = [Some (of_bool p)]"
  proof (cases "erase t = ShBool")
    case True
    with h show ?thesis by (cases v) (auto simp: holds_def)
  next
    case False
    with b have "erase t = ShSum ShUnit ShUnit" by (simp add: is_bool_like_erase)
    with h show ?thesis by (cases v; cases "rd \<sigma> loc") (auto simp: holds_def)
  qed
  then obtain p where p: "truth v = Some p" "rd \<sigma> loc = [Some (of_bool p)]" by blast
  have "\<not> is_seq (normalize_loc loc)" using n normalize_loc_one_word \<open>size_of_loc loc = 1\<close> by blast
  from load_loc_value[OF this _ _ l, of \<sigma> C w] n h obtain x where
    "yeval C \<sigma> e w = Inr ([x], w)" "filled (rd \<sigma> loc) [Some x]" by (auto simp: holds_def)
  with p show ?thesis by (auto simp: yeval1_def filled_one)
qed

section \<open>Arguments and results\<close>

definition arg_words :: "ty list \<Rightarrow> hval list \<Rightarrow> 256 word list list \<Rightarrow> bool" where
  "arg_words ts vs wss \<longleftrightarrow> length vs = length ts
     \<and> list_all2 (\<lambda>(t, v) ws. enc (erase t) v (map Some ws)) (zip ts vs) wss"

definition returns_enc :: "shape \<Rightarrow> hval \<times> 'w \<Rightarrow> 256 word list \<times> 'w \<Rightarrow> bool" where
  "returns_enc s = (\<lambda>(v, w1) (ws, w2). w2 = w1 \<and> enc s v (map Some ws))"

definition calls_refine :: "(name \<rightharpoonup> fun_sig) \<Rightarrow> name set \<Rightarrow> 'w hcalls \<Rightarrow> 'w ycalls \<Rightarrow> bool" where
  "calls_refine F users H C \<longleftrightarrow>
     (\<forall>f s vs wss w. F f = Some s \<longrightarrow> arg_words (sig_args s) vs wss \<longrightarrow>
        (case lower_callee f users of
           Call_callee m \<Rightarrow> sim (returns_enc (erase (sig_ret s))) (H f vs w) (C m (concat wss) w)
         | Identity_callee \<Rightarrow> \<exists>v. vs = [v] \<and> H f vs w = Inr (v, w)))"

lemma calls_refineD:
  assumes "calls_refine F users H C" and "F f = Some s" and "arg_words (sig_args s) vs wss"
  shows "lower_callee f users = Call_callee m \<Longrightarrow>
      sim (returns_enc (erase (sig_ret s))) (H f vs w) (C m (concat wss) w)"
    and "lower_callee f users = Identity_callee \<Longrightarrow> \<exists>v. vs = [v] \<and> H f vs w = Inr (v, w)"
proof -
  have "case lower_callee f users of
      Call_callee m \<Rightarrow> sim (returns_enc (erase (sig_ret s))) (H f vs w) (C m (concat wss) w)
    | Identity_callee \<Rightarrow> \<exists>v. vs = [v] \<and> H f vs w = Inr (v, w)"
    using assms unfolding calls_refine_def by blast
  then show "lower_callee f users = Call_callee m \<Longrightarrow>
      sim (returns_enc (erase (sig_ret s))) (H f vs w) (C m (concat wss) w)"
    and "lower_callee f users = Identity_callee \<Longrightarrow> \<exists>v. vs = [v] \<and> H f vs w = Inr (v, w)"
    by simp_all
qed

definition hold_all :: "store \<Rightarrow> ty list \<Rightarrow> hval list \<Rightarrow> location list \<Rightarrow> bool" where
  "hold_all \<sigma> ts vs locs \<longleftrightarrow> length vs = length ts
     \<and> list_all2 (\<lambda>(t, v) loc. holds \<sigma> loc (erase t) v) (zip ts vs) locs"

lemma hold_all_simps [simp]:
  "hold_all \<sigma> [] vs locs \<longleftrightarrow> vs = [] \<and> locs = []"
  "hold_all \<sigma> (t # ts) (v # vs) (l # locs) \<longleftrightarrow> holds \<sigma> l (erase t) v \<and> hold_all \<sigma> ts vs locs"
  by (auto simp: hold_all_def)

text \<open>The flattened arguments of a call evaluate to words of the argument values.\<close>

lemma yargs_locs:
  "hold_all \<sigma> ts vs locs \<Longrightarrow>
     \<exists>wss. (\<forall>w. yargs C \<sigma> (concat (map flatten_rhs locs)) w = Inr (concat wss, w)) \<and> arg_words ts vs wss"
proof (induction ts arbitrary: vs locs)
  case Nil
  then show ?case by (simp add: arg_words_def)
next
  case (Cons t ts)
  then obtain v vs' l ls where vl: "vs = v # vs'" "locs = l # ls"
    by (auto simp: hold_all_def length_Suc_conv list_all2_Cons1)
  with Cons.prems have h: "holds \<sigma> l (erase t) v" "hold_all \<sigma> ts vs' ls" by simp_all
  obtain wss where wss: "\<forall>w. yargs C \<sigma> (concat (map flatten_rhs ls)) w = Inr (concat wss, w)"
    "arg_words ts vs' wss" using Cons.IH[OF h(2)] by blast
  obtain ws where ws: "\<forall>w. yargs C \<sigma> (flatten_rhs l) w = Inr (ws, w)" "filled (rd \<sigma> l) (map Some ws)"
    using yargs_flatten_rhs[of \<sigma> l C] h(1) by (auto simp: holds_def)
  have "enc (erase t) v (map Some ws)" using h(1) ws(2) by (auto simp: holds_def intro: enc_filled)
  with wss ws(1) vl show ?case
    by (auto simp: yargs_append arg_words_def intro!: exI[of _ "ws # wss"])
qed

section \<open>Changes of the store\<close>

text \<open>\<open>changes T \<sigma> \<sigma>'\<close>: only the stack slots in \<open>T\<close> may differ, and they are declared afterwards.\<close>

definition changes :: "nat set \<Rightarrow> store \<Rightarrow> store \<Rightarrow> bool" where
  "changes T \<sigma> \<sigma>' \<longleftrightarrow> dom \<sigma>' = dom \<sigma> \<union> stack_name ` T \<and> (\<forall>x. x \<notin> stack_name ` T \<longrightarrow> \<sigma>' x = \<sigma> x)"

lemma changes_refl: "changes {} \<sigma> \<sigma>"
  by (simp add: changes_def)

lemma changes_trans: "changes T \<sigma> \<sigma>1 \<Longrightarrow> changes U \<sigma>1 \<sigma>2 \<Longrightarrow> changes (T \<union> U) \<sigma> \<sigma>2"
  unfolding changes_def by (auto simp: image_Un)

lemma changes_holds:
  assumes "changes T \<sigma> \<sigma>'" and "loc_vars loc \<inter> stack_name ` T = {}"
  shows "holds \<sigma>' loc s v = holds \<sigma> loc s v"
  using assms unfolding changes_def by (intro holds_cong) blast

lemma changes_hold_all:
  assumes "changes T \<sigma> \<sigma>'" and "\<And>l. l \<in> set locs \<Longrightarrow> loc_vars l \<inter> stack_name ` T = {}"
  shows "hold_all \<sigma>' ts vs locs = hold_all \<sigma> ts vs locs"
proof -
  have h: "holds \<sigma>' l (erase t) v = holds \<sigma> l (erase t) v" if "l \<in> set locs" for l t v
    by (rule changes_holds[OF assms(1) assms(2)[OF that]])
  have "list_all2 (\<lambda>(t, v) loc. holds \<sigma>' loc (erase t) v) (zip ts vs) locs
      = list_all2 (\<lambda>(t, v) loc. holds \<sigma> loc (erase t) v) (zip ts vs) locs"
    by (rule list.rel_cong) (auto simp: h)
  then show ?thesis by (simp add: hold_all_def)
qed

text \<open>Code runs in one of two modes: with its top-level allocations, or without them in a store where
  their slots are declared already, as in the post block of a loop. The slots in \<open>T\<close> are the
  top-level ones among those that were handed out from \<open>c\<close> to \<open>c'\<close>.\<close>

definition hoisted :: "bool \<Rightarrow> yul_stmt list \<Rightarrow> yul_stmt list" where
  "hoisted b ss = (if b then filter (\<lambda>s. \<not> is_alloc s) ss else ss)"

lemma hoisted_append: "hoisted b (xs @ ys) = hoisted b xs @ hoisted b ys"
  by (simp add: hoisted_def)

lemma hoisted_plain: "list_all (\<lambda>s. \<not> is_alloc s) ss \<Longrightarrow> hoisted b ss = ss"
  by (simp add: hoisted_def list_all_iff)

definition slot_lets :: "nat list \<Rightarrow> yul_stmt list" where
  "slot_lets is = map (\<lambda>i. YLet [stack_name i] None) is"

lemma slot_lets_append: "slot_lets (is @ js) = slot_lets is @ slot_lets js"
  by (simp add: slot_lets_def)

lemma hoisted_lets: "hoisted b (slot_lets is) = (if b then [] else slot_lets is)"
  by (simp add: hoisted_def slot_lets_def comp_def)

definition allocates :: "yul_stmt list \<Rightarrow> nat list \<Rightarrow> bool" where
  "allocates ss is \<longleftrightarrow> filter is_alloc ss = slot_lets is"

lemma allocates_append: "allocates xs is \<Longrightarrow> allocates ys js \<Longrightarrow> allocates (xs @ ys) (is @ js)"
  by (simp add: allocates_def slot_lets_append)

lemma allocates_lets: "allocates (slot_lets is) is"
  by (simp add: allocates_def slot_lets_def filter_map comp_def)

lemma allocates_Nil: "allocates [] []"
  by (simp add: allocates_def slot_lets_def)

definition slots_ready :: "bool \<Rightarrow> nat set \<Rightarrow> nat \<Rightarrow> nat \<Rightarrow> store \<Rightarrow> bool" where
  "slots_ready b T c c' \<sigma> \<longleftrightarrow> (\<forall>i. c \<le> i \<longrightarrow> i < c' \<longrightarrow> (stack_name i \<in> dom \<sigma> \<longleftrightarrow> b \<and> i \<in> T))"

lemma slots_ready_part:
  assumes "slots_ready b T c c' \<sigma>" and "c \<le> d" and "d' \<le> c'" and "\<And>i. d \<le> i \<Longrightarrow> i < d' \<Longrightarrow> i \<in> T \<longleftrightarrow> i \<in> U"
  shows "slots_ready b U d d' \<sigma>"
  using assms unfolding slots_ready_def by (meson order_trans less_le_trans)

lemma slots_ready_changes:
  assumes "slots_ready b U d d' \<sigma>" and "changes T \<sigma> \<sigma>'" and "\<And>i. i \<in> T \<Longrightarrow> i < d \<or> d' \<le> i"
  shows "slots_ready b U d d' \<sigma>'"
proof -
  have "stack_name i \<in> dom \<sigma>' \<longleftrightarrow> stack_name i \<in> dom \<sigma>" if "d \<le> i" "i < d'" for i
    using assms(2,3) that by (fastforce simp: changes_def stack_name_inj)
  with assms(1) show ?thesis by (simp add: slots_ready_def)
qed

text \<open>Running the allocations of a mode.\<close>

lemma alloc_exec:
  assumes "slots_ready b (set is) c c' \<sigma>" and "set is \<subseteq> {c..<c'}" and "distinct is"
  shows "\<exists>\<sigma>'. yseq C n (hoisted b (slot_lets is)) \<sigma> w = Inr (MNormal, \<sigma>', w) \<and> changes (set is) \<sigma> \<sigma>'"
proof (cases b)
  case True
  then have "stack_name ` set is \<subseteq> dom \<sigma>" using assms by (fastforce simp: slots_ready_def)
  then show ?thesis using True by (auto simp: hoisted_lets changes_def)
next
  case False
  then have "\<sigma> (stack_name i) = None" if "i \<in> set is" for i
    using assms(1,2) that by (fastforce simp: slots_ready_def)
  from yseq_alloc[of "is" \<sigma>, OF assms(3) this] have
    "yseq C n (hoisted b (slot_lets is)) \<sigma> w = Inr (MNormal, zeroed is \<sigma>, w)"
    using False by (simp add: hoisted_def slot_lets_def)
  moreover have "changes (set is) \<sigma> (zeroed is \<sigma>)"
    unfolding changes_def dom_zeroed by (auto simp: zeroed_def)
  ultimately show ?thesis by blast
qed

lemma assign_changes:
  assumes "changes (set is) \<sigma> \<sigma>1" and "length ws = length is"
  shows "changes (set is) \<sigma> (\<sigma>1(map stack_name is [\<mapsto>] ws))"
  using assms by (auto simp: changes_def)

section \<open>The correspondence of states\<close>

definition vars_hold :: "(name \<Rightarrow> ty option) \<Rightarrow> (name \<Rightarrow> hval option) \<Rightarrow> translator \<Rightarrow> store \<Rightarrow> bool" where
  "vars_hold G \<rho> tr \<sigma> \<longleftrightarrow>
     (\<forall>x t. G x = Some t \<longrightarrow> (\<exists>v loc. \<rho> x = Some v \<and> lookup_var_opt tr x = Some loc \<and> holds \<sigma> loc (erase t) v))"

lemma vars_hold_counter [simp]: "vars_hold G \<rho> (tr\<lparr>counter := c\<rparr>) \<sigma> = vars_hold G \<rho> tr \<sigma>"
  by (simp add: vars_hold_def lookup_var_opt_def)

text \<open>The Yul variables in the locations of the visible variables.\<close>

definition accessible :: "(name \<Rightarrow> ty option) \<Rightarrow> translator \<Rightarrow> name set" where
  "accessible G tr = {y. \<exists>x loc. G x \<noteq> None \<and> lookup_var_opt tr x = Some loc \<and> y \<in> loc_vars loc}"

lemma accessible_counter [simp]: "accessible G (tr\<lparr>counter := c\<rparr>) = accessible G tr"
  by (simp add: accessible_def lookup_var_opt_def)

lemma accessible_declared:
  assumes "vars_hold G \<rho> tr \<sigma>"
  shows "accessible G tr \<subseteq> dom \<sigma>"
proof
  fix y
  assume "y \<in> accessible G tr"
  then obtain x t loc where x: "G x = Some t" "lookup_var_opt tr x = Some loc" "y \<in> loc_vars loc"
    by (auto simp: accessible_def)
  have "\<exists>v loc. \<rho> x = Some v \<and> lookup_var_opt tr x = Some loc \<and> holds \<sigma> loc (erase t) v"
    using assms x(1) by (simp add: vars_hold_def)
  with x(2) obtain v where "holds \<sigma> loc (erase t) v" by auto
  then have "loc_vars loc \<subseteq> dom \<sigma>" by (auto simp: holds_def dest: readable_vars)
  with x(3) show "y \<in> dom \<sigma>" by blast
qed


lemma accessible_loc: "G x = Some t \<Longrightarrow> lookup_var_opt tr x = Some loc \<Longrightarrow> loc_vars loc \<subseteq> accessible G tr"
  by (auto simp: accessible_def)

text \<open>No visible variable lives in a slot that has not been handed out.\<close>

definition slots_used :: "(name \<Rightarrow> ty option) \<Rightarrow> translator \<Rightarrow> bool" where
  "slots_used G tr \<longleftrightarrow> (\<forall>i\<ge>counter tr. stack_name i \<notin> accessible G tr)"

lemma slots_used_counter: "slots_used G tr \<Longrightarrow> counter tr \<le> c \<Longrightarrow> slots_used G (tr\<lparr>counter := c\<rparr>)"
  by (simp add: slots_used_def)

definition loc_scoped :: "(name \<Rightarrow> ty option) \<Rightarrow> translator \<Rightarrow> nat set \<Rightarrow> location \<Rightarrow> bool" where
  "loc_scoped G tr T loc \<longleftrightarrow> loc_vars loc \<subseteq> accessible G tr \<union> stack_name ` T"

lemma loc_scoped_counter [simp]: "loc_scoped G (tr\<lparr>counter := c\<rparr>) T loc = loc_scoped G tr T loc"
  by (simp add: loc_scoped_def)

lemma loc_scoped_mono: "loc_scoped G tr T loc \<Longrightarrow> T \<subseteq> U \<Longrightarrow> loc_scoped G tr U loc"
  unfolding loc_scoped_def by blast

lemma loc_scoped_apart:
  assumes "loc_scoped G tr T loc" and "slots_used G tr" and "U \<subseteq> {counter tr..}" and "T \<inter> U = {}"
  shows "loc_vars loc \<inter> stack_name ` U = {}"
proof -
  have "accessible G tr \<inter> stack_name ` U = {}" using assms(2,3) by (auto simp: slots_used_def)
  moreover have "stack_name ` T \<inter> stack_name ` U = {}" using assms(4) by (auto simp: stack_name_inj)
  ultimately show ?thesis using assms(1) unfolding loc_scoped_def by blast
qed

text \<open>Everything the code for an expression needs.\<close>

definition corresponds ::
  "(name \<rightharpoonup> fun_sig) \<Rightarrow> (name \<Rightarrow> ty option) \<Rightarrow> 'w hcalls \<Rightarrow> 'w ycalls \<Rightarrow> (name \<Rightarrow> hval option)
    \<Rightarrow> translator \<Rightarrow> store \<Rightarrow> bool" where
  "corresponds F G H C \<rho> tr \<sigma> \<longleftrightarrow> calls_refine F (user_functions tr) H C \<and> vars_hold G \<rho> tr \<sigma>"

lemma corresponds_counter [simp]: "corresponds F G H C \<rho> (tr\<lparr>counter := c\<rparr>) \<sigma> = corresponds F G H C \<rho> tr \<sigma>"
  by (simp add: corresponds_def)

lemma corresponds_changes:
  assumes "corresponds F G H C \<rho> tr \<sigma>" and "changes T \<sigma> \<sigma>'" and "slots_used G tr" and "T \<subseteq> {counter tr..}"
  shows "corresponds F G H C \<rho> tr \<sigma>'"
proof -
  have "\<exists>v loc. \<rho> x = Some v \<and> lookup_var_opt tr x = Some loc \<and> holds \<sigma>' loc (erase t) v" if x: "G x = Some t" for x t
  proof -
    obtain v loc where v: "\<rho> x = Some v" "lookup_var_opt tr x = Some loc" "holds \<sigma> loc (erase t) v"
      using assms(1) x unfolding corresponds_def vars_hold_def by blast
    have "loc_scoped G tr {} loc" using accessible_loc[of G, OF x v(2)] by (simp add: loc_scoped_def)
    then have "loc_vars loc \<inter> stack_name ` T = {}"
      by (rule loc_scoped_apart[OF _ assms(3,4)]) simp
    with v show ?thesis using changes_holds[OF assms(2)] by blast
  qed
  with assms(1) show ?thesis by (simp add: corresponds_def vars_hold_def)
qed

section \<open>Code that computes something\<close>

text \<open>\<open>runs F G H C tr out c is R ev\<close>: the code \<open>out\<close>, generated from \<open>tr\<close>, handed out the slots up to \<open>c\<close> and
  allocates \<open>is\<close> at its top level; in either mode it does what \<open>ev\<close> does, and \<open>R\<close> relates the final
  store to the value.\<close>

definition ends ::
  "(store \<Rightarrow> 'x \<Rightarrow> bool) \<Rightarrow> nat set \<Rightarrow> store \<Rightarrow> 'x \<times> 'w \<Rightarrow> mode \<times> store \<times> 'w \<Rightarrow> bool" where
  "ends R T \<sigma> = (\<lambda>(x, w1) (m, \<sigma>', w2). m = MNormal \<and> w2 = w1 \<and> changes T \<sigma> \<sigma>' \<and> R \<sigma>' x)"

lemma endsE:
  assumes "ends R T \<sigma> p q"
  obtains x w \<sigma>' where "p = (x, w)" "q = (MNormal, \<sigma>', w)" "changes T \<sigma> \<sigma>'" "R \<sigma>' x"
  using assms by (auto simp: ends_def)

lemma endsI: "changes T \<sigma> \<sigma>' \<Longrightarrow> R \<sigma>' x \<Longrightarrow> ends R T \<sigma> (x, w) (MNormal, \<sigma>', w)"
  by (simp add: ends_def)

definition runs ::
  "(name \<rightharpoonup> fun_sig) \<Rightarrow> (name \<Rightarrow> ty option) \<Rightarrow> 'w hcalls \<Rightarrow> 'w ycalls \<Rightarrow> translator \<Rightarrow> yul_stmt list \<Rightarrow> nat
    \<Rightarrow> nat list \<Rightarrow> (store \<Rightarrow> 'x \<Rightarrow> bool) \<Rightarrow> ((name \<Rightarrow> hval option) \<Rightarrow> 'w \<Rightarrow> 'w stop + 'x \<times> 'w) \<Rightarrow> bool" where
  "runs F G H C tr out c is R ev \<longleftrightarrow>
     counter tr \<le> c \<and> distinct is \<and> set is \<subseteq> {counter tr..<c} \<and> allocates out is \<and>
     (\<forall>b \<rho> \<sigma> w n. corresponds F G H C \<rho> tr \<sigma> \<longrightarrow> slots_ready b (set is) (counter tr) c \<sigma> \<longrightarrow>
        sim (ends R (set is) \<sigma>) (ev \<rho> w) (yseq C n (hoisted b out) \<sigma> w))"

lemma runsI:
  assumes "counter tr \<le> c" and "distinct is" and "set is \<subseteq> {counter tr..<c}" and "allocates out is"
    and "\<And>b \<rho> \<sigma> w n. corresponds F G H C \<rho> tr \<sigma> \<Longrightarrow> slots_ready b (set is) (counter tr) c \<sigma> \<Longrightarrow>
        sim (ends R (set is) \<sigma>) (ev \<rho> w) (yseq C n (hoisted b out) \<sigma> w)"
  shows "runs F G H C tr out c is R ev"
  using assms by (simp add: runs_def)

lemma runs_static:
  "runs F G H C tr out c is R ev \<Longrightarrow>
     counter tr \<le> c \<and> distinct is \<and> set is \<subseteq> {counter tr..<c} \<and> allocates out is"
  by (simp add: runs_def)

lemma runs_sim:
  "runs F G H C tr out c is R ev \<Longrightarrow> corresponds F G H C \<rho> tr \<sigma> \<Longrightarrow>
     slots_ready b (set is) (counter tr) c \<sigma> \<Longrightarrow>
     sim (ends R (set is) \<sigma>) (ev \<rho> w) (yseq C n (hoisted b out) \<sigma> w)"
  by (simp add: runs_def)

lemma runs_nil:
  assumes "\<And>\<rho> \<sigma> w. vars_hold G \<rho> tr \<sigma> \<Longrightarrow> \<exists>x. ev \<rho> w = Inr (x, w) \<and> R \<sigma> x"
  shows "runs F G H C tr [] (counter tr) [] R ev"
proof (rule runsI)
  fix b \<rho> \<sigma> w n
  assume "corresponds F G H C \<rho> tr \<sigma>"
  then obtain x where "ev \<rho> w = Inr (x, w)" "R \<sigma> x" using assms[of \<rho> \<sigma> w] by (auto simp: corresponds_def)
  then show "sim (ends R (set []) \<sigma>) (ev \<rho> w) (yseq C n (hoisted b []) \<sigma> w)"
    by (auto simp: hoisted_def changes_refl intro!: endsI)
qed (simp_all add: allocates_Nil)

lemma runs_map:
  assumes r: "runs F G H C tr out c is R ev"
    and f: "\<And>\<sigma> x. R \<sigma> x \<Longrightarrow> \<exists>y. (\<forall>w. f (x, w) = Inr (y, w)) \<and> S \<sigma> y"
    and ev: "\<And>\<rho> w. ev' \<rho> w = res_bind (ev \<rho> w) f"
  shows "runs F G H C tr out c is S ev'"
proof (rule runsI)
  fix b \<rho> \<sigma> w n
  assume cor: "corresponds F G H C \<rho> tr \<sigma>" "slots_ready b (set is) (counter tr) c \<sigma>"
  show "sim (ends S (set is) \<sigma>) (ev' \<rho> w) (yseq C n (hoisted b out) \<sigma> w)"
    unfolding ev
    by (rule sim_bind_left[OF runs_sim[OF r cor]]) (use f in \<open>fastforce elim!: endsE intro!: endsI\<close>)
qed (use runs_static[OF r] in simp_all)

lemma runs_seq:
  assumes 1: "runs F G H C tr out1 c1 is1 R1 ev1" and 2: "runs F G H C (tr\<lparr>counter := c1\<rparr>) out2 c2 is2 R2 ev2"
    and used: "slots_used G tr"
    and stable: "\<And>\<sigma> \<sigma>' x. R1 \<sigma> x \<Longrightarrow> changes (set is2) \<sigma> \<sigma>' \<Longrightarrow> R1 \<sigma>' x"
  shows "runs F G H C tr (out1 @ out2) c2 (is1 @ is2) (\<lambda>\<sigma> (x, y). R1 \<sigma> x \<and> R2 \<sigma> y)
    (\<lambda>\<rho> w. res_bind (ev1 \<rho> w) (\<lambda>(x, w). res_bind (ev2 \<rho> w) (\<lambda>(y, w). Inr ((x, y), w))))"
    (is "runs _ _ _ _ _ _ _ _ ?R ?ev")
proof (rule runsI)
  have s1: "counter tr \<le> c1" "distinct is1" "set is1 \<subseteq> {counter tr..<c1}" "allocates out1 is1"
    using runs_static[OF 1] by simp_all
  have s2: "c1 \<le> c2" "distinct is2" "set is2 \<subseteq> {c1..<c2}" "allocates out2 is2"
    using runs_static[OF 2] by simp_all
  from s1 s2 show "counter tr \<le> c2" by simp
  from s1 s2 show "distinct (is1 @ is2)" by fastforce
  from s1 s2 show "set (is1 @ is2) \<subseteq> {counter tr..<c2}" by fastforce
  from s1 s2 show "allocates (out1 @ out2) (is1 @ is2)" by (simp add: allocates_append)
  fix b \<rho> \<sigma> w n
  assume cor: "corresponds F G H C \<rho> tr \<sigma>" and rdy: "slots_ready b (set (is1 @ is2)) (counter tr) c2 \<sigma>"
  have "slots_ready b (set is1) (counter tr) c1 \<sigma>"
    by (rule slots_ready_part[OF rdy]) (use s1 s2 in fastforce)+
  note sim1 = runs_sim[OF 1 cor this]
  have rdy2: "slots_ready b (set is2) c1 c2 \<sigma>"
    by (rule slots_ready_part[OF rdy]) (use s1 s2 in fastforce)+
  show "sim (ends ?R (set (is1 @ is2)) \<sigma>) (?ev \<rho> w) (yseq C n (hoisted b (out1 @ out2)) \<sigma> w)"
    unfolding hoisted_append yseq_append
  proof (rule sim_bind[OF sim1], erule endsE, hypsubst, simp only: prod.case simp_thms if_True)
    fix x w1 \<sigma>1
    assume ch: "changes (set is1) \<sigma> \<sigma>1" and x: "R1 \<sigma>1 x"
    have "corresponds F G H C \<rho> tr \<sigma>1"
      by (rule corresponds_changes[OF cor ch used]) (use s1 in auto)
    moreover have "slots_ready b (set is2) c1 c2 \<sigma>1"
      by (rule slots_ready_changes[OF rdy2 ch]) (use s1 in auto)
    ultimately have sim2: "sim (ends R2 (set is2) \<sigma>1) (ev2 \<rho> w1) (yseq C n (hoisted b out2) \<sigma>1 w1)"
      using runs_sim[OF 2] by simp
    show "sim (ends ?R (set (is1 @ is2)) \<sigma>) (res_bind (ev2 \<rho> w1) (\<lambda>(y, w). Inr ((x, y), w)))
        (yseq C n (hoisted b out2) \<sigma>1 w1)"
    proof (rule sim_bind_left[OF sim2], erule endsE, hypsubst)
      fix y w2 \<sigma>2
      assume ch2: "changes (set is2) \<sigma>1 \<sigma>2" and y: "R2 \<sigma>2 y"
      have "changes (set (is1 @ is2)) \<sigma> \<sigma>2" using changes_trans[OF ch ch2] by simp
      then show "\<exists>z. (case (y, w2) of (y, w) \<Rightarrow> Inr ((x, y), w)) = Inr z
          \<and> ends ?R (set (is1 @ is2)) \<sigma> z (MNormal, \<sigma>2, w2)"
        using stable[OF x ch2] y by (auto intro!: endsI)
    qed
  qed
qed

lemma res_bind_pair:
  "res_bind (res_bind a (\<lambda>(x, w). res_bind (f w) (\<lambda>(y, w). Inr ((x, y), w)))) (\<lambda>((x, y), w). g x y w)
     = res_bind a (\<lambda>(x, w). res_bind (f w) (\<lambda>(y, w). g x y w))"
proof (cases a)
  case (Inr p)
  then show ?thesis by (cases p; cases "f (snd p)") auto
qed simp

end
