(* ===== verification/Lower_Refines.thy ===== *)
theory Lower_Refines
  imports Lower_Runs
begin

text \<open>
  Lowering preserves the meaning of expressions. Running the statements that \<open>gen_expr\<close> generates,
  in a store that holds the values of the variables, does what evaluating the expression does:
  the same calls with the same effects in the same order, the same halts and the same timeouts, and on
  return the location holds the value. Only stack slots that the translator handed out are added
  to the store.
\<close>

section \<open>Refinement of expressions\<close>

definition refines ::
  "(name \<rightharpoonup> fun_sig) \<Rightarrow> (name \<Rightarrow> ty option) \<Rightarrow> 'w hcalls \<Rightarrow> 'w ycalls \<Rightarrow> expr \<Rightarrow> ty \<Rightarrow> bool" where
  "refines F G H C e t \<longleftrightarrow>
     (\<forall>tr. agrees F G tr \<longrightarrow> slots_used G tr \<longrightarrow> ref_free t \<and>
        (\<exists>out loc c is. gen_expr e tr = Inr (out, loc, tr\<lparr>counter := c\<rparr>) \<and> conforms (erase t) loc
           \<and> loc_scoped G tr (set is) loc
           \<and> runs F G H C tr out c is (\<lambda>\<sigma>. holds \<sigma> loc (erase t)) (\<lambda>\<rho>. heval H \<rho> e)))"

lemma refinesI:
  assumes "\<And>tr. agrees F G tr \<Longrightarrow> slots_used G tr \<Longrightarrow> ref_free t"
    and "\<And>tr. agrees F G tr \<Longrightarrow> slots_used G tr \<Longrightarrow> ref_free t \<Longrightarrow>
      \<exists>out loc c is. gen_expr e tr = Inr (out, loc, tr\<lparr>counter := c\<rparr>) \<and> conforms (erase t) loc
        \<and> loc_scoped G tr (set is) loc
        \<and> runs F G H C tr out c is (\<lambda>\<sigma>. holds \<sigma> loc (erase t)) (\<lambda>\<rho>. heval H \<rho> e)"
  shows "refines F G H C e t"
  using assms unfolding refines_def by blast

lemma refinesE:
  assumes "refines F G H C e t" and "agrees F G tr" and "slots_used G tr"
  obtains out loc c "is" where "ref_free t" "gen_expr e tr = Inr (out, loc, tr\<lparr>counter := c\<rparr>)"
    "conforms (erase t) loc" "loc_scoped G tr (set is) loc"
    "runs F G H C tr out c is (\<lambda>\<sigma>. holds \<sigma> loc (erase t)) (\<lambda>\<rho>. heval H \<rho> e)"
  using assms unfolding refines_def by blast

lemma refines_ref_free: "refines F G H C e t \<Longrightarrow> agrees F G tr \<Longrightarrow> slots_used G tr \<Longrightarrow> ref_free t"
  by (auto simp: refines_def)

text \<open>Expressions without code.\<close>

lemma refines_leaf:
  assumes "ref_free t"
    and "\<And>tr. agrees F G tr \<Longrightarrow> \<exists>loc. gen_expr e tr = Inr ([], loc, tr) \<and> conforms (erase t) loc \<and>
      loc_vars loc \<subseteq> accessible G tr \<and>
      (\<forall>\<rho> \<sigma> w. vars_hold G \<rho> tr \<sigma> \<longrightarrow> (\<exists>v. heval H \<rho> e w = Inr (v, w) \<and> holds \<sigma> loc (erase t) v))"
  shows "refines F G H C e t"
proof (rule refinesI)
  fix tr
  assume "agrees F G tr"
  then obtain loc where l: "gen_expr e tr = Inr ([], loc, tr)" "conforms (erase t) loc"
    "loc_vars loc \<subseteq> accessible G tr"
    "\<And>\<rho> \<sigma> w. vars_hold G \<rho> tr \<sigma> \<Longrightarrow> \<exists>v. heval H \<rho> e w = Inr (v, w) \<and> holds \<sigma> loc (erase t) v"
    using assms(2) by blast
  have "runs F G H C tr [] (counter tr) [] (\<lambda>\<sigma>. holds \<sigma> loc (erase t)) (\<lambda>\<rho>. heval H \<rho> e)"
    by (rule runs_nil[OF l(4)])
  with l(1-3) show "\<exists>out loc c is. gen_expr e tr = Inr (out, loc, tr\<lparr>counter := c\<rparr>) \<and> conforms (erase t) loc
      \<and> loc_scoped G tr (set is) loc
      \<and> runs F G H C tr out c is (\<lambda>\<sigma>. holds \<sigma> loc (erase t)) (\<lambda>\<rho>. heval H \<rho> e)"
    by (intro exI[of _ "[]"] exI[of _ loc] exI[of _ "counter tr"]) (simp add: loc_scoped_def)
qed (rule assms(1))

text \<open>Operators that only post-process the value and its location.\<close>

lemma refines_map:
  assumes e: "refines F G H C e t"
    and rf: "\<And>tr. agrees F G tr \<Longrightarrow> ref_free t \<Longrightarrow> ref_free t'"
    and gen: "\<And>tr out loc tr'. gen_expr e tr = Inr (out, loc, tr') \<Longrightarrow> ref_free t \<Longrightarrow>
      conforms (erase t) loc \<Longrightarrow> \<exists>loc'. gen_expr e' tr = Inr (out, loc', tr') \<and> conforms (erase t') loc'
        \<and> loc_vars loc' \<subseteq> loc_vars loc
        \<and> (\<forall>\<sigma> v. holds \<sigma> loc (erase t) v \<longrightarrow> (\<exists>v'. (\<forall>w. f (v, w) = Inr (v', w)) \<and> holds \<sigma> loc' (erase t') v'))"
    and ev: "\<And>\<rho> w. heval H \<rho> e' w = res_bind (heval H \<rho> e w) f"
  shows "refines F G H C e' t'"
proof (rule refinesI)
  fix tr
  assume tr: "agrees F G tr" "slots_used G tr"
  then show "ref_free t'" using refines_ref_free[OF e] rf by blast
  from e tr obtain out loc c "is" where 1: "ref_free t" "gen_expr e tr = Inr (out, loc, tr\<lparr>counter := c\<rparr>)"
    "conforms (erase t) loc" "loc_scoped G tr (set is) loc"
    "runs F G H C tr out c is (\<lambda>\<sigma>. holds \<sigma> loc (erase t)) (\<lambda>\<rho>. heval H \<rho> e)"
    by (rule refinesE)
  from gen[OF 1(2,1,3)] obtain loc' where 2: "gen_expr e' tr = Inr (out, loc', tr\<lparr>counter := c\<rparr>)"
    "conforms (erase t') loc'" "loc_vars loc' \<subseteq> loc_vars loc"
    "\<And>\<sigma> v. holds \<sigma> loc (erase t) v \<Longrightarrow> \<exists>v'. (\<forall>w. f (v, w) = Inr (v', w)) \<and> holds \<sigma> loc' (erase t') v'"
    by blast
  have "runs F G H C tr out c is (\<lambda>\<sigma>. holds \<sigma> loc' (erase t')) (\<lambda>\<rho>. heval H \<rho> e')"
    by (rule runs_map[OF 1(5) 2(4) ev])
  moreover have "loc_scoped G tr (set is) loc'" using 1(4) 2(3) by (auto simp: loc_scoped_def)
  ultimately show "\<exists>out loc c is. gen_expr e' tr = Inr (out, loc, tr\<lparr>counter := c\<rparr>) \<and> conforms (erase t') loc
      \<and> loc_scoped G tr (set is) loc
      \<and> runs F G H C tr out c is (\<lambda>\<sigma>. holds \<sigma> loc (erase t')) (\<lambda>\<rho>. heval H \<rho> e')"
    using 2(1,2) by blast
qed

lemma refines_pair:
  assumes l: "refines F G H C l lt" and r: "refines F G H C r rt"
  shows "refines F G H C (Expr sp a (EPair l r)) (Ty sp (TyProduct lt rt))"
proof (rule refinesI)
  fix tr
  assume tr: "agrees F G tr" "slots_used G tr"
  then show "ref_free (Ty sp (TyProduct lt rt))" using l r by (simp add: refines_ref_free)
  from l tr obtain o1 l1 c1 is1 where 1: "gen_expr l tr = Inr (o1, l1, tr\<lparr>counter := c1\<rparr>)"
    "conforms (erase lt) l1" "loc_scoped G tr (set is1) l1"
    "runs F G H C tr o1 c1 is1 (\<lambda>\<sigma>. holds \<sigma> l1 (erase lt)) (\<lambda>\<rho>. heval H \<rho> l)"
    by (rule refinesE)
  have s1: "counter tr \<le> c1" "set is1 \<subseteq> {counter tr..<c1}" using runs_static[OF 1(4)] by simp_all
  have tr': "agrees F G (tr\<lparr>counter := c1\<rparr>)" "slots_used G (tr\<lparr>counter := c1\<rparr>)"
    using tr slots_used_counter[OF tr(2) s1(1)] by simp_all
  with r obtain o2 l2 c2 is2 where 2: "gen_expr r (tr\<lparr>counter := c1\<rparr>) = Inr (o2, l2, tr\<lparr>counter := c2\<rparr>)"
    "conforms (erase rt) l2" "loc_scoped G tr (set is2) l2"
    "runs F G H C (tr\<lparr>counter := c1\<rparr>) o2 c2 is2 (\<lambda>\<sigma>. holds \<sigma> l2 (erase rt)) (\<lambda>\<rho>. heval H \<rho> r)"
    by (rule refinesE) simp
  have s2: "set is2 \<subseteq> {c1..<c2}" using runs_static[OF 2(4)] by simp
  have "loc_vars l1 \<inter> stack_name ` set is2 = {}"
    by (rule loc_scoped_apart[OF 1(3) tr(2)]) (use s1 s2 in fastforce)+
  then have "runs F G H C tr (o1 @ o2) c2 (is1 @ is2)
      (\<lambda>\<sigma> (x, y). holds \<sigma> l1 (erase lt) x \<and> holds \<sigma> l2 (erase rt) y)
      (\<lambda>\<rho> w. res_bind (heval H \<rho> l w) (\<lambda>(x, w). res_bind (heval H \<rho> r w) (\<lambda>(y, w). Inr ((x, y), w))))"
    by (intro runs_seq[OF 1(4) 2(4) tr(2)]) (simp add: changes_holds)
  then have "runs F G H C tr (o1 @ o2) c2 (is1 @ is2) (\<lambda>\<sigma>. holds \<sigma> (LSeq [l1, l2]) (erase (Ty sp (TyProduct lt rt))))
      (\<lambda>\<rho>. heval H \<rho> (Expr sp a (EPair l r)))"
    by (rule runs_map[where f = "\<lambda>((u, v), w). Inr (VPair u v, w)"])
       (auto simp: holds_pair res_bind_pair)
  moreover have "loc_scoped G tr (set (is1 @ is2)) (LSeq [l1, l2])"
    using 1(3) 2(3) by (auto simp: loc_scoped_def)
  ultimately show "\<exists>out loc c is. gen_expr (Expr sp a (EPair l r)) tr = Inr (out, loc, tr\<lparr>counter := c\<rparr>)
      \<and> conforms (erase (Ty sp (TyProduct lt rt))) loc \<and> loc_scoped G tr (set is) loc
      \<and> runs F G H C tr out c is (\<lambda>\<sigma>. holds \<sigma> loc (erase (Ty sp (TyProduct lt rt))))
          (\<lambda>\<rho>. heval H \<rho> (Expr sp a (EPair l r)))"
    using 1(1,2) 2(1,2)
    by (intro exI[of _ "o1 @ o2"] exI[of _ "LSeq [l1, l2]"] exI[of _ c2] exI[of _ "is1 @ is2"])
       (simp add: conforms_product)
qed

lemma refines_proj:
  assumes e: "refines F G H C e t" and k: "ty_kind (strip_named t) = TyProduct lt rt"
  shows "refines F G H C (Expr sp a (EFst e)) lt" and "refines F G H C (Expr sp a (ESnd e)) rt"
proof -
  have sh: "erase t = ShProduct (erase lt) (erase rt)" by (rule erase_of_strip_kind(1)[OF k])
  show "refines F G H C (Expr sp a (EFst e)) lt"
    by (rule refines_map[OF e, where f = "\<lambda>(v, w). case v of VPair a b \<Rightarrow> Inr (a, w) | _ \<Rightarrow> Inl Stuck"])
       (use k sh in \<open>auto simp: ref_free_parts conforms_product elim!: holds_product\<close>)
  show "refines F G H C (Expr sp a (ESnd e)) rt"
    by (rule refines_map[OF e, where f = "\<lambda>(v, w). case v of VPair a b \<Rightarrow> Inr (b, w) | _ \<Rightarrow> Inl Stuck"])
       (use k sh in \<open>auto simp: ref_free_parts conforms_product elim!: holds_product\<close>)
qed

lemma refines_inj:
  assumes e: "refines F G H C v t" and k: "ty_kind (strip_named target) = TySum lt rt"
    and target: "ref_free target"
  shows "type_eq lt t \<Longrightarrow> refines F G H C (Expr sp a (EInl target v)) target"
    and "type_eq rt t \<Longrightarrow> refines F G H C (Expr sp a (EInr target v)) target"
proof -
  have sh: "erase target = ShSum (erase lt) (erase rt)" by (rule erase_of_strip_kind(2)[OF k])
  have rf: "ref_free lt" "ref_free rt" using target ref_free_parts(2)[OF k] by simp_all
  show "refines F G H C (Expr sp a (EInl target v)) target" if "type_eq lt t"
    by (rule refines_map[OF e, where f = "\<lambda>(v, w). Inr (VInl v, w)"])
       (use k sh target that rf in \<open>auto simp: max_size_shape pad_to_size_size conforms_size pad_vars
          dest!: type_eq_erases intro!: holds_injection\<close>)
  show "refines F G H C (Expr sp a (EInr target v)) target" if "type_eq rt t"
    by (rule refines_map[OF e, where f = "\<lambda>(v, w). Inr (VInr v, w)"])
       (use k sh target that rf in \<open>auto simp: max_size_shape pad_to_size_size conforms_size pad_vars
          dest!: type_eq_erases intro!: holds_injection\<close>)
qed

lemma refines_in_k:
  assumes e: "refines F G H C v t" and p: "nth_sum_payload target k = Some p" "type_eq p t"
    and target: "ref_free target"
  shows "refines F G H C (Expr sp a (EInK k target v)) target"
proof (rule refines_map[OF e, where
    f = "\<lambda>(v, w). case inject (erase target) k v of Some v \<Rightarrow> Inr (v, w) | None \<Rightarrow> Inl Stuck"])
  fix tr out loc tr'
  assume g: "gen_expr v tr = Inr (out, loc, tr')" "ref_free t" "conforms (erase t) loc"
  have s: "shape_summand (erase target) k = Some (erase t)"
    using nth_sum_payload_summand[OF p(1)] type_eq_erases[OF p(2) nth_sum_payload_ref_free[OF target p(1)] g(2)]
    by simp
  obtain loc' where l: "lower_in_k_loc target k loc = Inr loc'" "conforms (erase target) loc'"
    using lower_in_k_ok[OF s g(3)] by blast
  with g(1) holds_in_k[OF s] lower_in_k_vars[OF l(1)] show "\<exists>loc'. gen_expr (Expr sp a (EInK k target v)) tr = Inr (out, loc', tr')
      \<and> conforms (erase target) loc' \<and> loc_vars loc' \<subseteq> loc_vars loc \<and> (\<forall>\<sigma> u. holds \<sigma> loc (erase t) u \<longrightarrow> (\<exists>v'. (\<forall>w.
          (\<lambda>(v, w). case inject (erase target) k v of Some v \<Rightarrow> Inr (v, w) | None \<Rightarrow> Inl Stuck) (u, w)
            = Inr (v', w)) \<and> holds \<sigma> loc' (erase target) v'))"
    by fastforce
qed (use target in simp_all)

section \<open>Leaves\<close>

lemma refines_word:
  assumes "literal_error v = None"
  shows "refines F G H C (Expr sp a (EWord v)) (Ty sp TyWord)"
proof (rule refines_leaf)
  fix tr
  obtain r where "canonical_word_lit v = Inr r" "number_word r = Some (of_nat (literal_value v))"
    using number_word_canonical[OF assms] by blast
  then show "\<exists>loc. gen_expr (Expr sp a (EWord v)) tr = Inr ([], loc, tr) \<and> conforms (erase (Ty sp TyWord)) loc
      \<and> loc_vars loc \<subseteq> accessible G tr \<and> (\<forall>\<rho> \<sigma> w. vars_hold G \<rho> tr \<sigma> \<longrightarrow>
          (\<exists>u. heval H \<rho> (Expr sp a (EWord v)) w = Inr (u, w) \<and> holds \<sigma> loc (erase (Ty sp TyWord)) u))"
    using assms by (auto simp: holds_def)
qed simp

lemma refines_var:
  assumes x: "G x = Some t" and rf: "ref_free t"
  shows "refines F G H C (Expr sp a (EVar x)) t"
proof (rule refines_leaf)
  fix tr
  assume "agrees F G tr"
  then obtain loc where l: "lookup_var_opt tr x = Some loc" "conforms (erase t) loc"
    using x by (auto simp: agrees_def vars_match_def)
  moreover have "loc_vars loc \<subseteq> accessible G tr" using x l(1) by (auto simp: accessible_def)
  moreover have "\<exists>u. heval H \<rho> (Expr sp a (EVar x)) w = Inr (u, w) \<and> holds \<sigma> loc (erase t) u"
    if "vars_hold G \<rho> tr \<sigma>" for \<rho> \<sigma> w
    using that x l(1) by (fastforce simp: vars_hold_def)
  ultimately show "\<exists>loc. gen_expr (Expr sp a (EVar x)) tr = Inr ([], loc, tr) \<and> conforms (erase t) loc
      \<and> loc_vars loc \<subseteq> accessible G tr \<and> (\<forall>\<rho> \<sigma> w. vars_hold G \<rho> tr \<sigma> \<longrightarrow>
          (\<exists>u. heval H \<rho> (Expr sp a (EVar x)) w = Inr (u, w) \<and> holds \<sigma> loc (erase t) u))"
    by (auto simp: tr_lookup_var_def)
qed (rule rf)

section \<open>Arguments\<close>

lemma changes_le: "changes (set is) \<sigma> \<sigma>' \<Longrightarrow> (\<And>i. i \<in> set is \<Longrightarrow> \<sigma> (stack_name i) = None) \<Longrightarrow> \<sigma> \<subseteq>\<^sub>m \<sigma>'"
  by (simp add: changes_def map_le_def dom_def) (metis imageE option.distinct(1))

lemma loc_scoped_counter_eq [simp]: "loc_scoped G (tr\<lparr>counter := c\<rparr>) = loc_scoped G tr"
  by (simp add: fun_eq_iff)

definition args_refine ::
  "(name \<rightharpoonup> fun_sig) \<Rightarrow> (name \<Rightarrow> ty option) \<Rightarrow> 'w hcalls \<Rightarrow> 'w ycalls \<Rightarrow> expr list \<Rightarrow> ty list \<Rightarrow> bool" where
  "args_refine F G H C es ts \<longleftrightarrow>
     (\<forall>tr. agrees F G tr \<longrightarrow> slots_used G tr \<longrightarrow>
        (\<exists>out locs c is. gen_args es tr = Inr (out, concat (map flatten_rhs locs), locs, tr\<lparr>counter := c\<rparr>)
           \<and> list_all2 (\<lambda>t. conforms (erase t)) ts locs \<and> list_all (loc_scoped G tr (set is)) locs
           \<and> runs F G H C tr out c is (\<lambda>\<sigma> vs. hold_all \<sigma> ts vs locs) (\<lambda>\<rho>. hargs H \<rho> es)))"

lemma args_refineE:
  assumes "args_refine F G H C es ts" and "agrees F G tr" and "slots_used G tr"
  obtains out locs c "is" where
    "gen_args es tr = Inr (out, concat (map flatten_rhs locs), locs, tr\<lparr>counter := c\<rparr>)"
    "list_all2 (\<lambda>t. conforms (erase t)) ts locs" "list_all (loc_scoped G tr (set is)) locs"
    "runs F G H C tr out c is (\<lambda>\<sigma> vs. hold_all \<sigma> ts vs locs) (\<lambda>\<rho>. hargs H \<rho> es)"
  using assms unfolding args_refine_def by blast

lemma args_refine_Nil: "args_refine F G H C [] []"
  unfolding args_refine_def
proof (intro allI impI)
  fix tr
  have "runs F G H C tr [] (counter tr) [] (\<lambda>\<sigma> vs. hold_all \<sigma> [] vs []) (\<lambda>\<rho>. hargs H \<rho> [])"
    by (rule runs_nil) simp
  then show "\<exists>out locs c is. gen_args [] tr = Inr (out, concat (map flatten_rhs locs), locs, tr\<lparr>counter := c\<rparr>)
      \<and> list_all2 (\<lambda>t. conforms (erase t)) [] locs \<and> list_all (loc_scoped G tr (set is)) locs
      \<and> runs F G H C tr out c is (\<lambda>\<sigma> vs. hold_all \<sigma> [] vs locs) (\<lambda>\<rho>. hargs H \<rho> [])"
    by (intro exI[of _ "[]"] exI[of _ "counter tr"]) simp
qed

lemma args_refine_Cons:
  assumes e: "refines F G H C e t'" "type_eq t t'" "ref_free t" and es: "args_refine F G H C es ts"
  shows "args_refine F G H C (e # es) (t # ts)"
  unfolding args_refine_def
proof (intro allI impI)
  fix tr
  assume tr: "agrees F G tr" "slots_used G tr"
  from e(1) tr obtain o1 l1 c1 is1 where 1: "ref_free t'" "gen_expr e tr = Inr (o1, l1, tr\<lparr>counter := c1\<rparr>)"
    "conforms (erase t') l1" "loc_scoped G tr (set is1) l1"
    "runs F G H C tr o1 c1 is1 (\<lambda>\<sigma>. holds \<sigma> l1 (erase t')) (\<lambda>\<rho>. heval H \<rho> e)"
    by (rule refinesE)
  have s1: "counter tr \<le> c1" "set is1 \<subseteq> {counter tr..<c1}" using runs_static[OF 1(5)] by simp_all
  have tr': "agrees F G (tr\<lparr>counter := c1\<rparr>)" "slots_used G (tr\<lparr>counter := c1\<rparr>)"
    using tr slots_used_counter[OF tr(2) s1(1)] by simp_all
  with es obtain o2 ls c2 is2 where 2:
    "gen_args es (tr\<lparr>counter := c1\<rparr>) = Inr (o2, concat (map flatten_rhs ls), ls, tr\<lparr>counter := c2\<rparr>)"
    "list_all2 (\<lambda>t. conforms (erase t)) ts ls" "list_all (loc_scoped G tr (set is2)) ls"
    "runs F G H C (tr\<lparr>counter := c1\<rparr>) o2 c2 is2 (\<lambda>\<sigma> vs. hold_all \<sigma> ts vs ls) (\<lambda>\<rho>. hargs H \<rho> es)"
    by (rule args_refineE) simp
  have s2: "set is2 \<subseteq> {c1..<c2}" using runs_static[OF 2(4)] by simp
  have eq: "erase t' = erase t" by (rule type_eq_erases[OF e(2,3) 1(1)])
  have "loc_vars l1 \<inter> stack_name ` set is2 = {}"
    by (rule loc_scoped_apart[OF 1(4) tr(2)]) (use s1 s2 in fastforce)+
  then have "runs F G H C tr (o1 @ o2) c2 (is1 @ is2)
      (\<lambda>\<sigma> (x, y). holds \<sigma> l1 (erase t') x \<and> hold_all \<sigma> ts y ls)
      (\<lambda>\<rho> w. res_bind (heval H \<rho> e w) (\<lambda>(x, w). res_bind (hargs H \<rho> es w) (\<lambda>(y, w). Inr ((x, y), w))))"
    by (intro runs_seq[OF 1(5) 2(4) tr(2)]) (simp add: changes_holds)
  then have "runs F G H C tr (o1 @ o2) c2 (is1 @ is2) (\<lambda>\<sigma> vs. hold_all \<sigma> (t # ts) vs (l1 # ls))
      (\<lambda>\<rho>. hargs H \<rho> (e # es))"
    by (rule runs_map[where f = "\<lambda>((v, vs), w). Inr (v # vs, w)"]) (auto simp: eq res_bind_pair)
  moreover have "list_all (loc_scoped G tr (set (is1 @ is2))) (l1 # ls)"
    using 1(4) 2(3) by (auto simp: list_all_iff intro: loc_scoped_mono)
  ultimately show "\<exists>out locs c is. gen_args (e # es) tr = Inr (out, concat (map flatten_rhs locs), locs, tr\<lparr>counter := c\<rparr>)
      \<and> list_all2 (\<lambda>t. conforms (erase t)) (t # ts) locs \<and> list_all (loc_scoped G tr (set is)) locs
      \<and> runs F G H C tr out c is (\<lambda>\<sigma> vs. hold_all \<sigma> (t # ts) vs locs) (\<lambda>\<rho>. hargs H \<rho> (e # es))"
    using 1(2,3) 2(1,2) eq
    by (intro exI[of _ "o1 @ o2"] exI[of _ "l1 # ls"] exI[of _ c2] exI[of _ "is1 @ is2"]) simp
qed

section \<open>Calls\<close>

lemma hull_alloc_slots:
  assumes c': "c' = counter tr + shape_slots (erase t)"
  shows "\<exists>loc. hull_alloc t tr = Inr (slot_lets [counter tr..<c'], loc, tr\<lparr>counter := c'\<rparr>)
     \<and> stack_only loc \<and> stack_slots loc = [counter tr..<c'] \<and> conforms (erase t) loc \<and> is_place loc
     \<and> flatten_lhs loc = Inr (map stack_name [counter tr..<c'])"
proof -
  obtain loc where b: "build_loc t tr = Inr (loc, tr\<lparr>counter := c'\<rparr>)" "conforms (erase t) loc" "is_place loc"
    "stack_slots loc = [counter tr..<c']"
    using build_loc_ok[of t tr] unfolding c' by blast
  moreover have "stack_only loc" by (rule build_loc_stack[OF b(1)])
  ultimately show ?thesis by (simp add: hull_alloc_def alloc_loc_def flatten_lhs_stack slot_lets_def)
qed

lemma distinct_stack_names: "distinct (map stack_name is) = distinct is"
  by (auto simp: distinct_map inj_on_def stack_name_inj)

text \<open>Assigning the words of a value to slots.\<close>

lemma assigned_holds:
  assumes "stack_only loc" and "distinct (stack_slots loc)" and "conforms s loc" and "enc s v (map Some ws)"
  shows "holds (\<sigma>(map stack_name (stack_slots loc) [\<mapsto>] ws)) loc s v"
proof -
  let ?\<sigma> = "\<sigma>(map stack_name (stack_slots loc) [\<mapsto>] ws)"
  have "length ws = length (stack_slots loc)"
    using enc_length[OF assms(4)] conforms_size[OF assms(3)] rd_length[of \<sigma> loc] rd_stack_only[OF assms(1)]
    by simp
  then have r: "rd ?\<sigma> loc = map Some ws"
    using map_upds_read[of "map stack_name (stack_slots loc)" ws \<sigma>] assms(2)
    by (simp add: rd_stack_only[OF assms(1)] distinct_stack_names comp_def)
  have "?\<sigma> (stack_name i) \<noteq> None" if "i \<in> set (stack_slots loc)" for i
  proof -
    have "?\<sigma> (stack_name i) \<in> set (rd ?\<sigma> loc)" using that by (simp add: rd_stack_only[OF assms(1)])
    then show ?thesis by (auto simp: r)
  qed
  then show ?thesis using assms(3,4) by (simp add: holds_def r readable_stack_only[OF assms(1)])
qed

text \<open>The call itself, from a store that holds the arguments.\<close>

definition call_stmt :: "name \<Rightarrow> nat list \<Rightarrow> location list \<Rightarrow> yul_stmt" where
  "call_stmt m is locs =
     (if is = [] then YExpr (YCall m (concat (map flatten_rhs locs)))
      else YAssign (map stack_name is) (YCall m (concat (map flatten_rhs locs))))"

lemma call_exec:
  assumes cr: "calls_refine F users H C" and F: "F f = Some s" and callee: "lower_callee f users = Call_callee m"
    and args: "hold_all \<sigma> (sig_args s) vs locs"
    and slots: "slots_ready b (set is) c c' \<sigma>" "set is \<subseteq> {c..<c'}" "distinct is"
    and apart: "\<And>l. l \<in> set locs \<Longrightarrow> loc_vars l \<inter> stack_name ` set is = {}"
    and loc: "stack_only loc" "stack_slots loc = is" "conforms (erase (sig_ret s)) loc"
  shows "sim (ends (\<lambda>\<sigma>. holds \<sigma> loc (erase (sig_ret s))) (set is) \<sigma>) (H f vs w)
    (yseq C n (hoisted b (slot_lets is @ [call_stmt m is locs])) \<sigma> w)"
proof -
  obtain \<sigma>1 where \<sigma>1: "yseq C n (hoisted b (slot_lets is)) \<sigma> w = Inr (MNormal, \<sigma>1, w)"
    "changes (set is) \<sigma> \<sigma>1" using alloc_exec[OF slots, of C n w] by blast
  have "hold_all \<sigma>1 (sig_args s) vs locs" using args changes_hold_all[OF \<sigma>1(2) apart] by simp
  from yargs_locs[OF this, of C] obtain wss where wss:
    "\<And>w. yargs C \<sigma>1 (concat (map flatten_rhs locs)) w = Inr (concat wss, w)"
    "arg_words (sig_args s) vs wss" by blast
  have call: "sim (returns_enc (erase (sig_ret s))) (H f vs w) (C m (concat wss) w)"
    by (rule calls_refineD(1)[OF cr F wss(2) callee])
  have size: "shape_slots (erase (sig_ret s)) = length is"
    using conforms_size[OF loc(3)] rd_length[of \<sigma> loc] rd_stack_only[OF loc(1)] loc(2) by simp
  have ret: "length ws = length is \<and> changes (set is) \<sigma> (\<sigma>1(map stack_name is [\<mapsto>] ws))
      \<and> holds (\<sigma>1(map stack_name is [\<mapsto>] ws)) loc (erase (sig_ret s)) v"
    if "enc (erase (sig_ret s)) v (map Some ws)" for v ws
    using assigned_holds[OF loc(1) _ loc(3) that, of \<sigma>1] enc_length[OF that] size loc(2) slots(3)
      assign_changes[OF \<sigma>1(2)] by simp
  have dom: "list_all (\<lambda>x. \<sigma>1 x \<noteq> None) (map stack_name is)"
    using \<sigma>1(2) unfolding changes_def list_all_iff by auto
  have plain: "hoisted b [call_stmt m is locs] = [call_stmt m is locs]"
    by (rule hoisted_plain) (simp add: call_stmt_def)
  have "sim (ends (\<lambda>\<sigma>. holds \<sigma> loc (erase (sig_ret s))) (set is) \<sigma>) (H f vs w)
      (ystmt C n (call_stmt m is locs) \<sigma>1 w)"
  proof (cases "is = []")
    case True
    have "sim (ends (\<lambda>\<sigma>. holds \<sigma> loc (erase (sig_ret s))) (set is) \<sigma>) (H f vs w)
        (res_bind (C m (concat wss) w) (\<lambda>(vs, w). if vs = [] then Inr (MNormal, \<sigma>1, w) else Inl Stuck))"
      by (rule sim_bind_right[OF call])
         (use ret True in \<open>fastforce simp: returns_enc_def ends_def\<close>)
    with True show ?thesis by (simp add: call_stmt_def wss(1))
  next
    case False
    have "sim (ends (\<lambda>\<sigma>. holds \<sigma> loc (erase (sig_ret s))) (set is) \<sigma>) (H f vs w)
        (res_bind (C m (concat wss) w) (\<lambda>(vs, w).
          res_bind (assign_vars (map stack_name is) vs \<sigma>1) (\<lambda>\<sigma>. Inr (MNormal, \<sigma>, w))))"
      by (rule sim_bind_right[OF call])
         (use ret dom slots(3) in \<open>auto simp: returns_enc_def ends_def assign_vars_def distinct_stack_names
            simp del: map_upds_apply_nontin\<close>)
    with False show ?thesis by (simp add: call_stmt_def wss(1))
  qed
  then show ?thesis unfolding hoisted_append plain yseq_append_normal[OF \<sigma>1(1)] yseq_single .
qed

lemma refines_call:
  assumes args: "args_refine F G H C es (sig_args s)" and F: "F f = Some s"
    and a: "ref_free a" "type_eq a (sig_ret s)"
  shows "refines F G H C (Expr sp a (ECall f es)) (sig_ret s)"
proof (rule refinesI)
  fix tr
  assume tr: "agrees F G tr" "slots_used G tr"
  then show rf: "ref_free (sig_ret s)" using F by (auto simp: agrees_def sigs_plain_def)
  from args tr obtain out locs c "is" where g:
    "gen_args es tr = Inr (out, concat (map flatten_rhs locs), locs, tr\<lparr>counter := c\<rparr>)"
    "list_all2 (\<lambda>t. conforms (erase t)) (sig_args s) locs" "list_all (loc_scoped G tr (set is)) locs"
    "runs F G H C tr out c is (\<lambda>\<sigma> vs. hold_all \<sigma> (sig_args s) vs locs) (\<lambda>\<rho>. hargs H \<rho> es)"
    by (rule args_refineE)
  have st: "counter tr \<le> c" "distinct is" "set is \<subseteq> {counter tr..<c}" "allocates out is"
    using runs_static[OF g(4)] by simp_all
  show "\<exists>out loc c is. gen_expr (Expr sp a (ECall f es)) tr = Inr (out, loc, tr\<lparr>counter := c\<rparr>)
      \<and> conforms (erase (sig_ret s)) loc \<and> loc_scoped G tr (set is) loc
      \<and> runs F G H C tr out c is (\<lambda>\<sigma>. holds \<sigma> loc (erase (sig_ret s))) (\<lambda>\<rho>. heval H \<rho> (Expr sp a (ECall f es)))"
  proof (cases "lower_callee f (user_functions tr)")
    case Identity_callee
    with tr F obtain b where b: "sig_args s = [b]" "erase b = erase (sig_ret s)"
      by (auto simp: agrees_def identities_ok_def)
    with g(2) obtain l where l: "locs = [l]" "conforms (erase (sig_ret s)) l"
      by (auto simp: list_all2_Cons1)
    have "runs F G H C tr out c is (\<lambda>\<sigma>. holds \<sigma> l (erase (sig_ret s))) (\<lambda>\<rho>. heval H \<rho> (Expr sp a (ECall f es)))"
    proof (rule runsI)
      fix bb \<rho> \<sigma> w n
      assume cor: "corresponds F G H C \<rho> tr \<sigma>" and rdy: "slots_ready bb (set is) (counter tr) c \<sigma>"
      show "sim (ends (\<lambda>\<sigma>. holds \<sigma> l (erase (sig_ret s))) (set is) \<sigma>) (heval H \<rho> (Expr sp a (ECall f es)) w)
          (yseq C n (hoisted bb out) \<sigma> w)"
        unfolding heval.simps
      proof (rule sim_bind_left[OF runs_sim[OF g(4) cor rdy]], erule endsE, hypsubst)
        fix vs w1 \<sigma>1
        assume h: "changes (set is) \<sigma> \<sigma>1" "hold_all \<sigma>1 (sig_args s) vs locs"
        then obtain v where v: "vs = [v]" "holds \<sigma>1 l (erase (sig_ret s)) v"
          using b l by (auto simp: hold_all_def length_Suc_conv)
        obtain ws where "enc (erase b) v (map Some ws)"
          using yargs_locs[OF h(2), of C] b(1) v(1) by (auto simp: arg_words_def list_all2_Cons1)
        then have aw: "arg_words (sig_args s) vs [ws]" using b(1) v(1) by (simp add: arg_words_def)
        have "calls_refine F (user_functions tr) H C" using cor by (simp add: corresponds_def)
        from calls_refineD(2)[OF this F aw Identity_callee, of w1] have "H f vs w1 = Inr (v, w1)"
          using v(1) by auto
        with h v show "\<exists>z. (case (vs, w1) of (vs, w) \<Rightarrow> H f vs w) = Inr z
            \<and> ends (\<lambda>\<sigma>. holds \<sigma> l (erase (sig_ret s))) (set is) \<sigma> z (MNormal, \<sigma>1, w1)"
          by (auto intro!: endsI)
      qed
    qed (use st in simp_all)
    with g l Identity_callee show ?thesis
      by (intro exI[of _ out] exI[of _ l] exI[of _ c] exI[of _ "is"]) (auto simp del: heval.simps)
  next
    case (Call_callee m)
    have eq: "erase (sig_ret s) = erase a" by (rule type_eq_erases[OF a(2,1) rf])
    define c' where "c' = c + shape_slots (erase a)"
    then have c': "c \<le> c'" by simp
    obtain loc where al: "hull_alloc a (tr\<lparr>counter := c\<rparr>) = Inr (slot_lets [c..<c'], loc, tr\<lparr>counter := c'\<rparr>)"
      "stack_only loc" "stack_slots loc = [c..<c']" "conforms (erase a) loc" "is_place loc"
      "flatten_lhs loc = Inr (map stack_name [c..<c'])"
      using hull_alloc_slots[of c' "tr\<lparr>counter := c\<rparr>" a] c'_def by auto
    have size: "size_of_loc loc = 0 \<longleftrightarrow> [c..<c'] = []"
      using conforms_size[OF al(4)] by (auto simp: c'_def)
    let ?out = "out @ slot_lets [c..<c'] @ [call_stmt m [c..<c'] locs]"
    have gen: "gen_expr (Expr sp a (ECall f es)) tr = Inr (?out, loc, tr\<lparr>counter := c'\<rparr>)"
      using g(1) al(1,6) Call_callee size by (auto simp: y_call_def call_stmt_def)
    have "runs F G H C tr ?out c' (is @ [c..<c']) (\<lambda>\<sigma>. holds \<sigma> loc (erase (sig_ret s)))
        (\<lambda>\<rho>. heval H \<rho> (Expr sp a (ECall f es)))"
    proof (rule runsI)
      have "allocates [call_stmt m [c..<c'] locs] []" by (simp add: allocates_def call_stmt_def slot_lets_def)
      with allocates_append[OF st(4) allocates_append[OF allocates_lets this]]
      show "allocates ?out (is @ [c..<c'])" by simp
      fix bb \<rho> \<sigma> w n
      assume cor: "corresponds F G H C \<rho> tr \<sigma>" and rdy: "slots_ready bb (set (is @ [c..<c'])) (counter tr) c' \<sigma>"
      have rdy1: "slots_ready bb (set is) (counter tr) c \<sigma>"
        by (rule slots_ready_part[OF rdy]) (use st c' in auto)
      have rdy2: "slots_ready bb (set [c..<c']) c c' \<sigma>"
        by (rule slots_ready_part[OF rdy]) (use st in auto)
      show "sim (ends (\<lambda>\<sigma>. holds \<sigma> loc (erase (sig_ret s))) (set (is @ [c..<c'])) \<sigma>)
          (heval H \<rho> (Expr sp a (ECall f es)) w) (yseq C n (hoisted bb ?out) \<sigma> w)"
        unfolding heval.simps hoisted_append[of bb out] yseq_append[of C n "hoisted bb out"]
      proof (rule sim_bind[OF runs_sim[OF g(4) cor rdy1]], erule endsE, hypsubst, simp only: prod.case simp_thms if_True)
        fix vs w1 \<sigma>1
        assume h: "changes (set is) \<sigma> \<sigma>1" "hold_all \<sigma>1 (sig_args s) vs locs"
        have cr: "calls_refine F (user_functions tr) H C" using cor by (simp add: corresponds_def)
        have rdy3: "slots_ready bb (set [c..<c']) c c' \<sigma>1"
          by (rule slots_ready_changes[OF rdy2 h(1)]) (use st(3) in auto)
        have apart: "loc_vars l \<inter> stack_name ` set [c..<c'] = {}" if "l \<in> set locs" for l
          by (rule loc_scoped_apart[OF _ tr(2)]) (use g(3) that st in \<open>fastforce simp: list_all_iff\<close>)+
        have "sim (ends (\<lambda>\<sigma>. holds \<sigma> loc (erase (sig_ret s))) (set [c..<c']) \<sigma>1) (H f vs w1)
            (yseq C n (hoisted bb (slot_lets [c..<c'] @ [call_stmt m [c..<c'] locs])) \<sigma>1 w1)"
          by (rule call_exec[OF cr F Call_callee h(2) rdy3 _ _ apart al(2,3)]) (use al(4) eq in simp_all)
        then show "sim (ends (\<lambda>\<sigma>. holds \<sigma> loc (erase (sig_ret s))) (set (is @ [c..<c'])) \<sigma>) (H f vs w1)
            (yseq C n (hoisted bb (slot_lets [c..<c'] @ [call_stmt m [c..<c'] locs])) \<sigma>1 w1)"
          by (rule sim_mono) (use changes_trans[OF h(1)] in \<open>auto elim!: endsE intro!: endsI\<close>)
      qed
    qed (use st c' in auto)
    moreover have "loc_scoped G tr (set (is @ [c..<c'])) loc"
      using stack_only_vars[OF al(2)] al(3) by (auto simp: loc_scoped_def)
    moreover have "conforms (erase (sig_ret s)) loc" using al(4) eq by simp
    ultimately show ?thesis using gen by blast
  qed
qed

section \<open>Conditionals\<close>

text \<open>One branch: evaluate and copy the result into slots that were allocated before.\<close>

lemma branch_exec:
  assumes e: "sim (ends (\<lambda>\<sigma>. holds \<sigma> l s) U \<sigma>) a (yseq C n out \<sigma> w)"
    and copy: "copy_locs loc l = Inr k"
    and loc: "is_place loc" "distinct (place_names loc)" "conforms s loc"
    and T: "loc_vars loc = stack_name ` T" "loc_vars loc \<subseteq> dom \<sigma>"
    and apart: "loc_vars loc \<inter> loc_vars l = {}" and U: "stack_name ` U \<inter> dom \<sigma> = {}"
  shows "sim (ends (\<lambda>\<sigma>. holds \<sigma> loc s) T \<sigma>) a (yblock C n (out @ k) \<sigma> w)"
  unfolding yblock.simps yseq_append res_bind_assoc
proof (rule sim_bind_right[OF e], erule endsE, hypsubst, simp only: prod.case simp_thms if_True)
  fix v w1 \<sigma>1
  assume g: "changes U \<sigma> \<sigma>1" and h: "holds \<sigma>1 l s v"
  have old: "\<sigma>1 x = \<sigma> x" if "x \<in> dom \<sigma>" for x
    using g U that unfolding changes_def by blast
  have d1: "dom \<sigma> \<subseteq> dom \<sigma>1" using g by (auto simp: changes_def)
  have "loc_vars loc \<subseteq> dom \<sigma>1" using T(2) d1 by blast
  moreover have "size_of_loc loc = size_of_loc l" using holds_size[OF h] conforms_size[OF loc(3)] by simp
  moreover have "readable \<sigma>1 l" using h by (simp add: holds_def)
  ultimately obtain \<sigma>2 where 2: "yseq C n k \<sigma>1 w1 = Inr (MNormal, \<sigma>2, w1)" "dom \<sigma>2 = dom \<sigma>1"
    "\<forall>x. x \<notin> loc_vars loc \<longrightarrow> \<sigma>2 x = \<sigma>1 x" "filled (rd \<sigma>1 l) (rd \<sigma>2 loc)"
    using copy_locs_exec[OF copy loc(1,2), of \<sigma>1 C n w1] apart by blast
  have dom: "dom (\<sigma>2 |` dom \<sigma>) = dom \<sigma>" using 2(2) d1 by auto
  have keep: "(\<sigma>2 |` dom \<sigma>) x = \<sigma> x" if "x \<notin> loc_vars loc" for x
    using 2(3) that old[of x] by (cases "\<sigma> x") (auto simp: restrict_map_def)
  have same: "(\<sigma>2 |` dom \<sigma>) x = \<sigma>2 x" if "x \<in> loc_vars loc" for x
    using T(2) that by (auto simp: restrict_map_def)
  have "enc s v (rd \<sigma>2 loc)" using h 2(4) by (auto simp: holds_def intro: enc_filled)
  moreover have "readable \<sigma>2 loc"
    using T(2) 2(2) d1 by (intro place_readable[OF loc(1)]) blast
  ultimately have "holds \<sigma>2 loc s v" using loc(3) by (simp add: holds_def)
  then have "holds (\<sigma>2 |` dom \<sigma>) loc s v" using holds_cong[OF same] by simp
  moreover have "changes T \<sigma> (\<sigma>2 |` dom \<sigma>)"
    unfolding changes_def dom T(1)[symmetric] using keep T(2) by blast
  ultimately show "\<exists>z. res_bind (yseq C n k \<sigma>1 w1) (\<lambda>(m, \<sigma>', w). Inr (m, \<sigma>' |` dom \<sigma>, w)) = Inr z
      \<and> ends (\<lambda>\<sigma>. holds \<sigma> loc s) T \<sigma> (v, w1) z"
    using 2(1) by (auto intro!: endsI)
qed

text \<open>The two branches, in a store in which the condition has been evaluated.\<close>

lemma branch_runs:
  assumes r: "runs F G H C tr out c is (\<lambda>\<sigma>. holds \<sigma> l s) (\<lambda>\<rho>. heval H \<rho> e)"
    and cor: "corresponds F G H C \<rho> tr \<sigma>" and rdy: "slots_ready b {} (counter tr) c \<sigma>"
    and copy: "copy_locs loc l = Inr k"
    and loc: "is_place loc" "distinct (place_names loc)" "conforms s loc"
    and T: "loc_vars loc = stack_name ` T" "loc_vars loc \<subseteq> dom \<sigma>"
    and apart: "loc_vars loc \<inter> loc_vars l = {}"
  shows "sim (ends (\<lambda>\<sigma>. holds \<sigma> loc s) T \<sigma>) (heval H \<rho> e w) (yblock C n (out @ k) \<sigma> w)"
proof (rule branch_exec[OF _ copy loc T apart])
  have "slots_ready False (set is) (counter tr) c \<sigma>" using rdy by (simp add: slots_ready_def)
  from runs_sim[OF r cor this, of w n]
  show "sim (ends (\<lambda>\<sigma>. holds \<sigma> l s) (set is) \<sigma>) (heval H \<rho> e w) (yseq C n out \<sigma> w)"
    by (simp add: hoisted_def)
  show "stack_name ` set is \<inter> dom \<sigma> = {}"
    using rdy runs_static[OF r] unfolding slots_ready_def by fastforce
qed

lemma refines_if:
  assumes c: "refines F G H C c tc" "is_bool_like tc"
    and 1: "refines F G H C e1 t1" "type_eq target t1" and 2: "refines F G H C e2 t2" "type_eq target t2"
    and target: "ref_free target"
  shows "refines F G H C (Expr sp a (EIf target c e1 e2)) target"
proof (rule refinesI)
  fix tr
  assume tr: "agrees F G tr" "slots_used G tr"
  define n0 where "n0 = counter tr + shape_slots (erase target)"
  then have n0: "counter tr \<le> n0" by simp
  obtain loc where al: "hull_alloc target tr = Inr (slot_lets [counter tr..<n0], loc, tr\<lparr>counter := n0\<rparr>)"
    "stack_only loc" "stack_slots loc = [counter tr..<n0]" "conforms (erase target) loc" "is_place loc"
    "flatten_lhs loc = Inr (map stack_name [counter tr..<n0])"
    using hull_alloc_slots[of n0 tr target] n0_def by auto
  have "agrees F G (tr\<lparr>counter := n0\<rparr>)" "slots_used G (tr\<lparr>counter := n0\<rparr>)"
    using tr slots_used_counter[OF tr(2) n0] by simp_all
  with c(1) obtain oc lc nc isc where gc: "gen_expr c (tr\<lparr>counter := n0\<rparr>) = Inr (oc, lc, tr\<lparr>counter := nc\<rparr>)"
    "conforms (erase tc) lc" 
    "runs F G H C (tr\<lparr>counter := n0\<rparr>) oc nc isc (\<lambda>\<sigma>. holds \<sigma> lc (erase tc)) (\<lambda>\<rho>. heval H \<rho> c)"
    by (rule refinesE) simp
  have sc: "n0 \<le> nc" "distinct isc" "set isc \<subseteq> {n0..<nc}" "allocates oc isc"
    using runs_static[OF gc(3)] by simp_all
  have le1: "counter tr \<le> nc" using n0 sc(1) by simp
  have "agrees F G (tr\<lparr>counter := nc\<rparr>)" "slots_used G (tr\<lparr>counter := nc\<rparr>)"
    using tr slots_used_counter[OF tr(2) le1] by simp_all
  with 1(1) obtain o1 l1 n1 is1 where g1: "ref_free t1" "gen_expr e1 (tr\<lparr>counter := nc\<rparr>) = Inr (o1, l1, tr\<lparr>counter := n1\<rparr>)"
    "conforms (erase t1) l1" "loc_scoped G tr (set is1) l1"
    "runs F G H C (tr\<lparr>counter := nc\<rparr>) o1 n1 is1 (\<lambda>\<sigma>. holds \<sigma> l1 (erase t1)) (\<lambda>\<rho>. heval H \<rho> e1)"
    by (rule refinesE) simp
  have s1: "nc \<le> n1" "set is1 \<subseteq> {nc..<n1}" using runs_static[OF g1(5)] by simp_all
  have le2: "counter tr \<le> n1" using le1 s1(1) by simp
  have "agrees F G (tr\<lparr>counter := n1\<rparr>)" "slots_used G (tr\<lparr>counter := n1\<rparr>)"
    using tr slots_used_counter[OF tr(2) le2] by simp_all
  with 2(1) obtain o2 l2 n2 is2 where g2: "ref_free t2" "gen_expr e2 (tr\<lparr>counter := n1\<rparr>) = Inr (o2, l2, tr\<lparr>counter := n2\<rparr>)"
    "conforms (erase t2) l2" "loc_scoped G tr (set is2) l2"
    "runs F G H C (tr\<lparr>counter := n1\<rparr>) o2 n2 is2 (\<lambda>\<sigma>. holds \<sigma> l2 (erase t2)) (\<lambda>\<rho>. heval H \<rho> e2)"
    by (rule refinesE) simp
  have s2: "n1 \<le> n2" "set is2 \<subseteq> {n1..<n2}" using runs_static[OF g2(5)] by simp_all
  have eq: "erase t1 = erase target" "erase t2 = erase target"
    using type_eq_erases[OF 1(2) target g1(1)] type_eq_erases[OF 2(2) target g2(1)] by simp_all
  then have "size_of_loc loc = size_of_loc l1" "size_of_loc loc = size_of_loc l2"
    using al(4) g1(3) g2(3) by (simp_all add: conforms_size)
  then obtain k1 k2 where k: "copy_locs loc l1 = Inr k1" "copy_locs loc l2 = Inr k2"
    using copy_locs_ok[OF al(5)] by blast
  have "size_of_loc lc = 1"
    using gc(2) bool_like_one_slot[OF c(2)] by (simp add: conforms_size checker_slots.slots_shape)
  then obtain ce where ce: "load_loc (normalize_loc lc) = Inr ce"
    using load_loc_flat normalize_loc_one_word by blast
  let ?sw = "YSwitch ce [YCase (YNumber ''0'') (o2 @ k2)] (Some (o1 @ k1))"
  let ?out = "slot_lets [counter tr..<n0] @ oc @ [?sw]"
  let ?is = "[counter tr..<n0] @ isc"
  let ?R = "\<lambda>\<sigma>. holds \<sigma> loc (erase target)"
  have gen: "gen_expr (Expr sp a (EIf target c e1 e2)) tr = Inr (?out, loc, tr\<lparr>counter := n2\<rparr>)"
    using al(1) gc(1) g1(2) g2(2) k ce by simp
  have lv: "loc_vars loc = stack_name ` set [counter tr..<n0]"
    using stack_only_vars[OF al(2)] al(3) by simp
  have pn: "distinct (place_names loc)"
    by (simp add: place_names_def al(6) distinct_stack_names)
  have a1: "loc_vars loc \<inter> loc_vars l1 = {}"
    unfolding lv Int_commute[of _ "loc_vars l1"]
    by (rule loc_scoped_apart[OF g1(4) tr(2)]) (use sc(1) s1 in fastforce)+
  have a2: "loc_vars loc \<inter> loc_vars l2 = {}"
    unfolding lv Int_commute[of _ "loc_vars l2"]
    by (rule loc_scoped_apart[OF g2(4) tr(2)]) (use sc(1) s1(1) s2 in fastforce)+
  have "runs F G H C tr ?out n2 ?is ?R (\<lambda>\<rho>. heval H \<rho> (Expr sp a (EIf target c e1 e2)))"
  proof (rule runsI)
    show "counter tr \<le> n2" using le2 s2(1) by simp
    show "distinct ?is" using sc by fastforce
    show "set ?is \<subseteq> {counter tr..<n2}" using sc s1(1) s2(1) n0 by fastforce
    have "allocates [?sw] []" by (simp add: allocates_def slot_lets_def)
    from allocates_append[OF allocates_lets allocates_append[OF sc(4) this]]
    show "allocates ?out ?is" by simp
    fix b \<rho> \<sigma> w n
    assume cor: "corresponds F G H C \<rho> tr \<sigma>" and rdy: "slots_ready b (set ?is) (counter tr) n2 \<sigma>"
    have r0: "slots_ready b (set [counter tr..<n0]) (counter tr) n0 \<sigma>"
      by (rule slots_ready_part[OF rdy]) (use sc s1(1) s2(1) in auto)
    have r1: "slots_ready b (set isc) n0 nc \<sigma>"
      by (rule slots_ready_part[OF rdy]) (use sc n0 s1(1) s2(1) in auto)
    have r2: "slots_ready b {} nc n2 \<sigma>"
      by (rule slots_ready_part[OF rdy]) (use sc n0 le1 in auto)
    obtain \<sigma>0 where \<sigma>0: "yseq C n (hoisted b (slot_lets [counter tr..<n0])) \<sigma> w = Inr (MNormal, \<sigma>0, w)"
      "changes (set [counter tr..<n0]) \<sigma> \<sigma>0" using alloc_exec[OF r0, of C n w] by auto
    have cor0: "corresponds F G H C \<rho> (tr\<lparr>counter := n0\<rparr>) \<sigma>0"
      using corresponds_changes[OF cor \<sigma>0(2) tr(2)] by (simp add: subset_eq)
    have rc: "slots_ready b (set isc) (counter (tr\<lparr>counter := n0\<rparr>)) nc \<sigma>0"
      using slots_ready_changes[OF r1 \<sigma>0(2)] by simp
    have plain: "hoisted b [?sw] = [?sw]" by (rule hoisted_plain) simp
    show "sim (ends ?R (set ?is) \<sigma>) (heval H \<rho> (Expr sp a (EIf target c e1 e2)) w) (yseq C n (hoisted b ?out) \<sigma> w)"
      unfolding heval.simps hoisted_append plain yseq_append_normal[OF \<sigma>0(1)] yseq_append[of C n "hoisted b oc"]
    proof (rule sim_bind[OF runs_sim[OF gc(3) cor0 rc]], erule endsE, hypsubst,
        simp only: prod.case simp_thms if_True yseq_single)
      fix v w1 \<sigma>2
      assume g: "changes (set isc) \<sigma>0 \<sigma>2" and h: "holds \<sigma>2 lc (erase tc) v"
      have gr: "changes (set ?is) \<sigma> \<sigma>2" using changes_trans[OF \<sigma>0(2) g] by simp
      obtain p where p: "truth v = Some p" "yeval1 C \<sigma>2 ce w1 = Inr (of_bool p, w1)"
        using condition_word[OF c(2) h ce, of C w1] by blast
      have cor2: "corresponds F G H C \<rho> tr \<sigma>2"
        by (rule corresponds_changes[OF cor gr tr(2)]) (use n0 sc in auto)
      have r3: "slots_ready b {} nc n2 \<sigma>2"
        by (rule slots_ready_changes[OF r2 gr]) (use sc in auto)
      have dom: "loc_vars loc \<subseteq> dom \<sigma>2" using gr unfolding lv changes_def by auto
      have "sim (ends ?R (set [counter tr..<n0]) \<sigma>2) (heval H \<rho> e1 w1) (yblock C n (o1 @ k1) \<sigma>2 w1)"
        by (rule branch_runs[OF g1(5)[unfolded eq] _ _ k(1) al(5) pn al(4) lv dom a1])
           (use cor2 r3 s2(1) in \<open>auto elim!: slots_ready_part\<close>)
      moreover have "sim (ends ?R (set [counter tr..<n0]) \<sigma>2) (heval H \<rho> e2 w1) (yblock C n (o2 @ k2) \<sigma>2 w1)"
        by (rule branch_runs[OF g2(5)[unfolded eq] _ _ k(2) al(5) pn al(4) lv dom a2])
           (use cor2 r3 s1(1) in \<open>auto elim!: slots_ready_part\<close>)
      moreover have "changes (set ?is) \<sigma> \<sigma>'" if "changes (set [counter tr..<n0]) \<sigma>2 \<sigma>'" for \<sigma>'
        using changes_trans[OF gr that] by (simp add: Un_absorb2 Un_commute Un_left_commute)
      ultimately have b: "sim (ends ?R (set ?is) \<sigma>) (heval H \<rho> e1 w1) (yblock C n (o1 @ k1) \<sigma>2 w1)"
        "sim (ends ?R (set ?is) \<sigma>) (heval H \<rho> e2 w1) (yblock C n (o2 @ k2) \<sigma>2 w1)"
        by (auto elim!: sim_mono endsE intro!: endsI)
      then show "sim (ends ?R (set ?is) \<sigma>)
          (case truth v of Some b \<Rightarrow> if b then heval H \<rho> e1 w1 else heval H \<rho> e2 w1 | None \<Rightarrow> Inl Stuck)
          (ystmt C n ?sw \<sigma>2 w1)"
        using p by (simp add: number_0[simplified])
    qed
  qed
  moreover have "loc_scoped G tr (set ?is) loc" by (auto simp: loc_scoped_def lv)
  ultimately show "\<exists>out loc c' is. gen_expr (Expr sp a (EIf target c e1 e2)) tr = Inr (out, loc, tr\<lparr>counter := c'\<rparr>)
      \<and> conforms (erase target) loc \<and> loc_scoped G tr (set is) loc
      \<and> runs F G H C tr out c' is (\<lambda>\<sigma>. holds \<sigma> loc (erase target)) (\<lambda>\<rho>. heval H \<rho> (Expr sp a (EIf target c e1 e2)))"
    using gen al(4) by blast
qed (rule target)

section \<open>Well-typed expressions\<close>

lemma wt_refines:
  assumes F: "sigs_plain F" and G: "\<And>x t. G x = Some t \<Longrightarrow> ref_free t"
  shows "wt_infer F G e t \<Longrightarrow> type_eq (expr_ty e) t \<Longrightarrow> expr_plain e \<Longrightarrow> refines F G H C e t"
    and "wt_expr F G e t \<Longrightarrow> expr_plain e \<Longrightarrow> refines F G H C e t"
    and "wt_args F G ts es \<Longrightarrow> list_all expr_plain es \<Longrightarrow> list_all ref_free ts \<Longrightarrow> args_refine F G H C es ts"
proof (induction rule: wt_infer_wt_expr_wt_args.inducts)
  case (bool sp a b)
  show ?case by (rule refines_leaf) (simp_all add: holds_def)
next
  case (unit sp a)
  show ?case by (rule refines_leaf) (simp_all add: holds_def)
next
  case (call f s es sp a)
  then have "list_all ref_free (sig_args s)" using F by (auto simp: sigs_plain_def)
  with call show ?case by (auto intro: refines_call)
qed (auto intro: refines_word refines_var[OF _ G] refines_pair refines_proj refines_inj refines_in_k
    refines_if args_refine_Nil args_refine_Cons)

section \<open>Properties\<close>

text \<open>C3. The code generated for an accepted expression computes the value of the expression. In a
  store that holds the visible variables, with callees that implement the Hull functions, running it
  has the outcome of evaluating the expression: the same final machine state, the same halt or
  timeout, never stuck. When it returns, the location holds the value, and no variable that was
  declared before has changed.\<close>

theorem lowered_expression_computes:
  assumes "check_expr e env = (t, env)" and "expr_plain e"
    and "agrees (env_funs env) (lookup_var env) tr" and "slots_used (lookup_var env) tr"
    and "corresponds (env_funs env) (lookup_var env) H C \<rho> tr \<sigma>"
    and "\<And>i. counter tr \<le> i \<Longrightarrow> \<sigma> (stack_name i) = None"
  shows "\<exists>out loc c. gen_expr e tr = Inr (out, loc, tr\<lparr>counter := c\<rparr>)
    \<and> sim (\<lambda>(v, w1) (m, \<sigma>', w2). m = MNormal \<and> w2 = w1 \<and> \<sigma> \<subseteq>\<^sub>m \<sigma>' \<and> holds \<sigma>' loc (erase t) v)
        (heval H \<rho> e w) (yseq C n out \<sigma> w)"
proof -
  have wt: "wt_expr (env_funs env) (lookup_var env) e t"
    using assms(1) by (simp add: check_expr_clean_iff)
  have "sigs_plain (env_funs env)" "\<And>x t. lookup_var env x = Some t \<Longrightarrow> ref_free t"
    using assms(3) by (auto simp: agrees_def vars_match_def)
  from wt_refines(2)[OF this wt assms(2)] obtain out loc c "is" where g:
    "gen_expr e tr = Inr (out, loc, tr\<lparr>counter := c\<rparr>)"
    "runs (env_funs env) (lookup_var env) H C tr out c is (\<lambda>\<sigma>. holds \<sigma> loc (erase t)) (\<lambda>\<rho>. heval H \<rho> e)"
    using assms(3,4) by (rule refinesE)
  have none: "\<sigma> (stack_name i) = None" if "i \<in> set is" for i
    using assms(6) runs_static[OF g(2)] that by fastforce
  have "slots_ready False (set is) (counter tr) c \<sigma>"
    using assms(6) by (auto simp: slots_ready_def)
  from runs_sim[OF g(2) assms(5) this, of w n]
  have "sim (ends (\<lambda>\<sigma>. holds \<sigma> loc (erase t)) (set is) \<sigma>) (heval H \<rho> e w) (yseq C n out \<sigma> w)"
    by (simp add: hoisted_def)
  then have "sim (\<lambda>(v, w1) (m, \<sigma>', w2). m = MNormal \<and> w2 = w1 \<and> \<sigma> \<subseteq>\<^sub>m \<sigma>' \<and> holds \<sigma>' loc (erase t) v)
        (heval H \<rho> e w) (yseq C n out \<sigma> w)"
    by (rule sim_mono) (use none in \<open>auto elim!: endsE simp: changes_le\<close>)
  with g(1) show ?thesis by blast
qed

text \<open>An example: \<open>add(x, 7)\<close> over a machine with \<open>add\<close> only.\<close>

definition add_sig :: fun_sig where
  "add_sig = \<lparr>sig_args = [ty_word sp0, ty_word sp0], sig_ret = ty_word sp0\<rparr>"

definition add_env :: env where
  "add_env = env0\<lparr>env_funs := [''add'' \<mapsto> add_sig]\<rparr>"

fun hull_add :: "unit hcalls" where
  "hull_add f [VWord a, VWord b] w = (if f = ''add'' then Inr (VWord (a + b), w) else Inl (Halted w))"
| "hull_add f vs w = Inl (Halted w)"

fun yul_add :: "unit ycalls" where
  "yul_add f [a, b] w = (if f = ''add'' then Inr ([a + b], w) else Inl (Halted w))"
| "yul_add f vs w = Inl (Halted w)"

lemma add_calls: "calls_refine [''add'' \<mapsto> add_sig] {} hull_add yul_add"
proof -
  have callee: "lower_callee ''add'' {} = Call_callee ''add''" by code_simp
  have "sim (returns_enc ShWord) (hull_add ''add'' vs w) (yul_add ''add'' (concat wss) w)"
    if "arg_words (sig_args add_sig) vs wss" for vs wss w
  proof -
    from that obtain u v a b where "vs = [u, v]" "wss = [a, b]"
      "enc ShWord u (map Some a)" "enc ShWord v (map Some b)"
      by (auto simp: arg_words_def add_sig_def length_Suc_conv list_all2_Cons1)
    then show ?thesis by (cases u; cases v) (auto simp: returns_enc_def)
  qed
  then show ?thesis by (auto simp: calls_refine_def callee add_sig_def)
qed

lemma add_state:
  "agrees (env_funs add_env) (lookup_var add_env) tr0"
  "slots_used (lookup_var add_env) tr0"
  "corresponds (env_funs add_env) (lookup_var add_env) hull_add yul_add [''x'' \<mapsto> VWord 5] tr0 [''src$x_0'' \<mapsto> 5]"
proof -
  have G: "lookup_var add_env = [''x'' \<mapsto> ty_word sp0]"
    using env0_fields(2) by (simp add: add_env_def lookup_var_def fun_eq_iff)
  have x: "lookup_var_opt tr0 ''x'' = Some (LNamed ''src$x_0'')" "user_functions tr0 = {}"
    by (simp_all add: lookup_var_opt_def tr0_def tr_insert_var_def new_translator_def scopes_insert_def
        scopes_lookup_def)
  have "lower_callee ''add'' {} = Call_callee ''add''" by code_simp
  with G x show "agrees (env_funs add_env) (lookup_var add_env) tr0"
    by (auto simp: agrees_def add_env_def add_sig_def sigs_plain_def identities_ok_def vars_match_def
        split: if_splits)
  show "slots_used (lookup_var add_env) tr0"
    using G x by (auto simp: slots_used_def accessible_def stack_name_def yul_var_name_def split: if_splits)
  show "corresponds (env_funs add_env) (lookup_var add_env) hull_add yul_add [''x'' \<mapsto> VWord 5] tr0 [''src$x_0'' \<mapsto> 5]"
    using G x add_calls
    by (auto simp: corresponds_def add_env_def vars_hold_def holds_def yul_var_name_def split: if_splits)
qed

theorem lowered_expression_computes_witness:
  "\<exists>out loc c \<sigma>'. gen_expr (Expr sp0 (ty_word sp0) (ECall ''add'' args0)) tr0 = Inr (out, loc, tr0\<lparr>counter := c\<rparr>)
     \<and> yseq yul_add 0 out [''src$x_0'' \<mapsto> 5] () = Inr (MNormal, \<sigma>', ()) \<and> holds \<sigma>' loc ShWord (VWord 12)"
proof -
  let ?e = "Expr sp0 (ty_word sp0) (ECall ''add'' args0)"
  have "check_expr ?e add_env = (ty_word sp0, add_env)"
    using env0_fields(2)
    by (simp add: check_expr.simps add_env_def add_sig_def args0_def word_eq expect_type_def lookup_var_def
        fun_eq_iff)
  moreover have "expr_plain ?e" by (simp add: args0_def literal_7)
  moreover have "\<And>i. [''src$x_0'' \<mapsto> (5 :: 256 word)] (stack_name i) = None" by (simp add: stack_name_def)
  ultimately obtain out loc c where *: "gen_expr ?e tr0 = Inr (out, loc, tr0\<lparr>counter := c\<rparr>)"
    "sim (\<lambda>(v, w1) (m, \<sigma>', w2). m = MNormal \<and> w2 = w1 \<and> [''src$x_0'' \<mapsto> 5] \<subseteq>\<^sub>m \<sigma>'
         \<and> holds \<sigma>' loc (erase (ty_word sp0)) v)
       (heval hull_add [''x'' \<mapsto> VWord 5] ?e ()) (yseq yul_add 0 out [''src$x_0'' \<mapsto> 5] ())"
    using lowered_expression_computes[OF _ _ add_state, of ?e "ty_word sp0" "()" 0] by blast
  have "literal_value ''7'' = 7" by code_simp
  then have "heval hull_add [''x'' \<mapsto> VWord 5] ?e () = Inr (VWord 12, ())"
    by (simp add: args0_def literal_7)
  with * show ?thesis by auto
qed

end
