(* ===== verification/Hull_Exec.thy ===== *)
theory Hull_Exec
  imports Hull_Sem
begin

text \<open>
  The reference semantics of Hull, continued: statements. The environment is the stack of the
  visible and hidden local variables with their values, the innermost first; leaving a block drops
  the variables that were declared in it. A \<open>match\<close> takes the first alternative whose pattern fits,
  and none fitting is no error. The state in which a \<open>revert\<close> ends is a parameter, like calls.
  Inline assembly has no meaning here.
\<close>

section \<open>Environments\<close>

type_synonym henv = "(name \<times> hval) list"

datatype hmode = HNormal | HBreak | HContinue | HReturn hval

fun set_var :: "name \<Rightarrow> hval \<Rightarrow> henv \<Rightarrow> henv option" where
  "set_var x v [] = None"
| "set_var x v ((y, u) # \<rho>) =
     (if x = y then Some ((y, v) # \<rho>) else map_option (\<lambda>\<rho>. (y, u) # \<rho>) (set_var x v \<rho>))"

lemma set_var_length: "set_var x v \<rho> = Some \<rho>' \<Longrightarrow> length \<rho>' = length \<rho>"
  by (induction \<rho> arbitrary: \<rho>') (auto split: if_splits)

text \<open>The environment at the end of a block that was entered with \<open>k\<close> variables.\<close>

definition outer :: "nat \<Rightarrow> henv \<Rightarrow> henv" where
  "outer k \<rho> = drop (length \<rho> - k) \<rho>"

lemma outer_same [simp]: "outer (length \<rho>) \<rho> = \<rho>"
  by (simp add: outer_def)

lemma outer_append [simp]: "length \<rho> = k \<Longrightarrow> outer k (\<rho>1 @ \<rho>) = \<rho>"
  by (simp add: outer_def)

section \<open>Patterns\<close>

fun pat_fits :: "pat_kind \<Rightarrow> hval \<Rightarrow> bool" where
  "pat_fits (PCon Inl_con) (VInl _) = True"
| "pat_fits (PCon Inr_con) (VInr _) = True"
| "pat_fits (PIntLit s) (VWord w) = (w = of_nat (literal_value s))"
| "pat_fits (PVar _) _ = True"
| "pat_fits PWildcard _ = True"
| "pat_fits _ _ = False"

fun pat_binds :: "pat_kind \<Rightarrow> name \<Rightarrow> hval \<Rightarrow> henv" where
  "pat_binds (PCon _) b (VInl v) = [(b, v)]"
| "pat_binds (PCon _) b (VInr v) = [(b, v)]"
| "pat_binds (PVar x) b v = [(b, v), (x, v)]"
| "pat_binds _ b v = [(b, v)]"

fun find_alt :: "hval \<Rightarrow> alt list \<Rightarrow> (henv \<times> stmt list) option" where
  "find_alt v [] = None"
| "find_alt v (Alt sp p b body # alts) =
     (if pat_fits (pat_kind p) v then Some (pat_binds (pat_kind p) b v, body) else find_alt v alts)"

lemma find_alt_size: "find_alt v alts = Some (\<rho>, body) \<Longrightarrow> size_list size body < size_list size alts"
proof (induction alts)
  case (Cons a alts)
  then show ?case by (cases a) (auto split: if_splits)
qed simp

section \<open>Statements\<close>

type_synonym 'w hres = "'w stop + (hmode \<times> henv \<times> 'w)"

type_synonym 'w reverts = "string \<Rightarrow> 'w \<Rightarrow> 'w"

text \<open>The fuel decreases in every iteration, the size of the code everywhere else.\<close>

function (sequential) hstmts :: "'w hcalls \<Rightarrow> 'w reverts \<Rightarrow> nat \<Rightarrow> stmt list \<Rightarrow> henv \<Rightarrow> 'w \<Rightarrow> 'w hres"
  and hblock :: "'w hcalls \<Rightarrow> 'w reverts \<Rightarrow> nat \<Rightarrow> nat \<Rightarrow> stmt list \<Rightarrow> henv \<Rightarrow> 'w \<Rightarrow> 'w hres"
  and hstmt :: "'w hcalls \<Rightarrow> 'w reverts \<Rightarrow> nat \<Rightarrow> stmt \<Rightarrow> henv \<Rightarrow> 'w \<Rightarrow> 'w hres"
  and hloop :: "'w hcalls \<Rightarrow> 'w reverts \<Rightarrow> nat \<Rightarrow> expr \<Rightarrow> stmt list \<Rightarrow> stmt list \<Rightarrow> bool \<Rightarrow> henv \<Rightarrow> 'w \<Rightarrow> 'w hres" where
  "hstmts H R n [] \<rho> w = Inr (HNormal, \<rho>, w)"
| "hstmts H R n (s # ss) \<rho> w =
     res_bind (hstmt H R n s \<rho> w) (\<lambda>(m, \<rho>, w).
     if m = HNormal then hstmts H R n ss \<rho> w else Inr (m, \<rho>, w))"
| "hblock H R n k ss \<rho> w = res_bind (hstmts H R n ss \<rho> w) (\<lambda>(m, \<rho>, w). Inr (m, outer k \<rho>, w))"
| "hstmt H R n (Stmt sp (SLet x t)) \<rho> w = Inr (HNormal, (x, default_value (erase t)) # \<rho>, w)"
| "hstmt H R n (Stmt sp (SAssign (Expr _ _ (EVar x)) rhs)) \<rho> w =
     res_bind (heval H (map_of \<rho>) rhs w) (\<lambda>(v, w).
     case set_var x v \<rho> of Some \<rho> \<Rightarrow> Inr (HNormal, \<rho>, w) | None \<Rightarrow> Inl Stuck)"
| "hstmt H R n (Stmt sp (SAssign _ rhs)) \<rho> w = Inl Stuck"
| "hstmt H R n (Stmt sp (SExpr e)) \<rho> w =
     res_bind (heval H (map_of \<rho>) e w) (\<lambda>(v, w). Inr (HNormal, \<rho>, w))"
| "hstmt H R n (Stmt sp (SReturn e)) \<rho> w =
     res_bind (heval H (map_of \<rho>) e w) (\<lambda>(v, w). Inr (HReturn v, \<rho>, w))"
| "hstmt H R n (Stmt sp (SBlock ss)) \<rho> w = hblock H R n (length \<rho>) ss \<rho> w"
| "hstmt H R n (Stmt sp (SFor init cond post body)) \<rho> w =
     res_bind (hstmts H R n init \<rho> w) (\<lambda>(m, \<rho>1, w).
     if m = HNormal
     then res_bind (heval H (map_of \<rho>1) cond w) (\<lambda>(v, w).
          case truth v of
            Some b \<Rightarrow> res_bind (hloop H R n cond post body b \<rho>1 w) (\<lambda>(m, \<rho>1, w).
                        Inr (m, outer (length \<rho>) \<rho>1, w))
          | None \<Rightarrow> Inl Stuck)
     else Inr (m, outer (length \<rho>) \<rho>1, w))"
| "hstmt H R n (Stmt sp SBreak) \<rho> w = Inr (HBreak, \<rho>, w)"
| "hstmt H R n (Stmt sp SContinue) \<rho> w = Inr (HContinue, \<rho>, w)"
| "hstmt H R n (Stmt sp (SMatch target scrutinee alts)) \<rho> w =
     res_bind (heval H (map_of \<rho>) scrutinee w) (\<lambda>(v, w).
     case find_alt v alts of
       Some (\<rho>1, body) \<Rightarrow> hblock H R n (length \<rho>) body (\<rho>1 @ \<rho>) w
     | None \<Rightarrow> Inr (HNormal, \<rho>, w))"
| "hstmt H R n (Stmt sp (SAssembly _)) \<rho> w = Inl Stuck"
| "hstmt H R n (Stmt sp (SRevert message)) \<rho> w = Inl (Halted (R message w))"
| "hstmt H R n (Stmt sp (SComment _)) \<rho> w = Inr (HNormal, \<rho>, w)"
| "hloop H R 0 cond post body b \<rho> w = Inl Timeout"
| "hloop H R (Suc n) cond post body b \<rho> w =
     (if \<not> b then Inr (HNormal, \<rho>, w)
      else res_bind (hblock H R n (length \<rho>) body \<rho> w) (\<lambda>(m, \<rho>, w).
           case m of
             HBreak \<Rightarrow> Inr (HNormal, \<rho>, w)
           | HReturn v \<Rightarrow> Inr (HReturn v, \<rho>, w)
           | _ \<Rightarrow>
               res_bind (hblock H R n (length \<rho>) post \<rho> w) (\<lambda>(m, \<rho>, w).
               if m = HNormal
               then res_bind (heval H (map_of \<rho>) cond w) (\<lambda>(v, w).
                    case truth v of
                      Some b \<Rightarrow> hloop H R n cond post body b \<rho> w
                    | None \<Rightarrow> Inl Stuck)
               else Inr (m, \<rho>, w))))"
  by pat_completeness auto

termination
proof (relation "measures
    [case_sum (case_sum (\<lambda>(H, R, n, ss, \<rho>, w). n) (\<lambda>(H, R, n, k, ss, \<rho>, w). n))
       (case_sum (\<lambda>(H, R, n, s, \<rho>, w). n) (\<lambda>(H, R, n, c, p, b, x, \<rho>, w). n)),
     case_sum (case_sum (\<lambda>(H, R, n, ss, \<rho>, w). 2 * size_list size ss) (\<lambda>(H, R, n, k, ss, \<rho>, w). 2 * size_list size ss + 1))
       (case_sum (\<lambda>(H, R, n, s, \<rho>, w). 2 * size s) (\<lambda>(H, R, n, c, p, b, x, \<rho>, w). 0))]", goal_cases)
qed (auto dest: find_alt_size)

end
