(* ===== verification/Hull_Typing_Stmts.thy ===== *)
theory Hull_Typing_Stmts
  imports Yul_Lower_Sound Hull_Check_Props
begin

text \<open>
  The declarative type system, continued: statements and function bodies without inline
  assembly, over the visible variables instead of a stack of scopes. The validator
  reports nothing on a function exactly when it is well typed in this sense.
\<close>

section \<open>Typing rules for statements\<close>

fun after :: "stmt \<Rightarrow> (name \<Rightarrow> ty option) \<Rightarrow> name \<Rightarrow> ty option" where
  "after (Stmt sp (SLet x t)) G = G(x \<mapsto> t)"
| "after _ G = G"

fun wt_stmts :: "(name \<rightharpoonup> fun_sig) \<Rightarrow> ty option \<Rightarrow> (name \<Rightarrow> ty option) \<Rightarrow> stmt list \<Rightarrow> bool"
  and wt_stmt :: "(name \<rightharpoonup> fun_sig) \<Rightarrow> ty option \<Rightarrow> (name \<Rightarrow> ty option) \<Rightarrow> stmt \<Rightarrow> bool"
  and wt_alts :: "(name \<rightharpoonup> fun_sig) \<Rightarrow> ty option \<Rightarrow> (name \<Rightarrow> ty option) \<Rightarrow> ty \<Rightarrow> alt list \<Rightarrow> bool" where
  "wt_stmts F r G [] \<longleftrightarrow> True"
| "wt_stmts F r G (s # ss) \<longleftrightarrow> wt_stmt F r G s \<and> wt_stmts F r (after s G) ss"
| "wt_stmt F r G (Stmt sp (SLet x t)) \<longleftrightarrow> True"
| "wt_stmt F r G (Stmt sp (SAssign lhs rhs)) \<longleftrightarrow>
     (\<exists>t u. wt_expr F G lhs t \<and> wt_expr F G rhs u \<and> type_eq t u)"
| "wt_stmt F r G (Stmt sp (SExpr e)) \<longleftrightarrow> (\<exists>t. wt_expr F G e t)"
| "wt_stmt F r G (Stmt sp (SReturn e)) \<longleftrightarrow> (\<exists>t u. r = Some t \<and> wt_expr F G e u \<and> type_eq t u)"
| "wt_stmt F r G (Stmt sp (SBlock ss)) \<longleftrightarrow> wt_stmts F r G ss"
| "wt_stmt F r G (Stmt sp (SFor init cond post body)) \<longleftrightarrow>
     wt_stmts F r G init \<and> (\<exists>t. wt_expr F (fold after init G) cond t \<and> is_bool_like t)
     \<and> wt_stmts F r (fold after init G) post \<and> wt_stmts F r (fold after post (fold after init G)) body"
| "wt_stmt F r G (Stmt sp (SMatch target e alts)) \<longleftrightarrow>
     (\<exists>t. wt_expr F G e t \<and> type_eq target t) \<and> wt_alts F r G target alts"
| "wt_stmt F r G (Stmt sp (SAssembly _)) \<longleftrightarrow> False"
| "wt_stmt F r G (Stmt sp _) \<longleftrightarrow> True"
| "wt_alts F r G target [] \<longleftrightarrow> True"
| "wt_alts F r G target (Alt sp p b body # alts) \<longleftrightarrow>
     (\<exists>t. payload_type target p = Some t \<and> wt_stmts F r (G(b \<mapsto> t)) body) \<and> wt_alts F r G target alts"

fun asm_free :: "stmt \<Rightarrow> bool" and asm_free_alt :: "alt \<Rightarrow> bool" where
  "asm_free (Stmt sp (SBlock ss)) \<longleftrightarrow> list_all asm_free ss"
| "asm_free (Stmt sp (SFor init cond post body)) \<longleftrightarrow>
     list_all asm_free init \<and> list_all asm_free post \<and> list_all asm_free body"
| "asm_free (Stmt sp (SMatch target e alts)) \<longleftrightarrow> list_all asm_free_alt alts"
| "asm_free (Stmt sp (SAssembly _)) \<longleftrightarrow> False"
| "asm_free (Stmt sp _) \<longleftrightarrow> True"
| "asm_free_alt (Alt sp p b body) \<longleftrightarrow> list_all asm_free body"

section \<open>What the checker sees after a statement\<close>

lemma check_alts_emits:
  assumes "env_ok env"
  shows "emits env (check_alts target alts env)"
  using assms
proof (induction alts arbitrary: env)
  case Nil
  then show ?case by (simp add: emits_refl)
next
  case (Cons a alts)
  obtain sp p b body where a: "a = Alt sp p b body" by (cases a)
  obtain payload env1 where r: "(case payload_type target p of
      Some payload \<Rightarrow> (payload, env)
    | None \<Rightarrow> (ty_unit sp, push_diag sp (BadMatchPattern (pat_display p) (ty_display target)) env))
    = (payload, env1)" (is "?r = _") by (cases ?r)
  have e1: "emits env env1" using r by (auto simp: frame_intros split: option.splits)
  then have ok: "env_ok env1" using Cons.prems by (simp add: emits_ok)
  let ?e2 = "check_body body (insert_var b payload (enter_scope env1))"
  have "scoped (enter_scope env1) ?e2"
    using ok check_stmt_scoped(1) scoped_insert_var scoped_ok scoped_trans enter_scope_ok by meson
  then have e2: "emits env1 (leave_scope ?e2)" by (rule leave_scope_emits[OF ok])
  then have "env_ok (leave_scope ?e2)" using ok by (simp add: emits_ok)
  from Cons.IH[OF this] e1 e2 show ?case
    using r by (auto simp: a intro: emits_trans)
qed

lemma lookup_after:
  assumes "env_ok env"
  shows "lookup_var (check_stmt s env) = after s (lookup_var env)"
proof (cases s)
  case (Stmt sp k)
  have expr: "emits env (snd (check_expr e env))" for e by (rule frame_intros)
  have block: "emits env (leave_scope (check_body ss (enter_scope env)))" for ss
    by (rule leave_scope_emits[OF assms]) (simp add: assms frame_intros)
  have "emits env (check_stmt (Stmt sp k) env)" if "\<And>x t. k \<noteq> SLet x t"
  proof (cases k)
    case (SAssign lhs rhs)
    with emits_trans[OF expr[of lhs] check_expr_emits(1)] show ?thesis
      by (auto simp: case_prod_beta Let_def intro!: emits_steps)
  next
    case (SFor init cond post body)
    let ?e1 = "check_body init (enter_scope env)"
    let ?r = "check_expr cond ?e1"
    let ?e2 = "if is_bool_like (fst ?r) then snd ?r
       else push_diag (expr_span cond) (ExpectedBool (ty_display (fst ?r))) (snd ?r)"
    have ok: "env_ok (enter_scope env)" using assms by simp
    have s1: "scoped (enter_scope env) ?e1" by (rule check_stmt_scoped(1)[OF ok])
    have e2: "emits ?e1 ?e2" using check_expr_emits(1)[of ?e1 cond] by (auto intro: emits_steps)
    have s2: "scoped (enter_scope env) ?e2" by (rule scoped_emits[OF ok s1 e2])
    have ok2: "env_ok ?e2" using s2 ok scoped_ok by blast
    have s3: "scoped ?e2 (check_body body (check_body post ?e2))"
      using ok2 check_stmt_scoped(1) scoped_ok scoped_trans by meson
    have "scoped (enter_scope env) (check_body body (check_body post ?e2))" by (rule scoped_trans[OF s2 s3])
    from leave_scope_emits[OF assms this] SFor show ?thesis by (simp add: case_prod_beta Let_def)
  next
    case (SMatch target e alts)
    let ?e = "expect_type (expr_span e) target (fst (check_expr e env)) (snd (check_expr e env))"
    have "emits env ?e" by (intro emits_steps expr)
    with SMatch assms check_alts_emits[of ?e] show ?thesis
      by (auto simp: case_prod_beta Let_def emits_ok intro: emits_trans)
  next
    case (SAssembly ss)
    have "scoped (enter_scope env) (check_asm_block ss (enter_scope env))"
      using assms by (intro frame_intros enter_scope_ok)
    then have "emits env (leave_scope (check_asm_block ss (enter_scope env)))" by (rule leave_scope_emits[OF assms])
    with SAssembly show ?thesis by (auto intro: frame_intros split: option.split)
  qed (use that expr block in \<open>auto simp: case_prod_beta Let_def emits_refl intro!: emits_steps split: option.split\<close>)
  then have "lookup_var (check_stmt s env) = lookup_var env" if "\<And>x t. k \<noteq> SLet x t"
    using that Stmt by (simp add: emits_fields)
  moreover have "lookup_var (insert_var x t env) = (lookup_var env)(x \<mapsto> t)" for x t
    by (rule check_vars.look_declare[OF assms])
  ultimately show ?thesis using Stmt by (cases k) auto
qed

lemma check_stmt_fields:
  assumes "env_ok env"
  shows "env_ok (check_stmt s env)" "env_funs (check_stmt s env) = env_funs env"
    "env_ret (check_stmt s env) = env_ret env"
  using check_stmt_scoped(2)[OF assms, of s] assms by (auto simp: scoped_fields dest: scoped_ok)

lemma check_body_fields:
  assumes "env_ok env"
  shows "env_ok (check_body ss env)" "env_funs (check_body ss env) = env_funs env"
    "env_ret (check_body ss env) = env_ret env"
  using check_stmt_scoped(1)[OF assms, of ss] assms by (auto simp: scoped_fields dest: scoped_ok)

lemma lookup_after_all: "env_ok env \<Longrightarrow> lookup_var (check_body ss env) = fold after ss (lookup_var env)"
  by (induction ss arbitrary: env) (simp_all add: lookup_after check_stmt_fields)

section \<open>Statements that report nothing\<close>

definition quiet :: "env \<Rightarrow> env \<Rightarrow> bool" where
  "quiet a b \<longleftrightarrow> diagnostics b = diagnostics a"

lemma quiet_two:
  assumes "\<exists>ds. diagnostics b = diagnostics a @ ds" and "\<exists>ds. diagnostics c = diagnostics b @ ds"
  shows "quiet a c \<longleftrightarrow> quiet a b \<and> quiet b c"
  using assms by (auto simp: quiet_def)

lemma quiet_emits: "emits a b \<Longrightarrow> emits b c \<Longrightarrow> quiet a c \<longleftrightarrow> quiet a b \<and> quiet b c"
  using quiet_two emits_prefix by blast

lemma quiet_expr:
  "quiet env (snd (check_expr e env)) \<longleftrightarrow> wt_expr (env_funs env) (lookup_var env) e (fst (check_expr e env))"
  using emits_clean[OF check_expr_emits(1)[of env e]] check_expr_clean_iff[of e env "fst (check_expr e env)"]
  by (auto simp: quiet_def prod_eq_iff)

lemma quiet_expr_ex:
  "quiet env (snd (check_expr e env)) \<and> P (fst (check_expr e env))
     \<longleftrightarrow> (\<exists>t. wt_expr (env_funs env) (lookup_var env) e t \<and> P t)"
proof
  assume "\<exists>t. wt_expr (env_funs env) (lookup_var env) e t \<and> P t"
  then obtain t where "check_expr e env = (t, env)" "P t" by (auto simp: check_expr_clean_iff)
  then show "quiet env (snd (check_expr e env)) \<and> P (fst (check_expr e env))" by (simp add: quiet_def)
qed (auto simp: quiet_expr)

lemma quiet_expr_any:
  "quiet env (snd (check_expr e env)) \<longleftrightarrow> (\<exists>t. wt_expr (env_funs env) (lookup_var env) e t)"
  using quiet_expr_ex[of env e "\<lambda>t. True"] by simp

lemma quiet_expect: "quiet a (expect_type sp t u a) \<longleftrightarrow> type_eq t u"
  by (simp add: quiet_def expect_type_def push_diag_def)

lemma quiet_refl: "quiet a a"
  by (simp add: quiet_def)

lemma quiet_push: "\<not> quiet a (push_diag sp k a)"
  by (simp add: quiet_def push_diag_def)

lemma scope_fields [simp]:
  "diagnostics (enter_scope env) = diagnostics env" "diagnostics (leave_scope env) = diagnostics env"
  "diagnostics (insert_var x t env) = diagnostics env"
  "env_funs (enter_scope env) = env_funs env" "env_ret (enter_scope env) = env_ret env"
  "env_funs (insert_var x t env) = env_funs env" "env_ret (insert_var x t env) = env_ret env"
  by (simp_all add: enter_scope_def leave_scope_def insert_var_def split: option.split prod.split)

lemma quiet_scope [simp]:
  "quiet a (leave_scope b) = quiet a b" "quiet (enter_scope a) b = quiet a b"
  "quiet (insert_var x t a) b = quiet a b" "quiet a (insert_var x t b) = quiet a b"
  by (simp_all add: quiet_def)

lemma quiet_wt:
  "env_ok env \<Longrightarrow> list_all asm_free ss \<Longrightarrow>
     quiet env (check_body ss env) \<longleftrightarrow> wt_stmts (env_funs env) (env_ret env) (lookup_var env) ss"
  "env_ok env \<Longrightarrow> asm_free s \<Longrightarrow>
     quiet env (check_stmt s env) \<longleftrightarrow> wt_stmt (env_funs env) (env_ret env) (lookup_var env) s"
  "env_ok env \<Longrightarrow> list_all asm_free_alt alts \<Longrightarrow>
     quiet env (check_alts target alts env) \<longleftrightarrow> wt_alts (env_funs env) (env_ret env) (lookup_var env) target alts"
proof (induction ss env and s env and target alts env rule: check_body_check_stmt_check_alts.induct)
  case (2 s ss env)
  have "quiet env (check_body (s # ss) env) \<longleftrightarrow>
      quiet env (check_stmt s env) \<and> quiet (check_stmt s env) (check_body ss (check_stmt s env))"
    using quiet_two[OF scoped_prefix[OF check_stmt_scoped(2)[OF 2(3)]]
      scoped_prefix[OF check_stmt_scoped(1)[OF check_stmt_fields(1)[OF 2(3)]]]] by simp
  with 2 show ?case by (simp add: check_stmt_fields lookup_after)
next
  case (4 sp lhs rhs env)
  let ?l = "check_expr lhs env" and ?r = "check_expr rhs (snd (check_expr lhs env))"
  have e: "emits env (snd ?l)" "emits (snd ?l) (snd ?r)"
    "emits (snd ?r) (expect_type (expr_span lhs) (fst ?l) (fst ?r) (snd ?r))" by (intro frame_intros)+
  have "quiet env (expect_type (expr_span lhs) (fst ?l) (fst ?r) (snd ?r)) \<longleftrightarrow>
      quiet env (snd ?l) \<and> quiet (snd ?l) (snd ?r) \<and> type_eq (fst ?l) (fst ?r)"
    using quiet_emits[OF emits_trans[OF e(1,2)] e(3)] quiet_emits[OF e(1,2)] by (auto simp: quiet_expect)
  also have "\<dots> \<longleftrightarrow> (\<exists>t. wt_expr (env_funs env) (lookup_var env) lhs t \<and> quiet (snd ?l) (snd ?r) \<and> type_eq t (fst ?r))"
    by (rule quiet_expr_ex)
  also have "\<dots> \<longleftrightarrow> (\<exists>t u. wt_expr (env_funs env) (lookup_var env) lhs t
      \<and> wt_expr (env_funs env) (lookup_var env) rhs u \<and> type_eq t u)"
    using quiet_expr_ex[of "snd ?l" rhs "type_eq _"] by (simp add: emits_fields[OF e(1)])
  finally show ?case by (simp add: case_prod_beta Let_def)
next
  case (5 sp e env)
  show ?case by (simp add: quiet_expr_any)
next
  case (6 sp e env)
  let ?e = "check_expr e env"
  have e: "emits env (snd ?e)" by (rule frame_intros)
  show ?case
  proof (cases "env_ret env")
    case None
    have "\<not> quiet env (push_diag (expr_span e) ReturnOutsideFunction (snd ?e))"
      using quiet_emits[OF e emits_push_diag] quiet_push by blast
    with None e show ?thesis by (simp add: case_prod_beta Let_def emits_fields)
  next
    case (Some t)
    have "quiet env (expect_type (expr_span e) t (fst ?e) (snd ?e)) \<longleftrightarrow>
        quiet env (snd ?e) \<and> type_eq t (fst ?e)"
      using quiet_emits[OF e emits_expect_type] by (simp add: quiet_expect)
    with Some e show ?thesis
      by (simp add: case_prod_beta Let_def emits_fields quiet_expr_ex)
  qed
next
  case (7 sp stmts env)
  then show ?case by (simp add: check_vars.look_enter)
next
  case (8 sp init cond post body env)
  have ok: "env_ok (enter_scope env)" using 8 by simp
  let ?e1 = "check_body init (enter_scope env)"
  let ?r = "check_expr cond ?e1"
  let ?e2 = "if is_bool_like (fst ?r) then snd ?r
     else push_diag (expr_span cond) (ExpectedBool (ty_display (fst ?r))) (snd ?r)"
  let ?e3 = "check_body post ?e2" and ?e4 = "check_body body (check_body post ?e2)"
  have e: "emits ?e1 (snd ?r)" "emits (snd ?r) ?e2" by (auto intro: frame_intros)
  have ok1: "env_ok ?e1" and ok2: "env_ok ?e2" and ok3: "env_ok ?e3"
    using ok e check_body_fields(1) by (auto simp: emits_ok)
  note e2 = emits_fields[OF emits_trans[OF e]]
  note s = scoped_prefix[OF check_stmt_scoped(1)]
  have q: "quiet (enter_scope env) ?e4 \<longleftrightarrow>
      quiet (enter_scope env) ?e1 \<and> quiet ?e1 ?e2 \<and> quiet ?e2 ?e3 \<and> quiet ?e3 ?e4"
    using quiet_two[OF s[OF ok] emits_prefix[OF emits_trans[OF e]]] quiet_two[OF s[OF ok2] s[OF ok3]]
      quiet_two[OF scoped_prefix[OF scoped_emits[OF ok check_stmt_scoped(1)[OF ok] emits_trans[OF e]]]
        scoped_prefix[OF scoped_trans[OF check_stmt_scoped(1)[OF ok2] check_stmt_scoped(1)[OF ok3]]]]
    by blast
  have "quiet ?e1 ?e2 \<longleftrightarrow> quiet ?e1 (snd ?r) \<and> is_bool_like (fst ?r)"
    using quiet_emits[OF e] by (simp add: quiet_refl quiet_push)
  then have c: "quiet ?e1 ?e2 \<longleftrightarrow>
      (\<exists>t. wt_expr (env_funs env) (fold after init (lookup_var env)) cond t \<and> is_bool_like t)"
    using ok 8(4) by (simp add: quiet_expr_ex check_body_fields lookup_after_all check_vars.look_enter)
  show ?case
    using q c 8(1)[OF ok] 8(2)[OF refl refl prod.collapse refl ok2] 8(3)[OF refl refl prod.collapse refl refl ok3] 8(4,5) ok ok2
    by (simp add: case_prod_beta Let_def check_body_fields lookup_after_all check_vars.look_enter e2)
next
  case (11 sp target scrutinee alts env)
  let ?r = "check_expr scrutinee env"
  let ?e = "expect_type (expr_span scrutinee) target (fst ?r) (snd ?r)"
  have e: "emits env (snd ?r)" "emits (snd ?r) ?e" by (intro frame_intros)+
  note ee = emits_trans[OF e]
  have ok: "env_ok ?e" using ee 11(2) by (simp add: emits_ok)
  have "quiet env (check_alts target alts ?e) \<longleftrightarrow> quiet env ?e \<and> quiet ?e (check_alts target alts ?e)"
    by (rule quiet_emits[OF ee check_alts_emits[OF ok]])
  moreover have "quiet env ?e \<longleftrightarrow> quiet env (snd ?r) \<and> type_eq target (fst ?r)"
    using quiet_emits[OF e] by (simp add: quiet_expect)
  ultimately show ?case
    using 11(1)[OF refl prod.collapse refl ok] 11(3)
    by (simp add: case_prod_beta Let_def emits_fields[OF ee] quiet_expr_ex)
next
  case (16 target sp p bndr body alts env)
  show ?case
  proof (cases "payload_type target p")
    case None
    let ?e1 = "push_diag sp (BadMatchPattern (pat_display p) (ty_display target)) env"
    let ?e2 = "leave_scope (check_body body (insert_var bndr (ty_unit sp) (enter_scope ?e1)))"
    have ok: "env_ok ?e1" using 16(3) by (simp add: emits_ok[OF emits_push_diag])
    then have ok': "env_ok (insert_var bndr (ty_unit sp) (enter_scope ?e1))"
      by (intro check_vars.ok_declare enter_scope_ok)
    have "scoped (enter_scope ?e1) (check_body body (insert_var bndr (ty_unit sp) (enter_scope ?e1)))"
      using scoped_trans[OF scoped_insert_var[OF enter_scope_ok[OF ok]] check_stmt_scoped(1)[OF ok']] .
    from leave_scope_emits[OF ok this] have e2: "emits ?e1 ?e2" .
    then have ok2: "env_ok ?e2" using ok by (simp add: emits_ok)
    have "\<not> quiet env (check_alts target alts ?e2)"
      using quiet_emits[OF emits_push_diag emits_trans[OF e2 check_alts_emits[OF ok2]]] quiet_push by blast
    with None show ?thesis by simp
  next
    case (Some t)
    let ?e1 = "insert_var bndr t (enter_scope env)"
    let ?e2 = "leave_scope (check_body body ?e1)"
    have r: "(t, env) = (case payload_type target p of
        Some payload \<Rightarrow> (payload, env)
      | None \<Rightarrow> (ty_unit sp, push_diag sp (BadMatchPattern (pat_display p) (ty_display target)) env))"
      using Some by simp
    have ok1: "env_ok ?e1" using 16(3) by (intro check_vars.ok_declare enter_scope_ok)
    have "scoped (enter_scope env) (check_body body ?e1)"
      using scoped_trans[OF scoped_insert_var[OF enter_scope_ok[OF 16(3)]] check_stmt_scoped(1)[OF ok1]] .
    from leave_scope_emits[OF 16(3) this] have e2: "emits env ?e2" .
    then have ok2: "env_ok ?e2" using 16(3) by (simp add: emits_ok)
    have look: "lookup_var ?e1 = (lookup_var env)(bndr \<mapsto> t)"
      using 16(3) by (simp add: check_vars.look_declare check_vars.look_enter)
    have "quiet env (check_alts target alts ?e2) \<longleftrightarrow> quiet env ?e2 \<and> quiet ?e2 (check_alts target alts ?e2)"
      by (rule quiet_emits[OF e2 check_alts_emits[OF ok2]])
    with 16(1)[OF r refl ok1] 16(2)[OF r refl refl ok2] 16(4) Some show ?thesis
      by (simp add: look emits_fields[OF e2] fun_upd_def)
  qed
qed (simp_all add: quiet_def)

section \<open>Functions\<close>

definition wt_function :: "(name \<rightharpoonup> fun_sig) \<Rightarrow> hir_db option \<Rightarrow> (name \<Rightarrow> ty option) \<Rightarrow> hull_function \<Rightarrow> bool" where
  "wt_function F db G f \<longleftrightarrow>
     list_all (\<lambda>a. \<not> contains_function (arg_ty a)) (fn_args f) \<and> \<not> contains_function (fn_ret f)
     \<and> wt_stmts F (Some (fn_ret f)) (fold (\<lambda>a G. G(arg_name a \<mapsto> arg_ty a)) (fn_args f) G) (fn_body f)
     \<and> (requires_terminator (fn_ret f) \<longrightarrow> body_terminates db (fn_body f))"

lemma quiet_first_order:
  "quiet env (check_first_order f env) \<longleftrightarrow>
     list_all (\<lambda>a. \<not> contains_function (arg_ty a)) (fn_args f) \<and> \<not> contains_function (fn_ret f)"
proof -
  let ?step = "\<lambda>a env. if contains_function (arg_ty a)
    then push_diag (arg_span a) (FunctionTypeNotFirstOrder (fn_name f)) env else env"
  have e: "emits env (?step a env)" for a env by (simp add: emits_push_diag emits_refl)
  have "emits env (fold ?step as env)
      \<and> (quiet env (fold ?step as env) \<longleftrightarrow> list_all (\<lambda>a. \<not> contains_function (arg_ty a)) as)" for as env
  proof (induction as arbitrary: env)
    case Nil
    then show ?case by (simp add: emits_refl quiet_refl)
  next
    case (Cons a as)
    have "quiet env (fold ?step as (?step a env)) \<longleftrightarrow>
        quiet env (?step a env) \<and> quiet (?step a env) (fold ?step as (?step a env))"
      using e Cons by (intro quiet_emits) blast+
    moreover have "quiet env (?step a env) \<longleftrightarrow> \<not> contains_function (arg_ty a)"
      by (simp add: quiet_refl quiet_push)
    ultimately show ?case
      using emits_trans[OF e[of env a]] Cons[of "?step a env"] by (simp del: if_split)
  qed
  from this[of env "fn_args f"] show ?thesis
    using quiet_emits[OF _ emits_push_diag] quiet_push by (simp add: check_first_order_def Let_def)
qed

lemma params_look:
  "env_ok env \<Longrightarrow> env_ok (fold (\<lambda>a. insert_var (arg_name a) (arg_ty a)) as env)
     \<and> lookup_var (fold (\<lambda>a. insert_var (arg_name a) (arg_ty a)) as env)
       = fold (\<lambda>a G. G(arg_name a \<mapsto> arg_ty a)) as (lookup_var env)
     \<and> env_funs (fold (\<lambda>a. insert_var (arg_name a) (arg_ty a)) as env) = env_funs env
     \<and> env_db (fold (\<lambda>a. insert_var (arg_name a) (arg_ty a)) as env) = env_db env
     \<and> diagnostics (fold (\<lambda>a. insert_var (arg_name a) (arg_ty a)) as env) = diagnostics env"
proof (induction as arbitrary: env)
  case (Cons a as)
  have "env_ok (insert_var (arg_name a) (arg_ty a) env)" using Cons.prems by (rule check_vars.ok_declare)
  from Cons.IH[OF this] Cons.prems show ?case
    by (simp add: check_vars.look_declare) (simp add: insert_var_def split: option.split)
qed simp

lemma quiet_function:
  assumes ok: "env_ok env" and asm: "list_all asm_free (fn_body f)"
  shows "quiet env (check_function f env) \<longleftrightarrow> wt_function (env_funs env) (env_db env) (lookup_var env) f"
proof -
  let ?e0 = "check_first_order f env"
  let ?e1 = "(fold (\<lambda>a. insert_var (arg_name a) (arg_ty a)) (fn_args f) (enter_scope ?e0))\<lparr>env_ret := Some (fn_ret f)\<rparr>"
  let ?e2 = "check_body (fn_body f) ?e1"
  let ?e3 = "if requires_terminator (fn_ret f) \<and> \<not> body_terminates (env_db ?e2) (fn_body f)
      then push_diag (fn_span f) (MissingTerminator (fn_name f)) ?e2 else ?e2"
  note e0 = check_first_order_emits[of env f]
  have ok0: "env_ok (enter_scope ?e0)" using ok e0 by (simp add: emits_ok)
  note p = params_look[OF ok0, of "fn_args f"]
  have ok1: "env_ok ?e1" using p by (simp add: env_ok_def)
  have "lookup_var ?e1 = lookup_var (fold (\<lambda>a. insert_var (arg_name a) (arg_ty a)) (fn_args f) (enter_scope ?e0))"
    by (simp add: lookup_var_def fun_eq_iff)
  also have "\<dots> = fold (\<lambda>a G. G(arg_name a \<mapsto> arg_ty a)) (fn_args f) (lookup_var (enter_scope ?e0))" using p by blast
  also have "lookup_var (enter_scope ?e0) = lookup_var env"
    using e0 ok by (simp add: check_vars.look_enter emits_ok emits_fields(6))
  finally have look: "lookup_var ?e1 = fold (\<lambda>a G. G(arg_name a \<mapsto> arg_ty a)) (fn_args f) (lookup_var env)" .
  have "env_funs ?e1 = env_funs ?e0" using p by simp
  then have funs: "env_funs ?e1 = env_funs env" using emits_fields(3)[OF e0] by (rule trans)
  have "env_db ?e2 = env_db ?e1" by (rule scoped_fields(1)[OF check_stmt_scoped(1)[OF ok1]])
  also have "\<dots> = env_db (enter_scope ?e0)" using p by simp
  also have "\<dots> = env_db env" by (simp add: enter_scope_def emits_fields(1)[OF e0])
  finally have db: "env_db ?e2 = env_db env" .
  have d1: "diagnostics ?e1 = diagnostics ?e0" using p by simp
  have "quiet env (check_function f env) \<longleftrightarrow> quiet env ?e3"
    by (simp add: check_function_def Let_def quiet_def leave_scope_def split: option.split prod.split)
  also have "\<dots> \<longleftrightarrow> quiet env ?e0 \<and> quiet ?e1 ?e2 \<and> quiet ?e2 ?e3"
  proof -
    obtain ds1 where 1: "diagnostics ?e0 = diagnostics env @ ds1" using emits_prefix[OF e0] by blast
    obtain ds2 where 2: "diagnostics ?e2 = diagnostics ?e1 @ ds2"
      using scoped_prefix[OF check_stmt_scoped(1)[OF ok1]] by blast
    have "emits ?e2 ?e3" by (simp add: emits_push_diag emits_refl)
    then obtain ds3 where 3: "diagnostics ?e3 = diagnostics ?e2 @ ds3" using emits_prefix by blast
    show ?thesis using 1 2 3 d1 by (simp add: quiet_def)
  qed
  also have "quiet ?e2 ?e3 \<longleftrightarrow> (requires_terminator (fn_ret f) \<longrightarrow> body_terminates (env_db env) (fn_body f))"
    by (simp add: db quiet_refl quiet_push)
  also have "quiet ?e1 ?e2 \<longleftrightarrow> wt_stmts (env_funs ?e1) (env_ret ?e1) (lookup_var ?e1) (fn_body f)"
    by (rule quiet_wt(1)[OF ok1 asm])
  finally show ?thesis
    unfolding look funs by (simp add: wt_function_def quiet_first_order)
qed

section \<open>Properties\<close>

text \<open>C15. The checker is sound and complete for functions: a function without inline assembly is
  checked without a diagnostic exactly when its signature is first-order, its body is
  well typed over the parameters, and it ends in a terminator where its result type requires one.\<close>

theorem check_function_iff_well_typed:
  assumes "env_ok env" and "list_all asm_free (fn_body f)"
  shows "diagnostics (check_function f env) = diagnostics env
    \<longleftrightarrow> wt_function (env_funs env) (env_db env) (lookup_var env) f"
  using quiet_function[OF assms] by (simp add: quiet_def)

theorem check_function_iff_well_typed_witness:
  "diagnostics (check_function
     \<lparr>fn_span = sp0, fn_name = ''f'', fn_args = [], fn_ret = ty_word sp0,
      fn_body = [Stmt sp0 (SReturn (Expr sp0 (ty_word sp0) (EVar ''x'')))]\<rparr> env0) = diagnostics env0"
proof -
  let ?f = "\<lparr>fn_span = sp0, fn_name = ''f'', fn_args = [], fn_ret = ty_word sp0,
    fn_body = [Stmt sp0 (SReturn (Expr sp0 (ty_word sp0) (EVar ''x'')))]\<rparr>"
  have "wt_expr F [''x'' \<mapsto> ty_word sp0] (Expr sp0 (ty_word sp0) (EVar ''x'')) (ty_word sp0)" for F
    by (intro wt_intros) (simp_all add: word_eq)
  then have "wt_function (env_funs env0) (env_db env0) (lookup_var env0) ?f"
    unfolding env0_fields(2)
    by (simp add: wt_function_def del: wt_args_simps) (blast intro: word_eq)
  moreover have "env_ok env0"
    by (simp add: env_ok_def env0_def initial_env_def insert_var_def scopes_insert_def)
  ultimately show ?thesis using check_function_iff_well_typed[of env0 ?f] by simp
qed

end
