(* ===== verification/Lower_Ctx.thy ===== *)
theory Lower_Ctx
  imports Lower_Refines Hull_Exec Hull_Typing_Stmts
begin

text \<open>
  The framework for statements. A context lists the local variables, visible or shadowed, with
  their types and locations, the innermost first. It relates the environment of the Hull
  semantics to a Yul store; \<open>executes\<close> says that generated statements do what Hull statements do,
  from one context to another.
\<close>

lemma stack_name_inject: "inj stack_name"
  by (simp add: inj_on_def stack_name_inj)

section \<open>Variables that reach a location\<close>

text \<open>The variables whose locations may be part of the location of an expression. The result of a
  call and of a conditional is in slots of its own.\<close>

fun flow_vars :: "name set \<Rightarrow> expr \<Rightarrow> name set" where
  "flow_vars users (Expr sp t (EVar x)) = {x}"
| "flow_vars users (Expr sp t (EPair l r)) = flow_vars users l \<union> flow_vars users r"
| "flow_vars users (Expr sp t (EFst e)) = flow_vars users e"
| "flow_vars users (Expr sp t (ESnd e)) = flow_vars users e"
| "flow_vars users (Expr sp t (EInl target e)) = flow_vars users e"
| "flow_vars users (Expr sp t (EInr target e)) = flow_vars users e"
| "flow_vars users (Expr sp t (EInK k target e)) = flow_vars users e"
| "flow_vars users (Expr sp t (ECall f es)) =
     (if lower_callee f users = Identity_callee then \<Union> (set (map (flow_vars users) es)) else {})"
| "flow_vars users (Expr sp t _) = {}"

definition flow_locs :: "translator \<Rightarrow> name set \<Rightarrow> name set" where
  "flow_locs tr X = {y. \<exists>x\<in>X. \<exists>loc. lookup_var_opt tr x = Some loc \<and> y \<in> loc_vars loc}"

lemma flow_locs_counter [simp]: "flow_locs (tr\<lparr>counter := c\<rparr>) X = flow_locs tr X"
  by (simp add: flow_locs_def lookup_var_opt_def)

lemma flow_locs_Un: "flow_locs tr (X \<union> Y) = flow_locs tr X \<union> flow_locs tr Y"
  by (auto simp: flow_locs_def)

definition flows_to :: "translator \<Rightarrow> name set \<Rightarrow> location \<Rightarrow> bool" where
  "flows_to tr X loc \<longleftrightarrow> loc_vars loc \<subseteq> flow_locs tr X \<union> stack_name ` {counter tr..}"

lemma flows_to_mono: "flows_to tr X loc \<Longrightarrow> X \<subseteq> Y \<Longrightarrow> flows_to tr Y loc"
  by (fastforce simp: flows_to_def flow_locs_def)

lemma flows_to_counter: "flows_to (tr\<lparr>counter := c\<rparr>) X loc \<Longrightarrow> counter tr \<le> c \<Longrightarrow> flows_to tr X loc"
  by (fastforce simp: flows_to_def)

lemma flows_to_part: "flows_to tr X loc \<Longrightarrow> loc_vars loc' \<subseteq> loc_vars loc \<Longrightarrow> flows_to tr X loc'"
  by (auto simp: flows_to_def)

definition moved :: "translator \<Rightarrow> translator \<Rightarrow> bool" where
  "moved tr tr' \<longleftrightarrow> (\<exists>c\<ge>counter tr. tr' = tr\<lparr>counter := c\<rparr>)"

lemma moved_refl: "moved tr tr"
  by (auto simp: moved_def intro: exI[of _ "counter tr"])

lemma movedI: "counter tr \<le> c \<Longrightarrow> moved tr (tr\<lparr>counter := c\<rparr>)"
  by (auto simp: moved_def)

lemma moved_trans: "moved a b \<Longrightarrow> moved b c \<Longrightarrow> moved a c"
  by (auto simp: moved_def[of a b] moved_def[of b c] intro!: movedI)

lemma moved_users: "moved tr tr' \<Longrightarrow> user_functions tr' = user_functions tr"
  by (auto simp: moved_def)

lemma flows_to_moved: "moved tr tr' \<Longrightarrow> flows_to tr' X loc \<Longrightarrow> flows_to tr X loc"
  by (auto simp: moved_def dest: flows_to_counter)

lemma hull_alloc_flows:
  assumes "hull_alloc t tr = Inr (out, loc, tr')"
  shows "moved tr tr' \<and> flows_to tr X loc"
proof -
  obtain loc' where "hull_alloc t tr = Inr (slot_lets [counter tr..<counter tr + shape_slots (erase t)], loc',
      tr\<lparr>counter := counter tr + shape_slots (erase t)\<rparr>)" "stack_only loc'"
    "stack_slots loc' = [counter tr..<counter tr + shape_slots (erase t)]"
    using hull_alloc_slots[OF refl] by blast
  with assms show ?thesis by (auto simp: flows_to_def stack_only_vars intro!: movedI)
qed

lemma pair_locs_vars: "pair_locs loc = Inr (l, r) \<Longrightarrow> loc_vars l \<subseteq> loc_vars loc \<and> loc_vars r \<subseteq> loc_vars loc"
  by (cases loc rule: pair_locs.cases) auto

lemma gen_flows:
  "gen_expr e tr = Inr (out, loc, tr') \<Longrightarrow>
     moved tr tr' \<and> flows_to tr (flow_vars (user_functions tr) e) loc"
  "gen_args es tr = Inr (out, ys, locs, tr') \<Longrightarrow>
     moved tr tr' \<and> list_all (flows_to tr (\<Union> (set (map (flow_vars (user_functions tr)) es)))) locs"
proof (induction e tr and es tr arbitrary: out loc tr' and out ys locs tr' rule: gen_expr_gen_args.induct)
  case (4 sp t n tr)
  then show ?case
    by (auto simp: res_elims tr_lookup_var_def moved_refl flows_to_def flow_locs_def split: option.splits)
next
  case (5 sp t lhs rhs tr)
  then obtain o1 l1 tr1 o2 l2 where g: "gen_expr lhs tr = Inr (o1, l1, tr1)" "gen_expr rhs tr1 = Inr (o2, l2, tr')"
    "loc = LSeq [l1, l2]" by (auto simp: res_elims)
  have 1: "moved tr tr1" "flows_to tr (flow_vars (user_functions tr) lhs) l1" using 5(1)[OF g(1)] by simp_all
  have 2: "moved tr1 tr'" "flows_to tr (flow_vars (user_functions tr) rhs) l2"
    using 5(2)[OF g(1) refl refl g(2)] flows_to_moved[OF 1(1)] moved_users[OF 1(1)] by simp_all
  from moved_trans[OF 1(1) 2(1)] 1(2) 2(2) g(3) show ?case
    by (auto simp: flows_to_def flow_locs_Un)
next
  case (12 sp t target c e1 e2 tr)
  then obtain o0 tr0 oc lc tr1 o1 l1 tr2 o2 l2 where g: "hull_alloc target tr = Inr (o0, loc, tr0)"
    "gen_expr c tr0 = Inr (oc, lc, tr1)" "gen_expr e1 tr1 = Inr (o1, l1, tr2)" "gen_expr e2 tr2 = Inr (o2, l2, tr')"
    by (auto simp: res_elims)
  have 0: "moved tr tr0" "flows_to tr {} loc" using hull_alloc_flows[OF g(1)] by simp_all
  have 1: "moved tr0 tr1" using 12(1)[OF g(1) refl refl g(2)] by simp
  have 2: "moved tr1 tr2" using 12(2)[OF g(1) refl refl g(2) refl refl g(3)] by simp
  have 3: "moved tr2 tr'" using 12(3)[OF g(1) refl refl g(2) refl refl g(3) refl refl g(4)] by simp
  show ?case using moved_trans[OF 0(1) moved_trans[OF 1 moved_trans[OF 2 3]]] 0(2) by simp
next
  case (11 sp t f es tr)
  then obtain o1 ys ls tr1 where g: "gen_args es tr = Inr (o1, ys, ls, tr1)" by (auto simp: res_elims)
  have 1: "moved tr tr1" "list_all (flows_to tr (\<Union> (set (map (flow_vars (user_functions tr)) es)))) ls"
    using 11(1)[OF g] by simp_all
  have u: "user_functions tr1 = user_functions tr" by (rule moved_users[OF 1(1)])
  show ?case
  proof (cases "lower_callee f (user_functions tr)")
    case Identity_callee
    from 11(2) 1 show ?thesis by (simp add: g u Identity_callee split: list.splits)
  next
    case (Call_callee m)
    from 11(2) obtain o2 where a: "hull_alloc t tr1 = Inr (o2, loc, tr')"
      by (simp add: g u Call_callee) (auto simp: res_elims split: if_splits)
    from hull_alloc_flows[OF a, of "{}"] moved_trans[OF 1(1)] flows_to_moved[OF 1(1)] Call_callee show ?thesis
      by simp
  qed
next
  case (14 e es tr)
  then obtain o1 l1 tr1 o2 ys2 ls where g: "gen_expr e tr = Inr (o1, l1, tr1)"
    "gen_args es tr1 = Inr (o2, ys2, ls, tr')" "locs = l1 # ls" by (auto simp: res_elims)
  have 1: "moved tr tr1" "flows_to tr (flow_vars (user_functions tr) e) l1" using 14(1)[OF g(1)] by simp_all
  have 2: "moved tr1 tr'" "list_all (flows_to tr1 (\<Union> (set (map (flow_vars (user_functions tr)) es)))) ls"
    using 14(2)[OF g(1) refl refl g(2)] moved_users[OF 1(1)] by simp_all
  from moved_trans[OF 1(1) 2(1)] 1(2) 2(2) g(3) show ?case
    by (auto intro: flows_to_mono flows_to_moved[OF 1(1)] simp: list_all_iff)
next
  case (6 sp t e tr)
  then obtain l r where g: "gen_expr e tr = Inr (out, l, tr')" "pair_locs l = Inr (loc, r)"
    by (auto simp: res_elims)
  from 6(1)[OF g(1)] pair_locs_vars[OF g(2)] show ?case by (auto intro: flows_to_part)
next
  case (7 sp t e tr)
  then obtain l r where g: "gen_expr e tr = Inr (out, l, tr')" "pair_locs l = Inr (r, loc)"
    by (auto simp: res_elims)
  from 7(1)[OF g(1)] pair_locs_vars[OF g(2)] show ?case by (auto intro: flows_to_part)
next
  case (8 sp t target e tr)
  from 8(2) obtain l n where g: "gen_expr e tr = Inr (out, l, tr')" "loc = LSeq [LBool False, pad_to_size l n]"
    by (cases "ty_kind (strip_named target)") (auto simp: res_elims)
  from 8(1)[OF g(1)] g(2) show ?case by (auto intro: flows_to_part simp: pad_vars)
next
  case (9 sp t target e tr)
  from 9(2) obtain l n where g: "gen_expr e tr = Inr (out, l, tr')" "loc = LSeq [LBool True, pad_to_size l n]"
    by (cases "ty_kind (strip_named target)") (auto simp: res_elims)
  from 9(1)[OF g(1)] g(2) show ?case by (auto intro: flows_to_part simp: pad_vars)
next
  case (10 sp t k target e tr)
  then obtain l where g: "gen_expr e tr = Inr (out, l, tr')" "lower_in_k_loc target k l = Inr loc"
    by (auto simp: res_elims)
  from 10(1)[OF g(1)] lower_in_k_vars[OF g(2)] show ?case by (auto intro: flows_to_part)
qed (auto simp: res_elims moved_refl flows_to_def)

section \<open>Contexts\<close>

text \<open>A variable without a type is out of reach: its location need not hold its value.\<close>

type_synonym ctx = "(name \<times> ty option \<times> location) list"

fun entry_holds :: "store \<Rightarrow> name \<times> ty option \<times> location \<Rightarrow> name \<times> hval \<Rightarrow> bool" where
  "entry_holds \<sigma> (x, Some t, loc) (y, v) \<longleftrightarrow> x = y \<and> holds \<sigma> loc (erase t) v"
| "entry_holds \<sigma> (x, None, loc) (y, v) \<longleftrightarrow> x = y"

definition dyn :: "ctx \<Rightarrow> henv \<Rightarrow> store \<Rightarrow> bool" where
  "dyn \<Delta> \<rho> \<sigma> \<longleftrightarrow> list_all2 (entry_holds \<sigma>) \<Delta> \<rho>"

fun entry_vars :: "name \<times> ty option \<times> location \<Rightarrow> name set" where
  "entry_vars (x, Some t, loc) = loc_vars loc"
| "entry_vars (x, None, loc) = {}"

definition live_vars :: "ctx \<Rightarrow> name set" where
  "live_vars \<Delta> = \<Union> (set (map entry_vars \<Delta>))"

lemma live_vars_simps [simp]:
  "live_vars [] = {}" "live_vars (e # \<Delta>) = entry_vars e \<union> live_vars \<Delta>"
  "live_vars (\<Delta> @ \<Delta>') = live_vars \<Delta> \<union> live_vars \<Delta>'"
  by (simp_all add: live_vars_def)

lemma dyn_simps [simp]:
  "dyn [] \<rho> \<sigma> \<longleftrightarrow> \<rho> = []"
  "dyn (e # \<Delta>) ((y, v) # \<rho>) \<sigma> \<longleftrightarrow> entry_holds \<sigma> e (y, v) \<and> dyn \<Delta> \<rho> \<sigma>"
  by (simp_all add: dyn_def)

lemma dyn_length: "dyn \<Delta> \<rho> \<sigma> \<Longrightarrow> length \<rho> = length \<Delta>"
  by (auto simp: dyn_def dest: list_all2_lengthD)

lemma dyn_cong:
  assumes "\<And>y. y \<in> live_vars \<Delta> \<Longrightarrow> \<sigma>' y = \<sigma> y"
  shows "dyn \<Delta> \<rho> \<sigma>' = dyn \<Delta> \<rho> \<sigma>"
proof -
  have e: "entry_holds \<sigma>' e p = entry_holds \<sigma> e p" if "e \<in> set \<Delta>" for e p
  proof (cases "(\<sigma>, e, p)" rule: entry_holds.cases)
    case (1 \<tau> x t loc y v)
    with that assms have "\<sigma>' z = \<sigma> z" if "z \<in> loc_vars loc" for z
      using that by (force simp: live_vars_def)
    from holds_cong[OF this] 1 show ?thesis by simp
  qed simp
  show ?thesis unfolding dyn_def by (rule list.rel_cong) (simp_all add: e)
qed

lemma dyn_declared: "dyn \<Delta> \<rho> \<sigma> \<Longrightarrow> live_vars \<Delta> \<subseteq> dom \<sigma>"
proof (induction \<Delta> arbitrary: \<rho>)
  case (Cons e \<Delta>)
  then obtain y v \<rho>' where "\<rho> = (y, v) # \<rho>'" by (auto simp: dyn_def list_all2_Cons1)
  with Cons show ?case
    by (cases "(\<sigma>, e, y, v)" rule: entry_holds.cases) (auto simp: holds_def dest!: readable_vars)
qed simp

lemma dyn_restrict: "dyn \<Delta> \<rho> \<sigma> \<Longrightarrow> live_vars \<Delta> \<subseteq> D \<Longrightarrow> dyn \<Delta> \<rho> (\<sigma> |` D)"
  by (subst dyn_cong) (auto simp: restrict_map_def)

lemma dyn_append:
  "dyn (\<Delta>1 @ \<Delta>) \<rho> \<sigma> \<longleftrightarrow> (\<exists>\<rho>1 \<rho>2. \<rho> = \<rho>1 @ \<rho>2 \<and> dyn \<Delta>1 \<rho>1 \<sigma> \<and> dyn \<Delta> \<rho>2 \<sigma>)"
  unfolding dyn_def list_all2_append1 by (auto dest: list_all2_lengthD) (metis list_all2_lengthD)

lemma dyn_lookup:
  assumes "dyn \<Delta> \<rho> \<sigma>" and "map_of \<Delta> x = Some (Some t, loc)"
  shows "\<exists>v. map_of \<rho> x = Some v \<and> holds \<sigma> loc (erase t) v"
  using assms
proof (induction \<Delta> arbitrary: \<rho>)
  case (Cons e \<Delta>)
  then obtain y v \<rho>' where "\<rho> = (y, v) # \<rho>'" by (auto simp: dyn_def list_all2_Cons1)
  with Cons show ?case
    by (cases "(\<sigma>, e, y, v)" rule: entry_holds.cases) (auto split: if_splits)
qed simp

text \<open>What remains of an environment outside a block.\<close>

definition inner :: "ctx \<Rightarrow> henv \<Rightarrow> store \<Rightarrow> bool" where
  "inner \<Delta> \<rho> \<sigma> \<longleftrightarrow> length \<Delta> \<le> length \<rho> \<and> dyn \<Delta> (outer (length \<Delta>) \<rho>) \<sigma>"

lemma inner_dyn: "dyn (\<Delta>1 @ \<Delta>) \<rho> \<sigma> \<Longrightarrow> inner \<Delta> \<rho> \<sigma>"
  by (auto simp: dyn_append inner_def outer_def dyn_length)

lemma outer_outer: "k \<le> j \<Longrightarrow> j \<le> length \<rho> \<Longrightarrow> outer k (outer j \<rho>) = outer k \<rho>"
  by (simp add: outer_def)

lemma outer_length: "k \<le> length \<rho> \<Longrightarrow> length (outer k \<rho>) = k"
  by (simp add: outer_def)

lemma inner_outer: "inner (\<Delta>1 @ \<Delta>) \<rho> \<sigma> \<Longrightarrow> inner \<Delta> \<rho> \<sigma>"
  using inner_dyn[of \<Delta>1 \<Delta> "outer (length (\<Delta>1 @ \<Delta>)) \<rho>" \<sigma>]
  by (auto simp: inner_def outer_outer outer_length)

lemma inner_length: "inner \<Delta> \<rho> \<sigma> \<Longrightarrow> length (outer (length \<Delta>) \<rho>) = length \<Delta>"
  by (simp add: inner_def outer_length)

section \<open>Names that have been handed out\<close>

definition old :: "translator \<Rightarrow> name set" where
  "old tr = (fset (used_yul_names tr) - range stack_name) \<union> stack_name ` {..<counter tr}"

lemma old_advances: "advances tr tr' \<Longrightarrow> old tr \<subseteq> old tr'"
  by (auto simp: old_def advances_def)

lemma consumed_old: "consumed tr tr' y \<Longrightarrow> y \<notin> old tr"
  by (auto simp: consumed_def old_def stack_name_inj)

lemma old_counter: "counter tr \<le> c \<Longrightarrow> old tr \<subseteq> old (tr\<lparr>counter := c\<rparr>)"
  by (auto simp: old_def)

lemma consumed_counter: "consumed tr (tr\<lparr>counter := c\<rparr>) y \<longleftrightarrow> (\<exists>i. y = stack_name i \<and> counter tr \<le> i \<and> i < c)"
  by (auto simp: consumed_def)

lemma consumed_slot: "consumed tr (tr\<lparr>counter := c\<rparr>) (stack_name i) \<longleftrightarrow> counter tr \<le> i \<and> i < c"
  by (auto simp: consumed_counter stack_name_inj)

lemma advances_counter: "counter tr \<le> c \<Longrightarrow> advances tr (tr\<lparr>counter := c\<rparr>)"
  by (simp add: advances_def)

definition ready :: "bool \<Rightarrow> name set \<Rightarrow> translator \<Rightarrow> translator \<Rightarrow> store \<Rightarrow> bool" where
  "ready b N tr tr' \<sigma> \<longleftrightarrow> (\<forall>y. consumed tr tr' y \<longrightarrow> (y \<in> dom \<sigma> \<longleftrightarrow> b \<and> y \<in> N))"

lemma ready_first:
  assumes "ready b (N1 \<union> N2) tr tr2 \<sigma>" and "advances tr1 tr2" and "\<And>y. y \<in> N2 \<Longrightarrow> consumed tr1 tr2 y"
  shows "ready b N1 tr tr1 \<sigma>"
  using assms consumed_mono(2)[OF assms(2)] consumed_disjoint unfolding ready_def by blast

lemma ready_second:
  assumes "ready b (N1 \<union> N2) tr tr2 \<sigma>" and "advances tr tr1" and "\<And>y. y \<in> N1 \<Longrightarrow> consumed tr tr1 y"
    and "dom \<sigma>1 = dom \<sigma> \<union> N1"
  shows "ready b N2 tr1 tr2 \<sigma>1"
  using assms consumed_mono(1)[OF assms(2)] consumed_disjoint unfolding ready_def by blast

lemma ready_slots:
  "ready b (stack_name ` T) tr (tr\<lparr>counter := c\<rparr>) \<sigma> = slots_ready b T (counter tr) c \<sigma>"
proof -
  have "ready b N tr (tr\<lparr>counter := c\<rparr>) \<sigma> \<longleftrightarrow>
      (\<forall>i. counter tr \<le> i \<longrightarrow> i < c \<longrightarrow> (stack_name i \<in> dom \<sigma> \<longleftrightarrow> b \<and> stack_name i \<in> N))" for N
    unfolding ready_def consumed_counter by blast
  then show ?thesis by (simp add: slots_ready_def inj_image_mem_iff[OF stack_name_inject])
qed

section \<open>Agreement with the checker and the translator\<close>

definition visible :: "ctx \<Rightarrow> (name \<Rightarrow> ty option) \<Rightarrow> translator \<Rightarrow> bool" where
  "visible \<Delta> G tr \<longleftrightarrow>
     (\<forall>x t. G x = Some t \<longrightarrow> (\<exists>loc. map_of \<Delta> x = Some (Some t, loc) \<and> lookup_var_opt tr x = Some loc))"

text \<open>The variable has a place of its own, which no other variable shares.\<close>

definition owns :: "ctx \<Rightarrow> name \<Rightarrow> bool" where
  "owns \<Delta> x \<longleftrightarrow> (\<exists>pre t loc post. \<Delta> = pre @ (x, Some t, loc) # post \<and> x \<notin> fst ` set pre \<and> is_place loc
     \<and> distinct (place_names loc) \<and> loc_vars loc \<inter> live_vars (pre @ post) = {})"

definition ctx_ok :: "(name \<rightharpoonup> fun_sig) \<Rightarrow> (name \<Rightarrow> ty option) \<Rightarrow> name set \<Rightarrow> ctx \<Rightarrow> translator \<Rightarrow> bool" where
  "ctx_ok F G A \<Delta> tr \<longleftrightarrow> agrees F G tr \<and> tr_vars tr \<noteq> [] \<and> visible \<Delta> G tr \<and> live_vars \<Delta> \<subseteq> old tr
     \<and> G ''_result'' = None \<and> (\<forall>x\<in>A. G x \<noteq> None \<longrightarrow> owns \<Delta> x)"

lemma lookup_vars_cong: "tr_vars tr' = tr_vars tr \<Longrightarrow> lookup_var_opt tr' = lookup_var_opt tr"
  by (simp add: lookup_var_opt_def fun_eq_iff)

lemma agrees_cong:
  "lookup_var_opt tr' = lookup_var_opt tr \<Longrightarrow> user_functions tr' = user_functions tr \<Longrightarrow> agrees F G tr' = agrees F G tr"
  by (simp add: agrees_def vars_match_def)

lemma ctx_ok_advances:
  assumes "ctx_ok F G A \<Delta> tr" and "advances tr tr'" and "tr_vars tr' = tr_vars tr"
  shows "ctx_ok F G A \<Delta> tr'"
  using assms lookup_vars_cong[OF assms(3)] agrees_cong[of tr' tr] old_advances[OF assms(2)]
  by (auto simp: ctx_ok_def visible_def advances_def)

lemma ctx_corresponds:
  assumes "ctx_ok F G A \<Delta> tr" and "dyn \<Delta> \<rho> \<sigma>" and "calls_refine F (user_functions tr) H C"
  shows "corresponds F G H C (map_of \<rho>) tr \<sigma>" and "slots_used G tr"
proof -
  have v: "visible \<Delta> G tr" "live_vars \<Delta> \<subseteq> old tr" using assms(1) by (simp_all add: ctx_ok_def)
  have "\<exists>v loc. map_of \<rho> x = Some v \<and> lookup_var_opt tr x = Some loc \<and> holds \<sigma> loc (erase t) v"
    if "G x = Some t" for x t
    using v(1) that dyn_lookup[OF assms(2)] unfolding visible_def by metis
  with assms(3) show "corresponds F G H C (map_of \<rho>) tr \<sigma>" by (simp add: corresponds_def vars_hold_def)
  have "accessible G tr \<subseteq> live_vars \<Delta>"
  proof
    fix y
    assume "y \<in> accessible G tr"
    then obtain x t loc where x: "G x = Some t" "lookup_var_opt tr x = Some loc" "y \<in> loc_vars loc"
      by (auto simp: accessible_def)
    then have "(x, Some t, loc) \<in> set \<Delta>" using v(1) map_of_SomeD by (fastforce simp: visible_def)
    with x(3) show "y \<in> live_vars \<Delta>" by (force simp: live_vars_def)
  qed
  moreover have "stack_name i \<notin> old tr" if "counter tr \<le> i" for i
    using that by (auto simp: old_def stack_name_inj)
  ultimately show "slots_used G tr" using v(2) unfolding slots_used_def by blast
qed

end
