(* ===== verification/Hull_Plain.thy ===== *)
theory Hull_Plain
  imports Lower_Ctx
begin

text \<open>
  The statements for which lowering is shown to preserve meaning. Beyond what the checker
  demands: no inline assembly; only local variables are assigned, and the
  value assigned does not come out of the same variable through projections and injections only
  (the translator copies word by word); the variables a match takes apart are not assigned in its
  alternatives, because the binders share their locations; binders of catch-all and literal
  patterns are not used, and a catch-all alternative is the last one; the scrutinee takes up at least
  one word; a loop declares nothing
  in its third clause; a revert message fits into a word; no variable is called \<open>_result\<close>.
\<close>

section \<open>Names that occur\<close>

fun expr_names :: "expr \<Rightarrow> name set" where
  "expr_names (Expr sp t (EVar x)) = {x}"
| "expr_names (Expr sp t (EPair l r)) = expr_names l \<union> expr_names r"
| "expr_names (Expr sp t (EFst e)) = expr_names e"
| "expr_names (Expr sp t (ESnd e)) = expr_names e"
| "expr_names (Expr sp t (EInl target e)) = expr_names e"
| "expr_names (Expr sp t (EInr target e)) = expr_names e"
| "expr_names (Expr sp t (EInK k target e)) = expr_names e"
| "expr_names (Expr sp t (ECall f es)) = \<Union> (set (map expr_names es))"
| "expr_names (Expr sp t (EIf target c e1 e2)) = expr_names c \<union> expr_names e1 \<union> expr_names e2"
| "expr_names (Expr sp t _) = {}"

fun stmt_names :: "stmt \<Rightarrow> name set" and alt_names :: "alt \<Rightarrow> name set" where
  "stmt_names (Stmt sp (SAssign lhs rhs)) = expr_names lhs \<union> expr_names rhs"
| "stmt_names (Stmt sp (SExpr e)) = expr_names e"
| "stmt_names (Stmt sp (SReturn e)) = expr_names e"
| "stmt_names (Stmt sp (SBlock ss)) = \<Union> (set (map stmt_names ss))"
| "stmt_names (Stmt sp (SFor init cond post body)) =
     \<Union> (set (map stmt_names init)) \<union> expr_names cond \<union> \<Union> (set (map stmt_names post))
     \<union> \<Union> (set (map stmt_names body))"
| "stmt_names (Stmt sp (SMatch target e alts)) = expr_names e \<union> \<Union> (set (map alt_names alts))"
| "stmt_names (Stmt sp _) = {}"
| "alt_names (Alt sp p b body) = \<Union> (set (map stmt_names body))"

definition names_of :: "stmt list \<Rightarrow> name set" where
  "names_of ss = \<Union> (set (map stmt_names ss))"

lemma names_of_simps [simp]:
  "names_of [] = {}" "names_of (s # ss) = stmt_names s \<union> names_of ss"
  by (simp_all add: names_of_def)

text \<open>Typing depends on the variables that occur only.\<close>

lemma wt_expr_cong_on:
  "wt_infer F G e t \<Longrightarrow> \<forall>x\<in>expr_names e. G' x = G x \<Longrightarrow> wt_infer F G' e t"
  "wt_expr F G e t \<Longrightarrow> \<forall>x\<in>expr_names e. G' x = G x \<Longrightarrow> wt_expr F G' e t"
  "wt_args F G ts es \<Longrightarrow> \<forall>x\<in>\<Union> (set (map expr_names es)). G' x = G x \<Longrightarrow> wt_args F G' ts es"
proof (induction rule: wt_infer_wt_expr_wt_args.inducts)
  case (annotated e t)
  then show ?case by (blast intro: wt_intros(1))
next
  case (first e t lt rt sp a)
  then have "wt_expr F G' e t" by simp
  then show ?case using \<open>ty_kind (strip_named t) = TyProduct lt rt\<close> by (rule wt_infer_wt_expr_wt_args.first)
next
  case (second e t lt rt sp a)
  then have "wt_expr F G' e t" by simp
  then show ?case using \<open>ty_kind (strip_named t) = TyProduct lt rt\<close> by (rule wt_infer_wt_expr_wt_args.second)
next
  case (inl target lt rt v t sp a)
  then have "wt_expr F G' v t" by simp
  from wt_infer_wt_expr_wt_args.inl[OF \<open>ty_kind (strip_named target) = TySum lt rt\<close> this \<open>type_eq lt t\<close>] show ?case .
next
  case (inr target lt rt v t sp a)
  then have "wt_expr F G' v t" by simp
  from wt_infer_wt_expr_wt_args.inr[OF \<open>ty_kind (strip_named target) = TySum lt rt\<close> this \<open>type_eq rt t\<close>] show ?case .
next
  case (ink target k p v t sp a)
  then have "wt_expr F G' v t" by simp
  from wt_infer_wt_expr_wt_args.ink[OF \<open>nth_sum_payload target k = Some p\<close> this \<open>type_eq p t\<close>] show ?case .
next
  case (pair l lt r rt sp a)
  then have "wt_expr F G' l lt" "wt_expr F G' r rt" by simp_all
  then show ?case by (rule wt_infer_wt_expr_wt_args.pair)
next
  case (cond c tc e1 t1 e2 t2 target sp a)
  then have "wt_expr F G' c tc" "wt_expr F G' e1 t1" "wt_expr F G' e2 t2" by simp_all
  from wt_infer_wt_expr_wt_args.cond[OF this(1) \<open>is_bool_like tc\<close> this(2,3) \<open>type_eq target t1\<close> \<open>type_eq target t2\<close>] show ?case .
next
  case (call f s es sp a)
  then show ?case by (simp add: wt_infer_wt_expr_wt_args.call)
next
  case (args_cons e t' t ts es)
  then show ?case by auto
qed (simp_all add: wt_intros(2-5))

lemmas wt_expr_cong = wt_expr_cong_on(2)[OF _ ballI]

lemma wt_expr_cong_eq: "(\<And>x. x \<in> expr_names e \<Longrightarrow> G' x = G x) \<Longrightarrow> wt_expr F G' e t = wt_expr F G e t"
  using wt_expr_cong[of F G e t G'] wt_expr_cong[of F G' e t G] by fastforce

lemma after_cong: "G' x = G x \<Longrightarrow> after s G' x = after s G x"
  by (cases "(s, G)" rule: after.cases) auto

lemma fold_after_cong: "G' x = G x \<Longrightarrow> fold after ss G' x = fold after ss G x"
proof (induction ss arbitrary: G G')
  case (Cons s ss)
  from Cons.IH[of "after s G'" "after s G", OF after_cong[of G' x G s, OF Cons.prems]] show ?case by simp
qed simp

lemma wt_stmts_cong:
  "wt_stmts F r G ss \<Longrightarrow> (\<And>x. x \<in> names_of ss \<Longrightarrow> G' x = G x) \<Longrightarrow> wt_stmts F r G' ss"
  "wt_stmt F r G s \<Longrightarrow> (\<And>x. x \<in> stmt_names s \<Longrightarrow> G' x = G x) \<Longrightarrow> wt_stmt F r G' s"
  "wt_alts F r G target alts \<Longrightarrow> (\<And>x. x \<in> \<Union> (set (map alt_names alts)) \<Longrightarrow> G' x = G x) \<Longrightarrow> wt_alts F r G' target alts"
proof (induction F r G ss and F r G s and F r G target alts arbitrary: G' and G' and G' rule: wt_stmts_wt_stmt_wt_alts.induct)
  case (2 F r G s ss)
  have "wt_stmt F r G' s" by (rule 2(1)) (use 2(3,4) in \<open>simp_all\<close>)
  moreover have af: "after s G' x = after s G x" if "x \<in> names_of ss" for x
    using that by (intro after_cong[of G' x G s] 2(4)) simp
  moreover have "wt_stmts F r (after s G') ss" by (rule 2(2)) (use af 2(3) in \<open>simp_all\<close>)
  ultimately show ?case by simp
next
  case (8 F r G sp init cond post body)
  let ?G = "fold after init G" and ?G' = "fold after init G'"
  have eq: "?G' x = ?G x" if "x \<in> expr_names cond \<union> names_of post \<union> names_of body" for x
    using that by (intro fold_after_cong[of G' x G init] 8(5)) (auto simp: names_of_def)
  obtain t where t: "wt_expr F ?G cond t" "is_bool_like t" using 8(4) by auto
  have "wt_expr F ?G' cond t" using wt_expr_cong[OF t(1)] eq by simp
  moreover have "wt_stmts F r G' init" by (rule 8(1)) (use 8(4,5) in \<open>auto simp: names_of_def\<close>)
  moreover have "wt_stmts F r ?G' post" by (rule 8(2)) (use 8(4) eq in \<open>simp_all\<close>)
  moreover have af: "fold after post ?G' x = fold after post ?G x" if "x \<in> names_of body" for x
    using that eq by (intro fold_after_cong[of ?G' x ?G post]) simp
  moreover have "wt_stmts F r (fold after post ?G') body" by (rule 8(3)) (use af 8(4) in \<open>simp_all\<close>)
  ultimately show ?case using t(2) by auto
next
  case (13 F r G target sp p b body alts)
  from 13(3) obtain t where t: "payload_type target p = Some t" "wt_stmts F r (G(b \<mapsto> t)) body" by auto
  have "wt_stmts F r (G'(b \<mapsto> t)) body"
    by (rule 13(1)[OF t(2)]) (use 13(4) in \<open>auto simp: names_of_def\<close>)
  moreover have "wt_alts F r G' target alts" using 13(2,3,4) by simp
  ultimately show ?case using t(1) by auto
next
  case (4 F r G sp lhs rhs)
  then show ?case by (simp add: wt_expr_cong_eq[of _ G' G])
next
  case (5 F r G sp e)
  then show ?case using wt_expr_cong_eq[of e G' G F] by auto
next
  case (6 F r G sp e)
  then show ?case by (simp add: wt_expr_cong_eq[of _ G' G])
next
  case (9 F r G sp target e alts)
  then show ?case by (simp add: wt_expr_cong_eq[of _ G' G])
qed (auto simp: names_of_def)

section \<open>The fragment\<close>

fun own :: "stmt \<Rightarrow> name set \<Rightarrow> name set" where
  "own (Stmt sp (SLet x t)) A = insert x A"
| "own _ A = A"

fun not_let :: "stmt \<Rightarrow> bool" where
  "not_let (Stmt sp (SLet x t)) = False"
| "not_let _ = True"

fun is_default :: "alt \<Rightarrow> bool" where
  "is_default (Alt sp (Pat psp (PVar x)) b body) = True"
| "is_default (Alt sp (Pat psp PWildcard) b body) = True"
| "is_default _ = False"

fun defaults_last :: "alt list \<Rightarrow> bool" where
  "defaults_last [] = True"
| "defaults_last (a # as) = (if is_default a then as = [] else defaults_last as)"

text \<open>\<open>A\<close> are the variables that may be assigned.\<close>

fun plain_stmts :: "name set \<Rightarrow> name set \<Rightarrow> stmt list \<Rightarrow> bool"
  and plain_stmt :: "name set \<Rightarrow> name set \<Rightarrow> stmt \<Rightarrow> bool"
  and plain_alts :: "name set \<Rightarrow> name set \<Rightarrow> name set \<Rightarrow> alt list \<Rightarrow> bool" where
  "plain_stmts users A [] \<longleftrightarrow> True"
| "plain_stmts users A (s # ss) \<longleftrightarrow> plain_stmt users A s \<and> plain_stmts users (own s A) ss"
| "plain_stmt users A (Stmt sp (SLet x t)) \<longleftrightarrow> x \<noteq> ''_result'' \<and> ref_free t \<and> first_order (erase t)"
| "plain_stmt users A (Stmt sp (SAssign lhs rhs)) \<longleftrightarrow> expr_plain lhs \<and> expr_plain rhs
     \<and> (case lhs of Expr _ _ (EVar x) \<Rightarrow> x \<in> A \<and> x \<notin> flow_vars users rhs | _ \<Rightarrow> False)"
| "plain_stmt users A (Stmt sp (SExpr e)) \<longleftrightarrow> expr_plain e"
| "plain_stmt users A (Stmt sp (SReturn e)) \<longleftrightarrow> expr_plain e"
| "plain_stmt users A (Stmt sp (SBlock ss)) \<longleftrightarrow> plain_stmts users A ss"
| "plain_stmt users A (Stmt sp (SFor init cond post body)) \<longleftrightarrow>
     plain_stmts users A init \<and> expr_plain cond \<and> list_all not_let post
     \<and> plain_stmts users (fold own init A) post \<and> plain_stmts users (fold own init A) body"
| "plain_stmt users A (Stmt sp (SMatch target e alts)) \<longleftrightarrow>
     expr_plain e \<and> ref_free target \<and> 0 < shape_slots (erase target) \<and> defaults_last alts \<and> plain_alts users A (flow_vars users e) alts"
| "plain_stmt users A (Stmt sp (SAssembly _)) \<longleftrightarrow> False"
| "plain_stmt users A (Stmt sp (SRevert message)) \<longleftrightarrow> utf8_len message \<le> 32"
| "plain_stmt users A (Stmt sp _) \<longleftrightarrow> True"
| "plain_alts users A X [] \<longleftrightarrow> True"
| "plain_alts users A X (Alt sp (Pat psp (PCon c)) b body # alts) \<longleftrightarrow>
     (case c of InK_con _ \<Rightarrow> False | _ \<Rightarrow> True) \<and> b \<noteq> ''_result''
     \<and> plain_stmts users (A - X - {b}) body \<and> plain_alts users A X alts"
| "plain_alts users A X (Alt sp (Pat psp (PIntLit v)) b body # alts) \<longleftrightarrow>
     literal_error v = None \<and> b \<noteq> ''_result'' \<and> b \<notin> names_of body
     \<and> plain_stmts users (A - {b}) body \<and> plain_alts users A X alts"
| "plain_alts users A X (Alt sp (Pat psp (PVar x)) b body # alts) \<longleftrightarrow>
     x \<noteq> ''_result'' \<and> b \<noteq> ''_result'' \<and> x \<notin> names_of body \<and> b \<notin> names_of body
     \<and> plain_stmts users (A - {x, b}) body \<and> plain_alts users A X alts"
| "plain_alts users A X (Alt sp (Pat psp PWildcard) b body # alts) \<longleftrightarrow>
     b \<noteq> ''_result'' \<and> b \<notin> names_of body
     \<and> plain_stmts users (A - {b}) body \<and> plain_alts users A X alts"

end
