(* ===== verification/Lower_Executes.thy ===== *)
theory Lower_Executes
  imports Lower_Ctx
begin

text \<open>
  What it means that generated statements execute Hull statements, from one context to
  another, and how this composes: sequences, blocks, and the code of expressions inside
  statements.
\<close>

section \<open>Outcomes\<close>

text \<open>\<open>rn\<close> are the names of the result variables of the function, \<open>s\<close> is the shape of its result. A
  statement that completes has declared \<open>N\<close>.\<close>

fun finishes :: "name list \<Rightarrow> shape \<Rightarrow> ctx \<Rightarrow> ctx \<Rightarrow> name set \<Rightarrow> store \<Rightarrow> hmode \<Rightarrow> henv \<Rightarrow> mode \<Rightarrow> store \<Rightarrow> bool" where
  "finishes rn s \<Delta> \<Delta>' N \<sigma> HNormal \<rho> m \<sigma>' \<longleftrightarrow> m = MNormal \<and> dyn \<Delta>' \<rho> \<sigma>' \<and> dom \<sigma>' = dom \<sigma> \<union> N"
| "finishes rn s \<Delta> \<Delta>' N \<sigma> HBreak \<rho> m \<sigma>' \<longleftrightarrow> m = MBreak \<and> inner \<Delta> \<rho> \<sigma>' \<and> dom \<sigma> \<subseteq> dom \<sigma>'"
| "finishes rn s \<Delta> \<Delta>' N \<sigma> HContinue \<rho> m \<sigma>' \<longleftrightarrow> m = MContinue \<and> inner \<Delta> \<rho> \<sigma>' \<and> dom \<sigma> \<subseteq> dom \<sigma>'"
| "finishes rn s \<Delta> \<Delta>' N \<sigma> (HReturn v) \<rho> m \<sigma>' \<longleftrightarrow> m = MLeave \<and> enc s v (map \<sigma>' rn) \<and> dom \<sigma> \<subseteq> dom \<sigma>'"

definition fin ::
  "name list \<Rightarrow> shape \<Rightarrow> ctx \<Rightarrow> ctx \<Rightarrow> name set \<Rightarrow> store \<Rightarrow> hmode \<times> henv \<times> 'w \<Rightarrow> mode \<times> store \<times> 'w \<Rightarrow> bool" where
  "fin rn s \<Delta> \<Delta>' N \<sigma> = (\<lambda>(hm, \<rho>, w1) (m, \<sigma>', w2). w2 = w1 \<and> finishes rn s \<Delta> \<Delta>' N \<sigma> hm \<rho> m \<sigma>')"

lemma fin_iff [simp]:
  "fin rn s \<Delta> \<Delta>' N \<sigma> (hm, \<rho>, w1) (m, \<sigma>', w2) \<longleftrightarrow> w2 = w1 \<and> finishes rn s \<Delta> \<Delta>' N \<sigma> hm \<rho> m \<sigma>'"
  by (simp add: fin_def)

lemma finE:
  assumes "fin rn s \<Delta> \<Delta>' N \<sigma> p q"
  obtains hm \<rho> w m \<sigma>' where "p = (hm, \<rho>, w)" "q = (m, \<sigma>', w)" "finishes rn s \<Delta> \<Delta>' N \<sigma> hm \<rho> m \<sigma>'"
  using assms by (cases p; cases q) auto

lemma finishes_normal: "finishes rn s \<Delta> \<Delta>' N \<sigma> hm \<rho> m \<sigma>' \<Longrightarrow> m = MNormal \<longleftrightarrow> hm = HNormal"
  by (cases hm) auto

text \<open>An abrupt outcome does not depend on what would have been declared.\<close>

lemma finishes_abrupt:
  assumes "finishes rn s (X @ \<Delta>) \<Delta>1 N1 \<sigma>1 hm \<rho> m \<sigma>'" and "hm \<noteq> HNormal" and "dom \<sigma> \<subseteq> dom \<sigma>1"
  shows "finishes rn s \<Delta> \<Delta>2 N2 \<sigma> hm \<rho> m \<sigma>'"
  using assms by (cases hm) (auto dest: inner_outer)

section \<open>Execution\<close>

definition name_lets :: "name list \<Rightarrow> yul_stmt list" where
  "name_lets ns = map (\<lambda>x. YLet [x] None) ns"

lemma slot_name_lets: "slot_lets is = name_lets (map stack_name is)"
  by (simp add: slot_lets_def name_lets_def)

text \<open>Code that allocates \<open>ns\<close> at its top level and otherwise only uses names it has consumed.\<close>

definition code_ok :: "translator \<Rightarrow> translator \<Rightarrow> yul_stmt list \<Rightarrow> name list \<Rightarrow> bool" where
  "code_ok tr tr' out ns \<longleftrightarrow> declares tr ns tr' \<and> filter is_alloc out = name_lets ns"

definition executes ::
  "'w ycalls \<Rightarrow> name list \<Rightarrow> shape \<Rightarrow> ctx \<Rightarrow> ctx \<Rightarrow> translator \<Rightarrow> translator \<Rightarrow> yul_stmt list \<Rightarrow> name list \<Rightarrow> bool
    \<Rightarrow> (nat \<Rightarrow> henv \<Rightarrow> 'w \<Rightarrow> 'w hres) \<Rightarrow> bool" where
  "executes C rn s \<Delta> \<Delta>' tr tr' out ns h ev \<longleftrightarrow> code_ok tr tr' out ns \<and>
     (\<forall>b \<rho> \<sigma> w n. dyn \<Delta> \<rho> \<sigma> \<longrightarrow> set rn \<subseteq> dom \<sigma> \<longrightarrow> ready b (set ns) tr tr' \<sigma> \<longrightarrow> (b \<longrightarrow> h) \<longrightarrow>
        sim (fin rn s \<Delta> \<Delta>' (set ns) \<sigma>) (ev n \<rho> w) (yseq C n (hoisted b out) \<sigma> w))"

lemma executesI:
  assumes "code_ok tr tr' out ns"
    and "\<And>b \<rho> \<sigma> w n. dyn \<Delta> \<rho> \<sigma> \<Longrightarrow> set rn \<subseteq> dom \<sigma> \<Longrightarrow> ready b (set ns) tr tr' \<sigma> \<Longrightarrow> (b \<Longrightarrow> h) \<Longrightarrow>
        sim (fin rn s \<Delta> \<Delta>' (set ns) \<sigma>) (ev n \<rho> w) (yseq C n (hoisted b out) \<sigma> w)"
  shows "executes C rn s \<Delta> \<Delta>' tr tr' out ns h ev"
  using assms by (simp add: executes_def)

lemma executes_static: "executes C rn s \<Delta> \<Delta>' tr tr' out ns h ev \<Longrightarrow> code_ok tr tr' out ns"
  by (simp add: executes_def)

lemma executes_sim:
  "executes C rn s \<Delta> \<Delta>' tr tr' out ns h ev \<Longrightarrow> dyn \<Delta> \<rho> \<sigma> \<Longrightarrow> set rn \<subseteq> dom \<sigma> \<Longrightarrow>
     ready b (set ns) tr tr' \<sigma> \<Longrightarrow> (b \<Longrightarrow> h) \<Longrightarrow>
     sim (fin rn s \<Delta> \<Delta>' (set ns) \<sigma>) (ev n \<rho> w) (yseq C n (hoisted b out) \<sigma> w)"
  by (simp add: executes_def)

lemma code_ok_facts:
  assumes "code_ok tr tr' out ns"
  shows "advances tr tr'" "distinct ns" "\<And>y. y \<in> set ns \<Longrightarrow> consumed tr tr' y" "filter is_alloc out = name_lets ns"
  using assms by (simp_all add: code_ok_def declares_def)

lemma code_ok_nil: "code_ok tr tr [] []"
  by (simp add: code_ok_def declares_Nil name_lets_def)

lemma code_ok_append:
  "code_ok tr tr1 out1 ns1 \<Longrightarrow> code_ok tr1 tr2 out2 ns2 \<Longrightarrow> code_ok tr tr2 (out1 @ out2) (ns1 @ ns2)"
  by (auto simp: code_ok_def name_lets_def intro: declares_append)

text \<open>Code without top-level allocations, when only the scopes of the translator differ.\<close>

lemma code_ok_plain:
  "advances tr tr' \<Longrightarrow> list_all (\<lambda>x. \<not> is_alloc x) out \<Longrightarrow> code_ok tr tr' out []"
  by (simp add: code_ok_def declares_def name_lets_def filter_empty_conv list_all_iff)

lemma executes_nil: "executes C rn s \<Delta> \<Delta> tr tr [] [] True (\<lambda>n \<rho> w. Inr (HNormal, \<rho>, w))"
  by (rule executesI) (simp_all add: code_ok_nil hoisted_def)

lemma executes_seq:
  assumes 1: "executes C rn s \<Delta> (X @ \<Delta>) tr tr1 out1 ns1 h1 ev1"
    and 2: "executes C rn s (X @ \<Delta>) \<Delta>2 tr1 tr2 out2 ns2 h2 ev2"
  shows "executes C rn s \<Delta> \<Delta>2 tr tr2 (out1 @ out2) (ns1 @ ns2) (h1 \<and> h2)
    (\<lambda>n \<rho> w. res_bind (ev1 n \<rho> w) (\<lambda>(m, \<rho>, w). if m = HNormal then ev2 n \<rho> w else Inr (m, \<rho>, w)))"
proof (rule executesI)
  note ok = executes_static[OF 1] executes_static[OF 2]
  show "code_ok tr tr2 (out1 @ out2) (ns1 @ ns2)" by (rule code_ok_append[OF ok])
  fix b \<rho> \<sigma> w n
  assume d: "dyn \<Delta> \<rho> \<sigma>" "set rn \<subseteq> dom \<sigma>" and r: "ready b (set (ns1 @ ns2)) tr tr2 \<sigma>" and h: "b \<Longrightarrow> h1 \<and> h2"
  have r': "ready b (set ns1 \<union> set ns2) tr tr2 \<sigma>" using r by simp
  have r1: "ready b (set ns1) tr tr1 \<sigma>"
    by (rule ready_first[OF r' code_ok_facts(1)[OF ok(2)] code_ok_facts(3)[OF ok(2)]])
  have s1: "sim (fin rn s \<Delta> (X @ \<Delta>) (set ns1) \<sigma>) (ev1 n \<rho> w) (yseq C n (hoisted b out1) \<sigma> w)"
    using executes_sim[OF 1 d r1] h by blast
  show "sim (fin rn s \<Delta> \<Delta>2 (set (ns1 @ ns2)) \<sigma>)
      (res_bind (ev1 n \<rho> w) (\<lambda>(m, \<rho>, w). if m = HNormal then ev2 n \<rho> w else Inr (m, \<rho>, w)))
      (yseq C n (hoisted b (out1 @ out2)) \<sigma> w)"
    unfolding hoisted_append yseq_append
  proof (rule sim_bind[OF s1], erule finE, hypsubst, simp only: prod.case)
    fix hm \<rho>1 w1 m \<sigma>1
    assume f: "finishes rn s \<Delta> (X @ \<Delta>) (set ns1) \<sigma> hm \<rho>1 m \<sigma>1"
    show "sim (fin rn s \<Delta> \<Delta>2 (set (ns1 @ ns2)) \<sigma>) (if hm = HNormal then ev2 n \<rho>1 w1 else Inr (hm, \<rho>1, w1))
        (if m = MNormal then yseq C n (hoisted b out2) \<sigma>1 w1 else Inr (m, \<sigma>1, w1))"
    proof (cases "hm = HNormal")
      case True
      with f have n1: "m = MNormal" "dyn (X @ \<Delta>) \<rho>1 \<sigma>1" "dom \<sigma>1 = dom \<sigma> \<union> set ns1" by simp_all
      have "ready b (set ns2) tr1 tr2 \<sigma>1"
        by (rule ready_second[OF r' code_ok_facts(1)[OF ok(1)] code_ok_facts(3)[OF ok(1)] n1(3)])
      moreover have "set rn \<subseteq> dom \<sigma>1" using d(2) n1(3) by blast
      ultimately have "sim (fin rn s (X @ \<Delta>) \<Delta>2 (set ns2) \<sigma>1) (ev2 n \<rho>1 w1) (yseq C n (hoisted b out2) \<sigma>1 w1)"
        using executes_sim[OF 2 n1(2)] h by blast
      then have "sim (fin rn s \<Delta> \<Delta>2 (set (ns1 @ ns2)) \<sigma>) (ev2 n \<rho>1 w1) (yseq C n (hoisted b out2) \<sigma>1 w1)"
      proof (rule sim_mono)
        fix p q
        assume "fin rn s (X @ \<Delta>) \<Delta>2 (set ns2) \<sigma>1 p q"
        then show "fin rn s \<Delta> \<Delta>2 (set (ns1 @ ns2)) \<sigma> p q"
        proof (rule finE)
          fix hm \<rho>2 w2 m \<sigma>2
          assume pq: "p = (hm, \<rho>2, w2)" "q = (m, \<sigma>2, w2)" and f2: "finishes rn s (X @ \<Delta>) \<Delta>2 (set ns2) \<sigma>1 hm \<rho>2 m \<sigma>2"
          have "finishes rn s \<Delta> \<Delta>2 (set (ns1 @ ns2)) \<sigma> hm \<rho>2 m \<sigma>2"
          proof (cases "hm = HNormal")
            case True
            with f2 n1(3) show ?thesis by auto
          next
            case False
            then show ?thesis using finishes_abrupt[OF f2] n1(3) by blast
          qed
          with pq show ?thesis by simp
        qed
      qed
      with True n1(1) show ?thesis by simp
    next
      case False
      with f finishes_normal[OF f] show ?thesis
        using finishes_abrupt[of rn s "[]" \<Delta>] by (auto simp del: finishes.simps)
    qed
  qed
qed

lemma executes_cong:
  assumes "executes C rn s \<Delta> \<Delta>' tr tr' out ns h ev" and "\<And>n \<rho> w. length \<rho> = length \<Delta> \<Longrightarrow> ev n \<rho> w = ev' n \<rho> w"
    and "h' \<Longrightarrow> h"
  shows "executes C rn s \<Delta> \<Delta>' tr tr' out ns h' ev'"
proof (rule executesI)
  fix b \<rho> \<sigma> w n
  assume d: "dyn \<Delta> \<rho> \<sigma>" "set rn \<subseteq> dom \<sigma>" "ready b (set ns) tr tr' \<sigma>" and "b \<Longrightarrow> h'"
  then have "sim (fin rn s \<Delta> \<Delta>' (set ns) \<sigma>) (ev n \<rho> w) (yseq C n (hoisted b out) \<sigma> w)"
    using executes_sim[OF assms(1) d] assms(3) by blast
  then show "sim (fin rn s \<Delta> \<Delta>' (set ns) \<sigma>) (ev' n \<rho> w) (yseq C n (hoisted b out) \<sigma> w)"
    using assms(2) dyn_length[OF d(1)] by simp
qed (rule executes_static[OF assms(1)])

section \<open>Blocks\<close>

lemma finishes_block:
  assumes f: "finishes rn s (X @ \<Delta>) (Y @ \<Delta>) N \<sigma> hm \<rho> m \<sigma>'" and l: "live_vars \<Delta> \<subseteq> dom \<sigma>" "set rn \<subseteq> dom \<sigma>"
  shows "finishes rn s \<Delta> \<Delta> {} \<sigma> hm (outer (length \<Delta>) \<rho>) m (\<sigma>' |` dom \<sigma>)"
proof -
  have 1: "dyn \<Delta> (outer (length \<Delta>) \<rho>) (\<sigma>' |` dom \<sigma>)" if "inner \<Delta> \<rho> \<sigma>'"
    using that dyn_restrict[OF _ l(1)] by (simp add: inner_def)
  have 2: "inner \<Delta> (outer (length \<Delta>) \<rho>) (\<sigma>' |` dom \<sigma>)" if "inner \<Delta> \<rho> \<sigma>'"
    using 1[OF that] that by (simp add: inner_def outer_length outer_outer)
  have 3: "map (\<sigma>' |` dom \<sigma>) rn = map \<sigma>' rn" using l(2) by (auto simp: restrict_map_def)
  have 4: "dom (\<sigma>' |` dom \<sigma>) = dom \<sigma>" if "dom \<sigma> \<subseteq> dom \<sigma>'" using that by auto
  show ?thesis using f
    by (cases hm) (auto simp del: dom_restrict simp: 3 4 1 2 dest!: inner_outer inner_dyn)
qed

text \<open>Running a block whose code executes from a larger context.\<close>

lemma block_sim:
  assumes e: "executes C rn s (X @ \<Delta>) (Y @ \<Delta>) tr tr' out ns h ev"
    and d: "dyn (X @ \<Delta>) \<rho> \<sigma>" "set rn \<subseteq> dom \<sigma>" and r: "ready b {} tr tr' \<sigma>"
  shows "sim (fin rn s \<Delta> \<Delta> {} \<sigma>) (res_bind (ev n \<rho> w) (\<lambda>(m, \<rho>, w). Inr (m, outer (length \<Delta>) \<rho>, w)))
    (yblock C n out \<sigma> w)"
proof -
  have "ready False (set ns) tr tr' \<sigma>" using r by (auto simp: ready_def)
  from executes_sim[OF e d this, of n w]
  have s: "sim (fin rn s (X @ \<Delta>) (Y @ \<Delta>) (set ns) \<sigma>) (ev n \<rho> w) (yseq C n out \<sigma> w)"
    by (simp add: hoisted_def)
  have "live_vars \<Delta> \<subseteq> dom \<sigma>" using dyn_declared[OF d(1)] by simp
  note b = finishes_block[OF _ this d(2)]
  show ?thesis unfolding yblock.simps
    by (rule sim_bind[OF s], erule finE) (auto intro: b)
qed

section \<open>Expressions inside statements\<close>

text \<open>What \<open>refines\<close> gives in a context.\<close>

lemma expr_in_ctx:
  assumes wt: "wt_expr F G e t" and plain: "expr_plain e" and ok: "ctx_ok F G A \<Delta> tr"
    and calls: "calls_refine F (user_functions tr) H C"
  obtains out loc c "is" where "ref_free t" "gen_expr e tr = Inr (out, loc, tr\<lparr>counter := c\<rparr>)"
    "conforms (erase t) loc" "counter tr \<le> c" "loc_vars loc \<subseteq> accessible G tr \<union> stack_name ` set is"
    "code_ok tr (tr\<lparr>counter := c\<rparr>) out (map stack_name is)"
    "\<And>b \<rho> \<sigma> w n. dyn \<Delta> \<rho> \<sigma> \<Longrightarrow> ready b (stack_name ` set is) tr (tr\<lparr>counter := c\<rparr>) \<sigma> \<Longrightarrow>
       sim (ends (\<lambda>\<sigma>' v. holds \<sigma>' loc (erase t) v \<and> dyn \<Delta> \<rho> \<sigma>') (set is) \<sigma>) (heval H (map_of \<rho>) e w)
         (yseq C n (hoisted b out) \<sigma> w)"
proof -
  have ag: "agrees F G tr" using ok by (simp add: ctx_ok_def)
  then have F: "sigs_plain F" "\<And>x t. G x = Some t \<Longrightarrow> ref_free t" by (auto simp: agrees_def vars_match_def)
  have acc: "accessible G tr \<subseteq> old tr"
  proof
    fix y
    assume "y \<in> accessible G tr"
    then obtain x t loc where x: "G x = Some t" "lookup_var_opt tr x = Some loc" "y \<in> loc_vars loc"
      by (auto simp: accessible_def)
    have "visible \<Delta> G tr" using ok by (simp add: ctx_ok_def)
    with x(1,2) have "map_of \<Delta> x = Some (Some t, loc)" unfolding visible_def by fastforce
    then have "(x, Some t, loc) \<in> set \<Delta>" by (rule map_of_SomeD)
    then have "y \<in> live_vars \<Delta>" using x(3) by (force simp: live_vars_def)
    then show "y \<in> old tr" using ok by (auto simp: ctx_ok_def)
  qed
  then have used: "slots_used G tr" by (auto simp: slots_used_def old_def stack_name_inj)
  from wt_refines(2)[OF F wt plain] ag used obtain out loc c "is" where g: "ref_free t"
    "gen_expr e tr = Inr (out, loc, tr\<lparr>counter := c\<rparr>)" "conforms (erase t) loc" "loc_scoped G tr (set is) loc"
    "runs F G H C tr out c is (\<lambda>\<sigma>. holds \<sigma> loc (erase t)) (\<lambda>\<rho>. heval H \<rho> e)"
    by (rule refinesE)
  have st: "counter tr \<le> c" "distinct is" "set is \<subseteq> {counter tr..<c}" "allocates out is"
    using runs_static[OF g(5)] by simp_all
  have code: "code_ok tr (tr\<lparr>counter := c\<rparr>) out (map stack_name is)"
    using st by (auto simp: code_ok_def declares_def distinct_stack_names advances_counter consumed_slot
        allocates_def slot_name_lets)
  have keep: "dyn \<Delta> \<rho> \<sigma>'" if d: "dyn \<Delta> \<rho> \<sigma>" and ch: "changes (set is) \<sigma> \<sigma>'" for \<rho> \<sigma> \<sigma>'
  proof -
    have "\<sigma>' y = \<sigma> y" if y: "y \<in> live_vars \<Delta>" for y
    proof -
      have "y \<in> old tr" using y ok by (auto simp: ctx_ok_def)
      then have "y \<notin> stack_name ` set is" using st(3) by (auto simp: old_def stack_name_inj)
      then show ?thesis using ch by (simp add: changes_def)
    qed
    from dyn_cong[of \<Delta> \<sigma>' \<sigma> \<rho>, OF this] d show ?thesis by blast
  qed
  show ?thesis
  proof (rule that[OF g(1,2,3) st(1) g(4)[unfolded loc_scoped_def] code])
    fix b \<rho> \<sigma> w n
    assume d: "dyn \<Delta> \<rho> \<sigma>" and r: "ready b (stack_name ` set is) tr (tr\<lparr>counter := c\<rparr>) \<sigma>"
    have "slots_ready b (set is) (counter tr) c \<sigma>" using r by (simp add: ready_slots)
    from runs_sim[OF g(5) ctx_corresponds(1)[OF ok d calls] this]
    show "sim (ends (\<lambda>\<sigma>' v. holds \<sigma>' loc (erase t) v \<and> dyn \<Delta> \<rho> \<sigma>') (set is) \<sigma>) (heval H (map_of \<rho>) e w)
         (yseq C n (hoisted b out) \<sigma> w)"
      by (rule sim_mono) (use keep[OF d] in \<open>auto elim!: endsE intro!: endsI\<close>)
  qed
qed

end
