(* ===== verification/Lower_Stmts.thy ===== *)
theory Lower_Stmts
  imports Hull_Plain Lower_Executes
begin

text \<open>
  Lowering preserves the meaning of statements, one kind of statement after the other: declarations,
  assignments, expression statements, returns, blocks, reverts and comments. Loops and matches
  are in their own theories.
\<close>

section \<open>The result variables\<close>

definition result_ok :: "ty \<Rightarrow> name list \<Rightarrow> ctx \<Rightarrow> translator \<Rightarrow> bool" where
  "result_ok rt rn \<Delta> tr \<longleftrightarrow> ref_free rt \<and>
     (shape_slots (erase rt) = 0 \<and> rn = []
      \<or> (\<exists>loc. map_of \<Delta> ''_result'' = Some (Some rt, loc) \<and> lookup_var_opt tr ''_result'' = Some loc
           \<and> owns \<Delta> ''_result'' \<and> place_names loc = rn \<and> conforms (erase rt) loc))"

text \<open>Where the translation of a statement leads.\<close>

definition leads ::
  "(name \<rightharpoonup> fun_sig) \<Rightarrow> ty \<Rightarrow> name list \<Rightarrow> (name \<Rightarrow> ty option) \<Rightarrow> name set \<Rightarrow> ctx \<Rightarrow> translator \<Rightarrow> translator \<Rightarrow> bool" where
  "leads F rt rn G A \<Delta> tr tr' \<longleftrightarrow> ctx_ok F G A \<Delta> tr' \<and> result_ok rt rn \<Delta> tr' \<and> butlast (tr_vars tr') = butlast (tr_vars tr)"

definition reverts_refine :: "'w reverts \<Rightarrow> 'w ycalls \<Rightarrow> bool" where
  "reverts_refine R C \<longleftrightarrow>
     (\<forall>message \<sigma> w n. utf8_len message \<le> 32 \<longrightarrow> yseq C n (revert_stmts message) \<sigma> w = Inl (Halted (R message w)))"

lemma result_ok_advances:
  "result_ok rt rn \<Delta> tr \<Longrightarrow> tr_vars tr' = tr_vars tr \<Longrightarrow> result_ok rt rn \<Delta> tr'"
  using lookup_vars_cong[of tr' tr] by (simp add: result_ok_def)

text \<open>A statement that leaves the scopes alone.\<close>

lemma leads_same:
  assumes "ctx_ok F G A \<Delta> tr" and "result_ok rt rn \<Delta> tr" and "advances tr tr'" and "tr_vars tr' = tr_vars tr"
  shows "leads F rt rn G A \<Delta> tr tr'"
  using assms ctx_ok_advances[OF assms(1,3,4)] result_ok_advances[OF assms(2,4)] by (simp add: leads_def)

section \<open>Places\<close>

lemma rd_place: "is_place loc \<Longrightarrow> rd \<sigma> loc = map \<sigma> (place_names loc)"
proof -
  assume p: "is_place loc"
  have "rd \<sigma> l = map \<sigma> (place_names l)" if "l \<in> set (flatten_locs loc)" for l
  proof -
    have "is_place l \<and> \<not> is_seq l"
      using flatten_locs_place[OF p] that by (auto simp: list_all_iff dest: flatten_locs_flat)
    then show ?thesis by (cases l) simp_all
  qed
  then show ?thesis
    unfolding rd_flatten[of \<sigma> loc] place_names_concat[OF p] by (simp add: map_concat comp_def cong: map_cong)
qed

lemma owns_lookup:
  assumes "owns \<Delta> x" and "map_of \<Delta> x = Some (t, loc)"
  obtains pre t' post where "t = Some t'" "\<Delta> = pre @ (x, Some t', loc) # post" "x \<notin> fst ` set pre" "is_place loc"
    "distinct (place_names loc)" "loc_vars loc \<inter> live_vars (pre @ post) = {}"
proof -
  from assms(1) obtain pre t' l post where o: "\<Delta> = pre @ (x, Some t', l) # post" "x \<notin> fst ` set pre" "is_place l"
    "distinct (place_names l)" "loc_vars l \<inter> live_vars (pre @ post) = {}" unfolding owns_def by blast
  from o(2) have "map_of pre x = None" by (simp add: map_of_eq_None_iff)
  with o(1) assms(2) have "t = Some t' \<and> loc = l" by (simp add: map_add_def)
  with o that show ?thesis by blast
qed

text \<open>Other visible variables are apart from an owned one.\<close>

lemma owns_apart:
  assumes o: "owns \<Delta> x" "map_of \<Delta> x = Some (t, loc)" and y: "map_of \<Delta> y = Some (Some u, l)" "y \<noteq> x"
  shows "loc_vars loc \<inter> loc_vars l = {}"
proof -
  from o obtain pre t' post where p: "\<Delta> = pre @ (x, Some t', loc) # post"
    "loc_vars loc \<inter> live_vars (pre @ post) = {}" by (rule owns_lookup)
  have "(y, Some u, l) \<in> set \<Delta>" using y(1) by (rule map_of_SomeD)
  with y(2) p(1) have "(y, Some u, l) \<in> set (pre @ post)" by auto
  then have "loc_vars l \<subseteq> live_vars (pre @ post)" unfolding live_vars_def by force
  with p(2) show ?thesis by blast
qed

text \<open>Storing a value into an owned variable.\<close>

lemma set_var_append: "x \<notin> fst ` set \<rho>1 \<Longrightarrow> set_var x v (\<rho>1 @ (x, u) # \<rho>2) = Some (\<rho>1 @ (x, v) # \<rho>2)"
  by (induction \<rho>1) auto

lemma dyn_names: "dyn \<Delta> \<rho> \<sigma> \<Longrightarrow> map fst \<rho> = map fst \<Delta>"
proof (induction \<Delta> arbitrary: \<rho>)
  case (Cons e \<Delta>)
  then obtain y v \<rho>' where "\<rho> = (y, v) # \<rho>'" by (auto simp: dyn_def list_all2_Cons1)
  with Cons show ?case by (cases "(\<sigma>, e, y, v)" rule: entry_holds.cases) auto
qed simp

lemma dyn_set:
  assumes d: "dyn \<Delta> \<rho> \<sigma>" and o: "owns \<Delta> x" "map_of \<Delta> x = Some (Some t, loc)"
    and other: "\<And>y. y \<notin> loc_vars loc \<Longrightarrow> \<sigma>' y = \<sigma> y" and h: "holds \<sigma>' loc (erase t) v"
  shows "\<exists>\<rho>'. set_var x v \<rho> = Some \<rho>' \<and> dyn \<Delta> \<rho>' \<sigma>'"
proof -
  from o obtain pre t' post where p: "Some t = Some t'" "\<Delta> = pre @ (x, Some t', loc) # post" "x \<notin> fst ` set pre"
    "loc_vars loc \<inter> live_vars (pre @ post) = {}" by (rule owns_lookup)
  from d p(1,2) obtain \<rho>1 y u \<rho>2 where r: "\<rho> = \<rho>1 @ (y, u) # \<rho>2" "dyn pre \<rho>1 \<sigma>" "dyn post \<rho>2 \<sigma>" "y = x"
    by (auto simp: dyn_append) (auto simp: dyn_def list_all2_Cons1)
  have "fst ` set \<rho>1 = fst ` set pre" using dyn_names[OF r(2)] by (metis list.set_map)
  with p(3) r(1,4) have s: "set_var x v \<rho> = Some (\<rho>1 @ (x, v) # \<rho>2)" by (simp add: set_var_append)
  have "dyn pre \<rho>1 \<sigma>'" "dyn post \<rho>2 \<sigma>'"
    using r(2,3) p(4) other dyn_cong[of pre \<sigma>' \<sigma> \<rho>1] dyn_cong[of post \<sigma>' \<sigma> \<rho>2] by auto
  moreover have "dyn ((x, Some t', loc) # post) ((x, v) # \<rho>2) \<sigma>'"
    using h p(1) \<open>dyn post \<rho>2 \<sigma>'\<close> by simp
  ultimately have "dyn \<Delta> (\<rho>1 @ (x, v) # \<rho>2) \<sigma>'" unfolding p(2) dyn_append by blast
  with s show ?thesis by blast
qed

text \<open>Copying into a place that an owned variable occupies.\<close>

lemma copy_exec:
  assumes copy: "size_of_loc dst = 0 \<and> k = [] \<or> copy_locs dst src = Inr k" and dst: "is_place dst" "distinct (place_names dst)"
    and s: "conforms s dst" "holds \<sigma> src s v" and dom: "loc_vars dst \<subseteq> dom \<sigma>" and apart: "loc_vars dst \<inter> loc_vars src = {}"
  shows "\<exists>\<sigma>'. yseq C n k \<sigma> w = Inr (MNormal, \<sigma>', w) \<and> dom \<sigma>' = dom \<sigma>
    \<and> (\<forall>y. y \<notin> loc_vars dst \<longrightarrow> \<sigma>' y = \<sigma> y) \<and> holds \<sigma>' dst s v"
proof -
  have size: "size_of_loc dst = size_of_loc src" using holds_size[OF s(2)] conforms_size[OF s(1)] by simp
  have "\<exists>\<sigma>'. yseq C n k \<sigma> w = Inr (MNormal, \<sigma>', w) \<and> dom \<sigma>' = dom \<sigma>
    \<and> (\<forall>y. y \<notin> loc_vars dst \<longrightarrow> \<sigma>' y = \<sigma> y) \<and> filled (rd \<sigma> src) (rd \<sigma>' dst)"
    using copy
  proof
    assume z: "size_of_loc dst = 0 \<and> k = []"
    then have "length (rd \<sigma> src) = 0" "length (rd \<sigma> dst) = 0" using size by (simp_all add: rd_length)
    then have "rd \<sigma> src = []" "rd \<sigma> dst = []" by simp_all
    then have "filled (rd \<sigma> src) (rd \<sigma> dst)" by (simp add: filled_Nil)
    moreover have "yseq C n k \<sigma> w = Inr (MNormal, \<sigma>, w)" using z by simp
    ultimately show ?thesis by blast
  next
    assume c: "copy_locs dst src = Inr k"
    have "readable \<sigma> src" using s(2) by (simp add: holds_def)
    from copy_locs_exec[OF c dst size dom this apart] show ?thesis .
  qed
  then obtain \<sigma>' where e: "yseq C n k \<sigma> w = Inr (MNormal, \<sigma>', w)" "dom \<sigma>' = dom \<sigma>"
    "\<forall>y. y \<notin> loc_vars dst \<longrightarrow> \<sigma>' y = \<sigma> y" "filled (rd \<sigma> src) (rd \<sigma>' dst)" by blast
  have "enc s v (rd \<sigma>' dst)" using s(2) e(4) by (auto simp: holds_def intro: enc_filled)
  moreover have "readable \<sigma>' dst" using place_readable[OF dst(1)] dom e(2) by simp
  ultimately have "holds \<sigma>' dst s v" using s(1) by (simp add: holds_def)
  with e show ?thesis by blast
qed

text \<open>Copies are assignments.\<close>

fun is_assign :: "yul_stmt \<Rightarrow> bool" where
  "is_assign (YAssign xs e) = True"
| "is_assign _ = False"

lemma copy_locs_assigns: "copy_locs l r = Inr k \<Longrightarrow> list_all is_assign k"
proof (induction l r arbitrary: k rule: copy_locs.induct)
  case (1 l r)
  show ?case
  proof (cases "is_seq l \<or> is_seq r")
    case True
    with 1(2) obtain cs where cs: "k = concat cs"
      "list_all2 (\<lambda>(l, r) k. copy_locs l r = Inr k) (zip (flatten_locs l) (flatten_locs r)) cs"
      by (subst (asm) copy_locs.simps) (auto simp: res_elims res_all_Inr_iff case_prod_unfold Let_def split: if_splits)
    have len: "length (flatten_locs l) = length (flatten_locs r)"
      using True 1(2) by (subst (asm) copy_locs.simps) (auto simp: Let_def split: if_splits)
    have "list_all is_assign c" if c: "c \<in> set cs" for c
    proof -
      from c obtain i where i: "i < length cs" "cs ! i = c" by (auto simp: in_set_conv_nth)
      let ?z = "zip (flatten_locs l) (flatten_locs r)"
      have "i < length ?z" using i list_all2_lengthD[OF cs(2)] by simp
      then have p: "?z ! i \<in> set ?z" by (rule nth_mem)
      have "copy_locs (fst (?z ! i)) (snd (?z ! i)) = Inr c"
        using list_all2_nthD2[OF cs(2) i(1)] i(2) by (simp only: case_prod_unfold)
      from 1(1)[OF True refl refl _ p, of "fst (?z ! i)" "snd (?z ! i)" c] len this
      show ?thesis by (simp del: zip_map_fst_snd)
    qed
    then show ?thesis by (auto simp: cs(1) list_all_iff)
  next
    case False
    with 1(2) show ?thesis
      by (subst (asm) copy_locs.simps) (auto simp: res_elims split: location.splits)
  qed
qed

lemma copy_locs_no_alloc: "copy_locs l r = Inr k \<Longrightarrow> list_all (\<lambda>x. \<not> is_alloc x) k"
proof -
  have "is_assign x \<Longrightarrow> \<not> is_alloc x" for x by (cases x) simp_all
  then show "copy_locs l r = Inr k \<Longrightarrow> list_all (\<lambda>x. \<not> is_alloc x) k" using copy_locs_assigns by (fastforce simp: list_all_iff)
qed

section \<open>Storing the value of an expression\<close>

text \<open>A well-typed expression mentions visible variables only.\<close>

lemma wt_names:
  "wt_infer F G e t \<Longrightarrow> \<forall>x\<in>expr_names e. G x \<noteq> None"
  "wt_expr F G e t \<Longrightarrow> \<forall>x\<in>expr_names e. G x \<noteq> None"
  "wt_args F G ts es \<Longrightarrow> \<forall>x\<in>\<Union> (set (map expr_names es)). G x \<noteq> None"
  by (induction rule: wt_infer_wt_expr_wt_args.inducts) auto

lemma flow_names: "flow_vars users e \<subseteq> expr_names e"
  by (induction e rule: expr_names.induct) auto

lemma expr_apart:
  assumes ok: "ctx_ok F G A \<Delta> tr" and wt: "wt_expr F G e t" and g: "gen_expr e tr = Inr (out, l, tr')"
    and x: "owns \<Delta> x" "map_of \<Delta> x = Some (Some u, loc)" "x \<notin> flow_vars (user_functions tr) e"
  shows "loc_vars loc \<inter> loc_vars l = {}"
proof -
  have v: "visible \<Delta> G tr" and old: "live_vars \<Delta> \<subseteq> old tr" using ok by (simp_all add: ctx_ok_def)
  have "loc_vars loc \<inter> flow_locs tr (flow_vars (user_functions tr) e) = {}"
  proof -
    have "loc_vars loc \<inter> loc_vars k = {}" if y: "y \<in> flow_vars (user_functions tr) e" "lookup_var_opt tr y = Some k" for y k
    proof -
      have "G y \<noteq> None" using wt_names(2)[OF wt] y(1) flow_names by blast
      with v y(2) obtain ty where "map_of \<Delta> y = Some (Some ty, k)" unfolding visible_def by fastforce
      from owns_apart[OF x(1,2) this] y(1) x(3) show ?thesis by blast
    qed
    then show ?thesis by (auto simp: flow_locs_def)
  qed
  moreover have "loc_vars loc \<subseteq> old tr"
    using old map_of_SomeD[OF x(2)] by (force simp: live_vars_def)
  then have "loc_vars loc \<inter> stack_name ` {counter tr..} = {}" by (auto simp: old_def stack_name_inj)
  moreover have "loc_vars l \<subseteq> flow_locs tr (flow_vars (user_functions tr) e) \<union> stack_name ` {counter tr..}"
    using gen_flows(1)[OF g] by (simp add: flows_to_def)
  ultimately show ?thesis by blast
qed

lemma store_expr:
  assumes wt: "wt_expr F G e t" and plain: "expr_plain e" and ok: "ctx_ok F G A \<Delta> tr"
    and calls: "calls_refine F (user_functions tr) H C"
    and x: "owns \<Delta> x" "map_of \<Delta> x = Some (Some u, dst)" "x \<notin> flow_vars (user_functions tr) e"
    and dst: "conforms (erase u) dst" "ref_free u" "type_eq u t"
  obtains out loc c "is" k where "gen_expr e tr = Inr (out, loc, tr\<lparr>counter := c\<rparr>)"
    "erase t = erase u" "counter tr \<le> c" "size_of_loc loc = size_of_loc dst"
    "if size_of_loc dst = 0 then k = [] else copy_locs dst loc = Inr k"
    "code_ok tr (tr\<lparr>counter := c\<rparr>) (out @ k) (map stack_name is)" "hoisted False k = k" "hoisted True k = k"
    "\<And>b \<rho> \<sigma> w n. dyn \<Delta> \<rho> \<sigma> \<Longrightarrow> ready b (stack_name ` set is) tr (tr\<lparr>counter := c\<rparr>) \<sigma> \<Longrightarrow>
       sim (\<lambda>(v, w1) (m, \<sigma>', w2). m = MNormal \<and> w2 = w1 \<and> dom \<sigma>' = dom \<sigma> \<union> stack_name ` set is
            \<and> holds \<sigma>' dst (erase u) v \<and> (\<exists>\<rho>'. set_var x v \<rho> = Some \<rho>' \<and> dyn \<Delta> \<rho>' \<sigma>'))
         (heval H (map_of \<rho>) e w) (yseq C n (hoisted b (out @ k)) \<sigma> w)"
proof -
  obtain out loc c "is" where g: "ref_free t" "gen_expr e tr = Inr (out, loc, tr\<lparr>counter := c\<rparr>)"
    "conforms (erase t) loc" "counter tr \<le> c"
    and code: "code_ok tr (tr\<lparr>counter := c\<rparr>) out (map stack_name is)"
    and run: "\<And>b \<rho> \<sigma> w n. dyn \<Delta> \<rho> \<sigma> \<Longrightarrow> ready b (stack_name ` set is) tr (tr\<lparr>counter := c\<rparr>) \<sigma> \<Longrightarrow>
       sim (ends (\<lambda>\<sigma>' v. holds \<sigma>' loc (erase t) v \<and> dyn \<Delta> \<rho> \<sigma>') (set is) \<sigma>) (heval H (map_of \<rho>) e w)
         (yseq C n (hoisted b out) \<sigma> w)"
    by (rule expr_in_ctx[OF wt plain ok calls]) blast
  have e: "erase t = erase u" by (rule type_eq_erases[OF dst(3,2) g(1)])
  have sz: "size_of_loc loc = size_of_loc dst"
    using conforms_size[OF g(3)] conforms_size[OF dst(1)] e by simp
  have pl: "is_place dst" "distinct (place_names dst)" using x(1,2) by (auto elim!: owns_lookup)
  have "\<exists>k. (if size_of_loc dst = 0 then k = [] else copy_locs dst loc = Inr k)"
    using copy_locs_ok[OF pl(1), of loc] sz by (cases "size_of_loc dst = 0") auto
  then obtain k where k: "if size_of_loc dst = 0 then k = [] else copy_locs dst loc = Inr k" by blast
  have na: "list_all (\<lambda>x. \<not> is_alloc x) k" using k copy_locs_no_alloc by (auto split: if_splits)
  have apart: "loc_vars dst \<inter> loc_vars loc = {}" by (rule expr_apart[OF ok wt g(2) x])
  have live: "loc_vars dst \<subseteq> live_vars \<Delta>" using map_of_SomeD[OF x(2)] by (force simp: live_vars_def)
  show ?thesis
  proof (rule that[OF g(2) e g(4) sz k])
    show "code_ok tr (tr\<lparr>counter := c\<rparr>) (out @ k) (map stack_name is)"
      using code na by (simp add: code_ok_def filter_empty_conv list_all_iff)
    show h: "hoisted False k = k" "hoisted True k = k" using na by (simp_all add: hoisted_plain)
    fix b \<rho> \<sigma> w n
    assume d: "dyn \<Delta> \<rho> \<sigma>" and r: "ready b (stack_name ` set is) tr (tr\<lparr>counter := c\<rparr>) \<sigma>"
    have hk: "hoisted b k = k" using h by (cases b) simp_all
    show "sim (\<lambda>(v, w1) (m, \<sigma>', w2). m = MNormal \<and> w2 = w1 \<and> dom \<sigma>' = dom \<sigma> \<union> stack_name ` set is
            \<and> holds \<sigma>' dst (erase u) v \<and> (\<exists>\<rho>'. set_var x v \<rho> = Some \<rho>' \<and> dyn \<Delta> \<rho>' \<sigma>'))
         (heval H (map_of \<rho>) e w) (yseq C n (hoisted b (out @ k)) \<sigma> w)"
      unfolding hoisted_append hk yseq_append
    proof (rule sim_bind_right[OF run[OF d r]], erule endsE, hypsubst, simp only: prod.case if_True refl)
      fix v w1 \<sigma>1
      assume ch: "changes (set is) \<sigma> \<sigma>1" and v: "holds \<sigma>1 loc (erase t) v \<and> dyn \<Delta> \<rho> \<sigma>1"
      have h: "holds \<sigma>1 loc (erase u) v" and d1: "dyn \<Delta> \<rho> \<sigma>1" using v by (simp_all add: e)
      have "loc_vars dst \<subseteq> dom \<sigma>1" using live dyn_declared[OF d1] by blast
      from copy_exec[OF _ pl dst(1) h this apart, of k C n w1] k
      obtain \<sigma>2 where c2: "yseq C n k \<sigma>1 w1 = Inr (MNormal, \<sigma>2, w1)" "dom \<sigma>2 = dom \<sigma>1"
        "\<And>y. y \<notin> loc_vars dst \<Longrightarrow> \<sigma>2 y = \<sigma>1 y" "holds \<sigma>2 dst (erase u) v" by (auto split: if_splits)
      from dyn_set[OF d1 x(1,2) c2(3,4)]
      obtain \<rho>' where "set_var x v \<rho> = Some \<rho>'" "dyn \<Delta> \<rho>' \<sigma>2" by blast
      with c2(1,2,4) ch show "\<exists>z. yseq C n k \<sigma>1 w1 = Inr z \<and> (case z of (m, \<sigma>', w2) \<Rightarrow>
          m = MNormal \<and> w2 = w1 \<and> dom \<sigma>' = dom \<sigma> \<union> stack_name ` set is
            \<and> holds \<sigma>' dst (erase u) v \<and> (\<exists>\<rho>'. set_var x v \<rho> = Some \<rho>' \<and> dyn \<Delta> \<rho>' \<sigma>'))"
        by (simp add: changes_def)
    qed
  qed
qed

lemma ctx_lookup:
  assumes "ctx_ok F G A \<Delta> tr" and "G x = Some t"
  shows "\<exists>loc. map_of \<Delta> x = Some (Some t, loc) \<and> lookup_var_opt tr x = Some loc \<and> ref_free t \<and> conforms (erase t) loc"
proof -
  have "visible \<Delta> G tr" and m: "vars_match G tr" using assms(1) by (simp_all add: ctx_ok_def agrees_def)
  then obtain loc where "map_of \<Delta> x = Some (Some t, loc)" "lookup_var_opt tr x = Some loc"
    using assms(2) unfolding visible_def by blast
  moreover from m assms(2) this(2) have "ref_free t \<and> conforms (erase t) loc"
    unfolding vars_match_def by fastforce
  ultimately show ?thesis by blast
qed

lemma changes_dom: "changes T \<sigma> \<sigma>' \<Longrightarrow> dom \<sigma> \<subseteq> dom \<sigma>'"
  by (simp add: changes_def)

section \<open>Statements that contain no statements\<close>

text \<open>The statement or the sequence lowers to code that executes it, from every context that the
  checker and the translator agree on.\<close>

definition lowered ::
  "(name \<rightharpoonup> fun_sig) \<Rightarrow> ty \<Rightarrow> name list \<Rightarrow> 'w ycalls \<Rightarrow> ctx \<Rightarrow> translator \<Rightarrow> (name \<Rightarrow> ty option) \<Rightarrow> name set
    \<Rightarrow> (yul_stmt list \<times> translator) tr_res \<Rightarrow> bool \<Rightarrow> (nat \<Rightarrow> henv \<Rightarrow> 'w \<Rightarrow> 'w hres) \<Rightarrow> bool" where
  "lowered F rt rn C \<Delta> tr G' A' r h ev \<longleftrightarrow>
     (\<exists>out tr' ns X. r = Inr (out, tr') \<and> leads F rt rn G' A' (X @ \<Delta>) tr tr' \<and> (h \<longrightarrow> X = [])
        \<and> executes C rn (erase rt) \<Delta> (X @ \<Delta>) tr tr' out ns h ev)"

lemma loweredI:
  "r = Inr (out, tr') \<Longrightarrow> leads F rt rn G' A' (X @ \<Delta>) tr tr' \<Longrightarrow>
     executes C rn (erase rt) \<Delta> (X @ \<Delta>) tr tr' out ns h ev \<Longrightarrow> (h \<Longrightarrow> X = []) \<Longrightarrow>
     lowered F rt rn C \<Delta> tr G' A' r h ev"
  by (auto simp: lowered_def)

lemma loweredE:
  assumes "lowered F rt rn C \<Delta> tr G' A' r h ev"
  obtains out tr' ns X where "r = Inr (out, tr')" "leads F rt rn G' A' (X @ \<Delta>) tr tr'"
    "executes C rn (erase rt) \<Delta> (X @ \<Delta>) tr tr' out ns h ev" "h \<longrightarrow> X = []"
  using assms by (auto simp: lowered_def)

text \<open>Code that neither allocates nor declares.\<close>

lemma lowered_plain:
  assumes ok: "ctx_ok F G A \<Delta> tr" "result_ok rt rn \<Delta> tr" and r: "r = Inr (out, tr)"
    and out: "list_all (\<lambda>x. \<not> is_alloc x) out"
    and sim: "\<And>\<rho> \<sigma> w n. dyn \<Delta> \<rho> \<sigma> \<Longrightarrow> set rn \<subseteq> dom \<sigma> \<Longrightarrow>
        sim (fin rn (erase rt) \<Delta> \<Delta> {} \<sigma>) (ev n \<rho> w) (yseq C n out \<sigma> w)"
  shows "lowered F rt rn C \<Delta> tr G A r True ev"
proof (rule loweredI[OF r])
  have a: "advances tr tr" by (simp add: advances_def)
  show "leads F rt rn G A ([] @ \<Delta>) tr tr" using leads_same[OF ok a refl] by simp
  show "executes C rn (erase rt) \<Delta> ([] @ \<Delta>) tr tr out [] True ev"
    by (rule executesI[OF code_ok_plain[OF a out]]) (simp add: hoisted_plain[OF out] sim)
qed simp

lemma lowered_revert:
  assumes "ctx_ok F G A \<Delta> tr" "result_ok rt rn \<Delta> tr" and "reverts_refine R C" and "utf8_len message \<le> 32"
  shows "lowered F rt rn C \<Delta> tr G A (Inr (revert_stmts message, tr)) True
    (\<lambda>n \<rho> w. Inl (Halted (R message w)))"
  using assms(3,4) by (intro lowered_plain[OF assms(1,2) refl])
    (simp_all add: reverts_refine_def del: yseq.simps, simp add: revert_stmts_def)

lemma lowered_jump:
  assumes ok: "ctx_ok F G A \<Delta> tr" "result_ok rt rn \<Delta> tr"
  shows "lowered F rt rn C \<Delta> tr G A (Inr ([YBreak], tr)) True (\<lambda>n \<rho> w. Inr (HBreak, \<rho>, w))"
    and "lowered F rt rn C \<Delta> tr G A (Inr ([YContinue], tr)) True (\<lambda>n \<rho> w. Inr (HContinue, \<rho>, w))"
    and "lowered F rt rn C \<Delta> tr G A (Inr ([YComment comment], tr)) True (\<lambda>n \<rho> w. Inr (HNormal, \<rho>, w))"
  by (intro lowered_plain[OF ok refl]; simp add: inner_dyn[of "[]", simplified])+

text \<open>Expressions for their effect.\<close>

lemma lowered_expr:
  assumes wt: "wt_expr F G e t" and plain: "expr_plain e"
    and ok: "ctx_ok F G A \<Delta> tr" "result_ok rt rn \<Delta> tr" and calls: "calls_refine F (user_functions tr) H C"
  shows "lowered F rt rn C \<Delta> tr G A (res_bind (gen_expr e tr) (\<lambda>(stmts, _, tr). Inr (stmts, tr))) True
    (\<lambda>n \<rho> w. res_bind (heval H (map_of \<rho>) e w) (\<lambda>(v, w). Inr (HNormal, \<rho>, w)))"
proof -
  obtain out loc c "is" where g: "gen_expr e tr = Inr (out, loc, tr\<lparr>counter := c\<rparr>)" "counter tr \<le> c"
    and code: "code_ok tr (tr\<lparr>counter := c\<rparr>) out (map stack_name is)"
    and run: "\<And>b \<rho> \<sigma> w n. dyn \<Delta> \<rho> \<sigma> \<Longrightarrow> ready b (stack_name ` set is) tr (tr\<lparr>counter := c\<rparr>) \<sigma> \<Longrightarrow>
       sim (ends (\<lambda>\<sigma>' v. holds \<sigma>' loc (erase t) v \<and> dyn \<Delta> \<rho> \<sigma>') (set is) \<sigma>) (heval H (map_of \<rho>) e w)
         (yseq C n (hoisted b out) \<sigma> w)"
    by (rule expr_in_ctx[OF wt plain ok(1) calls]) blast
  show ?thesis
  proof (rule loweredI)
    show "res_bind (gen_expr e tr) (\<lambda>(stmts, _, tr). Inr (stmts, tr)) = Inr (out, tr\<lparr>counter := c\<rparr>)"
      by (simp add: g(1))
    show "leads F rt rn G A ([] @ \<Delta>) tr (tr\<lparr>counter := c\<rparr>)"
      using leads_same[OF ok advances_counter[OF g(2)]] by simp
    show "executes C rn (erase rt) \<Delta> ([] @ \<Delta>) tr (tr\<lparr>counter := c\<rparr>) out (map stack_name is) True
        (\<lambda>n \<rho> w. res_bind (heval H (map_of \<rho>) e w) (\<lambda>(v, w). Inr (HNormal, \<rho>, w)))"
    proof (rule executesI[OF code])
      fix b \<rho> \<sigma> w n
      assume "dyn \<Delta> \<rho> \<sigma>" and "ready b (set (map stack_name is)) tr (tr\<lparr>counter := c\<rparr>) \<sigma>"
      then have r: "sim (ends (\<lambda>\<sigma>' v. holds \<sigma>' loc (erase t) v \<and> dyn \<Delta> \<rho> \<sigma>') (set is) \<sigma>) (heval H (map_of \<rho>) e w)
         (yseq C n (hoisted b out) \<sigma> w)" by (intro run) simp_all
      show "sim (fin rn (erase rt) \<Delta> ([] @ \<Delta>) (set (map stack_name is)) \<sigma>)
          (res_bind (heval H (map_of \<rho>) e w) (\<lambda>(v, w). Inr (HNormal, \<rho>, w))) (yseq C n (hoisted b out) \<sigma> w)"
        by (rule sim_bind_left[OF r]) (auto simp: changes_def elim!: endsE)
    qed
  qed simp
qed

text \<open>Assignments to a variable.\<close>

lemma lowered_assign:
  assumes wt: "G x = Some u" "wt_expr F G rhs t" "type_eq u t"
    and plain: "expr_plain rhs" "x \<in> A" "x \<notin> flow_vars (user_functions tr) rhs"
    and ok: "ctx_ok F G A \<Delta> tr" "result_ok rt rn \<Delta> tr" and calls: "calls_refine F (user_functions tr) H C"
  shows "lowered F rt rn C \<Delta> tr G A (hull_assign (Expr sp a (EVar x)) rhs tr) True
    (\<lambda>n \<rho> w. res_bind (heval H (map_of \<rho>) rhs w) (\<lambda>(v, w).
       case set_var x v \<rho> of Some \<rho> \<Rightarrow> Inr (HNormal, \<rho>, w) | None \<Rightarrow> Inl Stuck))"
proof -
  have o: "owns \<Delta> x" using ok(1) plain(2) wt(1) by (simp add: ctx_ok_def)
  obtain dst where dst: "map_of \<Delta> x = Some (Some u, dst)" "lookup_var_opt tr x = Some dst"
    and rf: "ref_free u" "conforms (erase u) dst"
    using ctx_lookup[OF ok(1) wt(1)] by blast
  obtain out loc c "is" k where g: "gen_expr rhs tr = Inr (out, loc, tr\<lparr>counter := c\<rparr>)" "counter tr \<le> c"
    and k: "if size_of_loc dst = 0 then k = [] else copy_locs dst loc = Inr k"
    and code: "code_ok tr (tr\<lparr>counter := c\<rparr>) (out @ k) (map stack_name is)"
    and run: "\<And>b \<rho> \<sigma> w n. dyn \<Delta> \<rho> \<sigma> \<Longrightarrow> ready b (stack_name ` set is) tr (tr\<lparr>counter := c\<rparr>) \<sigma> \<Longrightarrow>
       sim (\<lambda>(v, w1) (m, \<sigma>', w2). m = MNormal \<and> w2 = w1 \<and> dom \<sigma>' = dom \<sigma> \<union> stack_name ` set is
            \<and> holds \<sigma>' dst (erase u) v \<and> (\<exists>\<rho>'. set_var x v \<rho> = Some \<rho>' \<and> dyn \<Delta> \<rho>' \<sigma>'))
         (heval H (map_of \<rho>) rhs w) (yseq C n (hoisted b (out @ k)) \<sigma> w)"
    by (rule store_expr[OF wt(2) plain(1) ok(1) calls o dst(1) plain(3) rf(2,1) wt(3)]) blast
  show ?thesis
  proof (rule loweredI)
    show "hull_assign (Expr sp a (EVar x)) rhs tr = Inr (out @ k, tr\<lparr>counter := c\<rparr>)"
      using k by (simp add: hull_assign_def tr_lookup_var_def dst(2) g(1) split: if_splits)
    show "leads F rt rn G A ([] @ \<Delta>) tr (tr\<lparr>counter := c\<rparr>)"
      using leads_same[OF ok advances_counter[OF g(2)]] by simp
    show "executes C rn (erase rt) \<Delta> ([] @ \<Delta>) tr (tr\<lparr>counter := c\<rparr>) (out @ k) (map stack_name is) True
      (\<lambda>n \<rho> w. res_bind (heval H (map_of \<rho>) rhs w) (\<lambda>(v, w).
         case set_var x v \<rho> of Some \<rho> \<Rightarrow> Inr (HNormal, \<rho>, w) | None \<Rightarrow> Inl Stuck))"
    proof (rule executesI[OF code])
      fix b \<rho> \<sigma> w n
      assume "dyn \<Delta> \<rho> \<sigma>" and "ready b (set (map stack_name is)) tr (tr\<lparr>counter := c\<rparr>) \<sigma>"
      then show "sim (fin rn (erase rt) \<Delta> ([] @ \<Delta>) (set (map stack_name is)) \<sigma>)
          (res_bind (heval H (map_of \<rho>) rhs w) (\<lambda>(v, w).
             case set_var x v \<rho> of Some \<rho> \<Rightarrow> Inr (HNormal, \<rho>, w) | None \<Rightarrow> Inl Stuck))
          (yseq C n (hoisted b (out @ k)) \<sigma> w)"
        by (intro sim_bind_left[OF run]) auto
    qed
  qed simp
qed

text \<open>The result variables hold a value of the result type.\<close>

lemma result_words:
  assumes "is_place loc" and "holds \<sigma> loc s v"
  shows "enc s v (map \<sigma> (place_names loc))"
  using assms by (simp add: holds_def rd_place)

lemma result_cases:
  assumes "result_ok rt rn \<Delta> tr"
  obtains "shape_slots (erase rt) = 0" "rn = []"
  | loc where "map_of \<Delta> ''_result'' = Some (Some rt, loc)" "lookup_var_opt tr ''_result'' = Some loc"
    "owns \<Delta> ''_result''" "place_names loc = rn" "conforms (erase rt) loc" "is_place loc"
    "size_of_loc loc = shape_slots (erase rt)"
proof -
  have "rn = [] \<and> shape_slots (erase rt) = 0 \<or> (\<exists>loc. map_of \<Delta> ''_result'' = Some (Some rt, loc)
      \<and> lookup_var_opt tr ''_result'' = Some loc \<and> owns \<Delta> ''_result'' \<and> place_names loc = rn \<and> conforms (erase rt) loc)"
    using assms by (auto simp: result_ok_def)
  then show ?thesis
  proof (elim disjE conjE exE)
    fix loc
    assume l: "map_of \<Delta> ''_result'' = Some (Some rt, loc)" "lookup_var_opt tr ''_result'' = Some loc"
      "owns \<Delta> ''_result''" "place_names loc = rn" "conforms (erase rt) loc"
    from l(3,1) have "is_place loc" by (rule owns_lookup)
    with l conforms_size[OF l(5)] show ?thesis by (intro that(2)) simp_all
  qed (rule that(1))
qed

lemma lowered_return:
  assumes wt: "wt_expr F G e t" "type_eq rt t" and plain: "expr_plain e"
    and ok: "ctx_ok F G A \<Delta> tr" "result_ok rt rn \<Delta> tr" and calls: "calls_refine F (user_functions tr) H C"
  shows "lowered F rt rn C \<Delta> tr G A (gen_stmt (Stmt sp (SReturn e)) tr) True
    (\<lambda>n \<rho> w. res_bind (heval H (map_of \<rho>) e w) (\<lambda>(v, w). Inr (HReturn v, \<rho>, w)))"
proof -
  have rf: "ref_free rt" using ok(2) by (simp add: result_ok_def)
  obtain out c "is" k where g: "gen_stmt (Stmt sp (SReturn e)) tr = Inr ((out @ k) @ [YLeave], tr\<lparr>counter := c\<rparr>)"
      "counter tr \<le> c"
    and code: "code_ok tr (tr\<lparr>counter := c\<rparr>) (out @ k) (map stack_name is)"
    and run: "\<And>b \<rho> \<sigma> w n. dyn \<Delta> \<rho> \<sigma> \<Longrightarrow> ready b (stack_name ` set is) tr (tr\<lparr>counter := c\<rparr>) \<sigma> \<Longrightarrow>
       sim (\<lambda>(v, w1) (m, \<sigma>', w2). m = MNormal \<and> w2 = w1 \<and> dom \<sigma> \<subseteq> dom \<sigma>' \<and> enc (erase rt) v (map \<sigma>' rn))
         (heval H (map_of \<rho>) e w) (yseq C n (hoisted b (out @ k)) \<sigma> w)"
    using ok(2)
  proof (cases rule: result_cases)
    case 1
    obtain out loc c "is" where g: "ref_free t" "gen_expr e tr = Inr (out, loc, tr\<lparr>counter := c\<rparr>)"
      "conforms (erase t) loc" "counter tr \<le> c"
      and code: "code_ok tr (tr\<lparr>counter := c\<rparr>) out (map stack_name is)"
      and run: "\<And>b \<rho> \<sigma> w n. dyn \<Delta> \<rho> \<sigma> \<Longrightarrow> ready b (stack_name ` set is) tr (tr\<lparr>counter := c\<rparr>) \<sigma> \<Longrightarrow>
         sim (ends (\<lambda>\<sigma>' v. holds \<sigma>' loc (erase t) v \<and> dyn \<Delta> \<rho> \<sigma>') (set is) \<sigma>) (heval H (map_of \<rho>) e w)
           (yseq C n (hoisted b out) \<sigma> w)"
      by (rule expr_in_ctx[OF wt(1) plain ok(1) calls]) blast
    have e: "erase t = erase rt" by (rule type_eq_erases[OF wt(2) rf g(1)])
    then have z: "size_of_loc loc = 0" using conforms_size[OF g(3)] 1 by simp
    have rd: "rd \<sigma> loc = []" for \<sigma>
      using z by (metis length_0_conv rd_length)
    show ?thesis
    proof (rule that[of out "[]" c "is"])
      show "gen_stmt (Stmt sp (SReturn e)) tr = Inr ((out @ []) @ [YLeave], tr\<lparr>counter := c\<rparr>)"
        by (simp add: g(2) z)
      fix b \<rho> \<sigma> w n
      assume "dyn \<Delta> \<rho> \<sigma>" and "ready b (stack_name ` set is) tr (tr\<lparr>counter := c\<rparr>) \<sigma>"
      note r = run[OF this, of w n]
      show "sim (\<lambda>(v, w1) (m, \<sigma>', w2). m = MNormal \<and> w2 = w1 \<and> dom \<sigma> \<subseteq> dom \<sigma>' \<and> enc (erase rt) v (map \<sigma>' rn))
         (heval H (map_of \<rho>) e w) (yseq C n (hoisted b (out @ [])) \<sigma> w)"
        unfolding append_Nil2
        by (rule sim_mono[OF r], erule endsE, hypsubst) (simp add: holds_def rd e 1(2) changes_dom)
    qed (use code g(4) in simp_all)
  next
    case (2 dst)
    have nf: "''_result'' \<notin> flow_vars (user_functions tr) e"
      using wt_names(2)[OF wt(1)] flow_names ok(1) by (fastforce simp: ctx_ok_def)
    obtain out loc c "is" k where s: "gen_expr e tr = Inr (out, loc, tr\<lparr>counter := c\<rparr>)" "counter tr \<le> c"
        "size_of_loc loc = size_of_loc dst"
      and k: "if size_of_loc dst = 0 then k = [] else copy_locs dst loc = Inr k"
      and code: "code_ok tr (tr\<lparr>counter := c\<rparr>) (out @ k) (map stack_name is)"
      and run: "\<And>b \<rho> \<sigma> w n. dyn \<Delta> \<rho> \<sigma> \<Longrightarrow> ready b (stack_name ` set is) tr (tr\<lparr>counter := c\<rparr>) \<sigma> \<Longrightarrow>
         sim (\<lambda>(v, w1) (m, \<sigma>', w2). m = MNormal \<and> w2 = w1 \<and> dom \<sigma>' = dom \<sigma> \<union> stack_name ` set is
              \<and> holds \<sigma>' dst (erase rt) v \<and> (\<exists>\<rho>'. set_var ''_result'' v \<rho> = Some \<rho>' \<and> dyn \<Delta> \<rho>' \<sigma>'))
           (heval H (map_of \<rho>) e w) (yseq C n (hoisted b (out @ k)) \<sigma> w)"
      by (rule store_expr[OF wt(1) plain ok(1) calls 2(3,1) nf 2(5) rf wt(2)]) blast
    have lk: "lookup_var_opt (tr\<lparr>counter := c\<rparr>) ''_result'' = Some dst"
      using 2(2) by (simp add: lookup_var_opt_def)
    show ?thesis
    proof (rule that[OF _ s(2) code])
      show "gen_stmt (Stmt sp (SReturn e)) tr = Inr ((out @ k) @ [YLeave], tr\<lparr>counter := c\<rparr>)"
        using k s(3) by (simp add: s(1) tr_lookup_var_def lk split: if_splits)
      fix b \<rho> \<sigma> w n
      assume "dyn \<Delta> \<rho> \<sigma>" and "ready b (stack_name ` set is) tr (tr\<lparr>counter := c\<rparr>) \<sigma>"
      from run[OF this]
      show "sim (\<lambda>(v, w1) (m, \<sigma>', w2). m = MNormal \<and> w2 = w1 \<and> dom \<sigma> \<subseteq> dom \<sigma>' \<and> enc (erase rt) v (map \<sigma>' rn))
         (heval H (map_of \<rho>) e w) (yseq C n (hoisted b (out @ k)) \<sigma> w)"
        by (rule sim_mono) (use result_words[OF 2(6)] 2(4) in auto)
    qed
  qed
  show ?thesis
  proof (rule loweredI[OF g(1)])
    show "leads F rt rn G A ([] @ \<Delta>) tr (tr\<lparr>counter := c\<rparr>)"
      using leads_same[OF ok advances_counter[OF g(2)]] by simp
    show "executes C rn (erase rt) \<Delta> ([] @ \<Delta>) tr (tr\<lparr>counter := c\<rparr>) ((out @ k) @ [YLeave]) (map stack_name is) True
      (\<lambda>n \<rho> w. res_bind (heval H (map_of \<rho>) e w) (\<lambda>(v, w). Inr (HReturn v, \<rho>, w)))"
    proof (rule executesI)
      show "code_ok tr (tr\<lparr>counter := c\<rparr>) ((out @ k) @ [YLeave]) (map stack_name is)"
        using code by (simp add: code_ok_def)
      fix b \<rho> \<sigma> w n
      assume "dyn \<Delta> \<rho> \<sigma>" and "ready b (set (map stack_name is)) tr (tr\<lparr>counter := c\<rparr>) \<sigma>"
      then have r: "sim (\<lambda>(v, w1) (m, \<sigma>', w2). m = MNormal \<and> w2 = w1 \<and> dom \<sigma> \<subseteq> dom \<sigma>' \<and> enc (erase rt) v (map \<sigma>' rn))
         (heval H (map_of \<rho>) e w) (yseq C n (hoisted b (out @ k)) \<sigma> w)" by (intro run) simp_all
      have l: "hoisted b [YLeave] = [YLeave]" by (simp add: hoisted_def)
      show "sim (fin rn (erase rt) \<Delta> ([] @ \<Delta>) (set (map stack_name is)) \<sigma>)
          (res_bind (heval H (map_of \<rho>) e w) (\<lambda>(v, w). Inr (HReturn v, \<rho>, w)))
          (yseq C n (hoisted b ((out @ k) @ [YLeave])) \<sigma> w)"
        unfolding hoisted_append[of b "out @ k"] l yseq_append[of C n "hoisted b (out @ k)"]
        by (rule sim_bind[OF r]) auto
    qed
  qed simp
qed

section \<open>Declarations\<close>

lemma owns_Cons:
  assumes "owns \<Delta> y" and "y \<noteq> x" and "entry_vars (x, t, loc) \<inter> live_vars \<Delta> = {}"
  shows "owns ((x, t, loc) # \<Delta>) y"
proof -
  from assms(1) obtain pre u l post where o: "\<Delta> = pre @ (y, Some u, l) # post" "y \<notin> fst ` set pre" "is_place l"
    "distinct (place_names l)" "loc_vars l \<inter> live_vars (pre @ post) = {}" unfolding owns_def by blast
  have "loc_vars l \<inter> live_vars (((x, t, loc) # pre) @ post) = {}"
    using o(1,5) assms(3) by auto
  with o assms(2) show ?thesis
    unfolding owns_def by (intro exI[of _ "(x, t, loc) # pre"] exI[of _ u] exI[of _ l] exI[of _ post]) simp
qed

text \<open>A new innermost variable.\<close>

lemma ctx_ok_push:
  assumes ok: "ctx_ok F G A \<Delta> tr" and adv: "advances tr tr1" "tr_vars tr1 = tr_vars tr"
    and x: "ref_free t" "conforms (erase t) loc" "x \<noteq> ''_result''" "loc_vars loc \<subseteq> old tr1"
    and own: "\<And>y. y \<in> A' \<Longrightarrow> (G(x \<mapsto> t)) y \<noteq> None \<Longrightarrow> owns ((x, Some t, loc) # \<Delta>) y"
  shows "ctx_ok F (G(x \<mapsto> t)) A' ((x, Some t, loc) # \<Delta>) (tr_insert_var x loc tr1)"
proof -
  have ok1: "ctx_ok F G A \<Delta> tr1" by (rule ctx_ok_advances[OF ok adv])
  then have "tr_ok tr1" by (simp add: ctx_ok_def tr_ok_def)
  then have lk: "lookup_var_opt (tr_insert_var x loc tr1) = (lookup_var_opt tr1)(x \<mapsto> loc)"
    and tok: "tr_ok (tr_insert_var x loc tr1)"
    by (simp_all add: tr_scopes.look_declare tr_scopes.ok_declare)
  have u: "user_functions (tr_insert_var x loc tr1) = user_functions tr1" "old (tr_insert_var x loc tr1) = old tr1"
    by (simp_all add: tr_insert_var_def old_def split: option.split)
  show ?thesis
    using ok1 x own tok lk u
    by (auto simp: ctx_ok_def agrees_def vars_match_def visible_def tr_ok_def)
qed

lemma result_ok_push:
  assumes "result_ok rt rn \<Delta> tr" and "tr_ok tr" and "x \<noteq> ''_result''"
    and "owns \<Delta> ''_result'' \<Longrightarrow> owns ((x, t, loc) # \<Delta>) ''_result''"
  shows "result_ok rt rn ((x, t, loc) # \<Delta>) (tr_insert_var x loc tr)"
  using assms by (auto simp: result_ok_def tr_scopes.look_declare)

lemma insert_butlast: "tr_ok tr \<Longrightarrow> butlast (tr_vars (tr_insert_var x loc tr)) = butlast (tr_vars tr)"
  by (simp add: tr_scope_defs scope_simps)

lemma declared_place:
  assumes ok: "ctx_ok F G A \<Delta> tr" and d: "declares tr ns tr1" and x: "is_place loc" "place_names loc = ns"
  shows "loc_vars loc \<inter> live_vars \<Delta> = {}" "loc_vars loc \<subseteq> old tr1" "distinct (place_names loc)"
proof -
  have c: "\<And>y. y \<in> loc_vars loc \<Longrightarrow> consumed tr tr1 y" and dist: "distinct (place_names loc)"
    using d x(2) place_names_vars[OF x(1)] by (auto simp: declares_def)
  show "loc_vars loc \<inter> live_vars \<Delta> = {}" using c consumed_old ok by (fastforce simp: ctx_ok_def)
  show "loc_vars loc \<subseteq> old tr1" using c by (auto simp: consumed_def old_def)
  show "distinct (place_names loc)" by (rule dist)
qed

lemma ctx_ok_declare:
  assumes ok: "ctx_ok F G A \<Delta> tr" and d: "declares tr ns tr1" "tr_vars tr1 = tr_vars tr"
    and x: "ref_free t" "conforms (erase t) loc" "x \<noteq> ''_result''" "is_place loc" "place_names loc = ns"
  shows "ctx_ok F (G(x \<mapsto> t)) (insert x A) ((x, Some t, loc) # \<Delta>) (tr_insert_var x loc tr1)"
proof -
  have adv: "advances tr tr1" using d(1) by (simp add: declares_def)
  note p = declared_place[OF ok d(1) x(4,5)]
  have own: "owns ((x, Some t, loc) # \<Delta>) x"
    unfolding owns_def using x(4) p(1,3)
    by (intro exI[of _ "[]"] exI[of _ t] exI[of _ loc] exI[of _ \<Delta>]) simp
  show ?thesis
  proof (rule ctx_ok_push[OF ok adv d(2) x(1-3) p(2)])
    fix y
    assume "y \<in> insert x A" and "(G(x \<mapsto> t)) y \<noteq> None"
    then show "owns ((x, Some t, loc) # \<Delta>) y"
      using own owns_Cons[of \<Delta> y x "Some t" loc] p(1) ok by (cases "y = x") (auto simp: ctx_ok_def)
  qed
qed

lemma leads_declare:
  assumes ok: "ctx_ok F G A \<Delta> tr" "result_ok rt rn \<Delta> tr" and d: "declares tr ns tr1" "tr_vars tr1 = tr_vars tr"
    and x: "ref_free t" "conforms (erase t) loc" "x \<noteq> ''_result''" "is_place loc" "place_names loc = ns"
  shows "leads F rt rn (G(x \<mapsto> t)) (insert x A) ([(x, Some t, loc)] @ \<Delta>) tr (tr_insert_var x loc tr1)"
proof -
  have tok: "tr_ok tr1" using ok(1) d(2) by (simp add: ctx_ok_def tr_ok_def)
  have "result_ok rt rn ((x, Some t, loc) # \<Delta>) (tr_insert_var x loc tr1)"
    by (rule result_ok_push[OF result_ok_advances[OF ok(2) d(2)] tok x(3)])
       (rule owns_Cons, use declared_place[OF ok(1) d(1) x(4,5)] x(3) in simp_all)
  with ctx_ok_declare[OF ok(1) d x] insert_butlast[OF tok] d(2) show ?thesis by (simp add: leads_def)
qed

text \<open>Allocations by name.\<close>

definition cleared :: "name set \<Rightarrow> store \<Rightarrow> store" where
  "cleared N \<sigma> = (\<lambda>x. if x \<in> N then Some 0 else \<sigma> x)"

lemma yseq_name_lets:
  "distinct ns \<Longrightarrow> set ns \<inter> dom \<sigma> = {} \<Longrightarrow> yseq C n (name_lets ns) \<sigma> w = Inr (MNormal, cleared (set ns) \<sigma>, w)"
proof (induction ns arbitrary: \<sigma>)
  case Nil
  then show ?case by (simp add: name_lets_def cleared_def)
next
  case (Cons x ns)
  have "set ns \<inter> insert x (dom \<sigma>) = {}" using Cons.prems by auto
  then have "set ns \<inter> dom (\<sigma>(x \<mapsto> 0)) = {}" by (simp only: dom_fun_upd option.distinct if_False)
  moreover have "distinct ns" using Cons.prems(1) by simp
  ultimately have "yseq C n (name_lets ns) (\<sigma>(x \<mapsto> 0)) w = Inr (MNormal, cleared (set ns) (\<sigma>(x \<mapsto> 0)), w)"
    by (intro Cons.IH)
  moreover have "cleared (set ns) (\<sigma>(x \<mapsto> 0)) = cleared (set (x # ns)) \<sigma>"
    by (auto simp: cleared_def fun_eq_iff)
  moreover have "\<sigma> x = None" using Cons.prems(2) by auto
  ultimately show ?case by (simp add: name_lets_def declare_vars_def)
qed

lemma dom_cleared: "dom (cleared N \<sigma>) = dom \<sigma> \<union> N"
  by (auto simp: cleared_def)

lemma cleared_default:
  assumes "is_place loc" and "conforms s loc" and "first_order s"
  shows "holds (cleared (loc_vars loc) \<sigma>) loc s (default_value s)"
proof -
  let ?\<sigma> = "cleared (loc_vars loc) \<sigma>"
  have "length (place_names loc) = shape_slots s"
    using rd_place[OF assms(1), of \<sigma>] rd_length[of \<sigma> loc] conforms_size[OF assms(2)] by (metis length_map)
  moreover have "rd ?\<sigma> loc = map (\<lambda>x. Some 0) (place_names loc)"
    unfolding rd_place[OF assms(1)] using place_names_vars[OF assms(1)] by (auto simp: cleared_def)
  ultimately have "rd ?\<sigma> loc = replicate (shape_slots s) (Some 0)" by (simp add: map_replicate_const)
  moreover have "readable ?\<sigma> loc" by (rule place_readable[OF assms(1)]) (simp add: dom_cleared)
  ultimately show ?thesis using enc_default[OF assms(3)] assms(2) by (simp add: holds_def)
qed

lemma lowered_declare:
  assumes ok: "ctx_ok F G A \<Delta> tr" "result_ok rt rn \<Delta> tr" and d: "declares tr ns tr1" "tr_vars tr1 = tr_vars tr"
    and x: "ref_free t" "conforms (erase t) loc" "x \<noteq> ''_result''" "is_place loc" "place_names loc = ns"
    and fo: "first_order (erase t)"
  shows "lowered F rt rn C \<Delta> tr (G(x \<mapsto> t)) (insert x A) (Inr (name_lets ns, tr_insert_var x loc tr1)) False
    (\<lambda>n \<rho> w. Inr (HNormal, (x, default_value (erase t)) # \<rho>, w))"
proof (rule loweredI[OF refl leads_declare[OF ok d x]])
  let ?tr = "tr_insert_var x loc tr1"
  show "executes C rn (erase rt) \<Delta> ([(x, Some t, loc)] @ \<Delta>) tr ?tr (name_lets ns) ns False
      (\<lambda>n \<rho> w. Inr (HNormal, (x, default_value (erase t)) # \<rho>, w))"
  proof (rule executesI)
    show "code_ok tr ?tr (name_lets ns) ns"
      using d(1) by (simp add: code_ok_def declares_insert name_lets_def filter_map comp_def)
    fix b \<rho> \<sigma> w n
    assume dyn: "dyn \<Delta> \<rho> \<sigma>" and r: "ready b (set ns) tr ?tr \<sigma>" and "b \<Longrightarrow> False"
    then have b: "\<not> b" by blast
    have ns: "set ns = loc_vars loc" using place_names_vars[OF x(4)] x(5) by blast
    have c: "\<And>y. y \<in> set ns \<Longrightarrow> consumed tr ?tr y" "distinct ns"
      using d(1) declares_insert(2)[of tr ns x loc tr1] by (simp_all add: declares_def)
    then have "set ns \<inter> dom \<sigma> = {}" using r b by (auto simp: ready_def)
    note y = yseq_name_lets[OF c(2) this, of C n w]
    have "dyn \<Delta> \<rho> (cleared (set ns) \<sigma>)"
    proof -
      have "cleared (set ns) \<sigma> z = \<sigma> z" if "z \<in> live_vars \<Delta>" for z
        using that c(1) consumed_old ok(1) by (fastforce simp: ctx_ok_def cleared_def)
      from dyn_cong[of \<Delta> "cleared (set ns) \<sigma>" \<sigma> \<rho>, OF this] dyn show ?thesis by blast
    qed
    then show "sim (fin rn (erase rt) \<Delta> ([(x, Some t, loc)] @ \<Delta>) (set ns) \<sigma>)
        (Inr (HNormal, (x, default_value (erase t)) # \<rho>, w)) (yseq C n (hoisted b (name_lets ns)) \<sigma> w)"
      using cleared_default[OF x(4,2) fo, of \<sigma>] y b
      by (simp add: hoisted_def dom_cleared ns)
  qed
qed simp

lemma lowered_let:
  assumes ok: "ctx_ok F G A \<Delta> tr" "result_ok rt rn \<Delta> tr" and t: "ref_free t" "first_order (erase t)" and x: "x \<noteq> ''_result''"
  shows "lowered F rt rn C \<Delta> tr (G(x \<mapsto> t)) (insert x A) (alloc_var x t tr) False
    (\<lambda>n \<rho> w. Inr (HNormal, (x, default_value (erase t)) # \<rho>, w))"
proof (cases "tr_is_word_type t")
  case True
  then have e: "erase t = ShWord" by (simp add: tr_is_word_type_def erase_kind)
  obtain y tr1 where f: "fresh_source_name x tr = (y, tr1)" by (metis surj_pair)
  then have d: "declares tr [y] tr1"
    unfolding fresh_source_name_def by (rule fresh_yul_name_declares[rotated]) simp
  have v: "tr_vars tr1 = tr_vars tr"
    using f unfolding fresh_source_name_def by (auto elim: fresh_yul_name_props)
  have "conforms (erase t) (LNamed y)" "is_place (LNamed y)" "place_names (LNamed y) = [y]"
    by (simp_all add: e yul_var_name_def)
  from lowered_declare[OF ok d v t(1) this(1) x this(2,3) t(2)] True f show ?thesis
    by (simp add: alloc_var_def name_lets_def)
next
  case False
  let ?c = "counter tr + shape_slots (erase t)"
  obtain loc where a: "hull_alloc t tr = Inr (slot_lets [counter tr..<?c], loc, tr\<lparr>counter := ?c\<rparr>)"
    "conforms (erase t) loc" "is_place loc" "flatten_lhs loc = Inr (map stack_name [counter tr..<?c])"
    using hull_alloc_slots[of ?c, OF refl] by blast
  let ?ns = "map stack_name [counter tr..<?c]"
  have d: "declares tr ?ns (tr\<lparr>counter := ?c\<rparr>)"
    by (auto simp: declares_def distinct_stack_names advances_counter consumed_slot)
  have "place_names loc = ?ns" using a(4) by (simp add: place_names_def)
  from lowered_declare[OF ok d _ t(1) a(2) x a(3) this t(2)] False a(1) show ?thesis
    by (simp add: alloc_var_def slot_name_lets)
qed

section \<open>Sequences and blocks\<close>

lemma lowered_seq:
  assumes 1: "lowered F rt rn C \<Delta> tr G1 A1 r1 h1 ev1"
    and 2: "\<And>out tr1 X. r1 = Inr (out, tr1) \<Longrightarrow> advances tr tr1 \<Longrightarrow> leads F rt rn G1 A1 (X @ \<Delta>) tr tr1 \<Longrightarrow>
        lowered F rt rn C (X @ \<Delta>) tr1 G2 A2 (r2 tr1) h2 ev2"
  shows "lowered F rt rn C \<Delta> tr G2 A2
    (res_bind r1 (\<lambda>(out, tr). res_bind (r2 tr) (\<lambda>(outs, tr). Inr (out @ outs, tr)))) (h1 \<and> h2)
    (\<lambda>n \<rho> w. res_bind (ev1 n \<rho> w) (\<lambda>(m, \<rho>, w). if m = HNormal then ev2 n \<rho> w else Inr (m, \<rho>, w)))"
proof -
  obtain out tr1 ns1 X where r1: "r1 = Inr (out, tr1)" and l1: "leads F rt rn G1 A1 (X @ \<Delta>) tr tr1"
    and e1: "executes C rn (erase rt) \<Delta> (X @ \<Delta>) tr tr1 out ns1 h1 ev1" and x1: "h1 \<longrightarrow> X = []"
    using 1 by (rule loweredE)
  note adv = code_ok_facts(1)[OF executes_static[OF e1]]
  from 2[OF r1 adv l1] obtain outs tr2 ns2 Y where r2: "r2 tr1 = Inr (outs, tr2)"
    and l2: "leads F rt rn G2 A2 (Y @ X @ \<Delta>) tr1 tr2"
    and e2: "executes C rn (erase rt) (X @ \<Delta>) (Y @ X @ \<Delta>) tr1 tr2 outs ns2 h2 ev2"
    and x2: "h2 \<longrightarrow> Y = []" by (rule loweredE)
  show ?thesis
  proof (rule loweredI)
    show "res_bind r1 (\<lambda>(out, tr). res_bind (r2 tr) (\<lambda>(outs, tr). Inr (out @ outs, tr))) = Inr (out @ outs, tr2)"
      by (simp add: r1 r2)
    show "leads F rt rn G2 A2 ((Y @ X) @ \<Delta>) tr tr2" using l1 l2 by (simp add: leads_def)
    show "executes C rn (erase rt) \<Delta> ((Y @ X) @ \<Delta>) tr tr2 (out @ outs) (ns1 @ ns2) (h1 \<and> h2)
      (\<lambda>n \<rho> w. res_bind (ev1 n \<rho> w) (\<lambda>(m, \<rho>, w). if m = HNormal then ev2 n \<rho> w else Inr (m, \<rho>, w)))"
      using executes_seq[OF e1 e2] by simp
  qed (simp add: x1 x2)
qed

text \<open>Entering and leaving the scope of a block.\<close>

lemma enter_vars: "push_env tr = tr\<lparr>tr_vars := tr_vars tr @ [Map.empty]\<rparr>"
  by (simp add: push_env_def vec_push_def)

lemma ctx_ok_enter:
  assumes "ctx_ok F G A \<Delta> tr"
  shows "ctx_ok F G A \<Delta> (push_env tr)"
proof -
  have "lookup_var_opt (push_env tr) = lookup_var_opt tr"
    using assms by (simp add: ctx_ok_def tr_ok_def tr_scopes.look_enter)
  with assms show ?thesis
    by (simp add: ctx_ok_def agrees_def vars_match_def visible_def) (simp add: push_env_def vec_push_def old_def)
qed

lemma result_ok_enter: "result_ok rt rn \<Delta> tr \<Longrightarrow> tr_ok tr \<Longrightarrow> result_ok rt rn \<Delta> (push_env tr)"
  by (simp add: result_ok_def tr_scopes.look_enter)

lemma advances_scopes [simp]:
  "advances (push_env tr) tr' = advances tr tr'" "consumed (push_env tr) tr' = consumed tr tr'"
  "ready b N (push_env tr) tr' \<sigma> = ready b N tr tr' \<sigma>"
  by (simp_all add: enter_vars advances_def consumed_def ready_def fun_eq_iff)

lemma advances_pop [simp]:
  "advances tr (pop_env tr') = advances tr tr'" "consumed tr (pop_env tr') = consumed tr tr'"
  "ready b N tr (pop_env tr') \<sigma> = ready b N tr tr' \<sigma>"
  by (simp_all add: pop_env_def advances_def consumed_def ready_def fun_eq_iff split: option.split)

lemma pop_restores:
  assumes "butlast (tr_vars tr') = tr_vars tr" and "tr_vars tr' \<noteq> []"
  shows "tr_vars (pop_env tr') = tr_vars tr"
  using assms by (simp add: pop_env_def vec_pop_def)

lemma leads_leave:
  assumes ok: "ctx_ok F G A \<Delta> tr" "result_ok rt rn \<Delta> tr" and l: "leads F rt rn G' A' \<Delta>' (push_env tr) tr'"
    and adv: "advances tr tr'"
  shows "leads F rt rn G A \<Delta> tr (pop_env tr')" and "tr_vars (pop_env tr') = tr_vars tr"
proof -
  show v: "tr_vars (pop_env tr') = tr_vars tr"
    by (rule pop_restores) (use l in \<open>auto simp: leads_def ctx_ok_def enter_vars\<close>)
  show "leads F rt rn G A \<Delta> tr (pop_env tr')"
    by (rule leads_same[OF ok _ v]) (simp add: adv)
qed

lemma lowered_block:
  assumes ok: "ctx_ok F G A \<Delta> tr" "result_ok rt rn \<Delta> tr"
    and body: "lowered F rt rn C \<Delta> (push_env tr) G' A' r h ev"
  shows "lowered F rt rn C \<Delta> tr G A (res_bind r (\<lambda>(body, tr). Inr ([YBlock body], pop_env tr))) True
    (\<lambda>n \<rho> w. res_bind (ev n \<rho> w) (\<lambda>(m, \<rho>', w). Inr (m, outer (length \<rho>) \<rho>', w)))"
proof -
  obtain out tr' ns X where r: "r = Inr (out, tr')" and l: "leads F rt rn G' A' (X @ \<Delta>) (push_env tr) tr'"
    and e: "executes C rn (erase rt) \<Delta> (X @ \<Delta>) (push_env tr) tr' out ns h ev" using body by (rule loweredE)
  have adv: "advances tr tr'" using code_ok_facts(1)[OF executes_static[OF e]] by simp
  show ?thesis
  proof (rule loweredI)
    show "res_bind r (\<lambda>(body, tr). Inr ([YBlock body], pop_env tr)) = Inr ([YBlock out], pop_env tr')" by (simp add: r)
    show "leads F rt rn G A ([] @ \<Delta>) tr (pop_env tr')" using leads_leave(1)[OF ok l adv] by simp
    show "executes C rn (erase rt) \<Delta> ([] @ \<Delta>) tr (pop_env tr') [YBlock out] [] True
      (\<lambda>n \<rho> w. res_bind (ev n \<rho> w) (\<lambda>(m, \<rho>', w). Inr (m, outer (length \<rho>) \<rho>', w)))"
    proof (rule executesI)
      show "code_ok tr (pop_env tr') [YBlock out] []" by (rule code_ok_plain) (simp_all add: adv)
      fix b \<rho> \<sigma> w n
      assume d: "dyn \<Delta> \<rho> \<sigma>" "set rn \<subseteq> dom \<sigma>" and "ready b (set []) tr (pop_env tr') \<sigma>"
      then have "ready b {} (push_env tr) tr' \<sigma>" by simp
      from block_sim[of C rn "erase rt" "[]" \<Delta> X, unfolded append_Nil, OF e d this, of n w]
      show "sim (fin rn (erase rt) \<Delta> ([] @ \<Delta>) (set []) \<sigma>)
          (res_bind (ev n \<rho> w) (\<lambda>(m, \<rho>', w). Inr (m, outer (length \<rho>) \<rho>', w))) (yseq C n (hoisted b [YBlock out]) \<sigma> w)"
        by (simp add: hoisted_def yseq_single dyn_length[OF d(1)] del: yseq.simps(2) yblock.simps)
    qed
  qed simp
qed

end
