(* ===== verification/Lower_Loops.thy ===== *)
theory Lower_Loops
  imports Lower_Stmts
begin

text \<open>
  Lowering preserves the meaning of \<open>for\<close> loops. The generated loop declares in its first block
  what the code of the condition and of the third clause allocates, evaluates the condition there
  for the first time, and evaluates it again at the end of its post block. The proof is by
  induction on the fuel, which the loops of both languages consume alike.
\<close>

section \<open>Leaving scopes\<close>

fun ymode :: "hmode \<Rightarrow> mode" where
  "ymode HNormal = MNormal"
| "ymode HBreak = MBreak"
| "ymode HContinue = MContinue"
| "ymode (HReturn v) = MLeave"

lemma ymode_normal [simp]: "ymode hm = MNormal \<longleftrightarrow> hm = HNormal"
  by (cases hm) simp_all

text \<open>The end of some statements inside a scope that began in the store \<open>\<sigma>\<close>, and the end of the scope.\<close>

definition ended :: "name list \<Rightarrow> shape \<Rightarrow> ctx \<Rightarrow> store \<Rightarrow> hmode \<Rightarrow> henv \<Rightarrow> mode \<Rightarrow> store \<Rightarrow> bool" where
  "ended rn s \<Delta> \<sigma> hm \<rho> m \<sigma>' \<longleftrightarrow> m = ymode hm \<and> dom \<sigma> \<subseteq> dom \<sigma>'
     \<and> (case hm of HReturn v \<Rightarrow> enc s v (map \<sigma>' rn) | _ \<Rightarrow> inner \<Delta> \<rho> \<sigma>')"

definition closed :: "name list \<Rightarrow> shape \<Rightarrow> ctx \<Rightarrow> store \<Rightarrow> hmode \<Rightarrow> henv \<Rightarrow> mode \<Rightarrow> store \<Rightarrow> bool" where
  "closed rn s \<Delta> \<sigma> hm \<rho> m \<sigma>' \<longleftrightarrow> m = ymode hm \<and> dom \<sigma>' = dom \<sigma>
     \<and> (case hm of HReturn v \<Rightarrow> enc s v (map \<sigma>' rn) | _ \<Rightarrow> dyn \<Delta> \<rho> \<sigma>')"

lemma finishes_ended: "finishes rn s (X @ \<Delta>) (Y @ \<Delta>) N \<sigma> hm \<rho> m \<sigma>' \<Longrightarrow> ended rn s \<Delta> \<sigma> hm \<rho> m \<sigma>'"
  by (cases hm) (auto simp: ended_def dest: inner_outer inner_dyn)

lemma closed_ended: "closed rn s (X @ \<Delta>) \<sigma>1 hm \<rho> m \<sigma>' \<Longrightarrow> dom \<sigma> \<subseteq> dom \<sigma>1 \<Longrightarrow> ended rn s \<Delta> \<sigma> hm \<rho> m \<sigma>'"
  by (cases hm) (auto simp: ended_def closed_def dest: inner_dyn)

lemma closed_finishes: "closed rn s \<Delta> \<sigma> hm \<rho> m \<sigma>' \<Longrightarrow> finishes rn s \<Delta> \<Delta> {} \<sigma> hm \<rho> m \<sigma>'"
  by (cases hm) (auto simp: closed_def dest: inner_dyn[of "[]", simplified])

lemma ended_close:
  assumes e: "ended rn s \<Delta> \<sigma> hm \<rho> m \<sigma>'" and l: "live_vars \<Delta> \<subseteq> dom \<sigma>" "set rn \<subseteq> dom \<sigma>"
  shows "closed rn s \<Delta> \<sigma> hm (outer (length \<Delta>) \<rho>) m (\<sigma>' |` dom \<sigma>)"
proof -
  have 1: "dyn \<Delta> (outer (length \<Delta>) \<rho>) (\<sigma>' |` dom \<sigma>)" if "inner \<Delta> \<rho> \<sigma>'"
    using that dyn_restrict[OF _ l(1)] by (simp add: inner_def)
  have 2: "map (\<sigma>' |` dom \<sigma>) rn = map \<sigma>' rn" using l(2) by (auto simp: restrict_map_def)
  have 3: "dom (\<sigma>' |` dom \<sigma>) = dom \<sigma>" using e by (auto simp: ended_def)
  show ?thesis using e unfolding ended_def closed_def 2 3 by (auto simp: 1 split: hmode.splits)
qed

text \<open>A block, from a context that may have variables of its own.\<close>

lemma block_closes:
  assumes e: "executes C rn s (X @ \<Delta>) (Y @ \<Delta>) tr tr' out ns h ev"
    and d: "dyn (X @ \<Delta>) \<rho> \<sigma>" "set rn \<subseteq> dom \<sigma>" and r: "ready b {} tr tr' \<sigma>"
  shows "sim (\<lambda>(hm, \<rho>, w1) (m, \<sigma>', w2). w2 = w1 \<and> closed rn s \<Delta> \<sigma> hm \<rho> m \<sigma>')
    (res_bind (ev n \<rho> w) (\<lambda>(m, \<rho>', w). Inr (m, outer (length \<Delta>) \<rho>', w))) (yblock C n out \<sigma> w)"
proof -
  have "ready False (set ns) tr tr' \<sigma>" using r by (auto simp: ready_def)
  from executes_sim[OF e d this, of n w]
  have s: "sim (fin rn s (X @ \<Delta>) (Y @ \<Delta>) (set ns) \<sigma>) (ev n \<rho> w) (yseq C n out \<sigma> w)"
    by (simp add: hoisted_def)
  have "live_vars \<Delta> \<subseteq> dom \<sigma>" using dyn_declared[OF d(1)] by simp
  note c = ended_close[OF finishes_ended this d(2)]
  show ?thesis unfolding yblock.simps
    by (rule sim_bind[OF s], erule finE) (auto dest: c)
qed

section \<open>The loop\<close>

lemma restrict_dom: "dom \<sigma> = D \<Longrightarrow> (\<sigma> :: store) |` D = \<sigma>"
  by (auto simp: restrict_map_def fun_eq_iff domIff)

lemma loop_sim:
  assumes body: "executes C rn s \<Delta> (X @ \<Delta>) tr3 tr4 body_out ns4 h4 (\<lambda>n. hstmts H R n body)"
    and post: "executes C rn s \<Delta> \<Delta> tr2 tr3 post_out ns3 True (\<lambda>n. hstmts H R n post)"
    and cond: "\<And>\<rho> \<sigma> w n. dyn \<Delta> \<rho> \<sigma> \<Longrightarrow> ready True (stack_name ` set is) tr1 tr2 \<sigma> \<Longrightarrow>
      sim (ends (\<lambda>\<sigma>' v. holds \<sigma>' loc (erase t) v \<and> dyn \<Delta> \<rho> \<sigma>') (set is) \<sigma>) (heval H (map_of \<rho>) c w)
        (yseq C n (hoisted True cond_out) \<sigma> w)"
    and t: "is_bool_like t" "load_loc (normalize_loc loc) = Inr e"
    and D: "set rn \<subseteq> D" "stack_name ` set is \<subseteq> D" "set ns3 \<subseteq> D"
      "\<And>\<sigma>. dom \<sigma> = D \<Longrightarrow> ready True (stack_name ` set is) tr1 tr2 \<sigma>"
      "\<And>\<sigma>. dom \<sigma> = D \<Longrightarrow> ready True (set ns3) tr2 tr3 \<sigma>"
      "\<And>\<sigma>. dom \<sigma> = D \<Longrightarrow> ready True {} tr3 tr4 \<sigma>"
  shows "dyn \<Delta> \<rho> \<sigma> \<Longrightarrow> dom \<sigma> = D \<Longrightarrow> holds \<sigma> loc (erase t) v \<Longrightarrow> truth v = Some b \<Longrightarrow>
    sim (\<lambda>(hm, \<rho>, w1) (m, \<sigma>', w2). w2 = w1 \<and> closed rn s \<Delta> \<sigma> hm \<rho> m \<sigma>') (hloop H R n c post body b \<rho> w)
      (yloop C n e (hoisted True post_out @ hoisted True cond_out) body_out \<sigma> w)"
proof (induction n arbitrary: \<rho> \<sigma> v b w)
  case (Suc n)
  let ?Q = "\<lambda>\<sigma> (hm, \<rho>, w1) (m, \<sigma>', w2). w2 = w1 \<and> closed rn s \<Delta> \<sigma> hm \<rho> m \<sigma>'"
  let ?post = "hoisted True post_out @ hoisted True cond_out"
  note d = Suc.prems(1) and dom = Suc.prems(2)
  have ce: "yeval1 C \<sigma> e w = Inr (of_bool b, w)"
    using condition_word[OF t(1) Suc.prems(3) t(2), of C w] Suc.prems(4) by auto
  text \<open>The third clause, the condition and the remaining iterations.\<close>
  have rest: "sim (?Q \<sigma>)
      (res_bind (hblock H R n (length \<rho>1) post \<rho>1 w1) (\<lambda>(m, \<rho>, w). if m = HNormal
         then res_bind (heval H (map_of \<rho>) c w) (\<lambda>(v, w).
           case truth v of Some b \<Rightarrow> hloop H R n c post body b \<rho> w | None \<Rightarrow> Inl Stuck)
         else Inr (m, \<rho>, w)))
      (res_bind (yblock C n ?post \<sigma>1 w1) (\<lambda>(m, \<sigma>, w).
         if m = MNormal then yloop C n e ?post body_out \<sigma> w else Inr (m, \<sigma>, w)))"
    if d1: "dyn \<Delta> \<rho>1 \<sigma>1" and dom1: "dom \<sigma>1 = D" for \<rho>1 \<sigma>1 w1
  proof -
    have rn: "set rn \<subseteq> dom \<sigma>1" using D(1) dom1 by simp
    from executes_sim[OF post d1 rn D(5)[OF dom1], of n w1]
    have p: "sim (fin rn s \<Delta> \<Delta> (set ns3) \<sigma>1) (hstmts H R n post \<rho>1 w1) (yseq C n (hoisted True post_out) \<sigma>1 w1)"
      by simp
    show ?thesis
      unfolding hblock.simps yblock.simps yseq_append res_bind_assoc
    proof (rule sim_bind[OF p], erule finE, hypsubst, simp only: prod.case res_bind_simps)
      fix hm \<rho>2 w2 m \<sigma>2
      assume f: "finishes rn s \<Delta> \<Delta> (set ns3) \<sigma>1 hm \<rho>2 m \<sigma>2"
      show "sim (?Q \<sigma>)
          (if hm = HNormal
           then res_bind (heval H (map_of (outer (length \<rho>1) \<rho>2)) c w2) (\<lambda>(v, w).
              case truth v of Some b \<Rightarrow> hloop H R n c post body b (outer (length \<rho>1) \<rho>2) w | None \<Rightarrow> Inl Stuck)
           else Inr (hm, outer (length \<rho>1) \<rho>2, w2))
          (res_bind (if m = MNormal then yseq C n (hoisted True cond_out) \<sigma>2 w2 else Inr (m, \<sigma>2, w2))
            (\<lambda>x. res_bind (case x of (m, \<sigma>', w) \<Rightarrow> Inr (m, \<sigma>' |` dom \<sigma>1, w))
              (\<lambda>(m, \<sigma>, w). if m = MNormal then yloop C n e ?post body_out \<sigma> w else Inr (m, \<sigma>, w))))"
      proof (cases "hm = HNormal")
        case True
        with f have n: "m = MNormal" "dyn \<Delta> \<rho>2 \<sigma>2" "dom \<sigma>2 = D" using dom1 D(3) by auto
        have o: "outer (length \<rho>1) \<rho>2 = \<rho>2" using dyn_length[OF n(2)] dyn_length[OF d1] by (simp add: outer_def)
        show ?thesis unfolding True n(1) o simp_thms if_True
        proof (rule sim_bind[OF cond[OF n(2) D(4)[OF n(3)]]], erule endsE, hypsubst, simp only: prod.case res_bind_simps if_True simp_thms)
          fix v w3 \<sigma>3
          assume ch: "changes (set is) \<sigma>2 \<sigma>3" and h: "holds \<sigma>3 loc (erase t) v \<and> dyn \<Delta> \<rho>2 \<sigma>3"
          have dom3: "dom \<sigma>3 = D" using ch n(3) D(2) by (auto simp: changes_def)
          have r: "\<sigma>3 |` dom \<sigma>1 = \<sigma>3" by (rule restrict_dom) (simp add: dom1 dom3)
          obtain b' where b': "truth v = Some b'"
            using condition_word[OF t(1) _ t(2), of \<sigma>3 v C w3] h by auto
          have "closed rn s \<Delta> \<sigma>3 = closed rn s \<Delta> \<sigma>" using dom3 dom by (simp add: closed_def fun_eq_iff)
          with Suc.IH[OF _ dom3 _ b', of \<rho>2 w3] h b'
          show "sim (?Q \<sigma>) (case truth v of Some b \<Rightarrow> hloop H R n c post body b \<rho>2 w3 | None \<Rightarrow> Inl Stuck)
            (yloop C n e ?post body_out (\<sigma>3 |` dom \<sigma>1) w3)"
            unfolding r by simp
        qed
      next
        case False
        have m: "m \<noteq> MNormal" using finishes_normal[OF f] False by simp
        have "closed rn s \<Delta> \<sigma>1 hm (outer (length \<Delta>) \<rho>2) m (\<sigma>2 |` dom \<sigma>1)"
          by (rule ended_close[OF finishes_ended[of rn s "[]" \<Delta> "[]", unfolded append_Nil, OF f] dyn_declared[OF d1] rn])
        then have "closed rn s \<Delta> \<sigma> hm (outer (length \<rho>1) \<rho>2) m (\<sigma>2 |` dom \<sigma>1)"
          using dom dom1 dyn_length[OF d1] by (simp add: closed_def)
        with False m show ?thesis by simp
      qed
    qed
  qed
  show ?case
  proof (cases b)
    case False
    with ce d show ?thesis by (simp add: closed_def)
  next
    case True
    have rn: "set rn \<subseteq> dom \<sigma>" using D(1) dom by simp
    note blk = block_closes[of C rn s "[]" \<Delta> X, unfolded append_Nil, OF body d rn D(6)[OF dom], of n w]
    have bd: "sim (?Q \<sigma>) (hblock H R n (length \<rho>) body \<rho> w) (yblock C n body_out \<sigma> w)"
      unfolding hblock.simps dyn_length[OF d] by (rule blk)
    have y: "yloop C (Suc n) e ?post body_out \<sigma> w = res_bind (yblock C n body_out \<sigma> w) (\<lambda>(m, \<sigma>, w).
          if m = MBreak then Inr (MNormal, \<sigma>, w)
          else if m = MLeave then Inr (MLeave, \<sigma>, w)
          else res_bind (yblock C n ?post \<sigma> w) (\<lambda>(m, \<sigma>, w).
               if m = MNormal then yloop C n e ?post body_out \<sigma> w else Inr (m, \<sigma>, w)))"
      by (simp add: ce True del: yblock.simps)
    have h: "hloop H R (Suc n) c post body b \<rho> w = res_bind (hblock H R n (length \<rho>) body \<rho> w) (\<lambda>(m, \<rho>, w).
           case m of
             HBreak \<Rightarrow> Inr (HNormal, \<rho>, w)
           | HReturn v \<Rightarrow> Inr (HReturn v, \<rho>, w)
           | _ \<Rightarrow>
               res_bind (hblock H R n (length \<rho>) post \<rho> w) (\<lambda>(m, \<rho>, w).
               if m = HNormal
               then res_bind (heval H (map_of \<rho>) c w) (\<lambda>(v, w).
                    case truth v of
                      Some b \<Rightarrow> hloop H R n c post body b \<rho> w
                    | None \<Rightarrow> Inl Stuck)
               else Inr (m, \<rho>, w)))"
      by (simp add: True del: hblock.simps)
    show ?thesis unfolding y h
    proof (rule sim_bind[OF bd], clarify)
      fix hm \<rho>1 w1 m \<sigma>1
      assume c: "closed rn s \<Delta> \<sigma> hm \<rho>1 m \<sigma>1"
      then have dom1: "dom \<sigma>1 = D" using dom by (simp add: closed_def)
      show "sim (?Q \<sigma>)
        (case hm of
             HBreak \<Rightarrow> Inr (HNormal, \<rho>1, w1)
           | HReturn v \<Rightarrow> Inr (HReturn v, \<rho>1, w1)
           | _ \<Rightarrow>
               res_bind (hblock H R n (length \<rho>1) post \<rho>1 w1) (\<lambda>(m, \<rho>, w).
               if m = HNormal
               then res_bind (heval H (map_of \<rho>) c w) (\<lambda>(v, w).
                    case truth v of
                      Some b \<Rightarrow> hloop H R n c post body b \<rho> w
                    | None \<Rightarrow> Inl Stuck)
               else Inr (m, \<rho>, w)))
        (if m = MBreak then Inr (MNormal, \<sigma>1, w1)
          else if m = MLeave then Inr (MLeave, \<sigma>1, w1)
          else res_bind (yblock C n ?post \<sigma>1 w1) (\<lambda>(m, \<sigma>, w).
               if m = MNormal then yloop C n e ?post body_out \<sigma> w else Inr (m, \<sigma>, w)))"
        using c rest[OF _ dom1, of \<rho>1 w1]
        by (cases hm) (simp_all add: closed_def del: hblock.simps yblock.simps)
    qed
  qed
qed simp

section \<open>The statement\<close>

lemma ready_segment:
  assumes none: "\<forall>y. consumed z z4 y \<longrightarrow> y \<notin> dom \<sigma>" and adv: "advances z a" "advances b z4"
    and P: "\<forall>y\<in>P. consumed z a y" and Q: "\<forall>y\<in>Q. consumed b z4 y"
    and dom: "dom \<sigma>' = dom \<sigma> \<union> P \<union> N \<union> Q"
  shows "ready True N a b \<sigma>'"
  unfolding ready_def
proof (intro allI impI)
  fix y
  assume y: "consumed a b y"
  have "consumed z z4 y" by (rule consumed_mono(1)[OF adv(1)], rule consumed_mono(2)[OF adv(2) y])
  then have "y \<notin> dom \<sigma>" using none by blast
  moreover have "y \<notin> P" "y \<notin> Q" using P Q y consumed_disjoint by blast+
  ultimately show "y \<in> dom \<sigma>' \<longleftrightarrow> True \<and> y \<in> N" by (simp add: dom)
qed

lemma leads_ctx: "leads F rt rn G A \<Delta> tr tr' \<Longrightarrow> ctx_ok F G A \<Delta> tr' \<and> result_ok rt rn \<Delta> tr'"
  by (simp add: leads_def)

text \<open>Entering the loop: the hoisted allocations and the first evaluation of the condition.\<close>

lemma loop_entry:
  assumes ok: "ctx_ok F G A \<Delta> tr1" and d: "dyn \<Delta> \<rho> \<sigma>" and adv: "advances tr1 tr2"
    and ns: "distinct (ns @ ms)" "\<And>y. y \<in> set ns \<Longrightarrow> consumed tr1 tr2 y" "\<And>y. y \<in> set ms \<Longrightarrow> consumed tr2 tr3 y"
    and free: "set (ns @ ms) \<inter> dom \<sigma> = {}"
  shows "\<exists>\<sigma>'. yseq C n (name_lets (ns @ ms)) \<sigma> w = Inr (MNormal, \<sigma>', w) \<and> dyn \<Delta> \<rho> \<sigma>'
    \<and> dom \<sigma>' = dom \<sigma> \<union> set ns \<union> set ms"
proof -
  have "y \<notin> live_vars \<Delta>" if "y \<in> set (ns @ ms)" for y
    using that ns(2,3) consumed_old old_advances[OF adv] ok by (fastforce simp: ctx_ok_def)
  then have "cleared (set (ns @ ms)) \<sigma> y = \<sigma> y" if "y \<in> live_vars \<Delta>" for y
    using that by (auto simp: cleared_def)
  from dyn_cong[of \<Delta> "cleared (set (ns @ ms)) \<sigma>" \<sigma> \<rho>, OF this] d
  have "dyn \<Delta> \<rho> (cleared (set (ns @ ms)) \<sigma>)" by blast
  with yseq_name_lets[OF ns(1) free, of C n w] show ?thesis by (auto simp: dom_cleared)
qed

lemma lowered_for:
  assumes ok: "ctx_ok F G A \<Delta> tr" "result_ok rt rn \<Delta> tr" and calls: "calls_refine F (user_functions tr) H C"
    and init: "lowered F rt rn C \<Delta> (push_env tr) G1 A1 (gen_stmts init (push_env tr)) h1 (\<lambda>n. hstmts H R n init)"
    and cond: "wt_expr F G1 c t" "is_bool_like t" "expr_plain c"
    and post: "\<And>\<Delta>1 tr2. ctx_ok F G1 A1 \<Delta>1 tr2 \<Longrightarrow> result_ok rt rn \<Delta>1 tr2 \<Longrightarrow> user_functions tr2 = user_functions tr \<Longrightarrow>
      lowered F rt rn C \<Delta>1 tr2 G1 A1 (gen_stmts post tr2) True (\<lambda>n. hstmts H R n post)"
    and body: "\<And>\<Delta>1 tr3. ctx_ok F G1 A1 \<Delta>1 tr3 \<Longrightarrow> result_ok rt rn \<Delta>1 tr3 \<Longrightarrow> user_functions tr3 = user_functions tr \<Longrightarrow>
      lowered F rt rn C \<Delta>1 tr3 G2 A2 (gen_stmts body tr3) h2 (\<lambda>n. hstmts H R n body)"
  shows "lowered F rt rn C \<Delta> tr G A (gen_stmt (Stmt sp (SFor init c post body)) tr) True
    (\<lambda>n. hstmt H R n (Stmt sp (SFor init c post body)))"
proof -
  let ?tr0 = "push_env tr"
  obtain out1 tr1 ns1 X where i: "gen_stmts init ?tr0 = Inr (out1, tr1)" "leads F rt rn G1 A1 (X @ \<Delta>) ?tr0 tr1"
    and e1: "executes C rn (erase rt) \<Delta> (X @ \<Delta>) ?tr0 tr1 out1 ns1 h1 (\<lambda>n. hstmts H R n init)"
    using init by (rule loweredE)
  let ?\<Delta> = "X @ \<Delta>"
  note ok1 = leads_ctx[OF i(2), THEN conjunct1] leads_ctx[OF i(2), THEN conjunct2]
  note a01 = code_ok_facts(1)[OF executes_static[OF e1]]
  have u1: "user_functions tr1 = user_functions tr" using a01 by (simp add: advances_def enter_vars)
  obtain outc loc k "is" where g: "gen_expr c tr1 = Inr (outc, loc, tr1\<lparr>counter := k\<rparr>)" "conforms (erase t) loc"
    "counter tr1 \<le> k"
    and codec: "code_ok tr1 (tr1\<lparr>counter := k\<rparr>) outc (map stack_name is)"
    and runc: "\<And>b \<rho> \<sigma> w n. dyn ?\<Delta> \<rho> \<sigma> \<Longrightarrow> ready b (stack_name ` set is) tr1 (tr1\<lparr>counter := k\<rparr>) \<sigma> \<Longrightarrow>
       sim (ends (\<lambda>\<sigma>' v. holds \<sigma>' loc (erase t) v \<and> dyn ?\<Delta> \<rho> \<sigma>') (set is) \<sigma>) (heval H (map_of \<rho>) c w)
         (yseq C n (hoisted b outc) \<sigma> w)"
    by (rule expr_in_ctx[OF cond(1,3) ok1(1) calls[folded u1]]) blast
  let ?tr2 = "tr1\<lparr>counter := k\<rparr>"
  have "size_of_loc loc = 1"
    using conforms_size[OF g(2)] bool_like_one_slot[OF cond(2)] by (simp add: checker_slots.slots_shape)
  then obtain e where e: "load_loc (normalize_loc loc) = Inr e"
    using load_loc_flat normalize_loc_one_word by blast
  note a12 = advances_counter[OF g(3)]
  have ok2: "ctx_ok F G1 A1 ?\<Delta> ?tr2" "result_ok rt rn ?\<Delta> ?tr2"
    using ctx_ok_advances[OF ok1(1) a12] result_ok_advances[OF ok1(2)] by simp_all
  from post[OF ok2] u1 obtain out3 tr3 ns3 Y where p: "gen_stmts post ?tr2 = Inr (out3, tr3)"
    "leads F rt rn G1 A1 (Y @ ?\<Delta>) ?tr2 tr3" "True \<longrightarrow> Y = []"
    and e3: "executes C rn (erase rt) ?\<Delta> (Y @ ?\<Delta>) ?tr2 tr3 out3 ns3 True (\<lambda>n. hstmts H R n post)"
    by (auto elim!: loweredE)
  have Y: "Y = []" using p(3) by simp
  note ok3 = leads_ctx[OF p(2)[unfolded Y append_Nil], THEN conjunct1] leads_ctx[OF p(2)[unfolded Y append_Nil], THEN conjunct2]
  note e3 = e3[unfolded Y append_Nil]
  note a23 = code_ok_facts(1)[OF executes_static[OF e3]]
  have u3: "user_functions tr3 = user_functions tr" using a23 u1 by (simp add: advances_def)
  from body[OF ok3 u3] obtain out4 tr4 ns4 Z where b: "gen_stmts body tr3 = Inr (out4, tr4)"
    "leads F rt rn G2 A2 (Z @ ?\<Delta>) tr3 tr4"
    and e4: "executes C rn (erase rt) ?\<Delta> (Z @ ?\<Delta>) tr3 tr4 out4 ns4 h2 (\<lambda>n. hstmts H R n body)"
    by (rule loweredE)
  note a34 = code_ok_facts(1)[OF executes_static[OF e4]]
  note a24 = advances_trans[OF a23 a34]
  note a14 = advances_trans[OF a12 a24]
  note a04 = advances_trans[OF a01 a14]
  note a02 = advances_trans[OF a01 a12]
  note a03 = advances_trans[OF a02 a23]
  have l4: "leads F rt rn G2 A2 (Z @ ?\<Delta>) ?tr0 tr4" using i(2) p(2) b(2) by (simp add: leads_def)
  let ?nc = "map stack_name is"
  let ?first = "out1 @ name_lets (?nc @ ns3) @ hoisted True outc"
  let ?post = "hoisted True out3 @ hoisted True outc"
  let ?for = "YFor ?first e ?post out4"
  have gen: "gen_stmt (Stmt sp (SFor init c post body)) tr = Inr ([?for], pop_env tr4)"
    using code_ok_facts(4)[OF codec] code_ok_facts(4)[OF executes_static[OF e3]]
    by (simp add: i(1) g(1) e p(1) b(1) partition_allocs_def hoisted_def name_lets_def comp_def)
  show ?thesis
  proof (rule loweredI[OF gen])
    show "leads F rt rn G A ([] @ \<Delta>) tr (pop_env tr4)"
      using leads_leave(1)[OF ok l4] a04 by simp
    show "executes C rn (erase rt) \<Delta> ([] @ \<Delta>) tr (pop_env tr4) [?for] [] True
        (\<lambda>n. hstmt H R n (Stmt sp (SFor init c post body)))"
    proof (rule executesI)
      show "code_ok tr (pop_env tr4) [?for] []" using a04 by (intro code_ok_plain) simp_all
      fix m \<rho> \<sigma> w n
      assume d: "dyn \<Delta> \<rho> \<sigma>" and rn: "set rn \<subseteq> dom \<sigma>" and "ready m (set []) tr (pop_env tr4) \<sigma>"
      then have none: "y \<notin> dom \<sigma>" if "consumed ?tr0 tr4 y" for y using that by (simp add: ready_def)
      let ?Q = "\<lambda>\<sigma> (hm, \<rho>, w1) (m, \<sigma>', w2). w2 = w1 \<and> closed rn (erase rt) ?\<Delta> \<sigma> hm \<rho> m \<sigma>'"
      have close: "finishes rn (erase rt) \<Delta> \<Delta> {} \<sigma> hm (outer (length \<rho>) \<rho>1) m (\<sigma>1 |` dom \<sigma>)"
        if "ended rn (erase rt) \<Delta> \<sigma> hm \<rho>1 m \<sigma>1" for hm \<rho>1 m \<sigma>1
        unfolding dyn_length[OF d] by (rule closed_finishes[OF ended_close[OF that dyn_declared[OF d] rn]])
      have r1: "ready False (set ns1) ?tr0 tr1 \<sigma>"
        using none consumed_mono(2)[OF a14] by (auto simp: ready_def)
      from executes_sim[OF e1 d rn r1, of n w]
      have s1: "sim (fin rn (erase rt) \<Delta> ?\<Delta> (set ns1) \<sigma>) (hstmts H R n init \<rho> w) (yseq C n out1 \<sigma> w)"
        by (simp add: hoisted_def)
      have "sim (fin rn (erase rt) \<Delta> \<Delta> {} \<sigma>) (hstmt H R n (Stmt sp (SFor init c post body)) \<rho> w)
          (ystmt C n ?for \<sigma> w)"
        unfolding hstmt.simps ystmt.simps yseq_append[of C n out1] res_bind_assoc
      proof (rule sim_bind[OF s1], erule finE, hypsubst, simp only: prod.case)
        fix hm \<rho>1 w1 m \<sigma>1
        assume f: "finishes rn (erase rt) \<Delta> ?\<Delta> (set ns1) \<sigma> hm \<rho>1 m \<sigma>1"
        show "sim (fin rn (erase rt) \<Delta> \<Delta> {} \<sigma>)
            (if hm = HNormal then res_bind (heval H (map_of \<rho>1) c w1) (\<lambda>(v, w).
               case truth v of
                 Some b \<Rightarrow> res_bind (hloop H R n c post body b \<rho>1 w) (\<lambda>(m, \<rho>1, w). Inr (m, outer (length \<rho>) \<rho>1, w))
               | None \<Rightarrow> Inl Stuck)
             else Inr (hm, outer (length \<rho>) \<rho>1, w1))
            (res_bind (if m = MNormal then yseq C n (name_lets (?nc @ ns3) @ hoisted True outc) \<sigma>1 w1 else Inr (m, \<sigma>1, w1))
              (\<lambda>(m, \<sigma>', w). if m = MNormal
                 then res_bind (yloop C n e ?post out4 \<sigma>' w) (\<lambda>(m, \<sigma>', w). Inr (m, \<sigma>' |` dom \<sigma>, w))
                 else Inr (m, \<sigma>' |` dom \<sigma>, w)))"
        proof (cases "hm = HNormal")
          case False
          with finishes_normal[OF f] close[OF finishes_ended[of rn _ "[]" \<Delta>, unfolded append_Nil, OF f]]
          show ?thesis by simp
        next
          case True
          with f have n1: "m = MNormal" "dyn ?\<Delta> \<rho>1 \<sigma>1" "dom \<sigma>1 = dom \<sigma> \<union> set ns1" by simp_all
          note c1 = code_ok_facts[OF executes_static[OF e1]] and c2 = code_ok_facts[OF codec]
            and c3 = code_ok_facts[OF executes_static[OF e3]]
          have dist: "distinct (?nc @ ns3)"
            using c2(2,3) c3(2,3) consumed_disjoint by (fastforce simp del: set_map)
          have free: "set (?nc @ ns3) \<inter> dom \<sigma>1 = {}"
          proof -
            have "y \<notin> dom \<sigma>1" if y: "consumed tr1 tr3 y" for y
            proof -
              have "consumed ?tr0 tr4 y" using consumed_mono(1)[OF a01] consumed_mono(2)[OF a34 y] by blast
              moreover have "y \<notin> set ns1" using c1(3) consumed_disjoint y by blast
              ultimately show ?thesis using none n1(3) by blast
            qed
            moreover have "consumed tr1 tr3 y" if "y \<in> set (?nc @ ns3)" for y
              using that c2(3) c3(3) consumed_mono(1)[OF a12] consumed_mono(2)[OF a23] by (auto simp del: set_map)
            ultimately show ?thesis by blast
          qed
          from loop_entry[OF ok1(1) n1(2) a12 dist c2(3) c3(3) free, of C n w1]
          obtain \<sigma>2 where s2: "yseq C n (name_lets (?nc @ ns3)) \<sigma>1 w1 = Inr (MNormal, \<sigma>2, w1)" "dyn ?\<Delta> \<rho>1 \<sigma>2"
            "dom \<sigma>2 = dom \<sigma>1 \<union> set ?nc \<union> set ns3" by blast
          let ?D = "dom \<sigma> \<union> set ns1 \<union> set ?nc \<union> set ns3"
          have dom2: "dom \<sigma>2 = ?D" using s2(3) n1(3) by blast
          have none': "\<forall>y. consumed ?tr0 tr4 y \<longrightarrow> y \<notin> dom \<sigma>" using none by blast
          have m1: "\<forall>y\<in>set ns1. consumed ?tr0 tr1 y" using c1(3) by blast
          have m2: "\<forall>y\<in>set ns1 \<union> set ?nc. consumed ?tr0 ?tr2 y"
            using c1(3) c2(3) consumed_mono(1)[OF a01] consumed_mono(2)[OF a12] by blast
          have m3: "\<forall>y\<in>set ns1 \<union> set ?nc \<union> set ns3. consumed ?tr0 tr3 y"
            using m2 c3(3) consumed_mono(1)[OF a02] consumed_mono(2)[OF a23] by blast
          have q2: "\<forall>y\<in>set ns3. consumed ?tr2 tr4 y" using consumed_mono(2)[OF a34 c3(3)] by blast
          have none0: "\<forall>y\<in>{}. consumed a b y" for a b by simp
          have a44: "advances tr4 tr4" by (simp add: advances_def)
          have D1: "ready True (stack_name ` set is) tr1 ?tr2 \<sigma>'" if "dom \<sigma>' = ?D" for \<sigma>'
            by (rule ready_segment[OF none' a01 a24 m1 q2]) (use that in auto)
          have D2: "ready True (set ns3) ?tr2 tr3 \<sigma>'" if "dom \<sigma>' = ?D" for \<sigma>'
            by (rule ready_segment[OF none' a02 a34 m2 none0]) (use that in auto)
          have D3: "ready True {} tr3 tr4 \<sigma>'" if "dom \<sigma>' = ?D" for \<sigma>'
            by (rule ready_segment[OF none' a03 a44 m3 none0]) (use that in auto)
          have rnD: "set rn \<subseteq> ?D" "stack_name ` set is \<subseteq> ?D" "set ns3 \<subseteq> ?D" using rn by auto
          have loop: "sim (?Q \<sigma>') (hloop H R n c post body b \<rho>' w') (yloop C n e ?post out4 \<sigma>' w')"
            if "dyn ?\<Delta> \<rho>' \<sigma>'" "dom \<sigma>' = ?D" "holds \<sigma>' loc (erase t) v" "truth v = Some b" for \<rho>' \<sigma>' v b w'
            by (rule loop_sim[OF e4 e3 runc cond(2) e rnD D1 D2 D3 that])
          show ?thesis
            unfolding True n1(1) simp_thms if_True yseq_append_normal[OF s2(1)]
          proof (rule sim_bind[OF runc[OF s2(2) D1[OF dom2]]], erule endsE, hypsubst, simp only: prod.case simp_thms if_True)
            fix v w3 \<sigma>3
            assume ch: "changes (set is) \<sigma>2 \<sigma>3" and h: "holds \<sigma>3 loc (erase t) v \<and> dyn ?\<Delta> \<rho>1 \<sigma>3"
            have dom3: "dom \<sigma>3 = ?D" using ch dom2 by (auto simp: changes_def)
            have sub: "dom \<sigma> \<subseteq> dom \<sigma>3" unfolding dom3 by blast
            obtain b where b: "truth v = Some b"
              using condition_word[OF cond(2) _ e, of \<sigma>3 v C w3] h by auto
            have l: "sim (?Q \<sigma>3) (hloop H R n c post body b \<rho>1 w3) (yloop C n e ?post out4 \<sigma>3 w3)"
              using loop[OF _ dom3 _ b] h by blast
            have "sim (fin rn (erase rt) \<Delta> \<Delta> {} \<sigma>)
                (res_bind (hloop H R n c post body b \<rho>1 w3) (\<lambda>(m, \<rho>1, w). Inr (m, outer (length \<rho>) \<rho>1, w)))
                (res_bind (yloop C n e ?post out4 \<sigma>3 w3) (\<lambda>(m, \<sigma>', w). Inr (m, \<sigma>' |` dom \<sigma>, w)))"
              by (rule sim_bind[OF l], clarify) (simp add: close[OF closed_ended[OF _ sub]])
            then show "sim (fin rn (erase rt) \<Delta> \<Delta> {} \<sigma>)
                (case truth v of
                   Some b \<Rightarrow> res_bind (hloop H R n c post body b \<rho>1 w3) (\<lambda>(m, \<rho>1, w). Inr (m, outer (length \<rho>) \<rho>1, w))
                 | None \<Rightarrow> Inl Stuck)
                (res_bind (yloop C n e ?post out4 \<sigma>3 w3) (\<lambda>(m, \<sigma>', w). Inr (m, \<sigma>' |` dom \<sigma>, w)))"
              by (simp add: b)
          qed
        qed
      qed
      then show "sim (fin rn (erase rt) \<Delta> ([] @ \<Delta>) (set []) \<sigma>) (hstmt H R n (Stmt sp (SFor init c post body)) \<rho> w)
          (yseq C n (hoisted m [?for]) \<sigma> w)"
        by (simp add: hoisted_def yseq_single del: yseq.simps(2) ystmt.simps hstmt.simps)
    qed
  qed simp
qed

end
