(* ===== verification/Lower_Match.thy ===== *)
theory Lower_Match
  imports Lower_Loops
begin

text \<open>
  Lowering preserves the meaning of \<open>match\<close>: the scrutinee is split into the word that is switched
  on and the payload, constructor patterns reshape the payload, and the generated cases select
  the alternative that the value of the scrutinee fits.
\<close>

section \<open>Reshaping a payload\<close>

lemma take_unit_rds:
  "list_all (\<lambda>l. size_of_loc l = 1) slots \<Longrightarrow>
     concat (map (rd \<sigma>) (take n slots)) = take n (concat (map (rd \<sigma>) slots))
     \<and> concat (map (rd \<sigma>) (drop n slots)) = drop n (concat (map (rd \<sigma>) slots))"
proof (induction slots arbitrary: n)
  case (Cons l slots)
  then obtain x where "rd \<sigma> l = [x]" using rd_length[of \<sigma> l] by (auto simp: length_Suc_conv)
  with Cons show ?case by (cases n) auto
qed simp

definition slots_of :: "store \<Rightarrow> location list \<Rightarrow> 256 word option list" where
  "slots_of \<sigma> slots = concat (map (rd \<sigma>) slots)"

lemma leaf_rd:
  "rd \<sigma> (case take n slots of [one] \<Rightarrow> one | here \<Rightarrow> LSeq here) = slots_of \<sigma> (take n slots)"
  "readable \<sigma> (case take n slots of [one] \<Rightarrow> one | here \<Rightarrow> LSeq here) = list_all (readable \<sigma>) (take n slots)"
  "loc_vars (case take n slots of [one] \<Rightarrow> one | here \<Rightarrow> LSeq here) = \<Union> (set (map loc_vars (take n slots)))"
  by (simp_all add: slots_of_def split: list.split)

lemma reshape_go_rd:
  assumes "list_all (\<lambda>l. size_of_loc l = 1) slots" and "shape_slots (erase t) \<le> length slots"
    and "reshape_go t slots = Inr (loc, n)"
  shows "rd \<sigma> loc = take (shape_slots (erase t)) (slots_of \<sigma> slots)
    \<and> (list_all (readable \<sigma>) slots \<longrightarrow> readable \<sigma> loc)
    \<and> loc_vars loc \<subseteq> \<Union> (set (map loc_vars slots))"
  using assms
proof (induction t slots arbitrary: loc n rule: reshape_go.induct)
  case (1 t slots)
  show ?case
  proof (cases "\<exists>l r. ty_kind (strip_named t) = TyProduct l r")
    case True
    then obtain l r where k: "ty_kind (strip_named t) = TyProduct l r" by blast
    then have e: "erase t = ShProduct (erase l) (erase r)" by (rule erase_of_strip_kind)
    let ?a = "shape_slots (erase l)" and ?rest = "drop (shape_slots (erase l)) slots"
    obtain ll where ll: "reshape_go l slots = Inr (ll, ?a)" using reshape_go_ok[OF 1(4), of l] 1(5) e by auto
    have sizes: "list_all (\<lambda>l. size_of_loc l = 1) ?rest" "list_all (readable \<sigma>) slots \<Longrightarrow> list_all (readable \<sigma>) ?rest"
      using 1(4) by (auto simp: list_all_iff dest: in_set_dropD)
    have len: "shape_slots (erase r) \<le> length ?rest" using 1(5) e by simp
    obtain rl where rl: "reshape_go r ?rest = Inr (rl, shape_slots (erase r))"
      using reshape_go_ok[OF sizes(1) len] by blast
    have loc: "loc = LSeq [ll, rl]"
      using 1(6) k ll rl 1(5) e by (subst (asm) reshape_go.simps) auto
    have "rd \<sigma> ll = take ?a (slots_of \<sigma> slots)" "list_all (readable \<sigma>) slots \<longrightarrow> readable \<sigma> ll" "loc_vars ll \<subseteq> \<Union> (set (map loc_vars slots))"
      using 1(1)[OF k 1(4) _ ll] 1(5) e by simp_all
    moreover have "rd \<sigma> rl = take (shape_slots (erase r)) (slots_of \<sigma> ?rest)" "list_all (readable \<sigma>) ?rest \<longrightarrow> readable \<sigma> rl"
      "loc_vars rl \<subseteq> \<Union> (set (map loc_vars ?rest))"
      using 1(2)[OF k ll refl _ sizes(1) len rl] 1(5) e by simp_all
    moreover have "slots_of \<sigma> ?rest = drop ?a (slots_of \<sigma> slots)"
      using take_unit_rds[OF 1(4)] by (simp add: slots_of_def)
    moreover have "\<Union> (set (map loc_vars ?rest)) \<subseteq> \<Union> (set (map loc_vars slots))"
      by (auto dest: in_set_dropD)
    ultimately show ?thesis unfolding loc e using sizes(2) by (auto simp: take_add)
  next
    case False
    show ?thesis
    proof (cases "ty_kind (strip_named t) = TyUnit")
      case True
      then have "erase t = ShUnit" by (simp add: erase_kind)
      with True 1(6) show ?thesis by (subst (asm) reshape_go.simps) auto
    next
      case nu: False
      have loc: "loc = (case take (shape_slots (erase t)) slots of [one] \<Rightarrow> one | here \<Rightarrow> LSeq here)"
        using 1(6) False nu by (subst (asm) reshape_go.simps) (auto simp: size_of_ty_shape split: ty_kind.splits)
      have "list_all (readable \<sigma>) slots \<Longrightarrow> list_all (readable \<sigma>) (take (shape_slots (erase t)) slots)"
        by (auto simp: list_all_iff dest: in_set_takeD)
      moreover have "\<Union> (set (map loc_vars (take (shape_slots (erase t)) slots))) \<subseteq> \<Union> (set (map loc_vars slots))"
        by (auto dest: in_set_takeD)
      moreover have "slots_of \<sigma> (take (shape_slots (erase t)) slots) = take (shape_slots (erase t)) (slots_of \<sigma> slots)"
        using take_unit_rds[OF 1(4)] by (simp add: slots_of_def)
      ultimately show ?thesis unfolding loc leaf_rd by simp
    qed
  qed
qed

lemma reshape_holds:
  assumes "shape_slots (erase t) \<le> size_of_loc p"
  obtains p' where "reshape_loc t p = Inr p'" "conforms (erase t) p'" "loc_vars p' \<subseteq> loc_vars p"
    "\<And>\<sigma> v. readable \<sigma> p \<Longrightarrow> enc (erase t) v (take (shape_slots (erase t)) (rd \<sigma> p)) \<Longrightarrow> holds \<sigma> p' (erase t) v"
proof -
  have len: "shape_slots (erase t) \<le> length (flatten_locs p)" using assms by (simp add: flatten_locs_length)
  obtain p' where r: "reshape_go t (flatten_locs p) = Inr (p', shape_slots (erase t))" "conforms (erase t) p'"
    using reshape_go_ok[OF flatten_locs_sizes len] by blast
  have rd: "rd \<sigma> p' = take (shape_slots (erase t)) (rd \<sigma> p)" "readable \<sigma> p \<Longrightarrow> readable \<sigma> p'"
    "loc_vars p' \<subseteq> loc_vars p" for \<sigma>
    using reshape_go_rd[OF flatten_locs_sizes len r(1), of \<sigma>]
    unfolding slots_of_def rd_flatten[of \<sigma> p] readable_flatten[of \<sigma> p] loc_vars_flatten[of p] by simp_all
  show ?thesis
    by (rule that[of p']) (use r rd in \<open>auto simp: reshape_loc_def holds_def\<close>)
qed

section \<open>The scrutinee\<close>

text \<open>The word \<open>x\<close> that is switched on and the payload \<open>p\<close> tell what the patterns can ask about \<open>v\<close>.\<close>

definition scrutinee :: "store \<Rightarrow> shape \<Rightarrow> location \<Rightarrow> hval \<Rightarrow> 256 word \<Rightarrow> bool" where
  "scrutinee \<sigma> s p v x \<longleftrightarrow>
     (case s of
        ShWord \<Rightarrow> v = VWord x
      | ShSum a b \<Rightarrow> readable \<sigma> p \<and>
          ((\<exists>u. v = VInl u \<and> x = 0 \<and> enc a u (take (shape_slots a) (rd \<sigma> p)))
           \<or> (\<exists>u. v = VInr u \<and> x = 1 \<and> enc b u (take (shape_slots b) (rd \<sigma> p))))
      | _ \<Rightarrow> True)"

lemma normalize_flat:
  assumes "conforms s loc" and "flatten_locs loc = l # ls"
  shows "split_tag (normalize_loc loc) = Inr (l, LSeq ls)"
proof (cases loc)
  case (LSeq locs)
  have "\<not> is_seq l" by (rule flatten_locs_flat[of l loc]) (simp add: assms(2))
  then have "split_tag l = Inr (l, LSeq [])" by (cases l) simp_all
  with LSeq assms(2) show ?thesis by (cases ls) simp_all
next
  case (LEmpty n)
  then have "n \<le> 1" using assms(1) by (cases s) (auto simp: conforms_product)
  with LEmpty assms(2) have "l = LEmpty 1" "ls = []" "n = 1" by (cases n; simp)+
  with LEmpty show ?thesis by simp
qed (use assms(2) in auto)

lemma split_scrutinee:
  assumes c: "conforms s loc" and pos: "0 < shape_slots s"
  obtains tag p e where "split_tag (normalize_loc loc) = Inr (tag, p)" "load_loc tag = Inr e"
    "loc_vars p \<subseteq> loc_vars loc" "\<And>a b. s = ShSum a b \<Longrightarrow> size_of_loc p = max (shape_slots a) (shape_slots b)"
    "\<And>\<sigma> v w. holds \<sigma> loc s v \<Longrightarrow> \<exists>x. yeval1 C \<sigma> e w = Inr (x, w) \<and> scrutinee \<sigma> s p v x"
proof -
  have size: "size_of_loc loc = shape_slots s" by (rule conforms_size[OF c])
  then obtain l ls where f: "flatten_locs loc = l # ls"
    using pos by (metis flatten_locs_length gr_implies_not0 length_0_conv neq_Nil_conv)
  have seq: "\<not> is_seq l" by (rule flatten_locs_flat[of l loc]) (simp add: f)
  obtain e where e: "load_loc l = Inr e" using load_loc_flat[OF seq] by blast
  have one: "size_of_loc l = 1" using flatten_locs_sizes[of loc] by (simp add: f)
  show ?thesis
  proof (rule that[OF normalize_flat[OF c f] e])
    show "loc_vars (LSeq ls) \<subseteq> loc_vars loc" unfolding loc_vars_flatten[of loc] f by auto
    show "size_of_loc (LSeq ls) = max (shape_slots a) (shape_slots b)" if "s = ShSum a b" for a b
    proof -
      have "sum_list (map size_of_loc ls) = length ls"
        using flatten_locs_sizes[of loc] by (simp add: f sum_list_ones)
      moreover have "Suc (length ls) = size_of_loc loc" using flatten_locs_length[of loc] by (simp add: f)
      ultimately show ?thesis using size that by simp
    qed
    fix \<sigma> v w
    assume h: "holds \<sigma> loc s v"
    have rd: "rd \<sigma> loc = rd \<sigma> l @ rd \<sigma> (LSeq ls)" "readable \<sigma> loc \<longleftrightarrow> readable \<sigma> l \<and> readable \<sigma> (LSeq ls)"
      unfolding rd_flatten[of \<sigma> loc] readable_flatten[of \<sigma> loc] f by simp_all
    obtain x where x: "yeval C \<sigma> e w = Inr ([x], w)" "filled (rd \<sigma> l) [Some x]"
      using load_loc_value[OF seq _ one e, of \<sigma> C w] h rd(2) by (auto simp: holds_def)
    obtain u where u: "rd \<sigma> l = [u]" using one rd_length[of \<sigma> l] by (auto simp: length_Suc_conv)
    have "u = Some y \<Longrightarrow> x = y" for y using x(2) u by (auto simp: filled_one)
    then have "scrutinee \<sigma> s (LSeq ls) v x"
      using h rd u by (cases s; cases v) (auto simp: scrutinee_def holds_def)
    with x(1) show "\<exists>x. yeval1 C \<sigma> e w = Inr (x, w) \<and> scrutinee \<sigma> s (LSeq ls) v x"
      by (auto simp: yeval1_def)
  qed
qed

section \<open>Alternatives\<close>

definition alt_run :: "'w hcalls \<Rightarrow> 'w reverts \<Rightarrow> nat \<Rightarrow> hval \<Rightarrow> alt list \<Rightarrow> henv \<Rightarrow> 'w \<Rightarrow> 'w hres" where
  "alt_run H R n v alts \<rho> w =
     (case find_alt v alts of
        Some (\<rho>1, body) \<Rightarrow> hblock H R n (length \<rho>) body (\<rho>1 @ \<rho>) w
      | None \<Rightarrow> Inr (HNormal, \<rho>, w))"

definition case_run ::
  "'w ycalls \<Rightarrow> nat \<Rightarrow> 256 word \<Rightarrow> yul_case list \<Rightarrow> yul_stmt list option \<Rightarrow> store \<Rightarrow> 'w \<Rightarrow> 'w yres" where
  "case_run C n x cases dflt \<sigma> w =
     (case find_case x cases of
        Some body \<Rightarrow> yblock C n body \<sigma> w
      | None \<Rightarrow> (case dflt of Some body \<Rightarrow> yblock C n body \<sigma> w | None \<Rightarrow> Inr (MNormal, \<sigma>, w)))"

definition alts_lowered ::
  "name list \<Rightarrow> shape \<Rightarrow> 'w ycalls \<Rightarrow> 'w hcalls \<Rightarrow> 'w reverts \<Rightarrow> ctx \<Rightarrow> translator \<Rightarrow> shape \<Rightarrow> location \<Rightarrow> alt list
    \<Rightarrow> (yul_case list \<times> yul_stmt list option \<times> translator) tr_res \<Rightarrow> bool" where
  "alts_lowered rn s C H R \<Delta> tr S p alts r \<longleftrightarrow>
     (\<exists>cases dflt tr'. r = Inr (cases, dflt, tr') \<and> advances tr tr' \<and> tr_vars tr' = tr_vars tr \<and>
        (\<forall>\<rho> \<sigma> w n v x. dyn \<Delta> \<rho> \<sigma> \<longrightarrow> set rn \<subseteq> dom \<sigma> \<longrightarrow> ready True {} tr tr' \<sigma> \<longrightarrow> scrutinee \<sigma> S p v x \<longrightarrow>
           sim (\<lambda>(hm, \<rho>, w1) (m, \<sigma>', w2). w2 = w1 \<and> closed rn s \<Delta> \<sigma> hm \<rho> m \<sigma>')
             (alt_run H R n v alts \<rho> w) (case_run C n x cases dflt \<sigma> w)))"

lemma alts_lowered_nil: "alts_lowered rn s C H R \<Delta> tr S p [] (Inr ([], None, tr))"
  by (auto simp: alts_lowered_def advances_def alt_run_def case_run_def closed_def)

lemma ready_empty:
  "ready True {} tr tr' \<sigma> \<Longrightarrow> advances tr1 tr' \<Longrightarrow> ready True {} tr tr1 \<sigma>"
  "ready True {} tr tr' \<sigma> \<Longrightarrow> advances tr tr1 \<Longrightarrow> ready True {} tr1 tr' \<sigma>"
  using consumed_mono by (auto simp: ready_def)

text \<open>The body of an alternative, generated from a scope with the binder.\<close>

definition same_supply :: "translator \<Rightarrow> translator \<Rightarrow> bool" where
  "same_supply z tr \<longleftrightarrow> (\<forall>tr'. advances z tr' = advances tr tr' \<and> consumed z tr' = consumed tr tr')
     \<and> butlast (tr_vars z) = tr_vars tr"

lemma same_supply_insert:
  assumes "same_supply a tr" and "tr_ok a"
  shows "same_supply (tr_insert_var x loc a) tr"
proof -
  obtain vs where "tr_insert_var x loc a = a\<lparr>tr_vars := vs\<rparr>"
    using assms(2) by (simp add: tr_insert_var_def tr_ok_def scopes_insert_nonempty)
  then have "advances (tr_insert_var x loc a) tr' = advances a tr'"
    "consumed (tr_insert_var x loc a) tr' = consumed a tr'" for tr'
    by (simp_all add: advances_def consumed_def fun_eq_iff)
  with assms show ?thesis by (simp add: same_supply_def insert_butlast)
qed

lemma same_supply_enter: "same_supply (push_env tr) tr"
  by (simp add: same_supply_def) (simp add: enter_vars)

lemma alt_body:
  assumes b: "lowered F rt rn C (B @ \<Delta>) z G' A' r h ev" and z: "same_supply z tr"
  obtains out z1 where "r = Inr (out, z1)" "advances tr (pop_env z1)" "tr_vars (pop_env z1) = tr_vars tr"
    "\<And>\<rho> \<sigma> w n. dyn (B @ \<Delta>) \<rho> \<sigma> \<Longrightarrow> set rn \<subseteq> dom \<sigma> \<Longrightarrow> ready True {} tr (pop_env z1) \<sigma> \<Longrightarrow>
       sim (\<lambda>(hm, \<rho>, w1) (m, \<sigma>', w2). w2 = w1 \<and> closed rn (erase rt) \<Delta> \<sigma> hm \<rho> m \<sigma>')
         (res_bind (ev n \<rho> w) (\<lambda>(m, \<rho>', w). Inr (m, outer (length \<Delta>) \<rho>', w))) (yblock C n out \<sigma> w)"
proof -
  obtain out z1 ns X where r: "r = Inr (out, z1)" and l: "leads F rt rn G' A' (X @ B @ \<Delta>) z z1"
    and e: "executes C rn (erase rt) (B @ \<Delta>) (X @ B @ \<Delta>) z z1 out ns h ev" using b by (rule loweredE)
  note e = executes_static[OF e] e[folded append_assoc[of X B]]
  have adv: "advances tr z1" using code_ok_facts(1)[OF e(1)] z by (simp add: same_supply_def)
  have "butlast (tr_vars z1) = tr_vars tr" "tr_vars z1 \<noteq> []"
    using l z by (auto simp: leads_def same_supply_def ctx_ok_def)
  then have v: "tr_vars (pop_env z1) = tr_vars tr" by (rule pop_restores)
  show ?thesis
  proof (rule that[OF r _ v])
    show "advances tr (pop_env z1)" by (simp add: adv)
    fix \<rho> \<sigma> w n
    assume d: "dyn (B @ \<Delta>) \<rho> \<sigma>" "set rn \<subseteq> dom \<sigma>" and "ready True {} tr (pop_env z1) \<sigma>"
    then have "ready True {} z z1 \<sigma>" using z by (simp add: ready_def same_supply_def)
    from block_closes[OF e(2) d this]
    show "sim (\<lambda>(hm, \<rho>, w1) (m, \<sigma>', w2). w2 = w1 \<and> closed rn (erase rt) \<Delta> \<sigma> hm \<rho> m \<sigma>')
         (res_bind (ev n \<rho> w) (\<lambda>(m, \<rho>', w). Inr (m, outer (length \<Delta>) \<rho>', w))) (yblock C n out \<sigma> w)" .
  qed
qed

text \<open>One alternative with a case of its own, before others.\<close>

lemma alts_case:
  assumes b: "lowered F rt rn C (B @ \<Delta>) z G' A' (gen_stmts body z) h (\<lambda>n. hstmts H R n body)"
    and z: "same_supply z tr"
    and rest: "\<And>tr1. advances tr tr1 \<Longrightarrow> tr_vars tr1 = tr_vars tr \<Longrightarrow>
      alts_lowered rn (erase rt) C H R \<Delta> tr1 S p alts (gen tr1)"
    and fit: "\<And>\<sigma> v x. scrutinee \<sigma> S p v x \<Longrightarrow> lit_word l = Some x \<longleftrightarrow> pat_fits k v"
    and binds: "\<And>\<rho> \<sigma> v x. dyn \<Delta> \<rho> \<sigma> \<Longrightarrow> scrutinee \<sigma> S p v x \<Longrightarrow> pat_fits k v \<Longrightarrow> dyn (B @ \<Delta>) (pat_binds k bn v @ \<rho>) \<sigma>"
  shows "alts_lowered rn (erase rt) C H R \<Delta> tr S p (Alt sp (Pat psp k) bn body # alts)
    (res_bind (gen_stmts body z) (\<lambda>(body, tr).
       res_bind (gen (pop_env tr)) (\<lambda>(cases, dflt, tr). Inr (YCase l body # cases, dflt, tr))))"
proof -
  obtain out z1 where g: "gen_stmts body z = Inr (out, z1)" and p1: "advances tr (pop_env z1)" "tr_vars (pop_env z1) = tr_vars tr"
    and run: "\<And>\<rho> \<sigma> w n. dyn (B @ \<Delta>) \<rho> \<sigma> \<Longrightarrow> set rn \<subseteq> dom \<sigma> \<Longrightarrow> ready True {} tr (pop_env z1) \<sigma> \<Longrightarrow>
       sim (\<lambda>(hm, \<rho>, w1) (m, \<sigma>', w2). w2 = w1 \<and> closed rn (erase rt) \<Delta> \<sigma> hm \<rho> m \<sigma>')
         (res_bind (hstmts H R n body \<rho> w) (\<lambda>(m, \<rho>', w). Inr (m, outer (length \<Delta>) \<rho>', w))) (yblock C n out \<sigma> w)"
    by (rule alt_body[OF b z]) blast
  from rest[OF p1] obtain cases dflt tr' where r: "gen (pop_env z1) = Inr (cases, dflt, tr')"
    "advances (pop_env z1) tr'" "tr_vars tr' = tr_vars tr"
    and runs: "\<And>\<rho> \<sigma> w n v x. dyn \<Delta> \<rho> \<sigma> \<Longrightarrow> set rn \<subseteq> dom \<sigma> \<Longrightarrow> ready True {} (pop_env z1) tr' \<sigma> \<Longrightarrow> scrutinee \<sigma> S p v x \<Longrightarrow>
       sim (\<lambda>(hm, \<rho>, w1) (m, \<sigma>', w2). w2 = w1 \<and> closed rn (erase rt) \<Delta> \<sigma> hm \<rho> m \<sigma>')
         (alt_run H R n v alts \<rho> w) (case_run C n x cases dflt \<sigma> w)"
    using p1(2) unfolding alts_lowered_def by auto
  show ?thesis unfolding alts_lowered_def
  proof (intro exI conjI allI impI)
    show "res_bind (gen_stmts body z) (\<lambda>(body, tr).
       res_bind (gen (pop_env tr)) (\<lambda>(cases, dflt, tr). Inr (YCase l body # cases, dflt, tr))) = Inr (YCase l out # cases, dflt, tr')"
      by (simp add: g r(1))
    show "advances tr tr'" by (rule advances_trans[OF p1(1) r(2)])
    fix \<rho> \<sigma> w n v x
    assume d: "dyn \<Delta> \<rho> \<sigma>" "set rn \<subseteq> dom \<sigma>" and rdy: "ready True {} tr tr' \<sigma>" and sc: "scrutinee \<sigma> S p v x"
    note rdy = ready_empty(1)[OF rdy r(2)] ready_empty(2)[OF rdy p1(1)]
    show "sim (\<lambda>(hm, \<rho>, w1) (m, \<sigma>', w2). w2 = w1 \<and> closed rn (erase rt) \<Delta> \<sigma> hm \<rho> m \<sigma>')
        (alt_run H R n v (Alt sp (Pat psp k) bn body # alts) \<rho> w) (case_run C n x (YCase l out # cases) dflt \<sigma> w)"
    proof (cases "pat_fits k v")
      case True
      with run[OF binds[OF d(1) sc True] d(2) rdy(1), of n w] fit[OF sc] show ?thesis
        by (simp add: alt_run_def case_run_def dyn_length[OF d(1)] del: yblock.simps)
    next
      case False
      with runs[OF d rdy(2) sc, of n w] fit[OF sc] show ?thesis by (simp add: alt_run_def case_run_def)
    qed
  qed (rule r(3))
qed

text \<open>A catch-all alternative at the end.\<close>

lemma alts_default:
  assumes b: "lowered F rt rn C (B @ \<Delta>) z G' A' (gen_stmts body z) h (\<lambda>n. hstmts H R n body)"
    and z: "same_supply z tr" and fit: "\<And>v. pat_fits k v"
    and binds: "\<And>\<rho> \<sigma> v. dyn \<Delta> \<rho> \<sigma> \<Longrightarrow> dyn (B @ \<Delta>) (pat_binds k bn v @ \<rho>) \<sigma>"
  shows "alts_lowered rn (erase rt) C H R \<Delta> tr S p [Alt sp (Pat psp k) bn body]
    (res_bind (gen_stmts body z) (\<lambda>(body, tr). Inr ([], Some body, pop_env tr)))"
proof -
  obtain out z1 where g: "gen_stmts body z = Inr (out, z1)" and p1: "advances tr (pop_env z1)" "tr_vars (pop_env z1) = tr_vars tr"
    and run: "\<And>\<rho> \<sigma> w n. dyn (B @ \<Delta>) \<rho> \<sigma> \<Longrightarrow> set rn \<subseteq> dom \<sigma> \<Longrightarrow> ready True {} tr (pop_env z1) \<sigma> \<Longrightarrow>
       sim (\<lambda>(hm, \<rho>, w1) (m, \<sigma>', w2). w2 = w1 \<and> closed rn (erase rt) \<Delta> \<sigma> hm \<rho> m \<sigma>')
         (res_bind (hstmts H R n body \<rho> w) (\<lambda>(m, \<rho>', w). Inr (m, outer (length \<Delta>) \<rho>', w))) (yblock C n out \<sigma> w)"
    by (rule alt_body[OF b z]) blast
  show ?thesis unfolding alts_lowered_def
  proof (intro exI conjI allI impI)
    show "res_bind (gen_stmts body z) (\<lambda>(body, tr). Inr ([], Some body, pop_env tr)) = Inr ([], Some out, pop_env z1)"
      by (simp add: g)
    fix \<rho> \<sigma> w n v x
    assume d: "dyn \<Delta> \<rho> \<sigma>" "set rn \<subseteq> dom \<sigma>" and rdy: "ready True {} tr (pop_env z1) \<sigma>"
    from run[OF binds[OF d(1), of v] d(2) rdy, of n w]
    show "sim (\<lambda>(hm, \<rho>, w1) (m, \<sigma>', w2). w2 = w1 \<and> closed rn (erase rt) \<Delta> \<sigma> hm \<rho> m \<sigma>')
        (alt_run H R n v [Alt sp (Pat psp k) bn body] \<rho> w) (case_run C n x [] (Some out) \<sigma> w)"
      by (simp add: alt_run_def case_run_def fit dyn_length[OF d(1)] del: yblock.simps)
  qed (use p1 in simp_all)
qed

section \<open>Binders\<close>

lemma owns_push:
  assumes "owns \<Delta> y" and "y \<noteq> x"
    and apart: "\<And>u l. map_of \<Delta> y = Some (Some u, l) \<Longrightarrow> loc_vars l \<inter> entry_vars (x, t, loc) = {}"
  shows "owns ((x, t, loc) # \<Delta>) y"
proof -
  from assms(1) obtain pre u l post where o: "\<Delta> = pre @ (y, Some u, l) # post" "y \<notin> fst ` set pre" "is_place l"
    "distinct (place_names l)" "loc_vars l \<inter> live_vars (pre @ post) = {}" unfolding owns_def by blast
  from o(2) have "map_of pre y = None" by (simp add: map_of_eq_None_iff)
  then have "map_of \<Delta> y = Some (Some u, l)" using o(1) by (simp add: map_add_def)
  from apart[OF this] o(5) have "loc_vars l \<inter> live_vars (((x, t, loc) # pre) @ post) = {}" by auto
  with o assms(2) show ?thesis
    unfolding owns_def by (intro exI[of _ "(x, t, loc) # pre"] exI[of _ u] exI[of _ l] exI[of _ post]) simp
qed

text \<open>The variables that may be assigned, and the result, keep away from the payload.\<close>

definition payload_ok :: "name set \<Rightarrow> ctx \<Rightarrow> translator \<Rightarrow> shape \<Rightarrow> location \<Rightarrow> bool" where
  "payload_ok A \<Delta> tr S p \<longleftrightarrow> loc_vars p \<subseteq> old tr
     \<and> (\<forall>a b. S = ShSum a b \<longrightarrow> size_of_loc p = max (shape_slots a) (shape_slots b))
     \<and> (\<forall>x u l. x \<in> insert ''_result'' A \<longrightarrow> owns \<Delta> x \<longrightarrow> map_of \<Delta> x = Some (Some u, l) \<longrightarrow> loc_vars l \<inter> loc_vars p = {})"

lemma payload_ok_advances: "payload_ok A \<Delta> tr S p \<Longrightarrow> advances tr tr' \<Longrightarrow> payload_ok A \<Delta> tr' S p"
  using old_advances[of tr tr'] by (auto simp: payload_ok_def)

lemma ctx_ok_subset: "ctx_ok F G A \<Delta> tr \<Longrightarrow> A' \<subseteq> A \<Longrightarrow> ctx_ok F G A' \<Delta> tr"
  by (auto simp: ctx_ok_def)

lemma bind_live:
  assumes ok: "ctx_ok F G A \<Delta> tr" "result_ok rt rn \<Delta> tr" and p: "payload_ok (A - X) \<Delta> tr S p"
    and b: "ref_free t" "conforms (erase t) p'" "loc_vars p' \<subseteq> loc_vars p" "b \<noteq> ''_result''"
  shows "ctx_ok F (G(b \<mapsto> t)) (A - X - {b}) ([(b, Some t, p')] @ \<Delta>) (tr_insert_var b p' tr)"
    and "result_ok rt rn ([(b, Some t, p')] @ \<Delta>) (tr_insert_var b p' tr)"
proof -
  have own: "owns ((b, Some t, p') # \<Delta>) y" if y: "y \<in> insert ''_result'' (A - X)" "owns \<Delta> y" "y \<noteq> b" for y
  proof (rule owns_push[OF y(2,3)])
    fix u l
    assume "map_of \<Delta> y = Some (Some u, l)"
    with p y(1,2) have "loc_vars l \<inter> loc_vars p = {}" unfolding payload_ok_def by blast
    with b(3) show "loc_vars l \<inter> entry_vars (b, Some t, p') = {}" by auto
  qed
  have "loc_vars p' \<subseteq> old tr" using p b(3) by (auto simp: payload_ok_def)
  moreover have "advances tr tr" by (simp add: advances_def)
  ultimately have "ctx_ok F (G(b \<mapsto> t)) (A - X - {b}) ((b, Some t, p') # \<Delta>) (tr_insert_var b p' tr)"
  proof (intro ctx_ok_push[OF ok(1) _ refl b(1,2,4)])
    fix y
    assume "y \<in> A - X - {b}" and "(G(b \<mapsto> t)) y \<noteq> None"
    with ok(1) show "owns ((b, Some t, p') # \<Delta>) y" by (intro own) (auto simp: ctx_ok_def)
  qed
  then show "ctx_ok F (G(b \<mapsto> t)) (A - X - {b}) ([(b, Some t, p')] @ \<Delta>) (tr_insert_var b p' tr)" by simp
  have "tr_ok tr" using ok(1) by (simp add: ctx_ok_def tr_ok_def)
  from result_ok_push[OF ok(2) this b(4)] own b(4)
  show "result_ok rt rn ([(b, Some t, p')] @ \<Delta>) (tr_insert_var b p' tr)" by simp
qed

lemma bind_dead:
  assumes ok: "ctx_ok F G A \<Delta> tr" "result_ok rt rn \<Delta> tr" and b: "b \<noteq> ''_result''"
  shows "ctx_ok F (G(b := None)) (A - {b}) ([(b, None, p)] @ \<Delta>) (tr_insert_var b p tr)"
    and "result_ok rt rn ([(b, None, p)] @ \<Delta>) (tr_insert_var b p tr)"
proof -
  have own: "owns ((b, None, p) # \<Delta>) y" if "owns \<Delta> y" "y \<noteq> b" for y
    by (rule owns_push[OF that]) simp
  have tok: "tr_ok tr" using ok(1) by (simp add: ctx_ok_def tr_ok_def)
  then have lk: "lookup_var_opt (tr_insert_var b p tr) = (lookup_var_opt tr)(b \<mapsto> p)" and tok': "tr_ok (tr_insert_var b p tr)"
    by (simp_all add: tr_scopes.look_declare tr_scopes.ok_declare)
  have u: "user_functions (tr_insert_var b p tr) = user_functions tr" "old (tr_insert_var b p tr) = old tr"
    by (simp_all add: tr_insert_var_def old_def split: option.split)
  have "vars_match (G(b := None)) (tr_insert_var b p tr)"
    using ok(1) lk by (auto simp: ctx_ok_def agrees_def vars_match_def)
  moreover have "visible ([(b, None, p)] @ \<Delta>) (G(b := None)) (tr_insert_var b p tr)"
    using ok(1) lk by (auto simp: ctx_ok_def visible_def)
  ultimately show "ctx_ok F (G(b := None)) (A - {b}) ([(b, None, p)] @ \<Delta>) (tr_insert_var b p tr)"
    using ok(1) own u tok' by (auto simp: ctx_ok_def agrees_def tr_ok_def)
  from result_ok_push[OF ok(2) tok b] own b
  show "result_ok rt rn ([(b, None, p)] @ \<Delta>) (tr_insert_var b p tr)" by simp
qed

section \<open>The statement\<close>

lemma lowered_match:
  assumes wt: "wt_expr F G e t" "type_eq target t" and plain: "expr_plain e" "ref_free target" "0 < shape_slots (erase target)"
    and ok: "ctx_ok F G A \<Delta> tr" "result_ok rt rn \<Delta> tr" and calls: "calls_refine F (user_functions tr) H C"
    and alts: "\<And>z p. ctx_ok F G A \<Delta> z \<Longrightarrow> result_ok rt rn \<Delta> z \<Longrightarrow> user_functions z = user_functions tr \<Longrightarrow>
      payload_ok (A - flow_vars (user_functions tr) e) \<Delta> z (erase target) p \<Longrightarrow>
      alts_lowered rn (erase rt) C H R \<Delta> z (erase target) p alts (gen_alts (strip_named target) p alts z)"
  shows "lowered F rt rn C \<Delta> tr G A (gen_stmt (Stmt sp (SMatch target e alts)) tr) True
    (\<lambda>n. hstmt H R n (Stmt sp (SMatch target e alts)))"
proof -
  obtain out loc c "is" where g: "ref_free t" "gen_expr e tr = Inr (out, loc, tr\<lparr>counter := c\<rparr>)"
      "conforms (erase t) loc" "counter tr \<le> c" "loc_vars loc \<subseteq> accessible G tr \<union> stack_name ` set is"
    and code: "code_ok tr (tr\<lparr>counter := c\<rparr>) out (map stack_name is)"
    and run: "\<And>b \<rho> \<sigma> w n. dyn \<Delta> \<rho> \<sigma> \<Longrightarrow> ready b (stack_name ` set is) tr (tr\<lparr>counter := c\<rparr>) \<sigma> \<Longrightarrow>
       sim (ends (\<lambda>\<sigma>' v. holds \<sigma>' loc (erase t) v \<and> dyn \<Delta> \<rho> \<sigma>') (set is) \<sigma>) (heval H (map_of \<rho>) e w)
         (yseq C n (hoisted b out) \<sigma> w)"
    by (rule expr_in_ctx[OF wt(1) plain(1) ok(1) calls]) blast
  have et: "erase t = erase target" by (rule type_eq_erases[OF wt(2) plain(2) g(1)])
  let ?z = "tr\<lparr>counter := c\<rparr>"
  have adv: "advances tr ?z" by (rule advances_counter[OF g(4)])
  have okz: "ctx_ok F G A \<Delta> ?z" "result_ok rt rn \<Delta> ?z"
    using ctx_ok_advances[OF ok(1) adv] result_ok_advances[OF ok(2)] by simp_all
  obtain tag p ce where sp: "split_tag (normalize_loc loc) = Inr (tag, p)" "load_loc tag = Inr ce"
    "loc_vars p \<subseteq> loc_vars loc"
    "\<And>a b. erase target = ShSum a b \<Longrightarrow> size_of_loc p = max (shape_slots a) (shape_slots b)"
    "\<And>\<sigma> v w. holds \<sigma> loc (erase target) v \<Longrightarrow> \<exists>x. yeval1 C \<sigma> ce w = Inr (x, w) \<and> scrutinee \<sigma> (erase target) p v x"
    by (rule split_scrutinee[OF g(3)[unfolded et] plain(3)]) blast
  have "loc_vars loc \<subseteq> old ?z"
  proof -
    have "accessible G tr \<subseteq> live_vars \<Delta>"
    proof
      fix y
      assume "y \<in> accessible G tr"
      then obtain x u l where x: "G x = Some u" "lookup_var_opt tr x = Some l" "y \<in> loc_vars l"
        by (auto simp: accessible_def)
      with ctx_lookup[OF ok(1) x(1)] have "(x, Some u, l) \<in> set \<Delta>" by (auto dest: map_of_SomeD)
      with x(3) show "y \<in> live_vars \<Delta>" by (force simp: live_vars_def)
    qed
    moreover have "live_vars \<Delta> \<subseteq> old ?z" using okz(1) by (simp add: ctx_ok_def)
    moreover have "stack_name ` set is \<subseteq> old ?z"
      using code_ok_facts(3)[OF code] by (auto simp: consumed_counter old_def)
    ultimately show ?thesis using g(5) by blast
  qed
  moreover have "loc_vars l \<inter> loc_vars p = {}"
    if x: "x \<in> insert ''_result'' (A - flow_vars (user_functions tr) e)" "owns \<Delta> x" "map_of \<Delta> x = Some (Some u, l)" for x u l
  proof -
    have "''_result'' \<notin> flow_vars (user_functions tr) e"
      using wt_names(2)[OF wt(1)] flow_names ok(1) by (fastforce simp: ctx_ok_def)
    then have "x \<notin> flow_vars (user_functions tr) e" using x(1) by blast
    from expr_apart[OF ok(1) wt(1) g(2) x(2,3) this] sp(3) show ?thesis by blast
  qed
  ultimately have "payload_ok (A - flow_vars (user_functions tr) e) \<Delta> ?z (erase target) p"
    using sp(3,4) unfolding payload_ok_def by blast
  from alts[OF okz _ this] obtain cases dflt tr' where r: "gen_alts (strip_named target) p alts ?z = Inr (cases, dflt, tr')"
    "advances ?z tr'" "tr_vars tr' = tr_vars tr"
    and runs: "\<And>\<rho> \<sigma> w n v x. dyn \<Delta> \<rho> \<sigma> \<Longrightarrow> set rn \<subseteq> dom \<sigma> \<Longrightarrow> ready True {} ?z tr' \<sigma> \<Longrightarrow> scrutinee \<sigma> (erase target) p v x \<Longrightarrow>
       sim (\<lambda>(hm, \<rho>, w1) (m, \<sigma>', w2). w2 = w1 \<and> closed rn (erase rt) \<Delta> \<sigma> hm \<rho> m \<sigma>')
         (alt_run H R n v alts \<rho> w) (case_run C n x cases dflt \<sigma> w)"
    unfolding alts_lowered_def by auto
  let ?sw = "YSwitch ce cases dflt"
  show ?thesis
  proof (rule loweredI)
    show "gen_stmt (Stmt sp (SMatch target e alts)) tr = Inr (out @ [?sw], tr')"
      by (simp add: g(2) sp(1,2) r(1))
    show "leads F rt rn G A ([] @ \<Delta>) tr tr'"
      using leads_same[OF ok advances_trans[OF adv r(2)] r(3)] by simp
    show "executes C rn (erase rt) \<Delta> ([] @ \<Delta>) tr tr' (out @ [?sw]) (map stack_name is) True
        (\<lambda>n. hstmt H R n (Stmt sp (SMatch target e alts)))"
    proof (rule executesI)
      have "code_ok ?z tr' [?sw] []" by (rule code_ok_plain[OF r(2)]) simp
      from code_ok_append[OF code this] show "code_ok tr tr' (out @ [?sw]) (map stack_name is)" by simp
      fix b \<rho> \<sigma> w n
      assume d: "dyn \<Delta> \<rho> \<sigma>" "set rn \<subseteq> dom \<sigma>" and rdy: "ready b (set (map stack_name is)) tr tr' \<sigma>"
      have r1: "ready b (stack_name ` set is) tr ?z \<sigma>"
        using ready_first[of b "stack_name ` set is" "{}" tr tr' \<sigma> ?z] rdy r(2) by simp
      have hb: "hoisted b [?sw] = [?sw]" by (simp add: hoisted_def)
      show "sim (fin rn (erase rt) \<Delta> ([] @ \<Delta>) (set (map stack_name is)) \<sigma>)
          (hstmt H R n (Stmt sp (SMatch target e alts)) \<rho> w) (yseq C n (hoisted b (out @ [?sw])) \<sigma> w)"
        unfolding hoisted_append hb yseq_append hstmt.simps
      proof (rule sim_bind[OF run[OF d(1) r1]], erule endsE, hypsubst, simp only: prod.case simp_thms if_True yseq_single)
        fix v w1 \<sigma>1
        assume ch: "changes (set is) \<sigma> \<sigma>1" and h: "holds \<sigma>1 loc (erase t) v \<and> dyn \<Delta> \<rho> \<sigma>1"
        obtain x where x: "yeval1 C \<sigma>1 ce w1 = Inr (x, w1)" "scrutinee \<sigma>1 (erase target) p v x"
          using sp(5)[of \<sigma>1 v w1] h et by auto
        have dom1: "dom \<sigma>1 = dom \<sigma> \<union> stack_name ` set is" using ch by (simp add: changes_def)
        then have rn: "set rn \<subseteq> dom \<sigma>1" using d(2) by blast
        have "ready b {} ?z tr' \<sigma>1"
          by (rule ready_second[of b "stack_name ` set is" "{}" tr tr' \<sigma>, OF _ adv _ dom1])
             (use rdy code_ok_facts(3)[OF code] in simp_all)
        then have "ready True {} ?z tr' \<sigma>1" by (auto simp: ready_def)
        from runs[OF h[THEN conjunct2] rn this x(2), of n w1]
        have "sim (fin rn (erase rt) \<Delta> ([] @ \<Delta>) (set (map stack_name is)) \<sigma>)
           (alt_run H R n v alts \<rho> w1) (case_run C n x cases dflt \<sigma>1 w1)"
        proof (rule sim_mono, clarify)
          fix hm \<rho>2 w2 m \<sigma>2
          assume "closed rn (erase rt) \<Delta> \<sigma>1 hm \<rho>2 m \<sigma>2"
          then have "finishes rn (erase rt) \<Delta> \<Delta> (stack_name ` set is) \<sigma> hm \<rho>2 m \<sigma>2"
            using dom1 by (cases hm) (auto simp: closed_def dest: inner_dyn[of "[]", simplified])
          then show "fin rn (erase rt) \<Delta> ([] @ \<Delta>) (set (map stack_name is)) \<sigma> (hm, \<rho>2, w2) (m, \<sigma>2, w2)" by simp
        qed
        moreover have "ystmt C n ?sw \<sigma>1 w1 = case_run C n x cases dflt \<sigma>1 w1"
          by (simp add: x(1) case_run_def)
        ultimately show "sim (fin rn (erase rt) \<Delta> ([] @ \<Delta>) (set (map stack_name is)) \<sigma>)
            (case find_alt v alts of None \<Rightarrow> Inr (HNormal, \<rho>, w1)
             | Some (\<rho>1, body) \<Rightarrow> hblock H R n (length \<rho>) body (\<rho>1 @ \<rho>) w1) (ystmt C n ?sw \<sigma>1 w1)"
          by (simp add: alt_run_def)
      qed
    qed
  qed simp
qed

end
