(* ===== verification/Lower_Preserves.thy ===== *)
theory Lower_Preserves
  imports Lower_Match
begin

text \<open>
  Lowering preserves the meaning of statements: the lemmas about the kinds of statement, put
  together by induction over the code.
\<close>

lemma no_declarations:
  "list_all not_let ss \<Longrightarrow> fold after ss G = G"
  "list_all not_let ss \<Longrightarrow> fold own ss A = A"
proof (induction ss)
  case (Cons s ss)
  have "not_let s \<Longrightarrow> after s G = G" by (cases "(s, G)" rule: after.cases) auto
  moreover have "not_let s \<Longrightarrow> own s A = A" by (cases "(s, A)" rule: own.cases) auto
  ultimately show "list_all not_let (s # ss) \<Longrightarrow> fold after (s # ss) G = G"
    "list_all not_let (s # ss) \<Longrightarrow> fold own (s # ss) A = A" using Cons by simp_all
qed simp_all

section \<open>The alternatives of a match\<close>

text \<open>The constructor patterns select by the tag and bind the reshaped payload.\<close>

lemma injection_payload:
  assumes c: "c = Inl_con \<and> t = l \<and> tag = VInl \<or> c = Inr_con \<and> t = r \<and> tag = VInr"
    and k: "ty_kind (strip_named target) = TySum l r" and p: "payload_ok A \<Delta> tr (erase target) p"
  obtains lit p' where "con_lit (strip_named target) c = Inr lit" "con_payload (strip_named target) c p = Inr p'"
    "conforms (erase t) p'" "loc_vars p' \<subseteq> loc_vars p"
    "\<And>\<sigma> v x. scrutinee \<sigma> (erase target) p v x \<Longrightarrow> lit_word lit = Some x \<longleftrightarrow> pat_fits (PCon c) v"
    "\<And>\<sigma> v x. scrutinee \<sigma> (erase target) p v x \<Longrightarrow> pat_fits (PCon c) v \<Longrightarrow>
       \<exists>u. v = tag u \<and> holds \<sigma> p' (erase t) u"
proof -
  have e: "erase target = ShSum (erase l) (erase r)" using k by (rule erase_of_strip_kind)
  have size: "shape_slots (erase t) \<le> size_of_loc p" using p c e by (auto simp: payload_ok_def)
  obtain p' where p': "reshape_loc t p = Inr p'" "conforms (erase t) p'" "loc_vars p' \<subseteq> loc_vars p"
    "\<And>\<sigma> v. readable \<sigma> p \<Longrightarrow> enc (erase t) v (take (shape_slots (erase t)) (rd \<sigma> p)) \<Longrightarrow> holds \<sigma> p' (erase t) v"
    using reshape_holds[OF size] by blast
  show ?thesis
    using c
  proof (elim disjE conjE)
    assume c: "c = Inl_con" "t = l" "tag = VInl"
    show ?thesis
      by (rule that[of "YBool False" p'])
         (use c k e p' in \<open>auto simp: con_payload.simps[of "strip_named target"] scrutinee_def\<close>)
  next
    assume c: "c = Inr_con" "t = r" "tag = VInr"
    show ?thesis
      by (rule that[of "YBool True" p'])
         (use c k e p' in \<open>auto simp: con_payload.simps[of "strip_named target"] scrutinee_def\<close>)
  qed
qed

lemma payload_type_con:
  assumes "payload_type target (Pat psp (PCon c)) = Some t" and "\<And>k. c \<noteq> InK_con k"
  obtains l r where "ty_kind (strip_named target) = TySum l r"
    "c = Inl_con \<and> t = l \<or> c = Inr_con \<and> t = r"
  using assms by (cases c) (auto simp: payload_type_def split: ty_kind.splits)

lemma payload_type_int:
  "payload_type target (Pat psp (PIntLit v)) = Some t \<Longrightarrow> erase target = ShWord"
  by (auto simp: payload_type_def erase_kind split: ty_kind.splits)

section \<open>Statements\<close>

text \<open>What has to hold where the code of statements is generated.\<close>

definition lowers_from ::
  "(name \<rightharpoonup> fun_sig) \<Rightarrow> (name \<Rightarrow> ty option) \<Rightarrow> name set \<Rightarrow> ctx \<Rightarrow> translator \<Rightarrow> ty \<Rightarrow> name list \<Rightarrow> name set \<Rightarrow> bool" where
  "lowers_from F G A \<Delta> tr rt rn users \<longleftrightarrow>
     ctx_ok F G A \<Delta> tr \<and> result_ok rt rn \<Delta> tr \<and> user_functions tr = users"

lemma lowers_from_enter: "lowers_from F G A \<Delta> tr rt rn users \<Longrightarrow> lowers_from F G A \<Delta> (push_env tr) rt rn users"
  by (simp add: lowers_from_def ctx_ok_enter result_ok_enter ctx_ok_def[of F G A \<Delta> tr] tr_ok_def)
     (simp add: push_env_def)

lemma insert_users: "user_functions (tr_insert_var x loc tr) = user_functions tr"
  by (simp add: tr_insert_var_def split: option.split)

lemma lowers_from_dead:
  "lowers_from F G A \<Delta> tr rt rn users \<Longrightarrow> b \<noteq> ''_result'' \<Longrightarrow>
     lowers_from F (G(b := None)) (A - {b}) ([(b, None, p)] @ \<Delta>) (tr_insert_var b p tr) rt rn users"
  using bind_dead[of F G A \<Delta> tr rt rn b p] by (simp add: lowers_from_def insert_users)

lemma lowers_from_tr_ok: "lowers_from F G A \<Delta> tr rt rn users \<Longrightarrow> tr_ok tr"
  by (simp add: lowers_from_def ctx_ok_def tr_ok_def)

lemma lowers_from_step:
  "lowers_from F G A \<Delta> tr rt rn users \<Longrightarrow> advances tr tr' \<Longrightarrow> tr_vars tr' = tr_vars tr \<Longrightarrow>
     lowers_from F G A \<Delta> tr' rt rn users"
  using ctx_ok_advances[of F G A \<Delta> tr tr'] result_ok_advances[of rt rn \<Delta> tr tr']
  by (simp add: lowers_from_def) (simp add: advances_def)

lemma alts_lower_con:
  assumes st: "lowers_from F G A \<Delta> tr rt rn users" and p: "payload_ok (A - X) \<Delta> tr (erase target) p"
    and target: "ref_free target" and b: "b \<noteq> ''_result''"
    and t: "payload_type target (Pat psp (PCon c)) = Some t" "\<And>k. c \<noteq> InK_con k"
    and body: "\<And>z B. lowers_from F (G(b \<mapsto> t)) (A - X - {b}) (B @ \<Delta>) z rt rn users \<Longrightarrow>
      lowered F rt rn C (B @ \<Delta>) z G' A' (gen_stmts body z) h (\<lambda>n. hstmts H R n body)"
    and rest: "\<And>tr1. lowers_from F G A \<Delta> tr1 rt rn users \<Longrightarrow> payload_ok (A - X) \<Delta> tr1 (erase target) p \<Longrightarrow>
      alts_lowered rn (erase rt) C H R \<Delta> tr1 (erase target) p alts (gen_alts (strip_named target) p alts tr1)"
  shows "alts_lowered rn (erase rt) C H R \<Delta> tr (erase target) p (Alt sp (Pat psp (PCon c)) b body # alts)
    (gen_alts (strip_named target) p (Alt sp (Pat psp (PCon c)) b body # alts) tr)"
proof -
  obtain l r where k: "ty_kind (strip_named target) = TySum l r" and cases: "c = Inl_con \<and> t = l \<or> c = Inr_con \<and> t = r"
    using payload_type_con[OF t] by blast
  obtain tag where c: "c = Inl_con \<and> t = l \<and> tag = VInl \<or> c = Inr_con \<and> t = r \<and> tag = VInr" using cases by blast
  obtain lit p' where g: "con_lit (strip_named target) c = Inr lit" "con_payload (strip_named target) c p = Inr p'"
    and p': "conforms (erase t) p'" "loc_vars p' \<subseteq> loc_vars p"
    and fit: "\<And>\<sigma> v x. scrutinee \<sigma> (erase target) p v x \<Longrightarrow> lit_word lit = Some x \<longleftrightarrow> pat_fits (PCon c) v"
    and val: "\<And>\<sigma> v x. scrutinee \<sigma> (erase target) p v x \<Longrightarrow> pat_fits (PCon c) v \<Longrightarrow>
       \<exists>u. v = tag u \<and> holds \<sigma> p' (erase t) u"
    using injection_payload[OF c k p] by blast
  have rf: "ref_free t" using ref_free_parts(2)[OF k] target cases by auto
  let ?z = "tr_insert_var b p' (push_env tr)"
  have in_scope: "lowers_from F (G(b \<mapsto> t)) (A - X - {b}) ([(b, Some t, p')] @ \<Delta>) ?z rt rn users"
  proof -
    have e: "ctx_ok F G A \<Delta> (push_env tr)" "result_ok rt rn \<Delta> (push_env tr)"
      using lowers_from_enter[OF st] by (simp_all add: lowers_from_def)
    have "payload_ok (A - X) \<Delta> (push_env tr) (erase target) p"
      using p by (simp add: payload_ok_def enter_vars old_def)
    from bind_live[OF e this rf p' b] st show ?thesis by (simp add: lowers_from_def insert_users enter_vars)
  qed
  have z: "same_supply ?z tr"
    using same_supply_insert[OF same_supply_enter] lowers_from_tr_ok[OF lowers_from_enter[OF st]] by blast
  have "alts_lowered rn (erase rt) C H R \<Delta> tr (erase target) p (Alt sp (Pat psp (PCon c)) b body # alts)
    (res_bind (gen_stmts body ?z) (\<lambda>(body, tr).
       res_bind (gen_alts (strip_named target) p alts (pop_env tr)) (\<lambda>(cases, dflt, tr).
         Inr (YCase lit body # cases, dflt, tr))))"
  proof (rule alts_case[OF body[OF in_scope] z _ fit])
    fix tr1
    assume "advances tr tr1" and "tr_vars tr1 = tr_vars tr"
    then show "alts_lowered rn (erase rt) C H R \<Delta> tr1 (erase target) p alts (gen_alts (strip_named target) p alts tr1)"
      by (intro rest lowers_from_step[OF st] payload_ok_advances[OF p])
  next
    fix \<rho> \<sigma> v x
    assume d: "dyn \<Delta> \<rho> \<sigma>" and s: "scrutinee \<sigma> (erase target) p v x" "pat_fits (PCon c) v"
    from val[OF s] obtain u where "v = tag u" "holds \<sigma> p' (erase t) u" by blast
    with d c show "dyn ([(b, Some t, p')] @ \<Delta>) (pat_binds (PCon c) b v @ \<rho>) \<sigma>" by auto
  qed
  then show ?thesis using g by simp
qed

text \<open>Alternatives whose binder is not used.\<close>

lemma alts_lower_int:
  assumes st: "lowers_from F G A \<Delta> tr rt rn users" and p: "payload_ok (A - X) \<Delta> tr (erase target) p"
    and t: "erase target = ShWord" and v: "literal_error v = None" and b: "b \<noteq> ''_result''"
    and body: "\<And>z B. lowers_from F (G(b := None)) (A - {b}) (B @ \<Delta>) z rt rn users \<Longrightarrow>
      lowered F rt rn C (B @ \<Delta>) z G' A' (gen_stmts body z) h (\<lambda>n. hstmts H R n body)"
    and rest: "\<And>tr1. lowers_from F G A \<Delta> tr1 rt rn users \<Longrightarrow> payload_ok (A - X) \<Delta> tr1 (erase target) p \<Longrightarrow>
      alts_lowered rn (erase rt) C H R \<Delta> tr1 (erase target) p alts (gen_alts T p alts tr1)"
  shows "alts_lowered rn (erase rt) C H R \<Delta> tr (erase target) p (Alt sp (Pat psp (PIntLit v)) b body # alts)
    (gen_alts T p (Alt sp (Pat psp (PIntLit v)) b body # alts) tr)"
proof -
  obtain lit where lit: "canonical_word_lit v = Inr lit" "number_word lit = Some (of_nat (literal_value v))"
    using number_word_canonical[OF v] by blast
  let ?z = "tr_insert_var b p (push_env tr)"
  note in_scope = lowers_from_dead[OF lowers_from_enter[OF st] b, of p]
  have z: "same_supply ?z tr"
    using same_supply_insert[OF same_supply_enter] lowers_from_tr_ok[OF lowers_from_enter[OF st]] by blast
  have "alts_lowered rn (erase rt) C H R \<Delta> tr (erase target) p (Alt sp (Pat psp (PIntLit v)) b body # alts)
    (res_bind (gen_stmts body ?z) (\<lambda>(body, tr).
       res_bind (gen_alts T p alts (pop_env tr)) (\<lambda>(cases, dflt, tr).
         Inr (YCase (YNumber lit) body # cases, dflt, tr))))"
  proof (rule alts_case[OF body[OF in_scope] z])
    fix tr1
    assume "advances tr tr1" and "tr_vars tr1 = tr_vars tr"
    then show "alts_lowered rn (erase rt) C H R \<Delta> tr1 (erase target) p alts (gen_alts T p alts tr1)"
      by (intro rest lowers_from_step[OF st] payload_ok_advances[OF p])
  qed (use lit t in \<open>auto simp: scrutinee_def\<close>)
  moreover have "gen_alts T p (Alt sp (Pat psp (PIntLit v)) b body # alts) tr =
    res_bind (gen_stmts body ?z) (\<lambda>(body, tr).
       res_bind (gen_alts T p alts (pop_env tr)) (\<lambda>(cases, dflt, tr).
         Inr (YCase (YNumber lit) body # cases, dflt, tr)))"
    by (simp add: lit(1))
  ultimately show ?thesis by simp
qed

lemma alts_lower_default:
  assumes st: "lowers_from F G A \<Delta> tr rt rn users" and b: "b \<noteq> ''_result''"
    and k: "k = PWildcard \<and> xs = [] \<or> k = PVar x \<and> xs = [x] \<and> x \<noteq> ''_result''"
    and body: "\<And>z B. lowers_from F ((fold (\<lambda>x G. G(x := None)) xs G)(b := None)) (A - set xs - {b}) (B @ \<Delta>) z rt rn users \<Longrightarrow>
      lowered F rt rn C (B @ \<Delta>) z G' A' (gen_stmts body z) h (\<lambda>n. hstmts H R n body)"
  shows "alts_lowered rn (erase rt) C H R \<Delta> tr S p [Alt sp (Pat psp k) b body]
    (gen_alts T p [Alt sp (Pat psp k) b body] tr)"
proof -
  note ent = lowers_from_enter[OF st]
  have gen: "gen_alts T p [Alt sp (Pat psp k) b body] tr =
      res_bind (gen_stmts body (tr_insert_var b p (fold (\<lambda>x. tr_insert_var x p) xs (push_env tr))))
        (\<lambda>(body, tr). Inr ([], Some body, pop_env tr))"
    using k by auto
  show ?thesis
    using k
  proof (elim disjE conjE)
    assume k: "k = PWildcard" "xs = []"
    let ?z = "tr_insert_var b p (push_env tr)"
    have z: "same_supply ?z tr" using same_supply_insert[OF same_supply_enter lowers_from_tr_ok[OF ent]] .
    have "lowered F rt rn C ([(b, None, p)] @ \<Delta>) ?z G' A' (gen_stmts body ?z) h (\<lambda>n. hstmts H R n body)"
      using lowers_from_dead[OF ent b, of p] k by (intro body) simp
    from alts_default[OF this z, of k b] k gen show ?thesis by simp
  next
    assume k: "k = PVar x" "xs = [x]" and x: "x \<noteq> ''_result''"
    let ?z1 = "tr_insert_var x p (push_env tr)"
    let ?z = "tr_insert_var b p ?z1"
    note 1 = lowers_from_dead[OF ent x, of p]
    have z: "same_supply ?z tr"
      using same_supply_insert[OF same_supply_insert[OF same_supply_enter lowers_from_tr_ok[OF ent]] lowers_from_tr_ok[OF 1]] .
    have "lowered F rt rn C ([(b, None, p), (x, None, p)] @ \<Delta>) ?z G' A' (gen_stmts body ?z) h (\<lambda>n. hstmts H R n body)"
      using lowers_from_dead[OF 1 b, of p] k by (intro body) simp
    from alts_default[OF this z, of k b] k gen show ?thesis by simp
  qed
qed

section \<open>All code\<close>

lemma wt_var: "wt_expr F G (Expr sp a (EVar x)) t \<Longrightarrow> G x = Some t"
  by (auto elim!: wt_exprE elim: wt_infer.cases)

lemma leads_from:
  "leads F rt rn G' A' \<Delta>' tr tr' \<Longrightarrow> advances tr tr' \<Longrightarrow> lowers_from F G A \<Delta> tr rt rn users \<Longrightarrow>
     lowers_from F G' A' \<Delta>' tr' rt rn users"
  by (simp add: leads_def lowers_from_def advances_def)

lemma wt_body_dead:
  assumes "wt_stmts F r (G(b \<mapsto> t)) body" and "b \<notin> names_of body" and "set xs \<inter> names_of body = {}"
  shows "wt_stmts F r ((fold (\<lambda>x G. G(x := None)) xs G)(b := None)) body"
proof -
  have "fold (\<lambda>x G. G(x := None)) xs G y = G y" if "y \<notin> set xs" for y
    using that by (induction xs arbitrary: G) auto
  then show ?thesis by (intro wt_stmts_cong(1)[OF assms(1)]) (use assms(2,3) in auto)
qed

lemma hstmt_jumps:
  "hstmt H R n (Stmt sp SBreak) = (\<lambda>\<rho> w. Inr (HBreak, \<rho>, w))"
  "hstmt H R n (Stmt sp SContinue) = (\<lambda>\<rho> w. Inr (HContinue, \<rho>, w))"
  "hstmt H R n (Stmt sp (SComment comment)) = (\<lambda>\<rho> w. Inr (HNormal, \<rho>, w))"
  by (simp_all add: fun_eq_iff)

lemma code_lowers:
  assumes rev: "reverts_refine R C"
  shows "calls_refine F users H C \<Longrightarrow> wt_stmts F (Some rt) G ss \<Longrightarrow> plain_stmts users A ss \<Longrightarrow>
      lowers_from F G A \<Delta> tr rt rn users \<Longrightarrow>
      lowered F rt rn C \<Delta> tr (fold after ss G) (fold own ss A) (gen_stmts ss tr) (list_all not_let ss)
        (\<lambda>n. hstmts H R n ss)"
    and "calls_refine F users H C \<Longrightarrow> wt_stmt F (Some rt) G s \<Longrightarrow> plain_stmt users A s \<Longrightarrow>
      lowers_from F G A \<Delta> tr rt rn users \<Longrightarrow>
      lowered F rt rn C \<Delta> tr (after s G) (own s A) (gen_stmt s tr) (not_let s) (\<lambda>n. hstmt H R n s)"
    and "calls_refine F users H C \<Longrightarrow> wt_alts F (Some rt) G target alts \<Longrightarrow> plain_alts users A X alts \<Longrightarrow>
      defaults_last alts \<Longrightarrow> ref_free target \<Longrightarrow> lowers_from F G A \<Delta> tr rt rn users \<Longrightarrow>
      payload_ok (A - X) \<Delta> tr (erase target) p \<Longrightarrow>
      alts_lowered rn (erase rt) C H R \<Delta> tr (erase target) p alts (gen_alts (strip_named target) p alts tr)"
proof (induction users A ss and users A s and users A X alts arbitrary: G \<Delta> tr and G \<Delta> tr and G \<Delta> tr target p
    rule: plain_stmts_plain_stmt_plain_alts.induct)
  case (1 users A)
  then have ok: "ctx_ok F G A \<Delta> tr" "result_ok rt rn \<Delta> tr" by (simp_all add: lowers_from_def)
  have "lowered F rt rn C \<Delta> tr G A (Inr ([], tr)) True (\<lambda>n. hstmts H R n [])"
    by (rule lowered_plain[OF ok refl]) simp_all
  then show ?case by (simp del: hstmts.simps)
next
  case (2 users A s ss)
  have s: "lowered F rt rn C \<Delta> tr (after s G) (own s A) (gen_stmt s tr) (not_let s) (\<lambda>n. hstmt H R n s)"
    by (rule 2(1)[OF 2(3) _ _ 2(6)]) (use 2(4,5) in simp_all)
  have "lowered F rt rn C \<Delta> tr (fold after ss (after s G)) (fold own ss (own s A))
      (res_bind (gen_stmt s tr) (\<lambda>(out, tr). res_bind (gen_stmts ss tr) (\<lambda>(outs, tr). Inr (out @ outs, tr))))
      (not_let s \<and> list_all not_let ss)
      (\<lambda>n \<rho> w. res_bind (hstmt H R n s \<rho> w) (\<lambda>(m, \<rho>, w). if m = HNormal then hstmts H R n ss \<rho> w else Inr (m, \<rho>, w)))"
  proof (rule lowered_seq[OF s])
    fix out tr1 and Y :: ctx
    assume "advances tr tr1" and "leads F rt rn (after s G) (own s A) (Y @ \<Delta>) tr tr1"
    from leads_from[OF this(2,1) 2(6)]
    show "lowered F rt rn C (Y @ \<Delta>) tr1 (fold after ss (after s G)) (fold own ss (own s A)) (gen_stmts ss tr1)
        (list_all not_let ss) (\<lambda>n. hstmts H R n ss)"
      by (intro 2(2)[OF 2(3)]) (use 2(4,5) in simp_all)
  qed
  then show ?case by simp
next
  case (3 users A sp x t)
  then show ?case
    using lowered_let[of F G A \<Delta> tr rt rn t x C] by (simp add: lowers_from_def fun_upd_def)
next
  case (4 users A sp lhs rhs)
  obtain lsp a x where lhs: "lhs = Expr lsp a (EVar x)" "x \<in> A" "x \<notin> flow_vars users rhs"
    using 4(3) by (auto split: expr.splits expr_kind.splits)
  from 4(2) lhs(1) obtain t u where t: "G x = Some t" "wt_expr F G rhs u" "type_eq t u"
    by (auto dest: wt_var)
  from lowered_assign[OF t, of A tr \<Delta> rt rn H C lsp a] 4 lhs show ?case
    by (simp add: lowers_from_def)
next
  case (5 users A sp e)
  then obtain t where "wt_expr F G e t" by auto
  from lowered_expr[OF this, of A \<Delta> tr rt rn H C] 5 show ?case by (simp add: lowers_from_def)
next
  case (6 users A sp e)
  then obtain t where "wt_expr F G e t" "type_eq rt t" by auto
  from lowered_return[OF this, of A \<Delta> tr rn H C sp] 6 show ?case by (simp add: lowers_from_def)
next
  case (7 users A sp ss)
  have "lowered F rt rn C \<Delta> (push_env tr) (fold after ss G) (fold own ss A) (gen_stmts ss (push_env tr))
      (list_all not_let ss) (\<lambda>n. hstmts H R n ss)"
    by (rule 7(1)[OF 7(2) _ _ lowers_from_enter[OF 7(5)]]) (use 7(3,4) in simp_all)
  from lowered_block[OF _ _ this] 7(5) show ?case by (simp add: lowers_from_def)
next
  case (8 users A sp init cond post body)
  let ?G = "fold after init G" and ?A = "fold own init A"
  from 8(5) obtain t where t: "wt_expr F ?G cond t" "is_bool_like t" by auto
  note same = no_declarations[of post, unfolded list_all_iff[symmetric]]
  have nl: "list_all not_let post" using 8(6) by simp
  have init: "lowered F rt rn C \<Delta> (push_env tr) ?G ?A (gen_stmts init (push_env tr))
      (list_all not_let init) (\<lambda>n. hstmts H R n init)"
    by (rule 8(1)[OF 8(4) _ _ lowers_from_enter[OF 8(7)]]) (use 8(5,6) in simp_all)
  have post: "lowered F rt rn C \<Delta>1 z ?G ?A (gen_stmts post z) True (\<lambda>n. hstmts H R n post)"
    if "lowers_from F ?G ?A \<Delta>1 z rt rn users" for \<Delta>1 z
    using 8(2)[OF 8(4) _ _ that] 8(5,6) nl by (simp add: same)
  have body: "lowered F rt rn C \<Delta>1 z (fold after body ?G) (fold own body ?A) (gen_stmts body z)
      (list_all not_let body) (\<lambda>n. hstmts H R n body)"
    if "lowers_from F ?G ?A \<Delta>1 z rt rn users" for \<Delta>1 z
    by (rule 8(3)[OF 8(4) _ _ that]) (use 8(5,6) nl in \<open>simp_all add: same\<close>)
  have ok: "ctx_ok F G A \<Delta> tr" "result_ok rt rn \<Delta> tr" "user_functions tr = users"
    using 8(7) by (simp_all add: lowers_from_def)
  have "lowered F rt rn C \<Delta> tr G A (gen_stmt (Stmt sp (SFor init cond post body)) tr) True
      (\<lambda>n. hstmt H R n (Stmt sp (SFor init cond post body)))"
  proof (rule lowered_for[OF ok(1,2) _ init t])
    show "calls_refine F (user_functions tr) H C" "expr_plain cond" using 8(4,6) ok(3) by simp_all
  qed (auto intro!: post body simp: lowers_from_def ok(3))
  then show ?case by (simp del: gen_stmt.simps hstmt.simps)
next
  case (9 users A sp target e alts)
  from 9(3) obtain t where t: "wt_expr F G e t" "type_eq target t" "wt_alts F (Some rt) G target alts" by auto
  have "alts_lowered rn (erase rt) C H R \<Delta> z (erase target) p alts (gen_alts (strip_named target) p alts z)"
    if "lowers_from F G A \<Delta> z rt rn users" "payload_ok (A - flow_vars users e) \<Delta> z (erase target) p" for z p
    by (rule 9(1)[OF 9(2) t(3) _ _ _ that]) (use 9(4) in simp_all)
  with lowered_match[OF t(1,2), of A \<Delta> tr rt rn H C R alts sp] 9(2,4,5) show ?case
    by (simp add: lowers_from_def del: gen_stmt.simps hstmt.simps)
next
  case (11 users A sp message)
  then show ?case using lowered_revert[of F G A \<Delta> tr rt rn R C message] rev by (simp add: lowers_from_def)
next
  case (14 users A X sp psp c b body alts)
  have c: "\<And>k. c \<noteq> InK_con k" and b: "b \<noteq> ''_result''" using 14(5) by (auto split: con.splits)
  from 14(4) obtain t where t: "payload_type target (Pat psp (PCon c)) = Some t" "wt_stmts F (Some rt) (G(b \<mapsto> t)) body"
    "wt_alts F (Some rt) G target alts" by auto
  show ?case
  proof (rule alts_lower_con[OF 14(8,9,7) b t(1) c])
    fix z B
    have pb: "plain_stmts users (A - X - {b}) body" using 14(5) by simp
    assume "lowers_from F (G(b \<mapsto> t)) (A - X - {b}) (B @ \<Delta>) z rt rn users"
    then show "lowered F rt rn C (B @ \<Delta>) z (fold after body (G(b \<mapsto> t))) (fold own body (A - X - {b})) (gen_stmts body z)
        (list_all not_let body) (\<lambda>n. hstmts H R n body)"
      by (rule 14(1)[OF 14(3) t(2) pb])
  next
    fix z
    assume "lowers_from F G A \<Delta> z rt rn users" "payload_ok (A - X) \<Delta> z (erase target) p"
    then show "alts_lowered rn (erase rt) C H R \<Delta> z (erase target) p alts (gen_alts (strip_named target) p alts z)"
      by (intro 14(2)[OF 14(3) t(3) _ _ 14(7)]) (use 14(5,6) in simp_all)
  qed
next
  case (15 users A X sp psp v b body alts)
  from 15(4) obtain t where t: "payload_type target (Pat psp (PIntLit v)) = Some t" "wt_stmts F (Some rt) (G(b \<mapsto> t)) body"
    "wt_alts F (Some rt) G target alts" by auto
  from 15(5) have v: "literal_error v = None" "b \<noteq> ''_result''" "b \<notin> names_of body" by simp_all
  have wt: "wt_stmts F (Some rt) (G(b := None)) body"
    using wt_body_dead[OF t(2) v(3), of "[]"] by simp
  show ?case
  proof (rule alts_lower_int[OF 15(8,9) payload_type_int[OF t(1)] v(1,2)])
    fix z B
    have pb: "plain_stmts users (A - {b}) body" using 15(5) by simp
    assume "lowers_from F (G(b := None)) (A - {b}) (B @ \<Delta>) z rt rn users"
    then show "lowered F rt rn C (B @ \<Delta>) z (fold after body (G(b := None))) (fold own body (A - {b})) (gen_stmts body z)
        (list_all not_let body) (\<lambda>n. hstmts H R n body)"
      by (rule 15(1)[OF 15(3) wt pb])
  next
    fix z
    assume "lowers_from F G A \<Delta> z rt rn users" "payload_ok (A - X) \<Delta> z (erase target) p"
    then show "alts_lowered rn (erase rt) C H R \<Delta> z (erase target) p alts (gen_alts (strip_named target) p alts z)"
      by (intro 15(2)[OF 15(3) t(3) _ _ 15(7)]) (use 15(5,6) in simp_all)
  qed
next
  case (16 users A X sp psp x b body alts)
  have alts: "alts = []" using 16(6) by simp
  from 16(4) obtain t where t: "wt_stmts F (Some rt) (G(b \<mapsto> t)) body" by auto
  from 16(5) have v: "x \<noteq> ''_result''" "b \<noteq> ''_result''" "x \<notin> names_of body" "b \<notin> names_of body" by simp_all
  have wt: "wt_stmts F (Some rt) (G(x := None, b := None)) body"
    using wt_body_dead[OF t v(4), of "[x]"] v(3) by simp
  have k: "PVar x = PWildcard \<and> [x] = [] \<or> PVar x = PVar x \<and> [x] = [x] \<and> x \<noteq> ''_result''" using v(1) by simp
  show ?case unfolding alts
  proof (rule alts_lower_default[OF 16(8) v(2) k])
    fix z B
    have pb: "plain_stmts users (A - {x, b}) body" using 16(5) by simp
    assume st: "lowers_from F ((fold (\<lambda>x G. G(x := None)) [x] G)(b := None)) (A - set [x] - {b}) (B @ \<Delta>) z rt rn users"
    have "A - set [x] - {b} = A - {x, b}" by auto
    with st have "lowers_from F (G(x := None, b := None)) (A - {x, b}) (B @ \<Delta>) z rt rn users"
      by (simp del: fun_upd_apply)
    then show "lowered F rt rn C (B @ \<Delta>) z (fold after body (G(x := None, b := None))) (fold own body (A - {x, b}))
        (gen_stmts body z) (list_all not_let body) (\<lambda>n. hstmts H R n body)"
      by (rule 16(1)[OF 16(3) wt pb])
  qed
next
  case (17 users A X sp psp b body alts)
  have alts: "alts = []" using 17(6) by simp
  from 17(4) obtain t where t: "wt_stmts F (Some rt) (G(b \<mapsto> t)) body" by auto
  from 17(5) have v: "b \<noteq> ''_result''" "b \<notin> names_of body" by simp_all
  have wt: "wt_stmts F (Some rt) (G(b := None)) body"
    using wt_body_dead[OF t v(2), of "[]"] by simp
  have k: "PWildcard = PWildcard \<and> [] = [] \<or> PWildcard = PVar b \<and> [] = [b] \<and> b \<noteq> ''_result''" by simp
  show ?case unfolding alts
  proof (rule alts_lower_default[OF 17(8) v(1) k])
    fix z B
    have pb: "plain_stmts users (A - {b}) body" using 17(5) by simp
    assume st: "lowers_from F ((fold (\<lambda>x G. G(x := None)) [] G)(b := None)) (A - set [] - {b}) (B @ \<Delta>) z rt rn users"
    have "A - set [] - {b} = A - {b}" by simp
    with st have "lowers_from F (G(b := None)) (A - {b}) (B @ \<Delta>) z rt rn users"
      by (simp del: fun_upd_apply)
    then show "lowered F rt rn C (B @ \<Delta>) z (fold after body (G(b := None))) (fold own body (A - {b}))
        (gen_stmts body z) (list_all not_let body) (\<lambda>n. hstmts H R n body)"
      by (rule 17(1)[OF 17(3) wt pb])
  qed
qed (auto simp: lowers_from_def lowered_jump hstmt_jumps alts_lowered_nil)

end
