(* ===== verification/Hull_Exec_Props.thy ===== *)
theory Hull_Exec_Props
  imports Hull_Plain
begin

text \<open>
  Two facts about the execution of statements. The variable \<open>_result\<close> at the bottom of an
  environment, which stands for the result of a function that has not returned yet, keeps
  its value, since no plain statement assigns it. And \<open>break\<close> and \<open>continue\<close> do not leave
  statements that have them inside loops only.
\<close>

section \<open>Jumps\<close>

fun jump_free :: "stmt \<Rightarrow> bool" and jump_free_alt :: "alt \<Rightarrow> bool" where
  "jump_free (Stmt sp SBreak) = False"
| "jump_free (Stmt sp SContinue) = False"
| "jump_free (Stmt sp (SBlock ss)) = list_all jump_free ss"
| "jump_free (Stmt sp (SFor init cond post body)) = (list_all jump_free init \<and> list_all jump_free post)"
| "jump_free (Stmt sp (SMatch target e alts)) = list_all jump_free_alt alts"
| "jump_free (Stmt sp _) = True"
| "jump_free_alt (Alt sp p b body) = list_all jump_free body"

fun completes :: "hmode \<Rightarrow> bool" where
  "completes HBreak = False"
| "completes HContinue = False"
| "completes _ = True"

section \<open>The bottom of an environment\<close>

definition based :: "hval \<Rightarrow> henv \<Rightarrow> bool" where
  "based u \<rho> \<longleftrightarrow> \<rho> \<noteq> [] \<and> last \<rho> = (''_result'', u)"

lemma based_Cons: "based u \<rho> \<Longrightarrow> based u (e # \<rho>)"
  by (simp add: based_def)

lemma based_append: "based u \<rho> \<Longrightarrow> based u (\<rho>1 @ \<rho>)"
  by (simp add: based_def)

lemma based_outer: "based u \<rho> \<Longrightarrow> 0 < k \<Longrightarrow> based u (outer k \<rho>)"
proof -
  assume "based u \<rho>" and "0 < k"
  then have "\<rho> \<noteq> []" "last \<rho> = (''_result'', u)" "length \<rho> - k < length \<rho>" by (simp_all add: based_def)
  then show "based u (outer k \<rho>)" by (simp add: based_def outer_def last_drop)
qed

lemma based_pos: "based u \<rho> \<Longrightarrow> 0 < length \<rho>"
  by (simp add: based_def)

lemma set_var_based: "set_var x v \<rho> = Some \<rho>' \<Longrightarrow> x \<noteq> ''_result'' \<Longrightarrow> based u \<rho> \<Longrightarrow> based u \<rho>'"
proof (induction \<rho> arbitrary: \<rho>')
  case (Cons p \<rho>)
  obtain y v' where p: "p = (y, v')" by fastforce
  show ?case
  proof (cases "x = y")
    case True
    with Cons.prems p show ?thesis by (auto simp: based_def split: if_splits)
  next
    case False
    with Cons.prems(1) p obtain \<rho>1 where r: "set_var x v \<rho> = Some \<rho>1" "\<rho>' = (y, v') # \<rho>1" by auto
    then have "\<rho> \<noteq> []" by auto
    with Cons.prems(3) have "based u \<rho>" by (simp add: based_def)
    with Cons.IH[OF r(1) Cons.prems(2)] r(2) show ?thesis by (simp add: based_Cons)
  qed
qed simp

lemma own_plain: "plain_stmts users A ss \<Longrightarrow> ''_result'' \<notin> A \<Longrightarrow> ''_result'' \<notin> fold own ss A"
proof (induction ss arbitrary: A)
  case (Cons s ss)
  then have "''_result'' \<notin> own s A" by (cases "(s, A)" rule: own.cases) auto
  with Cons show ?case by simp
qed simp

lemma find_alt_plain:
  "find_alt v alts = Some (\<rho>1, body) \<Longrightarrow> plain_alts users A X alts \<Longrightarrow> ''_result'' \<notin> A \<Longrightarrow>
     \<exists>A'. plain_stmts users A' body \<and> ''_result'' \<notin> A'"
proof (induction alts)
  case (Cons a alts)
  obtain sp psp k b body' where a: "a = Alt sp (Pat psp k) b body'" by (metis alt.exhaust pat.exhaust)
  show ?case
  proof (cases "pat_fits k v")
    case True
    with Cons.prems a have "body = body'" by simp
    with Cons.prems(2,3) a show ?thesis by (cases k) auto
  next
    case False
    with Cons.prems a have "find_alt v alts = Some (\<rho>1, body)" by simp
    with Cons a show ?thesis by (cases k) auto
  qed
qed simp

lemma find_alt_jumps:
  "find_alt v alts = Some (\<rho>1, body) \<Longrightarrow> list_all jump_free_alt alts \<Longrightarrow> list_all jump_free body"
proof (induction alts)
  case (Cons a alts)
  obtain sp psp k b body' where a: "a = Alt sp (Pat psp k) b body'" by (metis alt.exhaust pat.exhaust)
  with Cons show ?case by (auto split: if_splits)
qed simp

section \<open>Execution\<close>

definition keeps :: "hval \<Rightarrow> bool \<Rightarrow> henv \<Rightarrow> 'w hres \<Rightarrow> bool" where
  "keeps u j \<rho> r \<longleftrightarrow> (\<forall>m \<rho>' w. r = Inr (m, \<rho>', w) \<longrightarrow> based u \<rho>' \<and> (j \<longrightarrow> completes m))"

lemma keeps_Inl [simp]: "keeps u j \<rho> (Inl e)"
  by (simp add: keeps_def)

lemma keeps_Inr [simp]: "keeps u j \<rho> (Inr (m, \<rho>', w)) \<longleftrightarrow> based u \<rho>' \<and> (j \<longrightarrow> completes m)"
  by (auto simp: keeps_def)

lemma keeps_bind:
  assumes "keeps u j1 \<rho> r" and "\<And>m \<rho>' w. r = Inr (m, \<rho>', w) \<Longrightarrow> based u \<rho>' \<Longrightarrow> (j1 \<Longrightarrow> completes m) \<Longrightarrow> keeps u j \<rho> (f (m, \<rho>', w))"
  shows "keeps u j \<rho> (res_bind r f)"
proof (cases r)
  case (Inr p)
  obtain m \<rho>' w where "p = (m, \<rho>', w)" by (cases p)
  with Inr assms show ?thesis by (simp add: keeps_def)
qed simp

lemma keeps_eval: "(\<And>v w. keeps u j \<rho> (f (v, w))) \<Longrightarrow> keeps u j \<rho> (res_bind (r :: 'w stop + ('v \<times> 'w)) f)"
  by (cases r) auto

lemma execution_keeps:
  "plain_stmts users A ss \<Longrightarrow> ''_result'' \<notin> A \<Longrightarrow> based u \<rho> \<Longrightarrow> keeps u (list_all jump_free ss) \<rho> (hstmts H R n ss \<rho> w)"
  "plain_stmts users A ss \<Longrightarrow> ''_result'' \<notin> A \<Longrightarrow> based u \<rho> \<Longrightarrow> 0 < k \<Longrightarrow> keeps u (list_all jump_free ss) \<rho> (hblock H R n k ss \<rho> w)"
  "plain_stmt users A s \<Longrightarrow> ''_result'' \<notin> A \<Longrightarrow> based u \<rho> \<Longrightarrow> keeps u (jump_free s) \<rho> (hstmt H R n s \<rho> w)"
  "plain_stmts users A post \<Longrightarrow> plain_stmts users A body \<Longrightarrow> ''_result'' \<notin> A \<Longrightarrow> based u \<rho> \<Longrightarrow>
     keeps u (list_all jump_free post) \<rho> (hloop H R n cond post body b \<rho> w)"
proof (induction H R n ss \<rho> w and H R n k ss \<rho> w and H R n s \<rho> w and H R n cond post body b \<rho> w
    arbitrary: A and A and A and A rule: hstmts_hblock_hstmt_hloop.induct)
  case (2 H R n s ss \<rho> w)
  have o: "''_result'' \<notin> own s A" using own_plain[of users A "[s]"] 2(3,4) by simp
  have "keeps u (jump_free s) \<rho> (hstmt H R n s \<rho> w)" by (rule 2(1)[of A]) (use 2(3-5) in simp_all)
  then have "keeps u (list_all jump_free (s # ss)) \<rho> (res_bind (hstmt H R n s \<rho> w) (\<lambda>(m, \<rho>, w).
     if m = HNormal then hstmts H R n ss \<rho> w else Inr (m, \<rho>, w)))"
  proof (rule keeps_bind, simp only: prod.case)
    fix m \<rho>' w'
    assume r: "hstmt H R n s \<rho> w = Inr (m, \<rho>', w')" "based u \<rho>'" "jump_free s \<Longrightarrow> completes m"
    show "keeps u (list_all jump_free (s # ss)) \<rho> (if m = HNormal then hstmts H R n ss \<rho>' w' else Inr (m, \<rho>', w'))"
    proof (cases "m = HNormal")
      case True
      from 2(2)[OF r(1) refl refl True, of "own s A"] 2(3) o r(2) show ?thesis
        using True by (simp add: keeps_def)
    next
      case False
      with r(2,3) show ?thesis by simp
    qed
  qed
  then show ?case by simp
next
  case (3 H R n k ss \<rho> w)
  show ?case unfolding hblock.simps
    by (rule keeps_bind[OF 3(1)[OF 3(2-4)]]) (use based_outer 3(5) in auto)
next
  case (5 H R n sp spx tx x rhs \<rho> w)
  have "x \<noteq> ''_result''" using 5(1,2) by auto
  then have set: "set_var x v \<rho> = Some \<rho>' \<Longrightarrow> based u \<rho>'" for v \<rho>' using set_var_based 5(3) by blast
  show ?case unfolding hstmt.simps
    by (rule keeps_eval) (auto split: option.split dest: set)
next
  case (9 H R n sp ss \<rho> w)
  then show ?case using based_pos[of u \<rho>] by simp
next
  case (10 H R n sp init cond post body \<rho> w)
  let ?A = "fold own init A"
  have A: "''_result'' \<notin> ?A" by (rule own_plain) (use 10(3,4) in auto)
  have pos: "0 < length \<rho>" by (rule based_pos[OF 10(5)])
  have init: "keeps u (list_all jump_free init) \<rho> (hstmts H R n init \<rho> w)"
    by (rule 10(1)[of A]) (use 10(3-5) in simp_all)
  show ?case unfolding hstmt.simps
  proof (rule keeps_bind[OF init], simp only: prod.case)
    fix m \<rho>1 w1
    assume r: "hstmts H R n init \<rho> w = Inr (m, \<rho>1, w1)" "based u \<rho>1" "list_all jump_free init \<Longrightarrow> completes m"
    note o = based_outer[OF _ pos]
    show "keeps u (jump_free (Stmt sp (SFor init cond post body))) \<rho>
        (if m = HNormal then res_bind (heval H (map_of \<rho>1) cond w1) (\<lambda>(v, w).
           case truth v of
             Some b \<Rightarrow> res_bind (hloop H R n cond post body b \<rho>1 w) (\<lambda>(m, \<rho>1, w). Inr (m, outer (length \<rho>) \<rho>1, w))
           | None \<Rightarrow> Inl Stuck)
         else Inr (m, outer (length \<rho>) \<rho>1, w1))"
    proof (cases "m = HNormal")
      case True
      have "keeps u (jump_free (Stmt sp (SFor init cond post body))) \<rho>
          (res_bind (hloop H R n cond post body b \<rho>1 w) (\<lambda>(m, \<rho>1, w). Inr (m, outer (length \<rho>) \<rho>1, w)))"
        if e: "heval H (map_of \<rho>1) cond w1 = Inr (v, w)" "truth v = Some b" for v b w
      proof -
        have "keeps u (list_all jump_free post) \<rho>1 (hloop H R n cond post body b \<rho>1 w)"
          by (rule 10(2)[OF r(1) refl refl True e(1) refl e(2), of ?A]) (use 10(3) A r(2) in simp_all)
        then have "keeps u (list_all jump_free post) \<rho> (hloop H R n cond post body b \<rho>1 w)" by (simp add: keeps_def)
        then show ?thesis by (rule keeps_bind) (use o in auto)
      qed
      with True show ?thesis
        by (cases "heval H (map_of \<rho>1) cond w1") (auto split: option.split)
    next
      case False
      with o[OF r(2)] r(3) show ?thesis by simp
    qed
  qed
next
  case (13 H R n sp target e alts \<rho> w)
  have pos: "0 < length \<rho>" by (rule based_pos[OF 13(4)])
  have "keeps u (list_all jump_free_alt alts) \<rho> (hblock H R n (length \<rho>) body (\<rho>1 @ \<rho>) w')"
    if e: "heval H (map_of \<rho>) e w = Inr (v, w')" "find_alt v alts = Some (\<rho>1, body)" for v w' \<rho>1 body
  proof -
    obtain A' where A': "plain_stmts users A' body" "''_result'' \<notin> A'"
      using find_alt_plain[OF e(2)] 13(2,3) by fastforce
    have "keeps u (list_all jump_free body) (\<rho>1 @ \<rho>) (hblock H R n (length \<rho>) body (\<rho>1 @ \<rho>) w')"
      by (rule 13(1)[OF e(1) refl e(2) refl A' based_append[OF 13(4)] pos])
    with find_alt_jumps[OF e(2)] show ?thesis by (auto simp: keeps_def)
  qed
  with 13(4) show ?case by (cases "heval H (map_of \<rho>) e w") (auto split: option.split simp del: hblock.simps)
next
  case (18 H R n cond post body b \<rho> w)
  show ?case
  proof (cases b)
    case True
    have pos: "0 < length \<rho>" by (rule based_pos[OF 18(9)])
    have "keeps u (list_all jump_free body) \<rho> (hblock H R n (length \<rho>) body \<rho> w)"
      by (rule 18(1)[of A]) (use True 18(6-9) pos in simp_all)
    then have bd: "keeps u False \<rho> (hblock H R n (length \<rho>) body \<rho> w)" by (simp add: keeps_def)
    let ?K = "keeps u (list_all jump_free post)"
    let ?rest = "\<lambda>\<rho>1 w1. res_bind (hblock H R n (length \<rho>1) post \<rho>1 w1) (\<lambda>(m, \<rho>, w).
      if m = HNormal
      then res_bind (heval H (map_of \<rho>) cond w) (\<lambda>(v, w).
           case truth v of Some b \<Rightarrow> hloop H R n cond post body b \<rho> w | None \<Rightarrow> Inl Stuck)
      else Inr (m, \<rho>, w))"
    have rest: "?K \<rho> (?rest \<rho>1 w1)"
      if p: "?K \<rho>1 (hblock H R n (length \<rho>1) post \<rho>1 w1)"
        and l: "\<And>\<rho>2 w2 v w3 b'. hblock H R n (length \<rho>1) post \<rho>1 w1 = Inr (HNormal, \<rho>2, w2) \<Longrightarrow>
          heval H (map_of \<rho>2) cond w2 = Inr (v, w3) \<Longrightarrow> truth v = Some b' \<Longrightarrow> based u \<rho>2 \<Longrightarrow>
          ?K \<rho>2 (hloop H R n cond post body b' \<rho>2 w3)" for \<rho>1 w1
    proof (rule keeps_bind)
      show "?K \<rho> (hblock H R n (length \<rho>1) post \<rho>1 w1)" using p by (simp add: keeps_def)
      fix m \<rho>2 w2
      assume r: "hblock H R n (length \<rho>1) post \<rho>1 w1 = Inr (m, \<rho>2, w2)" "based u \<rho>2" "list_all jump_free post \<Longrightarrow> completes m"
      have "?K \<rho> (hloop H R n cond post body b' \<rho>2 w3)"
        if "m = HNormal" "heval H (map_of \<rho>2) cond w2 = Inr (v, w3)" "truth v = Some b'" for v w3 b'
        using l[OF r(1)[unfolded that(1)] that(2,3) r(2)] by (simp add: keeps_def)
      with r(2,3) show "?K \<rho> (case (m, \<rho>2, w2) of (m, \<rho>, w) \<Rightarrow>
        if m = HNormal
        then res_bind (heval H (map_of \<rho>) cond w) (\<lambda>(v, w).
             case truth v of Some b \<Rightarrow> hloop H R n cond post body b \<rho> w | None \<Rightarrow> Inl Stuck)
        else Inr (m, \<rho>, w))"
        by (cases "heval H (map_of \<rho>2) cond w2") (auto split: option.split)
    qed
    have eq: "hloop H R (Suc n) cond post body b \<rho> w = res_bind (hblock H R n (length \<rho>) body \<rho> w) (\<lambda>(m, \<rho>, w).
        case m of HBreak \<Rightarrow> Inr (HNormal, \<rho>, w) | HReturn v \<Rightarrow> Inr (HReturn v, \<rho>, w) | _ \<Rightarrow> ?rest \<rho> w)"
      using True by (simp del: hblock.simps)
    show ?thesis unfolding eq
    proof (rule keeps_bind[OF bd], simp only: prod.case)
      fix m \<rho>1 w1
      assume r: "hblock H R n (length \<rho>) body \<rho> w = Inr (m, \<rho>1, w1)" "based u \<rho>1"
      note pos1 = based_pos[OF r(2)]
      show "?K \<rho> (case m of HBreak \<Rightarrow> Inr (HNormal, \<rho>1, w1) | HReturn v \<Rightarrow> Inr (HReturn v, \<rho>1, w1) | _ \<Rightarrow> ?rest \<rho>1 w1)"
      proof (cases m)
        case HNormal
        have "?K \<rho> (?rest \<rho>1 w1)"
          by (rule rest; (rule 18(2)[OF _ r(1)] | rule 18(3)[OF _ r(1)])) (use True HNormal 18(6-8) r(2) pos1 in auto)
        with HNormal show ?thesis by simp
      next
        case HContinue
        have "?K \<rho> (?rest \<rho>1 w1)"
          by (rule rest; (rule 18(4)[OF _ r(1)] | rule 18(5)[OF _ r(1)])) (use True HContinue 18(6-8) r(2) pos1 in auto)
        with HContinue show ?thesis by simp
      qed (use r(2) in simp_all)
    qed
  qed (use 18(9) in simp)
qed (simp_all add: based_Cons keeps_eval)

end
