(* ===== verification/Program_Sem.thy ===== *)
theory Program_Sem
  imports Hull_Exec Yul_Sem
begin

text \<open>
  The reference semantics of whole programs, for Hull and for Yul: functions that call each other.
  The calls of user functions are resolved to a depth, which serves as the fuel of the loops as
  well; running out of it is \<open>Timeout\<close>. All other calls, to builtins, are a parameter.
\<close>

section \<open>Hull\<close>

text \<open>The environment of a function body: the parameters, the last one innermost, and below them a
  hidden variable that stands for the result.\<close>

definition entry_env :: "hull_function \<Rightarrow> hval list \<Rightarrow> henv" where
  "entry_env f vs =
     rev (zip (map arg_name (fn_args f)) vs) @ [(''_result'', default_value (erase (fn_ret f)))]"

text \<open>A body that ends without a return gives the default value.\<close>

definition run_function :: "'w hcalls \<Rightarrow> 'w reverts \<Rightarrow> nat \<Rightarrow> hull_function \<Rightarrow> hval list \<Rightarrow> 'w \<Rightarrow> 'w stop + (hval \<times> 'w)" where
  "run_function H R n f vs w =
     (if length vs = length (fn_args f)
      then res_bind (hstmts H R n (fn_body f) (entry_env f vs) w) (\<lambda>(m, \<rho>, w).
           case m of
             HReturn v \<Rightarrow> Inr (v, w)
           | HNormal \<Rightarrow> Inr (default_value (erase (fn_ret f)), w)
           | _ \<Rightarrow> Inl Stuck)
      else Inl Stuck)"

definition find_function :: "hull_function list \<Rightarrow> name \<Rightarrow> hull_function option" where
  "find_function fs n = find (\<lambda>f. fn_name f = n) fs"

fun hull_calls :: "hull_function list \<Rightarrow> 'w hcalls \<Rightarrow> 'w reverts \<Rightarrow> nat \<Rightarrow> 'w hcalls" where
  "hull_calls fs B R 0 n vs w =
     (case find_function fs n of None \<Rightarrow> B n vs w | Some f \<Rightarrow> Inl Timeout)"
| "hull_calls fs B R (Suc d) n vs w =
     (case find_function fs n of None \<Rightarrow> B n vs w | Some f \<Rightarrow> run_function (hull_calls fs B R d) R d f vs w)"

section \<open>Yul\<close>

text \<open>The parameters hold the arguments, the result variables start as zero; the body is a block
  that sees these variables only.\<close>

definition yul_function ::
  "'w ycalls \<Rightarrow> nat \<Rightarrow> name list \<Rightarrow> name list \<Rightarrow> yul_stmt list \<Rightarrow> 256 word list \<Rightarrow> 'w \<Rightarrow> 'w stop + (256 word list \<times> 'w)" where
  "yul_function C n params returns body vs w =
     res_bind (declare_vars (params @ returns) (vs @ replicate (length returns) 0) Map.empty) (\<lambda>\<sigma>.
     res_bind (yblock C n body \<sigma> w) (\<lambda>(m, \<sigma>, w).
     if m = MNormal \<or> m = MLeave then Inr (map (\<lambda>x. the (\<sigma> x)) returns, w) else Inl Stuck))"

fun find_yul :: "yul_stmt list \<Rightarrow> name \<Rightarrow> (name list \<times> name list \<times> yul_stmt list) option" where
  "find_yul [] n = None"
| "find_yul (YFunction f params returns body # ss) n =
     (if f = n then Some (params, returns, body) else find_yul ss n)"
| "find_yul (s # ss) n = find_yul ss n"

fun yul_calls :: "yul_stmt list \<Rightarrow> 'w ycalls \<Rightarrow> nat \<Rightarrow> 'w ycalls" where
  "yul_calls ss B 0 n vs w = (case find_yul ss n of None \<Rightarrow> B n vs w | Some f \<Rightarrow> Inl Timeout)"
| "yul_calls ss B (Suc d) n vs w =
     (case find_yul ss n of
        None \<Rightarrow> B n vs w
      | Some (params, returns, body) \<Rightarrow> yul_function (yul_calls ss B d) d params returns body vs w)"

end
