(* ===== verification/Lower_Functions.thy ===== *)
theory Lower_Functions
  imports Lower_Preserves Hull_Exec_Props Program_Sem
begin

text \<open>
  Lowering preserves the meaning of functions: the contexts that parameters and result variables
  set up, and the run of a body between them.
\<close>

section \<open>Parameters\<close>

definition param_ctx :: "arg list \<Rightarrow> location list \<Rightarrow> ctx" where
  "param_ctx as locs = rev (map2 (\<lambda>a loc. (arg_name a, Some (arg_ty a), loc)) as locs)"

definition param_types :: "arg list \<Rightarrow> (name \<Rightarrow> ty option) \<Rightarrow> name \<Rightarrow> ty option" where
  "param_types as G = fold (\<lambda>a G. G(arg_name a \<mapsto> arg_ty a)) as G"

lemma param_ctx_simps [simp]:
  "param_ctx [] locs = []"
  "param_ctx (a # as) (loc # locs) = param_ctx as locs @ [(arg_name a, Some (arg_ty a), loc)]"
  by (simp_all add: param_ctx_def)

definition param_locs :: "arg list \<Rightarrow> location list \<Rightarrow> bool" where
  "param_locs as locs \<longleftrightarrow> list_all2 (\<lambda>a loc. is_place loc \<and> conforms (erase (arg_ty a)) loc) as locs"

text \<open>The location of one parameter.\<close>

lemma gen_param:
  "\<exists>ns loc tr1. (\<forall>as. gen_params (a # as) tr = res_bind (gen_params as (tr_insert_var (arg_name a) loc tr1))
       (\<lambda>(ms, tr). Inr (ns @ ms, tr)))
     \<and> declares tr ns tr1 \<and> tr_vars tr1 = tr_vars tr \<and> conforms (erase (arg_ty a)) loc \<and> is_place loc \<and> place_names loc = ns"
proof (cases "tr_is_word_type (arg_ty a)")
  case True
  then have e: "erase (arg_ty a) = ShWord" by (simp add: tr_is_word_type_def erase_kind)
  obtain y tr1 where f: "fresh_source_name (arg_name a) tr = (y, tr1)" by (metis surj_pair)
  then have d: "declares tr [y] tr1"
    unfolding fresh_source_name_def by (rule fresh_yul_name_declares[rotated]) simp
  have "tr_vars tr1 = tr_vars tr"
    using f unfolding fresh_source_name_def by (auto elim: fresh_yul_name_props)
  with d True f e show ?thesis
    by (intro exI[of _ "[y]"] exI[of _ "LNamed y"] exI[of _ tr1]) (simp add: yul_var_name_def)
next
  case False
  let ?c = "counter tr + shape_slots (erase (arg_ty a))"
  obtain loc where b: "build_loc (arg_ty a) tr = Inr (loc, tr\<lparr>counter := ?c\<rparr>)" "conforms (erase (arg_ty a)) loc" "is_place loc"
    using build_loc_ok[of "arg_ty a" tr] by blast
  obtain ns where n: "flatten_lhs loc = Inr ns" using flatten_lhs_place[OF b(3)] by blast
  with build_loc_declares(1)[OF b(1) n] b False show ?thesis
    by (intro exI[of _ ns] exI[of _ loc] exI[of _ "tr\<lparr>counter := ?c\<rparr>"]) (simp add: place_names_def)
qed

lemma gen_params_ctx:
  assumes "ctx_ok F G A \<Delta> tr" and "list_all (\<lambda>a. ref_free (arg_ty a) \<and> arg_name a \<noteq> ''_result'') as"
  shows "\<exists>ns tr' locs. gen_params as tr = Inr (ns, tr') \<and> declares tr ns tr'
    \<and> ctx_ok F (param_types as G) (A \<union> set (map arg_name as)) (param_ctx as locs @ \<Delta>) tr'
    \<and> butlast (tr_vars tr') = butlast (tr_vars tr)
    \<and> param_locs as locs \<and> concat (map place_names locs) = ns"
  using assms
proof (induction as arbitrary: G A \<Delta> tr)
  case Nil
  then show ?case by (auto simp: param_types_def param_locs_def declares_Nil)
next
  case (Cons a as)
  obtain ns loc tr1 where g: "\<And>as. gen_params (a # as) tr = res_bind (gen_params as (tr_insert_var (arg_name a) loc tr1))
       (\<lambda>(ms, tr). Inr (ns @ ms, tr))"
    and d: "declares tr ns tr1" "tr_vars tr1 = tr_vars tr" and l: "conforms (erase (arg_ty a)) loc" "is_place loc" "place_names loc = ns"
    using gen_param by blast
  let ?tr = "tr_insert_var (arg_name a) loc tr1"
  have c: "ctx_ok F (G(arg_name a \<mapsto> arg_ty a)) (insert (arg_name a) A) ((arg_name a, Some (arg_ty a), loc) # \<Delta>) ?tr"
    by (rule ctx_ok_declare[OF Cons.prems(1) d _ l(1) _ l(2,3)]) (use Cons.prems(2) in simp_all)
  have "list_all (\<lambda>a. ref_free (arg_ty a) \<and> arg_name a \<noteq> ''_result'') as" using Cons.prems(2) by simp
  from Cons.IH[OF c this] obtain ms tr' locs where i: "gen_params as ?tr = Inr (ms, tr')" "declares ?tr ms tr'"
    "ctx_ok F (param_types as (G(arg_name a \<mapsto> arg_ty a))) (insert (arg_name a) A \<union> set (map arg_name as))
       (param_ctx as locs @ (arg_name a, Some (arg_ty a), loc) # \<Delta>) tr'"
    "butlast (tr_vars tr') = butlast (tr_vars ?tr)" "param_locs as locs" "concat (map place_names locs) = ms" by blast
  have "tr_ok tr1" using Cons.prems(1) d(2) by (simp add: ctx_ok_def tr_ok_def)
  then have "butlast (tr_vars tr') = butlast (tr_vars tr)" using i(4) d(2) by (simp add: insert_butlast)
  moreover have "declares tr (ns @ ms) tr'" using declares_append[OF d(1)] i(2) by (simp add: declares_insert)
  ultimately show ?case using g i l
    by (intro exI[of _ "ns @ ms"] exI[of _ tr'] exI[of _ "loc # locs"]) (simp add: param_types_def param_locs_def)
qed

section \<open>Results\<close>

lemma owns_bottom:
  assumes "owns \<Delta> y" and "\<And>u l. map_of \<Delta> y = Some (Some u, l) \<Longrightarrow> loc_vars l \<inter> entry_vars e = {}"
  shows "owns (\<Delta> @ [e]) y"
proof -
  from assms(1) obtain pre u l post where o: "\<Delta> = pre @ (y, Some u, l) # post" "y \<notin> fst ` set pre" "is_place l"
    "distinct (place_names l)" "loc_vars l \<inter> live_vars (pre @ post) = {}" unfolding owns_def by blast
  from o(2) have "map_of pre y = None" by (simp add: map_of_eq_None_iff)
  then have "map_of \<Delta> y = Some (Some u, l)" using o(1) by (simp add: map_add_def)
  from assms(2)[OF this] o(5) have "loc_vars l \<inter> live_vars (pre @ post @ [e]) = {}" by auto
  with o show ?thesis
    unfolding owns_def by (intro exI[of _ pre] exI[of _ u] exI[of _ l] exI[of _ "post @ [e]"]) simp
qed

text \<open>A location for a value that takes up no words.\<close>

fun zero_loc :: "shape \<Rightarrow> location" where
  "zero_loc (ShProduct a b) = LSeq [zero_loc a, zero_loc b]"
| "zero_loc _ = LSeq []"

lemma zero_loc:
  assumes "shape_slots s = 0"
  shows "conforms s (zero_loc s)" "is_place (zero_loc s)" "place_names (zero_loc s) = []" "loc_vars (zero_loc s) = {}"
proof -
  show c: "conforms s (zero_loc s)" using assms by (induction s) (auto simp: conforms_product)
  show p: "is_place (zero_loc s)" by (induction s) simp_all
  show v: "loc_vars (zero_loc s) = {}" by (induction s) simp_all
  have "set (place_names (zero_loc s)) = {}" using place_names_vars[OF p] v by simp
  then show "place_names (zero_loc s) = []" by simp
qed

lemma gen_returns_loc:
  "\<exists>rn tr1. declares tr rn tr1 \<and> tr_vars tr1 = tr_vars tr \<and>
     (gen_returns t tr = Inr (rn, tr1) \<and> rn = [] \<and> shape_slots (erase t) = 0
      \<or> (\<exists>loc. gen_returns t tr = Inr (rn, tr_insert_var ''_result'' loc tr1) \<and> conforms (erase t) loc \<and> is_place loc
           \<and> place_names loc = rn))"
proof -
  consider (unit) "ty_kind (strip_named t) = TyUnit" | (word) "ty_kind (strip_named t) = TyWord"
    | (other) "ty_kind (strip_named t) \<noteq> TyUnit" "ty_kind (strip_named t) \<noteq> TyWord" by blast
  then show ?thesis
  proof cases
    case unit
    then have "gen_returns t tr = Inr ([], tr)" by (simp add: gen_returns_def)
    moreover from unit have "erase t = ShUnit" by (simp add: erase_kind)
    ultimately show ?thesis by (intro exI[of _ "[]"] exI[of _ tr]) (simp add: declares_Nil)
  next
    case word
    obtain y tr1 where f: "fresh_internal_name ''result'' tr = (y, tr1)" by (metis surj_pair)
    then have d: "declares tr [y] tr1"
      unfolding fresh_internal_name_def by (rule fresh_yul_name_declares[rotated]) simp
    have "tr_vars tr1 = tr_vars tr"
      using f unfolding fresh_internal_name_def by (auto elim: fresh_yul_name_props)
    moreover have "erase t = ShWord" using word by (simp add: erase_kind)
    moreover have "gen_returns t tr = Inr ([y], tr_insert_var ''_result'' (LNamed y) tr1)"
      using word f by (simp add: gen_returns_def)
    moreover have "conforms ShWord (LNamed y)" "is_place (LNamed y)" "place_names (LNamed y) = [y]"
      by (simp_all add: yul_var_name_def)
    ultimately show ?thesis using d by (metis (no_types, lifting))
  next
    case other
    then have g: "gen_returns t tr = (if zero_sized_type t then Inr ([], tr)
        else res_bind (build_loc t tr) (\<lambda>(loc, tr).
             res_bind (flatten_lhs loc) (\<lambda>returns. Inr (returns, tr_insert_var ''_result'' loc tr))))"
      by (simp add: gen_returns_def split: ty_kind.split)
    show ?thesis
    proof (cases "zero_sized_type t")
      case True
      then show ?thesis using g
        by (intro exI[of _ "[]"] exI[of _ tr]) (simp add: declares_Nil zero_sized_type_shape)
    next
      case False
      let ?c = "counter tr + shape_slots (erase t)"
      obtain loc where b: "build_loc t tr = Inr (loc, tr\<lparr>counter := ?c\<rparr>)" "conforms (erase t) loc" "is_place loc"
        using build_loc_ok[of t tr] by blast
      obtain ns where n: "flatten_lhs loc = Inr ns" using flatten_lhs_place[OF b(3)] by blast
      with build_loc_declares(1)[OF b(1) n] b False g show ?thesis
        by (intro exI[of _ ns] exI[of _ "tr\<lparr>counter := ?c\<rparr>"]) (auto simp: place_names_def)
    qed
  qed
qed

text \<open>The result variables are the bottom of the context.\<close>

lemma ctx_ok_bottom:
  assumes ok: "ctx_ok F G A \<Delta> tr" and adv: "advances tr tr'" and vars: "tr_vars tr' \<noteq> []"
    and look: "\<And>x. x \<noteq> ''_result'' \<Longrightarrow> lookup_var_opt tr' x = lookup_var_opt tr x"
    and loc: "loc_vars loc \<inter> live_vars \<Delta> = {}" "loc_vars loc \<subseteq> old tr'"
  shows "ctx_ok F G A (\<Delta> @ [(''_result'', Some rt, loc)]) tr'"
proof -
  have G: "x \<noteq> ''_result''" if "G x = Some t" for x t using ok that by (auto simp: ctx_ok_def)
  have v: "visible \<Delta> G tr" and m: "vars_match G tr" using ok by (simp_all add: ctx_ok_def agrees_def)
  have "visible (\<Delta> @ [(''_result'', Some rt, loc)]) G tr'"
    unfolding visible_def
  proof (intro allI impI)
    fix x t
    assume x: "G x = Some t"
    with v obtain l where "map_of \<Delta> x = Some (Some t, l)" "lookup_var_opt tr x = Some l" unfolding visible_def by blast
    then show "\<exists>l. map_of (\<Delta> @ [(''_result'', Some rt, loc)]) x = Some (Some t, l) \<and> lookup_var_opt tr' x = Some l"
      using look[OF G[OF x]] by (simp add: map_add_def)
  qed
  moreover have "vars_match G tr'"
    unfolding vars_match_def using m look G by (metis (no_types, lifting) vars_match_def)
  moreover have "live_vars (\<Delta> @ [(''_result'', Some rt, loc)]) \<subseteq> old tr'"
    using ok loc(2) old_advances[OF adv] by (auto simp: ctx_ok_def)
  moreover have "owns (\<Delta> @ [(''_result'', Some rt, loc)]) y" if y: "y \<in> A" "G y \<noteq> None" for y
  proof (rule owns_bottom)
    show "owns \<Delta> y" using ok y by (simp add: ctx_ok_def)
    fix u l
    assume "map_of \<Delta> y = Some (Some u, l)"
    then have "(y, Some u, l) \<in> set \<Delta>" by (rule map_of_SomeD)
    then have "loc_vars l \<subseteq> live_vars \<Delta>" by (force simp: live_vars_def)
    then show "loc_vars l \<inter> entry_vars (''_result'', Some rt, loc) = {}" using loc(1) by auto
  qed
  ultimately show ?thesis
    using ok vars adv by (simp add: ctx_ok_def agrees_def) (simp add: advances_def)
qed

lemma result_bottom:
  assumes ok: "ctx_ok F G A \<Delta> tr" and names: "''_result'' \<notin> fst ` set \<Delta>" and rt: "ref_free rt"
  shows "\<exists>rn tr' loc. gen_returns rt tr = Inr (rn, tr') \<and> declares tr rn tr'
     \<and> ctx_ok F G A (\<Delta> @ [(''_result'', Some rt, loc)]) tr'
     \<and> result_ok rt rn (\<Delta> @ [(''_result'', Some rt, loc)]) tr'
     \<and> conforms (erase rt) loc \<and> is_place loc \<and> place_names loc = rn"
proof -
  have tok: "tr_ok tr" using ok by (simp add: ctx_ok_def tr_ok_def)
  obtain rn tr1 where d: "declares tr rn tr1" "tr_vars tr1 = tr_vars tr" and
    "gen_returns rt tr = Inr (rn, tr1) \<and> rn = [] \<and> shape_slots (erase rt) = 0
      \<or> (\<exists>loc. gen_returns rt tr = Inr (rn, tr_insert_var ''_result'' loc tr1) \<and> conforms (erase rt) loc \<and> is_place loc
           \<and> place_names loc = rn)" using gen_returns_loc by blast
  from this(3) show ?thesis
  proof (elim disjE exE conjE)
    assume zero: "gen_returns rt tr = Inr (rn, tr1)" "rn = []" "shape_slots (erase rt) = 0"
    note z = zero_loc[OF zero(3)]
    have "ctx_ok F G A (\<Delta> @ [(''_result'', Some rt, zero_loc (erase rt))]) tr1"
      by (rule ctx_ok_bottom[OF ok]) (use d z(4) tok lookup_vars_cong[OF d(2)] in \<open>simp_all add: declares_def tr_ok_def\<close>)
    with zero d z rt show ?thesis
      by (intro exI[of _ "[]"] exI[of _ tr1] exI[of _ "zero_loc (erase rt)"]) (simp add: result_ok_def)
  next
    fix loc
    assume words: "gen_returns rt tr = Inr (rn, tr_insert_var ''_result'' loc tr1)" "conforms (erase rt) loc"
      "is_place loc" "place_names loc = rn"
    let ?tr = "tr_insert_var ''_result'' loc tr1"
    note p = declared_place[OF ok d(1) words(3,4)]
    have tok1: "tr_ok tr1" using tok d(2) by (simp add: tr_ok_def)
    have lk: "lookup_var_opt ?tr = (lookup_var_opt tr)(''_result'' \<mapsto> loc)"
      using tok1 lookup_vars_cong[OF d(2)] by (simp add: tr_scopes.look_declare)
    have d': "declares tr rn ?tr" using d(1) by (simp add: declares_insert)
    have ne: "tr_vars ?tr \<noteq> []" using tok1 tr_scopes.ok_declare by (simp add: tr_ok_def)
    have old: "old ?tr = old tr1" by (simp add: tr_insert_var_def old_def split: option.split)
    have c: "ctx_ok F G A (\<Delta> @ [(''_result'', Some rt, loc)]) ?tr"
      by (rule ctx_ok_bottom[OF ok _ ne _ p(1)]) (use d' lk p(2) old in \<open>simp_all add: declares_def\<close>)
    have "map_of \<Delta> ''_result'' = None" using names by (simp add: map_of_eq_None_iff)
    then have m: "map_of (\<Delta> @ [(''_result'', Some rt, loc)]) ''_result'' = Some (Some rt, loc)" by (simp add: map_add_def)
    have o: "owns (\<Delta> @ [(''_result'', Some rt, loc)]) ''_result''"
      unfolding owns_def using names words(3) p(1,3)
      by (intro exI[of _ \<Delta>] exI[of _ rt] exI[of _ loc] exI[of _ "[]"]) simp
    have "result_ok rt rn (\<Delta> @ [(''_result'', Some rt, loc)]) ?tr"
      using rt m o lk words(2,4) by (auto simp: result_ok_def)
    with c d' words show ?thesis by blast
  qed
qed

section \<open>The store at the entry of a function\<close>

lemma param_locs_length:
  "param_locs as locs \<Longrightarrow> arg_words (map arg_ty as) vs wss \<Longrightarrow>
     length (concat wss) = length (concat (map place_names locs)) \<and> length vs = length as"
proof (induction as arbitrary: locs vs wss)
  case Nil
  then show ?case by (simp add: param_locs_def arg_words_def)
next
  case (Cons a as)
  obtain loc ls where l: "locs = loc # ls" "is_place loc" "conforms (erase (arg_ty a)) loc" "param_locs as ls"
    using Cons.prems(1) by (auto simp: param_locs_def list_all2_Cons1)
  obtain v vs' ws wss' where v: "vs = v # vs'" "wss = ws # wss'" "enc (erase (arg_ty a)) v (map Some ws)"
    "arg_words (map arg_ty as) vs' wss'"
    using Cons.prems(2) by (auto simp: arg_words_def list_all2_Cons1 length_Suc_conv)
  have "length (place_names loc) = shape_slots (erase (arg_ty a))"
    using rd_place[OF l(2), of Map.empty] rd_length[of Map.empty loc] conforms_size[OF l(3)] by (metis length_map)
  then have "length ws = length (place_names loc)" using enc_length[OF v(3)] by simp
  with Cons.IH[OF l(4) v(4)] l(1) v(1,2) show ?case by simp
qed

lemma dyn_snoc: "dyn \<Delta> \<rho> \<sigma> \<Longrightarrow> entry_holds \<sigma> e p \<Longrightarrow> dyn (\<Delta> @ [e]) (\<rho> @ [p]) \<sigma>"
  by (simp add: dyn_def list_all2_appendI)

lemma params_hold:
  "param_locs as locs \<Longrightarrow> arg_words (map arg_ty as) vs wss \<Longrightarrow>
     map \<sigma> (concat (map place_names locs)) = map Some (concat wss) \<Longrightarrow>
     dyn (param_ctx as locs) (rev (zip (map arg_name as) vs)) \<sigma>"
proof (induction as arbitrary: locs vs wss)
  case Nil
  then show ?case by (simp add: param_locs_def)
next
  case (Cons a as)
  obtain loc ls where l: "locs = loc # ls" "is_place loc" "conforms (erase (arg_ty a)) loc" "param_locs as ls"
    using Cons.prems(1) by (auto simp: param_locs_def list_all2_Cons1)
  obtain v vs' ws wss' where v: "vs = v # vs'" "wss = ws # wss'" "enc (erase (arg_ty a)) v (map Some ws)"
    "arg_words (map arg_ty as) vs' wss'"
    using Cons.prems(2) by (auto simp: arg_words_def list_all2_Cons1 length_Suc_conv)
  have "length (place_names loc) = shape_slots (erase (arg_ty a))"
    using rd_place[OF l(2), of Map.empty] rd_length[of Map.empty loc] conforms_size[OF l(3)] by (metis length_map)
  then have "length (map \<sigma> (place_names loc)) = length (map Some ws)" using enc_length[OF v(3)] by simp
  moreover have "map \<sigma> (place_names loc) @ map \<sigma> (concat (map place_names ls)) = map Some ws @ map Some (concat wss')"
    using Cons.prems(3) l(1) v(2) by simp
  ultimately have r: "map \<sigma> (place_names loc) = map Some ws" "map \<sigma> (concat (map place_names ls)) = map Some (concat wss')"
    using append_eq_append_conv by blast+
  have "set (place_names loc) \<subseteq> dom \<sigma>"
  proof
    fix x
    assume "x \<in> set (place_names loc)"
    then have "\<sigma> x \<in> set (map Some ws)" using r(1) by (metis image_eqI list.set_map)
    then show "x \<in> dom \<sigma>" by auto
  qed
  then have "readable \<sigma> loc" using place_readable[OF l(2)] place_names_vars[OF l(2)] by simp
  then have "holds \<sigma> loc (erase (arg_ty a)) v" using l(3) v(3) r(1) by (simp add: holds_def rd_place[OF l(2)])
  with Cons.IH[OF l(4) v(4) r(2)] l(1) v(1) show ?case by (simp add: dyn_snoc)
qed

lemma param_ctx_names: "length locs = length as \<Longrightarrow> fst ` set (param_ctx as locs) = set (map arg_name as)"
  by (induction as locs rule: list_induct2') auto

lemma param_ctx_vars: "length locs = length as \<Longrightarrow> live_vars (param_ctx as locs) = \<Union> (set (map loc_vars locs))"
  by (induction as locs rule: list_induct2') auto

section \<open>Functions\<close>

text \<open>What is required of a function: it is well typed, its types are first-order, its
  body is in the fragment, and it jumps inside loops only.\<close>

definition function_ready :: "(name \<rightharpoonup> fun_sig) \<Rightarrow> name set \<Rightarrow> hull_function \<Rightarrow> bool" where
  "function_ready F users f \<longleftrightarrow>
     wt_stmts F (Some (fn_ret f)) (param_types (fn_args f) Map.empty) (fn_body f)
     \<and> plain_stmts users (set (map arg_name (fn_args f))) (fn_body f)
     \<and> list_all jump_free (fn_body f)
     \<and> list_all (\<lambda>a. ref_free (arg_ty a) \<and> arg_name a \<noteq> ''_result'') (fn_args f)
     \<and> ref_free (fn_ret f) \<and> first_order (erase (fn_ret f))"

lemma default_read:
  assumes "is_place loc" and "conforms s loc" and "first_order s" and "list_all (\<lambda>x. \<sigma> x = Some 0) (place_names loc)"
  shows "holds \<sigma> loc s (default_value s)"
proof -
  have "\<sigma> x = cleared (loc_vars loc) \<sigma> x" if "x \<in> loc_vars loc" for x
    using that assms(4) place_names_vars[OF assms(1)] by (auto simp: cleared_def list_all_iff)
  from holds_cong[OF this] cleared_default[OF assms(1-3)] show ?thesis by simp
qed

lemma run_body:
  assumes ready: "function_ready F users f"
    and e: "executes C rn (erase (fn_ret f)) \<Delta> (X @ \<Delta>) tr tr' body ns h (\<lambda>n. hstmts H R n (fn_body f))"
    and \<Delta>: "\<Delta> = \<Delta>' @ [(''_result'', Some (fn_ret f), loc)]" and loc: "is_place loc" "place_names loc = rn"
    and dyn: "dyn \<Delta> (entry_env f vs) \<sigma>" and dom: "set rn \<subseteq> dom \<sigma>" and old: "dom \<sigma> \<subseteq> old tr"
    and len: "length vs = length (fn_args f)"
  shows "sim (returns_enc (erase (fn_ret f))) (run_function H R n f vs w)
    (res_bind (yblock C n body \<sigma> w) (\<lambda>(m, \<sigma>, w).
       if m = MNormal \<or> m = MLeave then Inr (map (\<lambda>x. the (\<sigma> x)) rn, w) else Inl Stuck))"
proof -
  let ?s = "erase (fn_ret f)" and ?u = "default_value (erase (fn_ret f))"
  have p: "plain_stmts users (set (map arg_name (fn_args f))) (fn_body f)" "''_result'' \<notin> set (map arg_name (fn_args f))"
    "list_all jump_free (fn_body f)" using ready by (auto simp: function_ready_def list_all_iff)
  have "keeps ?u (list_all jump_free (fn_body f)) (entry_env f vs) (hstmts H R n (fn_body f) (entry_env f vs) w)"
    by (rule execution_keeps(1)[OF p(1,2)]) (simp add: based_def entry_env_def)
  then have k: "based ?u \<rho>' \<and> completes m" if "hstmts H R n (fn_body f) (entry_env f vs) w = Inr (m, \<rho>', w')" for m \<rho>' w'
    using that p(3) by (simp add: keeps_def)
  have r: "ready False (set ns) tr tr' \<sigma>" using old consumed_old by (auto simp: ready_def)
  have h: "hoisted False body = body" by (simp add: hoisted_def)
  have s: "sim (fin rn ?s \<Delta> (X @ \<Delta>) (set ns) \<sigma>) (hstmts H R n (fn_body f) (entry_env f vs) w) (yseq C n body \<sigma> w)"
    using executes_sim[OF e dyn dom r, of n w] h by simp
  have words: "map Some (map (\<lambda>x. the ((\<sigma>' |` dom \<sigma>) x)) rn) = map \<sigma>' rn" if "dom \<sigma> \<subseteq> dom \<sigma>'" for \<sigma>' :: store
    using that dom by (auto simp: restrict_map_def)
  from s show ?thesis
  proof (cases rule: sim_cases)
    case (Stops x)
    with len show ?thesis by (simp add: run_function_def)
  next
    case (Returns x y)
    from Returns(3) show ?thesis
    proof (rule finE)
      fix m \<rho>' w' m' \<sigma>'
      assume xy: "x = (m, \<rho>', w')" "y = (m', \<sigma>', w')" and f: "finishes rn ?s \<Delta> (X @ \<Delta>) (set ns) \<sigma> m \<rho>' m' \<sigma>'"
      have b: "based ?u \<rho>'" "completes m" using k[of m \<rho>' w'] Returns(1) xy(1) by simp_all
      have y: "yblock C n body \<sigma> w = Inr (m', \<sigma>' |` dom \<sigma>, w')" using Returns(2) xy(2) by simp
      show ?thesis
      proof (cases m)
        case HNormal
        with f have d: "m' = MNormal" "dyn (X @ \<Delta>) \<rho>' \<sigma>'" "dom \<sigma> \<subseteq> dom \<sigma>'" by auto
        from d(2) \<Delta> have "dyn ((X @ \<Delta>') @ [(''_result'', Some (fn_ret f), loc)]) \<rho>' \<sigma>'" by simp
        then obtain \<rho>1 \<rho>2 where r: "\<rho>' = \<rho>1 @ \<rho>2" "dyn [(''_result'', Some (fn_ret f), loc)] \<rho>2 \<sigma>'"
          unfolding dyn_append by blast
        then obtain v where "\<rho>2 = [(''_result'', v)]" "holds \<sigma>' loc ?s v"
          by (auto simp: dyn_def list_all2_Cons1)
        with b(1) r(1) have "holds \<sigma>' loc ?s ?u" by (simp add: based_def)
        then have "enc ?s ?u (map \<sigma>' rn)" using result_words[OF loc(1)] loc(2) by simp
        with words[OF d(3)] HNormal Returns(1) xy(1) y d(1) len show ?thesis
          by (simp add: run_function_def returns_enc_def del: yblock.simps map_map)
      next
        case (HReturn v)
        with f have d: "m' = MLeave" "enc ?s v (map \<sigma>' rn)" "dom \<sigma> \<subseteq> dom \<sigma>'" by auto
        with words[OF d(3)] HReturn Returns(1) xy(1) y len show ?thesis
          by (simp add: run_function_def returns_enc_def del: yblock.simps map_map)
      qed (use b(2) in simp_all)
    qed
  qed
qed

lemma function_lowers:
  assumes ready: "function_ready F users f" and F: "sigs_plain F" "identities_ok F users" and u: "user_functions tr = users"
    and rev: "reverts_refine R C" and calls: "calls_refine F users H C"
  shows "\<exists>params returns body tr'. translate_function f tr = Inr (YFunction (yul_fun_name (fn_name f)) params returns body, tr')
    \<and> advances tr tr' \<and> tr_vars tr' = tr_vars tr
    \<and> (\<forall>n vs wss w. arg_words (map arg_ty (fn_args f)) vs wss \<longrightarrow>
         sim (returns_enc (erase (fn_ret f))) (run_function H R n f vs w) (yul_function C n params returns body (concat wss) w))"
proof -
  let ?as = "fn_args f" and ?rt = "fn_ret f" and ?tr = "tr\<lparr>tr_vars := [Map.empty]\<rparr>"
  have fr: "wt_stmts F (Some ?rt) (param_types ?as Map.empty) (fn_body f)" "plain_stmts users (set (map arg_name ?as)) (fn_body f)"
    "list_all (\<lambda>a. ref_free (arg_ty a) \<and> arg_name a \<noteq> ''_result'') ?as" "ref_free ?rt" "first_order (erase ?rt)"
    using ready by (simp_all add: function_ready_def)
  have "ctx_ok F Map.empty {} [] ?tr"
    using F u by (simp add: ctx_ok_def agrees_def vars_match_def visible_def tr_ok_def)
  from gen_params_ctx[OF this fr(3)] obtain ps tr1 locs where g: "gen_params ?as ?tr = Inr (ps, tr1)" "declares ?tr ps tr1"
    and c1: "ctx_ok F (param_types ?as Map.empty) ({} \<union> set (map arg_name ?as)) (param_ctx ?as locs @ []) tr1"
    and l: "param_locs ?as locs" "concat (map place_names locs) = ps" by blast
  have len: "length locs = length ?as" using l(1) by (auto simp: param_locs_def dest: list_all2_lengthD)
  have "''_result'' \<notin> fst ` set (param_ctx ?as locs @ [])"
    using fr(3) param_ctx_names[OF len] by (auto simp: list_all_iff)
  from result_bottom[OF c1 this fr(4)] obtain rn tr2 loc where r: "gen_returns ?rt tr1 = Inr (rn, tr2)" "declares tr1 rn tr2"
    and c2: "ctx_ok F (param_types ?as Map.empty) (set (map arg_name ?as)) (param_ctx ?as locs @ [(''_result'', Some ?rt, loc)]) tr2"
      "result_ok ?rt rn (param_ctx ?as locs @ [(''_result'', Some ?rt, loc)]) tr2"
    and rl: "conforms (erase ?rt) loc" "is_place loc" "place_names loc = rn" by auto
  let ?\<Delta> = "param_ctx ?as locs @ [(''_result'', Some ?rt, loc)]"
  have d: "declares ?tr (ps @ rn) tr2" by (rule declares_append[OF g(2) r(2)])
  then have dist: "distinct (ps @ rn)" and adv: "advances ?tr tr2" by (simp_all add: declares_def)
  have u2: "user_functions tr2 = users" using adv u by (simp add: advances_def)
  have "lowers_from F (param_types ?as Map.empty) (set (map arg_name ?as)) ?\<Delta> tr2 ?rt rn users"
    using c2 u2 by (simp add: lowers_from_def)
  from code_lowers(1)[OF rev calls fr(1,2) this] obtain body tr3 ns X h where b: "gen_stmts (fn_body f) tr2 = Inr (body, tr3)"
    and e: "executes C rn (erase ?rt) ?\<Delta> (X @ ?\<Delta>) tr2 tr3 body ns h (\<lambda>n. hstmts H R n (fn_body f))"
    by (metis loweredE)
  have "advances tr2 tr3" using executes_static[OF e] by (simp add: code_ok_def declares_def)
  then have "advances tr (tr3\<lparr>tr_vars := tr_vars tr\<rparr>)" using advances_trans[OF adv] by (simp add: advances_def)
  moreover have "translate_function f tr = Inr (YFunction (yul_fun_name (fn_name f)) ps rn body, tr3\<lparr>tr_vars := tr_vars tr\<rparr>)"
    using g(1) r(1) b by (simp add: translate_function_def Let_def)
  moreover have "sim (returns_enc (erase ?rt)) (run_function H R n f vs w) (yul_function C n ps rn body (concat wss) w)"
    if a: "arg_words (map arg_ty ?as) vs wss" for n vs wss w
  proof -
    have lens: "length (concat wss) = length ps" "length vs = length ?as" using param_locs_length[OF l(1) a] l(2) by simp_all
    define \<sigma> where "\<sigma> = Map.empty(ps @ rn [\<mapsto>] concat wss @ replicate (length rn) 0)"
    have rd: "map \<sigma> (ps @ rn) = map Some (concat wss @ replicate (length rn) 0)"
      unfolding \<sigma>_def by (rule map_upds_read[OF dist]) (simp add: lens)
    then have rp: "map \<sigma> ps = map Some (concat wss)" and rr: "map \<sigma> rn = replicate (length rn) (Some 0)"
      using lens(1) by simp_all
    have dom: "dom \<sigma> = set (ps @ rn)" unfolding \<sigma>_def by (simp add: lens)
    have z: "list_all (\<lambda>x. \<sigma> x = Some 0) rn" using rr unfolding list_all_iff map_replicate_const[symmetric] map_eq_conv .
    have "holds \<sigma> loc (erase ?rt) (default_value (erase ?rt))"
      by (rule default_read[OF rl(2,1) fr(5)]) (simp add: rl(3) z)
    moreover have "dyn (param_ctx ?as locs) (rev (zip (map arg_name ?as) vs)) \<sigma>"
      by (rule params_hold[OF l(1) a]) (simp add: l(2) rp)
    ultimately have dy: "dyn ?\<Delta> (entry_env f vs) \<sigma>" unfolding entry_env_def by (simp add: dyn_snoc)
    have old: "dom \<sigma> \<subseteq> old tr2" using d dom by (auto simp: declares_def consumed_def old_def)
    have "declare_vars (ps @ rn) (concat wss @ replicate (length rn) 0) Map.empty = (Inr \<sigma> :: 'a stop + store)"
      using dist lens(1) by (simp add: declare_vars_def \<sigma>_def list_all_iff)
    with run_body[OF ready e refl rl(2,3) dy _ old lens(2), of n w] dom show ?thesis
      by (simp add: yul_function_def del: yblock.simps)
  qed
  ultimately show ?thesis
    by (intro exI[of _ ps] exI[of _ rn] exI[of _ body] exI[of _ "tr3\<lparr>tr_vars := tr_vars tr\<rparr>"]) simp
qed

end
