(* ===== verification/Program_Refines.thy ===== *)
theory Program_Refines
  imports Lower_Functions
begin

text \<open>
  Lowering preserves the meaning of code blocks: of functions that call each other and builtins,
  and of the statements of an object.
\<close>

section \<open>Code outside functions does not return\<close>

fun return_free :: "stmt \<Rightarrow> bool" and return_free_alt :: "alt \<Rightarrow> bool" where
  "return_free (Stmt sp (SReturn e)) = False"
| "return_free (Stmt sp (SBlock ss)) = list_all return_free ss"
| "return_free (Stmt sp (SFor init cond post body)) =
     (list_all return_free init \<and> list_all return_free post \<and> list_all return_free body)"
| "return_free (Stmt sp (SMatch target e alts)) = list_all return_free_alt alts"
| "return_free (Stmt sp _) = True"
| "return_free_alt (Alt sp p b body) = list_all return_free body"

lemma wt_return_free:
  "wt_stmts F r G ss \<Longrightarrow> r = None \<Longrightarrow> list_all return_free ss"
  "wt_stmt F r G s \<Longrightarrow> r = None \<Longrightarrow> return_free s"
  "wt_alts F r G target alts \<Longrightarrow> r = None \<Longrightarrow> list_all return_free_alt alts"
  by (induction F r G ss and F r G s and F r G target alts rule: wt_stmts_wt_stmt_wt_alts.induct) auto

lemma wt_any_return:
  "wt_stmts F r G ss \<Longrightarrow> r = None \<Longrightarrow> wt_stmts F r' G ss"
  "wt_stmt F r G s \<Longrightarrow> r = None \<Longrightarrow> wt_stmt F r' G s"
  "wt_alts F r G target alts \<Longrightarrow> r = None \<Longrightarrow> wt_alts F r' G target alts"
  by (induction F r G ss and F r G s and F r G target alts rule: wt_stmts_wt_stmt_wt_alts.induct) auto

definition stays :: "bool \<Rightarrow> 'w hres \<Rightarrow> bool" where
  "stays j r \<longleftrightarrow> (\<forall>m \<rho> w. r = Inr (m, \<rho>, w) \<longrightarrow> (\<forall>v. m \<noteq> HReturn v) \<and> (j \<longrightarrow> completes m))"

lemma stays_simps [simp]:
  "stays j (Inl e)" "stays j (Inr (m, \<rho>, w)) \<longleftrightarrow> (\<forall>v. m \<noteq> HReturn v) \<and> (j \<longrightarrow> completes m)"
  by (auto simp: stays_def)

lemma stays_bind:
  assumes "stays j1 r"
    and "\<And>m \<rho> w. r = Inr (m, \<rho>, w) \<Longrightarrow> (\<And>v. m \<noteq> HReturn v) \<Longrightarrow> (j1 \<Longrightarrow> completes m) \<Longrightarrow> stays j (f (m, \<rho>, w))"
  shows "stays j (res_bind r f)"
proof (cases r)
  case (Inr p)
  obtain m \<rho> w where "p = (m, \<rho>, w)" by (cases p)
  with Inr assms show ?thesis by simp
qed simp

lemma stays_eval: "(\<And>v w'. r = Inr (v, w') \<Longrightarrow> stays j (f (v, w'))) \<Longrightarrow> stays j (res_bind (r :: 'w stop + ('v \<times> 'w)) f)"
  by (cases r) auto

lemma find_alt_returns:
  "find_alt v alts = Some (\<rho>1, body) \<Longrightarrow> list_all return_free_alt alts \<Longrightarrow> list_all return_free body"
proof (induction alts)
  case (Cons a alts)
  then show ?case by (cases a) (auto split: if_splits)
qed simp

lemma execution_stays:
  "list_all return_free ss \<Longrightarrow> stays (list_all jump_free ss) (hstmts H R n ss \<rho> w)"
  "list_all return_free ss \<Longrightarrow> stays (list_all jump_free ss) (hblock H R n k ss \<rho> w)"
  "return_free s \<Longrightarrow> stays (jump_free s) (hstmt H R n s \<rho> w)"
  "list_all return_free post \<Longrightarrow> list_all return_free body \<Longrightarrow> stays (list_all jump_free post) (hloop H R n cond post body b \<rho> w)"
proof (induction H R n ss \<rho> w and H R n k ss \<rho> w and H R n s \<rho> w and H R n cond post body b \<rho> w
    rule: hstmts_hblock_hstmt_hloop.induct)
  case (2 H R n s ss \<rho> w)
  have s: "stays (jump_free s) (hstmt H R n s \<rho> w)" by (rule 2(1)) (use 2(3) in simp)
  show ?case unfolding hstmts.simps
  proof (rule stays_bind[OF s], simp only: prod.case)
    fix m \<rho>' w'
    assume r: "hstmt H R n s \<rho> w = Inr (m, \<rho>', w')" "\<And>v. m \<noteq> HReturn v" "jump_free s \<Longrightarrow> completes m"
    have "stays (list_all jump_free ss) (hstmts H R n ss \<rho>' w')" if "m = HNormal"
      by (rule 2(2)[OF r(1) refl refl that]) (use 2(3) in simp)
    then show "stays (list_all jump_free (s # ss)) (if m = HNormal then hstmts H R n ss \<rho>' w' else Inr (m, \<rho>', w'))"
      using r(2,3) by (auto simp: stays_def)
  qed
next
  case (3 H R n k ss \<rho> w)
  show ?case unfolding hblock.simps by (rule stays_bind[OF 3(1)[OF 3(2)]]) auto
next
  case (5 H R n sp spx tx x rhs \<rho> w)
  then show ?case by (auto intro!: stays_eval split: option.split)
next
  case (10 H R n sp init cond post body \<rho> w)
  have l: "list_all return_free init" "list_all return_free post" "list_all return_free body" using 10(3) by simp_all
  let ?j = "jump_free (Stmt sp (SFor init cond post body))"
  show ?case unfolding hstmt.simps
  proof (rule stays_bind[OF 10(1)[OF l(1)]])
    fix m \<rho>1 w1
    assume i: "hstmts H R n init \<rho> w = Inr (m, \<rho>1, w1)" and m: "\<And>v. m \<noteq> HReturn v" "list_all jump_free init \<Longrightarrow> completes m"
    have "stays ?j (res_bind (hloop H R n cond post body b \<rho>1 w2) (\<lambda>(m, \<rho>1, w). Inr (m, outer (length \<rho>) \<rho>1, w)))"
      if e: "m = HNormal" "heval H (map_of \<rho>1) cond w1 = Inr (v, w2)" "truth v = Some b" for v w2 b
      by (rule stays_bind[OF 10(2)[OF i refl refl e(1,2) refl e(3) l(2,3)]]) auto
    then show "stays ?j (case (m, \<rho>1, w1) of (m, \<rho>1, w) \<Rightarrow> if m = HNormal
       then res_bind (heval H (map_of \<rho>1) cond w) (\<lambda>(v, w). case truth v of
            Some b \<Rightarrow> res_bind (hloop H R n cond post body b \<rho>1 w) (\<lambda>(m, \<rho>1, w). Inr (m, outer (length \<rho>) \<rho>1, w))
          | None \<Rightarrow> Inl Stuck)
       else Inr (m, outer (length \<rho>) \<rho>1, w))"
      using m by (auto intro!: stays_eval split: option.split)
  qed
next
  case (13 H R n sp target e alts \<rho> w)
  have "stays (list_all jump_free_alt alts) (hblock H R n (length \<rho>) body (\<rho>1 @ \<rho>) w')"
    if e: "heval H (map_of \<rho>) e w = Inr (v, w')" "find_alt v alts = Some (\<rho>1, body)" for v w' \<rho>1 body
  proof -
    have "stays (list_all jump_free body) (hblock H R n (length \<rho>) body (\<rho>1 @ \<rho>) w')"
      by (rule 13(1)[OF e(1) refl e(2) refl]) (use find_alt_returns[OF e(2)] 13(2) in simp)
    with find_alt_jumps[OF e(2)] show ?thesis by (auto simp: stays_def)
  qed
  then show ?case by (auto intro!: stays_eval split: option.split simp del: hblock.simps)
next
  case (18 H R n cond post body b \<rho> w)
  let ?S = "stays (list_all jump_free post)"
  show ?case
  proof (cases b)
    case True
    let ?rest = "\<lambda>\<rho>1 w1. res_bind (hblock H R n (length \<rho>1) post \<rho>1 w1) (\<lambda>(m, \<rho>, w).
      if m = HNormal
      then res_bind (heval H (map_of \<rho>) cond w) (\<lambda>(v, w).
           case truth v of Some b \<Rightarrow> hloop H R n cond post body b \<rho> w | None \<Rightarrow> Inl Stuck)
      else Inr (m, \<rho>, w))"
    have rest: "?S (?rest \<rho>1 w1)"
      if "?S (hblock H R n (length \<rho>1) post \<rho>1 w1)"
        and "\<And>\<rho>2 w2 v w3 b'. hblock H R n (length \<rho>1) post \<rho>1 w1 = Inr (HNormal, \<rho>2, w2) \<Longrightarrow>
          heval H (map_of \<rho>2) cond w2 = Inr (v, w3) \<Longrightarrow> truth v = Some b' \<Longrightarrow> ?S (hloop H R n cond post body b' \<rho>2 w3)"
      for \<rho>1 w1
      by (rule stays_bind[OF that(1)]) (auto intro!: stays_eval that(2) split: option.split simp del: hblock.simps)
    have eq: "hloop H R (Suc n) cond post body b \<rho> w = res_bind (hblock H R n (length \<rho>) body \<rho> w) (\<lambda>(m, \<rho>, w).
        case m of HBreak \<Rightarrow> Inr (HNormal, \<rho>, w) | HReturn v \<Rightarrow> Inr (HReturn v, \<rho>, w) | _ \<Rightarrow> ?rest \<rho> w)"
      using True by (simp del: hblock.simps)
    have bd: "stays (list_all jump_free body) (hblock H R n (length \<rho>) body \<rho> w)"
      by (rule 18(1)) (use True 18(7) in simp_all)
    show ?thesis unfolding eq
    proof (rule stays_bind[OF bd])
      fix m \<rho>1 w1
      assume r: "hblock H R n (length \<rho>) body \<rho> w = Inr (m, \<rho>1, w1)" and m: "\<And>v. m \<noteq> HReturn v"
      show "?S (case (m, \<rho>1, w1) of (m, \<rho>, w) \<Rightarrow>
        case m of HBreak \<Rightarrow> Inr (HNormal, \<rho>, w) | HReturn v \<Rightarrow> Inr (HReturn v, \<rho>, w) | _ \<Rightarrow> ?rest \<rho> w)"
      proof (cases m)
        case HNormal
        have "?S (?rest \<rho>1 w1)"
          by (rule rest; (rule 18(2)[OF _ r(1)] | rule 18(3)[OF _ r(1)])) (use True HNormal 18(6,7) in auto)
        with HNormal show ?thesis by simp
      next
        case HContinue
        have "?S (?rest \<rho>1 w1)"
          by (rule rest; (rule 18(4)[OF _ r(1)] | rule 18(5)[OF _ r(1)])) (use True HContinue 18(6,7) in auto)
        with HContinue show ?thesis by simp
      qed (use m in simp_all)
    qed
  qed simp
qed (auto intro!: stays_eval)

section \<open>Generated statements define no functions\<close>

fun no_function :: "yul_stmt \<Rightarrow> bool" where
  "no_function (YFunction f params returns body) = False"
| "no_function _ = True"

lemma no_function_kinds: "is_alloc s \<Longrightarrow> no_function s" "is_assign s \<Longrightarrow> no_function s"
  by (cases s; simp)+

lemma alloc_loc_no_function: "list_all no_function (alloc_loc loc)"
  by (auto simp: alloc_loc_def list_all_iff)

lemma copy_locs_no_function: "copy_locs l r = Inr k \<Longrightarrow> list_all no_function k"
  using copy_locs_assigns no_function_kinds(2) by (fastforce simp: list_all_iff)

lemma hull_alloc_no_function: "hull_alloc t tr = Inr (out, loc, tr') \<Longrightarrow> list_all no_function out"
  by (auto simp: hull_alloc_def res_elims alloc_loc_no_function)

lemma gen_expr_no_function:
  "gen_expr e tr = Inr (out, loc, tr') \<Longrightarrow> list_all no_function out"
  "gen_args es tr = Inr (out, ys, locs, tr') \<Longrightarrow> list_all no_function out"
proof (induction e tr and es tr arbitrary: out loc tr' and out ys locs tr' rule: gen_expr_gen_args.induct)
  case (8 sp t target e tr)
  then show ?case by (cases "ty_kind (strip_named target)") (auto simp: res_elims)
next
  case (9 sp t target e tr)
  then show ?case by (cases "ty_kind (strip_named target)") (auto simp: res_elims)
next
  case (11 sp t f es tr)
  then obtain o1 ys ls tr1 where g: "gen_args es tr = Inr (o1, ys, ls, tr1)" by (auto simp: res_elims)
  have 1: "list_all no_function o1" by (rule 11(1)[OF g])
  show ?case
  proof (cases "lower_callee f (user_functions tr1)")
    case Identity_callee
    with 11(2) 1 show ?thesis by (simp add: g split: list.splits)
  next
    case (Call_callee m)
    with 11(2) g 1 show ?thesis by (auto simp: res_elims hull_alloc_no_function split: if_splits)
  qed
qed (auto simp: res_elims hull_alloc_no_function)

lemma gen_stmts_no_function:
  "list_all asm_free ss \<Longrightarrow> gen_stmts ss tr = Inr (out, tr') \<Longrightarrow> list_all no_function out"
proof (induction ss arbitrary: tr out)
  case (Cons s ss)
  then obtain o1 tr1 o2 where g: "gen_stmt s tr = Inr (o1, tr1)" "gen_stmts ss tr1 = Inr (o2, tr')" "out = o1 @ o2"
    by (auto simp: res_elims)
  obtain sp k where s: "s = Stmt sp k" by (cases s)
  have "list_all no_function o1"
    using g(1) Cons.prems(1) unfolding s
    by (cases k) (auto simp: res_elims Let_def partition_allocs_def alloc_var_def hull_assign_def revert_stmts_def gen_expr_no_function
        hull_alloc_no_function copy_locs_no_function split: if_splits prod.splits)
  with g(3) Cons.IH[OF _ g(2)] Cons.prems(1) show ?case by simp
qed simp

section \<open>The functions of a code block\<close>

definition translated :: "name set \<Rightarrow> hull_function \<Rightarrow> yul_stmt \<Rightarrow> bool" where
  "translated users f s \<longleftrightarrow> (\<exists>tr tr'. user_functions tr = users \<and> translate_function f tr = Inr (s, tr'))"

lemma translated_function:
  "translated users f s \<Longrightarrow> \<exists>params returns body. s = YFunction (yul_fun_name (fn_name f)) params returns body"
  by (auto simp: translated_def translate_function_def Let_def res_elims)

lemma find_translated:
  assumes "list_all2 (translated users) fs out" and "find_function fs n = Some f"
  shows "\<exists>params returns body. find_yul (out @ rest) (yul_fun_name n) = Some (params, returns, body)
    \<and> translated users f (YFunction (yul_fun_name n) params returns body)"
  using assms
proof (induction fs out rule: list_all2_induct)
  case (Cons g fs s out)
  obtain params returns body where s: "s = YFunction (yul_fun_name (fn_name g)) params returns body"
    using translated_function[OF Cons.hyps(1)] by blast
  show ?case
  proof (cases "fn_name g = n")
    case True
    with Cons.prems s Cons.hyps(1) show ?thesis by (simp add: find_function_def)
  next
    case False
    then have "find_function fs n = Some f" using Cons.prems by (simp add: find_function_def)
    from Cons.IH[OF this] False s show ?thesis by (simp add: yul_fun_name_def)
  qed
qed (simp add: find_function_def)

lemma find_no_function: "list_all no_function ss \<Longrightarrow> find_yul ss n = None"
  by (induction ss n rule: find_yul.induct) auto

lemma find_other:
  assumes "list_all2 (translated users) fs out" and "list_all no_function rest" and "take 4 n \<noteq> ''usr$''"
  shows "find_yul (out @ rest) n = None"
  using assms(1)
proof (induction fs out rule: list_all2_induct)
  case (Cons g fs s out)
  obtain params returns body where s: "s = YFunction (yul_fun_name (fn_name g)) params returns body"
    using translated_function[OF Cons.hyps(1)] by blast
  have "yul_fun_name (fn_name g) \<noteq> n" using assms(3) by (auto simp: yul_fun_name_def)
  with s Cons.IH show ?case by simp
qed (simp add: find_no_function[OF assms(2)])

lemma find_function_distinct: "distinct (map fn_name fs) \<Longrightarrow> f \<in> set fs \<Longrightarrow> find_function fs (fn_name f) = Some f"
  by (induction fs) (auto simp: find_function_def)

lemma find_function_None: "n \<notin> set (map fn_name fs) \<Longrightarrow> find_function fs n = None"
  by (auto simp: find_function_def find_None_iff)

section \<open>Builtins\<close>

text \<open>The Yul names of builtins are not names of user functions.\<close>

lemma builtin_targets:
  assumes "builtin_funs sp n = Some s" and "lower_callee n {} = Call_callee m"
  shows "take 4 m \<noteq> ''usr$''"
proof -
  have "list_all (\<lambda>(n, s). case lower_callee n {} of Call_callee m \<Rightarrow> take 4 m \<noteq> ''usr$'' | _ \<Rightarrow> True) (builtin_rows sp)"
    by code_simp
  moreover have "(n, s) \<in> set (builtin_rows sp)"
    using assms(1) by (auto simp: builtin_funs_map_of dest: map_of_SomeD)
  ultimately show ?thesis using assms(2) by (auto simp: list_all_iff)
qed

text \<open>A revert depends on two builtins only.\<close>

lemma reverts_refine_cong:
  assumes "reverts_refine R B" and "C ''mstore'' = B ''mstore''" and "C ''revert'' = B ''revert''"
  shows "reverts_refine R C"
proof -
  have "yseq C n (revert_stmts message) \<sigma> w = yseq B n (revert_stmts message) \<sigma> w" for n message \<sigma> w
    using assms(2,3) by (simp add: revert_stmts_def y_call_def y_defs cong: if_cong)
  with assms(1) show ?thesis by (simp add: reverts_refine_def)
qed

lemma yul_calls_other: "find_yul ss n = None \<Longrightarrow> yul_calls ss B d n = B n"
  by (cases d) (simp_all add: fun_eq_iff)

lemma hull_calls_other: "find_function fs n = None \<Longrightarrow> hull_calls fs B R d n = B n"
  by (cases d) (simp_all add: fun_eq_iff)

section \<open>Calls to any depth\<close>

text \<open>The table of functions inside a block, as the checker registers it.\<close>

definition fun_sig_of :: "hull_function \<Rightarrow> fun_sig" where
  "fun_sig_of f = \<lparr>sig_args = map arg_ty (fn_args f), sig_ret = fn_ret f\<rparr>"

definition block_funs :: "span \<Rightarrow> hull_function list \<Rightarrow> name \<rightharpoonup> fun_sig" where
  "block_funs sp fs = fold (\<lambda>f F. F(fn_name f \<mapsto> fun_sig_of f)) fs (builtin_funs sp)"

lemma registered_table:
  "env_funs (fold register_function fs env) = fold (\<lambda>f F. F(fn_name f \<mapsto> fun_sig_of f)) fs (env_funs env)"
  by (induction fs arbitrary: env) (simp_all add: register_function_funs fun_sig_of_def)

lemma block_funs_registered:
  "env_funs env = builtin_funs sp \<Longrightarrow> block_funs sp fs = env_funs (fold register_function fs env)"
  by (simp add: registered_table block_funs_def)

lemma builtin_env: "env_funs (initial_env db sp) = builtin_funs sp"
  by (simp add: initial_env_def)

lemma block_funs_cases:
  assumes "block_funs sp fs n = Some s"
  obtains f where "f \<in> set fs" "fn_name f = n" "s = fun_sig_of f"
  | "n \<notin> set (map fn_name fs)" "builtin_funs sp n = Some s"
  using assms registered_funs[of fs "initial_env None sp" n s] block_funs_registered[OF builtin_env[of None sp], of fs]
  by (auto simp: builtin_env fun_sig_of_def)

lemma block_funs_own:
  assumes "distinct (map fn_name fs)" and "f \<in> set fs"
  shows "block_funs sp fs (fn_name f) = Some (fun_sig_of f)"
proof -
  have other: "fold (\<lambda>f F. F(fn_name f \<mapsto> fun_sig_of f)) fs G n = G n" if "n \<notin> set (map fn_name fs)" for fs G n
    using that by (induction fs arbitrary: G) auto
  have "fold (\<lambda>f F. F(fn_name f \<mapsto> fun_sig_of f)) fs G (fn_name f) = Some (fun_sig_of f)" for G
    using assms
  proof (induction fs arbitrary: G)
    case (Cons g fs)
    then show ?case by (cases "g = f") (auto simp: other simp del: fun_upd_apply, simp)
  qed simp
  then show ?thesis by (simp add: block_funs_def)
qed

lemma block_funs_agree:
  assumes "\<And>f. f \<in> set fs \<Longrightarrow> ref_free (fn_ret f) \<and> list_all (\<lambda>a. ref_free (arg_ty a)) (fn_args f)"
    and "users = set (map fn_name fs)"
  shows "sigs_plain (block_funs sp fs)" "identities_ok (block_funs sp fs) users"
  using registered_agree[OF builtin_env[of None sp] assms(1), where tr = "new_translator (\<lambda>_. [])\<lparr>user_functions := users\<rparr>"]
    block_funs_registered[OF builtin_env[of None sp], of fs] assms(2) by simp_all

lemma block_calls_refine:
  assumes users: "users = set (map fn_name fs)" and builtins: "calls_refine (builtin_funs sp) {} HB CB"
    and H: "\<And>n. n \<notin> users \<Longrightarrow> H n = HB n" and C: "\<And>m. take 4 m \<noteq> ''usr$'' \<Longrightarrow> C m = CB m"
    and user: "\<And>f vs wss w. f \<in> set fs \<Longrightarrow> arg_words (map arg_ty (fn_args f)) vs wss \<Longrightarrow>
      sim (returns_enc (erase (fn_ret f))) (H (fn_name f) vs w) (C (yul_fun_name (fn_name f)) (concat wss) w)"
  shows "calls_refine (block_funs sp fs) users H C"
  unfolding calls_refine_def
proof (intro allI impI)
  fix n s vs wss w
  assume n: "block_funs sp fs n = Some s" and a: "arg_words (sig_args s) vs wss"
  from n show "case lower_callee n users of
      Call_callee m \<Rightarrow> sim (returns_enc (erase (sig_ret s))) (H n vs w) (C m (concat wss) w)
    | Identity_callee \<Rightarrow> \<exists>v. vs = [v] \<and> H n vs w = Inr (v, w)"
  proof (cases rule: block_funs_cases)
    case (1 f)
    then have "n \<in> users" by (auto simp: users)
    then have "lower_callee n users = Call_callee (yul_fun_name n)" by (simp add: lower_callee_def)
    with user[of f vs wss w] a 1 show ?thesis by (simp add: fun_sig_of_def)
  next
    case 2
    then have n: "n \<notin> users" by (simp add: users)
    note l = lower_callee_user[OF n]
    show ?thesis
    proof (cases "lower_callee n {}")
      case (Call_callee m)
      with calls_refineD(1)[OF builtins 2(2) a Call_callee, of w] l H[OF n] C[OF builtin_targets[OF 2(2) Call_callee]]
      show ?thesis by simp
    next
      case Identity_callee
      with calls_refineD(2)[OF builtins 2(2) a Identity_callee, of w] l H[OF n] show ?thesis by simp
    qed
  qed
qed

text \<open>All functions of a block are translated.\<close>

lemma functions_translate:
  assumes F: "sigs_plain F" "identities_ok F users"
    and rev: "reverts_refine R C" and calls: "calls_refine F users H C"
  shows "list_all (function_ready F users) fs \<Longrightarrow> user_functions tr = users \<Longrightarrow>
     \<exists>out tr'. translate_functions fs tr = Inr (out, tr') \<and> user_functions tr' = users \<and> tr_vars tr' = tr_vars tr
       \<and> list_all2 (translated users) fs out"
proof (induction fs arbitrary: tr)
  case (Cons f fs)
  have "function_ready F users f" using Cons.prems(1) by simp
  from function_lowers[OF this F Cons.prems(2) rev calls] obtain s tr1 where
    f: "translate_function f tr = Inr (s, tr1)" "advances tr tr1" "tr_vars tr1 = tr_vars tr" by blast
  then have u: "user_functions tr1 = users" using Cons.prems(2) by (simp add: advances_def)
  have "list_all (function_ready F users) fs" using Cons.prems(1) by simp
  from Cons.IH[OF this u] obtain out tr' where
    "translate_functions fs tr1 = Inr (out, tr')" "user_functions tr' = users" "tr_vars tr' = tr_vars tr1"
    "list_all2 (translated users) fs out" by blast
  moreover have "translated users f s" using f(1) Cons.prems(2) by (auto simp: translated_def)
  ultimately show ?case using f by simp
qed simp

lemma calls_at_depth:
  assumes out: "list_all2 (translated users) fs out" and rest: "list_all no_function rest"
    and users: "users = set (map fn_name fs)" and dist: "distinct (map fn_name fs)"
    and ready: "list_all (function_ready (block_funs sp fs) users) fs"
    and F: "sigs_plain (block_funs sp fs)" "identities_ok (block_funs sp fs) users"
    and builtins: "calls_refine (builtin_funs sp) {} HB CB" and rev: "reverts_refine R CB"
  shows "calls_refine (block_funs sp fs) users (hull_calls fs HB R d) (yul_calls (out @ rest) CB d)
    \<and> reverts_refine R (yul_calls (out @ rest) CB d)"
proof -
  have H: "n \<notin> users \<Longrightarrow> hull_calls fs HB R d n = HB n" for n d
    using hull_calls_other[OF find_function_None] by (simp add: users)
  have C: "take 4 m \<noteq> ''usr$'' \<Longrightarrow> yul_calls (out @ rest) CB d m = CB m" for m d
    by (rule yul_calls_other[OF find_other[OF out rest]])
  have rev: "reverts_refine R (yul_calls (out @ rest) CB d)" for d
    by (rule reverts_refine_cong[OF rev]; rule C) simp_all
  have refine: "calls_refine (block_funs sp fs) users (hull_calls fs HB R d) (yul_calls (out @ rest) CB d)"
    if "\<And>f vs wss w. f \<in> set fs \<Longrightarrow> arg_words (map arg_ty (fn_args f)) vs wss \<Longrightarrow>
      sim (returns_enc (erase (fn_ret f))) (hull_calls fs HB R d (fn_name f) vs w)
        (yul_calls (out @ rest) CB d (yul_fun_name (fn_name f)) (concat wss) w)" for d
    by (rule block_calls_refine[OF users builtins H C that])
  have "calls_refine (block_funs sp fs) users (hull_calls fs HB R d) (yul_calls (out @ rest) CB d)"
  proof (induction d)
    case 0
    have "sim (returns_enc (erase (fn_ret f))) (hull_calls fs HB R 0 (fn_name f) vs w)
        (yul_calls (out @ rest) CB 0 (yul_fun_name (fn_name f)) (concat wss) w)" if "f \<in> set fs" for f vs wss w
      using find_translated[OF out find_function_distinct[OF dist that], of rest] find_function_distinct[OF dist that]
      by auto
    with refine show ?case by blast
  next
    case (Suc d)
    have "sim (returns_enc (erase (fn_ret f))) (hull_calls fs HB R (Suc d) (fn_name f) vs w)
        (yul_calls (out @ rest) CB (Suc d) (yul_fun_name (fn_name f)) (concat wss) w)"
      if f: "f \<in> set fs" and a: "arg_words (map arg_ty (fn_args f)) vs wss" for f vs wss w
    proof -
      have ff: "find_function fs (fn_name f) = Some f" by (rule find_function_distinct[OF dist f])
      obtain ps rn body tr tr' where y: "find_yul (out @ rest) (yul_fun_name (fn_name f)) = Some (ps, rn, body)"
        and t: "user_functions tr = users" "translate_function f tr = Inr (YFunction (yul_fun_name (fn_name f)) ps rn body, tr')"
        using find_translated[OF out ff, of rest] unfolding translated_def by blast
      have "function_ready (block_funs sp fs) users f" using ready f by (simp add: list_all_iff)
      from function_lowers[OF this F t(1) rev Suc] t(2) a
      have "sim (returns_enc (erase (fn_ret f))) (run_function (hull_calls fs HB R d) R d f vs w)
        (yul_function (yul_calls (out @ rest) CB d) d ps rn body (concat wss) w)" by auto
      with ff y show ?thesis by simp
    qed
    with refine show ?case by blast
  qed
  with rev show ?thesis by blast
qed

text \<open>Calls that never get anywhere, for which the code can be generated first.\<close>

lemma calls_to_start:
  assumes users: "users = set (map fn_name fs)"
    and builtins: "calls_refine (builtin_funs sp) {} HB CB" and rev: "reverts_refine R CB"
  shows "calls_refine (block_funs sp fs) users (\<lambda>n. if n \<in> users then \<lambda>vs w. Inl Timeout else HB n)
      (\<lambda>m. if take 4 m = ''usr$'' then \<lambda>vs w. Inl Timeout else CB m)"
    and "reverts_refine R (\<lambda>m. if take 4 m = ''usr$'' then \<lambda>vs w. Inl Timeout else CB m)"
proof -
  show "calls_refine (block_funs sp fs) users (\<lambda>n. if n \<in> users then \<lambda>vs w. Inl Timeout else HB n)
      (\<lambda>m. if take 4 m = ''usr$'' then \<lambda>vs w. Inl Timeout else CB m)"
    by (rule block_calls_refine[OF users builtins]) (simp_all add: users yul_fun_name_def)
  show "reverts_refine R (\<lambda>m. if take 4 m = ''usr$'' then \<lambda>vs w. Inl Timeout else CB m)"
    by (rule reverts_refine_cong[OF rev]) simp_all
qed

section \<open>Code blocks\<close>

text \<open>The statements of a code block, run from an empty environment; fuel and call depth are one
  number.\<close>

definition run_hull_code :: "'w hcalls \<Rightarrow> 'w reverts \<Rightarrow> nat \<Rightarrow> code_block \<Rightarrow> 'w \<Rightarrow> 'w stop + 'w" where
  "run_hull_code B R d cb w =
     res_bind (hstmts (hull_calls (cb_functions cb) B R d) R d (cb_stmts cb) [] w) (\<lambda>(m, \<rho>, w).
       if m = HNormal then Inr w else Inl Stuck)"

definition run_yul_code :: "'w ycalls \<Rightarrow> nat \<Rightarrow> yul_code \<Rightarrow> 'w \<Rightarrow> 'w stop + 'w" where
  "run_yul_code B d code w =
     res_bind (yseq (yul_calls (code_stmts code) B d) d (code_stmts code) Map.empty w) (\<lambda>(m, \<sigma>, w).
       if m = MNormal then Inr w else Inl Stuck)"

definition block_ready :: "span \<Rightarrow> code_block \<Rightarrow> bool" where
  "block_ready sp cb \<longleftrightarrow>
     (let fs = cb_functions cb; users = set (map fn_name fs); F = block_funs sp fs
      in distinct (map fn_name fs) \<and> list_all (function_ready F users) fs
         \<and> wt_stmts F None Map.empty (cb_stmts cb) \<and> plain_stmts users {} (cb_stmts cb)
         \<and> list_all jump_free (cb_stmts cb))"

lemma plain_asm_free:
  "plain_stmts users A ss \<Longrightarrow> list_all asm_free ss"
  "plain_stmt users A s \<Longrightarrow> asm_free s"
  "plain_alts users A X alts \<Longrightarrow> list_all asm_free_alt alts"
  by (induction users A ss and users A s and users A X alts rule: plain_stmts_plain_stmt_plain_alts.induct) auto

text \<open>Function definitions do nothing when they are executed.\<close>

lemma yseq_functions:
  assumes "list_all2 (translated users) fs out"
  shows "yseq C n (out @ ss) \<sigma> w = yseq C n ss \<sigma> w"
  using assms
proof (induction fs out rule: list_all2_induct)
  case (Cons f fs s out)
  then show ?case using translated_function[OF Cons.hyps(1)] by auto
qed simp

lemma unit_result: "ctx_ok F G A \<Delta> tr \<Longrightarrow> result_ok (ty_unit sp) [] \<Delta> tr"
  by (simp add: result_ok_def)

lemma lowered_code:
  assumes "lowered F rt rn C \<Delta> tr G A r h ev"
  obtains out tr' where "r = Inr (out, tr')"
  using assms by (auto simp: lowered_def)

lemma lowered_executes:
  assumes "lowered F rt rn C \<Delta> tr G A r h ev" and "r = Inr (out, tr')"
  obtains ns X where "executes C rn (erase rt) \<Delta> (X @ \<Delta>) tr tr' out ns h ev"
  using assms by (auto simp: lowered_def)

lemma block_refines:
  assumes ready: "block_ready sp cb"
    and builtins: "calls_refine (builtin_funs sp) {} HB CB" and rev: "reverts_refine R CB"
  shows "\<exists>code tr'. translate_code_block cb tr = Inr (code, tr')
    \<and> (\<forall>d w. run_hull_code HB R d cb w \<noteq> Inl Stuck \<and> run_yul_code CB d code w = run_hull_code HB R d cb w)"
proof -
  let ?fs = "cb_functions cb" and ?ss = "cb_stmts cb" and ?users = "set (map fn_name (cb_functions cb))"
  let ?F = "block_funs sp ?fs" and ?unit = "ty_unit sp"
  have r: "distinct (map fn_name ?fs)" "list_all (function_ready ?F ?users) ?fs" "wt_stmts ?F None Map.empty ?ss"
    "plain_stmts ?users {} ?ss" "list_all jump_free ?ss" using ready by (simp_all add: block_ready_def Let_def)
  have F: "sigs_plain ?F" "identities_ok ?F ?users"
    by (rule block_funs_agree[OF _ refl]; use r(2) in \<open>auto simp: list_all_iff function_ready_def\<close>)+
  have wt: "wt_stmts ?F (Some ?unit) Map.empty ?ss" by (rule wt_any_return(1)[OF r(3) refl])
  note start = calls_to_start[where fs = ?fs, OF refl builtins rev]
  from functions_translate[OF F start(2,1) r(2), of "tr\<lparr>tr_vars := [Map.empty], user_functions := ?users\<rparr>"]
  obtain out tr2 where f: "translate_functions ?fs (tr\<lparr>tr_vars := [Map.empty], user_functions := ?users\<rparr>) = Inr (out, tr2)"
    and t2: "user_functions tr2 = ?users" "tr_vars tr2 = [Map.empty]" and out: "list_all2 (translated ?users) ?fs out" by auto
  have ok: "ctx_ok ?F Map.empty {} [] tr2"
    using F t2 by (simp add: ctx_ok_def agrees_def vars_match_def visible_def tr_ok_def)
  then have from_start: "lowers_from ?F Map.empty {} [] tr2 ?unit [] ?users"
    using unit_result t2 by (simp add: lowers_from_def)
  note lower = code_lowers(1)[OF _ _ wt r(4) from_start]
  from lower[OF start(2,1)] obtain body tr3 where b: "gen_stmts ?ss tr2 = Inr (body, tr3)" by (rule lowered_code)
  have nf: "list_all no_function body" by (rule gen_stmts_no_function[OF plain_asm_free(1)[OF r(4)] b])
  let ?code = "\<lparr>code_stmts = out @ body\<rparr>"
  have "translate_code_block cb tr = Inr (?code, tr3\<lparr>tr_vars := tr_vars tr, user_functions := user_functions tr\<rparr>)"
    using f b by (simp add: translate_code_block_def translate_code_parts_def Let_def)
  moreover have "run_hull_code HB R d cb w \<noteq> Inl Stuck \<and> run_yul_code CB d ?code w = run_hull_code HB R d cb w" for d w
  proof -
    let ?H = "hull_calls ?fs HB R d" and ?C = "yul_calls (out @ body) CB d"
    have c: "calls_refine ?F ?users ?H ?C" "reverts_refine R ?C"
      using calls_at_depth[OF out nf refl r(1,2) F builtins rev] by blast+
    from lower[OF c(2,1)] b obtain ns X where
      e: "executes ?C [] (erase ?unit) [] (X @ []) tr2 tr3 body ns (list_all not_let ?ss) (\<lambda>n. hstmts ?H R n ?ss)"
      by (rule lowered_executes)
    have "ready False (set ns) tr2 tr3 Map.empty" by (simp add: ready_def)
    from executes_sim[OF e _ _ this, of "[]" d w]
    have s: "sim (fin [] (erase ?unit) [] (X @ []) (set ns) Map.empty) (hstmts ?H R d ?ss [] w) (yseq ?C d body Map.empty w)"
      by (simp add: hoisted_def)
    have st: "stays (list_all jump_free ?ss) (hstmts ?H R d ?ss [] w)"
      by (rule execution_stays(1)[OF wt_return_free(1)[OF r(3) refl]])
    have y: "yseq ?C d (out @ body) Map.empty w = yseq ?C d body Map.empty w" by (rule yseq_functions[OF out])
    from s show ?thesis
    proof (cases rule: sim_cases)
      case (Stops x)
      with y show ?thesis by (simp add: run_hull_code_def run_yul_code_def)
    next
      case (Returns p q)
      from Returns(3) show ?thesis
      proof (rule finE)
        fix hm \<rho> w' m \<sigma>
        assume pq: "p = (hm, \<rho>, w')" "q = (m, \<sigma>, w')"
          and f: "finishes [] (erase ?unit) [] (X @ []) (set ns) Map.empty hm \<rho> m \<sigma>"
        have "hm = HNormal" using st r(5) Returns(1) pq(1) by (cases hm) (auto simp: stays_def)
        with f have "m = MNormal" by simp
        with Returns(1,2) pq y \<open>hm = HNormal\<close> show ?thesis by (simp add: run_hull_code_def run_yul_code_def)
      qed
    qed
  qed
  ultimately show ?thesis by blast
qed

end
