(* ===== verification/Accepted_Programs.thy ===== *)
theory Accepted_Programs
  imports Program_Refines
begin

text \<open>
  From the checker to the meaning of programs: a program the checker accepts, whose code is in
  the plain fragment, is translated, and every object of the result runs like the object
  it comes from.
\<close>

section \<open>The fragment, for functions, code blocks and objects\<close>

definition plain_function :: "name set \<Rightarrow> hull_function \<Rightarrow> bool" where
  "plain_function users f \<longleftrightarrow>
     plain_stmts users (set (map arg_name (fn_args f))) (fn_body f) \<and> list_all jump_free (fn_body f)
     \<and> list_all (\<lambda>a. ref_free (arg_ty a) \<and> arg_name a \<noteq> ''_result'') (fn_args f) \<and> ref_free (fn_ret f)"

definition plain_block :: "code_block \<Rightarrow> bool" where
  "plain_block cb \<longleftrightarrow>
     (let users = set (map fn_name (cb_functions cb))
      in list_all (plain_function users) (cb_functions cb) \<and> plain_stmts users {} (cb_stmts cb)
         \<and> list_all jump_free (cb_stmts cb))"

fun plain_object :: "hull_object \<Rightarrow> bool" where
  "plain_object (Object sp n cb inners) \<longleftrightarrow> plain_block cb \<and> list_all plain_object inners"

lemma first_order_type: "ref_free t \<Longrightarrow> \<not> contains_function t \<Longrightarrow> first_order (erase t)"
  by (induction t rule: erase.induct) auto

lemma plain_function_asm_free: "plain_function users f \<Longrightarrow> list_all asm_free (fn_body f)"
  using plain_asm_free(1) by (auto simp: plain_function_def)

lemma plain_function_ready:
  "plain_function users f \<Longrightarrow> wt_function F db Map.empty f \<Longrightarrow> function_ready F users f"
  by (auto simp: plain_function_def wt_function_def function_ready_def param_types_def first_order_type)

section \<open>Lists of functions and objects that report nothing\<close>

lemma quiet_same: "emits a b \<Longrightarrow> quiet a b \<Longrightarrow> b = a"
  using emits_clean by (simp add: quiet_def)

lemma quiet_fold:
  assumes step: "\<And>x env. env_ok env \<Longrightarrow> emits env (g x env)"
  shows "env_ok env \<Longrightarrow> quiet env (fold g xs env) \<Longrightarrow> fold g xs env = env \<and> list_all (\<lambda>x. quiet env (g x env)) xs"
proof (induction xs)
  case (Cons x xs)
  have x: "emits env (g x env)" by (rule step[OF Cons.prems(1)])
  have ok: "env_ok (g x env)" using emits_ok[OF x] Cons.prems(1) by simp
  have "emits (g x env) (fold g xs (g x env))" by (rule fold_emits[OF step ok])
  from quiet_emits[OF x this] Cons.prems(2) have q: "quiet env (g x env)" by simp
  then have "g x env = env" by (rule quiet_same[OF x])
  with q Cons show ?case by simp
qed (simp add: quiet_refl)

lemma accepted_block:
  assumes q: "quiet (initial_env db sp) (check_object (Object osp n cb inners) (initial_env db sp))"
    and plain: "plain_block cb"
  shows "block_ready sp cb \<and> list_all (\<lambda>ob. quiet (initial_env db sp) (check_object ob (initial_env db sp))) inners
    \<and> list_all (wt_function (block_funs sp (cb_functions cb)) db Map.empty) (cb_functions cb)"
proof -
  let ?env = "initial_env db sp" and ?fs = "cb_functions cb" and ?ss = "cb_stmts cb"
  let ?users = "set (map fn_name ?fs)" and ?F = "block_funs sp ?fs"
  let ?e1 = "fold register_function ?fs ?env"
  let ?e2 = "fold check_function ?fs (enter_scope ?e1)"
  let ?e3 = "check_body ?ss ?e2"
  let ?e4 = "(leave_scope ?e3)\<lparr>env_funs := env_funs ?env\<rparr>"
  have p: "list_all (plain_function ?users) ?fs" "plain_stmts ?users {} ?ss" "list_all jump_free ?ss"
    using plain by (simp_all add: plain_block_def Let_def)
  have ok0: "env_ok ?env" by (simp add: initial_env_def env_ok_def)
  have r: "emits ?env (?e1\<lparr>env_funs := env_funs ?env\<rparr>)" by (rule fold_register_emits)
  have ok1': "env_ok ?e1" using ok0 emits_ok[OF r] by (simp add: env_ok_def)
  then have ok1: "env_ok (enter_scope ?e1)" by (rule enter_scope_ok)
  have e2: "emits (enter_scope ?e1) ?e2" by (rule fold_emits[OF check_function_emits ok1])
  then have ok2: "env_ok ?e2" using ok1 emits_ok by blast
  have s3: "scoped ?e2 ?e3" by (rule check_stmt_scoped(1)[OF ok2])
  have "check_object (Object osp n cb inners) ?env = fold check_object inners ?e4" by (simp add: Let_def)
  moreover have e4: "emits ?env ?e4"
  proof -
    have "scoped (enter_scope ?e1) ?e3" using emits_scoped[OF ok1 e2] s3 by (rule scoped_trans)
    then have "emits ?e1 (leave_scope ?e3)" by (rule leave_scope_emits[OF ok1'])
    with r show ?thesis by (auto simp: emits_iff)
  qed
  moreover have ok4: "env_ok ?e4" using e4 ok0 emits_ok by blast
  moreover have "emits ?e4 (fold check_object inners ?e4)" by (rule fold_emits[OF check_object_emits ok4])
  ultimately have q4: "quiet ?env ?e4" "quiet ?e4 (fold check_object inners ?e4)"
    using q quiet_emits[OF e4] by simp_all
  from quiet_same[OF e4 q4(1)] q4(2) quiet_fold[where g = check_object, OF check_object_emits ok0]
  have inner: "list_all (\<lambda>ob. quiet ?env (check_object ob ?env)) inners" by simp
  have q3: "quiet ?env ?e3" using q4(1) by (simp add: quiet_def)
  obtain ds1 where 1: "diagnostics ?e1 = diagnostics ?env @ ds1" using emits_prefix[OF r] by auto
  obtain ds2 where 2: "diagnostics ?e2 = diagnostics (enter_scope ?e1) @ ds2" using emits_prefix[OF e2] by blast
  obtain ds3 where 3: "diagnostics ?e3 = diagnostics ?e2 @ ds3" using scoped_prefix[OF s3] by blast
  have "diagnostics ?env @ ds1 @ ds2 @ ds3 = diagnostics ?env" using q3 unfolding quiet_def 3 2 scope_fields 1 by simp
  then have ds: "ds1 = []" "ds2 = []" "ds3 = []" by simp_all
  have q1: "quiet ?env ?e1" unfolding quiet_def 1 ds by simp
  have q2: "quiet (enter_scope ?e1) ?e2" unfolding quiet_def 2 ds by simp
  have qs: "quiet ?e2 ?e3" unfolding quiet_def 3 ds by simp
  have dist: "distinct (map fn_name ?fs)" using q1 register_clean[of ?fs ?env] by (simp add: quiet_def)
  have same: "?e2 = enter_scope ?e1" by (rule quiet_same[OF e2 q2])
  have F: "env_funs ?e1 = ?F" using block_funs_registered[OF builtin_env] by metis
  have fields: "env_vars ?e1 = [Map.empty]" "env_ret ?e1 = None" "env_db ?e1 = db"
    using emits_fields[OF r] by (simp_all add: initial_env_def)
  have look: "lookup_var (enter_scope ?e1) = Map.empty"
    using fields(1) by (simp add: lookup_var_def enter_scope_def vec_push_def scopes_lookup_def fun_eq_iff)
  have edb: "env_db (enter_scope ?e1) = db" by (simp add: enter_scope_def fields(3))
  have quiets: "list_all (\<lambda>f. quiet (enter_scope ?e1) (check_function f (enter_scope ?e1))) ?fs"
    using quiet_fold[where g = check_function, OF check_function_emits ok1] q2 by blast
  have wt: "function_ready ?F ?users f \<and> wt_function ?F db Map.empty f" if f: "f \<in> set ?fs" for f
  proof -
    have pf: "plain_function ?users f" using p(1) f by (simp add: list_all_iff)
    have "quiet (enter_scope ?e1) (check_function f (enter_scope ?e1))" using quiets f by (simp add: list_all_iff)
    then have "wt_function (env_funs (enter_scope ?e1)) (env_db (enter_scope ?e1)) (lookup_var (enter_scope ?e1)) f"
      using quiet_function[OF ok1 plain_function_asm_free[OF pf]] by blast
    then have "wt_function ?F db Map.empty f" unfolding look by (simp add: F edb)
    with plain_function_ready[OF pf] show ?thesis by blast
  qed
  then have fr: "list_all (function_ready ?F ?users) ?fs" "list_all (wt_function ?F db Map.empty) ?fs" by (simp_all add: list_all_iff)
  have "wt_stmts (env_funs (enter_scope ?e1)) (env_ret (enter_scope ?e1)) (lookup_var (enter_scope ?e1)) ?ss"
    using qs same quiet_wt(1)[OF ok1 plain_asm_free(1)[OF p(2)]] by simp
  then have "wt_stmts ?F None Map.empty ?ss" unfolding look by (simp add: F fields(2))
  with dist fr p inner show ?thesis by (simp add: block_ready_def Let_def)
qed

section \<open>Objects\<close>

text \<open>The Yul code does what the code block does, at every depth of calls, from every state of the
  machine. In particular the code block never gets stuck.\<close>

definition same_runs :: "'w hcalls \<Rightarrow> 'w reverts \<Rightarrow> 'w ycalls \<Rightarrow> code_block \<Rightarrow> yul_code \<Rightarrow> bool" where
  "same_runs HB R CB cb code \<longleftrightarrow>
     (\<forall>d w. run_hull_code HB R d cb w \<noteq> Inl Stuck \<and> run_yul_code CB d code w = run_hull_code HB R d cb w)"

inductive object_refined :: "'w hcalls \<Rightarrow> 'w reverts \<Rightarrow> 'w ycalls \<Rightarrow> hull_object \<Rightarrow> yul_object \<Rightarrow> bool"
  for HB :: "'w hcalls" and R :: "'w reverts" and CB :: "'w ycalls" where
  "same_runs HB R CB cb code \<Longrightarrow> list_all2 (object_refined HB R CB) inners ys \<Longrightarrow>
     object_refined HB R CB (Object sp n cb inners) (YObject n code (map InnerObject ys))"

inductive_cases object_refinedE: "object_refined HB R CB (Object sp n cb inners) y"

lemma object_translates:
  assumes builtins: "calls_refine (builtin_funs sp) {} HB CB" and rev: "reverts_refine R CB"
  shows "plain_object ob \<Longrightarrow> quiet (initial_env db sp) (check_object ob (initial_env db sp)) \<Longrightarrow>
      \<exists>y tr'. translate_object ob tr = Inr (y, tr') \<and> object_refined HB R CB ob y"
    and "list_all plain_object obs \<Longrightarrow> list_all (\<lambda>ob. quiet (initial_env db sp) (check_object ob (initial_env db sp))) obs \<Longrightarrow>
      \<exists>ys tr'. translate_objects obs tr = Inr (ys, tr') \<and> list_all2 (object_refined HB R CB) obs ys"
proof (induction ob tr and obs tr rule: translate_object_translate_objects.induct)
  case (1 osp n cb inners tr)
  from accepted_block[OF 1(3)] 1(2) have b: "block_ready sp cb"
    and i: "list_all (\<lambda>ob. quiet (initial_env db sp) (check_object ob (initial_env db sp))) inners" by simp_all
  from block_refines[OF b builtins rev, of tr] obtain code tr1 where c: "translate_code_block cb tr = Inr (code, tr1)"
    "same_runs HB R CB cb code" unfolding same_runs_def by blast
  have "list_all plain_object inners" using 1(2) by simp
  from 1(1)[OF c(1) refl this i] obtain ys tr2 where
    o: "translate_objects inners tr1 = Inr (ys, tr2)" "list_all2 (object_refined HB R CB) inners ys" by blast
  with c object_refined.intros[OF c(2) o(2)] show ?case by simp
next
  case (3 ob obs tr)
  from 3(1) 3(3,4) obtain y tr1 where o: "translate_object ob tr = Inr (y, tr1)" "object_refined HB R CB ob y" by auto
  with 3(2)[OF o(1) refl] 3(3,4) show ?case by auto
qed simp

section \<open>Programs without objects\<close>

text \<open>The last steps of such a program: the word is stored at the start of the memory and returned.\<close>

definition return_word :: "'w ycalls \<Rightarrow> 256 word \<Rightarrow> 'w \<Rightarrow> 'w stop + 'w" where
  "return_word CB x w =
     res_bind (CB ''mstore'' [0, x] w) (\<lambda>(us, w).
     if us = [] then res_bind (CB ''return'' [0, 32] w) (\<lambda>(us, w). if us = [] then Inr w else Inl Stuck)
     else Inl Stuck)"

lemma entry_call_exec:
  assumes "C (yul_fun_name entry) [] w = Inr ([x], w')" and "C ''mstore'' = CB ''mstore''" and "C ''return'' = CB ''return''"
  shows "res_bind (yseq C d (entry_call entry) Map.empty w) (\<lambda>(m, \<sigma>, w). if m = MNormal then Inr w else Inl Stuck)
    = return_word CB x w'"
proof -
  have "is_ok (canonical_numeric_lit ''0'')" "literal_value ''0'' = 0"
    "is_ok (canonical_numeric_lit ''32'')" "literal_value ''32'' = 32" by code_simp+
  then have n: "number_word ''0'' = Some 0" "number_word ''32'' = Some 32" by (simp_all add: number_word_def)
  let ?\<sigma> = "[''_mainresult'' \<mapsto> x]"
  have 1: "ystmt C d (YLet [''_mainresult''] (Some (y_call (yul_fun_name entry) []))) Map.empty w = Inr (MNormal, ?\<sigma>, w')"
    using assms(1) by (simp add: y_call_def declare_vars_def)
  have store: "yeval C ?\<sigma> (y_call ''mstore'' [y_number ''0'', y_ident ''_mainresult'']) w' = CB ''mstore'' [0, x] w'"
    using assms(2) n by (simp add: y_call_def y_defs)
  have return: "yeval C ?\<sigma> (y_call ''return'' [y_number ''0'', y_number ''32'']) w1 = CB ''return'' [0, 32] w1" for w1
    using assms(3) n by (simp add: y_call_def y_defs)
  have 2: "res_bind (yseq C d main_result_return_block ?\<sigma> w') (\<lambda>(m, \<sigma>, w). if m = MNormal then Inr w else Inl Stuck)
      = return_word CB x w'"
  proof (cases "CB ''mstore'' [0, x] w'")
    case (Inr p)
    obtain us w1 where p: "p = (us, w1)" by (cases p)
    show ?thesis
      by (cases "CB ''return'' [0, 32] w1")
         (auto simp: main_result_return_block_def store return return_word_def Inr p)
  qed (simp add: main_result_return_block_def store return_word_def)
  show ?thesis unfolding entry_call_def yseq.simps(2) 1 using 2 by simp
qed

lemma accepted_functions:
  assumes q: "quiet (initial_env db sp) (fold check_function fs (fold register_function fs (initial_env db sp)))"
    and plain: "list_all (plain_function (set (map fn_name fs))) fs"
  shows "distinct (map fn_name fs) \<and> list_all (function_ready (block_funs sp fs) (set (map fn_name fs))) fs
    \<and> list_all (wt_function (block_funs sp fs) db Map.empty) fs"
proof -
  let ?env = "initial_env db sp" and ?users = "set (map fn_name fs)" and ?F = "block_funs sp fs"
  let ?e1 = "fold register_function fs ?env"
  have ok0: "env_ok ?env" by (simp add: initial_env_def env_ok_def)
  have r: "emits ?env (?e1\<lparr>env_funs := env_funs ?env\<rparr>)" by (rule fold_register_emits)
  have ok1: "env_ok ?e1" using ok0 emits_ok[OF r] by (simp add: env_ok_def)
  have e2: "emits ?e1 (fold check_function fs ?e1)" by (rule fold_emits[OF check_function_emits ok1])
  obtain ds1 where 1: "diagnostics ?e1 = diagnostics ?env @ ds1" using emits_prefix[OF r] by auto
  obtain ds2 where 2: "diagnostics (fold check_function fs ?e1) = diagnostics ?e1 @ ds2" using emits_prefix[OF e2] by blast
  have "diagnostics ?env @ ds1 @ ds2 = diagnostics ?env" using q unfolding quiet_def 2 1 by simp
  then have ds: "ds1 = []" "ds2 = []" by simp_all
  have q1: "quiet ?env ?e1" and q2: "quiet ?e1 (fold check_function fs ?e1)" unfolding quiet_def 2 1 ds by simp_all
  have dist: "distinct (map fn_name fs)" using q1 register_clean[of fs ?env] by (simp add: quiet_def)
  have F: "env_funs ?e1 = ?F" using block_funs_registered[OF builtin_env] by metis
  have fields: "env_vars ?e1 = [Map.empty]" "env_db ?e1 = db"
    using emits_fields[OF r] by (simp_all add: initial_env_def)
  have look: "lookup_var ?e1 = Map.empty"
    using fields(1) by (simp add: lookup_var_def scopes_lookup_def fun_eq_iff)
  have quiets: "list_all (\<lambda>f. quiet ?e1 (check_function f ?e1)) fs"
    using quiet_fold[where g = check_function, OF check_function_emits ok1] q2 by blast
  have wt: "function_ready ?F ?users f \<and> wt_function ?F db Map.empty f" if f: "f \<in> set fs" for f
  proof -
    have pf: "plain_function ?users f" using plain f by (simp add: list_all_iff)
    have "quiet ?e1 (check_function f ?e1)" using quiets f by (simp add: list_all_iff)
    then have "wt_function (env_funs ?e1) (env_db ?e1) (lookup_var ?e1) f"
      using quiet_function[OF ok1 plain_function_asm_free[OF pf]] by blast
    then have "wt_function ?F db Map.empty f" unfolding look by (simp add: F fields(2))
    with plain_function_ready[OF pf] show ?thesis by blast
  qed
  with dist show ?thesis by (simp add: list_all_iff)
qed

section \<open>An example\<close>

text \<open>A machine with addition and one storage cell, the state; every other builtin halts.\<close>

definition cell_hull :: "256 word hcalls" where
  "cell_hull n vs w =
     (case lower_callee n {} of
        Identity_callee \<Rightarrow> (case vs of [v] \<Rightarrow> Inr (v, w) | _ \<Rightarrow> Inl Stuck)
      | Call_callee m \<Rightarrow>
          if m = ''add'' then (case vs of [VWord a, VWord b] \<Rightarrow> Inr (VWord (a + b), w) | _ \<Rightarrow> Inl Stuck)
          else if m = ''sstore'' then (case vs of [VWord a, VWord b] \<Rightarrow> Inr (VUnit, b) | _ \<Rightarrow> Inl Stuck)
          else Inl (Halted w))"

definition cell_yul :: "256 word ycalls" where
  "cell_yul m ws w =
     (if m = ''add'' then (case ws of [a, b] \<Rightarrow> Inr ([a + b], w) | _ \<Rightarrow> Inl Stuck)
      else if m = ''sstore'' then (case ws of [a, b] \<Rightarrow> Inr ([], b) | _ \<Rightarrow> Inl Stuck)
      else Inl (Halted w))"

definition cell_row :: "name \<times> fun_sig \<Rightarrow> bool" where
  "cell_row = (\<lambda>(n, s). case lower_callee n {} of
      Identity_callee \<Rightarrow> length (sig_args s) = 1
    | Call_callee m \<Rightarrow>
        (m = ''add'' \<longrightarrow> map erase (sig_args s) = [ShWord, ShWord] \<and> erase (sig_ret s) = ShWord)
        \<and> (m = ''sstore'' \<longrightarrow> map erase (sig_args s) = [ShWord, ShWord] \<and> erase (sig_ret s) = ShUnit))"

lemma cell_rows: "list_all cell_row (builtin_rows sp)"
  by code_simp

lemma two_words:
  assumes "arg_words ts vs wss" and "map erase ts = [ShWord, ShWord]"
  obtains a b where "vs = [VWord a, VWord b]" "concat wss = [a, b]"
proof -
  from assms obtain u v ws1 ws2 where r: "vs = [u, v]" "wss = [ws1, ws2]" "enc ShWord u (map Some ws1)" "enc ShWord v (map Some ws2)"
    by (auto simp: arg_words_def map_eq_Cons_conv length_Suc_conv list_all2_Cons1)
  from r(3,4) that r(1,2) show ?thesis by (cases u; cases v) auto
qed

lemma cell_calls: "calls_refine (builtin_funs sp) {} cell_hull cell_yul"
  unfolding calls_refine_def
proof (intro allI impI)
  fix f s vs wss w
  assume f: "builtin_funs sp f = Some s" and a: "arg_words (sig_args s) vs wss"
  have "(f, s) \<in> set (builtin_rows sp)" using f by (auto simp: builtin_funs_map_of dest: map_of_SomeD)
  then have row: "cell_row (f, s)" using cell_rows by (simp add: list_all_iff)
  show "case lower_callee f {} of
      Call_callee m \<Rightarrow> sim (returns_enc (erase (sig_ret s))) (cell_hull f vs w) (cell_yul m (concat wss) w)
    | Identity_callee \<Rightarrow> \<exists>v. vs = [v] \<and> cell_hull f vs w = Inr (v, w)"
  proof (cases "lower_callee f {}")
    case (Call_callee m)
    show ?thesis
    proof (cases "m = ''add'' \<or> m = ''sstore''")
      case True
      then have "map erase (sig_args s) = [ShWord, ShWord]" using row Call_callee by (auto simp: cell_row_def)
      with a obtain x y where "vs = [VWord x, VWord y]" "concat wss = [x, y]" by (rule two_words)
      with True row Call_callee show ?thesis
        by (auto simp: cell_row_def cell_hull_def cell_yul_def returns_enc_def)
    next
      case False
      with Call_callee show ?thesis by (simp add: cell_hull_def cell_yul_def)
    qed
  next
    case Identity_callee
    then have "length vs = 1" using row a by (simp add: cell_row_def arg_words_def)
    with Identity_callee show ?thesis by (auto simp: cell_hull_def length_Suc_conv)
  qed
qed

lemma cell_reverts: "reverts_refine (\<lambda>message w. w) cell_yul"
proof -
  have n: "number_word ''0'' = Some 0" using number_0 by simp
  then show ?thesis
    by (simp add: reverts_refine_def revert_stmts_def y_call_def y_defs cell_yul_def Let_def utf8_bytes_length)
qed

definition word_expr :: "expr_kind \<Rightarrow> expr" where
  "word_expr k = Expr sp0 (ty_word sp0) k"

definition twice :: hull_function where
  "twice = \<lparr>fn_span = sp0, fn_name = ''twice'',
     fn_args = [\<lparr>arg_span = sp0, arg_name = ''x'', arg_ty = ty_word sp0\<rparr>], fn_ret = ty_word sp0,
     fn_body = [Stmt sp0 (SReturn (word_expr (ECall ''primAddWord'' [word_expr (EVar ''x''), word_expr (EVar ''x'')])))]\<rparr>"

definition doubling :: code_block where
  "doubling = \<lparr>cb_span = sp0, cb_stmts =
     [Stmt sp0 (SLet ''y'' (ty_word sp0)),
      Stmt sp0 (SAssign (word_expr (EVar ''y'')) (word_expr (ECall ''twice'' [word_expr (EWord ''21'')]))),
      Stmt sp0 (SExpr (Expr sp0 (ty_unit sp0) (ECall ''sstore'' [word_expr (EWord ''0''), word_expr (EVar ''y'')])))],
     cb_functions = [twice]\<rparr>"

definition doubling_program :: program where
  "doubling_program = \<lparr>prog_span = sp0, entry_points = [], prog_functions = [],
     prog_objects = [Object sp0 ''Main'' doubling []]\<rparr>"

lemma doubling_facts:
  "check_program_with_db (\<lambda>_. []) doubling_program = []"
  "list_all plain_object (prog_objects doubling_program)"
  by code_simp+

lemma doubling_runs: "run_hull_code cell_hull (\<lambda>message w. w) 2 doubling 0 = Inr 42"
  by code_simp

section \<open>Properties\<close>

text \<open>C1. The compiler preserves the meaning of programs: a program the checker accepts, whose code
  is in the plain fragment, is translated, and every object of the result, nested ones
  included, runs like the Hull object it comes from: from every machine state and to every
  depth of calls, it ends in the same state, halts in the same state, or exhausts the same fuel,
  and it never gets stuck. It is enough that the Yul builtins implement the Hull builtins.\<close>

theorem accepted_program_refined:
  assumes "check_program_with_db db p = []" and "prog_functions p = []" and "list_all plain_object (prog_objects p)"
    and "prog_objects p \<noteq> []"
    and "calls_refine (builtin_funs (prog_span p)) {} HB CB" and "reverts_refine R CB"
  shows "\<exists>y. translate_hull_program db p = Inr y \<and> list_all2 (object_refined HB R CB) (prog_objects p) (yprog_objects y)"
proof -
  let ?env = "initial_env (Some db) (prog_span p)"
  have ok: "env_ok ?env" by (simp add: initial_env_def env_ok_def)
  have "quiet ?env (fold check_object (prog_objects p) ?env)"
    using assms(1,2) by (simp add: check_program_with_db_def check_program_inner_def quiet_def) (simp add: initial_env_def)
  with quiet_fold[where g = check_object, OF check_object_emits ok]
  have "list_all (\<lambda>ob. quiet ?env (check_object ob ?env)) (prog_objects p)" by blast
  from object_translates(2)[OF assms(5,6,3) this, of "new_translator db"] assms(4) show ?thesis
    by (auto simp: translate_hull_program_def translate_program_def)
qed

theorem accepted_program_refined_witness:
  "\<exists>y. translate_hull_program (\<lambda>_. []) doubling_program = Inr y
     \<and> (\<exists>code. map yobj_code (yprog_objects y) = [code] \<and> run_yul_code cell_yul 2 code 0 = Inr 42)"
proof -
  have "prog_functions doubling_program = []" "prog_objects doubling_program = [Object sp0 ''Main'' doubling []]"
    by (simp_all add: doubling_program_def)
  with accepted_program_refined[OF doubling_facts(1) _ doubling_facts(2) _ cell_calls cell_reverts]
  obtain y ob where "translate_hull_program (\<lambda>_. []) doubling_program = Inr y" "yprog_objects y = [ob]"
    "object_refined cell_hull (\<lambda>message w. w) cell_yul (Object sp0 ''Main'' doubling []) ob"
    by (auto simp: list_all2_Cons1)
  with doubling_runs show ?thesis by (auto elim!: object_refinedE simp: same_runs_def)
qed

text \<open>C2. A program without objects whose functions are in the plain fragment, so without inline assembly
  and with the other restrictions of \<open>plain_function\<close>, and whose only entry point takes no arguments and returns a value of one
  word, is compiled to one object that calls the entry point. If the entry point returns a value, the object stores the
  word that represents it and returns it; in every other case it stops in the way the entry point does.\<close>

theorem accepted_entry_refined:
  assumes "check_program_with_db db p = []" and "prog_objects p = []"
    and "list_all (plain_function (set (map fn_name (prog_functions p)))) (prog_functions p)"
    and "entry_points p = [fn_name f]" and "f \<in> set (prog_functions p)" and "fn_args f = []"
    and "shape_slots (erase (fn_ret f)) = 1"
    and "calls_refine (builtin_funs (prog_span p)) {} HB CB" and "reverts_refine R CB"
  shows "\<exists>code. translate_hull_program db p = Inr (single_object (YObject ''OutputDeploy'' \<lparr>code_stmts = []\<rparr>
        [InnerObject (YObject ''Output'' code [])]))
    \<and> (\<forall>d w. case hull_calls (prog_functions p) HB R d (fn_name f) [] w of
          Inl e \<Rightarrow> e \<noteq> Stuck \<and> run_yul_code CB d code w = Inl e
        | Inr (v, w') \<Rightarrow> \<exists>x. enc (erase (fn_ret f)) v [Some x] \<and> run_yul_code CB d code w = return_word CB x w')"
proof -
  let ?fs = "prog_functions p" and ?sp = "prog_span p" and ?users = "set (map fn_name (prog_functions p))"
  let ?F = "block_funs ?sp ?fs" and ?e = "fn_name f"
  have "quiet (initial_env (Some db) ?sp) (fold check_function ?fs (fold register_function ?fs (initial_env (Some db) ?sp)))"
    using assms(1,2) by (simp add: check_program_with_db_def check_program_inner_def quiet_def) (simp add: initial_env_def)
  from accepted_functions[OF this assms(3)] have dist: "distinct (map fn_name ?fs)"
    and ready: "list_all (function_ready ?F ?users) ?fs" by simp_all
  have F: "sigs_plain ?F" "identities_ok ?F ?users"
    by (rule block_funs_agree[OF _ refl]; use ready in \<open>auto simp: list_all_iff function_ready_def\<close>)+
  note start = calls_to_start[where fs = ?fs, OF refl assms(8,9)]
  from functions_translate[OF F start(2,1) ready,
      of "(new_translator db)\<lparr>tr_vars := [Map.empty], user_functions := ?users\<rparr>"]
  obtain out tr2 where t: "translate_functions ?fs ((new_translator db)\<lparr>tr_vars := [Map.empty], user_functions := ?users\<rparr>) = Inr (out, tr2)"
    and out: "list_all2 (translated ?users) ?fs out" by auto
  let ?code = "\<lparr>code_stmts = out @ entry_call ?e\<rparr>"
  have find: "find_function ?fs ?e = Some f" by (rule find_function_distinct[OF dist assms(5)])
  have "translate_hull_program db p = Inr (single_object (YObject ''OutputDeploy'' \<lparr>code_stmts = []\<rparr>
        [InnerObject (YObject ''Output'' ?code [])]))"
    using assms(2,4,6,7) find t size_of_ty_shape[of "fn_ret f"]
    by (simp add: translate_hull_program_def translate_program_def translate_code_parts_def find_function_def Let_def)
  moreover have "case hull_calls ?fs HB R d ?e [] w of
          Inl e \<Rightarrow> e \<noteq> Stuck \<and> run_yul_code CB d ?code w = Inl e
        | Inr (v, w') \<Rightarrow> \<exists>x. enc (erase (fn_ret f)) v [Some x] \<and> run_yul_code CB d ?code w = return_word CB x w'" for d w
  proof -
    let ?C = "yul_calls (out @ entry_call ?e) CB d"
    have nf: "list_all no_function (entry_call ?e)" by (simp add: entry_call_def main_result_return_block_def)
    have c: "calls_refine ?F ?users (hull_calls ?fs HB R d) ?C"
      using calls_at_depth[OF out nf refl dist ready F assms(8,9)] by blast
    have C: "?C m = CB m" if "take 4 m \<noteq> ''usr$''" for m by (rule yul_calls_other[OF find_other[OF out nf that]])
    have own: "?F ?e = Some (fun_sig_of f)" by (rule block_funs_own[OF dist assms(5)])
    have callee: "lower_callee ?e ?users = Call_callee (yul_fun_name ?e)" using assms(5) by (simp add: lower_callee_def)
    have "sim (returns_enc (erase (fn_ret f))) (hull_calls ?fs HB R d ?e [] w) (?C (yul_fun_name ?e) [] w)"
      using calls_refineD(1)[OF c own _ callee, of "[]" "[]" w] assms(6) by (simp add: arg_words_def fun_sig_of_def)
    then show ?thesis
    proof (cases rule: sim_cases)
      case (Stops e)
      then show ?thesis by (simp add: run_yul_code_def yseq_functions[OF out] entry_call_def y_call_def)
    next
      case (Returns vw ws)
      then obtain v w' xs where r: "vw = (v, w')" "ws = (xs, w')" "enc (erase (fn_ret f)) v (map Some xs)"
        by (cases vw; cases ws) (auto simp: returns_enc_def)
      have "length xs = 1" using enc_length[OF r(3)] assms(7) by simp
      then obtain x where x: "xs = [x]" by (auto simp: length_Suc_conv)
      have "run_yul_code CB d ?code w = return_word CB x w'"
        unfolding run_yul_code_def yul_code.simps yseq_functions[OF out]
        by (rule entry_call_exec) (use Returns(2) r(2) x C in simp_all)
      with Returns(1) r x show ?thesis by auto
    qed
  qed
  ultimately show ?thesis by blast
qed

definition entry_program :: program where
  "entry_program = \<lparr>prog_span = sp0, entry_points = [''main''],
     prog_functions = [twice,
       \<lparr>fn_span = sp0, fn_name = ''main'', fn_args = [], fn_ret = ty_word sp0,
        fn_body = [Stmt sp0 (SReturn (word_expr (ECall ''twice'' [word_expr (EWord ''21'')])))]\<rparr>],
     prog_objects = []\<rparr>"

theorem accepted_entry_refined_witness:
  "\<exists>code. translate_hull_program (\<lambda>_. []) entry_program = Inr (single_object (YObject ''OutputDeploy'' \<lparr>code_stmts = []\<rparr>
        [InnerObject (YObject ''Output'' code [])]))
     \<and> run_yul_code cell_yul 3 code 0 = return_word cell_yul 42 0"
proof -
  let ?main = "prog_functions entry_program ! 1"
  have f: "check_program_with_db (\<lambda>_. []) entry_program = []" "prog_objects entry_program = []"
    "list_all (plain_function (set (map fn_name (prog_functions entry_program)))) (prog_functions entry_program)"
    "entry_points entry_program = [fn_name ?main]" "fn_args ?main = []" "shape_slots (erase (fn_ret ?main)) = 1"
    and n: "fn_name ?main = ''main''" "erase (fn_ret ?main) = ShWord"
    by code_simp+
  have m: "?main \<in> set (prog_functions entry_program)" by (simp add: entry_program_def)
  have "hull_calls (prog_functions entry_program) cell_hull (\<lambda>message w. w) 3 ''main'' [] 0 = Inr (VWord 42, 0)"
    by code_simp
  moreover obtain code where "translate_hull_program (\<lambda>_. []) entry_program =
      Inr (single_object (YObject ''OutputDeploy'' \<lparr>code_stmts = []\<rparr> [InnerObject (YObject ''Output'' code [])]))"
    and c: "\<forall>d w. case hull_calls (prog_functions entry_program) cell_hull (\<lambda>message w. w) d (fn_name ?main) [] w of
        Inl e \<Rightarrow> e \<noteq> Stuck \<and> run_yul_code cell_yul d code w = Inl e
      | Inr (v, w') \<Rightarrow> \<exists>x. enc (erase (fn_ret ?main)) v [Some x] \<and> run_yul_code cell_yul d code w = return_word cell_yul x w'"
    using accepted_entry_refined[OF f(1-4) m f(5,6) cell_calls cell_reverts] by blast
  moreover note spec[OF spec[OF c, of 3], of 0]
  ultimately show ?thesis unfolding n by auto
qed

end
