(* ===== verification/Hull_Safety.thy ===== *)
theory Hull_Safety
  imports Accepted_Programs
begin

text \<open>
  Type safety of Hull, and what the terminator analysis guarantees. Execution of accepted code of the
  plain fragment never gets stuck, and every value has the shape of its type. A function whose body the
  analysis accepts returns, provided its matches are exhaustive: the analysis asks for a
  terminator in every alternative and does not look at the values that no alternative fits.
\<close>

section \<open>Expressions\<close>

text \<open>A run that does not get stuck and returns values with a property.\<close>

definition safe :: "('a \<Rightarrow> bool) \<Rightarrow> 'w stop + ('a \<times> 'w) \<Rightarrow> bool" where
  "safe P r \<longleftrightarrow> (case r of Inl e \<Rightarrow> e \<noteq> Stuck | Inr (v, w) \<Rightarrow> P v)"

lemma safe_simps [simp]: "safe P (Inl e) \<longleftrightarrow> e \<noteq> Stuck" "safe P (Inr (v, w)) \<longleftrightarrow> P v"
  by (simp_all add: safe_def)

lemma safe_bind:
  assumes "safe P r" and "\<And>v w. r = Inr (v, w) \<Longrightarrow> P v \<Longrightarrow> safe Q (f (v, w))"
  shows "safe Q (res_bind r f)"
  using assms by (cases r) auto

lemma safe_mono: "safe P r \<Longrightarrow> (\<And>v. P v \<Longrightarrow> Q v) \<Longrightarrow> safe Q r"
  by (cases r) auto

definition calls_fit :: "(name \<rightharpoonup> fun_sig) \<Rightarrow> 'w hcalls \<Rightarrow> bool" where
  "calls_fit F H \<longleftrightarrow> (\<forall>f s vs w. F f = Some s \<longrightarrow> list_all2 (\<lambda>t. fits (erase t)) (sig_args s) vs \<longrightarrow>
     safe (fits (erase (sig_ret s))) (H f vs w))"

definition vals_fit :: "(name \<Rightarrow> ty option) \<Rightarrow> (name \<Rightarrow> hval option) \<Rightarrow> bool" where
  "vals_fit G \<rho> \<longleftrightarrow> (\<forall>x t. G x = Some t \<longrightarrow> ref_free t \<and> (\<exists>v. \<rho> x = Some v \<and> fits (erase t) v))"

lemma fits_shape:
  "fits (ShProduct a b) v \<longleftrightarrow> (\<exists>x y. v = VPair x y \<and> fits a x \<and> fits b y)"
  "fits (ShSum a b) v \<longleftrightarrow> (\<exists>x. v = VInl x \<and> fits a x) \<or> (\<exists>x. v = VInr x \<and> fits b x)"
  "fits ShBool v \<longleftrightarrow> (\<exists>b. v = VBool b)" "fits ShWord v \<longleftrightarrow> (\<exists>x. v = VWord x)"
  by (cases v; simp)+

lemma bool_like_truth: "is_bool_like t \<Longrightarrow> fits (erase t) v \<Longrightarrow> \<exists>b. truth v = Some b"
  by (auto simp: is_bool_like_erase fits_shape ex_bool_eq)

lemma expression_safe:
  assumes F: "sigs_plain F" and H: "calls_fit F H" and G: "vals_fit G \<rho>"
  shows "wt_infer F G e t \<Longrightarrow> expr_plain e \<Longrightarrow> ref_free t \<and> (\<forall>w. safe (fits (erase t)) (heval H \<rho> e w))"
    and "wt_expr F G e t \<Longrightarrow> expr_plain e \<Longrightarrow> ref_free t \<and> (\<forall>w. safe (fits (erase t)) (heval H \<rho> e w))"
    and "wt_args F G ts es \<Longrightarrow> list_all expr_plain es \<Longrightarrow> list_all ref_free ts \<Longrightarrow>
      \<forall>w. safe (list_all2 (\<lambda>t. fits (erase t)) ts) (hargs H \<rho> es w)"
proof (induction rule: wt_infer_wt_expr_wt_args.inducts)
  case (var x t sp a)
  with G show ?case by (fastforce simp: vals_fit_def)
next
  case (pair l lt r rt sp a)
  then show ?case by (auto intro!: safe_bind)
next
  case (first e t lt rt sp a)
  then have "ref_free lt" using ref_free_parts(1)[of t lt rt] by simp
  with first show ?case by (auto simp: erase_of_strip_kind(1) fits_shape intro!: safe_bind)
next
  case (second e t lt rt sp a)
  then have "ref_free rt" using ref_free_parts(1)[of t lt rt] by simp
  with second show ?case by (auto simp: erase_of_strip_kind(1) fits_shape intro!: safe_bind)
next
  case (inl target lt rt v t sp a)
  then have "erase t = erase lt" using ref_free_parts(2)[of target lt rt] by (auto intro!: type_eq_erases)
  with inl show ?case by (auto simp: erase_of_strip_kind(2) intro!: safe_bind)
next
  case (inr target lt rt v t sp a)
  then have "erase t = erase rt" using ref_free_parts(2)[of target lt rt] by (auto intro!: type_eq_erases)
  with inr show ?case by (auto simp: erase_of_strip_kind(2) intro!: safe_bind)
next
  case (ink target k p v t sp a)
  then have "erase t = erase p" using nth_sum_payload_ref_free[of target k p] by (auto intro!: type_eq_erases)
  with ink nth_sum_payload_summand[of target k p] have "fits (erase t) u \<Longrightarrow>
      \<exists>u'. inject (erase target) k u = Some u' \<and> fits (erase target) u'" for u
    using enc_inject[of "erase target" k "erase p" u] by simp
  with ink show ?case by (fastforce intro!: safe_bind)
next
  case (call f s es sp a)
  then have r: "list_all ref_free (sig_args s)" "ref_free (sig_ret s)" using F by (auto simp: sigs_plain_def list_all_iff)
  with call H show ?case by (auto simp: calls_fit_def intro!: safe_bind)
next
  case (cond c tc e1 t1 e2 t2 target sp a)
  then have "erase t1 = erase target" "erase t2 = erase target" by (auto intro!: type_eq_erases)
  with cond bool_like_truth[of tc] show ?case by (fastforce intro!: safe_bind)
next
  case (args_cons e t' t ts es)
  then have "erase t' = erase t" by (auto intro!: type_eq_erases)
  with args_cons show ?case by (auto intro!: safe_bind)
next
  case (annotated e t)
  then show ?case by blast
qed auto

section \<open>Environments\<close>

text \<open>The variables of an environment with their types; a variable without a type is never read.\<close>

type_synonym tenv = "(name \<times> ty option) list"

definition env_typed :: "tenv \<Rightarrow> henv \<Rightarrow> bool" where
  "env_typed \<Delta> \<rho> \<longleftrightarrow> list_all2 (\<lambda>(x, ot) (y, v). x = y \<and> (\<forall>t. ot = Some t \<longrightarrow> ref_free t \<and> fits (erase t) v)) \<Delta> \<rho>"

definition view :: "tenv \<Rightarrow> name \<Rightarrow> ty option" where
  "view \<Delta> x = (case map_of \<Delta> x of Some ot \<Rightarrow> ot | None \<Rightarrow> None)"

lemma view_simps [simp]: "view ((x, ot) # \<Delta>) = (view \<Delta>)(x := ot)"
  by (auto simp: view_def fun_eq_iff)

lemma env_typed_simps [simp]:
  "env_typed ((x, ot) # \<Delta>) ((y, v) # \<rho>) \<longleftrightarrow> x = y \<and> (\<forall>t. ot = Some t \<longrightarrow> ref_free t \<and> fits (erase t) v) \<and> env_typed \<Delta> \<rho>"
  "env_typed [] \<rho> \<longleftrightarrow> \<rho> = []" "env_typed \<Delta> [] \<longleftrightarrow> \<Delta> = []"
  by (auto simp: env_typed_def)

lemma env_typed_length: "env_typed \<Delta> \<rho> \<Longrightarrow> length \<rho> = length \<Delta>"
  by (auto simp: env_typed_def dest: list_all2_lengthD)

lemma env_typed_vals: "env_typed \<Delta> \<rho> \<Longrightarrow> vals_fit (view \<Delta>) (map_of \<rho>)"
proof (induction \<Delta> arbitrary: \<rho>)
  case (Cons d \<Delta>)
  then show ?case by (cases d; cases \<rho>) (auto simp: vals_fit_def)
qed (simp add: vals_fit_def view_def)

lemma env_typed_outer: "env_typed (X @ \<Delta>) \<rho> \<Longrightarrow> env_typed \<Delta> (outer (length \<Delta>) \<rho>)"
proof (induction X arbitrary: \<rho>)
  case Nil
  then show ?case using env_typed_length[OF Nil[simplified]] outer_same[of \<rho>] by simp
next
  case (Cons d X)
  from Cons.prems obtain p \<rho>' where \<rho>: "\<rho> = p # \<rho>'" "env_typed (X @ \<Delta>) \<rho>'" by (cases d; cases \<rho>) auto
  with env_typed_length[OF \<rho>(2)] Cons.IH[OF \<rho>(2)] show ?case by (simp add: outer_def Suc_diff_le)
qed

lemma set_var_typed:
  "env_typed \<Delta> \<rho> \<Longrightarrow> view \<Delta> x = Some t \<Longrightarrow> fits (erase t) v \<Longrightarrow> \<exists>\<rho>'. set_var x v \<rho> = Some \<rho>' \<and> env_typed \<Delta> \<rho>'"
proof (induction \<Delta> arbitrary: \<rho>)
  case (Cons d \<Delta>)
  obtain y ot where d: "d = (y, ot)" by (cases d)
  with Cons.prems obtain u \<rho>1 where \<rho>: "\<rho> = (y, u) # \<rho>1" "env_typed \<Delta> \<rho>1" by (cases \<rho>) auto
  show ?case
  proof (cases "x = y")
    case True
    with Cons.prems d \<rho> show ?thesis by auto
  next
    case False
    with Cons.IH[OF \<rho>(2)] Cons.prems d \<rho> show ?thesis by auto
  qed
qed (simp add: view_def)

section \<open>Matches\<close>

definition has_con :: "con \<Rightarrow> alt list \<Rightarrow> bool" where
  "has_con c alts \<longleftrightarrow> list_ex (\<lambda>a. case a of Alt sp p b body \<Rightarrow> pat_kind p = PCon c) alts"

text \<open>Some alternative fits whatever the value of the shape is.\<close>

definition covers :: "shape \<Rightarrow> alt list \<Rightarrow> bool" where
  "covers s alts \<longleftrightarrow> list_ex is_default alts
     \<or> (case s of ShSum a b \<Rightarrow> has_con Inl_con alts \<and> has_con Inr_con alts | _ \<Rightarrow> False)"

lemma find_default: "list_ex is_default alts \<Longrightarrow> find_alt v alts \<noteq> None"
proof (induction alts)
  case (Cons a alts)
  then show ?case by (cases a rule: is_default.cases) auto
qed simp

lemma find_con:
  "has_con Inl_con alts \<Longrightarrow> find_alt (VInl v) alts \<noteq> None" "has_con Inr_con alts \<Longrightarrow> find_alt (VInr v) alts \<noteq> None"
proof (induction alts)
  case (Cons a alts)
  { case 1 with Cons.IH(1) show ?case by (cases a) (auto simp: has_con_def) }
  { case 2 with Cons.IH(2) show ?case by (cases a) (auto simp: has_con_def) }
qed (simp_all add: has_con_def)

lemma covers_find: "covers s alts \<Longrightarrow> fits s v \<Longrightarrow> find_alt v alts \<noteq> None"
  using find_default[of alts v] find_con by (auto simp: covers_def fits_shape split: shape.splits)

text \<open>The matches at the end of a body are exhaustive.\<close>

fun covered_body :: "stmt list \<Rightarrow> bool" and covered_stmt :: "stmt \<Rightarrow> bool" and covered_alts :: "alt list \<Rightarrow> bool" where
  "covered_body [] = True"
| "covered_body [s] = covered_stmt s"
| "covered_body (s # s' # ss) = covered_body (s' # ss)"
| "covered_stmt (Stmt sp (SBlock body)) = covered_body body"
| "covered_stmt (Stmt sp (SMatch target e alts)) = (covers (erase target) alts \<and> covered_alts alts)"
| "covered_stmt _ = True"
| "covered_alts [] = True"
| "covered_alts (Alt sp p b body # alts) = (covered_body body \<and> covered_alts alts)"

definition ends :: "hir_db option \<Rightarrow> stmt list \<Rightarrow> bool" where
  "ends db ss \<longleftrightarrow> body_terminates db ss \<and> covered_body ss"

lemma ends_simps [simp]:
  "\<not> ends db []"
  "ss \<noteq> [] \<Longrightarrow> ends db (s # ss) = ends db ss"
  "ends db [Stmt sp (SBlock body)] = ends db body"
  "\<not> ends db [Stmt sp (SLet x t)]" "\<not> ends db [Stmt sp (SAssign l r)]" "\<not> ends db [Stmt sp (SExpr e)]"
  "\<not> ends db [Stmt sp (SFor i c p b)]" "\<not> ends db [Stmt sp SBreak]" "\<not> ends db [Stmt sp SContinue]"
  "\<not> ends db [Stmt sp (SComment m)]"
  by (cases ss; simp add: ends_def)+

lemma ends_alt: "ends db [Stmt sp (SMatch target e alts)] \<Longrightarrow> find_alt v alts = Some (\<rho>1, body) \<Longrightarrow> ends db body"
proof -
  have "alts_terminate db alts \<Longrightarrow> covered_alts alts \<Longrightarrow> find_alt v alts = Some (\<rho>1, body) \<Longrightarrow> ends db body"
  proof (induction alts)
    case (Cons a alts)
    then show ?case by (cases a) (auto simp: ends_def split: if_splits)
  qed simp
  then show "ends db [Stmt sp (SMatch target e alts)] \<Longrightarrow> find_alt v alts = Some (\<rho>1, body) \<Longrightarrow> ends db body"
    by (simp add: ends_def)
qed

lemma alt_typed:
  assumes "ref_free target" and "fits (erase target) v" and "env_typed \<Delta> \<rho>"
  shows "find_alt v alts = Some (\<rho>1, body) \<Longrightarrow> wt_alts F r (view \<Delta>) target alts \<Longrightarrow> plain_alts users A X alts \<Longrightarrow>
    \<exists>B A'. env_typed (B @ \<Delta>) (\<rho>1 @ \<rho>) \<and> wt_stmts F r (view (B @ \<Delta>)) body \<and> plain_stmts users A' body"
proof (induction alts)
  case (Cons a alts)
  obtain sp psp k b body' where a: "a = Alt sp (Pat psp k) b body'" by (metis alt.exhaust pat.exhaust)
  show ?case
  proof (cases "pat_fits k v")
    case False
    with Cons a have "find_alt v alts = Some (\<rho>1, body)" "wt_alts F r (view \<Delta>) target alts" "plain_alts users A X alts"
      by (cases k; auto)+
    then show ?thesis by (rule Cons.IH)
  next
    case True
    with Cons.prems(1) a have eq: "\<rho>1 = pat_binds k b v" "body' = body" by simp_all
    obtain t where t: "payload_type target (Pat psp k) = Some t" "wt_stmts F r ((view \<Delta>)(b \<mapsto> t)) body"
      using Cons.prems(2) a eq by auto
    show ?thesis
    proof (cases k)
      case (PVar x)
      with Cons.prems(3) a eq have p: "x \<notin> names_of body" "b \<notin> names_of body" "plain_stmts users (A - {x, b}) body" by auto
      have "wt_stmts F r (view ([(b, None), (x, None)] @ \<Delta>)) body"
        by (rule wt_stmts_cong(1)[OF t(2)]) (use p in auto)
      moreover have "env_typed ([(b, None), (x, None)] @ \<Delta>) (\<rho>1 @ \<rho>)" using assms(3) eq PVar by simp
      ultimately show ?thesis using p(3) by blast
    next
      case (PCon c)
      with Cons.prems(3) a eq have p: "c \<noteq> InK_con i" "plain_stmts users (A - X - {b}) body" for i by (auto split: con.splits)
      obtain l r' where k': "ty_kind (strip_named target) = TySum l r'" "c = Inl_con \<and> t = l \<or> c = Inr_con \<and> t = r'"
        using payload_type_con t(1) p(1) PCon by metis
      have "ref_free l" "ref_free r'" using ref_free_parts(2)[OF k'(1)] assms(1) by simp_all
      then have "env_typed ([(b, Some t)] @ \<Delta>) (\<rho>1 @ \<rho>)"
        using assms(2,3) k' True eq PCon by (auto simp: erase_of_strip_kind(2)[OF k'(1)] fits_shape)
      moreover have "wt_stmts F r (view ([(b, Some t)] @ \<Delta>)) body" using t(2) by simp
      ultimately show ?thesis using p(2) by blast
    next
      case PWildcard
      with Cons.prems(3) a eq have p: "b \<notin> names_of body" "plain_stmts users (A - {b}) body" by auto
      have "wt_stmts F r (view ([(b, None)] @ \<Delta>)) body"
        by (rule wt_stmts_cong(1)[OF t(2)]) (use p in auto)
      moreover have "env_typed ([(b, None)] @ \<Delta>) (\<rho>1 @ \<rho>)" using assms(3) eq PWildcard by simp
      ultimately show ?thesis using p(2) by blast
    next
      case (PIntLit n)
      with Cons.prems(3) a eq have p: "b \<notin> names_of body" "plain_stmts users (A - {b}) body" by auto
      have "wt_stmts F r (view ([(b, None)] @ \<Delta>)) body"
        by (rule wt_stmts_cong(1)[OF t(2)]) (use p in auto)
      moreover have "env_typed ([(b, None)] @ \<Delta>) (\<rho>1 @ \<rho>)" using assms(3) eq PIntLit by simp
      ultimately show ?thesis using p(2) by blast
    qed
  qed
qed simp

section \<open>Statements\<close>

definition sound :: "ty option \<Rightarrow> bool \<Rightarrow> bool \<Rightarrow> tenv \<Rightarrow> (name \<Rightarrow> ty option) \<Rightarrow> 'w hres \<Rightarrow> bool" where
  "sound rt j q \<Delta> G r \<longleftrightarrow>
     (case r of
        Inl e \<Rightarrow> e \<noteq> Stuck
      | Inr (m, \<rho>, w) \<Rightarrow> (\<exists>X. env_typed (X @ \<Delta>) \<rho> \<and> (m = HNormal \<longrightarrow> view (X @ \<Delta>) = G))
          \<and> (j \<longrightarrow> completes m) \<and> (q \<longrightarrow> m \<noteq> HNormal)
          \<and> (\<forall>v. m = HReturn v \<longrightarrow> (\<exists>t. rt = Some t \<and> fits (erase t) v)))"

lemma sound_Inl [simp]: "sound rt j q \<Delta> G (Inl e) \<longleftrightarrow> e \<noteq> Stuck"
  by (simp add: sound_def)

lemma soundI:
  "env_typed (X @ \<Delta>) \<rho> \<Longrightarrow> (m = HNormal \<Longrightarrow> view (X @ \<Delta>) = G) \<Longrightarrow> (j \<Longrightarrow> completes m) \<Longrightarrow> (q \<Longrightarrow> m \<noteq> HNormal) \<Longrightarrow>
   (\<And>v. m = HReturn v \<Longrightarrow> \<exists>t. rt = Some t \<and> fits (erase t) v) \<Longrightarrow> sound rt j q \<Delta> G (Inr (m, \<rho>, w))"
  by (auto simp: sound_def)

lemmas soundI0 = soundI[where X = "[]", simplified]

lemma sound_bind:
  assumes "sound rt j q \<Delta> G r"
    and "\<And>m \<rho> w X. r = Inr (m, \<rho>, w) \<Longrightarrow> env_typed (X @ \<Delta>) \<rho> \<Longrightarrow> (m = HNormal \<Longrightarrow> view (X @ \<Delta>) = G) \<Longrightarrow>
      (j \<Longrightarrow> completes m) \<Longrightarrow> (q \<Longrightarrow> m \<noteq> HNormal) \<Longrightarrow>
      (\<And>v. m = HReturn v \<Longrightarrow> \<exists>t. rt = Some t \<and> fits (erase t) v) \<Longrightarrow> sound rt' j' q' \<Delta>' G' (f (m, \<rho>, w))"
  shows "sound rt' j' q' \<Delta>' G' (res_bind r f)"
  using assms by (cases r) (auto simp: sound_def)

lemma sound_eval:
  assumes "safe P r" and "\<And>v w. r = Inr (v, w) \<Longrightarrow> P v \<Longrightarrow> sound rt j q \<Delta> G (f (v, w))"
  shows "sound rt j q \<Delta> G (res_bind r f)"
  using assms by (cases r) auto

lemma sound_block:
  assumes "sound rt j q \<Delta> G r"
  shows "sound rt j q \<Delta> (view \<Delta>) (res_bind r (\<lambda>(m, \<rho>, w). Inr (m, outer (length \<Delta>) \<rho>, w)))"
  by (rule sound_bind[OF assms]) (auto intro!: soundI0 env_typed_outer)

lemma fits_default: "first_order s \<Longrightarrow> fits s (default_value s)"
  by (induction s) auto

lemma sound_extend:
  "sound rt j q (X @ \<Delta>) G r \<Longrightarrow> sound rt j q \<Delta> G r"
proof (cases r)
  case (Inr p)
  obtain m \<rho> w where p: "p = (m, \<rho>, w)" by (cases p)
  assume a: "sound rt j q (X @ \<Delta>) G r"
  with Inr p obtain Y where "env_typed ((Y @ X) @ \<Delta>) \<rho>" "m = HNormal \<Longrightarrow> view ((Y @ X) @ \<Delta>) = G"
    by (auto simp: sound_def)
  with a Inr p show ?thesis by (auto simp: sound_def simp del: append_assoc)
qed simp

lemma sound_weaken:
  "sound rt j q \<Delta> G r \<Longrightarrow> (j' \<Longrightarrow> j) \<Longrightarrow> (q' \<Longrightarrow> q) \<Longrightarrow> sound rt j' q' \<Delta> G r"
  unfolding sound_def by (cases r) auto

lemma not_let_after: "list_all not_let ss \<Longrightarrow> fold after ss G = G"
proof (induction ss arbitrary: G)
  case (Cons s ss)
  then show ?case by (cases s rule: not_let.cases) auto
qed simp

text \<open>After the body of a loop: the third clause, then the condition, then the next iteration.\<close>

lemma sound_rest:
  assumes e: "\<And>\<rho> w. env_typed \<Delta> \<rho> \<Longrightarrow> safe (\<lambda>v. \<exists>b. truth v = Some b) (heval H (map_of \<rho>) cond w)"
    and p: "sound rt j False \<Delta> (view \<Delta>) (hblock H R n (length \<Delta>) post \<rho> w)"
    and l: "\<And>\<rho>2 w2 v w3 b. hblock H R n (length \<Delta>) post \<rho> w = Inr (HNormal, \<rho>2, w2) \<Longrightarrow>
      heval H (map_of \<rho>2) cond w2 = Inr (v, w3) \<Longrightarrow> truth v = Some b \<Longrightarrow> env_typed \<Delta> \<rho>2 \<Longrightarrow>
      sound rt j False \<Delta> (view \<Delta>) (hloop H R n cond post body b \<rho>2 w3)"
    and blk: "\<And>m \<rho>2 w2. hblock H R n (length \<Delta>) post \<rho> w = Inr (m, \<rho>2, w2) \<Longrightarrow> env_typed \<Delta> \<rho>2"
  shows "sound rt j False \<Delta> (view \<Delta>) (res_bind (hblock H R n (length \<Delta>) post \<rho> w) (\<lambda>(m, \<rho>, w).
      if m = HNormal
      then res_bind (heval H (map_of \<rho>) cond w) (\<lambda>(v, w).
           case truth v of Some b \<Rightarrow> hloop H R n cond post body b \<rho> w | None \<Rightarrow> Inl Stuck)
      else Inr (m, \<rho>, w)))"
proof (rule sound_bind[OF p], simp only: prod.case)
  fix m \<rho>2 w2 X
  assume r: "hblock H R n (length \<Delta>) post \<rho> w = Inr (m, \<rho>2, w2)"
    and j: "j \<Longrightarrow> completes m" and ret: "\<And>v. m = HReturn v \<Longrightarrow> \<exists>t. rt = Some t \<and> fits (erase t) v"
  have typed: "env_typed \<Delta> \<rho>2" by (rule blk[OF r])
  show "sound rt j False \<Delta> (view \<Delta>) (if m = HNormal
      then res_bind (heval H (map_of \<rho>2) cond w2) (\<lambda>(v, w).
           case truth v of Some b \<Rightarrow> hloop H R n cond post body b \<rho>2 w | None \<Rightarrow> Inl Stuck)
      else Inr (m, \<rho>2, w2))"
  proof (cases "m = HNormal")
    case True
    have "sound rt j False \<Delta> (view \<Delta>) (res_bind (heval H (map_of \<rho>2) cond w2) (\<lambda>(v, w).
           case truth v of Some b \<Rightarrow> hloop H R n cond post body b \<rho>2 w | None \<Rightarrow> Inl Stuck))"
      by (rule sound_eval[OF e[OF typed]]) (use l[OF r[unfolded True]] typed in auto)
    with True show ?thesis by simp
  next
    case False
    with typed j ret show ?thesis by (auto intro: soundI0)
  qed
qed

inductive_cases wt_varE: "wt_infer F G (Expr sp a (EVar x)) t"

lemma statements_sound:
  fixes H :: "'w hcalls"
  assumes F: "sigs_plain F" and H: "calls_fit F H" and rt: "\<And>t. rt = Some t \<Longrightarrow> ref_free t"
  shows "wt_stmts F rt (view \<Delta>) ss \<Longrightarrow> plain_stmts users A ss \<Longrightarrow> env_typed \<Delta> \<rho> \<Longrightarrow>
      sound rt (list_all jump_free ss) (ends db ss) \<Delta> (fold after ss (view \<Delta>)) (hstmts H R n ss \<rho> w)"
    and "wt_stmts F rt (view (X @ \<Delta>)) ss \<Longrightarrow> plain_stmts users A ss \<Longrightarrow> env_typed (X @ \<Delta>) \<rho> \<Longrightarrow> k = length \<Delta> \<Longrightarrow>
      sound rt (list_all jump_free ss) (ends db ss) \<Delta> (view \<Delta>) (hblock H R n k ss \<rho> w)
      \<and> (\<forall>m \<rho>' w'. hblock H R n k ss \<rho> w = Inr (m, \<rho>', w') \<longrightarrow> env_typed \<Delta> \<rho>')"
    and "wt_stmt F rt (view \<Delta>) s \<Longrightarrow> plain_stmt users A s \<Longrightarrow> env_typed \<Delta> \<rho> \<Longrightarrow>
      sound rt (jump_free s) (ends db [s]) \<Delta> (after s (view \<Delta>)) (hstmt H R n s \<rho> w)"
    and "wt_stmts F rt (view \<Delta>) post \<Longrightarrow> wt_stmts F rt (view \<Delta>) body \<Longrightarrow> plain_stmts users A post \<Longrightarrow> plain_stmts users A body \<Longrightarrow>
      list_all not_let post \<Longrightarrow> wt_expr F (view \<Delta>) cond t \<Longrightarrow> is_bool_like t \<Longrightarrow> expr_plain cond \<Longrightarrow> env_typed \<Delta> \<rho> \<Longrightarrow>
      sound rt (list_all jump_free post) False \<Delta> (view \<Delta>) (hloop H R n cond post body b \<rho> w)"
  using H
proof (induction H R n ss \<rho> w and H R n k ss \<rho> w and H R n s \<rho> w and H R n cond post body b \<rho> w
    arbitrary: A \<Delta> and A \<Delta> X and A \<Delta> and A \<Delta> t rule: hstmts_hblock_hstmt_hloop.induct)
  case (1 H R n \<rho> w)
  then show ?case by (auto intro: soundI0)
next
  case (2 H R n s ss \<rho> w)
  have "sound rt (jump_free s) (ends db [s]) \<Delta> (after s (view \<Delta>)) (hstmt H R n s \<rho> w)"
    by (rule 2(1)[of \<Delta> A]) (use 2(3-) in auto)
  then show ?case unfolding hstmts.simps
  proof (rule sound_bind, simp only: prod.case)
    fix m \<rho>' w' X
    assume r: "hstmt H R n s \<rho> w = Inr (m, \<rho>', w')" "env_typed (X @ \<Delta>) \<rho>'"
      and v: "m = HNormal \<Longrightarrow> view (X @ \<Delta>) = after s (view \<Delta>)" and j: "jump_free s \<Longrightarrow> completes m"
      and q: "ends db [s] \<Longrightarrow> m \<noteq> HNormal" and ret: "\<And>v. m = HReturn v \<Longrightarrow> \<exists>t. rt = Some t \<and> fits (erase t) v"
    show "sound rt (list_all jump_free (s # ss)) (ends db (s # ss)) \<Delta> (fold after (s # ss) (view \<Delta>))
        (if m = HNormal then hstmts H R n ss \<rho>' w' else Inr (m, \<rho>', w'))"
    proof (cases "m = HNormal")
      case True
      have "sound rt (list_all jump_free ss) (ends db ss) (X @ \<Delta>) (fold after ss (view (X @ \<Delta>))) (hstmts H R n ss \<rho>' w')"
        by (rule 2(2)[OF r(1) refl refl True, of "X @ \<Delta>" "own s A"]) (use 2(3-) r(2) v[OF True] in auto)
      then have "sound rt (list_all jump_free (s # ss)) (ends db (s # ss)) (X @ \<Delta>) (fold after ss (view (X @ \<Delta>))) (hstmts H R n ss \<rho>' w')"
        by (rule sound_weaken) (use q True in \<open>auto, cases "ss = []", auto\<close>)
      from sound_extend[OF this] v[OF True] True show ?thesis by simp
    next
      case False
      with r(2) j ret show ?thesis by (auto intro!: soundI)
    qed
  qed
next
  case (3 H R n k ss \<rho> w)
  have "sound rt (list_all jump_free ss) (ends db ss) (X @ \<Delta>) (fold after ss (view (X @ \<Delta>))) (hstmts H R n ss \<rho> w)"
    by (rule 3(1)) (use 3(2-) in auto)
  then have s: "sound rt (list_all jump_free ss) (ends db ss) \<Delta> (fold after ss (view (X @ \<Delta>))) (hstmts H R n ss \<rho> w)"
    by (rule sound_extend)
  have "env_typed \<Delta> \<rho>'" if "hblock H R n k ss \<rho> w = Inr (m, \<rho>', w')" for m \<rho>' w'
    using that s 3(5) by (cases "hstmts H R n ss \<rho> w") (auto simp: sound_def intro: env_typed_outer)
  with sound_block[OF s] 3(5) show ?case by simp
next
  case (4 H R n sp x t \<rho> w)
  then show ?case by (auto intro!: soundI[where X = "[(x, Some t)]"] fits_default)
next
  case (5 H R n sp spx tx x rhs \<rho> w)
  note vals = env_typed_vals[OF 5(3)]
  from 5(1,2) obtain t u where t: "wt_expr F (view \<Delta>) (Expr spx tx (EVar x)) t" "wt_expr F (view \<Delta>) rhs u" "type_eq t u"
    and p: "expr_plain (Expr spx tx (EVar x))" "expr_plain rhs" by auto
  from t(1) have x: "view \<Delta> x = Some t" by (auto elim!: wt_exprE wt_varE)
  have rf: "ref_free t" using expression_safe(2)[OF F 5(4) vals t(1) p(1)] by blast
  have u: "ref_free u" "safe (fits (erase u)) (heval H (map_of \<rho>) rhs w)"
    using expression_safe(2)[OF F 5(4) vals t(2) p(2)] by auto
  have "erase u = erase t" by (rule type_eq_erases[OF t(3) rf u(1)])
  with set_var_typed[OF 5(3) x] have set: "fits (erase u) v \<Longrightarrow> \<exists>\<rho>'. set_var x v \<rho> = Some \<rho>' \<and> env_typed \<Delta> \<rho>'" for v
    by simp
  show ?case unfolding hstmt.simps
    by (rule sound_eval[OF u(2)]) (use set in \<open>fastforce intro!: soundI0\<close>)
next
  case (7 H R n sp e \<rho> w)
  then obtain t where "wt_expr F (view \<Delta>) e t" "expr_plain e" by auto
  from expression_safe(2)[OF F 7(4) env_typed_vals[OF 7(3)] this] have "safe (fits (erase t)) (heval H (map_of \<rho>) e w)" by blast
  then show ?case unfolding hstmt.simps by (rule sound_eval) (use 7(3) in \<open>auto intro!: soundI0\<close>)
next
  case (8 H R n sp e \<rho> w)
  then obtain t u where t: "rt = Some t" "wt_expr F (view \<Delta>) e u" "type_eq t u" "expr_plain e" by auto
  from expression_safe(2)[OF F 8(4) env_typed_vals[OF 8(3)] t(2,4)] have u: "ref_free u" "safe (fits (erase u)) (heval H (map_of \<rho>) e w)"
    by auto
  have "erase u = erase t" by (rule type_eq_erases[OF t(3) rt[OF t(1)] u(1)])
  with t(1) 8(3) show ?case unfolding hstmt.simps by (intro sound_eval[OF u(2)]) (auto intro!: soundI0)
next
  case (9 H R n sp ss \<rho> w)
  have "sound rt (list_all jump_free ss) (ends db ss) \<Delta> (view \<Delta>) (hblock H R n (length \<rho>) ss \<rho> w)"
    using 9(1)[where X = "[]" and \<Delta> = \<Delta>] 9(2-) env_typed_length[OF 9(4)] by (auto simp del: hblock.simps)
  then show ?case by (simp del: hblock.simps)
next
  case (10 H R n sp init cond post body \<rho> w)
  let ?G = "fold after init (view \<Delta>)"
  from 10(3,4) obtain t where t: "wt_expr F ?G cond t" "is_bool_like t"
    and p: "expr_plain cond" "list_all not_let post" by auto
  have init: "sound rt (list_all jump_free init) (ends db init) \<Delta> ?G (hstmts H R n init \<rho> w)"
    by (rule 10(1)) (use 10(3-) in auto)
  show ?case unfolding hstmt.simps
  proof (rule sound_bind[OF init], simp only: prod.case)
    fix m \<rho>1 w1 X
    assume r: "hstmts H R n init \<rho> w = Inr (m, \<rho>1, w1)" "env_typed (X @ \<Delta>) \<rho>1"
      and v: "m = HNormal \<Longrightarrow> view (X @ \<Delta>) = ?G" and j: "list_all jump_free init \<Longrightarrow> completes m"
      and ret: "\<And>v. m = HReturn v \<Longrightarrow> \<exists>t. rt = Some t \<and> fits (erase t) v"
    note len = env_typed_length[OF 10(5)]
    show "sound rt (jump_free (Stmt sp (SFor init cond post body))) (ends db [Stmt sp (SFor init cond post body)]) \<Delta>
        (after (Stmt sp (SFor init cond post body)) (view \<Delta>))
        (if m = HNormal then res_bind (heval H (map_of \<rho>1) cond w1) (\<lambda>(v, w).
           case truth v of
             Some b \<Rightarrow> res_bind (hloop H R n cond post body b \<rho>1 w) (\<lambda>(m, \<rho>1, w). Inr (m, outer (length \<rho>) \<rho>1, w))
           | None \<Rightarrow> Inl Stuck)
         else Inr (m, outer (length \<rho>) \<rho>1, w1))"
    proof (cases "m = HNormal")
      case True
      have t': "wt_expr F (view (X @ \<Delta>)) cond t" using t(1) v[OF True] by simp
      have safe: "safe (fits (erase t)) (heval H (map_of \<rho>1) cond w1)"
        using expression_safe(2)[OF F 10(6) env_typed_vals[OF r(2)] t' p(1)] by blast
      have loop: "sound rt (list_all jump_free post) False \<Delta> (view \<Delta>) (res_bind (hloop H R n cond post body b \<rho>1 w2)
          (\<lambda>(m, \<rho>1, w). Inr (m, outer (length \<rho>) \<rho>1, w)))"
        if e: "heval H (map_of \<rho>1) cond w1 = Inr (v, w2)" "truth v = Some b" for v w2 b
      proof -
        have "sound rt (list_all jump_free post) False (X @ \<Delta>) (view (X @ \<Delta>)) (hloop H R n cond post body b \<rho>1 w2)"
          by (rule 10(2)[OF r(1) refl refl True e(1) refl e(2), where A = "fold own init A"])
             (use 10(3,4,6) t' t(2) p r(2) v[OF True] in \<open>auto simp: not_let_after\<close>)
        from sound_block[OF sound_extend[OF this]] len show ?thesis by simp
      qed
      have "sound rt (list_all jump_free post) False \<Delta> (view \<Delta>) (res_bind (heval H (map_of \<rho>1) cond w1) (\<lambda>(v, w).
           case truth v of
             Some b \<Rightarrow> res_bind (hloop H R n cond post body b \<rho>1 w) (\<lambda>(m, \<rho>1, w). Inr (m, outer (length \<rho>) \<rho>1, w))
           | None \<Rightarrow> Inl Stuck))"
        by (rule sound_eval[OF safe]) (use bool_like_truth[OF t(2)] loop in \<open>fastforce\<close>)
      then have "sound rt (jump_free (Stmt sp (SFor init cond post body))) False \<Delta> (view \<Delta>) (res_bind (heval H (map_of \<rho>1) cond w1) (\<lambda>(v, w).
           case truth v of
             Some b \<Rightarrow> res_bind (hloop H R n cond post body b \<rho>1 w) (\<lambda>(m, \<rho>1, w). Inr (m, outer (length \<rho>) \<rho>1, w))
           | None \<Rightarrow> Inl Stuck))"
        by (rule sound_weaken) simp_all
      with True show ?thesis by simp
    next
      case False
      with env_typed_outer[OF r(2)] j ret len show ?thesis by (auto intro!: soundI0)
    qed
  qed
next
  case (13 H R n sp target e alts \<rho> w)
  from 13(2) obtain t where t: "wt_expr F (view \<Delta>) e t" "type_eq target t" by auto
  have p: "expr_plain e" "ref_free target" using 13(3) by auto
  have u: "ref_free t" "safe (fits (erase t)) (heval H (map_of \<rho>) e w)"
    using expression_safe(2)[OF F 13(5) env_typed_vals[OF 13(4)] t(1) p(1)] by auto
  have same: "erase t = erase target" by (rule type_eq_erases[OF t(2) p(2) u(1)])
  let ?s = "Stmt sp (SMatch target e alts)"
  show ?case unfolding hstmt.simps
  proof (rule sound_eval[OF u(2)], simp only: prod.case)
    fix v w'
    assume e: "heval H (map_of \<rho>) e w = Inr (v, w')" and v: "fits (erase t) v"
    show "sound rt (jump_free ?s) (ends db [?s]) \<Delta> (after ?s (view \<Delta>))
        (case find_alt v alts of Some (\<rho>1, body) \<Rightarrow> hblock H R n (length \<rho>) body (\<rho>1 @ \<rho>) w' | None \<Rightarrow> Inr (HNormal, \<rho>, w'))"
    proof (cases "find_alt v alts")
      case None
      then have "\<not> ends db [?s]" using covers_find[of "erase target" alts v] v same by (auto simp: ends_def)
      with None 13(4) show ?thesis by (auto intro!: soundI0)
    next
      case (Some a)
      obtain \<rho>1 body where a: "a = (\<rho>1, body)" by (cases a)
      note f = Some[unfolded a]
      from alt_typed[OF p(2) v[unfolded same] 13(4) f, of F rt users "A" "flow_vars users e"] 13(2,3)
      obtain B A' where b: "env_typed (B @ \<Delta>) (\<rho>1 @ \<rho>)" "wt_stmts F rt (view (B @ \<Delta>)) body" "plain_stmts users A' body"
        by auto
      have "sound rt (list_all jump_free body) (ends db body) \<Delta> (view \<Delta>) (hblock H R n (length \<rho>) body (\<rho>1 @ \<rho>) w')"
        using 13(1)[OF e refl f refl b(2,3,1) env_typed_length[OF 13(4)] 13(5)] by blast
      then have "sound rt (jump_free ?s) (ends db [?s]) \<Delta> (view \<Delta>) (hblock H R n (length \<rho>) body (\<rho>1 @ \<rho>) w')"
        by (rule sound_weaken) (use find_alt_jumps[OF f] ends_alt[OF _ f] in auto)
      then show ?thesis using f by simp
    qed
  qed
next
  case (18 H R n cond post body b \<rho> w)
  show ?case
  proof (cases b)
    case True
    note len = env_typed_length[OF 18(14)]
    have bd: "sound rt (list_all jump_free body) (ends db body) \<Delta> (view \<Delta>) (hblock H R n (length \<rho>) body \<rho> w)
        \<and> (\<forall>m \<rho>' w'. hblock H R n (length \<rho>) body \<rho> w = Inr (m, \<rho>', w') \<longrightarrow> env_typed \<Delta> \<rho>')"
      by (rule 18(1)[where X = "[]" and A = A]) (use True 18(6-15) len in auto)
    then have bd1: "sound rt False False \<Delta> (view \<Delta>) (hblock H R n (length \<rho>) body \<rho> w)"
      by (blast intro: sound_weaken)
    have cond: "safe (\<lambda>v. \<exists>b. truth v = Some b) (heval H (map_of \<rho>') cond w')" if "env_typed \<Delta> \<rho>'" for \<rho>' w'
    proof -
      have "safe (fits (erase t)) (heval H (map_of \<rho>') cond w')"
        using expression_safe(2)[OF F 18(15) env_typed_vals[OF that] 18(11,13)] by blast
      then show ?thesis by (rule safe_mono) (rule bool_like_truth[OF 18(12)])
    qed
    let ?K = "sound rt (list_all jump_free post) False \<Delta> (view \<Delta>)"
    let ?rest = "\<lambda>\<rho>1 w1. res_bind (hblock H R n (length \<rho>1) post \<rho>1 w1) (\<lambda>(m, \<rho>, w).
      if m = HNormal
      then res_bind (heval H (map_of \<rho>) cond w) (\<lambda>(v, w).
           case truth v of Some b \<Rightarrow> hloop H R n cond post body b \<rho> w | None \<Rightarrow> Inl Stuck)
      else Inr (m, \<rho>, w))"
    have eq: "hloop H R (Suc n) cond post body b \<rho> w = res_bind (hblock H R n (length \<rho>) body \<rho> w) (\<lambda>(m, \<rho>, w).
        case m of HBreak \<Rightarrow> Inr (HNormal, \<rho>, w) | HReturn v \<Rightarrow> Inr (HReturn v, \<rho>, w) | _ \<Rightarrow> ?rest \<rho> w)"
      using True by (simp del: hblock.simps)
    show ?thesis unfolding eq
    proof (rule sound_bind[OF bd1], simp only: prod.case)
      fix m \<rho>1 w1 X
      assume r: "hblock H R n (length \<rho>) body \<rho> w = Inr (m, \<rho>1, w1)"
        and ret: "\<And>v. m = HReturn v \<Longrightarrow> \<exists>t. rt = Some t \<and> fits (erase t) v"
      have typed: "env_typed \<Delta> \<rho>1" using bd r by blast
      note len1 = env_typed_length[OF typed]
      have post: "sound rt (list_all jump_free post) (ends db post) \<Delta> (view \<Delta>) (hblock H R n (length \<rho>1) post \<rho>1 w1)
        \<and> (\<forall>m \<rho>' w'. hblock H R n (length \<rho>1) post \<rho>1 w1 = Inr (m, \<rho>', w') \<longrightarrow> env_typed \<Delta> \<rho>')"
        if "m = HNormal \<or> m = HContinue"
        using that
      proof
        assume m: "m = HNormal"
        show ?thesis by (rule 18(2)[OF _ r refl refl m, where X = "[]" and A = A]) (use True 18(6-15) typed len1 in auto)
      next
        assume m: "m = HContinue"
        show ?thesis by (rule 18(4)[OF _ r refl refl m, where X = "[]" and A = A]) (use True 18(6-15) typed len1 in auto)
      qed
      have rest: "?K (?rest \<rho>1 w1)" if m: "m = HNormal \<or> m = HContinue"
        unfolding len1
      proof (rule sound_rest[OF cond])
        show "?K (hblock H R n (length \<Delta>) post \<rho>1 w1)"
          using post[OF m] len1 by (auto intro: sound_weaken)
        show "env_typed \<Delta> \<rho>2" if "hblock H R n (length \<Delta>) post \<rho>1 w1 = Inr (m', \<rho>2, w2)" for m' \<rho>2 w2
          using post[OF m] len1 that by auto
        show "?K (hloop H R n cond post body b' \<rho>2 w3)"
          if l: "hblock H R n (length \<Delta>) post \<rho>1 w1 = Inr (HNormal, \<rho>2, w2)" "heval H (map_of \<rho>2) cond w2 = Inr (v, w3)"
            "truth v = Some b'" "env_typed \<Delta> \<rho>2" for \<rho>2 w2 v w3 b'
          using m
        proof
          assume m: "m = HNormal"
          show ?thesis
            by (rule 18(3)[OF _ r refl refl m l(1)[folded len1] refl refl refl l(2) refl l(3), where A = A and t = t])
               (use True 18(6-15) l(4) in auto)
        next
          assume m: "m = HContinue"
          show ?thesis
            by (rule 18(5)[OF _ r refl refl m l(1)[folded len1] refl refl refl l(2) refl l(3), where A = A and t = t])
               (use True 18(6-15) l(4) in auto)
        qed
      qed
      show "?K (case m of HBreak \<Rightarrow> Inr (HNormal, \<rho>1, w1) | HReturn v \<Rightarrow> Inr (HReturn v, \<rho>1, w1) | _ \<Rightarrow> ?rest \<rho>1 w1)"
        using rest typed ret by (cases m) (auto intro!: soundI0 simp del: hblock.simps)
    qed
  qed (use 18(14) in \<open>auto intro!: soundI0\<close>)
qed (auto intro!: soundI0)
section \<open>Functions\<close>

definition params_typed :: "arg list \<Rightarrow> tenv" where
  "params_typed as = rev (map (\<lambda>a. (arg_name a, Some (arg_ty a))) as) @ [(''_result'', None)]"

lemma view_params: "view (params_typed as) = param_types as Map.empty"
proof -
  have "view (rev (map (\<lambda>a. (arg_name a, Some (arg_ty a))) as) @ \<Delta>) = param_types as (view \<Delta>)" for \<Delta>
    by (induction as arbitrary: \<Delta> rule: rev_induct) (simp_all add: param_types_def)
  moreover have "view [(''_result'', None)] = Map.empty" by (simp add: view_def fun_eq_iff)
  ultimately show ?thesis by (simp add: params_typed_def)
qed

lemma entry_typed:
  assumes "list_all (\<lambda>a. ref_free (arg_ty a)) (fn_args f)" and "list_all2 (\<lambda>a. fits (erase (arg_ty a))) (fn_args f) vs"
  shows "env_typed (params_typed (fn_args f)) (entry_env f vs)"
proof -
  have "list_all2 (\<lambda>(x, ot) (y, v). x = y \<and> (\<forall>t. ot = Some t \<longrightarrow> ref_free t \<and> fits (erase t) v))
      (map (\<lambda>a. (arg_name a, Some (arg_ty a))) as) (zip (map arg_name as) vs)"
    if "list_all (\<lambda>a. ref_free (arg_ty a)) as" "list_all2 (\<lambda>a. fits (erase (arg_ty a))) as vs" for as
    using that(2,1) by (induction rule: list_all2_induct) auto
  from this[OF assms] show ?thesis
    by (simp add: env_typed_def params_typed_def entry_env_def list_all2_appendI)
qed

lemma function_sound:
  assumes "function_ready F users f" and "sigs_plain F" and "calls_fit F H"
    and "list_all2 (\<lambda>a. fits (erase (arg_ty a))) (fn_args f) vs"
  shows "sound (Some (fn_ret f)) True (ends db (fn_body f)) (params_typed (fn_args f))
      (fold after (fn_body f) (view (params_typed (fn_args f)))) (hstmts H R n (fn_body f) (entry_env f vs) w)"
proof -
  let ?\<Delta> = "params_typed (fn_args f)"
  have r: "wt_stmts F (Some (fn_ret f)) (view ?\<Delta>) (fn_body f)" "plain_stmts users (set (map arg_name (fn_args f))) (fn_body f)"
    "list_all jump_free (fn_body f)" "list_all (\<lambda>a. ref_free (arg_ty a)) (fn_args f)" "ref_free (fn_ret f)"
    using assms(1) by (auto simp: function_ready_def view_params list_all_iff)
  have "sound (Some (fn_ret f)) (list_all jump_free (fn_body f)) (ends db (fn_body f)) ?\<Delta> (fold after (fn_body f) (view ?\<Delta>))
      (hstmts H R n (fn_body f) (entry_env f vs) w)"
    by (rule statements_sound(1)[OF assms(2,3) _ r(1,2) entry_typed[OF r(4) assms(4)]]) (use r(5) in auto)
  then show ?thesis by (rule sound_weaken) (use r(3) in auto)
qed

lemma run_function_safe:
  assumes "function_ready F users f" and "sigs_plain F" and "calls_fit F H"
    and "list_all2 (\<lambda>a. fits (erase (arg_ty a))) (fn_args f) vs"
  shows "safe (fits (erase (fn_ret f))) (run_function H R n f vs w)"
proof (cases "hstmts H R n (fn_body f) (entry_env f vs) w")
  case (Inl e)
  with function_sound[OF assms, of None R n w] list_all2_lengthD[OF assms(4)] show ?thesis by (simp add: run_function_def)
next
  case (Inr r)
  obtain m \<rho> w' where r: "r = (m, \<rho>, w')" by (cases r)
  have "fits (erase (fn_ret f)) (default_value (erase (fn_ret f)))"
    using assms(1) by (simp add: function_ready_def fits_default)
  with function_sound[OF assms, of None R n w] list_all2_lengthD[OF assms(4)] Inr r show ?thesis
    by (cases m) (auto simp: run_function_def sound_def)
qed

lemma calls_at_depth_fit:
  assumes d: "distinct (map fn_name fs)" and ready: "list_all (function_ready (block_funs sp fs) users) fs"
    and B: "calls_fit (builtin_funs sp) B"
  shows "calls_fit (block_funs sp fs) (hull_calls fs B R n)"
proof (induction n)
  have F: "sigs_plain (block_funs sp fs)"
    by (rule block_funs_agree(1)[OF _ refl]) (use ready in \<open>auto simp: list_all_iff function_ready_def\<close>)
  have calls: "calls_fit (block_funs sp fs) C"
    if own: "\<And>f vs w. f \<in> set fs \<Longrightarrow> list_all2 (\<lambda>a. fits (erase (arg_ty a))) (fn_args f) vs \<Longrightarrow>
        safe (fits (erase (fn_ret f))) (C (fn_name f) vs w)"
      and other: "\<And>n. n \<notin> set (map fn_name fs) \<Longrightarrow> C n = B n" for C
    unfolding calls_fit_def
  proof (intro allI impI)
    fix n s vs w
    assume s: "block_funs sp fs n = Some s" and vs: "list_all2 (\<lambda>t. fits (erase t)) (sig_args s) vs"
    from s show "safe (fits (erase (sig_ret s))) (C n vs w)"
    proof (cases rule: block_funs_cases)
      case (1 f)
      with own[OF 1(1), of vs w] vs show ?thesis by (simp add: fun_sig_of_def list.rel_map)
    next
      case 2
      with B vs other[OF 2(1)] show ?thesis by (auto simp: calls_fit_def)
    qed
  qed
  case 0
  show ?case by (rule calls) (use find_function_distinct[OF d] find_function_None in \<open>auto intro!: ext\<close>)
  case (Suc n)
  show ?case
  proof (rule calls)
    fix f vs w
    assume f: "f \<in> set fs" "list_all2 (\<lambda>a. fits (erase (arg_ty a))) (fn_args f) vs"
    then have "function_ready (block_funs sp fs) users f" using ready by (simp add: list_all_iff)
    from run_function_safe[OF this F Suc f(2)] show "safe (fits (erase (fn_ret f))) (hull_calls fs B R (Suc n) (fn_name f) vs w)"
      using find_function_distinct[OF d f(1)] by simp
  qed (use find_function_None in \<open>auto intro!: ext\<close>)
qed

section \<open>Programs\<close>

text \<open>The functions of a program, and those of each object of it, are one table each.\<close>

fun object_functions :: "hull_object \<Rightarrow> hull_function list list" where
  "object_functions (Object sp n cb inners) = cb_functions cb # concat (map object_functions inners)"

definition function_tables :: "program \<Rightarrow> hull_function list list" where
  "function_tables p = prog_functions p # concat (map object_functions (prog_objects p))"

definition plain_program :: "program \<Rightarrow> bool" where
  "plain_program p \<longleftrightarrow>
     list_all (plain_function (set (map fn_name (prog_functions p)))) (prog_functions p) \<and> list_all plain_object (prog_objects p)
     \<and> (prog_functions p = [] \<or> prog_objects p = [])"

lemma object_tables_ready:
  "quiet (initial_env db sp) (check_object ob (initial_env db sp)) \<Longrightarrow> plain_object ob \<Longrightarrow> fs \<in> set (object_functions ob) \<Longrightarrow>
    distinct (map fn_name fs) \<and> list_all (function_ready (block_funs sp fs) (set (map fn_name fs))) fs
      \<and> list_all (wt_function (block_funs sp fs) db Map.empty) fs"
proof (induction ob rule: object_functions.induct)
  case (1 osp n cb inners)
  from accepted_block[OF 1(2)] 1(3) have b: "block_ready sp cb" "list_all (wt_function (block_funs sp (cb_functions cb)) db Map.empty) (cb_functions cb)"
    and i: "list_all (\<lambda>ob. quiet (initial_env db sp) (check_object ob (initial_env db sp))) inners" by simp_all
  show ?case
  proof (cases "fs = cb_functions cb")
    case True
    with b show ?thesis by (simp add: block_ready_def Let_def)
  next
    case False
    with 1(4) obtain ob where ob: "ob \<in> set inners" "fs \<in> set (object_functions ob)" by auto
    from 1(1)[OF ob(1) _ _ ob(2)] i 1(3) ob(1) show ?thesis by (simp add: list_all_iff)
  qed
qed

lemma tables_ready:
  assumes "check_program_with_db db p = []" and "plain_program p" and "fs \<in> set (function_tables p)"
  shows "distinct (map fn_name fs) \<and> list_all (function_ready (block_funs (prog_span p) fs) (set (map fn_name fs))) fs
    \<and> list_all (wt_function (block_funs (prog_span p) fs) (Some db) Map.empty) fs"
proof -
  let ?env = "initial_env (Some db) (prog_span p)"
  have ok: "env_ok ?env" by (simp add: initial_env_def env_ok_def)
  have d: "diagnostics ?env = []" by (simp add: initial_env_def)
  consider (no_objects) "prog_objects p = []" | (no_functions) "prog_functions p = []"
    using assms(2) by (auto simp: plain_program_def)
  then show ?thesis
  proof cases
    case no_objects
    then have fs: "fs = prog_functions p" using assms(3) by (simp add: function_tables_def)
    from assms(1) no_objects have "quiet ?env (fold check_function fs (fold register_function fs ?env))"
      by (simp add: check_program_with_db_def check_program_inner_def quiet_def d fs)
    then show ?thesis using accepted_functions assms(2) fs by (simp add: plain_program_def)
  next
    case no_functions
    with assms(1) have "quiet ?env (fold check_object (prog_objects p) ?env)"
      by (simp add: check_program_with_db_def check_program_inner_def quiet_def d)
    with quiet_fold[where g = check_object, OF check_object_emits ok]
    have all: "list_all (\<lambda>ob. quiet ?env (check_object ob ?env)) (prog_objects p)" by blast
    show ?thesis
    proof (cases "fs = prog_functions p")
      case False
      with assms(3) obtain ob where ob: "ob \<in> set (prog_objects p)" "fs \<in> set (object_functions ob)"
        by (auto simp: function_tables_def)
      with all assms(2) object_tables_ready[of "Some db" "prog_span p" ob fs] show ?thesis
        by (simp add: plain_program_def list_all_iff)
    qed (use no_functions in simp)
  qed
qed

text \<open>The machine of the example respects the types of the builtins.\<close>

lemma cell_calls_fit: "calls_fit (builtin_funs sp) cell_hull"
  unfolding calls_fit_def
proof (intro allI impI)
  fix f s vs and w :: "256 word"
  assume f: "builtin_funs sp f = Some s" and vs: "list_all2 (\<lambda>t. fits (erase t)) (sig_args s) vs"
  have "(f, s) \<in> set (builtin_rows sp)" using f by (auto simp: builtin_funs_map_of dest: map_of_SomeD)
  then have row: "cell_row (f, s)" using cell_rows by (simp add: list_all_iff)
  show "safe (fits (erase (sig_ret s))) (cell_hull f vs w)"
  proof (cases "lower_callee f {}")
    case (Call_callee m)
    have "\<exists>x y. vs = [VWord x, VWord y]" if "map erase (sig_args s) = [ShWord, ShWord]"
      using that vs by (auto simp: map_eq_Cons_conv list_all2_Cons1 fits_shape)
    with row Call_callee show ?thesis by (auto simp: cell_row_def cell_hull_def)
  next
    case Identity_callee
    have "identities_ok (block_funs sp []) {}" by (rule block_funs_agree(2)) simp_all
    with f Identity_callee obtain a where "sig_args s = [a]" "erase a = erase (sig_ret s)"
      by (auto simp: identities_ok_def block_funs_def)
    with vs Identity_callee show ?thesis by (auto simp: cell_hull_def list_all2_Cons1)
  qed
qed

lemma entry_facts:
  "check_program_with_db (\<lambda>_. []) entry_program = []" "plain_program entry_program"
  by code_simp+

lemma entry_twice: "prog_functions entry_program \<in> set (function_tables entry_program)" "twice \<in> set (prog_functions entry_program)"
  "list_all2 (\<lambda>a. fits (erase (arg_ty a))) (fn_args twice) [VWord 21]" "erase (fn_ret twice) = ShWord" "fn_name twice = ''twice''"
  by (simp_all add: entry_program_def function_tables_def twice_def)

text \<open>C5. Accepted programs do not go wrong. A function of a program the checker accepts whose
  code is in the plain fragment, called with arguments of the shapes of its parameters, returns a value of
  the shape of its result type, halts, or exhausts the fuel, at every depth of calls; it never gets stuck. It is
  enough that the builtins respect their signatures.\<close>

theorem accepted_functions_are_safe:
  assumes "check_program_with_db db p = []" and "plain_program p"
    and "fs \<in> set (function_tables p)" and "f \<in> set fs"
    and "calls_fit (builtin_funs (prog_span p)) B"
    and "list_all2 (\<lambda>a. fits (erase (arg_ty a))) (fn_args f) vs"
  shows "case hull_calls fs B R d (fn_name f) vs w of
      Inl e \<Rightarrow> e \<noteq> Stuck
    | Inr (v, w') \<Rightarrow> fits (erase (fn_ret f)) v"
proof -
  from tables_ready[OF assms(1-3)] have dist: "distinct (map fn_name fs)"
    and ready: "list_all (function_ready (block_funs (prog_span p) fs) (set (map fn_name fs))) fs" by simp_all
  have "calls_fit (block_funs (prog_span p) fs) (hull_calls fs B R d)" by (rule calls_at_depth_fit[OF dist ready assms(5)])
  moreover have "block_funs (prog_span p) fs (fn_name f) = Some (fun_sig_of f)" by (rule block_funs_own[OF dist assms(4)])
  moreover have "list_all2 (\<lambda>t. fits (erase t)) (sig_args (fun_sig_of f)) vs"
    using assms(6) by (simp add: fun_sig_of_def list.rel_map)
  ultimately have "safe (fits (erase (sig_ret (fun_sig_of f)))) (hull_calls fs B R d (fn_name f) vs w)"
    unfolding calls_fit_def by blast
  then show ?thesis by (simp add: safe_def fun_sig_of_def)
qed

theorem accepted_functions_are_safe_witness:
  "case hull_calls (prog_functions entry_program) cell_hull (\<lambda>message w. w) 2 ''twice'' [VWord 21] 0 of
      Inl e \<Rightarrow> e \<noteq> Stuck
    | Inr (v, w') \<Rightarrow> fits ShWord v"
  using accepted_functions_are_safe[OF entry_facts entry_twice(1,2) cell_calls_fit entry_twice(3), of "\<lambda>message w. w" 2 0]
  unfolding entry_twice(4,5) .

section \<open>Terminators\<close>

text \<open>A function that distinguishes two cases.\<close>

definition choice :: hull_function where
  "choice = \<lparr>fn_span = sp0, fn_name = ''choice'',
     fn_args = [\<lparr>arg_span = sp0, arg_name = ''x'', arg_ty = ty_word sp0\<rparr>], fn_ret = ty_word sp0,
     fn_body = [Stmt sp0 (SMatch (ty_word sp0) (word_expr (EVar ''x''))
       [Alt sp0 (Pat sp0 (PIntLit ''0'')) ''y'' [Stmt sp0 (SReturn (word_expr (EWord ''7'')))],
        Alt sp0 (Pat sp0 PWildcard) ''z'' [Stmt sp0 (SReturn (word_expr (EVar ''x'')))]])]\<rparr>"

definition choice_program :: program where
  "choice_program = \<lparr>prog_span = sp0, entry_points = [], prog_functions = [choice], prog_objects = []\<rparr>"

lemma choice_accepted: "check_program_with_db (\<lambda>_. []) choice_program = []"
proof -
  let ?env = "register_function choice (initial_env (Some (\<lambda>_. [])) sp0)"
  have d: "diagnostics ?env = []" by code_simp
  have ok: "env_ok ?env" by (simp add: register_function_def initial_env_def env_ok_def Let_def push_diag_def)
  have "type_eq (ty_word sp0) (ty_word sp0)" by code_simp
  then have w: "type_eq (Ty sp0 TyWord) (Ty sp0 TyWord)" by simp
  have e: "wt_expr F G (Expr sp0 (Ty sp0 TyWord) (EWord ''7'')) (Ty sp0 TyWord)" for F G
    by (intro wt_intros) (simp_all add: w)
  have x: "wt_expr F G (Expr sp0 (Ty sp0 TyWord) (EVar ''x'')) (Ty sp0 TyWord)" if "G ''x'' = Some (Ty sp0 TyWord)" for F G
    using that by (intro wt_intros) (simp_all add: w)
  have "requires_terminator (fn_ret choice) \<longrightarrow> body_terminates db (fn_body choice)" for db by (simp add: choice_def)
  moreover have "wt_stmts F (Some (fn_ret choice)) (fold (\<lambda>a G. G(arg_name a \<mapsto> arg_ty a)) (fn_args choice) G) (fn_body choice)" for F G
    using e x w by (auto simp: choice_def word_expr_def payload_type_def intro!: exI[of _ "Ty sp0 TyWord"])
  moreover have "list_all (\<lambda>a. \<not> contains_function (arg_ty a)) (fn_args choice) \<and> \<not> contains_function (fn_ret choice)" by code_simp
  ultimately have "wt_function (env_funs ?env) (env_db ?env) (lookup_var ?env) choice" by (simp add: wt_function_def)
  moreover have "list_all asm_free (fn_body choice)" by (simp add: choice_def)
  ultimately have "diagnostics (check_function choice ?env) = []" using check_function_iff_well_typed[OF ok] d by metis
  then show ?thesis by (simp add: check_program_with_db_def check_program_inner_def choice_program_def)
qed

lemma choice_facts:
  "plain_program choice_program" "requires_terminator (fn_ret choice)" "covered_body (fn_body choice)" "erase (fn_ret choice) = ShWord"
proof -
  have l: "literal_error ''0'' = None" "literal_error ''7'' = None" by code_simp+
  show "plain_program choice_program"
    by (simp add: choice_program_def plain_program_def plain_function_def choice_def word_expr_def l)
  show "requires_terminator (fn_ret choice)" by code_simp
  show "covered_body (fn_body choice)" "erase (fn_ret choice) = ShWord" by (simp_all add: choice_def covers_def)
qed

text \<open>C6. What the terminator analysis is for: if the result type of a function of an accepted program takes
  up words, and the matches at the end of its body are exhaustive, an execution of the body that ends
  without halting ends with a \<open>return\<close> of a value of the shape of the result type; it does
  not reach the end of the body, where nothing would be returned.\<close>

theorem accepted_function_returns:
  assumes "check_program_with_db db p = []" and "plain_program p"
    and "fs \<in> set (function_tables p)" and "f \<in> set fs"
    and "calls_fit (builtin_funs (prog_span p)) B"
    and "list_all2 (\<lambda>a. fits (erase (arg_ty a))) (fn_args f) vs"
    and "requires_terminator (fn_ret f)" and "covered_body (fn_body f)"
  shows "case hstmts (hull_calls fs B R d) R d (fn_body f) (entry_env f vs) w of
      Inl e \<Rightarrow> e \<noteq> Stuck
    | Inr (m, \<rho>, w') \<Rightarrow> \<exists>v. m = HReturn v \<and> fits (erase (fn_ret f)) v"
proof -
  from tables_ready[OF assms(1-3)] have dist: "distinct (map fn_name fs)"
    and ready: "list_all (function_ready (block_funs (prog_span p) fs) (set (map fn_name fs))) fs"
    and wt: "wt_function (block_funs (prog_span p) fs) (Some db) Map.empty f" using assms(4) by (simp_all add: list_all_iff)
  have F: "sigs_plain (block_funs (prog_span p) fs)"
    by (rule block_funs_agree(1)[OF _ refl]) (use ready in \<open>auto simp: list_all_iff function_ready_def\<close>)
  have f: "function_ready (block_funs (prog_span p) fs) (set (map fn_name fs)) f" using ready assms(4) by (simp add: list_all_iff)
  have "ends (Some db) (fn_body f)" using wt assms(7,8) by (simp add: wt_function_def ends_def)
  with function_sound[OF f F calls_at_depth_fit[where R = R and n = d, OF dist ready assms(5)] assms(6), of "Some db" R d w]
  show ?thesis by (auto simp: sound_def split: sum.splits prod.splits elim: completes.elims)
qed

theorem accepted_function_returns_witness:
  "case hstmts (hull_calls (prog_functions choice_program) cell_hull (\<lambda>message w. w) 1) (\<lambda>message w. w) 1 (fn_body choice)
        (entry_env choice [VWord 5]) 0 of
      Inl e \<Rightarrow> e \<noteq> Stuck
    | Inr (m, \<rho>, w') \<Rightarrow> \<exists>v. m = HReturn v \<and> fits ShWord v"
proof -
  have m: "prog_functions choice_program \<in> set (function_tables choice_program)" "choice \<in> set (prog_functions choice_program)"
    "list_all2 (\<lambda>a. fits (erase (arg_ty a))) (fn_args choice) [VWord 5]"
    by (simp_all add: choice_program_def function_tables_def choice_def)
  show ?thesis
    using accepted_function_returns[OF choice_accepted choice_facts(1) m(1,2) cell_calls_fit m(3) choice_facts(2,3), of "\<lambda>message w. w" 1 0]
    unfolding choice_facts(4) .
qed

text \<open>Bodies with inline assembly. The reference says which statements may complete normally, so that
  control reaches whatever follows them. Loops, plain statements and statements that transfer control inside a
  loop are taken to complete; a branching statement completes when one of its branches does, a switch
  without default also when no case applies, a match also when the scrutinee has a value that no
  alternative fits.\<close>

inductive asm_completes :: "(ident \<Rightarrow> string) option \<Rightarrow> hir_yul_stmt \<Rightarrow> bool"
  and asm_seq_completes :: "(ident \<Rightarrow> string) option \<Rightarrow> hir_yul_stmt list \<Rightarrow> bool"
  for db :: "(ident \<Rightarrow> string) option" where
  asm_seq_nil: "asm_seq_completes db []"
| asm_seq_cons: "asm_completes db s \<Longrightarrow> asm_seq_completes db ss \<Longrightarrow> asm_seq_completes db (s # ss)"
| asm_block: "asm_seq_completes db ss \<Longrightarrow> asm_completes db (HirYulStmt sp (HSBlock ss))"
| asm_call: "\<not> (\<exists>txt. db = Some txt \<and> txt (atom f) \<in> set asm_terminators) \<Longrightarrow>
    asm_completes db (HirYulStmt sp (HSExpr (HirYulExpr esp (HECall f args))))"
| asm_case: "HirYulCase csp lit body \<in> set cases \<Longrightarrow> asm_seq_completes db body \<Longrightarrow>
    asm_completes db (HirYulStmt sp (HSSwitch e cases dflt))"
| asm_default: "asm_seq_completes db body \<Longrightarrow>
    asm_completes db (HirYulStmt sp (HSSwitch e cases (Some body)))"
| asm_no_default: "asm_completes db (HirYulStmt sp (HSSwitch e cases None))"
| asm_plain: "\<forall>e cases dflt ss esp f args. k \<noteq> HSSwitch e cases dflt \<and> k \<noteq> HSBlock ss
      \<and> k \<noteq> HSExpr (HirYulExpr esp (HECall f args)) \<Longrightarrow> asm_completes db (HirYulStmt sp k)"

inductive stmt_completes :: "(ident \<Rightarrow> string) option \<Rightarrow> stmt \<Rightarrow> bool"
  and body_completes :: "(ident \<Rightarrow> string) option \<Rightarrow> stmt list \<Rightarrow> bool"
  for db :: "(ident \<Rightarrow> string) option" where
  body_nil: "body_completes db []"
| body_cons: "stmt_completes db s \<Longrightarrow> body_completes db ss \<Longrightarrow> body_completes db (s # ss)"
| stmt_block: "body_completes db ss \<Longrightarrow> stmt_completes db (Stmt sp (SBlock ss))"
| stmt_alt: "Alt asp p b body \<in> set alts \<Longrightarrow> body_completes db body \<Longrightarrow>
    stmt_completes db (Stmt sp (SMatch t e alts))"
| stmt_unmatched: "fits (erase t) v \<Longrightarrow> find_alt v alts = None \<Longrightarrow> stmt_completes db (Stmt sp (SMatch t e alts))"
| stmt_asm: "asm_seq_completes db ss \<Longrightarrow> stmt_completes db (Stmt sp (SAssembly ss))"
| stmt_plain: "\<forall>ss t e alts as m. k \<noteq> SBlock ss \<and> k \<noteq> SMatch t e alts \<and> k \<noteq> SAssembly as
      \<and> k \<noteq> SReturn e \<and> k \<noteq> SRevert m \<Longrightarrow> stmt_completes db (Stmt sp k)"

inductive_cases asm_completes_blockE: "asm_completes db (HirYulStmt sp (HSBlock ss))"
inductive_cases asm_completes_callE: "asm_completes db (HirYulStmt sp (HSExpr (HirYulExpr esp (HECall f args))))"
inductive_cases asm_completes_switchE: "asm_completes db (HirYulStmt sp (HSSwitch e cases dflt))"
inductive_cases asm_seq_consE: "asm_seq_completes db (s # ss)"
inductive_cases body_consE: "body_completes db (s # ss)"
inductive_cases stmt_blockE: "stmt_completes db (Stmt sp (SBlock ss))"
inductive_cases stmt_matchE: "stmt_completes db (Stmt sp (SMatch t e alts))"
inductive_cases stmt_asmE: "stmt_completes db (Stmt sp (SAssembly ss))"
inductive_cases stmt_returnE: "stmt_completes db (Stmt sp (SReturn e))"
inductive_cases stmt_revertE: "stmt_completes db (Stmt sp (SRevert m))"

lemma asm_terminates_sound:
  "asm_block_terminates db ss \<Longrightarrow> \<not> asm_seq_completes db ss"
  "asm_stmt_terminates db s \<Longrightarrow> \<not> asm_completes db s"
  "asm_cases_terminate db cs \<Longrightarrow> \<forall>sp lit body. HirYulCase sp lit body \<in> set cs \<longrightarrow> \<not> asm_seq_completes db body"
proof (induction db ss and db s and db cs
    rule: asm_block_terminates_asm_stmt_terminates_asm_cases_terminate.induct)
qed (auto elim!: asm_seq_consE asm_completes_blockE asm_completes_callE asm_completes_switchE
    split: option.splits)

lemma body_terminates_sound:
  "body_terminates db ss \<Longrightarrow> covered_body ss \<Longrightarrow> \<not> body_completes db ss"
  "stmt_terminates db s \<Longrightarrow> covered_stmt s \<Longrightarrow> \<not> stmt_completes db s"
  "alts_terminate db as \<Longrightarrow> covered_alts as \<Longrightarrow> \<forall>sp p b body. Alt sp p b body \<in> set as \<longrightarrow> \<not> body_completes db body"
proof (induction db ss and db s and db as
    rule: body_terminates_stmt_terminates_alts_terminate.induct)
qed (auto elim!: body_consE stmt_blockE stmt_matchE stmt_asmE stmt_returnE stmt_revertE
    dest: asm_terminates_sound(1) covers_find)

text \<open>Without an exhaustive match the analysis promises less: it accepts a body whose only alternative
  returns, and the body completes when the scrutinee is on the other side of the sum.\<close>

definition open_match :: stmt where
  "open_match = Stmt sp0 (SMatch (Ty sp0 (TySum (ty_unit sp0) (ty_unit sp0))) (word_expr (EVar ''x''))
     [Alt sp0 (Pat sp0 (PCon Inl_con)) ''y'' [Stmt sp0 (SReturn (word_expr (EWord ''7'')))]])"

lemma open_match_falls_through:
  "body_terminates db [open_match] \<and> \<not> covered_body [open_match] \<and> body_completes db [open_match]
   \<and> hstmts H R n [open_match] [(''x'', VInr VUnit)] w = Inr (HNormal, [(''x'', VInr VUnit)], w)"
proof -
  have "stmt_completes db open_match"
    unfolding open_match_def by (rule stmt_unmatched[where v = "VInr VUnit"]) simp_all
  then show ?thesis
    by (auto simp: open_match_def covers_def has_con_def word_expr_def intro: body_nil body_cons)
qed

text \<open>C22. A body that the terminator analysis accepts and whose final matches are exhaustive cannot complete
  normally, inline assembly included: on every path through blocks, matches and assembly, control leaves it by
  a return, a revert or a terminating builtin before its end.\<close>

theorem terminated_body_never_falls_through:
  assumes "body_terminates db body" and "covered_body body"
  shows "\<not> body_completes db body"
  using assms by (rule body_terminates_sound(1))

theorem terminated_body_never_falls_through_witness:
  "\<not> body_completes (Some (\<lambda>_. ''stop'')) [Stmt sp0 (SComment ''c''), Stmt sp0 (SMatch (ty_word sp0) (word_expr (EVar ''x''))
     [Alt sp0 (Pat sp0 (PIntLit ''0'')) ''y'' [Stmt sp0 (SRevert ''no'')],
      Alt sp0 (Pat sp0 PWildcard) ''z'' [Stmt sp0 (SAssembly [HirYulStmt sp0 (HSExpr (HirYulExpr sp0 (HECall (Spanned 0 sp0) [])))])]])]"
  by (rule terminated_body_never_falls_through) (simp_all add: asm_terminators_def covers_def)

end
