(* ===== verification/Lower_Aliasing.thy ===== *)
theory Lower_Aliasing
  imports Accepted_Programs
begin

text \<open>
  An assignment whose right-hand side permutes the words of the assigned variable
  (\<open>hull_assign\<close> in \<open>crates/yul/src/translate/lower.rs\<close>): the checker accepts it, and the code copies
  word by word without a temporary.
\<close>

definition swap_ty :: ty where
  "swap_ty = Ty leak_sp (TyProduct (Ty leak_sp TyWord) (Ty leak_sp TyWord))"

definition swap_word :: "expr_kind \<Rightarrow> expr" where
  "swap_word k = Expr leak_sp (Ty leak_sp TyWord) k"

definition swap_var :: expr where
  "swap_var = Expr leak_sp swap_ty (EVar ''p'')"

definition swap_body :: "stmt list" where
  "swap_body =
     [Stmt leak_sp (SLet ''p'' swap_ty),
      Stmt leak_sp (SAssign swap_var (Expr leak_sp swap_ty (EPair (swap_word (EWord ''1'')) (swap_word (EWord ''2''))))),
      Stmt leak_sp (SAssign swap_var
        (Expr leak_sp swap_ty (EPair (swap_word (ESnd swap_var)) (swap_word (EFst swap_var)))))]"

lemmas swap_defs = swap_ty_def swap_word_def swap_var_def swap_body_def

definition swap_yul :: "yul_stmt list" where
  "swap_yul =
     [YLet [''_v0''] None, YLet [''_v1''] None,
      YAssign [''_v0''] (y_number ''1''), YAssign [''_v1''] (y_number ''2''),
      YAssign [''_v0''] (y_ident ''_v1''), YAssign [''_v1''] (y_ident ''_v0'')]"

lemma swap_body_accepted: "diagnostics (check_body swap_body (initial_env None leak_sp)) = []"
  by code_simp

lemma swap_body_translated: "map_sum id fst (gen_stmts swap_body (new_translator (\<lambda>_. []))) = Inr swap_yul"
  by code_simp

lemma swap_body_runs: "hstmts H R n swap_body [] w = Inr (HNormal, [(''p'', VPair (VWord 2) (VWord 1))], w)"
proof -
  have "literal_error ''1'' = None" "literal_error ''2'' = None" "literal_value ''1'' = 1" "literal_value ''2'' = 2" by code_simp+
  then show ?thesis by (simp add: swap_defs)
qed

lemma swap_yul_runs: "yseq C n swap_yul Map.empty w = Inr (MNormal, [''_v0'' \<mapsto> 2, ''_v1'' \<mapsto> 2], w)"
proof -
  have "is_ok (canonical_numeric_lit ''1'')" "literal_value ''1'' = 1" "is_ok (canonical_numeric_lit ''2'')" "literal_value ''2'' = 2"
    by code_simp+
  then have "number_word ''1'' = Some 1" "number_word ''2'' = Some 2" by (simp_all add: number_word_def)
  then show ?thesis by (simp add: swap_yul_def y_number_def y_ident_def declare_vars_def assign_vars_def fun_eq_iff)
qed

text \<open>An assignment that exchanges the words of a variable is miscompiled. The checker accepts
  \<open>let p; p := (1, 2); p := (snd p, fst p)\<close>, after which \<open>p\<close> is \<open>(2, 1)\<close>. The translation overwrites the first
  word before it reads it, and leaves \<open>(2, 2)\<close>.\<close>

theorem self_assignment_miscompiled:
  "diagnostics (check_body swap_body (initial_env None leak_sp)) = []
   \<and> hstmts cell_hull (\<lambda>message w. w) 0 swap_body [] 0 = Inr (HNormal, [(''p'', VPair (VWord 2) (VWord 1))], 0)
   \<and> map_sum id fst (gen_stmts swap_body (new_translator (\<lambda>_. []))) = Inr swap_yul
   \<and> yseq cell_yul 0 swap_yul Map.empty 0 = Inr (MNormal, [''_v0'' \<mapsto> 2, ''_v1'' \<mapsto> 2], 0)"
  by (intro conjI swap_body_accepted swap_body_translated swap_body_runs swap_yul_runs)

end
