(* ===== verification/Big_Int.thy ===== *)
theory Big_Int
  imports Word_Literal "HOL-Library.Signed_Division"
begin

text \<open>
  Arbitrary-precision integers of the compile-time evaluator
  (\<open>crates/specialize/src/evaluate/value.rs\<close>): a sign and a list of 32-bit limbs, least significant
  first. Products, sums and shifts go through 64-bit values, as in the code. The reference is the
  integer \<open>big_val\<close> a number denotes; \<open>big_ok\<close> is the invariant of the representation, which makes it
  unique: no leading zero limb, and the sign is 0 exactly for the empty list.
\<close>

unbundle bit_operations_syntax

section \<open>The type and its comparison\<close>

record bigint =
  sign :: int
  magnitude :: "32 word list"

datatype cmp_ordering = Less | Equal | Greater

definition big_zero :: bigint where
  "big_zero = \<lparr>sign = 0, magnitude = []\<rparr>"

definition big_is_zero :: "bigint \<Rightarrow> bool" where
  "big_is_zero b \<longleftrightarrow> sign b = 0"

definition from_u64 :: "64 word \<Rightarrow> bigint" where
  "from_u64 v =
     (if v = 0 then big_zero
      else let hi = ucast (drop_bit 32 v) :: 32 word
           in \<lparr>sign = 1, magnitude = (if hi \<noteq> 0 then [ucast v, hi] else [ucast v])\<rparr>)"

text \<open>The loop that pops zero limbs, shared with \<open>lower_256\<close>.\<close>

definition pop_zeros :: "32 word list \<Rightarrow> 32 word list" where
  "pop_zeros ls = rev (dropWhile (\<lambda>l. l = 0) (rev ls))"

definition normalize :: "bigint \<Rightarrow> bigint" where
  "normalize b =
     (let ls = pop_zeros (magnitude b)
      in \<lparr>sign = (if ls = [] then 0 else sign b), magnitude = ls\<rparr>)"

text \<open>\<open>Iterator::cmp\<close>.\<close>

fun lex_cmp :: "32 word list \<Rightarrow> 32 word list \<Rightarrow> cmp_ordering" where
  "lex_cmp [] [] = Equal"
| "lex_cmp [] (y # ys) = Less"
| "lex_cmp (x # xs) [] = Greater"
| "lex_cmp (x # xs) (y # ys) = (if x < y then Less else if y < x then Greater else lex_cmp xs ys)"

definition cmp_abs :: "bigint \<Rightarrow> bigint \<Rightarrow> cmp_ordering" where
  "cmp_abs a b =
     (if length (magnitude a) < length (magnitude b) then Less
      else if length (magnitude b) < length (magnitude a) then Greater
      else lex_cmp (rev (magnitude a)) (rev (magnitude b)))"

definition big_cmp :: "bigint \<Rightarrow> bigint \<Rightarrow> cmp_ordering" where
  "big_cmp a b =
     (if sign a < sign b then Less
      else if sign b < sign a then Greater
      else if sign a < 0 then cmp_abs b a
      else cmp_abs a b)"

section \<open>Addition and subtraction\<close>

text \<open>The loop of \<open>add_abs\<close>: a missing limb counts as zero.\<close>

fun add_limbs :: "32 word list \<Rightarrow> 32 word list \<Rightarrow> 64 word \<Rightarrow> 32 word list" where
  "add_limbs [] [] carry = (if carry \<noteq> 0 then [ucast carry] else [])"
| "add_limbs (l # ls) [] carry =
     (let acc = ucast l + 0 + carry in ucast acc # add_limbs ls [] (drop_bit 32 acc))"
| "add_limbs [] (r # rs) carry =
     (let acc = 0 + ucast r + carry in ucast acc # add_limbs [] rs (drop_bit 32 acc))"
| "add_limbs (l # ls) (r # rs) carry =
     (let acc = ucast l + ucast r + carry in ucast acc # add_limbs ls rs (drop_bit 32 acc))"

definition add_abs :: "32 word list \<Rightarrow> 32 word list \<Rightarrow> 32 word list" where
  "add_abs ls rs = add_limbs ls rs 0"

text \<open>The loop of \<open>sub_abs\<close>; its \<open>i64\<close> values stay between \<open>-2^33\<close> and \<open>2^33\<close>.\<close>

fun sub_limbs :: "32 word list \<Rightarrow> 32 word list \<Rightarrow> int \<Rightarrow> 32 word list" where
  "sub_limbs [] rs borrow = []"
| "sub_limbs (l # ls) rs borrow =
     (let right = (case rs of [] \<Rightarrow> 0 | r # _ \<Rightarrow> uint r);
          v = uint l - right - borrow;
          v' = (if v < 0 then v + 2 ^ 32 else v);
          borrow' = (if v < 0 then 1 else 0)
      in word_of_int v' # sub_limbs ls (tl rs) borrow')"

definition sub_abs :: "32 word list \<Rightarrow> 32 word list \<Rightarrow> 32 word list" where
  "sub_abs ls rs = sub_limbs ls rs 0"

definition big_add :: "bigint \<Rightarrow> bigint \<Rightarrow> bigint" where
  "big_add a b =
     (if sign a = 0 then b
      else if sign b = 0 then a
      else if sign a = sign b
      then normalize \<lparr>sign = sign a, magnitude = add_abs (magnitude a) (magnitude b)\<rparr>
      else case cmp_abs a b of
             Greater \<Rightarrow> normalize \<lparr>sign = sign a, magnitude = sub_abs (magnitude a) (magnitude b)\<rparr>
           | Less \<Rightarrow> normalize \<lparr>sign = sign b, magnitude = sub_abs (magnitude b) (magnitude a)\<rparr>
           | Equal \<Rightarrow> big_zero)"

definition big_neg :: "bigint \<Rightarrow> bigint" where
  "big_neg b = b\<lparr>sign := - sign b\<rparr>"

definition big_sub :: "bigint \<Rightarrow> bigint \<Rightarrow> bigint" where
  "big_sub a b = big_add a (big_neg b)"

definition big_abs :: "bigint \<Rightarrow> bigint" where
  "big_abs b = (if sign b < 0 then b\<lparr>sign := 1\<rparr> else b)"

section \<open>Multiplication\<close>

text \<open>The inner loop of \<open>mul\<close> on the limbs from index \<open>i\<close> on, and the write of the last carry; the
  outer loop moves on to the next index. An index out of range would panic; the lemmas show that the
  lists are long enough.\<close>

fun mul_row :: "32 word list \<Rightarrow> 32 word \<Rightarrow> 32 word list \<Rightarrow> 64 word \<Rightarrow> 32 word list" where
  "mul_row ls a [] carry = (if carry \<noteq> 0 then ls[0 := ucast carry] else ls)"
| "mul_row [] a (b # bs) carry = []"
| "mul_row (l # ls) a (b # bs) carry =
     (let acc = ucast l + ucast a * ucast b + carry in ucast acc # mul_row ls a bs (drop_bit 32 acc))"

fun mul_rows :: "32 word list \<Rightarrow> 32 word list \<Rightarrow> 32 word list \<Rightarrow> 32 word list" where
  "mul_rows ls [] bs = ls"
| "mul_rows ls (a # as) bs = (case mul_row ls a bs 0 of [] \<Rightarrow> [] | l # ls \<Rightarrow> l # mul_rows ls as bs)"

definition big_mul :: "bigint \<Rightarrow> bigint \<Rightarrow> bigint" where
  "big_mul a b =
     (if big_is_zero a \<or> big_is_zero b then big_zero
      else normalize \<lparr>sign = sign a * sign b,
        magnitude = mul_rows (replicate (length (magnitude a) + length (magnitude b)) 0) (magnitude a) (magnitude b)\<rparr>)"

text \<open>The loop of \<open>mul_small\<close> is that of \<open>mul_add_small\<close> in \<open>word.rs\<close>.\<close>

definition mul_small :: "bigint \<Rightarrow> 32 word \<Rightarrow> bigint" where
  "mul_small b rhs =
     (if big_is_zero b \<or> rhs = 0 then big_zero
      else let (ls, carry) = mul_add_limbs (magnitude b) rhs 0
           in normalize \<lparr>sign = sign b, magnitude = (if carry \<noteq> 0 then ls @ [ucast carry] else ls)\<rparr>)"

definition add_small :: "bigint \<Rightarrow> 32 word \<Rightarrow> bigint" where
  "add_small b rhs = big_add b (from_u64 (ucast rhs))"

text \<open>The loop of \<open>div_rem_small\<close> is that of its namesake in \<open>word.rs\<close>.\<close>

definition big_div_rem_small :: "bigint \<Rightarrow> 32 word \<Rightarrow> bigint \<times> 32 word" where
  "big_div_rem_small b rhs =
     (if big_is_zero b then (big_zero, 0)
      else let (ls, r) = div_rem_small (magnitude b) rhs
           in (normalize \<lparr>sign = sign b, magnitude = ls\<rparr>, r))"

section \<open>The reference and the invariant\<close>

definition big_val :: "bigint \<Rightarrow> int" where
  "big_val b = sign b * int (limbs_value (magnitude b))"

definition big_ok :: "bigint \<Rightarrow> bool" where
  "big_ok b \<longleftrightarrow> (sign b = -1 \<or> sign b = 0 \<or> sign b = 1) \<and> (sign b = 0 \<longleftrightarrow> magnitude b = [])
     \<and> (magnitude b \<noteq> [] \<longrightarrow> last (magnitude b) \<noteq> 0)"

named_theorems big_simps

lemma big_zero_ok [simp]: "big_ok big_zero" "big_val big_zero = 0"
  by (simp_all add: big_ok_def big_zero_def big_val_def)

lemma pop_zeros_split: "\<exists>k. ls = pop_zeros ls @ replicate k 0"
proof -
  have "replicate (length (takeWhile (\<lambda>l. l = 0) (rev ls))) 0 = takeWhile (\<lambda>l. l = 0) (rev ls)"
    by (rule replicate_length_same) (auto dest: set_takeWhileD)
  then obtain k where k: "takeWhile (\<lambda>l. l = 0) (rev ls) = replicate k 0" by metis
  have "rev ls = takeWhile (\<lambda>l. l = 0) (rev ls) @ dropWhile (\<lambda>l. l = 0) (rev ls)" by simp
  then have "ls = rev (dropWhile (\<lambda>l. l = 0) (rev ls)) @ rev (replicate k 0)" unfolding k by (metis rev_append rev_rev_ident)
  then show ?thesis by (auto simp: pop_zeros_def)
qed

lemma limbs_value_zeros [simp]: "limbs_value (replicate k 0) = 0"
  by (simp add: limbs_value_zero_iff list_all_iff)

lemma pop_zeros_value [simp]: "limbs_value (pop_zeros ls) = limbs_value ls"
proof -
  obtain k where "ls = pop_zeros ls @ replicate k 0" using pop_zeros_split by blast
  then have "limbs_value ls = limbs_value (pop_zeros ls @ replicate k 0)" by (rule arg_cong)
  then show ?thesis by (simp add: limbs_value_append)
qed

lemma pop_zeros_last: "pop_zeros ls \<noteq> [] \<Longrightarrow> last (pop_zeros ls) \<noteq> 0"
  using hd_dropWhile[of "\<lambda>l. l = 0" "rev ls"] by (simp add: pop_zeros_def last_rev)

lemma last_value: "ls \<noteq> [] \<Longrightarrow> last ls \<noteq> 0 \<Longrightarrow> 2 ^ (32 * (length ls - 1)) \<le> limbs_value ls"
proof -
  assume "ls \<noteq> []" and z: "last ls \<noteq> 0"
  then have "limbs_value ls = limbs_value (butlast ls) + 2 ^ (32 * (length ls - 1)) * unat (last ls)"
    using limbs_value_append[of "butlast ls" "[last ls]"] by simp
  moreover have "1 \<le> unat (last ls)" using z by (simp add: Suc_leI unat_gt_0)
  then have "2 ^ (32 * (length ls - 1)) * 1 \<le> 2 ^ (32 * (length ls - 1)) * unat (last ls)" by (rule mult_le_mono2)
  ultimately show ?thesis by linarith
qed

lemma pop_zeros_Nil: "pop_zeros ls = [] \<longleftrightarrow> limbs_value ls = 0"
proof
  assume "pop_zeros ls = []"
  then show "limbs_value ls = 0" using pop_zeros_value[of ls] by simp
next
  assume z: "limbs_value ls = 0"
  show "pop_zeros ls = []"
  proof (rule ccontr)
    assume ne: "pop_zeros ls \<noteq> []"
    from last_value[OF ne pop_zeros_last[OF ne]] z show False by simp
  qed
qed

lemma normalize_ok:
  assumes "sign b = -1 \<or> sign b = 1"
  shows "big_ok (normalize b)" "big_val (normalize b) = sign b * int (limbs_value (magnitude b))"
  using assms pop_zeros_last[of "magnitude b"] pop_zeros_Nil[of "magnitude b"]
  by (auto simp: normalize_def Let_def big_ok_def big_val_def)

lemma big_ok_pos: "big_ok b \<Longrightarrow> sign b \<noteq> 0 \<Longrightarrow> 0 < limbs_value (magnitude b)"
  using last_value[of "magnitude b"] less_le_trans[OF zero_less_power[of "2 :: nat"]] by (fastforce simp: big_ok_def)

text \<open>The sign is the sign of the value.\<close>

lemma big_sign: "big_ok b \<Longrightarrow> sign b = sgn (big_val b)"
  using big_ok_pos[of b] by (auto simp: big_ok_def big_val_def)

lemma big_is_zero_iff: "big_ok b \<Longrightarrow> big_is_zero b \<longleftrightarrow> big_val b = 0"
  by (simp add: big_is_zero_def big_sign sgn_0_0)

lemma big_magnitude: "big_ok b \<Longrightarrow> int (limbs_value (magnitude b)) = \<bar>big_val b\<bar>"
  by (auto simp: big_ok_def big_val_def)

text \<open>The representation is unique.\<close>

lemma limbs_value_inject: "length xs = length ys \<Longrightarrow> limbs_value xs = limbs_value ys \<Longrightarrow> xs = ys"
proof (induction xs ys rule: list_induct2)
  case (Cons x xs y ys)
  have m: "limbs_value (z # zs) mod 2 ^ 32 = unat z" for z zs using unat_bound[of z] by simp
  have u: "unat x = unat y" using arg_cong[OF Cons.prems, of "\<lambda>v. v mod 2 ^ 32"] unfolding m .
  with Cons.prems have "limbs_value xs = limbs_value ys" by simp
  with Cons.IH u show ?case by (simp add: word_unat_eq_iff)
qed simp

lemma limbs_value_length:
  assumes "xs \<noteq> []" and "last xs \<noteq> 0" and "limbs_value xs \<le> limbs_value ys"
  shows "length xs \<le> length ys"
proof (rule ccontr)
  assume "\<not> length xs \<le> length ys"
  then have "(2 :: nat) ^ (32 * length ys) \<le> 2 ^ (32 * (length xs - 1))" by (intro power_increasing) simp_all
  with last_value[OF assms(1,2)] limbs_value_bound[of ys] assms(3) show False by linarith
qed

lemma big_unique:
  assumes "big_ok a" and "big_ok b" and "big_val a = big_val b"
  shows "a = b"
proof -
  have s: "sign a = sign b" using assms big_sign by simp
  have v: "limbs_value (magnitude a) = limbs_value (magnitude b)" using assms big_magnitude by (metis of_nat_eq_iff)
  have "length (magnitude a) = length (magnitude b)"
  proof (cases "sign a = 0")
    case True
    with s assms show ?thesis by (simp add: big_ok_def)
  next
    case False
    with s assms(1,2) have "magnitude a \<noteq> []" "last (magnitude a) \<noteq> 0" "magnitude b \<noteq> []" "last (magnitude b) \<noteq> 0"
      by (auto simp: big_ok_def)
    with v limbs_value_length[of "magnitude a" "magnitude b"] limbs_value_length[of "magnitude b" "magnitude a"] show ?thesis
      by simp
  qed
  with v have "magnitude a = magnitude b" by (simp add: limbs_value_inject)
  with s show ?thesis by simp
qed

section \<open>Comparison\<close>

definition ord_of :: "'a::linorder \<Rightarrow> 'a \<Rightarrow> cmp_ordering" where
  "ord_of x y = (if x < y then Less else if y < x then Greater else Equal)"

lemma ord_of_simps:
  "ord_of x y = Less \<longleftrightarrow> x < y" "ord_of x y = Greater \<longleftrightarrow> y < x" "ord_of x y = Equal \<longleftrightarrow> x = y"
  by (auto simp: ord_of_def)

lemma ord_of_int: "ord_of (int x) (int y) = ord_of x y"
  by (simp add: ord_of_def)

lemma ord_of_upper:
  fixes l m x y P :: nat
  assumes "x < y" and "l < P"
  shows "l + P * x < m + P * y"
proof -
  have "P * (x + 1) \<le> P * y" using assms(1) by (intro mult_le_mono2) simp
  with assms(2) show ?thesis by simp
qed

lemma lex_cmp_value: "length xs = length ys \<Longrightarrow> lex_cmp xs ys = ord_of (limbs_value (rev xs)) (limbs_value (rev ys))"
proof (induction xs ys rule: list_induct2)
  case (Cons x xs y ys)
  let ?P = "2 ^ (32 * length xs) :: nat"
  have b: "limbs_value (rev xs) < ?P" "limbs_value (rev ys) < ?P"
    using limbs_value_bound[of "rev xs"] limbs_value_bound[of "rev ys"] Cons.hyps by simp_all
  have v: "limbs_value (rev (x # xs)) = limbs_value (rev xs) + ?P * unat x"
    "limbs_value (rev (y # ys)) = limbs_value (rev ys) + ?P * unat y" using Cons.hyps by (simp_all add: limbs_value_append)
  consider "x < y" | "y < x" | "x = y" by fastforce
  then show ?case
  proof cases
    case 1
    then have "limbs_value (rev (x # xs)) < limbs_value (rev (y # ys))"
      unfolding v using b by (intro ord_of_upper) (simp_all add: word_less_nat_alt)
    with 1 show ?thesis by (simp add: ord_of_def del: rev.simps)
  next
    case 2
    then have "limbs_value (rev (y # ys)) < limbs_value (rev (x # xs))"
      unfolding v using b by (intro ord_of_upper) (simp_all add: word_less_nat_alt)
    with 2 show ?thesis by (simp add: ord_of_def del: rev.simps)
  next
    case 3
    then show ?thesis using Cons.IH v unfolding v by (simp add: ord_of_def)
  qed
qed (simp add: ord_of_def)

lemma cmp_abs_value:
  assumes "big_ok a" and "big_ok b"
  shows "cmp_abs a b = ord_of \<bar>big_val a\<bar> \<bar>big_val b\<bar>"
proof -
  let ?a = "magnitude a" and ?b = "magnitude b"
  have longer: "limbs_value xs < limbs_value ys" if "length xs < length ys" "last ys \<noteq> 0" for xs ys :: "32 word list"
    using limbs_value_length[of ys xs] that by fastforce
  have "cmp_abs a b = ord_of (limbs_value ?a) (limbs_value ?b)"
  proof (cases "length ?a" "length ?b" rule: linorder_cases)
    case less
    then have "?b \<noteq> []" by auto
    then have "last ?b \<noteq> 0" using assms(2) by (simp add: big_ok_def)
    with less longer[of ?a ?b] show ?thesis by (simp add: cmp_abs_def ord_of_def)
  next
    case equal
    then show ?thesis by (simp add: cmp_abs_def lex_cmp_value)
  next
    case greater
    then have "?a \<noteq> []" by auto
    then have "last ?a \<noteq> 0" using assms(1) by (simp add: big_ok_def)
    with greater longer[of ?b ?a] show ?thesis by (simp add: cmp_abs_def ord_of_def)
  qed
  also have "\<dots> = ord_of \<bar>big_val a\<bar> \<bar>big_val b\<bar>"
    unfolding big_magnitude[OF assms(1), symmetric] big_magnitude[OF assms(2), symmetric] by (rule ord_of_int[symmetric])
  finally show ?thesis .
qed

lemma big_cmp_value [big_simps]:
  assumes "big_ok a" and "big_ok b"
  shows "big_cmp a b = ord_of (big_val a) (big_val b)"
  using assms by (auto simp: big_cmp_def cmp_abs_value big_sign sgn_if ord_of_def)

section \<open>Addition, subtraction, negation\<close>

lemma split64:
  fixes v :: "64 word"
  shows "unat (ucast v :: 32 word) + 2 ^ 32 * unat (drop_bit 32 v) = unat v" and "unat (drop_bit 32 v) < 2 ^ 32"
proof -
  have d: "unat (drop_bit 32 v) = unat v div 2 ^ 32" by (simp only: unat_drop_bit_eq) (simp add: drop_bit_eq_div)
  have lo: "unat (ucast v :: 32 word) = unat v mod 2 ^ 32" by (simp add: unat_ucast_take)
  show "unat (ucast v :: 32 word) + 2 ^ 32 * unat (drop_bit 32 v) = unat v" unfolding d lo by simp
  have "unat v < 2 ^ 64" using unat_bound[of v] by simp
  then show "unat (drop_bit 32 v) < 2 ^ 32" unfolding d by (simp add: less_mult_imp_div_less)
qed

lemma sum64:
  fixes a b c :: "64 word"
  assumes "unat a < 2 ^ 32" "unat b < 2 ^ 32" "unat c < 2 ^ 32"
  shows "unat (a + b + c) = unat a + unat b + unat c"
  using assms by (simp add: unat_word_ariths)

lemma carry_limb: "unat c < 2 ^ 32 \<Longrightarrow> limbs_value [ucast (c :: 64 word)] = unat c"
  by (simp add: unat_ucast_take)

lemma limb_bound: "unat (ucast (l :: 32 word) :: 64 word) < 2 ^ 32"
  using unat_bound[of l] by simp

lemma add_limbs_value:
  "unat carry < 2 ^ 32 \<Longrightarrow> limbs_value (add_limbs ls rs carry) = limbs_value ls + limbs_value rs + unat carry"
proof (induction ls rs carry rule: add_limbs.induct)
  case (1 carry)
  then show ?case using carry_limb[of carry] by simp
next
  case (2 l ls carry)
  let ?v = "ucast l + 0 + carry :: 64 word"
  have v: "unat ?v = unat l + unat carry" using sum64[of "ucast l" 0 carry] limb_bound[of l] 2(2) by simp
  from 2(1)[OF refl split64(2)] split64(1)[of ?v] v show ?case by (simp add: Let_def algebra_simps)
next
  case (3 r rs carry)
  let ?v = "0 + ucast r + carry :: 64 word"
  have v: "unat ?v = unat r + unat carry" using sum64[of 0 "ucast r" carry] limb_bound[of r] 3(2) by simp
  from 3(1)[OF refl split64(2)] split64(1)[of ?v] v show ?case by (simp add: Let_def algebra_simps)
next
  case (4 l ls r rs carry)
  let ?v = "ucast l + ucast r + carry :: 64 word"
  have v: "unat ?v = unat l + unat r + unat carry" using sum64[OF limb_bound[of l] limb_bound[of r] 4(2)] by simp
  from 4(1)[OF refl split64(2)] split64(1)[of ?v] v show ?case by (simp add: Let_def algebra_simps)
qed

lemma sub_limbs_value:
  "int (limbs_value rs) + borrow \<le> int (limbs_value ls) \<Longrightarrow> borrow = 0 \<or> borrow = 1 \<Longrightarrow>
     int (limbs_value (sub_limbs ls rs borrow)) = int (limbs_value ls) - int (limbs_value rs) - borrow"
proof (induction ls rs borrow rule: sub_limbs.induct)
  case (1 rs borrow)
  then show ?case by auto
next
  case (2 l ls rs borrow)
  define right where "right = (case rs of [] \<Rightarrow> 0 | r # _ \<Rightarrow> uint r)"
  define v where "v = uint l - right - borrow"
  define b' :: int where "b' = (if v < 0 then 1 else 0)"
  define v' where "v' = v + 2 ^ 32 * b'"
  have r: "int (limbs_value rs) = right + 2 ^ 32 * int (limbs_value (tl rs))" "0 \<le> right" "right < 2 ^ 32"
    using uint_lt2p[of "hd rs"] by (cases rs; simp add: right_def)+
  have l: "int (limbs_value (l # ls)) = uint l + 2 ^ 32 * int (limbs_value ls)" "0 \<le> uint l" "uint l < 2 ^ 32"
    using uint_lt2p[of l] by simp_all
  have "0 \<le> borrow" "borrow \<le> 1" using 2(3) by auto
  then have "- (2 ^ 32) \<le> v" "v < 2 ^ 32" unfolding v_def using r(2,3) l(2,3) by linarith+
  then have v': "0 \<le> v'" "v' < 2 ^ 32" by (simp_all add: v'_def b'_def)
  have u: "uint (word_of_int v' :: 32 word) = v'" using v' by (simp add: uint_word_of_int)
  have "int (limbs_value (tl rs)) + b' \<le> int (limbs_value ls)"
  proof (rule ccontr)
    assume "\<not> int (limbs_value (tl rs)) + b' \<le> int (limbs_value ls)"
    then have "2 ^ 32 * (int (limbs_value ls) + 1) \<le> (2 :: int) ^ 32 * (int (limbs_value (tl rs)) + b')"
      by (intro mult_left_mono) simp_all
    with 2(2) r(1) l(1) v'(2) show False unfolding v'_def v_def distrib_left by linarith
  qed
  then have ih: "int (limbs_value (sub_limbs ls (tl rs) b')) = int (limbs_value ls) - int (limbs_value (tl rs)) - b'"
    using 2(1)[OF right_def v_def refl b'_def] by (auto simp: b'_def)
  have "sub_limbs (l # ls) rs borrow = word_of_int v' # sub_limbs ls (tl rs) b'"
    by (simp add: right_def v_def v'_def b'_def Let_def)
  then have "int (limbs_value (sub_limbs (l # ls) rs borrow)) = v' + 2 ^ 32 * int (limbs_value (sub_limbs ls (tl rs) b'))"
    by (simp add: u)
  also have "\<dots> = int (limbs_value (l # ls)) - int (limbs_value rs) - borrow"
    unfolding ih r(1) l(1) v'_def v_def by (simp add: algebra_simps)
  finally show ?case .
qed

lemma big_neg_ok [big_simps]:
  assumes "big_ok b"
  shows "big_ok (big_neg b)" "big_val (big_neg b) = - big_val b"
  using assms by (auto simp: big_neg_def big_ok_def big_val_def)

lemma big_abs_ok [big_simps]:
  assumes "big_ok b"
  shows "big_ok (big_abs b)" "big_val (big_abs b) = \<bar>big_val b\<bar>"
  using assms by (auto simp: big_abs_def big_ok_def big_val_def)

lemma big_add_ok [big_simps]:
  assumes a: "big_ok a" and b: "big_ok b"
  shows "big_ok (big_add a b)" "big_val (big_add a b) = big_val a + big_val b"
proof -
  let ?a = "magnitude a" and ?b = "magnitude b"
  have sub: "int (limbs_value (sub_abs ls rs)) = int (limbs_value ls) - int (limbs_value rs)"
    if "limbs_value rs \<le> limbs_value ls" for ls rs
    using sub_limbs_value[of rs 0 ls] that by (simp add: sub_abs_def)
  have add: "limbs_value (add_abs ?a ?b) = limbs_value ?a + limbs_value ?b"
    using add_limbs_value[of 0 ?a ?b] by (simp add: add_abs_def)
  have s: "sign a = -1 \<or> sign a = 0 \<or> sign a = 1" "sign b = -1 \<or> sign b = 0 \<or> sign b = 1"
    using a b unfolding big_ok_def by blast+
  have z: "sign a = 0 \<Longrightarrow> big_val a = 0" "sign b = 0 \<Longrightarrow> big_val b = 0" by (simp_all add: big_val_def)
  have cmp: "cmp_abs a b = ord_of (limbs_value ?a) (limbs_value ?b)"
    unfolding cmp_abs_value[OF a b] big_magnitude[OF a, symmetric] big_magnitude[OF b, symmetric] by (rule ord_of_int)
  have "big_ok (big_add a b) \<and> big_val (big_add a b) = big_val a + big_val b"
  proof (cases "sign a = 0 \<or> sign b = 0")
    case True
    with a b z show ?thesis by (auto simp: big_add_def)
  next
    case False
    then have n: "sign a = -1 \<or> sign a = 1" "sign b = -1 \<or> sign b = 1" using s by auto
    show ?thesis
    proof (cases "sign a = sign b")
      case True
      with False n(1) normalize_ok[of "\<lparr>sign = sign a, magnitude = add_abs ?a ?b\<rparr>"] add show ?thesis
        by (simp add: big_add_def big_val_def algebra_simps)
    next
      case opposite: False
      then have o: "sign b = - sign a" using n by auto
      show ?thesis
      proof (cases "limbs_value ?a" "limbs_value ?b" rule: linorder_cases)
        case less
        then have "cmp_abs a b = Less" using cmp by (simp add: ord_of_def)
        with less False opposite o n normalize_ok[of "\<lparr>sign = sign b, magnitude = sub_abs ?b ?a\<rparr>"] sub[of ?a ?b] show ?thesis
          by (simp add: big_add_def big_val_def algebra_simps)
      next
        case equal
        then have "cmp_abs a b = Equal" using cmp by (simp add: ord_of_def)
        moreover have "big_val b = - big_val a" using equal o by (simp add: big_val_def)
        ultimately show ?thesis using False opposite by (simp add: big_add_def)
      next
        case greater
        then have "cmp_abs a b = Greater" using cmp by (simp add: ord_of_def)
        with greater False opposite o n normalize_ok[of "\<lparr>sign = sign a, magnitude = sub_abs ?a ?b\<rparr>"] sub[of ?b ?a] show ?thesis
          by (simp add: big_add_def big_val_def algebra_simps)
      qed
    qed
  qed
  then show "big_ok (big_add a b)" "big_val (big_add a b) = big_val a + big_val b" by simp_all
qed

lemma big_sub_ok [big_simps]:
  assumes "big_ok a" and "big_ok b"
  shows "big_ok (big_sub a b)" "big_val (big_sub a b) = big_val a - big_val b"
  using assms by (simp_all add: big_sub_def big_simps)

section \<open>Multiplication and small operands\<close>

lemma mul_step64:
  fixes l a b :: "32 word" and c :: "64 word"
  assumes "unat c < 2 ^ 32"
  shows "unat (ucast l + ucast a * ucast b + c :: 64 word) = unat l + unat a * unat b + unat c"
proof -
  have "unat a * unat b \<le> (2 ^ 32 - 1) * (2 ^ 32 - 1)"
    by (rule mult_le_mono) (use unat_bound[of a] unat_bound[of b] in simp_all)
  with assms unat_bound[of l] show ?thesis by (simp add: unat_word_ariths)
qed

text \<open>One row: nothing behind the written limbs changes.\<close>

lemma mul_row_value:
  "unat c < 2 ^ 32 \<Longrightarrow> length bs < length ls \<Longrightarrow> ls ! length bs = 0 \<Longrightarrow>
     limbs_value (mul_row ls a bs c) = limbs_value ls + unat a * limbs_value bs + unat c
     \<and> length (mul_row ls a bs c) = length ls \<and> drop (Suc (length bs)) (mul_row ls a bs c) = drop (Suc (length bs)) ls"
proof (induction ls a bs c rule: mul_row.induct)
  case (1 ls a c)
  then obtain rest where "ls = 0 # rest" by (cases ls) auto
  with 1(1) carry_limb[of c] show ?case by (cases "c = 0") auto
next
  case (3 l ls a b bs c)
  define v where "v = (ucast l + ucast a * ucast b + c :: 64 word)"
  from 3(1)[OF v_def split64(2)] 3(3,4) have ih:
    "limbs_value (mul_row ls a bs (drop_bit 32 v)) = limbs_value ls + unat a * limbs_value bs + unat (drop_bit 32 v)"
    "length (mul_row ls a bs (drop_bit 32 v)) = length ls"
    "drop (Suc (length bs)) (mul_row ls a bs (drop_bit 32 v)) = drop (Suc (length bs)) ls" by simp_all
  have row: "mul_row (l # ls) a (b # bs) c = ucast v # mul_row ls a bs (drop_bit 32 v)" by (simp add: v_def Let_def)
  have "limbs_value (mul_row (l # ls) a (b # bs) c) =
      unat (ucast v :: 32 word) + 2 ^ 32 * unat (drop_bit 32 v) + 2 ^ 32 * (limbs_value ls + unat a * limbs_value bs)"
    unfolding row limbs_value.simps ih(1) by (simp only: distrib_left distrib_right ac_simps)
  also have "\<dots> = limbs_value (l # ls) + unat a * limbs_value (b # bs) + unat c"
    unfolding split64(1) v_def mul_step64[OF 3(2)] by (simp add: algebra_simps)
  finally show ?case using ih(2,3) unfolding row by simp
qed simp

lemma mul_rows_value:
  "length ls = length as + length bs \<Longrightarrow> list_all (\<lambda>l. l = 0) (drop (length bs) ls) \<Longrightarrow>
     limbs_value (mul_rows ls as bs) = limbs_value ls + limbs_value as * limbs_value bs"
proof (induction as arbitrary: ls)
  case (Cons a as)
  have len: "length bs < length ls" using Cons.prems(1) by simp
  have "drop (length bs) ls = ls ! length bs # drop (Suc (length bs)) ls" by (rule Cons_nth_drop_Suc[OF len, symmetric])
  then have z: "ls ! length bs = 0" "list_all (\<lambda>l. l = 0) (drop (Suc (length bs)) ls)" using Cons.prems(2) by simp_all
  from mul_row_value[OF _ len z(1), of 0 a] have r: "limbs_value (mul_row ls a bs 0) = limbs_value ls + unat a * limbs_value bs"
    "length (mul_row ls a bs 0) = length ls" "drop (Suc (length bs)) (mul_row ls a bs 0) = drop (Suc (length bs)) ls" by simp_all
  obtain l rest where row: "mul_row ls a bs 0 = l # rest" using r(2) len by (cases "mul_row ls a bs 0") auto
  have "limbs_value (mul_rows rest as bs) = limbs_value rest + limbs_value as * limbs_value bs"
    by (rule Cons.IH) (use r(2,3) row Cons.prems(1) z(2) in simp_all)
  with r(1) row show ?case by (simp add: algebra_simps)
qed simp

lemma big_mul_ok [big_simps]:
  assumes a: "big_ok a" and b: "big_ok b"
  shows "big_ok (big_mul a b)" "big_val (big_mul a b) = big_val a * big_val b"
proof -
  have "big_ok (big_mul a b) \<and> big_val (big_mul a b) = big_val a * big_val b"
  proof (cases "big_is_zero a \<or> big_is_zero b")
    case True
    then show ?thesis by (auto simp: big_mul_def big_is_zero_iff[OF a] big_is_zero_iff[OF b])
  next
    case False
    then have n: "sign a = -1 \<or> sign a = 1" "sign b = -1 \<or> sign b = 1" using a b by (auto simp: big_is_zero_def big_ok_def)
    let ?ls = "replicate (length (magnitude a) + length (magnitude b)) (0 :: 32 word)"
    have "limbs_value (mul_rows ?ls (magnitude a) (magnitude b)) = limbs_value (magnitude a) * limbs_value (magnitude b)"
      by (subst mul_rows_value) (simp_all add: list_all_iff)
    moreover have "sign a * sign b = -1 \<or> sign a * sign b = 1" using n by auto
    ultimately show ?thesis
      using False normalize_ok[of "\<lparr>sign = sign a * sign b, magnitude = mul_rows ?ls (magnitude a) (magnitude b)\<rparr>"]
      by (simp add: big_mul_def big_val_def)
  qed
  then show "big_ok (big_mul a b)" "big_val (big_mul a b) = big_val a * big_val b" by simp_all
qed

lemma from_u64_ok [big_simps]: "big_ok (from_u64 v)" "big_val (from_u64 v) = uint v"
proof -
  have h: "unat (ucast (drop_bit 32 v) :: 32 word) = unat (drop_bit 32 v)" using split64(2)[of v] by (simp add: unat_ucast_take)
  let ?hi = "ucast (drop_bit 32 v) :: 32 word"
  have e: "limbs_value [ucast v, ?hi] = unat v" using split64(1)[of v] h by simp
  have "big_ok (from_u64 v) \<and> big_val (from_u64 v) = int (unat v)"
  proof (cases "v = 0")
    case v: False
    show ?thesis
    proof (cases "?hi = 0")
      case True
      then have u: "unat (ucast v :: 32 word) = unat v" using e by simp
      then have "(ucast v :: 32 word) \<noteq> 0" using v by (metis unat_eq_zero unsigned_0)
      with True v u show ?thesis by (simp add: from_u64_def big_ok_def big_val_def del: of_nat_unat)
    next
      case False
      with v e show ?thesis by (simp add: from_u64_def big_ok_def big_val_def del: limbs_value.simps of_nat_unat)
    qed
  qed (simp add: from_u64_def)
  then have "big_ok (from_u64 v) \<and> big_val (from_u64 v) = uint v" by (simp only: uint_nat)
  then show "big_ok (from_u64 v)" "big_val (from_u64 v) = uint v" by simp_all
qed

lemma mul_small_ok [big_simps]:
  assumes b: "big_ok b"
  shows "big_ok (mul_small b r)" "big_val (mul_small b r) = big_val b * uint r"
proof -
  have "big_ok (mul_small b r) \<and> big_val (mul_small b r) = big_val b * uint r"
  proof (cases "big_is_zero b \<or> r = 0")
    case True
    then show ?thesis by (auto simp: mul_small_def big_is_zero_iff[OF b])
  next
    case False
    then have n: "sign b = -1 \<or> sign b = 1" using b by (auto simp: big_is_zero_def big_ok_def)
    obtain ls c where m: "mul_add_limbs (magnitude b) r 0 = (ls, c)" by (cases "mul_add_limbs (magnitude b) r 0")
    from mul_add_limbs_value[OF _ m] have v: "limbs_value ls + 2 ^ (32 * length (magnitude b)) * unat c = limbs_value (magnitude b) * unat r"
      "unat c < 2 ^ 32" "length ls = length (magnitude b)" by simp_all
    let ?ls = "if c \<noteq> 0 then ls @ [ucast c] else ls"
    have e: "limbs_value ?ls = limbs_value (magnitude b) * unat r"
      using v carry_limb[OF v(2)] by (auto simp: limbs_value_append)
    have d: "mul_small b r = normalize \<lparr>sign = sign b, magnitude = ?ls\<rparr>" using False m by (simp add: mul_small_def)
    have "big_val (mul_small b r) = sign b * int (limbs_value (magnitude b) * unat r)"
      unfolding d using normalize_ok(2)[of "\<lparr>sign = sign b, magnitude = ?ls\<rparr>"] n by (simp only: e bigint.simps)
    moreover have "big_ok (mul_small b r)"
      unfolding d by (rule normalize_ok(1)) (use n in simp)
    ultimately show ?thesis by (simp only: big_val_def uint_nat of_nat_mult ac_simps)
  qed
  then show "big_ok (mul_small b r)" "big_val (mul_small b r) = big_val b * uint r" by simp_all
qed

lemma add_small_ok [big_simps]:
  assumes "big_ok b"
  shows "big_ok (add_small b r)" "big_val (add_small b r) = big_val b + uint r"
proof -
  have "uint (ucast r :: 64 word) = uint r" using unat_ucast_32_64[of r] by (simp only: uint_nat)
  with assms show "big_ok (add_small b r)" "big_val (add_small b r) = big_val b + uint r"
    by (simp_all add: add_small_def big_simps)
qed

lemma big_div_rem_small_ok:
  assumes b: "big_ok b" "0 \<le> big_val b" and r: "r \<noteq> 0"
  shows "big_ok (fst (big_div_rem_small b r))" "big_val (fst (big_div_rem_small b r)) = big_val b div uint r"
    "uint (snd (big_div_rem_small b r)) = big_val b mod uint r"
proof -
  have "big_ok (fst (big_div_rem_small b r)) \<and> big_val (fst (big_div_rem_small b r)) = big_val b div uint r
    \<and> uint (snd (big_div_rem_small b r)) = big_val b mod uint r"
  proof (cases "big_is_zero b")
    case True
    then show ?thesis by (simp add: big_div_rem_small_def big_is_zero_iff[OF b(1)])
  next
    case False
    then have s: "sign b = 1" using b by (simp add: big_is_zero_def big_sign sgn_if split: if_splits)
    then have v: "big_val b = int (limbs_value (magnitude b))" by (simp add: big_val_def)
    obtain ls q where d: "div_rem_small (magnitude b) r = (ls, q)" by (cases "div_rem_small (magnitude b) r")
    have e: "limbs_value ls = limbs_value (magnitude b) div unat r" "unat q = limbs_value (magnitude b) mod unat r"
      using div_rem_small_value(1,2)[OF r, of "magnitude b"] by (simp_all add: d)
    have f: "big_div_rem_small b r = (normalize \<lparr>sign = 1, magnitude = ls\<rparr>, q)" using False d s by (simp add: big_div_rem_small_def)
    have "big_val (normalize \<lparr>sign = 1, magnitude = ls\<rparr>) = int (limbs_value (magnitude b) div unat r)"
      using normalize_ok(2)[of "\<lparr>sign = 1, magnitude = ls\<rparr>"] by (simp only: e bigint.simps) simp
    then have "big_val (fst (big_div_rem_small b r)) = big_val b div uint r" by (simp only: f fst_conv v zdiv_int uint_nat)
    moreover have "uint (snd (big_div_rem_small b r)) = big_val b mod uint r" by (simp only: f snd_conv v zmod_int uint_nat e)
    moreover have "big_ok (fst (big_div_rem_small b r))" unfolding f fst_conv by (rule normalize_ok(1)) simp
    ultimately show ?thesis by blast
  qed
  then show "big_ok (fst (big_div_rem_small b r))" "big_val (fst (big_div_rem_small b r)) = big_val b div uint r"
    "uint (snd (big_div_rem_small b r)) = big_val b mod uint r" by simp_all
qed

end
