(* ===== verification/Big_Text.thy ===== *)
theory Big_Text
  imports Big_Int
begin

text \<open>
  Decimal and hexadecimal text of big integers, and bytes
  (\<open>crates/specialize/src/evaluate/value.rs\<close>). The parsers compute the number that the digits
  denote, the printer writes the usual decimal numeral, and parsing the printed text gives the number
  back.
\<close>

section \<open>Text\<close>

text \<open>The loop over the digits, shared by the two parsers.\<close>

fun parse_digits :: "nat \<Rightarrow> bigint \<Rightarrow> string \<Rightarrow> bigint option" where
  "parse_digits radix b [] = Some b"
| "parse_digits radix b (ch # chs) =
     (case to_digit radix ch of
        None \<Rightarrow> None
      | Some d \<Rightarrow> parse_digits radix (add_small (mul_small b (of_nat radix)) (of_nat d)) chs)"

definition strip_minus :: "string \<Rightarrow> bool \<times> string" where
  "strip_minus s = (case strip_prefix ''-'' s of None \<Rightarrow> (False, s) | Some rest \<Rightarrow> (True, rest))"

definition with_sign :: "bool \<Rightarrow> bigint \<Rightarrow> bigint" where
  "with_sign negative b = (if negative \<and> \<not> big_is_zero b then b\<lparr>sign := -1\<rparr> else b)"

definition from_decimal_str :: "string \<Rightarrow> bigint option" where
  "from_decimal_str s =
     (let (negative, digits) = strip_minus s
      in if digits = [] then None
         else map_option (with_sign negative) (parse_digits 10 big_zero digits))"

definition from_hex_str :: "string \<Rightarrow> bigint option" where
  "from_hex_str s =
     (let (negative, s) = strip_minus s;
          digits = (case hex_digits s of Some d \<Rightarrow> d | None \<Rightarrow> s)
      in if digits = [] then None
         else map_option (with_sign negative) (parse_digits 16 big_zero digits))"

definition from_be_bytes :: "8 word list \<Rightarrow> bigint" where
  "from_be_bytes bytes = fold (\<lambda>byte b. add_small (mul_small b 256) (ucast byte)) bytes big_zero"

text \<open>The chunks of nine digits, least significant first, that \<open>to_decimal_string\<close> collects. Each
  round divides the value, so the loop stops.\<close>

definition parts_left :: "bigint \<Rightarrow> nat" where
  "parts_left b = limbs_value (magnitude b) + (if big_is_zero b then 0 else 1)"

lemma parts_decrease:
  assumes "\<not> big_is_zero b"
  shows "parts_left (fst (big_div_rem_small b 1000000000)) < parts_left b"
proof -
  obtain ls r where d: "div_rem_small (magnitude b) 1000000000 = (ls, r)" by (cases "div_rem_small (magnitude b) 1000000000")
  have "(1000000000 :: 32 word) \<noteq> 0" by simp
  from div_rem_small_value(1)[OF this, of "magnitude b"] have v: "limbs_value ls = limbs_value (magnitude b) div 1000000000"
    by (simp add: d)
  have "parts_left (normalize \<lparr>sign = sign b, magnitude = ls\<rparr>) \<le> limbs_value (magnitude b)"
    using v pop_zeros_Nil[of ls] by (auto simp: parts_left_def normalize_def Let_def big_is_zero_def)
  with assms d show ?thesis by (simp add: big_div_rem_small_def parts_left_def)
qed

function decimal_parts :: "bigint \<Rightarrow> 32 word list" where
  "decimal_parts b =
     (if big_is_zero b then []
      else let (q, r) = big_div_rem_small b 1000000000 in r # decimal_parts q)"
  by pat_completeness auto
termination
proof (relation "measure parts_left")
  fix b x q r
  assume "\<not> big_is_zero b" "x = big_div_rem_small b 1000000000" "(q, r) = x"
  with parts_decrease[of b] show "(q, b) \<in> measure parts_left" by (metis fst_conv in_measure)
qed simp

declare decimal_parts.simps [simp del]

text \<open>\<open>{part:09}\<close>.\<close>

definition pad9 :: "32 word \<Rightarrow> string" where
  "pad9 part = (let s = show_nat (unat part) in replicate (9 - length s) (CHR ''0'') @ s)"

definition big_to_decimal_string :: "bigint \<Rightarrow> string" where
  "big_to_decimal_string b =
     (if big_is_zero b then ''0''
      else let parts = decimal_parts (big_abs b);
               out = (if sign b < 0 then ''-'' else [])
           in if parts = [] then out
              else out @ show_nat (unat (last parts)) @ concat (map pad9 (rev (butlast parts))))"

section \<open>Parsing computes the denoted number\<close>

definition signed_digits :: "nat \<Rightarrow> bool \<times> string \<Rightarrow> int option" where
  "signed_digits radix = (\<lambda>(negative, digits).
     if digits \<noteq> [] \<and> list_all (\<lambda>c. to_digit radix c \<noteq> None) digits
     then Some ((if negative then -1 else 1) * int (digits_value radix digits)) else None)"

definition hex_body :: "bool \<times> string \<Rightarrow> bool \<times> string" where
  "hex_body = (\<lambda>(negative, s). (negative, case hex_digits s of Some d \<Rightarrow> d | None \<Rightarrow> s))"

lemma uint_of_nat_small: "n < 2 ^ 32 \<Longrightarrow> uint (of_nat n :: 32 word) = int n"
  by (simp add: unsigned_of_nat take_bit_eq_mod)

lemma push_digit_value:
  assumes "big_ok b" and "big_val b = int v" and "radix \<le> 16" and "to_digit radix c = Some d"
  shows "big_ok (add_small (mul_small b (of_nat radix)) (of_nat d))"
    "big_val (add_small (mul_small b (of_nat radix)) (of_nat d)) = int (v * radix + digit_val radix c)"
  using assms to_digit_less[OF assms(4)]
  by (simp_all add: big_simps uint_of_nat_small digit_val_def)

lemma parse_digits_value:
  assumes "big_ok b" and "big_val b = int v" and "radix \<le> 16"
  shows "case parse_digits radix b s of
           None \<Rightarrow> \<not> list_all (\<lambda>c. to_digit radix c \<noteq> None) s
         | Some b' \<Rightarrow> list_all (\<lambda>c. to_digit radix c \<noteq> None) s \<and> big_ok b'
             \<and> big_val b' = int (foldl (\<lambda>v c. v * radix + digit_val radix c) v s)"
  using assms
proof (induction s arbitrary: b v)
  case (Cons c s)
  show ?case
  proof (cases "to_digit radix c")
    case (Some d)
    from Cons.IH[OF push_digit_value[OF Cons.prems Some] Cons.prems(3)] Some show ?thesis
      by (simp split: option.splits)
  qed simp
qed simp

lemma with_sign_ok:
  assumes "big_ok b" and "0 \<le> big_val b"
  shows "big_ok (with_sign negative b)" "big_val (with_sign negative b) = (if negative then -1 else 1) * big_val b"
proof -
  have "sign b = 0 \<or> sign b = 1" using assms by (auto simp: big_sign sgn_if)
  with assms show "big_ok (with_sign negative b)" "big_val (with_sign negative b) = (if negative then -1 else 1) * big_val b"
    by (auto simp: with_sign_def big_is_zero_def big_ok_def big_val_def)
qed

lemma parse_signed:
  assumes "radix \<le> 16"
  shows "map_option big_val (if digits = [] then None else map_option (with_sign negative) (parse_digits radix big_zero digits))
      = signed_digits radix (negative, digits)"
    and "(if digits = [] then None else map_option (with_sign negative) (parse_digits radix big_zero digits)) = Some b \<Longrightarrow> big_ok b"
  using parse_digits_value[of big_zero 0 radix digits] assms
  by (auto simp: signed_digits_def digits_value_def with_sign_ok split: option.splits if_splits)

lemma from_decimal_str_ok:
  "map_option big_val (from_decimal_str s) = signed_digits 10 (strip_minus s)"
  "from_decimal_str s = Some b \<Longrightarrow> big_ok b"
  using parse_signed[of 10] by (auto simp: from_decimal_str_def split: prod.splits)

lemma from_hex_str_ok:
  "map_option big_val (from_hex_str s) = signed_digits 16 (hex_body (strip_minus s))"
  "from_hex_str s = Some b \<Longrightarrow> big_ok b"
  using parse_signed[of 16] by (auto simp: from_hex_str_def hex_body_def Let_def split: prod.splits)

section \<open>Printing\<close>

text \<open>The last \<open>k\<close> digits of a number, with leading zeros.\<close>

fun fixed_digits :: "nat \<Rightarrow> nat \<Rightarrow> string" where
  "fixed_digits 0 n = []"
| "fixed_digits (Suc k) n = fixed_digits k (n div 10) @ [digit_char (n mod 10)]"

lemma show_nat_split: "10 ^ k \<le> n \<Longrightarrow> show_nat n = show_nat (n div 10 ^ k) @ fixed_digits k (n mod 10 ^ k)"
proof (induction k arbitrary: n)
  case (Suc k)
  have "10 \<le> n" using Suc.prems by (metis le_trans power_Suc one_le_power one_le_numeral mult.right_neutral mult_le_mono2)
  then have "show_nat n = show_nat (n div 10) @ [digit_char (n mod 10)]" by (subst show_nat.simps) simp
  moreover have "10 ^ k \<le> n div 10" using Suc.prems by (simp add: less_eq_div_iff_mult_less_eq mult.commute)
  moreover have "n mod 10 ^ Suc k = 10 * (n div 10 mod 10 ^ k) + n mod 10" by (simp add: mod_mult2_eq)
  moreover have "n div 10 div 10 ^ k = n div 10 ^ Suc k" by (simp add: div_mult2_eq)
  ultimately show ?case using Suc.IH[of "n div 10"] by simp
qed simp

lemma show_nat_small: "n < 10 \<Longrightarrow> show_nat n = [digit_char n]"
  by (subst show_nat.simps) simp

lemma pad_fixed:
  "n < 10 ^ Suc k \<Longrightarrow> replicate (Suc k - length (show_nat n)) (CHR ''0'') @ show_nat n = fixed_digits (Suc k) n
     \<and> length (show_nat n) \<le> Suc k"
proof (induction k arbitrary: n)
  case 0
  then show ?case by (simp add: show_nat_small)
next
  case (Suc k)
  have "n div 10 < 10 ^ Suc k" using Suc.prems by (simp add: less_mult_imp_div_less mult.commute)
  note ih = Suc.IH[OF this]
  show ?case
  proof (cases "n < 10")
    case True
    have "replicate k (CHR ''0'') @ [CHR ''0''] = fixed_digits (Suc k) 0"
      using Suc.IH[of 0] by (simp add: show_nat_small digit_char_0)
    with True show ?thesis by (simp add: show_nat_small replicate_append_same)
  next
    case False
    then have "show_nat n = show_nat (n div 10) @ [digit_char (n mod 10)]" by (subst show_nat.simps) simp
    with ih show ?thesis by (simp del: replicate.simps)
  qed
qed

lemma pad9_fixed: "unat part < 1000000000 \<Longrightarrow> pad9 part = fixed_digits 9 (unat part)"
  using pad_fixed[of "unat part" 8] by (simp add: pad9_def Let_def del: fixed_digits.simps)

definition join_parts :: "32 word list \<Rightarrow> string" where
  "join_parts parts = show_nat (unat (last parts)) @ concat (map pad9 (rev (butlast parts)))"

lemma decimal_parts_value:
  "big_ok b \<Longrightarrow> 0 < big_val b \<Longrightarrow> decimal_parts b \<noteq> [] \<and> join_parts (decimal_parts b) = show_nat (nat (big_val b))"
proof (induction b rule: decimal_parts.induct)
  case (1 b)
  obtain q r where d: "big_div_rem_small b 1000000000 = (q, r)" by (cases "big_div_rem_small b 1000000000")
  have z: "\<not> big_is_zero b" using 1(2,3) by (simp add: big_is_zero_iff)
  define n where "n = nat (big_val b)"
  have bv: "big_val b = int n" using 1(3) by (simp add: n_def)
  have q: "big_ok q" "big_val q = int (n div 1000000000)" "unat r = n mod 1000000000"
    using big_div_rem_small_ok[of b 1000000000] 1(2) by (simp_all add: d bv zdiv_int zmod_int unat_eq_nat_uint nat_mod_distrib)
  have s: "decimal_parts b = r # decimal_parts q" using z d by (subst decimal_parts.simps) simp
  show ?case
  proof (cases "n < 1000000000")
    case True
    then have "decimal_parts q = []" using q(1,2) by (subst decimal_parts.simps) (simp add: big_is_zero_iff)
    with s q(3) True show ?thesis by (simp add: join_parts_def n_def[symmetric])
  next
    case False
    then have "0 < n div 1000000000" by (simp add: div_greater_zero_iff)
    then have "decimal_parts q \<noteq> []" "join_parts (decimal_parts q) = show_nat (n div 1000000000)"
      using 1(1)[OF z d[symmetric] refl q(1)] q(2) by simp_all
    moreover have "pad9 r = fixed_digits 9 (n mod 10 ^ 9)" using pad9_fixed[of r] q(3) by simp
    ultimately show ?thesis
      using show_nat_split[of 9 n] False s by (simp add: join_parts_def n_def[symmetric])
  qed
qed

lemma big_to_decimal_string_value:
  assumes "big_ok b"
  shows "big_to_decimal_string b = (if big_val b < 0 then ''-'' else []) @ show_nat (nat \<bar>big_val b\<bar>)"
proof (cases "big_val b = 0")
  case True
  with assms show ?thesis by (simp add: big_to_decimal_string_def big_is_zero_iff show_nat_small digit_char_0)
next
  case False
  with assms decimal_parts_value[of "big_abs b"] show ?thesis
    by (simp add: big_to_decimal_string_def big_is_zero_iff big_simps join_parts_def big_sign Let_def sgn_if)
qed

lemma show_nat_parses: "signed_digits 10 (negative, show_nat n) = Some ((if negative then -1 else 1) * int n)"
  using show_nat_digits[of _ n] by (auto simp: signed_digits_def show_nat_nonempty digits_value_show_nat list_all_iff to_digit_decimal)

lemma minus_not_digit: "hd (show_nat n) \<noteq> CHR ''-''"
  using show_nat_digits[OF hd_in_set[OF show_nat_nonempty], of n] by (auto simp: is_ascii_digit_def ch_code_def)

lemma strip_minus_printed:
  "strip_minus ((if x < 0 then ''-'' else []) @ show_nat (nat \<bar>x\<bar>)) = (x < 0, show_nat (nat \<bar>x\<bar>))" for x :: int
proof (cases "x < 0")
  case False
  obtain c cs where s: "show_nat (nat \<bar>x\<bar>) = c # cs" using show_nat_nonempty by (cases "show_nat (nat \<bar>x\<bar>)") auto
  then have "c \<noteq> CHR ''-''" using minus_not_digit[of "nat \<bar>x\<bar>"] by simp
  with False s show ?thesis by (simp add: strip_minus_def)
qed (simp add: strip_minus_def)

text \<open>C26. Printing a number in decimal and parsing the text gives the same representation back, for
  every number that satisfies the invariant of the representation.\<close>

theorem decimal_round_trip:
  assumes "big_ok b"
  shows "from_decimal_str (big_to_decimal_string b) = Some b"
proof -
  let ?s = "big_to_decimal_string b"
  have "map_option big_val (from_decimal_str ?s) = Some (big_val b)"
    unfolding from_decimal_str_ok big_to_decimal_string_value[OF assms] strip_minus_printed show_nat_parses by simp
  then obtain b' where b': "from_decimal_str ?s = Some b'" "big_val b' = big_val b" by auto
  with from_decimal_str_ok(2) big_unique assms show ?thesis by metis
qed

theorem decimal_round_trip_witness:
  "from_decimal_str (big_to_decimal_string \<lparr>sign = -1, magnitude = [7, 1]\<rparr>) = Some \<lparr>sign = -1, magnitude = [7, 1]\<rparr>"
  by (rule decimal_round_trip) (simp add: big_ok_def)

section \<open>Bytes\<close>

definition be_value :: "8 word list \<Rightarrow> nat" where
  "be_value bytes = foldl (\<lambda>v byte. v * 256 + unat byte) 0 bytes"

lemma be_value_snoc [simp]: "be_value [] = 0" "be_value (bytes @ [byte]) = be_value bytes * 256 + unat byte"
  by (simp_all add: be_value_def)

lemma from_be_bytes_ok: "big_ok (from_be_bytes bytes) \<and> big_val (from_be_bytes bytes) = int (be_value bytes)"
proof (induction bytes rule: rev_induct)
  case (snoc byte bytes)
  have "uint (ucast byte :: 32 word) = int (unat byte)"
    using unat_bound[of byte] by (simp add: unat_ucast_take uint_nat del: of_nat_unat)
  with snoc show ?case by (simp add: from_be_bytes_def big_simps)
qed (simp add: from_be_bytes_def)

lemma be_value_bit:
  "bit (be_value bytes) n \<longleftrightarrow> n < 8 * length bytes \<and> bit (bytes ! (length bytes - 1 - n div 8)) (n mod 8)"
proof (induction bytes arbitrary: n rule: rev_induct)
  case (snoc byte bytes)
  have "be_value bytes * 256 + unat byte = push_bit 8 (be_value bytes) OR unat byte"
  proof -
    have "push_bit 8 (be_value bytes) AND unat byte = 0"
      by (rule bit_eqI) (auto simp: bit_simps dest: bit_imp_le_length)
    then show ?thesis by (simp add: disjunctive_add_eq_or[symmetric] push_bit_eq_mult)
  qed
  then have "bit (be_value (bytes @ [byte])) n \<longleftrightarrow> bit (push_bit 8 (be_value bytes)) n \<or> bit byte n"
    by (simp add: bit_simps)
  also have "\<dots> \<longleftrightarrow> (if n < 8 then bit byte n else bit (be_value bytes) (n - 8))"
    by (auto simp: bit_simps dest: bit_imp_le_length)
  also have "\<dots> \<longleftrightarrow> n < 8 * length (bytes @ [byte])
      \<and> bit ((bytes @ [byte]) ! (length (bytes @ [byte]) - 1 - n div 8)) (n mod 8)"
  proof (cases "n < 8")
    case False
    then obtain m where "n = m + 8" by (metis le_add_diff_inverse2 not_less)
    moreover have "(m + 8) div 8 = Suc (m div 8)" by simp
    ultimately show ?thesis by (auto simp: snoc nth_append)
  qed (simp add: nth_append)
  finally show ?case .
qed simp

end
