(* ===== verification/Big_Bits.thy ===== *)
theory Big_Bits
  imports Big_Int
begin

text \<open>
  The rest of \<open>crates/specialize/src/evaluate/value.rs\<close> on single numbers: reduction
  modulo \<open>2^256\<close>, bytes, shifts, single bits, long division bit by bit, and the
  conversion to an index.
\<close>

section \<open>Reduction to a word\<close>

definition two_pow_256 :: bigint where
  "two_pow_256 = \<lparr>sign = 1, magnitude = replicate 8 0 @ [1]\<rparr>"

definition lower_256 :: "bigint \<Rightarrow> bigint" where
  "lower_256 b =
     (let ls = pop_zeros (take 8 (magnitude b))
      in if ls = [] then big_zero else \<lparr>sign = 1, magnitude = ls\<rparr>)"

definition mod_word :: "bigint \<Rightarrow> bigint" where
  "mod_word b =
     (if 0 \<le> sign b then lower_256 b
      else let r = lower_256 (big_abs b)
           in if big_is_zero r then big_zero else big_sub two_pow_256 r)"

definition word_limbs :: "bigint \<Rightarrow> 32 word list" where
  "word_limbs b =
     (let ls = take 8 (magnitude (mod_word b)) in ls @ replicate (8 - length ls) 0)"

definition from_word_limbs :: "32 word list \<Rightarrow> bigint" where
  "from_word_limbs ls = normalize \<lparr>sign = 1, magnitude = ls\<rparr>"

definition to_word_be_bytes :: "bigint \<Rightarrow> 8 word list" where
  "to_word_be_bytes b =
     (let ls = word_limbs b
      in map (\<lambda>i. ucast (drop_bit (8 * (3 - i mod 4)) (ls ! (7 - i div 4)) AND 255)) [0..<32])"

section \<open>Shifts and bits\<close>

text \<open>The loop of \<open>shl_bits\<close>, with the write of the last carry.\<close>

fun shl_limbs :: "32 word list \<Rightarrow> nat \<Rightarrow> 64 word \<Rightarrow> 32 word list" where
  "shl_limbs [] n carry = (if carry \<noteq> 0 then [ucast carry] else [])"
| "shl_limbs (l # ls) n carry =
     (let v = push_bit n (ucast l) OR carry in ucast v # shl_limbs ls n (drop_bit 32 v))"

definition shl_bits :: "bigint \<Rightarrow> nat \<Rightarrow> bigint" where
  "shl_bits b n =
     (if big_is_zero b then big_zero
      else normalize \<lparr>sign = sign b, magnitude = replicate (n div 32) 0 @ shl_limbs (magnitude b) (n mod 32) 0\<rparr>)"

text \<open>The loop of \<open>shr_bits\<close>, from the most significant limb on; the carry is the limb above.\<close>

fun shr_limbs :: "32 word list \<Rightarrow> nat \<Rightarrow> 32 word \<Rightarrow> 32 word list" where
  "shr_limbs [] n carry = []"
| "shr_limbs (l # ls) n carry =
     (if n = 0 then l else drop_bit n l OR push_bit (32 - n) carry) # shr_limbs ls n l"

definition shr_bits :: "bigint \<Rightarrow> nat \<Rightarrow> bigint" where
  "shr_bits b n =
     (if big_is_zero b then big_zero
      else if length (magnitude b) \<le> n div 32 then big_zero
      else normalize \<lparr>sign = sign b,
        magnitude = rev (shr_limbs (rev (drop (n div 32) (magnitude b))) (n mod 32) 0)\<rparr>)"

definition leading_zeros :: "32 word \<Rightarrow> nat" where
  "leading_zeros l = length (takeWhile (\<lambda>i. \<not> bit l i) (rev [0..<32]))"

definition bit_len :: "bigint \<Rightarrow> nat" where
  "bit_len b =
     (if magnitude b = [] then 0
      else 32 * (length (magnitude b) - 1) + (32 - leading_zeros (last (magnitude b))))"

definition big_bit :: "bigint \<Rightarrow> nat \<Rightarrow> bool" where
  "big_bit b i =
     (if i div 32 < length (magnitude b)
      then (magnitude b ! (i div 32)) AND push_bit (i mod 32) 1 \<noteq> 0 else False)"

definition big_set_bit :: "bigint \<Rightarrow> nat \<Rightarrow> bigint" where
  "big_set_bit b i =
     (let limb = i div 32;
          ls = (if length (magnitude b) \<le> limb
                then magnitude b @ replicate (limb + 1 - length (magnitude b)) 0 else magnitude b)
      in \<lparr>sign = (if sign b = 0 then 1 else sign b),
          magnitude = ls[limb := (ls ! limb) OR push_bit (i mod 32) 1]\<rparr>)"

section \<open>Division\<close>

text \<open>One bit of the long division.\<close>

definition div_step :: "bigint \<Rightarrow> bigint \<Rightarrow> nat \<Rightarrow> bigint \<times> bigint \<Rightarrow> bigint \<times> bigint" where
  "div_step a rhs i = (\<lambda>(q, r).
     let r = shl_bits r 1;
         r = (if big_bit a i then add_small r 1 else r)
     in if big_cmp r rhs \<noteq> Less then (big_set_bit q i, big_sub r rhs) else (q, r))"

definition div_rem_nonnegative :: "bigint \<Rightarrow> bigint \<Rightarrow> (bigint \<times> bigint) option" where
  "div_rem_nonnegative a rhs =
     (if sign a < 0 \<or> sign rhs \<le> 0 then None
      else if big_cmp a rhs = Less then Some (big_zero, a)
      else Some (fold (div_step a rhs) (rev [0..<bit_len a]) (big_zero, big_zero)))"

section \<open>Indices\<close>

text \<open>The loop of \<open>to_usize_limit\<close>, on a machine with 64-bit indices; \<open>index\<close> counts the limbs.\<close>

fun usize_limbs :: "nat \<Rightarrow> 64 word \<Rightarrow> nat \<Rightarrow> 32 word list \<Rightarrow> nat option" where
  "usize_limbs limit out index [] = Some (unat out)"
| "usize_limbs limit out index (l # ls) =
     (if 2 \<le> index then None
      else let out = out OR push_bit (32 * index) (ucast l)
           in if limit < unat out then None else usize_limbs limit out (index + 1) ls)"

definition to_usize_limit :: "bigint \<Rightarrow> nat \<Rightarrow> nat option" where
  "to_usize_limit b limit = (if sign b < 0 then None else usize_limbs limit 0 0 (magnitude b))"

section \<open>Words of a number\<close>

lemma limbs_value_less: "length ls \<le> k \<Longrightarrow> limbs_value ls < 2 ^ (32 * k)"
  by (rule less_le_trans[OF limbs_value_bound]) (simp add: power_increasing)

lemma limbs_value_take: "limbs_value (take k ls) = limbs_value ls mod 2 ^ (32 * k)"
proof (cases "k \<le> length ls")
  case True
  have "limbs_value ls = limbs_value (take k ls @ drop k ls)" by simp
  also have "\<dots> = limbs_value (take k ls) + 2 ^ (32 * k) * limbs_value (drop k ls)"
    using True by (simp only: limbs_value_append length_take min_absorb2)
  finally show ?thesis using limbs_value_bound[of "take k ls"] True by simp
next
  case False
  with limbs_value_less[of ls k] show ?thesis by simp
qed

lemma limbs_value_drop: "limbs_value (drop k ls) = limbs_value ls div 2 ^ (32 * k)"
proof (cases "k \<le> length ls")
  case True
  have "limbs_value ls = limbs_value (take k ls @ drop k ls)" by simp
  also have "\<dots> = limbs_value (take k ls) + 2 ^ (32 * k) * limbs_value (drop k ls)"
    using True by (simp only: limbs_value_append length_take min_absorb2)
  finally show ?thesis using limbs_value_bound[of "take k ls"] True by simp
next
  case False
  with limbs_value_less[of ls k] show ?thesis by simp
qed

lemma word_modulus_limbs: "word_modulus = 2 ^ (32 * 8)" "0 < word_modulus"
  by (simp_all add: word_modulus_def)

lemma two_pow_256_ok [big_simps]: "big_ok two_pow_256" "big_val two_pow_256 = int word_modulus"
  by (simp_all add: two_pow_256_def big_ok_def big_val_def limbs_value_append word_modulus_def)

lemma lower_256_ok: "big_ok (lower_256 b)" "big_val (lower_256 b) = int (limbs_value (magnitude b) mod word_modulus)"
proof -
  let ?ls = "pop_zeros (take 8 (magnitude b))"
  have v: "limbs_value ?ls = limbs_value (magnitude b) mod word_modulus"
    by (simp add: limbs_value_take word_modulus_limbs)
  show "big_ok (lower_256 b)" using pop_zeros_last by (simp add: lower_256_def Let_def big_ok_def big_zero_def)
  show "big_val (lower_256 b) = int (limbs_value (magnitude b) mod word_modulus)"
  proof (cases "?ls = []")
    case True
    then have "limbs_value ?ls = 0" by (simp only: limbs_value.simps)
    with True v show ?thesis by (simp add: lower_256_def)
  next
    case False
    then show ?thesis by (simp only: lower_256_def Let_def if_False big_val_def bigint.simps v mult_1)
  qed
qed

lemma mod_word_ok [big_simps]:
  assumes b: "big_ok b"
  shows "big_ok (mod_word b)" "big_val (mod_word b) = big_val b mod int word_modulus"
proof -
  have "big_ok (mod_word b) \<and> big_val (mod_word b) = big_val b mod int word_modulus"
  proof (cases "0 \<le> sign b")
    case True
    then have "big_val b = int (limbs_value (magnitude b))" using b by (auto simp: big_ok_def big_val_def)
    with True show ?thesis by (simp add: mod_word_def lower_256_ok zmod_int)
  next
    case False
    then have s: "sign b = -1" using b by (auto simp: big_ok_def)
    define m where "m = int (limbs_value (magnitude b))"
    have v: "big_val b = - m" using s by (simp add: big_val_def m_def)
    have l: "big_ok (lower_256 (big_abs b))" "big_val (lower_256 (big_abs b)) = m mod int word_modulus"
      using s by (simp_all add: lower_256_ok big_abs_def zmod_int m_def)
    with False show ?thesis
      by (simp add: mod_word_def Let_def big_is_zero_iff big_simps v zmod_zminus1_eq_if)
  qed
  then show "big_ok (mod_word b)" "big_val (mod_word b) = big_val b mod int word_modulus" by simp_all
qed

lemma mod_word_range: "big_ok b \<Longrightarrow> 0 \<le> big_val (mod_word b)" "big_ok b \<Longrightarrow> big_val (mod_word b) < int word_modulus"
  using word_modulus_limbs(2) by (simp_all add: big_simps)

lemma magnitude_length:
  assumes "big_ok b" and "\<bar>big_val b\<bar> < 2 ^ (32 * k)"
  shows "length (magnitude b) \<le> k"
proof (rule ccontr)
  assume n: "\<not> length (magnitude b) \<le> k"
  then have "magnitude b \<noteq> []" by auto
  with assms(1) have "2 ^ (32 * (length (magnitude b) - 1)) \<le> limbs_value (magnitude b)"
    by (intro last_value) (simp_all add: big_ok_def)
  moreover have "(2 :: nat) ^ (32 * k) \<le> 2 ^ (32 * (length (magnitude b) - 1))" using n by (intro power_increasing) simp_all
  ultimately have "2 ^ (32 * k) \<le> limbs_value (magnitude b)" by linarith
  then have "(2 :: int) ^ (32 * k) \<le> \<bar>big_val b\<bar>" unfolding big_magnitude[OF assms(1), symmetric] by (metis of_nat_le_iff of_nat_numeral of_nat_power)
  with assms(2) show False by simp
qed

lemma word_limbs_value:
  assumes b: "big_ok b"
  shows "length (word_limbs b) = 8" "int (limbs_value (word_limbs b)) = big_val b mod int word_modulus"
proof -
  have "length (magnitude (mod_word b)) \<le> 8"
    by (rule magnitude_length) (use mod_word_range[OF b] in \<open>simp_all add: mod_word_ok b word_modulus_limbs(1)\<close>)
  moreover have "int (limbs_value (magnitude (mod_word b))) = big_val b mod int word_modulus"
    using mod_word_range(1)[OF b] by (simp add: big_magnitude mod_word_ok b)
  ultimately show "length (word_limbs b) = 8" "int (limbs_value (word_limbs b)) = big_val b mod int word_modulus"
    by (simp_all add: word_limbs_def Let_def limbs_value_append)
qed

lemma from_word_limbs_ok [big_simps]: "big_ok (from_word_limbs ls)" "big_val (from_word_limbs ls) = int (limbs_value ls)"
  using normalize_ok[of "\<lparr>sign = 1, magnitude = ls\<rparr>"] by (simp_all add: from_word_limbs_def)

section \<open>Bits of a number\<close>

lemma limb_or: "unat (l :: 32 word) + 2 ^ 32 * v = unat l OR push_bit 32 v"
proof -
  have "unat l AND push_bit 32 v = 0" by (rule bit_eqI) (auto simp: bit_simps dest: bit_imp_le_length)
  then show ?thesis by (simp add: disjunctive_add_eq_or[symmetric] push_bit_eq_mult mult.commute)
qed

lemma limbs_value_bit: "bit (limbs_value ls) n \<longleftrightarrow> n < 32 * length ls \<and> bit (ls ! (n div 32)) (n mod 32)"
proof (induction ls arbitrary: n)
  case (Cons l ls)
  have e: "bit (limbs_value (l # ls)) n \<longleftrightarrow> (if n < 32 then bit l n else bit (limbs_value ls) (n - 32))" for n
    unfolding limbs_value.simps limb_or by (auto simp: bit_simps dest: bit_imp_le_length)
  show ?case
  proof (cases "n < 32")
    case False
    then obtain m where n: "n = m + 32" by (metis le_add_diff_inverse2 not_less)
    have "(m + 32) div 32 = Suc (m div 32)" by simp
    with e[of n] show ?thesis unfolding n by (simp add: Cons.IH del: limbs_value.simps)
  qed (simp add: e del: limbs_value.simps)
qed simp

lemma big_bit_value: "big_bit b i \<longleftrightarrow> bit (limbs_value (magnitude b)) i"
  by (simp only: big_bit_def limbs_value_bit) (simp add: bit_iff_and_push_bit_not_eq_0 div_less_iff_less_mult mult.commute)

lemma leading_zeros_bound: "unat (l :: 32 word) < 2 ^ (32 - leading_zeros l)"
proof -
  let ?z = "takeWhile (\<lambda>i. \<not> bit l i) (rev [0..<32])"
  have z: "leading_zeros l = length ?z" by (simp add: leading_zeros_def)
  have len: "leading_zeros l \<le> 32" unfolding z using length_takeWhile_le[of "\<lambda>i. \<not> bit l i" "rev [0..<32]"] by simp
  have "\<not> bit l i" if "32 - leading_zeros l \<le> i" for i
  proof (cases "i < 32")
    case True
    with that len have k: "31 - i < length ?z" unfolding z by linarith
    have "\<not> bit l (?z ! (31 - i))" by (rule conjunct2[OF set_takeWhileD[OF nth_mem[OF k]]])
    with True show ?thesis unfolding takeWhile_nth[OF k] by (simp add: rev_nth)
  qed (use bit_imp_le_length[of l i] in auto)
  then have "take_bit (32 - leading_zeros l) l = l" by (intro bit_eqI) (metis bit_take_bit_iff not_le)
  then have "unat l = take_bit (32 - leading_zeros l) (unat l)" by (metis unsigned_take_bit_eq)
  then show ?thesis by (metis take_bit_nat_less_exp)
qed

lemma bit_len_bound: "limbs_value (magnitude b) < 2 ^ bit_len b"
proof (cases "magnitude b = []")
  case False
  let ?ls = "magnitude b" and ?P = "2 ^ (32 * (length (magnitude b) - 1)) :: nat"
  have "limbs_value ?ls = limbs_value (butlast ?ls) + ?P * unat (last ?ls)"
    using False limbs_value_append[of "butlast ?ls" "[last ?ls]"] by simp
  moreover have "limbs_value (butlast ?ls) < ?P" using limbs_value_bound[of "butlast ?ls"] by simp
  moreover have "?P * (unat (last ?ls) + 1) \<le> ?P * 2 ^ (32 - leading_zeros (last ?ls))"
    by (intro mult_le_mono2) (use leading_zeros_bound[of "last ?ls"] in simp)
  ultimately show ?thesis using False by (simp add: bit_len_def power_add)
qed (simp add: bit_len_def)

section \<open>Shifts\<close>

lemma shl_step:
  fixes l :: "32 word" and c :: "64 word"
  assumes n: "n < 32" and c: "unat c < 2 ^ n"
  shows "unat (push_bit n (ucast l) OR c :: 64 word) = unat l * 2 ^ n + unat c"
    "unat (drop_bit 32 (push_bit n (ucast l) OR c :: 64 word)) < 2 ^ n"
proof -
  have cb: "\<not> bit c i" if "n \<le> i" for i
  proof
    assume "bit c i"
    then have "bit (unat c) i" by (simp add: bit_simps)
    moreover have "unat c = take_bit n (unat c)" using c by (simp add: take_bit_nat_eq_self)
    ultimately show False using that by (metis bit_take_bit_iff not_le)
  qed
  have lb: "unat l < 2 ^ 32" using unat_bound[of l] by simp
  have "unat l * 2 ^ n < 2 ^ 32 * 2 ^ n" using lb by (intro mult_strict_right_mono) simp_all
  also have "\<dots> \<le> (2 :: nat) ^ 32 * 2 ^ 31" using n by (intro mult_le_mono2 power_increasing) simp_all
  finally have lt: "unat l * 2 ^ n < 2 ^ 63" by simp
  have p: "unat (push_bit n (ucast l) :: 64 word) = unat l * 2 ^ n"
  proof -
    have "unat (push_bit n (ucast l) :: 64 word) = take_bit 64 (push_bit n (unat l))" by (simp add: unsigned_push_bit_eq)
    also have "\<dots> = unat l * 2 ^ n" using lt by (simp add: push_bit_eq_mult take_bit_nat_eq_self)
    finally show ?thesis .
  qed
  have "push_bit n (ucast l) AND c = 0" by (rule bit_eqI) (use cb in \<open>auto simp: bit_simps\<close>)
  then have o: "push_bit n (ucast l) OR c = push_bit n (ucast l) + c" by (simp add: disjunctive_add_eq_or)
  have "unat c < 2 ^ 31" using c n power_strict_increasing_iff[of 2 n 32] power_increasing[of n 31 "2 :: nat"] by simp
  then have "unat l * 2 ^ n + unat c < 2 ^ 64" using lt by simp
  then show u: "unat (push_bit n (ucast l) OR c :: 64 word) = unat l * 2 ^ n + unat c"
    unfolding o by (simp add: unat_word_ariths p)
  have "(unat l + 1) * 2 ^ n \<le> 2 ^ 32 * 2 ^ n" using lb by (intro mult_le_mono1) simp
  then have "unat l * 2 ^ n + unat c < 2 ^ n * 2 ^ 32"
    using c unfolding distrib_right mult_1 mult.commute[of "2 ^ n" "2 ^ 32"] by linarith
  then have "(unat l * 2 ^ n + unat c) div 2 ^ 32 < 2 ^ n" by (rule less_mult_imp_div_less)
  then show "unat (drop_bit 32 (push_bit n (ucast l) OR c :: 64 word)) < 2 ^ n"
    by (simp only: unat_drop_bit_eq u) (simp only: drop_bit_eq_div)
qed

lemma shl_limbs_value:
  "n < 32 \<Longrightarrow> unat c < 2 ^ n \<Longrightarrow> limbs_value (shl_limbs ls n c) = limbs_value ls * 2 ^ n + unat c"
proof (induction ls n c rule: shl_limbs.induct)
  case (1 n c)
  have "(2 :: nat) ^ n < 2 ^ 32" using 1(1) by (rule power_strict_increasing) simp
  with 1(2) carry_limb[of c] show ?case by (cases "c = 0") auto
next
  case (2 l ls n c)
  define v where "v = push_bit n (ucast l) OR c"
  from 2(1)[OF v_def 2(2)] shl_step(2)[OF 2(2,3), of l]
  have ih: "limbs_value (shl_limbs ls n (drop_bit 32 v)) = limbs_value ls * 2 ^ n + unat (drop_bit 32 v)" by (simp add: v_def)
  have "limbs_value (shl_limbs (l # ls) n c) = unat (ucast v :: 32 word) + 2 ^ 32 * unat (drop_bit 32 v) + 2 ^ 32 * (limbs_value ls * 2 ^ n)"
    by (simp add: Let_def ih flip: v_def)
  also have "\<dots> = limbs_value (l # ls) * 2 ^ n + unat c"
    unfolding split64(1) v_def shl_step(1)[OF 2(2,3)] by (simp add: algebra_simps)
  finally show ?case .
qed

lemma shl_bits_ok [big_simps]:
  assumes b: "big_ok b"
  shows "big_ok (shl_bits b n)" "big_val (shl_bits b n) = big_val b * 2 ^ n"
proof -
  have "big_ok (shl_bits b n) \<and> big_val (shl_bits b n) = big_val b * 2 ^ n"
  proof (cases "big_is_zero b")
    case True
    then show ?thesis by (simp add: shl_bits_def big_is_zero_iff[OF b])
  next
    case False
    then have s: "sign b = -1 \<or> sign b = 1" using b by (auto simp: big_is_zero_def big_ok_def)
    let ?ls = "replicate (n div 32) 0 @ shl_limbs (magnitude b) (n mod 32) 0"
    have "limbs_value ?ls = 2 ^ (32 * (n div 32)) * (limbs_value (magnitude b) * 2 ^ (n mod 32))"
      by (simp add: limbs_value_append shl_limbs_value)
    also have "\<dots> = limbs_value (magnitude b) * 2 ^ (32 * (n div 32) + n mod 32)" by (simp only: power_add ac_simps)
    also have "32 * (n div 32) + n mod 32 = n" by simp
    finally have v: "limbs_value ?ls = limbs_value (magnitude b) * 2 ^ n" .
    have "big_val (normalize \<lparr>sign = sign b, magnitude = ?ls\<rparr>) = big_val b * 2 ^ n"
      using normalize_ok(2)[of "\<lparr>sign = sign b, magnitude = ?ls\<rparr>"] s by (simp add: v big_val_def del: One_nat_def)
    with False s normalize_ok(1)[of "\<lparr>sign = sign b, magnitude = ?ls\<rparr>"] show ?thesis by (simp add: shl_bits_def)
  qed
  then show "big_ok (shl_bits b n)" "big_val (shl_bits b n) = big_val b * 2 ^ n" by simp_all
qed

text \<open>One limb of the right shift: the low bits come from the limb above.\<close>

lemma shr_step:
  fixes l c :: "32 word"
  assumes "n < 32"
  shows "unat (if n = 0 then l else drop_bit n l OR push_bit (32 - n) c) = (unat l + 2 ^ 32 * unat c) div 2 ^ n mod 2 ^ 32"
proof -
  have "unat (if n = 0 then l else drop_bit n l OR push_bit (32 - n) c) = take_bit 32 (drop_bit n (unat l OR push_bit 32 (unat c)))"
  proof (rule bit_eqI)
    fix i
    show "bit (unat (if n = 0 then l else drop_bit n l OR push_bit (32 - n) c)) i
        \<longleftrightarrow> bit (take_bit 32 (drop_bit n (unat l OR push_bit 32 (unat c)))) i"
      using assms bit_imp_le_length[of l "n + i"] bit_imp_le_length[of l i]
      by (auto simp: bit_simps le_diff_conv add.commute)
  qed
  then show ?thesis by (simp only: limb_or take_bit_eq_mod drop_bit_eq_div)
qed

lemma shift_limbs:
  fixes v l c P n :: nat
  assumes "n \<le> 32" and "v < P"
  shows "(v + P * l) div 2 ^ n mod P + P * ((l + 2 ^ 32 * c) div 2 ^ n mod 2 ^ 32)
    = (v + P * l + P * 2 ^ 32 * c) div 2 ^ n mod (P * 2 ^ 32)"
proof -
  let ?A = "v + P * l + P * 2 ^ 32 * c"
  have e: "(2 :: nat) ^ 32 = 2 ^ (32 - n) * 2 ^ n" using assms(1) by (simp flip: power_add)
  have a: "?A = v + P * l + (P * 2 ^ (32 - n) * c) * 2 ^ n" by (simp only: e ac_simps)
  have "?A div 2 ^ n = P * 2 ^ (32 - n) * c + (v + P * l) div 2 ^ n" unfolding a by (rule div_mult_self1) simp
  then have "?A div 2 ^ n = (v + P * l) div 2 ^ n + P * (2 ^ (32 - n) * c)" by (simp only: mult.assoc add.commute)
  then have lo: "?A div 2 ^ n mod P = (v + P * l) div 2 ^ n mod P" by simp
  have "v + P * l + P * 2 ^ 32 * c = v + P * (l + 2 ^ 32 * c)" by (simp add: algebra_simps)
  then have "?A div P = (v + P * (l + 2 ^ 32 * c)) div P" by (simp only:)
  also have "\<dots> = l + 2 ^ 32 * c" using assms(2) by simp
  finally have "?A div P = l + 2 ^ 32 * c" .
  then have hi: "?A div 2 ^ n div P = (l + 2 ^ 32 * c) div 2 ^ n"
    by (metis div_mult2_eq mult.commute)
  show ?thesis unfolding mod_mult2_eq lo hi by simp
qed

lemma shr_limbs_value:
  assumes "n < 32"
  shows "limbs_value (rev (shr_limbs ls n c)) = (limbs_value (rev ls) + 2 ^ (32 * length ls) * unat c) div 2 ^ n mod 2 ^ (32 * length ls)
     \<and> length (shr_limbs ls n c) = length ls"
proof (induction ls arbitrary: c)
  case (Cons l ls)
  let ?P = "2 ^ (32 * length ls) :: nat"
  have "limbs_value (rev (shr_limbs (l # ls) n c))
      = (limbs_value (rev ls) + ?P * unat l) div 2 ^ n mod ?P + ?P * ((unat l + 2 ^ 32 * unat c) div 2 ^ n mod 2 ^ 32)"
    using Cons.IH[of l] shr_step[OF assms, of l c] by (simp add: limbs_value_append del: if_split)
  also have "\<dots> = (limbs_value (rev ls) + ?P * unat l + ?P * 2 ^ 32 * unat c) div 2 ^ n mod (?P * 2 ^ 32)"
    by (rule shift_limbs) (use assms limbs_value_bound[of "rev ls"] in simp_all)
  finally show ?case using Cons.IH[of l] by (simp add: limbs_value_append power_add mult.commute add.assoc)
qed simp

lemma shr_bits_ok:
  assumes b: "big_ok b" "0 \<le> big_val b"
  shows "big_ok (shr_bits b n)" "big_val (shr_bits b n) = big_val b div 2 ^ n"
proof -
  let ?m = "magnitude b" and ?k = "n div 32" and ?r = "n mod 32"
  have split: "x div 2 ^ n = x div 2 ^ (32 * ?k) div 2 ^ ?r" for x :: nat
    unfolding div_mult2_eq[symmetric] power_add[symmetric] by simp
  have "big_ok (shr_bits b n) \<and> big_val (shr_bits b n) = big_val b div 2 ^ n"
  proof (cases "big_is_zero b")
    case True
    then show ?thesis by (simp add: shr_bits_def big_is_zero_iff[OF b(1)])
  next
    case False
    then have s: "sign b = 1" using b by (simp add: big_is_zero_def big_sign sgn_if split: if_splits)
    then have v: "big_val b = int (limbs_value ?m)" by (simp add: big_val_def)
    have d: "big_val b div 2 ^ n = int (limbs_value ?m div 2 ^ (32 * ?k) div 2 ^ ?r)"
      by (simp add: v zdiv_int flip: split)
    show ?thesis
    proof (cases "length ?m \<le> ?k")
      case True
      then have "limbs_value ?m div 2 ^ (32 * ?k) = 0" by (simp add: limbs_value_less)
      with True False d show ?thesis by (simp add: shr_bits_def)
    next
      case long: False
      let ?d = "drop ?k ?m" and ?ls = "rev (shr_limbs (rev (drop ?k ?m)) ?r 0)"
      have "limbs_value ?d div 2 ^ ?r < 2 ^ (32 * length ?d)"
        by (rule le_less_trans[OF div_le_dividend limbs_value_bound])
      then have "limbs_value ?ls = limbs_value ?d div 2 ^ ?r"
        using shr_limbs_value[of ?r "rev ?d" 0] by simp
      then have "int (limbs_value ?ls) = big_val b div 2 ^ n" unfolding d limbs_value_drop by simp
      with False long s normalize_ok[of "\<lparr>sign = 1, magnitude = ?ls\<rparr>"] show ?thesis by (simp add: shr_bits_def)
    qed
  qed
  then show "big_ok (shr_bits b n)" "big_val (shr_bits b n) = big_val b div 2 ^ n" by simp_all
qed

section \<open>Long division\<close>

lemma big_set_bit_ok:
  assumes b: "big_ok b" "0 \<le> big_val b" and new: "\<not> bit (limbs_value (magnitude b)) i"
  shows "big_ok (big_set_bit b i)" "big_val (big_set_bit b i) = big_val b + 2 ^ i"
proof -
  let ?m = "magnitude b" and ?k = "i div 32"
  define ls where "ls = (if length ?m \<le> ?k then ?m @ replicate (?k + 1 - length ?m) 0 else ?m)"
  define out where "out = ls[?k := (ls ! ?k) OR push_bit (i mod 32) 1]"
  have s: "sign b = 0 \<or> sign b = 1" using b by (auto simp: big_sign sgn_if)
  have d: "big_set_bit b i = \<lparr>sign = 1, magnitude = out\<rparr>" using s by (auto simp: big_set_bit_def ls_def out_def Let_def)
  have k: "?k < length ls" by (simp add: ls_def)
  have v: "limbs_value ls = limbs_value ?m" by (simp add: ls_def limbs_value_append)
  have "bit (push_bit (i mod 32) 1 :: 32 word) (i mod 32)" by (simp add: bit_simps)
  then have set: "bit (ls ! ?k OR push_bit (i mod 32) 1) (i mod 32)" by (simp add: bit_or_iff)
  have "limbs_value out = limbs_value ls OR push_bit i 1"
  proof (rule bit_eqI)
    fix n
    have "n = i \<longleftrightarrow> n div 32 = ?k \<and> n mod 32 = i mod 32" by (metis div_mod_decomp)
    then show "bit (limbs_value out) n \<longleftrightarrow> bit (limbs_value ls OR push_bit i 1) n"
      using k by (auto simp: bit_or_iff limbs_value_bit out_def nth_list_update bit_simps div_less_iff_less_mult mult.commute)
  qed
  moreover have "limbs_value ls AND push_bit i 1 = 0" by (rule bit_eqI) (use new v in \<open>auto simp: bit_simps\<close>)
  ultimately have o: "limbs_value out = limbs_value ?m + 2 ^ i" by (simp add: disjunctive_add_eq_or[symmetric] v push_bit_eq_mult)
  have ne: "out \<noteq> []" using k by (auto simp: out_def)
  have "last out \<noteq> 0"
  proof (cases "?k = length ls - 1")
    case True
    then have "last out = ls ! ?k OR push_bit (i mod 32) 1" using k ne by (simp add: last_conv_nth out_def)
    with set show ?thesis by (metis bit_0_eq bot_apply bot_bool_def)
  next
    case False
    then have ls: "ls = ?m" using k by (auto simp: ls_def split: if_splits)
    then have m: "?m \<noteq> []" using k by auto
    with False ls have "last out = last ?m" by (simp add: last_conv_nth out_def)
    with b(1) m show ?thesis by (simp add: big_ok_def)
  qed
  with ne show "big_ok (big_set_bit b i)" unfolding d by (simp add: big_ok_def)
  show "big_val (big_set_bit b i) = big_val b + 2 ^ i"
    unfolding d using o b by (simp add: big_val_def[of "\<lparr>sign = 1, magnitude = out\<rparr>"] big_magnitude)
qed

text \<open>The loop invariant: before bit \<open>i\<close> the state holds quotient and remainder of the bits above it.\<close>

definition div_inv :: "nat \<Rightarrow> nat \<Rightarrow> nat \<Rightarrow> bigint \<times> bigint \<Rightarrow> bool" where
  "div_inv A R i = (\<lambda>(q, r). big_ok q \<and> big_ok r \<and> big_val q = int (2 ^ i * (A div 2 ^ i div R))
     \<and> big_val r = int (A div 2 ^ i mod R))"

lemma div_digit:
  fixes N R b :: nat
  assumes "0 < R" and "b \<le> 1"
  defines "t \<equiv> 2 * (N mod R) + b"
  shows "(2 * N + b) div R = 2 * (N div R) + (if R \<le> t then 1 else 0)"
    "(2 * N + b) mod R = (if R \<le> t then t - R else t)"
proof -
  have "N mod R < R" using assms(1) by simp
  then have t: "t < 2 * R" using assms(2) by (simp add: t_def)
  have "2 * (x * R + y) + b = 2 * y + b + 2 * x * R" for x y :: nat by (simp add: algebra_simps)
  from this[of "N div R" "N mod R"] have N: "2 * N + b = t + 2 * (N div R) * R" by (simp only: div_mult_mod_eq t_def)
  have "t div R = (if R \<le> t then 1 else 0)" using t by (auto intro: div_nat_eqI)
  with assms(1) show "(2 * N + b) div R = 2 * (N div R) + (if R \<le> t then 1 else 0)" unfolding N by simp
  have "t mod R = (if R \<le> t then t - R else t)" using t by (auto simp: le_mod_geq)
  then show "(2 * N + b) mod R = (if R \<le> t then t - R else t)" unfolding N by simp
qed

lemma div_step_inv:
  assumes a: "magnitude a = ls" "limbs_value ls = A" and rhs: "big_ok rhs" "big_val rhs = int R" "0 < R"
    and inv: "div_inv A R (Suc i) (q, r)"
  shows "div_inv A R i (div_step a rhs i (q, r))"
proof -
  define N where "N = A div 2 ^ Suc i"
  define b where "b = (if bit A i then 1 else 0 :: nat)"
  define t where "t = 2 * (N mod R) + b"
  have q: "big_ok q" "big_val q = int (2 ^ Suc i * (N div R))" and r: "big_ok r" "big_val r = int (N mod R)"
    using inv by (simp_all add: div_inv_def N_def)
  have "A div 2 ^ i = 2 * (A div 2 ^ i div 2) + A div 2 ^ i mod 2" by simp
  also have "A div 2 ^ i mod 2 = b" by (auto simp: b_def bit_iff_odd odd_iff_mod_2_eq_one)
  also have "A div 2 ^ i div 2 = N" by (simp only: N_def power_Suc2 div_mult2_eq)
  finally have A: "A div 2 ^ i = 2 * N + b" .
  note digit = div_digit[OF rhs(3), of b N, folded t_def]
  have b1: "b \<le> 1" by (simp add: b_def)
  define r' where "r' = (if big_bit a i then add_small (shl_bits r 1) 1 else shl_bits r 1)"
  have r': "big_ok r'" "big_val r' = int t"
    using r a by (auto simp: r'_def big_simps big_bit_value t_def b_def)
  have step: "div_step a rhs i (q, r) = (if big_cmp r' rhs \<noteq> Less then (big_set_bit q i, big_sub r' rhs) else (q, r'))"
    by (simp add: div_step_def r'_def Let_def)
  have c: "big_cmp r' rhs \<noteq> Less \<longleftrightarrow> R \<le> t" by (auto simp: big_cmp_value r' rhs ord_of_simps)
  show ?thesis
  proof (cases "R \<le> t")
    case True
    have "int (limbs_value (magnitude q)) = int (2 ^ Suc i * (N div R))" unfolding big_magnitude[OF q(1)] q(2) by (rule abs_of_nat)
    then have "limbs_value (magnitude q) = 2 ^ Suc i * (N div R)" by (simp only: of_nat_eq_iff)
    then have "\<not> bit (limbs_value (magnitude q)) i" by (simp add: bit_iff_odd mult.assoc)
    from big_set_bit_ok[OF q(1) _ this] q(2) have "big_ok (big_set_bit q i)"
      "big_val (big_set_bit q i) = int (2 ^ i * (2 * (N div R) + 1))" by (simp_all add: algebra_simps)
    moreover have "big_ok (big_sub r' rhs)" "big_val (big_sub r' rhs) = int (t - R)"
      using r' rhs True by (simp_all add: big_simps of_nat_diff)
    ultimately show ?thesis using c True digit[OF b1] unfolding step by (simp add: div_inv_def A)
  next
    case False
    with q r' c digit[OF b1] show ?thesis unfolding step by (simp add: div_inv_def A algebra_simps)
  qed
qed

lemma div_loop_inv:
  assumes "limbs_value (magnitude a) = A" "big_ok rhs" "big_val rhs = int R" "0 < R"
  shows "div_inv A R n s \<Longrightarrow> div_inv A R 0 (fold (div_step a rhs) (rev [0..<n]) s)"
proof (induction n arbitrary: s)
  case (Suc n)
  then show ?case using div_step_inv[OF refl assms, of n "fst s" "snd s"] by simp
qed simp

lemma div_rem_nonnegative_ok:
  assumes a: "big_ok a" "0 \<le> big_val a" and rhs: "big_ok rhs" "0 < big_val rhs"
  shows "\<exists>q r. div_rem_nonnegative a rhs = Some (q, r) \<and> big_ok q \<and> big_ok r
    \<and> big_val q = big_val a div big_val rhs \<and> big_val r = big_val a mod big_val rhs"
proof -
  define A where "A = limbs_value (magnitude a)"
  obtain R where R: "big_val rhs = int R" "0 < R" using rhs(2) by (metis zero_less_imp_eq_int)
  have A: "big_val a = int A" using a by (simp add: A_def big_magnitude)
  have s: "\<not> sign a < 0" "\<not> sign rhs \<le> 0" using a rhs by (simp_all add: big_sign)
  show ?thesis
  proof (cases "big_cmp a rhs = Less")
    case True
    then have "big_val a < big_val rhs" by (simp add: big_cmp_value a rhs ord_of_simps)
    with True s a show ?thesis by (simp add: div_rem_nonnegative_def)
  next
    case False
    obtain q r where d: "fold (div_step a rhs) (rev [0..<bit_len a]) (big_zero, big_zero) = (q, r)"
      by (cases "fold (div_step a rhs) (rev [0..<bit_len a]) (big_zero, big_zero)")
    have "A div 2 ^ bit_len a = 0" using bit_len_bound[of a] by (simp add: A_def)
    then have "div_inv A R (bit_len a) (big_zero, big_zero)" by (simp add: div_inv_def)
    from div_loop_inv[OF A_def[symmetric] rhs(1) R this] have "div_inv A R 0 (q, r)" by (simp only: d)
    with False s d show ?thesis by (simp add: div_rem_nonnegative_def div_inv_def A R(1) zdiv_int zmod_int)
  qed
qed

lemma div_rem_none: "big_ok rhs \<Longrightarrow> big_val rhs = 0 \<Longrightarrow> div_rem_nonnegative a rhs = None"
  by (simp add: div_rem_nonnegative_def big_sign)

section \<open>Indices of a machine word\<close>

lemma usize_or: "unat (0 OR push_bit 0 (ucast (l :: 32 word)) :: 64 word) = unat l"
  "unat (ucast (l :: 32 word) OR push_bit 32 (ucast (h :: 32 word)) :: 64 word) = unat l + 2 ^ 32 * unat h"
proof -
  show "unat (0 OR push_bit 0 (ucast l) :: 64 word) = unat l" by simp
  have "unat (ucast l OR push_bit 32 (ucast h) :: 64 word) = unat l OR push_bit 32 (unat h)"
    by (rule bit_eqI) (auto simp: bit_simps dest: bit_imp_le_length)
  then show "unat (ucast l OR push_bit 32 (ucast h) :: 64 word) = unat l + 2 ^ 32 * unat h" by (simp only: limb_or)
qed

lemma to_usize_limit_value:
  assumes b: "big_ok b" "0 \<le> big_val b" and limit: "limit < 2 ^ 64"
  shows "to_usize_limit b limit = (if big_val b \<le> int limit then Some (nat (big_val b)) else None)"
proof -
  have v: "big_val b = int (limbs_value (magnitude b))" using b by (simp add: big_magnitude)
  have s: "\<not> sign b < 0" using b by (simp add: big_sign)
  consider "magnitude b = []" | l where "magnitude b = [l]" | l h where "magnitude b = [l, h]"
    | l h k ls where "magnitude b = l # h # k # ls" by (cases "magnitude b" rule: remdups_adj.cases) (auto, metis list.exhaust)
  then have "usize_limbs limit 0 0 (magnitude b) =
      (if limbs_value (magnitude b) \<le> limit then Some (limbs_value (magnitude b)) else None)"
  proof cases
    case 4
    then have "2 ^ (32 * (length (magnitude b) - 1)) \<le> limbs_value (magnitude b)" using b(1) by (intro last_value) (auto simp: big_ok_def)
    moreover have "(2 :: nat) ^ 64 \<le> 2 ^ (32 * (length (magnitude b) - 1))" using 4 by (intro power_increasing) simp_all
    ultimately have "limit < limbs_value (magnitude b)" using limit by linarith
    with 4 show ?thesis by (simp add: Let_def del: limbs_value.simps)
  qed (use usize_or in \<open>auto simp: Let_def\<close>)
  with s show ?thesis by (simp add: to_usize_limit_def v)
qed

end
