(* ===== verification/Big_Word.thy ===== *)
theory Big_Word
  imports Big_Text Big_Bits
begin

text \<open>
  The word operations of the compile-time evaluator (the first part of
  \<open>crates/specialize/src/evaluate/value.rs\<close>) and the table \<open>eval_yul_op\<close> that maps Yul builtins to
  them (\<open>yul_const.rs\<close>). The reference is the arithmetic of \<open>256 word\<close> with the conventions of the EVM:
  division by zero gives zero, signed division truncates, a shift by 256 or more gives zero or the sign.
\<close>

section \<open>Operations\<close>

definition word_div :: "bigint \<Rightarrow> bigint \<Rightarrow> bigint" where
  "word_div lhs rhs =
     (let lhs = mod_word lhs; rhs = mod_word rhs
      in if big_is_zero rhs then big_zero
         else case div_rem_nonnegative lhs rhs of None \<Rightarrow> big_zero | Some (q, _) \<Rightarrow> q)"

definition word_mod :: "bigint \<Rightarrow> bigint \<Rightarrow> bigint" where
  "word_mod lhs rhs =
     (let lhs = mod_word lhs; rhs = mod_word rhs
      in if big_is_zero rhs then big_zero
         else case div_rem_nonnegative lhs rhs of None \<Rightarrow> big_zero | Some (_, r) \<Rightarrow> r)"

definition signed_word :: "bigint \<Rightarrow> bigint" where
  "signed_word v = (let v = mod_word v in if big_bit v 255 then big_sub v two_pow_256 else v)"

definition word_sdiv :: "bigint \<Rightarrow> bigint \<Rightarrow> bigint" where
  "word_sdiv lhs rhs =
     (let lhs = signed_word lhs; rhs = signed_word rhs
      in case div_rem_nonnegative (big_abs lhs) (big_abs rhs) of
           None \<Rightarrow> big_zero
         | Some (q, _) \<Rightarrow>
             if sign lhs = sign rhs then mod_word q else mod_word (big_neg q))"

definition word_smod :: "bigint \<Rightarrow> bigint \<Rightarrow> bigint" where
  "word_smod lhs rhs =
     (let lhs = signed_word lhs; rhs = signed_word rhs
      in case div_rem_nonnegative (big_abs lhs) (big_abs rhs) of
           None \<Rightarrow> big_zero
         | Some (_, r) \<Rightarrow> if sign lhs < 0 then mod_word (big_neg r) else r)"

definition signextend_word :: "bigint \<Rightarrow> bigint \<Rightarrow> bigint" where
  "signextend_word byte_index v =
     (case to_usize_limit (mod_word byte_index) 30 of
        None \<Rightarrow> mod_word v
      | Some byte_index \<Rightarrow>
          let bytes = to_word_be_bytes v;
              sign_byte = 31 - byte_index;
              extension = (if (bytes ! sign_byte) AND 0x80 \<noteq> 0 then 0xff else 0)
          in from_be_bytes (replicate sign_byte extension @ drop sign_byte bytes))"

definition word_low_byte :: "bigint \<Rightarrow> 8 word" where
  "word_low_byte v = (case magnitude (mod_word v) of [] \<Rightarrow> 0 | l # _ \<Rightarrow> ucast l)"

definition word_bitwise :: "(32 word \<Rightarrow> 32 word \<Rightarrow> 32 word) \<Rightarrow> bigint \<Rightarrow> bigint \<Rightarrow> bigint" where
  "word_bitwise f lhs rhs = from_word_limbs (map2 f (word_limbs lhs) (word_limbs rhs))"

definition bitand_word :: "bigint \<Rightarrow> bigint \<Rightarrow> bigint" where
  "bitand_word = word_bitwise (\<lambda>a b. a AND b)"

definition bitor_word :: "bigint \<Rightarrow> bigint \<Rightarrow> bigint" where
  "bitor_word = word_bitwise (\<lambda>a b. a OR b)"

definition bitxor_word :: "bigint \<Rightarrow> bigint \<Rightarrow> bigint" where
  "bitxor_word = word_bitwise (\<lambda>a b. a XOR b)"

definition not_word :: "bigint \<Rightarrow> bigint" where
  "not_word v = from_word_limbs (map (\<lambda>l. NOT l) (word_limbs v))"

definition shl_word :: "bigint \<Rightarrow> bigint \<Rightarrow> bigint" where
  "shl_word v shift =
     (case to_usize_limit (mod_word shift) 256 of
        None \<Rightarrow> big_zero
      | Some shift \<Rightarrow> if 256 \<le> shift then big_zero else mod_word (shl_bits (mod_word v) shift))"

definition shr_word :: "bigint \<Rightarrow> bigint \<Rightarrow> bigint" where
  "shr_word v shift =
     (case to_usize_limit (mod_word shift) 256 of
        None \<Rightarrow> big_zero
      | Some shift \<Rightarrow> if 256 \<le> shift then big_zero else shr_bits (mod_word v) shift)"

definition sar_word :: "bigint \<Rightarrow> bigint \<Rightarrow> bigint" where
  "sar_word v shift =
     (let v = mod_word v
      in if big_bit v 255 then not_word (shr_word (not_word v) shift) else shr_word v shift)"

section \<open>The table of Yul builtins\<close>

definition big_of_bool :: "bool \<Rightarrow> bigint" where
  "big_of_bool p = from_u64 (if p then 1 else 0)"

definition unary_arms :: "(string \<times> (bigint \<Rightarrow> bigint)) list" where
  "unary_arms =
     [(''iszero'', \<lambda>a. big_of_bool (big_is_zero (mod_word a))),
      (''not'', not_word)]"

definition binary_arms :: "(string \<times> (bigint \<Rightarrow> bigint \<Rightarrow> bigint)) list" where
  "binary_arms =
     [(''add'', \<lambda>a b. mod_word (big_add a b)),
      (''sub'', \<lambda>a b. mod_word (big_sub a b)),
      (''mul'', \<lambda>a b. mod_word (big_mul a b)),
      (''div'', word_div),
      (''mod'', word_mod),
      (''sdiv'', word_sdiv),
      (''smod'', word_smod),
      (''gt'', \<lambda>a b. big_of_bool (big_cmp (mod_word a) (mod_word b) = Greater)),
      (''lt'', \<lambda>a b. big_of_bool (big_cmp (mod_word a) (mod_word b) = Less)),
      (''sgt'', \<lambda>a b. big_of_bool (big_cmp (signed_word a) (signed_word b) = Greater)),
      (''slt'', \<lambda>a b. big_of_bool (big_cmp (signed_word a) (signed_word b) = Less)),
      (''signextend'', signextend_word),
      (''eq'', \<lambda>a b. big_of_bool (mod_word a = mod_word b)),
      (''and'', bitand_word),
      (''or'', bitor_word),
      (''xor'', bitxor_word),
      (''shl'', \<lambda>sh v. shl_word v sh),
      (''shr'', \<lambda>sh v. shr_word v sh),
      (''sar'', \<lambda>sh v. sar_word v sh)]"

definition eval_yul_op :: "string \<Rightarrow> bigint list \<Rightarrow> bigint option" where
  "eval_yul_op n vs =
     (case vs of
        [a] \<Rightarrow> map_option (\<lambda>f. f a) (map_of unary_arms n)
      | [a, b] \<Rightarrow> map_option (\<lambda>f. f a b) (map_of binary_arms n)
      | _ \<Rightarrow> None)"

definition interpretable_ops :: "(string \<times> nat) list" where
  "interpretable_ops =
     [(''add'', 2), (''sub'', 2), (''mul'', 2), (''div'', 2), (''mod'', 2), (''sdiv'', 2), (''smod'', 2),
      (''gt'', 2), (''lt'', 2), (''sgt'', 2), (''slt'', 2), (''signextend'', 2), (''eq'', 2),
      (''iszero'', 1), (''and'', 2), (''or'', 2), (''xor'', 2), (''not'', 1), (''shl'', 2), (''shr'', 2),
      (''sar'', 2)]"

definition yul_op_is_interpretable :: "string \<Rightarrow> nat \<Rightarrow> bool" where
  "yul_op_is_interpretable n arity \<longleftrightarrow> (n, arity) \<in> set interpretable_ops"

section \<open>The reference\<close>

definition big_word :: "bigint \<Rightarrow> 256 word" where
  "big_word b = word_of_int (big_val b)"

definition evm_signextend :: "256 word \<Rightarrow> 256 word \<Rightarrow> 256 word" where
  "evm_signextend k x = (if k < 31 then signed_take_bit (8 * unat k + 7) x else x)"

definition evm_unary :: "(string \<times> (256 word \<Rightarrow> 256 word)) list" where
  "evm_unary = [(''iszero'', \<lambda>a. of_bool (a = 0)), (''not'', \<lambda>a. NOT a)]"

definition evm_binary :: "(string \<times> (256 word \<Rightarrow> 256 word \<Rightarrow> 256 word)) list" where
  "evm_binary =
     [(''add'', \<lambda>a b. a + b),
      (''sub'', \<lambda>a b. a - b),
      (''mul'', \<lambda>a b. a * b),
      (''div'', \<lambda>a b. if b = 0 then 0 else a div b),
      (''mod'', \<lambda>a b. if b = 0 then 0 else a mod b),
      (''sdiv'', \<lambda>a b. if b = 0 then 0 else word_of_int (sint a sdiv sint b)),
      (''smod'', \<lambda>a b. if b = 0 then 0 else word_of_int (sint a smod sint b)),
      (''gt'', \<lambda>a b. of_bool (b < a)),
      (''lt'', \<lambda>a b. of_bool (a < b)),
      (''sgt'', \<lambda>a b. of_bool (sint b < sint a)),
      (''slt'', \<lambda>a b. of_bool (sint a < sint b)),
      (''signextend'', evm_signextend),
      (''eq'', \<lambda>a b. of_bool (a = b)),
      (''and'', \<lambda>a b. a AND b),
      (''or'', \<lambda>a b. a OR b),
      (''xor'', \<lambda>a b. a XOR b),
      (''shl'', \<lambda>sh a. push_bit (unat sh) a),
      (''shr'', \<lambda>sh a. drop_bit (unat sh) a),
      (''sar'', \<lambda>sh a. signed_drop_bit (unat sh) a)]"

definition evm_op :: "string \<Rightarrow> 256 word list \<Rightarrow> 256 word option" where
  "evm_op n ws =
     (case ws of
        [a] \<Rightarrow> map_option (\<lambda>f. f a) (map_of evm_unary n)
      | [a, b] \<Rightarrow> map_option (\<lambda>f. f a b) (map_of evm_binary n)
      | _ \<Rightarrow> None)"

text \<open>A big integer is the canonical representation of a word.\<close>

definition represents :: "bigint \<Rightarrow> 256 word \<Rightarrow> bool" where
  "represents b w \<longleftrightarrow> big_ok b \<and> big_val b = uint w"

section \<open>Each operation computes the reference\<close>

lemma uint_big_word: "uint (big_word b) = big_val b mod int word_modulus"
  by (simp add: big_word_def word_modulus_def unsigned_of_int take_bit_eq_mod)

lemma mod_word_represents [big_simps]: "big_ok b \<Longrightarrow> represents (mod_word b) (big_word b)"
  by (simp add: represents_def big_simps uint_big_word)

lemma representsI: "big_ok b \<Longrightarrow> big_val b mod int word_modulus = uint w \<Longrightarrow> represents (mod_word b) w"
  by (simp add: represents_def big_simps)

lemma big_word_add: "big_ok a \<Longrightarrow> big_ok b \<Longrightarrow> big_word (big_add a b) = big_word a + big_word b"
  by (simp add: big_word_def big_simps)

lemma big_word_sub: "big_ok a \<Longrightarrow> big_ok b \<Longrightarrow> big_word (big_sub a b) = big_word a - big_word b"
  by (simp add: big_word_def big_simps)

lemma big_word_mul: "big_ok a \<Longrightarrow> big_ok b \<Longrightarrow> big_word (big_mul a b) = big_word a * big_word b"
  by (simp add: big_word_def big_simps)

lemma represents_zero: "represents b w \<Longrightarrow> big_is_zero b \<longleftrightarrow> w = 0"
  by (simp add: represents_def big_is_zero_iff uint_0_iff)

lemma represents_unique: "represents a x \<Longrightarrow> represents b y \<Longrightarrow> a = b \<longleftrightarrow> x = y"
  unfolding represents_def by (metis big_unique word_uint_eq_iff)

lemma represents_big_zero: "represents big_zero 0"
  by (simp add: represents_def)

lemma represents_big_word: "represents b w \<Longrightarrow> big_word b = w"
  by (simp add: represents_def big_word_def)

lemma big_of_bool_represents: "represents (big_of_bool p) (of_bool p)"
  by (simp add: represents_def big_of_bool_def big_simps)

lemma div_rem_represents:
  assumes "represents a x" and "represents b y" and "y \<noteq> 0"
  shows "\<exists>q r. div_rem_nonnegative a b = Some (q, r) \<and> represents q (x div y) \<and> represents r (x mod y)"
proof -
  have "0 < uint y" using assms(3) by (metis uint_0_iff uint_ge_0 order_le_less)
  with assms have "big_ok a" "0 \<le> big_val a" "big_ok b" "0 < big_val b" by (simp_all add: represents_def)
  from div_rem_nonnegative_ok[OF this] assms show ?thesis by (auto simp: represents_def uint_div uint_mod)
qed

lemma word_div_represents:
  assumes "big_ok a" and "big_ok b"
  shows "represents (word_div a b) (if big_word b = 0 then 0 else big_word a div big_word b)"
proof (cases "big_word b = 0")
  case True
  with assms represents_zero[OF mod_word_represents] show ?thesis by (simp add: word_div_def represents_big_zero)
next
  case False
  from div_rem_represents[OF mod_word_represents[OF assms(1)] mod_word_represents[OF assms(2)] False]
    represents_zero[OF mod_word_represents] assms False show ?thesis by (auto simp: word_div_def)
qed

lemma word_mod_represents:
  assumes "big_ok a" and "big_ok b"
  shows "represents (word_mod a b) (if big_word b = 0 then 0 else big_word a mod big_word b)"
proof (cases "big_word b = 0")
  case True
  with assms represents_zero[OF mod_word_represents] show ?thesis by (simp add: word_mod_def represents_big_zero)
next
  case False
  from div_rem_represents[OF mod_word_represents[OF assms(1)] mod_word_represents[OF assms(2)] False]
    represents_zero[OF mod_word_represents] assms False show ?thesis by (auto simp: word_mod_def)
qed

lemma represents_small:
  assumes "big_ok b" and "0 \<le> big_val b" and "big_val b < int word_modulus"
  shows "represents b (word_of_int (big_val b))"
  using assms by (simp add: represents_def word_modulus_def unsigned_of_int take_bit_eq_mod)

lemma represents_unat:
  assumes "big_ok b" and "big_val b = int v" and "unat w = v"
  shows "represents b w"
  using assms(1,2) unfolding represents_def assms(3)[symmetric] by simp

section \<open>Signed arithmetic\<close>

lemma represents_limbs: "represents b w \<Longrightarrow> limbs_value (magnitude b) = unat w"
  by (metis big_magnitude abs_of_nat of_nat_eq_iff represents_def uint_nat)

lemma big_bit_represents: "represents b w \<Longrightarrow> big_bit b i \<longleftrightarrow> bit w i"
  by (simp add: big_bit_value represents_limbs bit_unsigned_iff)

lemma sint_sign: "sint (w :: 256 word) = (if bit w 255 then uint w - int word_modulus else uint w)"
proof -
  have "sint w = take_bit (Suc 255) (uint w) - 2 ^ Suc 255 * of_bool (bit (uint w) 255)"
    unfolding sint_uint signed_take_bit_eq_take_bit_minus by simp
  moreover have "uint w < 2 ^ 256" by (rule less_le_trans[OF unsigned_less]) simp
  then have "take_bit (Suc 255) (uint w) = uint w" by (simp add: take_bit_int_eq_self)
  moreover have "bit (uint w) 255 \<longleftrightarrow> bit w 255" by (simp add: bit_unsigned_iff)
  ultimately show ?thesis by (simp add: word_modulus_def)
qed

lemma signed_word_ok [big_simps]:
  assumes "big_ok b"
  shows "big_ok (signed_word b)" "big_val (signed_word b) = sint (big_word b)"
  using assms big_bit_represents[OF mod_word_represents[OF assms], of 255] mod_word_represents[OF assms]
  by (auto simp: signed_word_def Let_def big_simps sint_sign uint_big_word)

lemma sint_zero: "sint (w :: 256 word) = 0 \<longleftrightarrow> w = 0"
  by (metis sint_0 signed_word_eqI)

lemma smod_sign: "x smod y = sgn x * (\<bar>x\<bar> mod \<bar>y\<bar>)" for x y :: int
  by (simp add: signed_modulo_int_def)

lemma signed_div_rem:
  assumes "big_ok a" and "big_ok b" and "big_word b \<noteq> 0"
  shows "\<exists>q r. div_rem_nonnegative (big_abs (signed_word a)) (big_abs (signed_word b)) = Some (q, r)
    \<and> big_ok q \<and> big_ok r \<and> big_val q = \<bar>sint (big_word a)\<bar> div \<bar>sint (big_word b)\<bar>
    \<and> big_val r = \<bar>sint (big_word a)\<bar> mod \<bar>sint (big_word b)\<bar>"
  using assms div_rem_nonnegative_ok[of "big_abs (signed_word a)" "big_abs (signed_word b)"]
  by (simp add: big_simps sint_zero)

lemma signed_div_zero:
  "big_ok b \<Longrightarrow> big_word b = 0 \<Longrightarrow> div_rem_nonnegative (big_abs a) (big_abs (signed_word b)) = None"
  by (rule div_rem_none) (simp_all add: big_simps)

lemma word_sdiv_represents:
  assumes a: "big_ok a" and b: "big_ok b"
  shows "represents (word_sdiv a b)
    (if big_word b = 0 then 0 else word_of_int (sint (big_word a) sdiv sint (big_word b)))"
proof (cases "big_word b = 0")
  case True
  with b show ?thesis by (simp add: word_sdiv_def signed_div_zero represents_big_zero)
next
  case False
  let ?x = "sint (big_word a)" and ?y = "sint (big_word b)"
  obtain q r where d: "div_rem_nonnegative (big_abs (signed_word a)) (big_abs (signed_word b)) = Some (q, r)"
    and q: "big_ok q" "big_val q = \<bar>?x\<bar> div \<bar>?y\<bar>" using signed_div_rem[OF a b False] by blast
  have y: "?y \<noteq> 0" using False by (simp add: sint_zero)
  have s: "sign (signed_word a) = sgn ?x" "sign (signed_word b) = sgn ?y" by (simp_all add: big_sign big_simps a b)
  have "big_val (if sgn ?x = sgn ?y then q else big_neg q) = ?x sdiv ?y"
    using y by (auto simp: q big_neg_ok signed_divide_int_def sgn_if)
  then have "big_word (if sgn ?x = sgn ?y then q else big_neg q) = word_of_int (?x sdiv ?y)"
    unfolding big_word_def[of "if _ then _ else _"] by (rule arg_cong)
  moreover have "word_sdiv a b = mod_word (if sgn ?x = sgn ?y then q else big_neg q)" by (simp add: word_sdiv_def d s)
  ultimately show ?thesis using mod_word_represents[of "if sgn ?x = sgn ?y then q else big_neg q"] q(1) False
    by (simp add: big_simps split: if_splits)
qed

lemma word_smod_represents:
  assumes a: "big_ok a" and b: "big_ok b"
  shows "represents (word_smod a b)
    (if big_word b = 0 then 0 else word_of_int (sint (big_word a) smod sint (big_word b)))"
proof (cases "big_word b = 0")
  case True
  with b show ?thesis by (simp add: word_smod_def signed_div_zero represents_big_zero)
next
  case False
  let ?x = "sint (big_word a)" and ?y = "sint (big_word b)"
  obtain q r where d: "div_rem_nonnegative (big_abs (signed_word a)) (big_abs (signed_word b)) = Some (q, r)"
    and r: "big_ok r" "big_val r = \<bar>?x\<bar> mod \<bar>?y\<bar>" using signed_div_rem[OF a b False] by blast
  have y: "?y \<noteq> 0" using False by (simp add: sint_zero)
  have s: "sign (signed_word a) = sgn ?x" by (simp add: big_sign big_simps a)
  have "\<bar>?y\<bar> \<le> 2 ^ 255" using sint_greater_eq[of "big_word b"] sint_less[of "big_word b"] by simp
  then have "\<bar>?y\<bar> < int word_modulus" by (simp add: word_modulus_def)
  moreover have "big_val r < \<bar>?y\<bar>" unfolding r using y by simp
  ultimately have "big_val r < int word_modulus" by linarith
  moreover have "0 \<le> big_val r" unfolding r using y by simp
  ultimately have small: "represents r (word_of_int (big_val r))" using r(1) by (intro represents_small)
  show ?thesis
  proof (cases "?x < 0")
    case True
    with r small mod_word_represents[of "big_neg r"] False s d show ?thesis
      by (simp add: word_smod_def smod_sign big_simps big_word_def)
  next
    case x: False
    then have "sgn ?x * (\<bar>?x\<bar> mod \<bar>?y\<bar>) = big_val r" by (cases "?x = 0") (simp_all add: r)
    with x small False s d show ?thesis by (simp add: word_smod_def smod_sign sgn_if)
  qed
qed

section \<open>Bits and bytes\<close>

lemma word_limbs_unat: "big_ok b \<Longrightarrow> limbs_value (word_limbs b) = unat (big_word b)"
  using word_limbs_value(2)[of b] uint_big_word[of b] by (metis of_nat_eq_iff uint_nat)

lemma word_limbs_bit:
  assumes "big_ok b" and "n < 256"
  shows "bit (word_limbs b ! (n div 32)) (n mod 32) \<longleftrightarrow> bit (big_word b) n"
proof -
  have "bit (limbs_value (word_limbs b)) n \<longleftrightarrow> bit (big_word b) n" by (simp only: word_limbs_unat[OF assms(1)] bit_unsigned_iff) auto
  with assms show ?thesis by (simp add: limbs_value_bit word_limbs_value(1))
qed

lemma from_word_limbs_represents:
  assumes "length ls = 8" and "\<And>n. n < 256 \<Longrightarrow> bit (ls ! (n div 32)) (n mod 32) \<longleftrightarrow> bit w n"
  shows "represents (from_word_limbs ls) w"
proof (rule represents_unat)
  show "unat w = limbs_value ls"
    by (rule bit_eqI) (use assms bit_imp_le_length[of w] in \<open>auto simp: bit_unsigned_iff limbs_value_bit\<close>)
qed (simp_all add: big_simps)

lemma word_bitwise_represents:
  assumes "big_ok a" and "big_ok b"
    and f: "\<And>x y i. i < 32 \<Longrightarrow> bit (f x y) i \<longleftrightarrow> p (bit x i) (bit y i)"
    and w: "\<And>i. i < 256 \<Longrightarrow> bit w i \<longleftrightarrow> p (bit (big_word a) i) (bit (big_word b) i)"
  shows "represents (word_bitwise f a b) w"
  unfolding word_bitwise_def
  by (rule from_word_limbs_represents)
     (simp_all add: word_limbs_value(1) word_limbs_bit assms(1,2) f w less_mult_imp_div_less)

lemma bitand_represents: "big_ok a \<Longrightarrow> big_ok b \<Longrightarrow> represents (bitand_word a b) (big_word a AND big_word b)"
  unfolding bitand_word_def by (rule word_bitwise_represents[where p = "(\<and>)"]) (simp_all add: bit_and_iff)

lemma bitor_represents: "big_ok a \<Longrightarrow> big_ok b \<Longrightarrow> represents (bitor_word a b) (big_word a OR big_word b)"
  unfolding bitor_word_def by (rule word_bitwise_represents[where p = "(\<or>)"]) (simp_all add: bit_or_iff)

lemma bitxor_represents: "big_ok a \<Longrightarrow> big_ok b \<Longrightarrow> represents (bitxor_word a b) (big_word a XOR big_word b)"
  unfolding bitxor_word_def by (rule word_bitwise_represents[where p = "(\<noteq>)"]) (simp_all add: bit_xor_iff)

lemma not_word_represents: "big_ok a \<Longrightarrow> represents (not_word a) (NOT (big_word a))"
  unfolding not_word_def
  by (rule from_word_limbs_represents)
     (simp_all add: word_limbs_value(1) word_limbs_bit bit_not_iff less_mult_imp_div_less)

lemma usize_limit_represents:
  assumes "big_ok b" and "limit < 2 ^ 64"
  shows "to_usize_limit (mod_word b) limit =
    (if unat (big_word b) \<le> limit then Some (unat (big_word b)) else None)"
proof -
  from mod_word_represents[OF assms(1)] have v: "big_ok (mod_word b)" "big_val (mod_word b) = int (unat (big_word b))"
    by (simp_all add: represents_def)
  show ?thesis using to_usize_limit_value[OF v(1) _ assms(2)] unfolding v(2) by (simp del: of_nat_unat)
qed

lemma shr_word_represents:
  assumes v: "big_ok v" and sh: "big_ok sh"
  shows "represents (shr_word v sh) (drop_bit (unat (big_word sh)) (big_word v))"
proof (cases "unat (big_word sh) < 256")
  case True
  from mod_word_represents[OF v] have m: "big_ok (mod_word v)" "0 \<le> big_val (mod_word v)"
    "big_val (mod_word v) = uint (big_word v)" by (simp_all add: represents_def)
  have "uint (drop_bit n w) = uint w div 2 ^ n" for n and w :: "256 word"
    by (simp only: uint_nat unat_drop_bit_eq) (simp add: drop_bit_eq_div zdiv_int)
  with True shr_bits_ok[OF m(1,2)] m(3) usize_limit_represents[OF sh, of 256] show ?thesis
    by (simp add: shr_word_def represents_def)
next
  case False
  then have "drop_bit (unat (big_word sh)) (big_word v) = 0"
    by (intro bit_eqI) (auto simp: bit_simps dest: bit_imp_le_length)
  with False usize_limit_represents[OF sh, of 256] show ?thesis by (simp add: shr_word_def represents_big_zero)
qed

lemma shl_word_represents:
  assumes v: "big_ok v" and sh: "big_ok sh"
  shows "represents (shl_word v sh) (push_bit (unat (big_word sh)) (big_word v))"
proof (cases "unat (big_word sh) < 256")
  case True
  from mod_word_represents[OF v] have m: "big_ok (mod_word v)" "big_val (mod_word v) = uint (big_word v)"
    by (simp_all add: represents_def)
  let ?n = "unat (big_word sh)"
  have "big_word (shl_bits (mod_word v) ?n) = push_bit ?n (big_word v)"
    by (simp add: big_word_def[of "shl_bits _ _"] big_simps v uint_big_word[symmetric] push_bit_eq_mult)
  with True mod_word_represents[of "shl_bits (mod_word v) ?n"] m(1) usize_limit_represents[OF sh, of 256] show ?thesis
    by (simp add: shl_word_def big_simps)
next
  case False
  then have "push_bit (unat (big_word sh)) (big_word v) = 0" by (intro bit_eqI) (auto simp: bit_simps)
  with False usize_limit_represents[OF sh, of 256] show ?thesis by (simp add: shl_word_def represents_big_zero)
qed

lemma sar_word_represents:
  assumes v: "big_ok v" and sh: "big_ok sh"
  shows "represents (sar_word v sh) (signed_drop_bit (unat (big_word sh)) (big_word v))"
proof -
  let ?n = "unat (big_word sh)" and ?w = "big_word v"
  note m = mod_word_represents[OF v]
  then have ok: "big_ok (mod_word v)" and w: "big_word (mod_word v) = ?w" by (auto simp: represents_def represents_big_word)
  have b: "big_bit (mod_word v) 255 \<longleftrightarrow> bit ?w 255" by (rule big_bit_represents[OF m])
  show ?thesis
  proof (cases "bit ?w 255")
    case True
    from not_word_represents[OF ok] have 1: "big_ok (not_word (mod_word v))" "big_word (not_word (mod_word v)) = NOT ?w"
      by (simp_all add: represents_def represents_big_word w)
    from shr_word_represents[OF 1(1) sh] have 2: "big_ok (shr_word (not_word (mod_word v)) sh)"
      "big_word (shr_word (not_word (mod_word v)) sh) = drop_bit ?n (NOT ?w)" by (simp_all add: represents_def represents_big_word 1(2))
    have "NOT (drop_bit ?n (NOT ?w)) = signed_drop_bit ?n ?w"
      using True by (intro bit_eqI) (auto simp: bit_simps bit_signed_drop_bit_iff)
    with not_word_represents[OF 2(1)] True b show ?thesis by (simp add: sar_word_def Let_def 2(2))
  next
    case False
    have "drop_bit ?n ?w = signed_drop_bit ?n ?w"
      using False by (intro bit_eqI) (auto simp: bit_simps bit_signed_drop_bit_iff dest: bit_imp_le_length)
    with shr_word_represents[OF ok sh] False b w show ?thesis by (simp add: sar_word_def Let_def)
  qed
qed

lemma to_word_be_bytes_bit:
  assumes b: "big_ok b" and j: "j < 32" and m: "m < 8"
  shows "bit (to_word_be_bytes b ! j) m \<longleftrightarrow> bit (big_word b) (8 * (31 - j) + m)"
proof -
  let ?n = "8 * (31 - j) + m"
  obtain q r where jq: "j = 4 * q + r" "q < 8" "r < 4" using that[of "j div 4" "j mod 4"] j by simp
  then have e: "?n = 32 * (7 - q) + (8 * (3 - r) + m)" by simp
  have lt: "8 * (3 - r) + m < 32" using m by simp
  have "?n div 32 = 7 - q" unfolding e using lt by simp
  moreover have "?n mod 32 = 8 * (3 - r) + m" unfolding e mod_mult_self4 using lt by (rule mod_less)
  ultimately have d: "?n div 32 = 7 - j div 4" "?n mod 32 = 8 * (3 - j mod 4) + m" using jq by simp_all
  have "to_word_be_bytes b ! j = ucast (drop_bit (8 * (3 - j mod 4)) (word_limbs b ! (7 - j div 4)) AND 255)"
    using j by (simp add: to_word_be_bytes_def Let_def del: upt_rec_numeral upt.simps)
  then have "bit (to_word_be_bytes b ! j) m \<longleftrightarrow> bit (word_limbs b ! (?n div 32)) (?n mod 32) \<and> bit (255 :: 32 word) m"
    unfolding d using m by (simp add: bit_unsigned_iff bit_and_iff bit_drop_bit_eq)
  moreover have "bit (255 :: 32 word) m" using m bit_mask_iff[of 8 m, where 'a = "32 word"] by (simp add: mask_eq_exp_minus_1)
  moreover have "?n < 256" using j m by simp
  ultimately show ?thesis using word_limbs_bit[OF b, of ?n] by simp
qed

lemma to_word_be_bytes_length [simp]: "length (to_word_be_bytes b) = 32"
  by (simp only: to_word_be_bytes_def Let_def length_map length_upt)

lemma from_be_bytes_represents:
  assumes "length bytes = 32" and "\<And>n. n < 256 \<Longrightarrow> bit (bytes ! (31 - n div 8)) (n mod 8) \<longleftrightarrow> bit w n"
  shows "represents (from_be_bytes bytes) w"
proof (rule represents_unat)
  show "unat w = be_value bytes"
    by (rule bit_eqI) (use assms bit_imp_le_length[of w] in \<open>auto simp: bit_unsigned_iff be_value_bit\<close>)
qed (simp_all add: from_be_bytes_ok)

lemma be_bytes_round_trip: "big_ok b \<Longrightarrow> represents (from_be_bytes (to_word_be_bytes b)) (big_word b)"
  by (rule from_be_bytes_represents) (auto simp: to_word_be_bytes_bit less_mult_imp_div_less div_mod_decomp)

lemma fill_nth: "k \<le> j \<Longrightarrow> k \<le> length xs \<Longrightarrow> (replicate k x @ drop k xs) ! j = xs ! j"
  by (simp add: nth_append)

lemma signextend_word_represents:
  assumes k: "big_ok k" and v: "big_ok v"
  shows "represents (signextend_word k v) (evm_signextend (big_word k) (big_word v))"
proof (cases "unat (big_word k) \<le> 30")
  case False
  then have "\<not> big_word k < 31" by (simp add: word_less_nat_alt)
  with False usize_limit_represents[OF k, of 30] mod_word_represents[OF v] show ?thesis
    by (simp add: signextend_word_def evm_signextend_def)
next
  case True
  define i where "i = unat (big_word k)"
  have i: "i \<le> 30" using True by (simp add: i_def)
  have less: "big_word k < 31" using True by (simp add: word_less_nat_alt)
  let ?bytes = "to_word_be_bytes v" and ?w = "big_word v"
  define ext :: "8 word" where "ext = (if (?bytes ! (31 - i)) AND 0x80 \<noteq> 0 then 0xff else 0)"
  have ext: "bit ext m \<longleftrightarrow> bit ?w (8 * i + 7)" if "m < 8" for m
  proof -
    have "(?bytes ! (31 - i)) AND 0x80 \<noteq> 0 \<longleftrightarrow> bit (?bytes ! (31 - i)) 7" 
      using bit_iff_and_push_bit_not_eq_0[of "?bytes ! (31 - i)" 7] by simp
    also have "\<dots> \<longleftrightarrow> bit ?w (8 * i + 7)" using to_word_be_bytes_bit[OF v, of "31 - i" 7] i by simp
    finally have "ext = (if bit ?w (8 * i + 7) then 0xff else 0)" by (simp only: ext_def)
    moreover have "bit (0xff :: 8 word) m" using that bit_mask_iff[of 8 m, where 'a = "8 word"] by (simp add: mask_eq_exp_minus_1)
    ultimately show ?thesis by simp
  qed
  have "represents (from_be_bytes (replicate (31 - i) ext @ drop (31 - i) ?bytes)) (signed_take_bit (8 * i + 7) ?w)"
  proof (rule from_be_bytes_represents)
    fix n :: nat
    assume n: "n < 256"
    have d: "8 * (31 - (31 - n div 8)) + n mod 8 = n" using n by (simp add: less_mult_imp_div_less)
    show "bit ((replicate (31 - i) ext @ drop (31 - i) ?bytes) ! (31 - n div 8)) (n mod 8) \<longleftrightarrow> bit (signed_take_bit (8 * i + 7) ?w) n"
    proof (cases "n div 8 \<le> i")
      case True
      then have "n \<le> 8 * i + 7" using mult_div_mod_eq[of 8 n] mod_less_divisor[of 8 n] by linarith
      moreover have "(replicate (31 - i) ext @ drop (31 - i) ?bytes) ! (31 - n div 8) = ?bytes ! (31 - n div 8)"
        using True i by (intro fill_nth) simp_all
      ultimately show ?thesis using to_word_be_bytes_bit[OF v, of "31 - n div 8" "n mod 8"] d n
        by (simp add: bit_signed_take_bit_iff min_absorb2)
    next
      case False
      then have "8 * i + 7 \<le> n" using mult_div_mod_eq[of 8 n] by linarith
      moreover have "31 - n div 8 < 31 - i" using False n i by auto
      ultimately show ?thesis using ext[of "n mod 8"] n by (simp add: nth_append bit_signed_take_bit_iff min_absorb1)
    qed
  qed (use i in simp)
  moreover have "to_usize_limit (mod_word k) 30 = Some i" using True by (simp add: usize_limit_represents[OF k] i_def)
  then have "signextend_word k v = from_be_bytes (replicate (31 - i) ext @ drop (31 - i) ?bytes)"
    by (simp only: signextend_word_def option.case Let_def ext_def)
  ultimately show ?thesis using less by (simp only: evm_signextend_def if_True i_def)
qed

section \<open>The table\<close>

lemma represents_ord:
  assumes "represents a x" and "represents b y"
  shows "big_cmp a b = Greater \<longleftrightarrow> y < x" "big_cmp a b = Less \<longleftrightarrow> x < y"
  using assms by (simp_all add: represents_def big_cmp_value ord_of_simps word_less_def)

lemma signed_ord:
  assumes "big_ok a" and "big_ok b"
  shows "big_cmp (signed_word a) (signed_word b) = Greater \<longleftrightarrow> sint (big_word b) < sint (big_word a)"
    "big_cmp (signed_word a) (signed_word b) = Less \<longleftrightarrow> sint (big_word a) < sint (big_word b)"
  using assms by (simp_all add: big_cmp_value big_simps ord_of_simps)

lemma map_of_rel:
  "list_all2 (\<lambda>(k, f) (k', g). k = k' \<and> R f g) xs ys \<Longrightarrow> rel_option R (map_of xs n) (map_of ys n)"
  by (induction xs ys rule: list_all2_induct) (auto split: prod.splits)

definition unary_agrees :: "(bigint \<Rightarrow> bigint) \<Rightarrow> (256 word \<Rightarrow> 256 word) \<Rightarrow> bool" where
  "unary_agrees f g \<longleftrightarrow> (\<forall>a. big_ok a \<longrightarrow> represents (f a) (g (big_word a)))"

definition binary_agrees :: "(bigint \<Rightarrow> bigint \<Rightarrow> bigint) \<Rightarrow> (256 word \<Rightarrow> 256 word \<Rightarrow> 256 word) \<Rightarrow> bool" where
  "binary_agrees f g \<longleftrightarrow> (\<forall>a b. big_ok a \<longrightarrow> big_ok b \<longrightarrow> represents (f a b) (g (big_word a) (big_word b)))"

lemma unary_table: "list_all2 (\<lambda>(k, f) (k', g). k = k' \<and> unary_agrees f g) unary_arms evm_unary"
  unfolding unary_arms_def evm_unary_def
  by (simp add: unary_agrees_def not_word_represents represents_zero[OF mod_word_represents] big_of_bool_represents)

lemma binary_table: "list_all2 (\<lambda>(k, f) (k', g). k = k' \<and> binary_agrees f g) binary_arms evm_binary"
  unfolding binary_arms_def evm_binary_def binary_agrees_def
  by (simp add: mod_word_represents big_add_ok big_sub_ok big_mul_ok big_word_add[symmetric] big_word_sub[symmetric]
      big_word_mul[symmetric] word_div_represents word_mod_represents word_sdiv_represents word_smod_represents
      represents_ord[OF mod_word_represents mod_word_represents] signed_ord big_of_bool_represents
      represents_unique[OF mod_word_represents mod_word_represents] signextend_word_represents bitand_represents
      bitor_represents bitxor_represents shl_word_represents shr_word_represents sar_word_represents del: if_split)

lemma eval_yul_op_evm:
  assumes "list_all big_ok vs"
  shows "rel_option represents (eval_yul_op n vs) (evm_op n (map big_word vs))"
proof -
  note u = map_of_rel[OF unary_table, of n] and b = map_of_rel[OF binary_table, of n]
  consider "vs = []" | a where "vs = [a]" | a b where "vs = [a, b]" | a b c cs where "vs = a # b # c # cs"
    by (cases vs rule: remdups_adj.cases) (auto, metis list.exhaust)
  then show ?thesis
  proof cases
    case 2
    with u assms show ?thesis
      by (cases "map_of unary_arms n"; cases "map_of evm_unary n") (simp_all add: eval_yul_op_def evm_op_def unary_agrees_def)
  next
    case 3
    with b assms show ?thesis
      by (cases "map_of binary_arms n"; cases "map_of evm_binary n") (simp_all add: eval_yul_op_def evm_op_def binary_agrees_def)
  qed (simp_all add: eval_yul_op_def evm_op_def)
qed

text \<open>C7. Compile-time evaluation of a Yul builtin is the EVM operation on words: on operands of any
  size and sign that satisfy the invariant of the representation, every arm of \<open>eval_yul_op\<close> returns the
  canonical representation of what the operation gives on the operands modulo \<open>2^256\<close>, and it is undefined
  exactly on the names and arities for which the reference is.\<close>

theorem eval_yul_op_correct:
  assumes "list_all big_ok vs"
  shows "case eval_yul_op n vs of
           None \<Rightarrow> evm_op n (map big_word vs) = None
         | Some b \<Rightarrow> big_ok b \<and> evm_op n (map big_word vs) = Some (big_word b)
             \<and> 0 \<le> big_val b \<and> big_val b < 2 ^ 256"
proof -
  have "0 \<le> uint w \<and> uint w < 2 ^ 256" for w :: "256 word"
    by (intro conjI uint_ge_0 less_le_trans[OF unsigned_less]) simp
  with eval_yul_op_evm[OF assms, of n] show ?thesis
    by (cases "eval_yul_op n vs"; cases "evm_op n (map big_word vs)") (auto simp: represents_big_word represents_def)
qed

theorem eval_yul_op_correct_witness:
  "\<exists>b. eval_yul_op ''sdiv'' [\<lparr>sign = -1, magnitude = [7]\<rparr>, \<lparr>sign = 1, magnitude = [2]\<rparr>] = Some b \<and> big_word b = -3"
proof -
  let ?vs = "[\<lparr>sign = -1, magnitude = [7]\<rparr>, \<lparr>sign = 1, magnitude = [2]\<rparr>] :: bigint list"
  have "list_all big_ok ?vs" by (simp add: big_ok_def)
  moreover have "evm_op ''sdiv'' (map big_word ?vs) = Some (-3)"
    by (simp add: evm_op_def evm_binary_def big_word_def big_val_def signed_divide_int_def)
  ultimately show ?thesis using eval_yul_op_correct[of ?vs "''sdiv''"]
    by (cases "eval_yul_op ''sdiv'' ?vs") simp_all
qed

lemma interpretable_iff: "yul_op_is_interpretable n (length vs) \<longleftrightarrow> eval_yul_op n vs \<noteq> None"
proof -
  have "set interpretable_ops = (\<lambda>n. (n, 1)) ` set (map fst unary_arms) \<union> (\<lambda>n. (n, 2)) ` set (map fst binary_arms)"
    by (simp add: interpretable_ops_def unary_arms_def binary_arms_def insert_commute)
  then have s: "yul_op_is_interpretable n k \<longleftrightarrow>
      k = 1 \<and> map_of unary_arms n \<noteq> None \<or> k = 2 \<and> map_of binary_arms n \<noteq> None" for k
    by (auto simp: yul_op_is_interpretable_def map_of_eq_None_iff)
  consider "vs = []" | a where "vs = [a]" | a b where "vs = [a, b]" | a b c cs where "vs = a # b # c # cs"
    by (cases vs rule: remdups_adj.cases) (auto, metis list.exhaust)
  then show ?thesis by cases (simp_all add: s eval_yul_op_def)
qed

lemma word_low_byte_value:
  assumes "big_ok b"
  shows "word_low_byte b = ucast (big_word b)"
proof -
  have m: "limbs_value (magnitude (mod_word b)) = unat (big_word b)"
    by (rule represents_limbs[OF mod_word_represents[OF assms]])
  show ?thesis
  proof (cases "magnitude (mod_word b)")
    case Nil
    then have "big_word b = 0" using m by (simp add: unat_eq_zero)
    with Nil show ?thesis by (simp add: word_low_byte_def)
  next
    case (Cons l ls)
    have "unat (big_word b) = unat l + 256 * (2 ^ 24 * limbs_value ls)" using m Cons by simp
    then have "unat (big_word b) mod 256 = unat l mod 256" by (simp only: mod_mult_self2)
    then have "unat (ucast (big_word b) :: 8 word) = unat (ucast l :: 8 word)" by (simp add: unat_ucast_take)
    with Cons show ?thesis by (simp add: word_low_byte_def word_unat_eq_iff)
  qed
qed

end
