(* ===== verification/Yul_Subst.thy ===== *)
theory Yul_Subst
  imports Yul_Sem
begin

text \<open>
  Constant propagation into inline assembly (\<open>crates/specialize/src/evaluate/yul_const.rs\<close>,
  \<open>subst_yul_block\<close> and the analysis \<open>yul_written_names\<close> it rests on). A method with
  \<open>&mut FxHashMap\<close> takes the map and returns it. The reference is an interpreter of the assembly trees
  over a store of words, with shadowing of names in nested blocks and with the meaning of literals
  and of calls as parameters; propagation leaves the outcome of every block as it was.
\<close>

type_synonym yul_subst = "name \<rightharpoonup> hir_yul_expr"

definition ident_text :: "hir_db \<Rightarrow> ident_at \<Rightarrow> name" where
  "ident_text db n = db (atom n)"

section \<open>Written names\<close>

text \<open>The pair is the set \<open>locals\<close> as the code leaves it and the set it adds to \<open>names\<close>.\<close>

fun collect_stmt_writes :: "hir_db \<Rightarrow> name set \<Rightarrow> hir_yul_stmt \<Rightarrow> name set \<times> name set"
  and collect_yul_written_names :: "hir_db \<Rightarrow> name set \<Rightarrow> hir_yul_stmt list \<Rightarrow> name set \<times> name set"
  and collect_case_writes :: "hir_db \<Rightarrow> name set \<Rightarrow> hir_yul_case list \<Rightarrow> name set" where
  "collect_stmt_writes db locals (HirYulStmt sp (HSLet bound _)) =
     (locals \<union> set (map (ident_text db) bound), {})"
| "collect_stmt_writes db locals (HirYulStmt sp (HSAssign bound _)) =
     (locals, set (filter (\<lambda>n. n \<notin> locals) (map (ident_text db) bound)))"
| "collect_stmt_writes db locals (HirYulStmt sp (HSBlock body)) =
     (locals, snd (collect_yul_written_names db locals body))"
| "collect_stmt_writes db locals (HirYulStmt sp (HSIf cond body)) =
     (locals, snd (collect_yul_written_names db locals body))"
| "collect_stmt_writes db locals (HirYulStmt sp (HSFor init cond post body)) =
     (let (loop_locals, in_init) = collect_yul_written_names db locals init
      in (locals, in_init \<union> snd (collect_yul_written_names db loop_locals post)
            \<union> snd (collect_yul_written_names db loop_locals body)))"
| "collect_stmt_writes db locals (HirYulStmt sp (HSSwitch e cases dflt)) =
     (locals, collect_case_writes db locals cases
        \<union> (case dflt of None \<Rightarrow> {} | Some body \<Rightarrow> snd (collect_yul_written_names db locals body)))"
| "collect_stmt_writes db locals (HirYulStmt sp (HSFunctionDef _ _ _ _)) = (locals, {})"
| "collect_stmt_writes db locals (HirYulStmt sp (HSExpr _)) = (locals, {})"
| "collect_stmt_writes db locals (HirYulStmt sp HSLeave) = (locals, {})"
| "collect_stmt_writes db locals (HirYulStmt sp HSBreak) = (locals, {})"
| "collect_stmt_writes db locals (HirYulStmt sp HSContinue) = (locals, {})"
| "collect_stmt_writes db locals (HirYulStmt sp HSError) = (locals, {})"
| "collect_yul_written_names db locals [] = (locals, {})"
| "collect_yul_written_names db locals (s # ss) =
     (let (locals, ns) = collect_stmt_writes db locals s;
          (locals, ms) = collect_yul_written_names db locals ss
      in (locals, ns \<union> ms))"
| "collect_case_writes db locals [] = {}"
| "collect_case_writes db locals (HirYulCase sp lit body # cases) =
     snd (collect_yul_written_names db locals body) \<union> collect_case_writes db locals cases"

definition yul_written_names :: "hir_db \<Rightarrow> hir_yul_stmt list \<Rightarrow> name set" where
  "yul_written_names db body = snd (collect_yul_written_names db {} body)"

section \<open>Substitution\<close>

fun subst_yul_expr :: "hir_db \<Rightarrow> yul_subst \<Rightarrow> hir_yul_expr \<Rightarrow> hir_yul_expr" where
  "subst_yul_expr db sub (HirYulExpr sp (HEIdent n)) =
     (case sub (ident_text db n) of Some e \<Rightarrow> e | None \<Rightarrow> HirYulExpr sp (HEIdent n))"
| "subst_yul_expr db sub (HirYulExpr sp (HECall f args)) =
     HirYulExpr sp (HECall f (map (subst_yul_expr db sub) args))"
| "subst_yul_expr db sub (HirYulExpr sp (HELit l)) = HirYulExpr sp (HELit l)"
| "subst_yul_expr db sub (HirYulExpr sp HEError) = HirYulExpr sp HEError"

text \<open>\<open>FxHashMap::retain\<close> on the names outside a set.\<close>

definition retain_not :: "name set \<Rightarrow> yul_subst \<Rightarrow> yul_subst" where
  "retain_not ns sub = (\<lambda>n. if n \<in> ns then None else sub n)"

text \<open>The names that a statement writes are those before the substitution into it; the statement is
  returned with the substitution for the statements after it.\<close>

fun subst_yul_kind :: "hir_db \<Rightarrow> yul_subst \<Rightarrow> hir_yul_stmt_kind \<Rightarrow> hir_yul_stmt_kind \<times> yul_subst"
  and subst_yul_stmt :: "hir_db \<Rightarrow> yul_subst \<Rightarrow> hir_yul_stmt \<Rightarrow> hir_yul_stmt \<times> yul_subst"
  and subst_yul_sequence :: "hir_db \<Rightarrow> yul_subst \<Rightarrow> hir_yul_stmt list \<Rightarrow> hir_yul_stmt list \<times> yul_subst"
  and subst_yul_cases :: "hir_db \<Rightarrow> yul_subst \<Rightarrow> hir_yul_case list \<Rightarrow> hir_yul_case list" where
  "subst_yul_kind db sub (HSBlock body) = (HSBlock (fst (subst_yul_sequence db sub body)), sub)"
| "subst_yul_kind db sub (HSLet ns init) =
     (HSLet ns (map_option (subst_yul_expr db sub) init), retain_not (set (map (ident_text db) ns)) sub)"
| "subst_yul_kind db sub (HSAssign ns v) = (HSAssign ns (subst_yul_expr db sub v), sub)"
| "subst_yul_kind db sub (HSExpr e) = (HSExpr (subst_yul_expr db sub e), sub)"
| "subst_yul_kind db sub (HSIf cond body) =
     (HSIf (subst_yul_expr db sub cond) (fst (subst_yul_sequence db sub body)), sub)"
| "subst_yul_kind db sub (HSFor init cond post body) =
     (let (init, inner) = subst_yul_sequence db sub init;
          inner = retain_not (yul_written_names db post \<union> yul_written_names db body) inner
      in (HSFor init (subst_yul_expr db inner cond) (fst (subst_yul_sequence db inner post))
            (fst (subst_yul_sequence db inner body)), sub))"
| "subst_yul_kind db sub (HSSwitch e cases dflt) =
     (HSSwitch (subst_yul_expr db sub e) (subst_yul_cases db sub cases)
        (case dflt of None \<Rightarrow> None | Some body \<Rightarrow> Some (fst (subst_yul_sequence db sub body))), sub)"
| "subst_yul_kind db sub (HSFunctionDef f ps rs body) =
     (HSFunctionDef f ps rs (fst (subst_yul_sequence db Map.empty body)), sub)"
| "subst_yul_kind db sub HSLeave = (HSLeave, sub)"
| "subst_yul_kind db sub HSBreak = (HSBreak, sub)"
| "subst_yul_kind db sub HSContinue = (HSContinue, sub)"
| "subst_yul_kind db sub HSError = (HSError, sub)"
| "subst_yul_stmt db sub (HirYulStmt sp k) =
     (let escaping = yul_written_names db [HirYulStmt sp k];
          (k, sub) = subst_yul_kind db sub k
      in (HirYulStmt sp k, retain_not escaping sub))"
| "subst_yul_sequence db sub [] = ([], sub)"
| "subst_yul_sequence db sub (s # ss) =
     (let (s, sub) = subst_yul_stmt db sub s; (ss, sub) = subst_yul_sequence db sub ss in (s # ss, sub))"
| "subst_yul_cases db sub [] = []"
| "subst_yul_cases db sub (HirYulCase sp l body # cases) =
     HirYulCase sp l (fst (subst_yul_sequence db sub body)) # subst_yul_cases db sub cases"

definition subst_yul_block :: "hir_db \<Rightarrow> yul_subst \<Rightarrow> hir_yul_stmt list \<Rightarrow> hir_yul_stmt list" where
  "subst_yul_block db sub body = fst (subst_yul_sequence db sub body)"

section \<open>The reference\<close>

type_synonym lit_meaning = "hir_yul_lit \<Rightarrow> 256 word option"

fun heval :: "hir_db \<Rightarrow> lit_meaning \<Rightarrow> 'w ycalls \<Rightarrow> store \<Rightarrow> hir_yul_expr \<Rightarrow> 'w \<Rightarrow> 'w stop + (256 word list \<times> 'w)"
  and hargs :: "hir_db \<Rightarrow> lit_meaning \<Rightarrow> 'w ycalls \<Rightarrow> store \<Rightarrow> hir_yul_expr list \<Rightarrow> 'w \<Rightarrow> 'w stop + (256 word list \<times> 'w)" where
  "heval db LW C \<sigma> (HirYulExpr sp (HELit l)) w = (case LW l of Some v \<Rightarrow> Inr ([v], w) | None \<Rightarrow> Inl Stuck)"
| "heval db LW C \<sigma> (HirYulExpr sp (HEIdent n)) w =
     (case \<sigma> (ident_text db n) of Some v \<Rightarrow> Inr ([v], w) | None \<Rightarrow> Inl Stuck)"
| "heval db LW C \<sigma> (HirYulExpr sp (HECall f es)) w =
     res_bind (hargs db LW C \<sigma> es w) (\<lambda>(vs, w). C (ident_text db f) vs w)"
| "heval db LW C \<sigma> (HirYulExpr sp HEError) w = Inl Stuck"
| "hargs db LW C \<sigma> [] w = Inr ([], w)"
| "hargs db LW C \<sigma> (e # es) w =
     res_bind (hargs db LW C \<sigma> es w) (\<lambda>(vs, w).
     res_bind (heval db LW C \<sigma> e w) (\<lambda>(us, w).
     case us of [u] \<Rightarrow> Inr (u # vs, w) | _ \<Rightarrow> Inl Stuck))"

definition heval1 :: "hir_db \<Rightarrow> lit_meaning \<Rightarrow> 'w ycalls \<Rightarrow> store \<Rightarrow> hir_yul_expr \<Rightarrow> 'w \<Rightarrow> 'w stop + (256 word \<times> 'w)" where
  "heval1 db LW C \<sigma> e w =
     res_bind (heval db LW C \<sigma> e w) (\<lambda>(us, w). case us of [u] \<Rightarrow> Inr (u, w) | _ \<Rightarrow> Inl Stuck)"

text \<open>A declaration may hide a name of an enclosing block; leaving the block that declared the names
  \<open>D\<close> makes the hidden ones visible again.\<close>

definition hide_vars :: "name list \<Rightarrow> 256 word list \<Rightarrow> store \<Rightarrow> 'w stop + store" where
  "hide_vars xs vs \<sigma> =
     (if length vs = length xs \<and> distinct xs then Inr (\<sigma>(xs [\<mapsto>] vs)) else Inl Stuck)"

definition leave_block :: "name set \<Rightarrow> store \<Rightarrow> store \<Rightarrow> store" where
  "leave_block D \<sigma> \<sigma>' = (\<lambda>x. if x \<in> D then \<sigma> x else \<sigma>' x)"

fun find_hir_case :: "lit_meaning \<Rightarrow> 256 word \<Rightarrow> hir_yul_case list \<Rightarrow> hir_yul_stmt list option" where
  "find_hir_case LW v [] = None"
| "find_hir_case LW v (HirYulCase sp l body # cases) =
     (if LW l = Some v then Some body else find_hir_case LW v cases)"

lemma find_hir_case_size: "find_hir_case LW v cases = Some body \<Longrightarrow> size_list size body < size_list size cases"
proof (induction cases)
  case (Cons c cases)
  then show ?case by (cases c) (auto split: if_splits)
qed simp

text \<open>A sequence returns the names it declared; a function definition does nothing, as calls are a
  parameter.\<close>

function (sequential)
      hseq :: "hir_db \<Rightarrow> lit_meaning \<Rightarrow> 'w ycalls \<Rightarrow> nat \<Rightarrow> hir_yul_stmt list \<Rightarrow> store \<Rightarrow> 'w \<Rightarrow> 'w stop + (mode \<times> name set \<times> store \<times> 'w)"
  and hblock :: "hir_db \<Rightarrow> lit_meaning \<Rightarrow> 'w ycalls \<Rightarrow> nat \<Rightarrow> hir_yul_stmt list \<Rightarrow> store \<Rightarrow> 'w \<Rightarrow> 'w yres"
  and hstmt :: "hir_db \<Rightarrow> lit_meaning \<Rightarrow> 'w ycalls \<Rightarrow> nat \<Rightarrow> hir_yul_stmt \<Rightarrow> store \<Rightarrow> 'w \<Rightarrow> 'w stop + (mode \<times> name set \<times> store \<times> 'w)"
  and hloop :: "hir_db \<Rightarrow> lit_meaning \<Rightarrow> 'w ycalls \<Rightarrow> nat \<Rightarrow> hir_yul_expr \<Rightarrow> hir_yul_stmt list \<Rightarrow> hir_yul_stmt list \<Rightarrow> store \<Rightarrow> 'w \<Rightarrow> 'w yres" where
  "hseq db LW C n [] \<sigma> w = Inr (MNormal, {}, \<sigma>, w)"
| "hseq db LW C n (s # ss) \<sigma> w =
     res_bind (hstmt db LW C n s \<sigma> w) (\<lambda>(m, D, \<sigma>, w).
     if m = MNormal
     then res_bind (hseq db LW C n ss \<sigma> w) (\<lambda>(m, D', \<sigma>, w). Inr (m, D \<union> D', \<sigma>, w))
     else Inr (m, D, \<sigma>, w))"
| "hblock db LW C n ss \<sigma> w =
     res_bind (hseq db LW C n ss \<sigma> w) (\<lambda>(m, D, \<sigma>', w). Inr (m, leave_block D \<sigma> \<sigma>', w))"
| "hstmt db LW C n (HirYulStmt sp (HSBlock ss)) \<sigma> w =
     res_bind (hblock db LW C n ss \<sigma> w) (\<lambda>(m, \<sigma>, w). Inr (m, {}, \<sigma>, w))"
| "hstmt db LW C n (HirYulStmt sp (HSLet xs None)) \<sigma> w =
     res_bind (hide_vars (map (ident_text db) xs) (replicate (length xs) 0) \<sigma>)
       (\<lambda>\<sigma>. Inr (MNormal, set (map (ident_text db) xs), \<sigma>, w))"
| "hstmt db LW C n (HirYulStmt sp (HSLet xs (Some e))) \<sigma> w =
     res_bind (heval db LW C \<sigma> e w) (\<lambda>(vs, w).
     res_bind (hide_vars (map (ident_text db) xs) vs \<sigma>)
       (\<lambda>\<sigma>. Inr (MNormal, set (map (ident_text db) xs), \<sigma>, w)))"
| "hstmt db LW C n (HirYulStmt sp (HSAssign xs e)) \<sigma> w =
     res_bind (heval db LW C \<sigma> e w) (\<lambda>(vs, w).
     res_bind (assign_vars (map (ident_text db) xs) vs \<sigma>) (\<lambda>\<sigma>. Inr (MNormal, {}, \<sigma>, w)))"
| "hstmt db LW C n (HirYulStmt sp (HSExpr e)) \<sigma> w =
     res_bind (heval db LW C \<sigma> e w) (\<lambda>(vs, w). if vs = [] then Inr (MNormal, {}, \<sigma>, w) else Inl Stuck)"
| "hstmt db LW C n (HirYulStmt sp (HSIf e body)) \<sigma> w =
     res_bind (heval1 db LW C \<sigma> e w) (\<lambda>(v, w).
     if v = 0 then Inr (MNormal, {}, \<sigma>, w)
     else res_bind (hblock db LW C n body \<sigma> w) (\<lambda>(m, \<sigma>, w). Inr (m, {}, \<sigma>, w)))"
| "hstmt db LW C n (HirYulStmt sp (HSSwitch e cases dflt)) \<sigma> w =
     res_bind (heval1 db LW C \<sigma> e w) (\<lambda>(v, w).
     case find_hir_case LW v cases of
       Some body \<Rightarrow> res_bind (hblock db LW C n body \<sigma> w) (\<lambda>(m, \<sigma>, w). Inr (m, {}, \<sigma>, w))
     | None \<Rightarrow> (case dflt of
         Some body \<Rightarrow> res_bind (hblock db LW C n body \<sigma> w) (\<lambda>(m, \<sigma>, w). Inr (m, {}, \<sigma>, w))
       | None \<Rightarrow> Inr (MNormal, {}, \<sigma>, w)))"
| "hstmt db LW C n (HirYulStmt sp (HSFor init cond post body)) \<sigma> w =
     res_bind (hseq db LW C n init \<sigma> w) (\<lambda>(m, D, \<sigma>', w).
     if m = MNormal
     then res_bind (hloop db LW C n cond post body \<sigma>' w) (\<lambda>(m, \<sigma>', w). Inr (m, {}, leave_block D \<sigma> \<sigma>', w))
     else Inr (m, {}, leave_block D \<sigma> \<sigma>', w))"
| "hstmt db LW C n (HirYulStmt sp (HSFunctionDef f ps rs body)) \<sigma> w = Inr (MNormal, {}, \<sigma>, w)"
| "hstmt db LW C n (HirYulStmt sp HSLeave) \<sigma> w = Inr (MLeave, {}, \<sigma>, w)"
| "hstmt db LW C n (HirYulStmt sp HSBreak) \<sigma> w = Inr (MBreak, {}, \<sigma>, w)"
| "hstmt db LW C n (HirYulStmt sp HSContinue) \<sigma> w = Inr (MContinue, {}, \<sigma>, w)"
| "hstmt db LW C n (HirYulStmt sp HSError) \<sigma> w = Inl Stuck"
| "hloop db LW C 0 cond post body \<sigma> w = Inl Timeout"
| "hloop db LW C (Suc n) cond post body \<sigma> w =
     res_bind (heval1 db LW C \<sigma> cond w) (\<lambda>(v, w).
     if v = 0 then Inr (MNormal, \<sigma>, w)
     else res_bind (hblock db LW C n body \<sigma> w) (\<lambda>(m, \<sigma>, w).
          if m = MBreak then Inr (MNormal, \<sigma>, w)
          else if m = MLeave then Inr (MLeave, \<sigma>, w)
          else res_bind (hblock db LW C n post \<sigma> w) (\<lambda>(m, \<sigma>, w).
               if m = MNormal then hloop db LW C n cond post body \<sigma> w else Inr (m, \<sigma>, w))))"
  by pat_completeness auto

termination
proof (relation "measures
    [case_sum (case_sum (\<lambda>(db, LW, C, n, ss, \<sigma>, w). n) (\<lambda>(db, LW, C, n, ss, \<sigma>, w). n))
       (case_sum (\<lambda>(db, LW, C, n, s, \<sigma>, w). n) (\<lambda>(db, LW, C, n, e, p, b, \<sigma>, w). n)),
     case_sum (case_sum (\<lambda>(db, LW, C, n, ss, \<sigma>, w). 2 * size_list size ss) (\<lambda>(db, LW, C, n, ss, \<sigma>, w). 2 * size_list size ss + 1))
       (case_sum (\<lambda>(db, LW, C, n, s, \<sigma>, w). 2 * size s) (\<lambda>(db, LW, C, n, e, p, b, \<sigma>, w). 0))]", goal_cases)
qed (auto dest: find_hir_case_size)

declare hblock.simps [simp del]

section \<open>A block changes only the names it writes\<close>

lemma assign_vars_frame: "assign_vars xs vs \<sigma> = Inr \<sigma>' \<Longrightarrow> x \<notin> set xs \<Longrightarrow> \<sigma>' x = \<sigma> x"
  by (auto simp: assign_vars_def split: if_splits)

lemma hide_vars_frame: "hide_vars xs vs \<sigma> = Inr \<sigma>' \<Longrightarrow> x \<notin> set xs \<Longrightarrow> \<sigma>' x = \<sigma> x"
  by (auto simp: hide_vars_def split: if_splits)

definition frames :: "name set \<Rightarrow> name set \<Rightarrow> store \<Rightarrow> store \<Rightarrow> bool" where
  "frames own written \<sigma> \<sigma>' \<longleftrightarrow> (\<forall>x. x \<notin> own \<longrightarrow> x \<notin> written \<longrightarrow> \<sigma>' x = \<sigma> x)"

lemma frames_refl [simp]: "frames B W \<sigma> \<sigma>"
  by (simp add: frames_def)

lemma frames_trans:
  assumes "frames B W \<sigma> \<sigma>'" and "frames B' W' \<sigma>' \<sigma>''" and "B \<union> W \<union> B' \<union> W' \<subseteq> B'' \<union> W''"
  shows "frames B'' W'' \<sigma> \<sigma>''"
  unfolding frames_def
proof (intro allI impI)
  fix x
  assume "x \<notin> B''" "x \<notin> W''"
  with assms(3) have "x \<notin> B" "x \<notin> W" "x \<notin> B'" "x \<notin> W'" by blast+
  with assms(1,2) show "\<sigma>'' x = \<sigma> x" by (simp add: frames_def)
qed

lemma frames_leave: "frames (B \<union> D) W \<sigma> \<sigma>' \<Longrightarrow> frames B W \<sigma> (leave_block D \<sigma> \<sigma>')"
  by (auto simp: frames_def leave_block_def)

lemma frames_mono: "frames B W \<sigma> \<sigma>' \<Longrightarrow> B \<union> W \<subseteq> B' \<union> W' \<Longrightarrow> frames B' W' \<sigma> \<sigma>'"
  by (auto simp: frames_def)

lemma find_case_writes:
  "find_hir_case LW v cases = Some body \<Longrightarrow> snd (collect_yul_written_names db Lc body) \<subseteq> collect_case_writes db Lc cases"
  by (induction LW v cases rule: find_hir_case.induct) (auto split: if_splits)

lemmas writes_simps = collect_stmt_writes.simps collect_yul_written_names.simps split_beta Let_def fst_conv snd_conv

lemma block_frame:
  "hseq db LW C n ss \<sigma> w = Inr (m, D, \<sigma>', w') \<Longrightarrow> Lc \<subseteq> B \<Longrightarrow>
     frames (B \<union> D) (snd (collect_yul_written_names db Lc ss)) \<sigma> \<sigma>'
     \<and> (m = MNormal \<longrightarrow> fst (collect_yul_written_names db Lc ss) \<subseteq> B \<union> D)"
  "hblock db LW C n ss \<sigma> w = Inr (m, \<sigma>', w') \<Longrightarrow> Lc \<subseteq> B \<Longrightarrow>
     frames B (snd (collect_yul_written_names db Lc ss)) \<sigma> \<sigma>'"
  "hstmt db LW C n s \<sigma> w = Inr (m, D, \<sigma>', w') \<Longrightarrow> Lc \<subseteq> B \<Longrightarrow>
     frames (B \<union> D) (snd (collect_stmt_writes db Lc s)) \<sigma> \<sigma>'
     \<and> (m = MNormal \<longrightarrow> fst (collect_stmt_writes db Lc s) \<subseteq> B \<union> D)"
  "hloop db LW C n cond post body \<sigma> w = Inr (m, \<sigma>', w') \<Longrightarrow> Lc \<subseteq> B \<Longrightarrow>
     frames B (snd (collect_yul_written_names db Lc post) \<union> snd (collect_yul_written_names db Lc body)) \<sigma> \<sigma>'"
proof (induction db LW C n ss \<sigma> w and db LW C n ss \<sigma> w and db LW C n s \<sigma> w and db LW C n cond post body \<sigma> w
    arbitrary: m D \<sigma>' w' B Lc and m \<sigma>' w' B Lc and m D \<sigma>' w' B Lc and m \<sigma>' w' B Lc
    rule: hseq_hblock_hstmt_hloop.induct)
  case (2 db LW C n s ss \<sigma> w)
  from "2.prems"(1) obtain m1 D1 \<sigma>1 w1 where s: "hstmt db LW C n s \<sigma> w = Inr (m1, D1, \<sigma>1, w1)"
    by (auto simp: res_bind_Inr_iff)
  note f = "2.IH"(1)[OF s "2.prems"(2)]
  show ?case
  proof (cases "m1 = MNormal")
    case True
    with "2.prems"(1) s obtain D2 where ss: "hseq db LW C n ss \<sigma>1 w1 = Inr (m, D2, \<sigma>', w')" "D = D1 \<union> D2"
      by (auto simp: res_bind_Inr_iff)
    from f True have "fst (collect_stmt_writes db Lc s) \<subseteq> B \<union> D1" by simp
    from "2.IH"(2)[OF s refl refl refl True ss(1) this] f True show ?thesis
      by (auto simp: writes_simps ss(2) intro: frames_trans)
  next
    case False
    with "2.prems"(1) s f show ?thesis by (auto simp: writes_simps intro: frames_mono)
  qed
next
  case (3 db LW C n ss \<sigma> w)
  from "3.prems"(1) obtain D \<sigma>1 where r: "hseq db LW C n ss \<sigma> w = Inr (m, D, \<sigma>1, w')" "\<sigma>' = leave_block D \<sigma> \<sigma>1"
    by (auto simp: res_bind_Inr_iff hblock.simps)
  from "3.IH"[OF r(1) "3.prems"(2)] show ?case by (simp add: r(2) frames_leave)
next
  case (4 db LW C n sp ss \<sigma> w)
  then show ?case by (auto simp: res_bind_Inr_iff writes_simps)
next
  case (9 db LW C n sp e body \<sigma> w)
  from "9.prems"(1) obtain v w0 where e: "heval1 db LW C \<sigma> e w = Inr (v, w0)" by (auto simp: res_bind_Inr_iff)
  with "9.prems" "9.IH"[OF e refl] show ?case by (auto simp: res_bind_Inr_iff writes_simps split: if_splits)
next
  case (10 db LW C n sp e cases dflt \<sigma> w)
  from "10.prems"(1) obtain v w0 where e: "heval1 db LW C \<sigma> e w = Inr (v, w0)" by (auto simp: res_bind_Inr_iff)
  show ?case
  proof (cases "find_hir_case LW v cases")
    case None
    show ?thesis
    proof (cases dflt)
      case (Some body)
      from "10.prems"(1) e None obtain \<sigma>1 where "hblock db LW C n body \<sigma> w0 = Inr (m, \<sigma>1, w')" "D = {}" "\<sigma>' = \<sigma>1"
        by (auto simp: Some res_bind_Inr_iff)
      with "10.IH"(1)[OF e refl None Some _ "10.prems"(2)] "10.prems"(2) show ?thesis
        by (auto simp: writes_simps Some intro: frames_mono)
    qed (use "10.prems" e None in \<open>auto simp: writes_simps\<close>)
  next
    case (Some body)
    with "10.prems" e "10.IH"(2)[OF e refl Some _ "10.prems"(2)] find_case_writes[OF Some, of db Lc] show ?thesis
      by (auto simp: res_bind_Inr_iff writes_simps intro: frames_mono)
  qed
next
  case (11 db LW C n sp init cond post body \<sigma> w)
  let ?W = "collect_yul_written_names db Lc init"
  from "11.prems"(1) obtain m1 D1 \<sigma>1 w1 where i: "hseq db LW C n init \<sigma> w = Inr (m1, D1, \<sigma>1, w1)"
    by (auto simp: res_bind_Inr_iff)
  note f = "11.IH"(1)[OF i "11.prems"(2)]
  show ?case
  proof (cases "m1 = MNormal")
    case True
    with "11.prems"(1) i obtain \<sigma>2 where l: "hloop db LW C n cond post body \<sigma>1 w1 = Inr (m, \<sigma>2, w')"
      and r: "D = {}" "\<sigma>' = leave_block D1 \<sigma> \<sigma>2" by (auto simp: res_bind_Inr_iff)
    from f True have "fst ?W \<subseteq> B \<union> D1" by simp
    from "11.IH"(2)[OF i refl refl refl True l this] f
    have "frames (B \<union> D1) (snd ?W \<union> (snd (collect_yul_written_names db (fst ?W) post)
        \<union> snd (collect_yul_written_names db (fst ?W) body))) \<sigma> \<sigma>2" by (auto intro: frames_trans)
    from frames_leave[OF this] "11.prems"(2) show ?thesis by (simp add: writes_simps r Un_assoc le_supI1)
  next
    case False
    with "11.prems" i f show ?thesis by (auto simp: writes_simps intro: frames_leave frames_mono)
  qed
next
  case (18 db LW C n cond post body \<sigma> w)
  from "18.prems"(1) obtain v w0 where c: "heval1 db LW C \<sigma> cond w = Inr (v, w0)" by (auto simp: res_bind_Inr_iff)
  show ?case
  proof (cases "v = 0")
    case True
    with "18.prems"(1) c show ?thesis by simp
  next
    case False
    with "18.prems"(1) c obtain m1 \<sigma>1 w1 where b: "hblock db LW C n body \<sigma> w0 = Inr (m1, \<sigma>1, w1)"
      by (auto simp: res_bind_Inr_iff)
    note f = "18.IH"(1)[OF c refl False b "18.prems"(2)]
    show ?thesis
    proof (cases "m1 = MBreak \<or> m1 = MLeave")
      case True
      with "18.prems"(1) c False b f show ?thesis by (auto intro: frames_mono split: if_splits)
    next
      case go: False
      with "18.prems"(1) c False b obtain m2 \<sigma>2 w2 where p: "hblock db LW C n post \<sigma>1 w1 = Inr (m2, \<sigma>2, w2)"
        by (auto simp: res_bind_Inr_iff split: if_splits)
      have br: "m1 \<noteq> MBreak" "m1 \<noteq> MLeave" using go by auto
      note g = "18.IH"(2)[OF c refl False b refl refl br p "18.prems"(2)]
      show ?thesis
      proof (cases "m2 = MNormal")
        case True
        with "18.prems"(1) c False b p br have l: "hloop db LW C n cond post body \<sigma>2 w2 = Inr (m, \<sigma>', w')" by simp
        from "18.IH"(3)[OF c refl False b refl refl br p refl refl True l "18.prems"(2)] f g show ?thesis
          by (auto intro: frames_trans)
      next
        case stop: False
        with "18.prems"(1) c False b p br f g show ?thesis by (auto intro: frames_trans)
      qed
    qed
  qed
qed (auto simp: res_bind_Inr_iff frames_def simp del: set_map split: if_splits
      dest: assign_vars_frame hide_vars_frame)

section \<open>Propagation preserves the outcome\<close>

text \<open>The substitution maps names to literals that have the value the store has.\<close>

definition agrees :: "lit_meaning \<Rightarrow> yul_subst \<Rightarrow> store \<Rightarrow> bool" where
  "agrees LW sub \<sigma> \<longleftrightarrow>
     (\<forall>x e. sub x = Some e \<longrightarrow> (\<exists>sp l v. e = HirYulExpr sp (HELit l) \<and> LW l = Some v \<and> \<sigma> x = Some v))"

lemma agrees_retain: "agrees LW sub \<sigma> \<Longrightarrow> agrees LW (retain_not ns sub) \<sigma>"
  by (simp add: agrees_def retain_not_def)

lemma agrees_frames: "agrees LW sub \<sigma> \<Longrightarrow> frames B W \<sigma> \<sigma>' \<Longrightarrow> (\<And>x. x \<in> B \<union> W \<Longrightarrow> sub x = None) \<Longrightarrow> agrees LW sub \<sigma>'"
  unfolding agrees_def frames_def by (metis UnCI option.distinct(1))

lemma heval_subst:
  "agrees LW sub \<sigma> \<Longrightarrow> heval db LW C \<sigma> (subst_yul_expr db sub e) w = heval db LW C \<sigma> e w"
  "agrees LW sub \<sigma> \<Longrightarrow> hargs db LW C \<sigma> (map (subst_yul_expr db sub) es) w = hargs db LW C \<sigma> es w"
proof (induction db LW C \<sigma> e w and db LW C \<sigma> es w rule: heval_hargs.induct)
  case (2 db LW C \<sigma> sp n w)
  show ?case
  proof (cases "sub (ident_text db n)")
    case (Some e)
    with 2 obtain sp l v where "e = HirYulExpr sp (HELit l)" "LW l = Some v" "\<sigma> (ident_text db n) = Some v"
      unfolding agrees_def by blast
    with Some show ?thesis by simp
  qed simp
next
  case (3 db LW C \<sigma> sp f es w)
  then show ?case by simp
next
  case (6 db LW C \<sigma> e es w)
  then show ?case by (cases "hargs db LW C \<sigma> es w") auto
qed simp_all

lemma heval1_subst: "agrees LW sub \<sigma> \<Longrightarrow> heval1 db LW C \<sigma> (subst_yul_expr db sub e) w = heval1 db LW C \<sigma> e w"
  by (simp add: heval1_def heval_subst)

lemma find_case_subst:
  "find_hir_case LW v (subst_yul_cases db sub cases) =
     map_option (\<lambda>body. fst (subst_yul_sequence db sub body)) (find_hir_case LW v cases)"
  by (induction LW v cases rule: find_hir_case.induct) simp_all

definition let_names :: "hir_db \<Rightarrow> hir_yul_stmt \<Rightarrow> name set" where
  "let_names db s = (case hys_kind s of HSLet ns _ \<Rightarrow> set (map (ident_text db) ns) | _ \<Rightarrow> {})"

lemma hstmt_declares: "hstmt db LW C n s \<sigma> w = Inr (m, D, \<sigma>', w') \<Longrightarrow> D \<subseteq> let_names db s"
proof -
  assume r: "hstmt db LW C n s \<sigma> w = Inr (m, D, \<sigma>', w')"
  obtain sp k where s: "s = HirYulStmt sp k" by (cases s)
  show ?thesis
  proof (cases k)
    case (HSLet xs init)
    with r s show ?thesis by (cases init) (auto simp: let_names_def res_bind_Inr_iff)
  qed (use r s in \<open>auto simp: let_names_def res_bind_Inr_iff split: if_splits option.splits\<close>)
qed

lemma subst_stmt_snd:
  "snd (subst_yul_stmt db sub s) =
     retain_not (snd (collect_stmt_writes db {} s)) (retain_not (let_names db s) sub)"
proof -
  obtain sp k where s: "s = HirYulStmt sp k" by (cases s)
  have "snd (subst_yul_kind db sub k) = retain_not (let_names db (HirYulStmt sp k)) sub"
    by (cases k) (auto simp: let_names_def retain_not_def split_beta Let_def)
  then show ?thesis by (simp add: s yul_written_names_def split_beta Let_def)
qed

lemma agrees_after_stmt:
  assumes "agrees LW sub \<sigma>" and "hstmt db LW C n s \<sigma> w = Inr (m, D, \<sigma>', w')"
  shows "agrees LW (snd (subst_yul_stmt db sub s)) \<sigma>'"
proof (rule agrees_frames)
  show "agrees LW (snd (subst_yul_stmt db sub s)) \<sigma>" by (simp add: subst_stmt_snd agrees_retain assms(1))
  show "frames ({} \<union> D) (snd (collect_stmt_writes db {} s)) \<sigma> \<sigma>'"
    using block_frame(3)[OF assms(2), of "{}" "{}"] by simp
qed (use hstmt_declares[OF assms(2)] in \<open>auto simp: subst_stmt_snd retain_not_def\<close>)

definition keeps_off :: "yul_subst \<Rightarrow> name set \<Rightarrow> bool" where
  "keeps_off sub ns \<longleftrightarrow> (\<forall>x\<in>ns. sub x = None)"

lemma agrees_after_block:
  assumes "agrees LW sub \<sigma>" and "hblock db LW C n ss \<sigma> w = Inr (m, \<sigma>', w')"
    and "keeps_off sub W" and "yul_written_names db ss \<subseteq> W"
  shows "agrees LW sub \<sigma>'"
  using agrees_frames[OF assms(1) block_frame(2)[OF assms(2), of "{}" "{}"]] assms(3,4)
  by (auto simp: yul_written_names_def keeps_off_def)

text \<open>What the induction shows of a sequence, a block, a statement and a loop.\<close>

definition seq_same :: "hir_db \<Rightarrow> lit_meaning \<Rightarrow> 'w ycalls \<Rightarrow> nat \<Rightarrow> hir_yul_stmt list \<Rightarrow> store \<Rightarrow> 'w \<Rightarrow> bool" where
  "seq_same db LW C n ss \<sigma> w \<longleftrightarrow> (\<forall>sub. agrees LW sub \<sigma> \<longrightarrow>
     hseq db LW C n (fst (subst_yul_sequence db sub ss)) \<sigma> w = hseq db LW C n ss \<sigma> w
     \<and> (\<forall>D \<sigma>' w'. hseq db LW C n ss \<sigma> w = Inr (MNormal, D, \<sigma>', w') \<longrightarrow> agrees LW (snd (subst_yul_sequence db sub ss)) \<sigma>'))"

definition block_same :: "hir_db \<Rightarrow> lit_meaning \<Rightarrow> 'w ycalls \<Rightarrow> nat \<Rightarrow> hir_yul_stmt list \<Rightarrow> store \<Rightarrow> 'w \<Rightarrow> bool" where
  "block_same db LW C n ss \<sigma> w \<longleftrightarrow> (\<forall>sub. agrees LW sub \<sigma> \<longrightarrow>
     hblock db LW C n (fst (subst_yul_sequence db sub ss)) \<sigma> w = hblock db LW C n ss \<sigma> w)"

definition stmt_same :: "hir_db \<Rightarrow> lit_meaning \<Rightarrow> 'w ycalls \<Rightarrow> nat \<Rightarrow> hir_yul_stmt \<Rightarrow> store \<Rightarrow> 'w \<Rightarrow> bool" where
  "stmt_same db LW C n s \<sigma> w \<longleftrightarrow> (\<forall>sub. agrees LW sub \<sigma> \<longrightarrow>
     hstmt db LW C n (fst (subst_yul_stmt db sub s)) \<sigma> w = hstmt db LW C n s \<sigma> w)"

definition loop_same :: "hir_db \<Rightarrow> lit_meaning \<Rightarrow> 'w ycalls \<Rightarrow> nat \<Rightarrow> hir_yul_expr \<Rightarrow> hir_yul_stmt list \<Rightarrow> hir_yul_stmt list \<Rightarrow> store \<Rightarrow> 'w \<Rightarrow> bool" where
  "loop_same db LW C n cond post body \<sigma> w \<longleftrightarrow>
     (\<forall>sub. agrees LW sub \<sigma> \<longrightarrow> keeps_off sub (yul_written_names db post \<union> yul_written_names db body) \<longrightarrow>
       hloop db LW C n (subst_yul_expr db sub cond) (fst (subst_yul_sequence db sub post)) (fst (subst_yul_sequence db sub body)) \<sigma> w
         = hloop db LW C n cond post body \<sigma> w)"

lemma substitution_same:
  "seq_same db LW C n ss \<sigma> w" "block_same db LW C n ss \<sigma> w" "stmt_same db LW C n s \<sigma> w"
  "loop_same db LW C n cond post body \<sigma> w"
proof (induction db LW C n ss \<sigma> w and db LW C n ss \<sigma> w and db LW C n s \<sigma> w and db LW C n cond post body \<sigma> w
    rule: hseq_hblock_hstmt_hloop.induct)
  case (1 db LW C n \<sigma> w)
  show ?case by (simp add: seq_same_def)
next
  case (2 db LW C n s ss \<sigma> w)
  show ?case
    unfolding seq_same_def
  proof (intro allI impI)
    fix sub
    assume a: "agrees LW sub \<sigma>"
    let ?s = "fst (subst_yul_stmt db sub s)" and ?sub = "snd (subst_yul_stmt db sub s)"
    have s: "hstmt db LW C n ?s \<sigma> w = hstmt db LW C n s \<sigma> w" using "2.IH"(1) a by (simp add: stmt_same_def)
    show "hseq db LW C n (fst (subst_yul_sequence db sub (s # ss))) \<sigma> w = hseq db LW C n (s # ss) \<sigma> w
        \<and> (\<forall>D \<sigma>' w'. hseq db LW C n (s # ss) \<sigma> w = Inr (MNormal, D, \<sigma>', w') \<longrightarrow>
             agrees LW (snd (subst_yul_sequence db sub (s # ss))) \<sigma>')"
    proof (cases "hstmt db LW C n s \<sigma> w")
      case (Inr r)
      obtain m1 D1 \<sigma>1 w1 where r: "r = (m1, D1, \<sigma>1, w1)" by (cases r)
      show ?thesis
      proof (cases "m1 = MNormal")
        case True
        note q = Inr[unfolded r True]
        from "2.IH"(2)[OF q refl refl refl refl] agrees_after_stmt[OF a q]
        have "hseq db LW C n (fst (subst_yul_sequence db ?sub ss)) \<sigma>1 w1 = hseq db LW C n ss \<sigma>1 w1"
          "\<And>D \<sigma>' w'. hseq db LW C n ss \<sigma>1 w1 = Inr (MNormal, D, \<sigma>', w') \<Longrightarrow> agrees LW (snd (subst_yul_sequence db ?sub ss)) \<sigma>'"
          by (simp_all add: seq_same_def)
        with q s show ?thesis by (auto simp: split_beta Let_def res_bind_Inr_iff)
      qed (use Inr r s in \<open>simp add: split_beta Let_def\<close>)
    qed (use s in \<open>simp add: split_beta Let_def\<close>)
  qed
next
  case (3 db LW C n ss \<sigma> w)
  then show ?case by (simp add: block_same_def seq_same_def hblock.simps)
next
  case (9 db LW C n sp e body \<sigma> w)
  show ?case
    unfolding stmt_same_def
  proof (intro allI impI)
    fix sub
    assume a: "agrees LW sub \<sigma>"
    show "hstmt db LW C n (fst (subst_yul_stmt db sub (HirYulStmt sp (HSIf e body)))) \<sigma> w = hstmt db LW C n (HirYulStmt sp (HSIf e body)) \<sigma> w"
    proof (cases "heval1 db LW C \<sigma> e w")
      case (Inr r)
      with "9.IH"[OF Inr, of "fst r" "snd r"] a show ?thesis
        by (cases r) (auto simp: split_beta Let_def heval1_subst block_same_def)
    qed (use a in \<open>simp add: split_beta Let_def heval1_subst\<close>)
  qed
next
  case (10 db LW C n sp e cases dflt \<sigma> w)
  show ?case
    unfolding stmt_same_def
  proof (intro allI impI)
    fix sub
    assume a: "agrees LW sub \<sigma>"
    let ?s = "HirYulStmt sp (HSSwitch e cases dflt)"
    show "hstmt db LW C n (fst (subst_yul_stmt db sub ?s)) \<sigma> w = hstmt db LW C n ?s \<sigma> w"
    proof (cases "heval1 db LW C \<sigma> e w")
      case (Inr r)
      obtain v w0 where r: "r = (v, w0)" by (cases r)
      note e = Inr[unfolded r]
      show ?thesis
      proof (cases "find_hir_case LW v cases")
        case None
        with a e "10.IH"(1)[OF e refl None] show ?thesis
          by (cases dflt) (auto simp: split_beta Let_def heval1_subst find_case_subst block_same_def)
      next
        case (Some body)
        with a e "10.IH"(2)[OF e refl Some] show ?thesis
          by (auto simp: split_beta Let_def heval1_subst find_case_subst block_same_def)
      qed
    qed (use a in \<open>simp add: split_beta Let_def heval1_subst\<close>)
  qed
next
  case (11 db LW C n sp init cond post body \<sigma> w)
  show ?case
    unfolding stmt_same_def
  proof (intro allI impI)
    fix sub
    assume a: "agrees LW sub \<sigma>"
    let ?W = "yul_written_names db post \<union> yul_written_names db body"
    let ?init = "subst_yul_sequence db sub init" and ?s = "HirYulStmt sp (HSFor init cond post body)"
    let ?inner = "retain_not ?W (snd ?init)"
    have i: "hseq db LW C n (fst ?init) \<sigma> w = hseq db LW C n init \<sigma> w" using "11.IH"(1) a by (simp add: seq_same_def)
    show "hstmt db LW C n (fst (subst_yul_stmt db sub ?s)) \<sigma> w = hstmt db LW C n ?s \<sigma> w"
    proof (cases "hseq db LW C n init \<sigma> w")
      case (Inr r)
      obtain m1 D1 \<sigma>1 w1 where r: "r = (m1, D1, \<sigma>1, w1)" by (cases r)
      show ?thesis
      proof (cases "m1 = MNormal")
        case True
        note q = Inr[unfolded r True]
        have "agrees LW ?inner \<sigma>1" using "11.IH"(1) a q by (simp add: agrees_retain seq_same_def)
        moreover have "keeps_off ?inner ?W" by (simp add: keeps_off_def retain_not_def)
        ultimately show ?thesis using "11.IH"(2)[OF q refl refl refl refl] q i
          by (simp add: split_beta Let_def loop_same_def)
      qed (use Inr r i in \<open>simp add: split_beta Let_def\<close>)
    qed (use i in \<open>simp add: split_beta Let_def\<close>)
  qed
next
  case (18 db LW C n cond post body \<sigma> w)
  show ?case
    unfolding loop_same_def
  proof (intro allI impI)
    fix sub
    assume a: "agrees LW sub \<sigma>" and k: "keeps_off sub (yul_written_names db post \<union> yul_written_names db body)"
    let ?post = "fst (subst_yul_sequence db sub post)" and ?body = "fst (subst_yul_sequence db sub body)"
    let ?cond = "subst_yul_expr db sub cond"
    show "hloop db LW C (Suc n) ?cond ?post ?body \<sigma> w = hloop db LW C (Suc n) cond post body \<sigma> w"
    proof (cases "heval1 db LW C \<sigma> cond w")
      case (Inr r)
      obtain v w0 where r: "r = (v, w0)" by (cases r)
      note c = Inr[unfolded r]
      show ?thesis
      proof (cases "v = 0")
        case False
        have b: "hblock db LW C n ?body \<sigma> w0 = hblock db LW C n body \<sigma> w0"
          using "18.IH"(1)[OF c refl False] a by (simp add: block_same_def)
        show ?thesis
        proof (cases "hblock db LW C n body \<sigma> w0")
          case (Inr q)
          obtain m1 \<sigma>1 w1 where q: "q = (m1, \<sigma>1, w1)" by (cases q)
          note bb = Inr[unfolded q]
          show ?thesis
          proof (cases "m1 = MBreak \<or> m1 = MLeave")
            case going: False
            then have br: "m1 \<noteq> MBreak" "m1 \<noteq> MLeave" by auto
            have a1: "agrees LW sub \<sigma>1" by (rule agrees_after_block[OF a bb k]) simp
            have p: "hblock db LW C n ?post \<sigma>1 w1 = hblock db LW C n post \<sigma>1 w1"
              using "18.IH"(2)[OF c refl False bb refl refl br] a1 by (simp add: block_same_def)
            show ?thesis
            proof (cases "hblock db LW C n post \<sigma>1 w1")
              case (Inr q)
              obtain m2 \<sigma>2 w2 where q: "q = (m2, \<sigma>2, w2)" by (cases q)
              note pp = Inr[unfolded q]
              show ?thesis
              proof (cases "m2 = MNormal")
                case True
                have "agrees LW sub \<sigma>2" by (rule agrees_after_block[OF a1 pp k]) simp
                with "18.IH"(3)[OF c refl False bb refl refl br pp refl refl True] k
                have "hloop db LW C n ?cond ?post ?body \<sigma>2 w2 = hloop db LW C n cond post body \<sigma>2 w2" by (simp add: loop_same_def)
                with a c False b bb br p pp True show ?thesis by (simp add: heval1_subst)
              qed (use a c False b bb br p pp in \<open>simp add: heval1_subst\<close>)
            qed (use a c False b bb br p in \<open>simp add: heval1_subst\<close>)
          qed (use a c False b bb in \<open>auto simp: heval1_subst\<close>)
        qed (use a c False b in \<open>simp add: heval1_subst\<close>)
      qed (use a c in \<open>simp add: heval1_subst\<close>)
    qed (use a in \<open>simp add: heval1_subst\<close>)
  qed
qed (auto simp: stmt_same_def block_same_def loop_same_def split_beta Let_def heval_subst)

text \<open>C8. Propagating known constants into an assembly block leaves its outcome as it was: for every
  meaning of literals and calls, every bound on loop iterations and every store in which the
  propagated names have the values of their literals, the block ends in the same way, in the same store
  and in the same machine state, through assignments, loops, switches and names that are declared anew
  in nested blocks.\<close>

theorem subst_yul_block_preserves:
  assumes "agrees LW sub \<sigma>"
  shows "hblock db LW C n (subst_yul_block db sub body) \<sigma> w = hblock db LW C n body \<sigma> w"
  using substitution_same(2)[of db LW C n body \<sigma> w] assms by (simp add: block_same_def subst_yul_block_def)

text \<open>The body of a function is not touched: with nothing to propagate, substitution is the identity.\<close>

lemma subst_empty:
  "sub = Map.empty \<Longrightarrow> subst_yul_kind db sub k = (k, Map.empty)"
  "sub = Map.empty \<Longrightarrow> subst_yul_stmt db sub s = (s, Map.empty)"
  "sub = Map.empty \<Longrightarrow> subst_yul_sequence db sub ss = (ss, Map.empty)"
  "sub = Map.empty \<Longrightarrow> subst_yul_cases db sub cases = cases"
proof -
  have e: "subst_yul_expr db Map.empty x = x" for db x
  proof (induction db "Map.empty :: yul_subst" x rule: subst_yul_expr.induct)
    case (2 db sp f args)
    then have "map (subst_yul_expr db Map.empty) args = args" by (intro map_idI) simp
    then show ?case by simp
  qed simp_all
  then have m: "map_option (subst_yul_expr db Map.empty) i = i" for db i by (cases i) simp_all
  have r: "retain_not ns Map.empty = Map.empty" for ns by (simp add: retain_not_def)
  show "sub = Map.empty \<Longrightarrow> subst_yul_kind db sub k = (k, Map.empty)"
    "sub = Map.empty \<Longrightarrow> subst_yul_stmt db sub s = (s, Map.empty)"
    "sub = Map.empty \<Longrightarrow> subst_yul_sequence db sub ss = (ss, Map.empty)"
    "sub = Map.empty \<Longrightarrow> subst_yul_cases db sub cases = cases"
    by (induction db sub k and db sub s and db sub ss and db sub cases
        rule: subst_yul_kind_subst_yul_stmt_subst_yul_sequence_subst_yul_cases.induct)
       (simp_all add: e m r Let_def split: option.split)
qed

theorem subst_yul_block_preserves_witness:
  "let sp = \<lparr>anchor = 0, sp_begin = 0, sp_end = 0\<rparr>; five = HirYulExpr sp (HELit (HLNumber ''5''));
       body = [HirYulStmt sp (HSAssign [Spanned 1 sp] (HirYulExpr sp (HEIdent (Spanned 0 sp))))];
       db = (\<lambda>n. if n = 0 then ''x'' else ''y'');
       LW = (\<lambda>l. if l = HLNumber ''5'' then Some 5 else None)
   in subst_yul_block db [''x'' \<mapsto> five] body = [HirYulStmt sp (HSAssign [Spanned 1 sp] five)]
     \<and> hblock db LW (\<lambda>f vs w. Inl Stuck) 0 (subst_yul_block db [''x'' \<mapsto> five] body) [''x'' \<mapsto> 5, ''y'' \<mapsto> 1] ()
       = hblock db LW (\<lambda>f vs w. Inl Stuck) 0 body [''x'' \<mapsto> 5, ''y'' \<mapsto> 1] ()"
  unfolding Let_def
  by (intro conjI subst_yul_block_preserves)
     (simp_all add: agrees_def subst_yul_block_def ident_text_def)

end
