(* ===== verification/Comptime_Yul.thy ===== *)
theory Comptime_Yul
  imports Big_Word Yul_Subst
begin

text \<open>
  Compile-time evaluation of inline assembly: the predicates \<open>asm_is_interpretable\<close> and
  \<open>asm_is_comptime_pure\<close> of \<open>crates/specialize/src/evaluate/yul_const.rs\<close>, and \<open>eval_yul_block\<close> with
  the byte memory of the evaluator (\<open>evaluate/core.rs\<close>). The record \<open>evaluator\<close> holds the two fields of the
  Rust struct that this code reads or writes. A method with \<open>&mut self\<close> returns the evaluator also when it
  fails, since the writes before the failure stay.
\<close>

section \<open>The evaluator\<close>

record evaluator =
  comptime_mode :: bool
  ev_memory :: "bigint \<rightharpoonup> 8 word"

type_synonym yul_state = "name \<rightharpoonup> bigint"

definition byte_address :: "bigint \<Rightarrow> nat \<Rightarrow> bigint" where
  "byte_address offset i = big_add offset (from_u64 (of_nat i))"

definition ev_mstore :: "bigint \<Rightarrow> bigint \<Rightarrow> evaluator \<Rightarrow> evaluator" where
  "ev_mstore offset v ev =
     ev\<lparr>ev_memory := fold (\<lambda>(i, byte) m. m(byte_address offset i \<mapsto> byte))
         (enumerate 0 (to_word_be_bytes (mod_word v))) (ev_memory ev)\<rparr>"

definition ev_mload :: "evaluator \<Rightarrow> bigint \<Rightarrow> bigint option" where
  "ev_mload ev offset =
     map_option from_be_bytes (those (map (\<lambda>i. ev_memory ev (byte_address offset i)) [0..<32]))"

fun eval_yul_expr :: "hir_db \<Rightarrow> evaluator \<Rightarrow> yul_state \<Rightarrow> hir_yul_expr \<Rightarrow> bigint option" where
  "eval_yul_expr db ev st (HirYulExpr sp (HEIdent n)) = st (ident_text db n)"
| "eval_yul_expr db ev st (HirYulExpr sp (HELit (HLNumber s))) = from_decimal_str s"
| "eval_yul_expr db ev st (HirYulExpr sp (HELit (HLHex s))) = from_hex_str s"
| "eval_yul_expr db ev st (HirYulExpr sp (HELit (HLBool b))) = Some (from_u64 (if b then 1 else 0))"
| "eval_yul_expr db ev st (HirYulExpr sp (HECall f args)) =
     (if ident_text db f = ''mload'' \<and> length args = 1
      then if \<not> comptime_mode ev then None
           else case map (eval_yul_expr db ev st) args of
                  [Some offset] \<Rightarrow> ev_mload ev offset
                | _ \<Rightarrow> None
      else case those (map (eval_yul_expr db ev st) args) of
             None \<Rightarrow> None
           | Some vs \<Rightarrow> eval_yul_op (ident_text db f) vs)"
| "eval_yul_expr db ev st (HirYulExpr sp (HELit (HLString _))) = None"
| "eval_yul_expr db ev st (HirYulExpr sp (HELit HLError)) = None"
| "eval_yul_expr db ev st (HirYulExpr sp HEError) = None"

fun eval_yul_stmt :: "hir_db \<Rightarrow> evaluator \<Rightarrow> yul_state \<Rightarrow> hir_yul_stmt \<Rightarrow> evaluator \<times> yul_state option" where
  "eval_yul_stmt db ev st (HirYulStmt sp (HSAssign [n] v)) =
     (ev, case eval_yul_expr db ev st v of None \<Rightarrow> None | Some b \<Rightarrow> Some (st(ident_text db n \<mapsto> b)))"
| "eval_yul_stmt db ev st (HirYulStmt sp (HSExpr (HirYulExpr sp' (HECall f [a, b])))) =
     (if ident_text db f = ''mstore'' then
        if \<not> comptime_mode ev then (ev, None)
        else (case (eval_yul_expr db ev st a, eval_yul_expr db ev st b) of
                (Some offset, Some v) \<Rightarrow> (ev_mstore offset v ev, Some st)
              | _ \<Rightarrow> (ev, None))
      else if ident_text db f = ''mstore8'' then
        if \<not> comptime_mode ev then (ev, None)
        else (case (eval_yul_expr db ev st a, eval_yul_expr db ev st b) of
                (Some offset, Some v) \<Rightarrow>
                  (ev\<lparr>ev_memory := (ev_memory ev)(offset \<mapsto> word_low_byte v)\<rparr>, Some st)
              | _ \<Rightarrow> (ev, None))
      else (ev, None))"
| "eval_yul_stmt db ev st s = (ev, None)"

fun eval_yul_block :: "hir_db \<Rightarrow> evaluator \<Rightarrow> yul_state \<Rightarrow> hir_yul_stmt list \<Rightarrow> evaluator \<times> yul_state option" where
  "eval_yul_block db ev st [] = (ev, Some st)"
| "eval_yul_block db ev st (s # ss) =
     (case eval_yul_stmt db ev st s of
        (ev, None) \<Rightarrow> (ev, None)
      | (ev, Some st) \<Rightarrow> eval_yul_block db ev st ss)"

section \<open>Interpretable assembly\<close>

fun yul_expr_is_interpretable :: "hir_db \<Rightarrow> hir_yul_expr \<Rightarrow> bool \<Rightarrow> bool" where
  "yul_expr_is_interpretable db (HirYulExpr sp (HEIdent n)) allow_memory = True"
| "yul_expr_is_interpretable db (HirYulExpr sp (HELit l)) allow_memory =
     (case l of HLNumber _ \<Rightarrow> True | HLHex _ \<Rightarrow> True | HLBool _ \<Rightarrow> True | HLString _ \<Rightarrow> False | HLError \<Rightarrow> False)"
| "yul_expr_is_interpretable db (HirYulExpr sp (HECall f args)) allow_memory =
     ((allow_memory \<and> ident_text db f = ''mload'' \<and> length args = 1
        \<or> yul_op_is_interpretable (ident_text db f) (length args))
      \<and> list_all (\<lambda>e. yul_expr_is_interpretable db e allow_memory) args)"
| "yul_expr_is_interpretable db (HirYulExpr sp HEError) allow_memory = False"

fun stmt_is_interpretable :: "hir_db \<Rightarrow> bool \<Rightarrow> hir_yul_stmt \<Rightarrow> bool" where
  "stmt_is_interpretable db allow_memory (HirYulStmt sp (HSAssign [n] v)) =
     yul_expr_is_interpretable db v allow_memory"
| "stmt_is_interpretable db allow_memory (HirYulStmt sp (HSExpr (HirYulExpr sp' (HECall f [a, b])))) =
     (allow_memory \<and> (ident_text db f = ''mstore'' \<or> ident_text db f = ''mstore8'')
      \<and> yul_expr_is_interpretable db a allow_memory \<and> yul_expr_is_interpretable db b allow_memory)"
| "stmt_is_interpretable db allow_memory s = False"

definition asm_is_interpretable_with :: "hir_db \<Rightarrow> hir_yul_stmt list \<Rightarrow> bool \<Rightarrow> bool" where
  "asm_is_interpretable_with db body allow_memory = list_all (stmt_is_interpretable db allow_memory) body"

definition asm_is_interpretable :: "hir_db \<Rightarrow> hir_yul_stmt list \<Rightarrow> bool" where
  "asm_is_interpretable db body = asm_is_interpretable_with db body True"

definition asm_is_comptime_pure :: "hir_db \<Rightarrow> hir_yul_stmt list \<Rightarrow> bool" where
  "asm_is_comptime_pure db body = asm_is_interpretable_with db body False"

section \<open>Memory\<close>

lemma byte_address_ok:
  assumes "big_ok offset" and "i < 2 ^ 64"
  shows "big_ok (byte_address offset i)" "big_val (byte_address offset i) = big_val offset + int i"
  using assms by (simp_all add: byte_address_def big_simps unsigned_of_nat take_bit_nat_eq_self uint_nat del: of_nat_unat)

lemma byte_address_inject:
  assumes "big_ok a" and "big_ok b" and "i < 32" and "j < 32"
  shows "byte_address a i = byte_address b j \<longleftrightarrow> big_val a + int i = big_val b + int j"
proof -
  have "i < 2 ^ 64" "j < 2 ^ 64" using assms(3,4) by simp_all
  then show ?thesis using byte_address_ok[OF assms(1)] byte_address_ok[OF assms(2)] big_unique by metis
qed

lemma fold_updates_other:
  "(\<And>i. i < length bytes \<Longrightarrow> f (k + i) \<noteq> a) \<Longrightarrow>
     fold (\<lambda>(i, byte) m. m(f i \<mapsto> byte)) (enumerate k bytes) m a = m a"
proof (induction bytes arbitrary: k m)
  case (Cons b bytes)
  from Cons.prems[of 0] have "f k \<noteq> a" by simp
  moreover have "f (Suc k + i) \<noteq> a" if "i < length bytes" for i using Cons.prems[of "Suc i"] that by simp
  ultimately show ?case using Cons.IH[of "Suc k"] by simp
qed simp

lemma fold_updates_at:
  "i < length bytes \<Longrightarrow> inj_on f {k..<k + length bytes} \<Longrightarrow>
     fold (\<lambda>(i, byte) m. m(f i \<mapsto> byte)) (enumerate k bytes) m (f (k + i)) = Some (bytes ! i)"
proof (induction bytes arbitrary: k i m)
  case (Cons b bytes)
  show ?case
  proof (cases i)
    case 0
    have "f (Suc k + j) \<noteq> f k" if "j < length bytes" for j
      using Cons.prems(2) that by (auto dest: inj_onD)
    then show ?thesis using fold_updates_other[of bytes f "Suc k" "f k"] by (simp add: 0 fun_upd_same del: fun_upd_apply)
  next
    case (Suc j)
    have "inj_on f {Suc k..<Suc k + length bytes}" by (rule inj_on_subset[OF Cons.prems(2)]) auto
    with Cons.IH[of j "Suc k"] Cons.prems(1) Suc show ?thesis by simp
  qed
qed simp

lemma those_map_Some: "those (map (\<lambda>x. Some (f x)) xs) = Some (map f xs)"
  by (induction xs) simp_all

lemma those_map_cong: "(\<And>x. x \<in> set xs \<Longrightarrow> f x = g x) \<Longrightarrow> those (map f xs) = those (map g xs)"
  by (simp cong: map_cong)

lemma mload_mstore:
  assumes "big_ok offset" and v: "big_ok v"
  shows "ev_mload (ev_mstore offset v ev) offset = Some (mod_word v)"
proof -
  let ?bytes = "to_word_be_bytes (mod_word v)"
  have "inj_on (byte_address offset) {0..<0 + length ?bytes}"
    by (rule inj_onI) (simp add: byte_address_inject assms(1))
  then have "ev_memory (ev_mstore offset v ev) (byte_address offset i) = Some (?bytes ! i)" if "i < 32" for i
    using fold_updates_at[of i ?bytes "byte_address offset" 0] that by (simp add: ev_mstore_def)
  then have "those (map (\<lambda>i. ev_memory (ev_mstore offset v ev) (byte_address offset i)) [0..<32])
      = those (map (\<lambda>i. Some (?bytes ! i)) [0..<32])"
    by (intro those_map_cong) (simp only: set_upt atLeastLessThan_iff)
  also have "\<dots> = Some ?bytes" using map_nth[of ?bytes] by (simp only: those_map_Some to_word_be_bytes_length)
  finally have l: "ev_mload (ev_mstore offset v ev) offset = Some (from_be_bytes ?bytes)" by (simp only: ev_mload_def option.map)
  have m: "big_ok (mod_word v)" "big_word (mod_word v) = big_word v"
    using mod_word_represents[OF v] by (auto simp: represents_def represents_big_word)
  from represents_unique[OF be_bytes_round_trip[OF m(1), unfolded m(2)] mod_word_represents[OF v]] show ?thesis
    unfolding l by simp
qed

lemma mload_other:
  assumes "big_ok offset" and "big_ok offset'" and "32 \<le> \<bar>big_val offset' - big_val offset\<bar>"
  shows "ev_mload (ev_mstore offset v ev) offset' = ev_mload ev offset'"
proof -
  let ?bytes = "to_word_be_bytes (mod_word v)"
  have "ev_memory (ev_mstore offset v ev) (byte_address offset' i) = ev_memory ev (byte_address offset' i)" if "i < 32" for i
  proof -
    have "byte_address offset (0 + j) \<noteq> byte_address offset' i" if "j < length ?bytes" for j
      using byte_address_inject[OF assms(1,2), of j i] that \<open>i < 32\<close> assms(3) by auto
    from fold_updates_other[of ?bytes "byte_address offset" 0, OF this] show ?thesis by (simp add: ev_mstore_def)
  qed
  then have "those (map (\<lambda>i. ev_memory (ev_mstore offset v ev) (byte_address offset' i)) [0..<32])
      = those (map (\<lambda>i. ev_memory ev (byte_address offset' i)) [0..<32])"
    by (intro those_map_cong) (simp only: set_upt atLeastLessThan_iff)
  then show ?thesis by (simp only: ev_mload_def)
qed

text \<open>C27. A word stored in the compile-time memory is read back reduced modulo \<open>2^256\<close>, and a load
  that does not overlap the store reads what it read before; addresses are integers of any size.\<close>

theorem comptime_memory_reads_writes:
  assumes "big_ok offset" and "big_ok offset'" and "big_ok v"
    and "offset' = offset \<or> 32 \<le> \<bar>big_val offset' - big_val offset\<bar>"
  shows "ev_mload (ev_mstore offset v ev) offset' = (if offset' = offset then Some (mod_word v) else ev_mload ev offset')"
proof (cases "offset' = offset")
  case True
  with mload_mstore[OF assms(1,3)] show ?thesis by simp
next
  case False
  with mload_other[OF assms(1,2)] assms(4) show ?thesis by simp
qed

theorem comptime_memory_reads_writes_witness:
  "let a = \<lparr>sign = 1, magnitude = [64]\<rparr>; v = \<lparr>sign = -1, magnitude = [1]\<rparr>
   in ev_mload (ev_mstore a v \<lparr>comptime_mode = True, ev_memory = Map.empty\<rparr>) a = Some (mod_word v)"
  using comptime_memory_reads_writes[of "\<lparr>sign = 1, magnitude = [64]\<rparr>" "\<lparr>sign = 1, magnitude = [64]\<rparr>" "\<lparr>sign = -1, magnitude = [1]\<rparr>"]
  by (simp add: big_ok_def Let_def)

section \<open>Pure assembly\<close>

text \<open>What a literal of the assembly denotes, and the machine that the builtins of pure assembly run on:
  any state, which they leave alone.\<close>

fun asm_lit_word :: "hir_yul_lit \<Rightarrow> 256 word option" where
  "asm_lit_word (HLNumber s) = map_option word_of_int (signed_digits 10 (strip_minus s))"
| "asm_lit_word (HLHex s) = map_option word_of_int (signed_digits 16 (hex_body (strip_minus s)))"
| "asm_lit_word (HLBool b) = Some (of_bool b)"
| "asm_lit_word (HLString s) = None"
| "asm_lit_word HLError = None"

definition evm_calls :: "'w ycalls" where
  "evm_calls f vs w = (case evm_op f vs of Some v \<Rightarrow> Inr ([v], w) | None \<Rightarrow> Inl Stuck)"

text \<open>The names an expression reads are known, and its literals are well formed.\<close>

fun expr_ready :: "hir_db \<Rightarrow> name set \<Rightarrow> hir_yul_expr \<Rightarrow> bool" where
  "expr_ready db known (HirYulExpr sp (HELit l)) \<longleftrightarrow> asm_lit_word l \<noteq> None"
| "expr_ready db known (HirYulExpr sp (HEIdent n)) \<longleftrightarrow> ident_text db n \<in> known"
| "expr_ready db known (HirYulExpr sp (HECall f args)) \<longleftrightarrow> list_all (expr_ready db known) args"
| "expr_ready db known (HirYulExpr sp HEError) \<longleftrightarrow> False"

fun asm_ready :: "hir_db \<Rightarrow> name set \<Rightarrow> hir_yul_stmt list \<Rightarrow> bool" where
  "asm_ready db known [] \<longleftrightarrow> True"
| "asm_ready db known (HirYulStmt sp (HSAssign [n] v) # ss) \<longleftrightarrow>
     expr_ready db known v \<and> asm_ready db (insert (ident_text db n) known) ss"
| "asm_ready db known (s # ss) \<longleftrightarrow> False"

text \<open>The store holds the word of every known number, and of nothing unknown is anything said.\<close>

definition state_covers :: "yul_state \<Rightarrow> store \<Rightarrow> bool" where
  "state_covers st \<sigma> \<longleftrightarrow> (\<forall>x b. st x = Some b \<longrightarrow> big_ok b \<and> \<sigma> x = Some (big_word b))"

lemma asm_lit_evaluates:
  assumes "yul_expr_is_interpretable db (HirYulExpr sp (HELit l)) m" and "asm_lit_word l = Some v"
  shows "\<exists>b. eval_yul_expr db ev st (HirYulExpr sp (HELit l)) = Some b \<and> big_ok b \<and> big_word b = v"
proof (cases l)
  case (HLNumber s)
  with assms(2) from_decimal_str_ok[of s] show ?thesis by (cases "from_decimal_str s") (auto simp: big_word_def)
next
  case (HLHex s)
  with assms(2) from_hex_str_ok[of s] show ?thesis by (cases "from_hex_str s") (auto simp: big_word_def)
next
  case (HLBool b)
  with assms(2) show ?thesis by (auto simp: big_word_def big_simps)
qed (use assms in simp_all)

lemma mload_not_an_op: "\<not> yul_op_is_interpretable ''mload'' k"
  by (simp add: yul_op_is_interpretable_def interpretable_ops_def)

lemma pure_args_evaluate:
  assumes "\<And>e. e \<in> set es \<Longrightarrow> \<exists>b. eval_yul_expr db ev st e = Some b \<and> big_ok b
      \<and> heval db LW C \<sigma> e w = Inr ([big_word b], w)"
  shows "\<exists>vs. those (map (eval_yul_expr db ev st) es) = Some vs \<and> list_all big_ok vs \<and> length vs = length es
    \<and> hargs db LW C \<sigma> es w = Inr (map big_word vs, w)"
  using assms
proof (induction es)
  case (Cons e es)
  then obtain vs where vs: "those (map (eval_yul_expr db ev st) es) = Some vs" "list_all big_ok vs" "length vs = length es"
    "hargs db LW C \<sigma> es w = Inr (map big_word vs, w)" by fastforce
  from Cons.prems[of e] obtain b where "eval_yul_expr db ev st e = Some b" "big_ok b" "heval db LW C \<sigma> e w = Inr ([big_word b], w)"
    by auto
  with vs show ?case by (intro exI[of _ "b # vs"]) simp
qed simp

lemma pure_expr_evaluates:
  "yul_expr_is_interpretable db e False \<Longrightarrow> expr_ready db (dom st) e \<Longrightarrow> state_covers st \<sigma> \<Longrightarrow>
     \<exists>b. eval_yul_expr db ev st e = Some b \<and> big_ok b \<and> heval db asm_lit_word evm_calls \<sigma> e w = Inr ([big_word b], w)"
proof (induction db "dom st" e rule: expr_ready.induct)
  case (1 db sp l)
  then obtain v where "asm_lit_word l = Some v" by auto
  with asm_lit_evaluates[OF 1(1) this, of ev st] show ?case by auto
next
  case (2 db sp n)
  then obtain b where "st (ident_text db n) = Some b" by auto
  with 2(3) show ?case by (auto simp: state_covers_def)
next
  case (3 db sp f args)
  have op: "yul_op_is_interpretable (ident_text db f) (length args)" using "3.prems"(1) by simp
  have "\<exists>b. eval_yul_expr db ev st e = Some b \<and> big_ok b \<and> heval db asm_lit_word evm_calls \<sigma> e w = Inr ([big_word b], w)"
    if "e \<in> set args" for e using 3 that by (simp add: list_all_iff)
  then obtain vs where vs: "those (map (eval_yul_expr db ev st) args) = Some vs" "list_all big_ok vs" "length vs = length args"
    "hargs db asm_lit_word evm_calls \<sigma> args w = Inr (map big_word vs, w)"
    using pure_args_evaluate[of args db ev st asm_lit_word evm_calls \<sigma> w] by blast
  obtain b where b: "eval_yul_op (ident_text db f) vs = Some b" using op interpretable_iff[of "ident_text db f" vs] vs(3) by auto
  with eval_yul_op_evm[OF vs(2), of "ident_text db f"] obtain x where "evm_op (ident_text db f) (map big_word vs) = Some x" "represents b x"
    by (cases "evm_op (ident_text db f) (map big_word vs)") auto
  moreover have "ident_text db f \<noteq> ''mload''" using op mload_not_an_op by metis
  ultimately show ?case using vs b by (auto simp: evm_calls_def represents_big_word) (simp add: represents_def)
qed simp

lemma pure_stmt: "stmt_is_interpretable db False s \<Longrightarrow> \<exists>sp n v. s = HirYulStmt sp (HSAssign [n] v)"
  by (cases "(db, False, s)" rule: stmt_is_interpretable.cases) auto

text \<open>C9. Assembly that passes \<open>asm_is_comptime_pure\<close> always evaluates at compile time once the names it
  reads are known and its literals are well formed, in either mode and without touching the memory, and
  the evaluation agrees with the execution: run on any store that holds the known numbers as words, the
  block ends normally in a store that holds the numbers computed.\<close>

theorem pure_assembly_evaluates:
  assumes "asm_is_comptime_pure db body" and "asm_ready db (dom st) body"
    and "state_covers st \<sigma>" and "yul_written_names db body \<subseteq> dom \<sigma>"
  shows "\<exists>st' \<sigma>'. eval_yul_block db ev st body = (ev, Some st')
    \<and> hseq db asm_lit_word evm_calls n body \<sigma> w = Inr (MNormal, {}, \<sigma>', w) \<and> state_covers st' \<sigma>'"
  using assms
proof (induction body arbitrary: st \<sigma>)
  case (Cons s body)
  from Cons.prems(1) have "stmt_is_interpretable db False s" "asm_is_comptime_pure db body"
    by (simp_all add: asm_is_comptime_pure_def asm_is_interpretable_with_def)
  moreover from pure_stmt[OF this(1)] obtain sp x e where s: "s = HirYulStmt sp (HSAssign [x] e)" by blast
  ultimately have i: "yul_expr_is_interpretable db e False" "asm_is_comptime_pure db body" by simp_all
  let ?x = "ident_text db x"
  have r: "expr_ready db (dom st) e" "asm_ready db (insert ?x (dom st)) body" using Cons.prems(2) by (simp_all add: s)
  have w: "?x \<in> dom \<sigma>" "yul_written_names db body \<subseteq> dom \<sigma>"
    using Cons.prems(4) by (auto simp: s yul_written_names_def split_beta Let_def)
  from pure_expr_evaluates[OF i(1) r(1) Cons.prems(3), of ev w] obtain b where b: "eval_yul_expr db ev st e = Some b" "big_ok b"
    "heval db asm_lit_word evm_calls \<sigma> e w = Inr ([big_word b], w)" by blast
  let ?st = "st(?x \<mapsto> b)" and ?\<sigma> = "\<sigma>(?x \<mapsto> big_word b)"
  have c: "state_covers ?st ?\<sigma>" using Cons.prems(3) b(2) by (simp add: state_covers_def)
  have "asm_ready db (dom ?st) body" "yul_written_names db body \<subseteq> dom ?\<sigma>" using r(2) w by auto
  from Cons.IH[OF i(2) this(1) c this(2)] obtain st' \<sigma>' where "eval_yul_block db ev ?st body = (ev, Some st')"
    "hseq db asm_lit_word evm_calls n body ?\<sigma> w = Inr (MNormal, {}, \<sigma>', w)" "state_covers st' \<sigma>'" by blast
  with b w(1) show ?case by (intro exI[of _ st'] exI[of _ \<sigma>']) (auto simp: s assign_vars_def)
qed simp

theorem pure_assembly_evaluates_witness:
  "let sp = \<lparr>anchor = 0, sp_begin = 0, sp_end = 0\<rparr>;
       db = (\<lambda>n. if n = 0 then ''x'' else ''not'');
       body = [HirYulStmt sp (HSAssign [Spanned 0 sp]
         (HirYulExpr sp (HECall (Spanned 1 sp) [HirYulExpr sp (HEIdent (Spanned 0 sp))])))]
   in \<exists>st' \<sigma>'. eval_yul_block db \<lparr>comptime_mode = False, ev_memory = Map.empty\<rparr> [''x'' \<mapsto> big_zero] body
         = (\<lparr>comptime_mode = False, ev_memory = Map.empty\<rparr>, Some st')
       \<and> hseq db asm_lit_word evm_calls 0 body [''x'' \<mapsto> 0] () = Inr (MNormal, {}, \<sigma>', ())
       \<and> state_covers st' \<sigma>'"
  unfolding Let_def
  by (rule pure_assembly_evaluates)
     (simp_all add: asm_is_comptime_pure_def asm_is_interpretable_with_def yul_op_is_interpretable_def
      interpretable_ops_def ident_text_def state_covers_def yul_written_names_def big_word_def)

section \<open>Only interpretable assembly evaluates\<close>

text \<open>The converse: whatever the evaluator evaluates, the predicates allow, with memory exactly in
  compile-time mode.\<close>

lemma those_Some_iff: "those xs = Some ys \<longleftrightarrow> xs = map Some ys"
  by (induction xs arbitrary: ys) (auto split: option.splits)

lemma evaluated_expr_is_interpretable:
  "eval_yul_expr db ev st e = Some b \<Longrightarrow> yul_expr_is_interpretable db e (comptime_mode ev)"
proof (induction db ev st e arbitrary: b rule: eval_yul_expr.induct)
  case (5 db ev st sp f args)
  have args: "list_all (\<lambda>e. yul_expr_is_interpretable db e (comptime_mode ev)) args"
    if m: "map (eval_yul_expr db ev st) args = map Some vs"
      and ih: "\<And>e c. e \<in> set args \<Longrightarrow> eval_yul_expr db ev st e = Some c \<Longrightarrow> yul_expr_is_interpretable db e (comptime_mode ev)" for vs
  proof -
    have "\<exists>c. eval_yul_expr db ev st e = Some c" if "e \<in> set args" for e
    proof -
      have "eval_yul_expr db ev st e \<in> set (map (eval_yul_expr db ev st) args)" using that by simp
      then show ?thesis unfolding m by auto
    qed
    with ih show ?thesis unfolding list_all_iff by blast
  qed
  show ?case
  proof (cases "ident_text db f = ''mload'' \<and> length args = 1")
    case True
    then obtain a where a: "args = [a]" by (auto simp: length_Suc_conv)
    with 5(3) True show ?thesis using 5(1)[OF True, of a] by (auto split: if_splits option.splits)
  next
    case False
    with 5(3) obtain vs where vs: "map (eval_yul_expr db ev st) args = map Some vs" "eval_yul_op (ident_text db f) vs \<noteq> None"
      by (auto simp: those_Some_iff split: option.splits)
    then have "length vs = length args" by (metis length_map)
    with vs(2) interpretable_iff[of "ident_text db f" vs] have "yul_op_is_interpretable (ident_text db f) (length args)" by simp
    with args[OF vs(1)] 5(2)[OF False] show ?thesis by simp
  qed
qed auto

lemma evaluated_stmt_shape:
  assumes "eval_yul_stmt db ev st s = (ev', Some st')"
  obtains sp n v where "s = HirYulStmt sp (HSAssign [n] v)"
    | sp sp' f a b where "s = HirYulStmt sp (HSExpr (HirYulExpr sp' (HECall f [a, b])))"
  using assms by (cases "(db, ev, st, s)" rule: eval_yul_stmt.cases) simp_all

lemma evaluated_stmt_is_interpretable:
  assumes "eval_yul_stmt db ev st s = (ev', Some st')"
  shows "stmt_is_interpretable db (comptime_mode ev) s \<and> comptime_mode ev' = comptime_mode ev"
  using assms
proof (cases rule: evaluated_stmt_shape)
  case (1 sp n v)
  with assms evaluated_expr_is_interpretable show ?thesis by (cases "eval_yul_expr db ev st v") auto
next
  case (2 sp sp' f a b)
  with assms have m: "ident_text db f = ''mstore'' \<or> ident_text db f = ''mstore8''" "comptime_mode ev"
    by (auto split: if_splits)
  with 2 assms obtain x y where "eval_yul_expr db ev st a = Some x" "eval_yul_expr db ev st b = Some y"
    by (auto split: if_splits option.splits)
  with 2 m assms evaluated_expr_is_interpretable[of db ev st] show ?thesis
    by (auto simp: ev_mstore_def split: if_splits)
qed

lemma evaluated_asm_is_interpretable:
  "eval_yul_block db ev st body = (ev', Some st') \<Longrightarrow> asm_is_interpretable_with db body (comptime_mode ev)"
proof (induction body arbitrary: ev st)
  case (Cons s body)
  then obtain ev1 st1 where s: "eval_yul_stmt db ev st s = (ev1, Some st1)" "eval_yul_block db ev1 st1 body = (ev', Some st')"
    by (auto split: prod.splits option.splits)
  from evaluated_stmt_is_interpretable[OF s(1)] Cons.IH[OF s(2)] show ?case by (simp add: asm_is_interpretable_with_def)
qed (simp add: asm_is_interpretable_with_def)

end
