(* ===== verification/Keccak.thy ===== *)
theory Keccak
  imports Prelude
begin

text \<open>
  Keccak-256 (\<open>crates/hir/src/keccak.rs\<close>): the hash of compile-time strings and of selectors. An array
  is a list of fixed length; a loop over indices is a fold over the list of its indices in the order of
  the code. The reference is the permutation of FIPS 202 on bits, with its rotation offsets, its round
  constants generated by the shift register, and its padding.
\<close>

unbundle bit_operations_syntax

section \<open>The code\<close>

definition RATE :: nat where
  "RATE = 136"

definition ROUND_CONSTANTS :: "64 word list" where
  "ROUND_CONSTANTS =
     [0x1, 0x8082, 0x800000000000808a, 0x8000000080008000, 0x808b, 0x80000001, 0x8000000080008081,
      0x8000000000008009, 0x8a, 0x88, 0x80008009, 0x8000000a, 0x8000808b, 0x800000000000008b,
      0x8000000000008089, 0x8000000000008003, 0x8000000000008002, 0x8000000000000080, 0x800a,
      0x800000008000000a, 0x8000000080008081, 0x8000000000008080, 0x80000001, 0x8000000080008008]"

definition ROTATION_OFFSETS :: "nat list" where
  "ROTATION_OFFSETS =
     [0, 1, 62, 28, 27, 36, 44, 6, 55, 20, 3, 10, 43, 25, 39, 41, 45, 15, 21, 8, 18, 2, 61, 56, 14]"

text \<open>The nested loops over \<open>y\<close> and \<open>x\<close>.\<close>

definition lane_indices :: "(nat \<times> nat) list" where
  "lane_indices = concat (map (\<lambda>y. map (\<lambda>x. (x, y)) [0..<5]) [0..<5])"

definition column_parities :: "64 word list \<Rightarrow> 64 word list" where
  "column_parities state =
     map (\<lambda>x. state ! x XOR state ! (x + 5) XOR state ! (x + 10) XOR state ! (x + 15) XOR state ! (x + 20)) [0..<5]"

definition theta_step :: "64 word list \<Rightarrow> 64 word list" where
  "theta_step state =
     (let c = column_parities state;
          d = map (\<lambda>x. c ! ((x + 4) mod 5) XOR word_rotl 1 (c ! ((x + 1) mod 5))) [0..<5]
      in fold (\<lambda>(x, y) s. s[x + 5 * y := s ! (x + 5 * y) XOR d ! x]) lane_indices state)"

definition rho_pi_step :: "64 word list \<Rightarrow> 64 word list" where
  "rho_pi_step state =
     fold (\<lambda>(x, y) b. b[y + 5 * ((2 * x + 3 * y) mod 5) :=
         word_rotl (ROTATION_OFFSETS ! (x + 5 * y)) (state ! (x + 5 * y))]) lane_indices (replicate 25 0)"

definition chi_step :: "64 word list \<Rightarrow> 64 word list \<Rightarrow> 64 word list" where
  "chi_step b state =
     fold (\<lambda>(x, y) s. s[x + 5 * y :=
         b ! (x + 5 * y) XOR (NOT (b ! ((x + 1) mod 5 + 5 * y)) AND b ! ((x + 2) mod 5 + 5 * y))])
       lane_indices state"

definition keccak_round :: "64 word \<Rightarrow> 64 word list \<Rightarrow> 64 word list" where
  "keccak_round rc state =
     (let state = theta_step state;
          state = chi_step (rho_pi_step state) state
      in state[0 := state ! 0 XOR rc])"

definition keccak_f1600 :: "64 word list \<Rightarrow> 64 word list" where
  "keccak_f1600 state = fold keccak_round ROUND_CONSTANTS state"

definition from_le_bytes :: "8 word list \<Rightarrow> 64 word" where
  "from_le_bytes bytes = foldr (\<lambda>byte v. ucast byte OR push_bit 8 v) bytes 0"

text \<open>\<open>chunks_exact\<close> and its remainder.\<close>

function chunks_exact :: "nat \<Rightarrow> 'a list \<Rightarrow> 'a list list \<times> 'a list" where
  "chunks_exact n xs =
     (if n = 0 \<or> length xs < n then ([], xs)
      else let (cs, r) = chunks_exact n (drop n xs) in (take n xs # cs, r))"
  by pat_completeness auto
termination
  by (relation "measure (\<lambda>(n, xs). length xs)") auto

declare chunks_exact.simps [simp del]

definition absorb_block :: "64 word list \<Rightarrow> 8 word list \<Rightarrow> 64 word list" where
  "absorb_block state block =
     fold (\<lambda>(lane, bytes) s. s[lane := s ! lane XOR from_le_bytes bytes])
       (enumerate 0 (fst (chunks_exact 8 block))) state"

definition keccak256 :: "8 word list \<Rightarrow> 8 word list" where
  "keccak256 input =
     (let (blocks, rem) = chunks_exact RATE input;
          state = fold (\<lambda>block s. keccak_f1600 (absorb_block s block)) blocks (replicate 25 0);
          block = rem @ replicate (RATE - length rem) 0;
          block = block[length rem := block ! length rem XOR 1];
          block = block[RATE - 1 := block ! (RATE - 1) XOR 0x80];
          state = keccak_f1600 (absorb_block state block)
      in map (\<lambda>i. ucast (drop_bit (8 * (i mod 8)) (state ! (i div 8)) AND 255)) [0..<32])"

section \<open>The reference: FIPS 202\<close>

type_synonym bit_state = "nat \<Rightarrow> nat \<Rightarrow> nat \<Rightarrow> bool"

definition fips_theta :: "bit_state \<Rightarrow> bit_state" where
  "fips_theta A x y z =
     (let C = (\<lambda>x z. A x 0 z \<noteq> (A x 1 z \<noteq> (A x 2 z \<noteq> (A x 3 z \<noteq> A x 4 z))))
      in A x y z \<noteq> (C ((x + 4) mod 5) z \<noteq> C ((x + 1) mod 5) ((z + 63) mod 64)))"

text \<open>The offset of a lane: the position of the walk \<open>(x, y) := (y, 2x + 3y)\<close> from \<open>(1, 0)\<close>.\<close>

fun rho_walk :: "nat \<Rightarrow> nat \<times> nat" where
  "rho_walk 0 = (1, 0)"
| "rho_walk (Suc t) = (case rho_walk t of (x, y) \<Rightarrow> (y, (2 * x + 3 * y) mod 5))"

definition rho_offset :: "nat \<Rightarrow> nat \<Rightarrow> nat" where
  "rho_offset x y =
     (case find (\<lambda>t. rho_walk t = (x, y)) [0..<24] of
        None \<Rightarrow> 0
      | Some t \<Rightarrow> (t + 1) * (t + 2) div 2 mod 64)"

definition fips_rho :: "bit_state \<Rightarrow> bit_state" where
  "fips_rho A x y z = A x y ((z + (64 - rho_offset x y)) mod 64)"

definition fips_pi :: "bit_state \<Rightarrow> bit_state" where
  "fips_pi A x y z = A ((x + 3 * y) mod 5) x z"

definition fips_chi :: "bit_state \<Rightarrow> bit_state" where
  "fips_chi A x y z = (A x y z \<noteq> (\<not> A ((x + 1) mod 5) y z \<and> A ((x + 2) mod 5) y z))"

text \<open>One step of the shift register on eight bits, of which \<open>rc\<close> is the first.\<close>

definition lfsr_step :: "bool list \<Rightarrow> bool list" where
  "lfsr_step R =
     (let r8 = R ! 7
      in [r8, R ! 0, R ! 1, R ! 2, R ! 3 \<noteq> r8, R ! 4 \<noteq> r8, R ! 5 \<noteq> r8, R ! 6])"

definition rc_bit :: "nat \<Rightarrow> bool" where
  "rc_bit t = ((lfsr_step ^^ t) [True, False, False, False, False, False, False, False] ! 0)"

definition fips_iota :: "nat \<Rightarrow> bit_state \<Rightarrow> bit_state" where
  "fips_iota ir A x y z =
     (A x y z \<noteq> (x = 0 \<and> y = 0 \<and> (\<exists>j\<in>{0..<7}. z = 2 ^ j - 1 \<and> rc_bit (j + 7 * ir))))"

definition fips_round :: "nat \<Rightarrow> bit_state \<Rightarrow> bit_state" where
  "fips_round ir A = fips_iota ir (fips_chi (fips_pi (fips_rho (fips_theta A))))"

definition fips_keccak_f :: "bit_state \<Rightarrow> bit_state" where
  "fips_keccak_f A = fold fips_round [0..<24] A"

text \<open>The bits of bytes, least significant first, the padding \<open>pad10*1\<close>, and the sponge with a rate of
  1088 bits, of which the first 256 bits of the state are the hash.\<close>

definition message_bits :: "8 word list \<Rightarrow> bool list" where
  "message_bits bytes = concat (map (\<lambda>b. map (bit b) [0..<8]) bytes)"

definition pad10_1 :: "nat \<Rightarrow> nat \<Rightarrow> bool list" where
  "pad10_1 r len = True # replicate ((r - (len + 2) mod r) mod r) False @ [True]"

definition fips_absorb :: "bool list \<Rightarrow> bit_state \<Rightarrow> bit_state" where
  "fips_absorb P A x y z = (A x y z \<noteq> (64 * (x + 5 * y) + z < length P \<and> P ! (64 * (x + 5 * y) + z)))"

definition fips_keccak256 :: "bool list \<Rightarrow> bool list" where
  "fips_keccak256 M =
     (let A = fold (\<lambda>P A. fips_keccak_f (fips_absorb P A)) (fst (chunks_exact 1088 (M @ pad10_1 1088 (length M))))
                (\<lambda>x y z. False)
      in map (\<lambda>i. A (i div 64 mod 5) (i div 64 div 5) (i mod 64)) [0..<256])"

section \<open>Loops over the lanes\<close>

lemma fold_update_other:
  "i \<notin> f ` set ps \<Longrightarrow> fold (\<lambda>q s. s[f q := g q (s ! f q)]) ps s ! i = s ! i"
  by (induction ps arbitrary: s) (auto simp: nth_list_update_neq)

lemma fold_update_length [simp]: "length (fold (\<lambda>q s. s[f q := g q (s ! f q)]) ps s) = length s"
  by (induction ps arbitrary: s) simp_all

lemma fold_update_at:
  "distinct (map f ps) \<Longrightarrow> p \<in> set ps \<Longrightarrow> (\<And>q. q \<in> set ps \<Longrightarrow> f q < length s) \<Longrightarrow>
     fold (\<lambda>q s. s[f q := g q (s ! f q)]) ps s ! f p = g p (s ! f p)"
proof (induction ps arbitrary: s)
  case (Cons a ps)
  show ?case
  proof (cases "p = a")
    case True
    with Cons.prems fold_update_other[of "f a" f ps g "s[f a := g a (s ! f a)]"] show ?thesis by simp
  next
    case False
    with Cons.prems have "p \<in> set ps" "f a \<noteq> f p" by auto
    with Cons.IH[of "s[f a := g a (s ! f a)]"] Cons.prems show ?thesis by (simp add: nth_list_update_neq)
  qed
qed simp

definition lane_index :: "nat \<times> nat \<Rightarrow> nat" where
  "lane_index = (\<lambda>(x, y). x + 5 * y)"

definition pi_index :: "nat \<times> nat \<Rightarrow> nat" where
  "pi_index = (\<lambda>(x, y). y + 5 * ((2 * x + 3 * y) mod 5))"

lemma lane_indices_set: "(x, y) \<in> set lane_indices \<longleftrightarrow> x < 5 \<and> y < 5"
  by (auto simp: lane_indices_def image_iff)

lemma lane_indices_distinct: "distinct (map lane_index lane_indices)" "distinct (map pi_index lane_indices)"
  unfolding lane_indices_def lane_index_def pi_index_def by code_simp+

lemma lane_index_bound: "p \<in> set lane_indices \<Longrightarrow> lane_index p < 25" "p \<in> set lane_indices \<Longrightarrow> pi_index p < 25"
proof -
  have "y + 5 * ((2 * x + 3 * y) mod 5) < 25" if "y < 5" for x y :: nat
    using that mod_less_divisor[of 5 "2 * x + 3 * y"] by linarith
  then show "p \<in> set lane_indices \<Longrightarrow> pi_index p < 25"
    by (cases p) (simp add: lane_indices_set pi_index_def)
  show "p \<in> set lane_indices \<Longrightarrow> lane_index p < 25" by (cases p) (simp add: lane_indices_set lane_index_def)
qed

lemma theta_step_fold: "theta_step state =
    fold (\<lambda>q s. s[lane_index q := (case q of (x, y) \<Rightarrow> \<lambda>v. v XOR
       (column_parities state ! ((x + 4) mod 5) XOR word_rotl 1 (column_parities state ! ((x + 1) mod 5)))) (s ! lane_index q)])
      lane_indices state"
  unfolding theta_step_def Let_def lane_index_def
  by (rule fold_cong) (auto simp: lane_indices_set fun_eq_iff)

lemma rho_pi_step_fold: "rho_pi_step state =
    fold (\<lambda>q b. b[pi_index q := (case q of (x, y) \<Rightarrow> \<lambda>v. word_rotl (ROTATION_OFFSETS ! (x + 5 * y)) (state ! (x + 5 * y))) (b ! pi_index q)])
      lane_indices (replicate 25 0)"
  unfolding rho_pi_step_def pi_index_def by (rule fold_cong) (auto simp: fun_eq_iff)

lemma chi_step_fold: "chi_step b state =
    fold (\<lambda>q s. s[lane_index q := (case q of (x, y) \<Rightarrow> \<lambda>v. b ! (x + 5 * y) XOR
        (NOT (b ! ((x + 1) mod 5 + 5 * y)) AND b ! ((x + 2) mod 5 + 5 * y))) (s ! lane_index q)]) lane_indices state"
  unfolding chi_step_def lane_index_def by (rule fold_cong) (auto simp: fun_eq_iff)

lemma step_lengths [simp]:
  "length (theta_step state) = length state" "length (rho_pi_step state) = 25" "length (chi_step b state) = length state"
  unfolding theta_step_fold rho_pi_step_fold chi_step_fold by simp_all

lemma theta_step_nth:
  assumes "length state = 25" and "x < 5" and "y < 5"
  shows "theta_step state ! (x + 5 * y) = state ! (x + 5 * y) XOR
    (column_parities state ! ((x + 4) mod 5) XOR word_rotl 1 (column_parities state ! ((x + 1) mod 5)))"
  using fold_update_at[OF lane_indices_distinct(1), of "(x, y)" state] assms lane_index_bound(1)
  unfolding theta_step_fold by (simp add: lane_indices_set lane_index_def)

lemma rho_pi_step_nth:
  assumes "x < 5" and "y < 5"
  shows "rho_pi_step state ! (y + 5 * ((2 * x + 3 * y) mod 5)) = word_rotl (ROTATION_OFFSETS ! (x + 5 * y)) (state ! (x + 5 * y))"
proof -
  let ?g = "\<lambda>q. case q of (x, y) \<Rightarrow> \<lambda>v :: 64 word. word_rotl (ROTATION_OFFSETS ! (x + 5 * y)) (state ! (x + 5 * y))"
  have "(x, y) \<in> set lane_indices" using assms by (simp add: lane_indices_set)
  from fold_update_at[OF lane_indices_distinct(2) this, of "replicate 25 0" ?g] lane_index_bound(2)
  have "rho_pi_step state ! pi_index (x, y) = ?g (x, y) (replicate 25 0 ! pi_index (x, y))"
    unfolding rho_pi_step_fold by (simp only: length_replicate)
  then show ?thesis by (simp only: pi_index_def prod.case)
qed

lemma chi_step_nth:
  assumes "length state = 25" and "x < 5" and "y < 5"
  shows "chi_step b state ! (x + 5 * y) =
    b ! (x + 5 * y) XOR (NOT (b ! ((x + 1) mod 5 + 5 * y)) AND b ! ((x + 2) mod 5 + 5 * y))"
  using fold_update_at[OF lane_indices_distinct(1), of "(x, y)" state] assms lane_index_bound(1)
  unfolding chi_step_fold by (simp add: lane_indices_set lane_index_def)

section \<open>The round on bits\<close>

definition same_bits :: "bit_state \<Rightarrow> 64 word list \<Rightarrow> bool" where
  "same_bits A state \<longleftrightarrow> length state = 25 \<and> (\<forall>x<5. \<forall>y<5. \<forall>z<64. A x y z = bit (state ! (x + 5 * y)) z)"

lemma same_bitsD: "same_bits A state \<Longrightarrow> x < 5 \<Longrightarrow> y < 5 \<Longrightarrow> z < 64 \<Longrightarrow> A x y z = bit (state ! (x + 5 * y)) z"
  by (simp add: same_bits_def)

lemma column_parity_bit:
  assumes "same_bits A state" and "x < 5" and "z < 64"
  shows "bit (column_parities state ! x) z = (A x 0 z \<noteq> (A x 1 z \<noteq> (A x 2 z \<noteq> (A x 3 z \<noteq> A x 4 z))))"
  using assms by (auto simp: column_parities_def bit_xor_iff same_bitsD simp del: upt_rec_numeral)

lemma theta_same:
  assumes s: "same_bits A state"
  shows "same_bits (fips_theta A) (theta_step state)"
  unfolding same_bits_def
proof (intro conjI allI impI)
  have len: "length state = 25" using s by (simp add: same_bits_def)
  then show "length (theta_step state) = 25" by simp
  fix x y z :: nat
  assume x: "x < 5" and y: "y < 5" and z: "z < 64"
  have "bit (word_rotl 1 v) z = bit v ((z + 63) mod 64)" for v :: "64 word" using z by (simp add: bit_word_rotl_iff)
  then show "fips_theta A x y z = bit (theta_step state ! (x + 5 * y)) z"
    using s x y z unfolding theta_step_nth[OF len x y] fips_theta_def Let_def
    by (simp add: bit_xor_iff column_parity_bit[OF s] same_bitsD)
qed

lemma rotation_table: "list_all (\<lambda>(x, y). ROTATION_OFFSETS ! (x + 5 * y) = rho_offset x y \<and> rho_offset x y < 64) lane_indices"
  unfolding lane_indices_def ROTATION_OFFSETS_def rho_offset_def by code_simp

lemma pi_source:
  assumes "x < 5" and "y < 5"
  shows "(2 * ((x + 3 * y) mod 5) + 3 * x) mod 5 = (y :: nat)"
proof -
  have "(2 * ((x + 3 * y) mod 5) + 3 * x) mod 5 = (2 * (x + 3 * y) + 3 * x) mod 5"
    by (metis mod_add_left_eq mod_mult_right_eq)
  also have "2 * (x + 3 * y) + 3 * x = y + (x + y) * 5" by simp
  finally show ?thesis using assms(2) by (simp only: mod_mult_self1 mod_less)
qed

lemma rho_pi_same:
  assumes s: "same_bits A state"
  shows "same_bits (fips_pi (fips_rho A)) (rho_pi_step state)"
  unfolding same_bits_def
proof (intro conjI allI impI)
  fix x y z :: nat
  assume x: "x < 5" and y: "y < 5" and z: "z < 64"
  let ?x = "(x + 3 * y) mod 5"
  have x': "?x < 5" by simp
  have "rho_pi_step state ! (x + 5 * y) = word_rotl (ROTATION_OFFSETS ! (?x + 5 * x)) (state ! (?x + 5 * x))"
    using rho_pi_step_nth[OF x' x, of state] pi_source[OF x y] by simp
  moreover have "ROTATION_OFFSETS ! (?x + 5 * x) = rho_offset ?x x" "rho_offset ?x x < 64"
    using rotation_table lane_indices_set[of ?x x] x' x by (auto simp: list_all_iff)
  ultimately have "bit (rho_pi_step state ! (x + 5 * y)) z = bit (state ! (?x + 5 * x)) ((z + (64 - rho_offset ?x x)) mod 64)"
    using z by (simp add: bit_word_rotl_iff)
  then show "fips_pi (fips_rho A) x y z = bit (rho_pi_step state ! (x + 5 * y)) z"
    using same_bitsD[OF s x' x] by (simp add: fips_pi_def fips_rho_def)
qed simp

lemma chi_same:
  assumes b: "same_bits A b" and len: "length state = 25"
  shows "same_bits (fips_chi A) (chi_step b state)"
  unfolding same_bits_def
proof (intro conjI allI impI)
  fix x y z :: nat
  assume x: "x < 5" and y: "y < 5" and z: "z < 64"
  then show "fips_chi A x y z = bit (chi_step b state ! (x + 5 * y)) z"
    using b unfolding chi_step_nth[OF len x y] fips_chi_def
    by (simp add: bit_xor_iff bit_and_iff bit_not_iff same_bitsD)
qed (use len in simp)

section \<open>Round constants\<close>

text \<open>The register from a state on, to evaluate all of its outputs in one pass.\<close>

fun lfsr_outputs :: "nat \<Rightarrow> bool list \<Rightarrow> bool list" where
  "lfsr_outputs 0 R = []"
| "lfsr_outputs (Suc n) R = R ! 0 # lfsr_outputs n (lfsr_step R)"

lemma lfsr_outputs_nth: "t < n \<Longrightarrow> lfsr_outputs n R ! t = ((lfsr_step ^^ t) R ! 0)"
proof (induction n R arbitrary: t rule: lfsr_outputs.induct)
  case (2 n R)
  then show ?case by (cases t) (simp_all add: funpow_swap1)
qed simp

definition rc_word :: "(nat \<Rightarrow> bool) \<Rightarrow> nat \<Rightarrow> 64 word" where
  "rc_word rc ir = foldr (\<lambda>j w. (if rc (j + 7 * ir) then push_bit (2 ^ j - 1) 1 else 0) OR w) [0..<7] 0"

lemma round_constants_table: "ROUND_CONSTANTS = map (rc_word (\<lambda>t. lfsr_outputs 168 [True, False, False, False, False, False, False, False] ! t)) [0..<24]"
  unfolding ROUND_CONSTANTS_def rc_word_def by code_simp

lemma round_constants_rc: "ROUND_CONSTANTS = map (rc_word rc_bit) [0..<24]"
proof -
  have "rc_word (\<lambda>t. lfsr_outputs 168 [True, False, False, False, False, False, False, False] ! t) ir = rc_word rc_bit ir"
    if "ir < 24" for ir
    unfolding rc_word_def
  proof (rule foldr_cong[OF refl refl])
    fix j w
    assume "j \<in> set [0..<7]"
    then have "j + 7 * ir < 168" using that by simp
    from lfsr_outputs_nth[OF this]
    show "(if lfsr_outputs 168 [True, False, False, False, False, False, False, False] ! (j + 7 * ir) then push_bit (2 ^ j - 1) 1 else 0) OR w
        = (if rc_bit (j + 7 * ir) then push_bit (2 ^ j - 1) 1 else 0) OR w" by (simp only: rc_bit_def)
  qed
  then show ?thesis unfolding round_constants_table by (intro map_cong[OF refl]) simp
qed

lemma rc_word_bit:
  assumes "z < 64"
  shows "bit (rc_word rc ir) z \<longleftrightarrow> (\<exists>j\<in>{0..<7}. z = 2 ^ j - 1 \<and> rc (j + 7 * ir))"
proof -
  have "bit (foldr (\<lambda>j w. (if rc (j + 7 * ir) then push_bit (2 ^ j - 1) (1 :: 64 word) else 0) OR w) js 0) z
      \<longleftrightarrow> (\<exists>j\<in>set js. z = 2 ^ j - 1 \<and> rc (j + 7 * ir))" for js
  proof (induction js)
    case (Cons j js)
    have "bit (push_bit (2 ^ j - 1) (1 :: 64 word)) z \<longleftrightarrow> z = 2 ^ j - 1"
      using assms unfolding bit_push_bit_iff by (auto simp: bit_1_iff)
    then have "bit (if rc (j + 7 * ir) then push_bit (2 ^ j - 1) (1 :: 64 word) else 0) z \<longleftrightarrow> z = 2 ^ j - 1 \<and> rc (j + 7 * ir)"
      by (simp del: push_bit_of_1)
    with Cons show ?case by (simp only: foldr.simps o_apply bit_or_iff set_simps bex_simps)
  qed simp
  then show ?thesis unfolding rc_word_def by simp
qed

lemma iota_same:
  assumes s: "same_bits A state" and ir: "ir < 24"
  shows "same_bits (fips_iota ir A) (state[0 := state ! 0 XOR ROUND_CONSTANTS ! ir])"
  unfolding same_bits_def
proof (intro conjI allI impI)
  have rc: "ROUND_CONSTANTS ! ir = rc_word rc_bit ir" using ir unfolding round_constants_rc by simp
  have len: "length state = 25" using s by (simp add: same_bits_def)
  then show "length (state[0 := state ! 0 XOR ROUND_CONSTANTS ! ir]) = 25" by simp
  fix x y z :: nat
  assume x: "x < 5" and y: "y < 5" and z: "z < 64"
  show "fips_iota ir A x y z = bit (state[0 := state ! 0 XOR ROUND_CONSTANTS ! ir] ! (x + 5 * y)) z"
  proof (cases "x = 0 \<and> y = 0")
    case True
    then show ?thesis
      using len same_bitsD[OF s x y z] unfolding fips_iota_def rc rc_word_bit[OF z, symmetric] by (simp add: bit_xor_iff)
  next
    case False
    then have "x + 5 * y \<noteq> 0" by simp
    then have "state[0 := state ! 0 XOR ROUND_CONSTANTS ! ir] ! (x + 5 * y) = state ! (x + 5 * y)"
      by (simp only: nth_list_update_neq)
    moreover have "fips_iota ir A x y z = A x y z" using False by (auto simp: fips_iota_def)
    ultimately show ?thesis using same_bitsD[OF s x y z] by simp
  qed
qed

lemma round_same:
  assumes s: "same_bits A state" and ir: "ir < 24"
  shows "same_bits (fips_round ir A) (keccak_round (ROUND_CONSTANTS ! ir) state)"
proof -
  have t: "same_bits (fips_theta A) (theta_step state)" by (rule theta_same[OF s])
  then have "length (theta_step state) = 25" by (simp add: same_bits_def)
  from iota_same[OF chi_same[OF rho_pi_same[OF t] this] ir] show ?thesis
    by (simp add: fips_round_def keccak_round_def Let_def)
qed

lemma rounds_same:
  assumes "same_bits A state"
  shows "k \<le> 24 \<Longrightarrow> same_bits (fold fips_round [0..<k] A) (fold keccak_round (take k ROUND_CONSTANTS) state)"
proof (induction k)
  case (Suc k)
  have "length ROUND_CONSTANTS = 24" by (simp only: round_constants_rc length_map length_upt)
  with Suc round_same[of _ _ k] show ?case by (simp add: take_Suc_conv_app_nth)
qed (use assms in simp)

text \<open>The permutation of the code is Keccak-f[1600] of the standard.\<close>

lemma keccak_f1600_same: "same_bits A state \<Longrightarrow> same_bits (fips_keccak_f A) (keccak_f1600 state)"
proof -
  assume s: "same_bits A state"
  have "take 24 ROUND_CONSTANTS = ROUND_CONSTANTS" by (rule take_all) (simp only: round_constants_rc length_map length_upt)
  with rounds_same[OF s, of 24] show ?thesis by (simp only: keccak_f1600_def fips_keccak_f_def order_refl simp_thms)
qed

section \<open>The sponge\<close>

text \<open>Padding to a multiple of the rate: the first and the last byte of the padding are 1 and 128, and
  one byte holds both when only one is missing.\<close>

definition keccak_pad :: "nat \<Rightarrow> 8 word list" where
  "keccak_pad len =
     (let missing = RATE - len mod RATE
      in if missing = 1 then [0x81] else 1 # replicate (missing - 2) 0 @ [0x80])"

definition squeeze :: "64 word list \<Rightarrow> 8 word list" where
  "squeeze state = map (\<lambda>i. ucast (drop_bit (8 * (i mod 8)) (state ! (i div 8)) AND 255)) [0..<32]"

definition sponge :: "8 word list \<Rightarrow> 8 word list" where
  "sponge bytes =
     squeeze (fold (\<lambda>block s. keccak_f1600 (absorb_block s block)) (fst (chunks_exact RATE bytes)) (replicate 25 0))"

lemma chunks_exact_props:
  assumes "0 < n"
  shows "length (snd (chunks_exact n xs)) = length xs mod n"
    "length (snd (chunks_exact n xs) @ ys) = n \<Longrightarrow>
       chunks_exact n (xs @ ys) = (fst (chunks_exact n xs) @ [snd (chunks_exact n xs) @ ys], [])"
proof -
  have "length (snd (chunks_exact n xs)) = length xs mod n \<and> (length (snd (chunks_exact n xs) @ ys) = n \<longrightarrow>
       chunks_exact n (xs @ ys) = (fst (chunks_exact n xs) @ [snd (chunks_exact n xs) @ ys], []))"
    using assms
  proof (induction n xs rule: chunks_exact.induct)
    case (1 n xs)
    show ?case
    proof (cases "length xs < n")
      case True
      have e: "chunks_exact n xs = ([], xs)" using True by (subst chunks_exact.simps) simp
      have "chunks_exact n (xs @ ys) = ([xs @ ys], [])" if "length xs + length ys = n"
        using 1(2) that by (subst chunks_exact.simps, simp, subst chunks_exact.simps) simp
      with e True show ?thesis by simp
    next
      case False
      then have s: "chunks_exact n xs = (take n xs # fst (chunks_exact n (drop n xs)), snd (chunks_exact n (drop n xs)))"
        using 1(2) by (subst chunks_exact.simps) (simp add: split_beta Let_def)
      from False have a: "chunks_exact n (xs @ ys) =
          (take n xs # fst (chunks_exact n (drop n xs @ ys)), snd (chunks_exact n (drop n xs @ ys)))"
        using 1(2) by (subst chunks_exact.simps) (simp add: split_beta Let_def)
      have "length xs mod n = (length xs - n) mod n" using False by (simp add: le_mod_geq)
      with 1(1)[OF _ 1(2)] 1(2) False s a show ?thesis by simp
    qed
  qed
  then show "length (snd (chunks_exact n xs)) = length xs mod n"
    "length (snd (chunks_exact n xs) @ ys) = n \<Longrightarrow>
       chunks_exact n (xs @ ys) = (fst (chunks_exact n xs) @ [snd (chunks_exact n xs) @ ys], [])" by simp_all
qed

lemma padded_block:
  fixes r :: "8 word list"
  assumes r: "length r < RATE"
  shows "(let block = r @ replicate (RATE - length r) 0; block = block[length r := block ! length r XOR 1]
     in block[RATE - 1 := block ! (RATE - 1) XOR 0x80]) = r @ (if RATE - length r = 1 then [0x81] else 1 # replicate (RATE - length r - 2) 0 @ [0x80])"
proof -
  obtain k where k: "RATE - length r = Suc k" using r by (metis Suc_diff_Suc)
  have l: "RATE = length r + Suc k" using k r by simp
  show ?thesis
  proof (cases k)
    case 0
    then show ?thesis by (simp add: l Let_def list_update_append nth_append)
  next
    case (Suc j)
    have "(r @ 1 # replicate j (0 :: 8 word) @ [0])[length r + Suc j := 0x80] = r @ 1 # replicate j 0 @ [0x80]"
      by (simp add: list_update_append)
    moreover have "replicate (Suc (Suc j)) (0 :: 8 word) = 0 # replicate j 0 @ [0]" by (simp add: replicate_append_same)
    ultimately show ?thesis by (simp add: l Suc Let_def list_update_append nth_append del: replicate_Suc)
  qed
qed

text \<open>The final block that the code builds by setting two bits in a copy of the remainder is the last block
  of the input followed by the padding.\<close>

lemma keccak256_padded_sponge: "keccak256 input = sponge (input @ keccak_pad (length input))"
proof -
  obtain blocks r where c: "chunks_exact RATE input = (blocks, r)" by (cases "chunks_exact RATE input")
  have pos: "0 < RATE" by (simp add: RATE_def)
  have len: "length r = length input mod RATE" using chunks_exact_props(1)[OF pos, of input] c by simp
  then have less: "length r < RATE" using pos by simp
  have "length (r @ keccak_pad (length input)) = RATE"
    using less by (auto simp: keccak_pad_def Let_def simp flip: len)
  with chunks_exact_props(2)[OF pos, of input "keccak_pad (length input)"] c
  have "fst (chunks_exact RATE (input @ keccak_pad (length input))) = blocks @ [r @ keccak_pad (length input)]" by simp
  moreover have "r @ keccak_pad (length input) = (let block = r @ replicate (RATE - length r) 0; block = block[length r := block ! length r XOR 1]
     in block[RATE - 1 := block ! (RATE - 1) XOR 0x80])"
    unfolding padded_block[OF less] keccak_pad_def by (simp add: Let_def flip: len)
  ultimately show ?thesis by (simp only: sponge_def squeeze_def keccak256_def c Let_def prod.case fold_append fold_simps o_apply fst_conv)
qed

section \<open>Bytes as bits\<close>

lemma message_bits_simps [simp]:
  "message_bits [] = []" "message_bits (b # bs) = map (bit b) [0..<8] @ message_bits bs"
  "message_bits (xs @ ys) = message_bits xs @ message_bits ys"
  by (simp_all only: message_bits_def map_append concat_append list.map concat.simps)

lemma message_bits_length [simp]: "length (message_bits bytes) = 8 * length bytes"
  by (induction bytes) (simp_all only: message_bits_simps length_append length_map length_upt list.size, simp)

lemma message_bits_nth: "i < 8 * length bytes \<Longrightarrow> message_bits bytes ! i = bit (bytes ! (i div 8)) (i mod 8)"
proof (induction bytes arbitrary: i)
  case (Cons b bytes)
  show ?case
  proof (cases "i < 8")
    case True
    then show ?thesis by (simp only: message_bits_simps nth_append length_map length_upt nth_map nth_upt) simp
  next
    case False
    then have "i div 8 = Suc ((i - 8) div 8)" "i mod 8 = (i - 8) mod 8" by (simp_all add: le_div_geq le_mod_geq)
    with False Cons show ?thesis by (simp only: message_bits_simps nth_append length_map length_upt) simp
  qed
qed simp

lemma message_bits_cut:
  "take (8 * n) (message_bits bytes) = message_bits (take n bytes)"
  "drop (8 * n) (message_bits bytes) = message_bits (drop n bytes)"
proof -
  consider "n \<le> length bytes" | "length bytes \<le> n" by linarith
  then have "take (8 * n) (message_bits bytes) = message_bits (take n bytes) \<and> drop (8 * n) (message_bits bytes) = message_bits (drop n bytes)"
  proof cases
    case 1
    have "message_bits bytes = message_bits (take n bytes) @ message_bits (drop n bytes)"
      by (simp only: message_bits_simps(3)[symmetric] append_take_drop_id)
    with 1 show ?thesis by simp
  qed simp
  then show "take (8 * n) (message_bits bytes) = message_bits (take n bytes)"
    "drop (8 * n) (message_bits bytes) = message_bits (drop n bytes)" by simp_all
qed

lemma chunks_exact_bits: "0 < n \<Longrightarrow> fst (chunks_exact (8 * n) (message_bits bytes)) = map message_bits (fst (chunks_exact n bytes))"
proof (induction n bytes rule: chunks_exact.induct)
  case (1 n bytes)
  show ?case
  proof (cases "length bytes < n")
    case True
    with 1(2) show ?thesis by (subst (1 2) chunks_exact.simps) simp
  next
    case False
    with 1(2) have "fst (chunks_exact (8 * n) (message_bits bytes)) = message_bits (take n bytes) #
        fst (chunks_exact (8 * n) (message_bits (drop n bytes)))"
      by (subst chunks_exact.simps) (simp add: split_beta Let_def message_bits_cut)
    moreover have "fst (chunks_exact n bytes) = take n bytes # fst (chunks_exact n (drop n bytes))"
      using False 1(2) by (subst chunks_exact.simps) (simp add: split_beta Let_def)
    ultimately show ?thesis using 1 False by simp
  qed
qed

lemma chunks_exact_nth:
  "0 < n \<Longrightarrow> i < length xs div n \<Longrightarrow> fst (chunks_exact n xs) ! i = take n (drop (n * i) xs)"
  "0 < n \<Longrightarrow> length (fst (chunks_exact n xs)) = length xs div n"
proof -
  have "0 < n \<Longrightarrow> length (fst (chunks_exact n xs)) = length xs div n
      \<and> (\<forall>i < length xs div n. fst (chunks_exact n xs) ! i = take n (drop (n * i) xs))"
  proof (induction n xs rule: chunks_exact.induct)
    case (1 n xs)
    show ?case
    proof (cases "length xs < n")
      case True
      with 1(2) show ?thesis by (subst chunks_exact.simps) simp
    next
      case False
      with 1(2) have "fst (chunks_exact n xs) = take n xs # fst (chunks_exact n (drop n xs))"
        by (subst chunks_exact.simps) (simp add: split_beta Let_def)
      moreover have "length xs div n = Suc (length (drop n xs) div n)" using False 1(2) by (simp add: le_div_geq)
      ultimately show ?thesis using 1 False by (auto simp: nth_Cons add.commute split: nat.splits)
    qed
  qed
  then show "0 < n \<Longrightarrow> i < length xs div n \<Longrightarrow> fst (chunks_exact n xs) ! i = take n (drop (n * i) xs)"
    "0 < n \<Longrightarrow> length (fst (chunks_exact n xs)) = length xs div n" by simp_all
qed

lemma from_le_bytes_bit:
  "bit (from_le_bytes bytes) z \<longleftrightarrow> z < 64 \<and> z < 8 * length bytes \<and> bit (bytes ! (z div 8)) (z mod 8)"
proof (induction bytes arbitrary: z)
  case (Cons b bytes)
  have "bit (from_le_bytes (b # bytes)) z \<longleftrightarrow> bit (ucast b :: 64 word) z \<or> z < 64 \<and> 8 \<le> z \<and> bit (from_le_bytes bytes) (z - 8)"
    by (auto simp: from_le_bytes_def bit_or_iff bit_push_bit_iff)
  also have "\<dots> \<longleftrightarrow> z < 64 \<and> z < 8 * length (b # bytes) \<and> bit ((b # bytes) ! (z div 8)) (z mod 8)"
  proof (cases "z < 8")
    case True
    then show ?thesis by (auto simp: bit_unsigned_iff)
  next
    case False
    then have d: "z div 8 = Suc ((z - 8) div 8)" "z mod 8 = (z - 8) mod 8" by (simp_all add: le_div_geq le_mod_geq)
    have "\<not> bit b z" using False bit_imp_le_length[of b z] by auto
    then show ?thesis unfolding Cons d using False by (auto simp: bit_unsigned_iff)
  qed
  finally show ?case .
qed (simp add: from_le_bytes_def)

section \<open>The hash\<close>

lemma absorb_same:
  assumes s: "same_bits A state" and len: "length block = RATE"
  shows "same_bits (fips_absorb (message_bits block) A) (absorb_block state block)"
proof -
  let ?cs = "fst (chunks_exact 8 block)"
  let ?g = "\<lambda>(lane, bytes) (v :: 64 word). v XOR from_le_bytes bytes"
  have state: "length state = 25" using s by (simp add: same_bits_def)
  have n: "length ?cs = 17" using chunks_exact_nth(2)[of 8 block] len by (simp add: RATE_def)
  have fold: "absorb_block state block = fold (\<lambda>q s. s[fst q := ?g q (s ! fst q)]) (enumerate 0 ?cs) state"
    unfolding absorb_block_def by (rule fold_cong) (auto simp: fun_eq_iff)
  have ps: "p \<in> set (enumerate 0 ?cs) \<longleftrightarrow> fst p < 17 \<and> snd p = ?cs ! fst p" for p
    using n by (cases p) (auto simp: in_set_enumerate_eq)
  have d: "distinct (map fst (enumerate 0 ?cs))" by simp
  have at: "absorb_block state block ! k = (if k < 17 then state ! k XOR from_le_bytes (?cs ! k) else state ! k)" for k
  proof (cases "k < 17")
    case True
    then have "(k, ?cs ! k) \<in> set (enumerate 0 ?cs)" by (simp only: ps fst_conv snd_conv)
    from fold_update_at[OF d this, of state ?g] True state show ?thesis by (simp only: fold ps fst_conv prod.case if_True) simp
  next
    case False
    then have "k \<notin> fst ` set (enumerate 0 ?cs)" using ps by auto
    from fold_update_other[OF this, of ?g state] False show ?thesis by (simp only: fold if_False)
  qed
  show ?thesis
    unfolding same_bits_def
  proof (intro conjI allI impI)
    show "length (absorb_block state block) = 25" unfolding fold using state by simp
    fix x y z :: nat
    assume x: "x < 5" and y: "y < 5" and z: "z < 64"
    let ?k = "x + 5 * y"
    have lt: "64 * ?k + z < 1088 \<longleftrightarrow> ?k < 17"
    proof
      show "?k < 17" if "64 * ?k + z < 1088"
      proof (rule ccontr)
        assume "\<not> ?k < 17"
        then have "64 * 17 \<le> 64 * ?k" by (intro mult_le_mono2) simp
        with that show False by simp
      qed
      show "64 * ?k + z < 1088" if "?k < 17"
      proof -
        have "64 * ?k \<le> 64 * 16" using that by (intro mult_le_mono2) simp
        with z show ?thesis by simp
      qed
    qed
    have i: "(64 * ?k + z) div 8 = 8 * ?k + z div 8" "(64 * ?k + z) mod 8 = z mod 8"
      using div_mult_self1[of 8 z "8 * ?k"] mod_mult_self2[of z 8 "8 * ?k"] by (simp_all add: algebra_simps)
    show "fips_absorb (message_bits block) A x y z = bit (absorb_block state block ! ?k) z"
    proof (cases "?k < 17")
      case True
      then have c: "?cs ! ?k = take 8 (drop (8 * ?k) block)" using len by (intro chunks_exact_nth(1)) (simp_all add: RATE_def)
      have "bit (from_le_bytes (?cs ! ?k)) z = bit (block ! (8 * ?k + z div 8)) (z mod 8)"
        unfolding from_le_bytes_bit c using z True len by (simp add: RATE_def)
      moreover have "message_bits block ! (64 * ?k + z) = bit (block ! (8 * ?k + z div 8)) (z mod 8)"
        using lt True len by (subst message_bits_nth) (simp_all only: i RATE_def, simp)
      ultimately show ?thesis using True lt len same_bitsD[OF s x y z]
        by (simp add: fips_absorb_def at bit_xor_iff RATE_def)
    next
      case False
      then show ?thesis using lt len same_bitsD[OF s x y z] by (simp add: fips_absorb_def at RATE_def)
    qed
  qed
qed

lemma pad_bits: "message_bits (keccak_pad len) = pad10_1 1088 (8 * len)"
proof -
  let ?m = "RATE - len mod RATE"
  have lt: "len mod RATE < RATE" by (simp add: RATE_def)
  have "8 * len + 2 = 8 * (len mod RATE) + 2 + 1088 * (len div RATE)" using mult_div_mod_eq[of RATE len] unfolding RATE_def by linarith
  moreover have "8 * (len mod RATE) + 2 < 1088" using lt unfolding RATE_def by linarith
  ultimately have "(8 * len + 2) mod 1088 = 8 * (len mod RATE) + 2" by (metis mod_mult_self2 mod_less)
  then have j: "(1088 - (8 * len + 2) mod 1088) mod 1088 = 8 * ?m - 2" using lt by (simp add: RATE_def)
  have bits: "map (bit (0x81 :: 8 word)) [0..<8] = True # replicate 6 False @ [True]"
    "map (bit (1 :: 8 word)) [0..<8] = True # replicate 7 False"
    "map (bit (0x80 :: 8 word)) [0..<8] = replicate 7 False @ [True]" by code_simp+
  have zeros: "message_bits (replicate k 0) = replicate (8 * k) False" for k
  proof (induction k)
    case (Suc k)
    have "map (bit (0 :: 8 word)) [0..<8] = replicate 8 False" by code_simp
    with Suc show ?case by (simp only: replicate.simps(2)[of k] message_bits_simps mult_Suc_right replicate_add)
  qed simp
  show ?thesis
  proof (cases "?m = 1")
    case True
    then have "keccak_pad len = [0x81]" "8 * ?m - 2 = 6" by (simp_all add: keccak_pad_def)
    then show ?thesis unfolding pad10_1_def j by (simp only: message_bits_simps bits append_Nil2)
  next
    case False
    then have e: "8 * ?m - 2 = 7 + (8 * (?m - 2) + 7)" using lt by linarith
    from False show ?thesis unfolding pad10_1_def j e replicate_add
      by (simp only: keccak_pad_def Let_def if_False message_bits_simps bits zeros append_Cons append_Nil append_assoc append_Nil2)
  qed
qed

lemma blocks_same:
  "same_bits A state \<Longrightarrow> \<forall>b\<in>set blocks. length b = RATE \<Longrightarrow>
     same_bits (fold (\<lambda>P A. fips_keccak_f (fips_absorb P A)) (map message_bits blocks) A)
       (fold (\<lambda>block s. keccak_f1600 (absorb_block s block)) blocks state)"
  by (induction blocks arbitrary: A state) (simp_all add: keccak_f1600_same absorb_same)

lemma squeeze_bits:
  assumes "same_bits A state"
  shows "message_bits (squeeze state) = map (\<lambda>i. A (i div 64 mod 5) (i div 64 div 5) (i mod 64)) [0..<256]"
proof (rule nth_equalityI)
  have l: "length (squeeze state) = 32" by (simp only: squeeze_def length_map length_upt)
  then show "length (message_bits (squeeze state)) = length (map (\<lambda>i. A (i div 64 mod 5) (i div 64 div 5) (i mod 64)) [0..<256])"
    by (simp only: message_bits_length length_map length_upt)
  fix i
  assume "i < length (message_bits (squeeze state))"
  then have i: "i < 256" by (simp add: l)
  then have x: "i div 64 mod 5 < 5" "i div 64 div 5 < 5" "i mod 64 < 64" by simp_all
  have "i div 8 div 8 = i div 64" by (simp add: div_mult2_eq[symmetric])
  then have lane: "i div 64 mod 5 + 5 * (i div 64 div 5) = i div 8 div 8" by (simp only: mod_mult_div_eq add.commute)
  have z: "8 * (i div 8 mod 8) + i mod 8 = i mod 64" using mod_mult2_eq[of i 8 8] by simp
  have mask: "bit (255 :: 64 word) (i mod 8)" using bit_mask_iff[of 8 "i mod 8", where 'a = "64 word"] by (simp add: mask_eq_exp_minus_1)
  have "message_bits (squeeze state) ! i = bit (squeeze state ! (i div 8)) (i mod 8)"
    using i l by (intro message_bits_nth) simp
  also have "squeeze state ! (i div 8) = ucast (drop_bit (8 * (i div 8 mod 8)) (state ! (i div 8 div 8)) AND 255)"
  proof -
    have "i div 8 < length [0..<32]" using i by simp
    then show ?thesis unfolding squeeze_def by (simp only: nth_map length_upt nth_upt add_0 diff_zero)
  qed
  also have "bit \<dots> (i mod 8) = bit (state ! (i div 8 div 8)) (i mod 64)"
    using mask by (simp add: bit_unsigned_iff bit_and_iff bit_drop_bit_eq z)
  also have "\<dots> = A (i div 64 mod 5) (i div 64 div 5) (i mod 64)"
    using same_bitsD[OF assms x] unfolding lane by simp
  finally show "message_bits (squeeze state) ! i = map (\<lambda>i. A (i div 64 mod 5) (i div 64 div 5) (i mod 64)) [0..<256] ! i"
    using i by (simp del: upt_rec_numeral upt.simps)
qed

text \<open>C13. \<open>keccak256\<close> is Keccak-256: on every input, the bits of its 32 bytes are the first 256 bits that the
  sponge with a rate of 1088 bits, the padding \<open>pad10*1\<close> and the permutation Keccak-f[1600] of FIPS 202
  (with rotation offsets and round constants generated as the standard says) gives on the bits of the
  input.\<close>

theorem keccak256_is_the_standard: "message_bits (keccak256 input) = fips_keccak256 (message_bits input)"
proof -
  let ?blocks = "fst (chunks_exact RATE (input @ keccak_pad (length input)))"
  have zero: "same_bits (\<lambda>x y z. False) (replicate 25 0)" by (simp add: same_bits_def)
  have "\<forall>b\<in>set ?blocks. length b = RATE"
    by (auto simp: in_set_conv_nth chunks_exact_nth RATE_def)
  from squeeze_bits[OF blocks_same[OF zero this]]
  have "message_bits (sponge (input @ keccak_pad (length input))) =
      map (\<lambda>i. fold (\<lambda>P A. fips_keccak_f (fips_absorb P A)) (map message_bits ?blocks) (\<lambda>x y z. False)
        (i div 64 mod 5) (i div 64 div 5) (i mod 64)) [0..<256]" by (simp only: sponge_def)
  moreover have "map message_bits ?blocks = fst (chunks_exact 1088 (message_bits input @ pad10_1 1088 (length (message_bits input))))"
    using chunks_exact_bits[of RATE "input @ keccak_pad (length input)"] by (simp add: pad_bits RATE_def)
  ultimately show ?thesis by (simp only: keccak256_padded_sponge fips_keccak256_def Let_def)
qed

end
