(* ===== verification/Comptime_Prim.thy ===== *)
theory Comptime_Prim
  imports Comptime_Yul Keccak String_Literal Yul_Pretty_Props
begin

text \<open>
  Folding of intrinsics and operators on known operands
  (\<open>crates/specialize/src/evaluate/core.rs\<close>, \<open>known.rs\<close>), and the budget that bounds the work on big
  integers and strings. An expression kind that none of these operations looks into is the constructor
  \<open>MOther\<close>. The record \<open>folder\<close> adds to \<open>evaluator\<close> the fields of the Rust struct that are used here;
  \<open>usize\<close> is the type of naturals with the bound \<open>usize_max\<close> written out in the saturating operations.
\<close>

unbundle bit_operations_syntax

section \<open>Types and expressions\<close>

datatype builtin_ty_ctor = BtWord | BtUnit | BtBool | BtString | BtInteger | BtPair | BtSum

datatype 'u sema_ty_ctor = TcBuiltin builtin_ty_ctor | TcUser 'u

datatype 'u sema_ty =
    TyError
  | TyUnknown
  | TyBoundVar nat
  | TyNamed "'u sema_ty_ctor" "'u sema_ty list"
  | TyFunction "'u sema_ty list" "'u sema_ty"
  | TyTuple "'u sema_ty list"
  | TyComptime "'u sema_ty"

fun strip_comptime :: "'u sema_ty \<Rightarrow> 'u sema_ty" where
  "strip_comptime (TyComptime inner) = strip_comptime inner"
| "strip_comptime t = t"

definition ty_is_builtin :: "'u sema_ty \<Rightarrow> builtin_ty_ctor \<Rightarrow> bool" where
  "ty_is_builtin t b = (case strip_comptime t of TyNamed (TcBuiltin ctor) args \<Rightarrow> ctor = b \<and> args = [] | _ \<Rightarrow> False)"

datatype mono_builtin_ctor = McUnit | McPair | McTrue | McFalse | McInl | McInr

fun ctor_name :: "mono_builtin_ctor \<Rightarrow> string" where
  "ctor_name McUnit = ''()''"
| "ctor_name McPair = ''pair''"
| "ctor_name McTrue = ''true''"
| "ctor_name McFalse = ''false''"
| "ctor_name McInl = ''inl''"
| "ctor_name McInr = ''inr''"

definition ctor_from_name :: "string \<Rightarrow> mono_builtin_ctor option" where
  "ctor_from_name n =
     map_of [(''()'', McUnit), (''pair'', McPair), (''true'', McTrue), (''false'', McFalse), (''inl'', McInl),
       (''inr'', McInr)] n"

fun result_ty_ctor :: "mono_builtin_ctor \<Rightarrow> builtin_ty_ctor" where
  "result_ty_ctor McUnit = BtUnit"
| "result_ty_ctor McPair = BtPair"
| "result_ty_ctor McTrue = BtBool"
| "result_ty_ctor McFalse = BtBool"
| "result_ty_ctor McInl = BtSum"
| "result_ty_ctor McInr = BtSum"

definition matches_result_ty :: "mono_builtin_ctor \<Rightarrow> 'u sema_ty \<Rightarrow> bool" where
  "matches_result_ty c t = (case t of TyNamed (TcBuiltin actual) args \<Rightarrow> actual = result_ty_ctor c | _ \<Rightarrow> False)"

record ('u, 's) mono_id =
  id_name :: string
  id_ty :: "'u sema_ty"
  id_span :: 's

definition builtin_ctor :: "('u, 's) mono_id \<Rightarrow> mono_builtin_ctor option" where
  "builtin_ctor i =
     (case ctor_from_name (id_name i) of
        Some c \<Rightarrow> if matches_result_ty c (id_ty i) then Some c else None
      | None \<Rightarrow> None)"

datatype lit_kind = LkNumber string | LkHex string | LkString string | LkError

datatype ('u, 's, 'x) mono_expr =
    MonoExpr (expr_span: 's) (expr_ty: "'u sema_ty") (expr_kind: "('u, 's, 'x) mono_expr_kind")
and ('u, 's, 'x) mono_expr_kind =
    MLit lit_kind
  | MTuple "('u, 's, 'x) mono_expr list"
  | MCon "('u, 's) mono_id" "('u, 's, 'x) mono_expr list"
  | MTypeAnnot "('u, 's, 'x) mono_expr" "'u sema_ty"
  | MOther 'x

datatype bin_op =
    BinAdd | BinSub | BinMul | BinDiv | BinMod | BinShl | BinShr | BinBitAnd | BinBitXor | BinBitOr
  | BinEq | BinNotEq | BinLt | BinGt | BinLtEq | BinGtEq | BinAnd | BinOr
  | BinUncheckedAdd | BinUncheckedSub | BinUncheckedMul | BinUncheckedDiv | BinUncheckedMod | BinError

datatype un_op = UnNot | UnBitNot | UnError

datatype mono_intrinsic =
    PrimAddWord | PrimEqWord | SubWord | MulWord | GtWord | BxorWord | BandWord | BorWord | BnotWord
  | WordToInteger | WordFromInteger | IntegerAdd | IntegerSub | IntegerMul | IntegerLt | IntegerEq
  | ConcatLit | StrlenLit | KeccakLit | KeccakWordLit | MemStringFromLit | RevertLit

datatype word_binary_op = WbAdd | WbSub | WbMul | WbGt | WbBitXor | WbBitAnd | WbBitOr | WbEq

section \<open>Known operands and literals\<close>

fun known_int :: "('u, 's, 'x) mono_expr \<Rightarrow> bigint option" where
  "known_int (MonoExpr sp t (MLit (LkNumber text))) = from_decimal_str text"
| "known_int (MonoExpr sp t (MLit (LkHex text))) = from_hex_str text"
| "known_int (MonoExpr sp t (MTypeAnnot e u)) = known_int e"
| "known_int (MonoExpr sp t _) = None"

fun known_string :: "('u, 's, 'x) mono_expr \<Rightarrow> string option" where
  "known_string (MonoExpr sp t (MLit (LkString text))) = decode_string_literal text"
| "known_string (MonoExpr sp t (MTypeAnnot e u)) = known_string e"
| "known_string (MonoExpr sp t _) = None"

fun known_bool :: "('u, 's, 'x) mono_expr \<Rightarrow> bool option" where
  "known_bool (MonoExpr sp t (MCon ctor args)) =
     (case builtin_ctor ctor of
        Some McTrue \<Rightarrow> Some True
      | Some McInr \<Rightarrow> Some True
      | Some McFalse \<Rightarrow> Some False
      | Some McInl \<Rightarrow> Some False
      | _ \<Rightarrow> None)"
| "known_bool (MonoExpr sp t (MTypeAnnot e u)) = known_bool e"
| "known_bool (MonoExpr sp t _) = None"

definition int_expr :: "bigint \<Rightarrow> 'u sema_ty \<Rightarrow> 's \<Rightarrow> ('u, 's, 'x) mono_expr" where
  "int_expr v t sp = MonoExpr sp t (MLit (LkNumber (big_to_decimal_string v)))"

definition string_expr :: "string \<Rightarrow> 'u sema_ty \<Rightarrow> 's \<Rightarrow> ('u, 's, 'x) mono_expr" where
  "string_expr v t sp = MonoExpr sp t (MLit (LkString (encode_string_literal v)))"

definition bool_expr :: "bool \<Rightarrow> 'u sema_ty \<Rightarrow> 's \<Rightarrow> ('u, 's, 'x) mono_expr" where
  "bool_expr v t sp =
     MonoExpr sp t (MCon \<lparr>id_name = (if v then ctor_name McTrue else ctor_name McFalse), id_ty = t, id_span = sp\<rparr> [])"

section \<open>The budget\<close>

definition usize_max :: nat where
  "usize_max = 2 ^ 64 - 1"

definition saturating_add :: "nat \<Rightarrow> nat \<Rightarrow> nat" where
  "saturating_add a b = min usize_max (a + b)"

definition saturating_mul :: "nat \<Rightarrow> nat \<Rightarrow> nat" where
  "saturating_mul a b = min usize_max (a * b)"

definition div_ceil :: "nat \<Rightarrow> nat \<Rightarrow> nat" where
  "div_ceil a b = (if a mod b = 0 then a div b else a div b + 1)"

datatype inline_budget_exhaustion = TotalWork nat | InlineDepth nat

fun diagnostic_limit :: "inline_budget_exhaustion \<Rightarrow> nat" where
  "diagnostic_limit (TotalWork limit) = limit"
| "diagnostic_limit (InlineDepth limit) = limit"

definition classify_inline_budget_exhaustion :: "nat \<Rightarrow> nat \<Rightarrow> nat \<Rightarrow> nat \<Rightarrow> inline_budget_exhaustion option" where
  "classify_inline_budget_exhaustion remaining_fuel limit depth depth_limit =
     (if remaining_fuel = 0 then Some (TotalWork limit)
      else if depth_limit \<le> depth then Some (InlineDepth depth_limit)
      else None)"

text \<open>The diagnostics of the specialiser that this code inspects or adds; the others are \<open>OtherDiagnostic\<close>.\<close>

datatype 'd diagnostic_kind =
    ComptimeFuelExhausted string nat
  | ComptimeRecursion string
  | ReductionRecursion string "string option"
  | ReductionFuelExhausted string nat
  | OtherDiagnostic 'd

record ('s, 'd) specialize_diagnostic =
  diag_kind :: "'d diagnostic_kind"
  diag_span :: "'s option"

record ('u, 's, 'x) inline_frame =
  frame_name :: string
  frame_args :: "('u, 's, 'x) mono_expr list"
  frame_comptime :: bool

record ('u, 's, 'x, 'd) folder = evaluator +
  diagnostics :: "('s, 'd) specialize_diagnostic list"
  inline_stack :: "('u, 's, 'x) inline_frame list"
  fuel_limit :: nat
  fuel :: nat
  literal_fuel :: nat
  inline_depth_limit :: nat

definition inline_chain_is_comptime :: "bool \<Rightarrow> ('u, 's, 'x, 'd) folder \<Rightarrow> bool" where
  "inline_chain_is_comptime current st \<longleftrightarrow> current \<or> list_ex frame_comptime (inline_stack st)"

definition inline_budget_exhaustion :: "('u, 's, 'x, 'd) folder \<Rightarrow> inline_budget_exhaustion option" where
  "inline_budget_exhaustion st =
     classify_inline_budget_exhaustion (fuel st) (fuel_limit st) (length (inline_stack st)) (inline_depth_limit st)"

fun is_inline_failure :: "'d diagnostic_kind \<Rightarrow> bool" where
  "is_inline_failure (ComptimeFuelExhausted f l) = True"
| "is_inline_failure (ComptimeRecursion f) = True"
| "is_inline_failure (ReductionRecursion f s) = True"
| "is_inline_failure (ReductionFuelExhausted f l) = True"
| "is_inline_failure (OtherDiagnostic d) = False"

definition has_inline_failure_diagnostic :: "('u, 's, 'x, 'd) folder \<Rightarrow> bool" where
  "has_inline_failure_diagnostic st = list_ex (\<lambda>d. is_inline_failure (diag_kind d)) (diagnostics st)"

definition push_inline_limit_diagnostic ::
    "string \<Rightarrow> bool \<Rightarrow> 's \<Rightarrow> inline_budget_exhaustion \<Rightarrow> ('u, 's, 'x, 'd) folder \<Rightarrow> ('u, 's, 'x, 'd) folder" where
  "push_inline_limit_diagnostic f comptime sp exhaustion st =
     (if has_inline_failure_diagnostic st then st
      else let limit = diagnostic_limit exhaustion;
               kind = (if comptime then ComptimeFuelExhausted f limit else ReductionFuelExhausted f limit)
           in st\<lparr>diagnostics := diagnostics st @ [\<lparr>diag_kind = kind, diag_span = Some sp\<rparr>]\<rparr>)"

definition charge_bulk_work ::
    "nat \<Rightarrow> string \<Rightarrow> 's \<Rightarrow> ('u, 's, 'x, 'd) folder \<Rightarrow> bool \<times> ('u, 's, 'x, 'd) folder" where
  "charge_bulk_work work operation sp st =
     (if work \<le> fuel st \<and> work \<le> literal_fuel st
      then (True, st\<lparr>fuel := fuel st - work, literal_fuel := literal_fuel st - work\<rparr>)
      else let st = st\<lparr>fuel := 0, literal_fuel := 0\<rparr>
           in (False, push_inline_limit_diagnostic operation (inline_chain_is_comptime (comptime_mode st) st) sp
                 (TotalWork (fuel_limit st)) st))"

section \<open>Folding\<close>

definition eval_string_concat ::
    "string \<Rightarrow> string \<Rightarrow> 'u sema_ty \<Rightarrow> 's \<Rightarrow> ('u, 's, 'x, 'd) folder
       \<Rightarrow> ('u, 's, 'x) mono_expr option \<times> ('u, 's, 'x, 'd) folder" where
  "eval_string_concat lhs rhs t sp st =
     (let bytes = saturating_add (utf8_len lhs) (utf8_len rhs);
          work = div_ceil (bytes - 64) 64
      in case charge_bulk_work work ''concatLit'' sp st of
           (False, st) \<Rightarrow> (None, st)
         | (True, st) \<Rightarrow> (Some (string_expr (lhs @ rhs) t sp), st))"

definition eval_integer_arithmetic ::
    "bin_op \<Rightarrow> bigint \<Rightarrow> bigint \<Rightarrow> 'u sema_ty \<Rightarrow> 's \<Rightarrow> ('u, 's, 'x, 'd) folder
       \<Rightarrow> ('u, 's, 'x) mono_expr option \<times> ('u, 's, 'x, 'd) folder" where
  "eval_integer_arithmetic op lhs rhs t sp st =
     (let limbs = (if op = BinMul then saturating_add (length (magnitude lhs)) (length (magnitude rhs))
                   else saturating_add (max (length (magnitude lhs)) (length (magnitude rhs))) 1);
          work = (if 32 < limbs then div_ceil (saturating_mul limbs limbs) 64 else 0)
      in case (case op of BinAdd \<Rightarrow> Some (''integerAdd'', big_add)
                        | BinSub \<Rightarrow> Some (''integerSub'', big_sub)
                        | BinMul \<Rightarrow> Some (''integerMul'', big_mul)
                        | _ \<Rightarrow> None) of
           None \<Rightarrow> (None, st)
         | Some (operation, f) \<Rightarrow>
             (case charge_bulk_work work operation sp st of
                (False, st) \<Rightarrow> (None, st)
              | (True, st) \<Rightarrow> (Some (int_expr (f lhs rhs) t sp), st)))"

definition eval_word_binary :: "word_binary_op \<Rightarrow> bigint \<Rightarrow> bigint \<Rightarrow> 'u sema_ty \<Rightarrow> 's \<Rightarrow> ('u, 's, 'x) mono_expr" where
  "eval_word_binary op lhs rhs t sp =
     (case op of
        WbAdd \<Rightarrow> int_expr (mod_word (big_add lhs rhs)) t sp
      | WbSub \<Rightarrow> int_expr (mod_word (big_sub lhs rhs)) t sp
      | WbMul \<Rightarrow> int_expr (mod_word (big_mul lhs rhs)) t sp
      | WbGt \<Rightarrow> bool_expr (big_cmp (mod_word lhs) (mod_word rhs) = Greater) t sp
      | WbBitXor \<Rightarrow> int_expr (bitxor_word lhs rhs) t sp
      | WbBitAnd \<Rightarrow> int_expr (bitand_word lhs rhs) t sp
      | WbBitOr \<Rightarrow> int_expr (bitor_word lhs rhs) t sp
      | WbEq \<Rightarrow> bool_expr (mod_word lhs = mod_word rhs) t sp)"

text \<open>The argument patterns \<open>[arg]\<close> and \<open>[lhs, rhs]\<close> of \<open>eval_primitive\<close>, whose arms go on with \<open>?\<close> on
  the values of the arguments.\<close>

fun with_one :: "('e \<Rightarrow> 'v option) \<Rightarrow> 'e list \<Rightarrow> ('v \<Rightarrow> 'r) \<Rightarrow> 'r \<Rightarrow> 'r" where
  "with_one known [arg] k none = (case known arg of None \<Rightarrow> none | Some v \<Rightarrow> k v)"
| "with_one known args k none = none"

fun with_two :: "('e \<Rightarrow> 'v option) \<Rightarrow> 'e list \<Rightarrow> ('v \<Rightarrow> 'v \<Rightarrow> 'r) \<Rightarrow> 'r \<Rightarrow> 'r" where
  "with_two known [lhs, rhs] k none =
     (case known lhs of
        None \<Rightarrow> none
      | Some a \<Rightarrow> (case known rhs of None \<Rightarrow> none | Some b \<Rightarrow> k a b))"
| "with_two known args k none = none"

text \<open>The bytes of a string, as \<open>as_bytes\<close> gives them.\<close>

definition string_bytes :: "string \<Rightarrow> 8 word list" where
  "string_bytes s = map of_nat (utf8_bytes s)"

definition eval_primitive ::
    "mono_intrinsic \<Rightarrow> ('u, 's, 'x) mono_expr list \<Rightarrow> 'u sema_ty \<Rightarrow> 's \<Rightarrow> ('u, 's, 'x, 'd) folder
       \<Rightarrow> ('u, 's, 'x) mono_expr option \<times> ('u, 's, 'x, 'd) folder" where
  "eval_primitive intrinsic args t sp st =
     (let none = (None, st);
          word = (\<lambda>op. with_two known_int args (\<lambda>a b. (Some (eval_word_binary op a b t sp), st)) none);
          arith = (\<lambda>op. with_two known_int args (\<lambda>a b. eval_integer_arithmetic op a b t sp st) none)
      in case intrinsic of
           WordToInteger \<Rightarrow> with_one known_int args (\<lambda>v. (Some (int_expr v t sp), st)) none
         | WordFromInteger \<Rightarrow> with_one known_int args (\<lambda>v. (Some (int_expr (mod_word v) t sp), st)) none
         | IntegerAdd \<Rightarrow> arith BinAdd
         | IntegerSub \<Rightarrow> arith BinSub
         | IntegerMul \<Rightarrow> arith BinMul
         | IntegerLt \<Rightarrow> with_two known_int args (\<lambda>a b. (Some (bool_expr (big_cmp a b = Less) t sp), st)) none
         | IntegerEq \<Rightarrow> with_two known_int args (\<lambda>a b. (Some (bool_expr (a = b) t sp), st)) none
         | ConcatLit \<Rightarrow> with_two known_string args (\<lambda>a b. eval_string_concat a b t sp st) none
         | StrlenLit \<Rightarrow> with_one known_string args (\<lambda>s. (Some (int_expr (from_u64 (of_nat (utf8_len s))) t sp), st)) none
         | KeccakLit \<Rightarrow> with_one known_string args
             (\<lambda>s. (Some (int_expr (from_be_bytes (keccak256 (string_bytes s))) t sp), st)) none
         | KeccakWordLit \<Rightarrow> with_one known_int args
             (\<lambda>v. (Some (int_expr (from_be_bytes (keccak256 (to_word_be_bytes v))) t sp), st)) none
         | PrimAddWord \<Rightarrow> word WbAdd
         | SubWord \<Rightarrow> word WbSub
         | MulWord \<Rightarrow> word WbMul
         | GtWord \<Rightarrow> word WbGt
         | BxorWord \<Rightarrow> word WbBitXor
         | BandWord \<Rightarrow> word WbBitAnd
         | BorWord \<Rightarrow> word WbBitOr
         | BnotWord \<Rightarrow> with_one known_int args (\<lambda>v. (Some (int_expr (not_word v) t sp), st)) none
         | PrimEqWord \<Rightarrow> word WbEq
         | MemStringFromLit \<Rightarrow> none
         | RevertLit \<Rightarrow> none)"

definition eval_binop ::
    "('u, 's, 'x) mono_expr \<Rightarrow> bin_op \<Rightarrow> ('u, 's, 'x) mono_expr \<Rightarrow> 'u sema_ty \<Rightarrow> 's \<Rightarrow> ('u, 's, 'x, 'd) folder
       \<Rightarrow> ('u, 's, 'x) mono_expr option \<times> ('u, 's, 'x, 'd) folder" where
  "eval_binop lhs op rhs t sp st =
     (case (if op = BinAdd then (known_string lhs, known_string rhs) else (None, None)) of
        (Some l, Some r) \<Rightarrow> eval_string_concat l r t sp st
      | _ \<Rightarrow>
        (case (known_int lhs, known_int rhs) of
           (Some l, Some r) \<Rightarrow>
             (let int = (\<lambda>v. (Some (int_expr v t sp), st));
                  bool = (\<lambda>v. (Some (bool_expr v t sp), st));
                  word_cmp = big_cmp (mod_word l) (mod_word r)
              in if ty_is_builtin t BtInteger then
                   (case op of
                      BinAdd \<Rightarrow> eval_integer_arithmetic op l r t sp st
                    | BinSub \<Rightarrow> eval_integer_arithmetic op l r t sp st
                    | BinMul \<Rightarrow> eval_integer_arithmetic op l r t sp st
                    | BinEq \<Rightarrow> bool (l = r)
                    | BinNotEq \<Rightarrow> bool (l \<noteq> r)
                    | BinLt \<Rightarrow> bool (big_cmp l r = Less)
                    | BinGt \<Rightarrow> bool (big_cmp l r = Greater)
                    | BinLtEq \<Rightarrow> bool (big_cmp l r \<noteq> Greater)
                    | BinGtEq \<Rightarrow> bool (big_cmp l r \<noteq> Less)
                    | _ \<Rightarrow> (None, st))
                 else if ty_is_builtin t BtBool then
                   (case op of
                      BinEq \<Rightarrow> bool (l = r)
                    | BinNotEq \<Rightarrow> bool (l \<noteq> r)
                    | BinLt \<Rightarrow> bool (word_cmp = Less)
                    | BinGt \<Rightarrow> bool (word_cmp = Greater)
                    | BinLtEq \<Rightarrow> bool (word_cmp \<noteq> Greater)
                    | BinGtEq \<Rightarrow> bool (word_cmp \<noteq> Less)
                    | _ \<Rightarrow> (None, st))
                 else if ty_is_builtin t BtWord then
                   (case op of
                      BinAdd \<Rightarrow> int (mod_word (big_add l r))
                    | BinSub \<Rightarrow> int (mod_word (big_sub l r))
                    | BinMul \<Rightarrow> int (mod_word (big_mul l r))
                    | BinDiv \<Rightarrow> int (word_div l r)
                    | BinMod \<Rightarrow> int (word_mod l r)
                    | BinUncheckedAdd \<Rightarrow> int (mod_word (big_add l r))
                    | BinUncheckedSub \<Rightarrow> int (mod_word (big_sub l r))
                    | BinUncheckedMul \<Rightarrow> int (mod_word (big_mul l r))
                    | BinUncheckedDiv \<Rightarrow> if big_is_zero (mod_word r) then (None, st) else int (word_div l r)
                    | BinUncheckedMod \<Rightarrow> if big_is_zero (mod_word r) then (None, st) else int (word_mod l r)
                    | BinShl \<Rightarrow> int (shl_word l r)
                    | BinShr \<Rightarrow> int (shr_word l r)
                    | BinBitAnd \<Rightarrow> int (bitand_word l r)
                    | BinBitOr \<Rightarrow> int (bitor_word l r)
                    | BinBitXor \<Rightarrow> int (bitxor_word l r)
                    | _ \<Rightarrow> (None, st))
                 else (None, st))
         | _ \<Rightarrow> (None, st)))"

definition eval_unary :: "un_op \<Rightarrow> ('u, 's, 'x) mono_expr \<Rightarrow> 'u sema_ty \<Rightarrow> 's \<Rightarrow> ('u, 's, 'x) mono_expr option" where
  "eval_unary op e t sp =
     (case op of
        UnNot \<Rightarrow> map_option (\<lambda>v. bool_expr (\<not> v) t sp) (known_bool e)
      | UnBitNot \<Rightarrow>
          if ty_is_builtin t BtWord then map_option (\<lambda>v. int_expr (not_word v) t sp) (known_int e) else None
      | UnError \<Rightarrow> None)"

section \<open>The reference\<close>

text \<open>What a known expression denotes, the literal that denotes a value, and the meaning of an intrinsic
  and of an operator on values. Word operations are those of \<open>256 word\<close>.\<close>

datatype const = CInt int | CStr string | CBool bool

definition known_const :: "('u, 's, 'x) mono_expr \<Rightarrow> const option" where
  "known_const e =
     (case known_int e of
        Some b \<Rightarrow> Some (CInt (big_val b))
      | None \<Rightarrow> (case known_string e of Some s \<Rightarrow> Some (CStr s) | None \<Rightarrow> map_option CBool (known_bool e)))"

fun const_expr :: "const \<Rightarrow> 'u sema_ty \<Rightarrow> 's \<Rightarrow> ('u, 's, 'x) mono_expr" where
  "const_expr (CInt i) t sp = MonoExpr sp t (MLit (LkNumber ((if i < 0 then ''-'' else []) @ show_nat (nat \<bar>i\<bar>))))"
| "const_expr (CStr s) t sp = MonoExpr sp t (MLit (LkString (encode_string_literal s)))"
| "const_expr (CBool v) t sp =
     MonoExpr sp t (MCon \<lparr>id_name = (if v then ''true'' else ''false''), id_ty = t, id_span = sp\<rparr> [])"

declare const_expr.simps [simp del]

definition to_w :: "int \<Rightarrow> 256 word" where
  "to_w i = word_of_int i"

definition CWord :: "256 word \<Rightarrow> const" where
  "CWord w = CInt (uint w)"

text \<open>The 32 bytes of a word, most significant first, and the number that bytes denote.\<close>

definition word_bytes :: "256 word \<Rightarrow> 8 word list" where
  "word_bytes w = map (\<lambda>j. ucast (drop_bit (8 * (31 - j)) w)) [0..<32]"

definition hash_const :: "8 word list \<Rightarrow> const" where
  "hash_const bytes = CInt (int (be_value (keccak256 bytes)))"

fun int_unary :: "mono_intrinsic \<Rightarrow> (int \<Rightarrow> const) option" where
  "int_unary WordToInteger = Some CInt"
| "int_unary WordFromInteger = Some (\<lambda>a. CWord (to_w a))"
| "int_unary BnotWord = Some (\<lambda>a. CWord (NOT (to_w a)))"
| "int_unary KeccakWordLit = Some (\<lambda>a. hash_const (word_bytes (to_w a)))"
| "int_unary _ = None"

fun int_binary :: "mono_intrinsic \<Rightarrow> (int \<Rightarrow> int \<Rightarrow> const) option" where
  "int_binary IntegerAdd = Some (\<lambda>a b. CInt (a + b))"
| "int_binary IntegerSub = Some (\<lambda>a b. CInt (a - b))"
| "int_binary IntegerMul = Some (\<lambda>a b. CInt (a * b))"
| "int_binary IntegerLt = Some (\<lambda>a b. CBool (a < b))"
| "int_binary IntegerEq = Some (\<lambda>a b. CBool (a = b))"
| "int_binary PrimAddWord = Some (\<lambda>a b. CWord (to_w a + to_w b))"
| "int_binary SubWord = Some (\<lambda>a b. CWord (to_w a - to_w b))"
| "int_binary MulWord = Some (\<lambda>a b. CWord (to_w a * to_w b))"
| "int_binary GtWord = Some (\<lambda>a b. CBool (to_w b < to_w a))"
| "int_binary BxorWord = Some (\<lambda>a b. CWord (to_w a XOR to_w b))"
| "int_binary BandWord = Some (\<lambda>a b. CWord (to_w a AND to_w b))"
| "int_binary BorWord = Some (\<lambda>a b. CWord (to_w a OR to_w b))"
| "int_binary PrimEqWord = Some (\<lambda>a b. CBool (to_w a = to_w b))"
| "int_binary _ = None"

definition prim_meaning :: "mono_intrinsic \<Rightarrow> const list \<Rightarrow> const option" where
  "prim_meaning intrinsic cs =
     (case cs of
        [CInt a] \<Rightarrow> map_option (\<lambda>f. f a) (int_unary intrinsic)
      | [CStr s] \<Rightarrow>
          (if intrinsic = StrlenLit then Some (CInt (int (utf8_len s mod 2 ^ 64)))
           else if intrinsic = KeccakLit then Some (hash_const (string_bytes s))
           else None)
      | [CInt a, CInt b] \<Rightarrow> map_option (\<lambda>f. f a b) (int_binary intrinsic)
      | [CStr a, CStr b] \<Rightarrow> (if intrinsic = ConcatLit then Some (CStr (a @ b)) else None)
      | _ \<Rightarrow> None)"

text \<open>The limbs of a number, and the work charged for an operation whose result has at most so many.\<close>

fun nat_limbs :: "nat \<Rightarrow> nat" where
  "nat_limbs n = (if n = 0 then 0 else Suc (nat_limbs (n div 2 ^ 32)))"

declare nat_limbs.simps [simp del]

definition limb_count :: "int \<Rightarrow> nat" where
  "limb_count i = nat_limbs (nat \<bar>i\<bar>)"

definition limb_work :: "nat \<Rightarrow> nat" where
  "limb_work k = (if 32 < k then div_ceil (saturating_mul k k) 64 else 0)"

definition prim_work :: "mono_intrinsic \<Rightarrow> const list \<Rightarrow> nat" where
  "prim_work intrinsic cs =
     (case cs of
        [CInt a, CInt b] \<Rightarrow>
          (if intrinsic = IntegerAdd \<or> intrinsic = IntegerSub
           then limb_work (saturating_add (max (limb_count a) (limb_count b)) 1)
           else if intrinsic = IntegerMul then limb_work (saturating_add (limb_count a) (limb_count b))
           else 0)
      | [CStr a, CStr b] \<Rightarrow>
          (if intrinsic = ConcatLit then div_ceil (saturating_add (utf8_len a) (utf8_len b) - 64) 64 else 0)
      | _ \<Rightarrow> 0)"

definition prim_label :: "mono_intrinsic \<Rightarrow> string" where
  "prim_label intrinsic =
     (case intrinsic of
        IntegerAdd \<Rightarrow> ''integerAdd'' | IntegerSub \<Rightarrow> ''integerSub'' | IntegerMul \<Rightarrow> ''integerMul''
      | _ \<Rightarrow> ''concatLit'')"

text \<open>Operators, by the type of the result.\<close>

fun integer_binop :: "bin_op \<Rightarrow> int \<Rightarrow> int \<Rightarrow> const option" where
  "integer_binop BinAdd a b = Some (CInt (a + b))"
| "integer_binop BinSub a b = Some (CInt (a - b))"
| "integer_binop BinMul a b = Some (CInt (a * b))"
| "integer_binop BinEq a b = Some (CBool (a = b))"
| "integer_binop BinNotEq a b = Some (CBool (a \<noteq> b))"
| "integer_binop BinLt a b = Some (CBool (a < b))"
| "integer_binop BinGt a b = Some (CBool (b < a))"
| "integer_binop BinLtEq a b = Some (CBool (a \<le> b))"
| "integer_binop BinGtEq a b = Some (CBool (b \<le> a))"
| "integer_binop _ a b = None"

text \<open>A comparison with a Boolean result tests the numbers themselves for equality, but the words for order.\<close>

fun bool_binop :: "bin_op \<Rightarrow> int \<Rightarrow> int \<Rightarrow> const option" where
  "bool_binop BinEq a b = Some (CBool (a = b))"
| "bool_binop BinNotEq a b = Some (CBool (a \<noteq> b))"
| "bool_binop BinLt a b = Some (CBool (to_w a < to_w b))"
| "bool_binop BinGt a b = Some (CBool (to_w b < to_w a))"
| "bool_binop BinLtEq a b = Some (CBool (to_w a \<le> to_w b))"
| "bool_binop BinGtEq a b = Some (CBool (to_w b \<le> to_w a))"
| "bool_binop _ a b = None"

fun word_binop :: "bin_op \<Rightarrow> 256 word \<Rightarrow> 256 word \<Rightarrow> 256 word option" where
  "word_binop BinAdd a b = Some (a + b)"
| "word_binop BinSub a b = Some (a - b)"
| "word_binop BinMul a b = Some (a * b)"
| "word_binop BinDiv a b = Some (if b = 0 then 0 else a div b)"
| "word_binop BinMod a b = Some (if b = 0 then 0 else a mod b)"
| "word_binop BinUncheckedAdd a b = Some (a + b)"
| "word_binop BinUncheckedSub a b = Some (a - b)"
| "word_binop BinUncheckedMul a b = Some (a * b)"
| "word_binop BinUncheckedDiv a b = (if b = 0 then None else Some (a div b))"
| "word_binop BinUncheckedMod a b = (if b = 0 then None else Some (a mod b))"
| "word_binop BinShl a b = Some (push_bit (unat b) a)"
| "word_binop BinShr a b = Some (drop_bit (unat b) a)"
| "word_binop BinBitAnd a b = Some (a AND b)"
| "word_binop BinBitOr a b = Some (a OR b)"
| "word_binop BinBitXor a b = Some (a XOR b)"
| "word_binop _ a b = None"

definition binop_meaning :: "'u sema_ty \<Rightarrow> bin_op \<Rightarrow> const \<Rightarrow> const \<Rightarrow> const option" where
  "binop_meaning t op c d =
     (case (c, d) of
        (CStr a, CStr b) \<Rightarrow> (if op = BinAdd then Some (CStr (a @ b)) else None)
      | (CInt a, CInt b) \<Rightarrow>
          (if ty_is_builtin t BtInteger then integer_binop op a b
           else if ty_is_builtin t BtBool then bool_binop op a b
           else if ty_is_builtin t BtWord then map_option CWord (word_binop op (to_w a) (to_w b))
           else None)
      | _ \<Rightarrow> None)"

text \<open>The intrinsic whose work and label an operator shares.\<close>

fun binop_intrinsic :: "'u sema_ty \<Rightarrow> bin_op \<Rightarrow> const \<Rightarrow> mono_intrinsic" where
  "binop_intrinsic t op (CStr a) = ConcatLit"
| "binop_intrinsic t op c =
     (if ty_is_builtin t BtInteger
      then (case op of BinAdd \<Rightarrow> IntegerAdd | BinSub \<Rightarrow> IntegerSub | BinMul \<Rightarrow> IntegerMul | _ \<Rightarrow> IntegerEq)
      else PrimEqWord)"

section \<open>Operands\<close>

lemma known_int_ok: "known_int e = Some b \<Longrightarrow> big_ok b"
  by (induction e rule: known_int.induct) (auto dest: from_decimal_str_ok(2) from_hex_str_ok(2))

lemma known_const_cases:
  "known_int e = Some b \<Longrightarrow> known_const e = Some (CInt (big_val b))"
  "known_const e = Some (CInt i) \<longleftrightarrow> (\<exists>b. known_int e = Some b \<and> i = big_val b)"
  by (auto simp: known_const_def split: option.splits)

lemma known_string_int: "known_string e = Some s \<Longrightarrow> known_int e = None"
  by (induction e rule: known_string.induct) auto

lemma known_const_string: "known_const e = Some (CStr s) \<longleftrightarrow> known_string e = Some s"
  using known_string_int[of e] by (auto simp: known_const_def split: option.splits)

lemma int_expr_const: "big_ok b \<Longrightarrow> int_expr b t sp = const_expr (CInt (big_val b)) t sp"
  by (simp add: int_expr_def big_to_decimal_string_value const_expr.simps)

text \<open>The representation of a number.\<close>

definition big_of :: "int \<Rightarrow> bigint" where
  "big_of i = the (from_decimal_str ((if i < 0 then ''-'' else []) @ show_nat (nat \<bar>i\<bar>)))"

lemma big_of_ok [simp]: "big_ok (big_of i)" "big_val (big_of i) = i"
proof -
  have "map_option big_val (from_decimal_str ((if i < 0 then ''-'' else []) @ show_nat (nat \<bar>i\<bar>))) = Some i"
    unfolding from_decimal_str_ok strip_minus_printed show_nat_parses by simp
  then obtain b where b: "from_decimal_str ((if i < 0 then ''-'' else []) @ show_nat (nat \<bar>i\<bar>)) = Some b" "big_val b = i" by auto
  with from_decimal_str_ok(2) show "big_ok (big_of i)" "big_val (big_of i) = i" unfolding big_of_def by (metis option.sel)+
qed

lemma word_const: "CInt (i mod int word_modulus) = CWord (to_w i)"
  using uint_big_word[of "big_of i"] by (simp add: CWord_def to_w_def big_word_def)

lemma int_expr_word: "represents b w \<Longrightarrow> int_expr b t sp = const_expr (CWord w) t sp"
  by (simp add: represents_def int_expr_const CWord_def)

lemma other_const [simp]: "string_expr s t sp = const_expr (CStr s) t sp" "bool_expr v t sp = const_expr (CBool v) t sp"
  by (simp_all add: string_expr_def bool_expr_def const_expr.simps)

lemma big_word_to_w: "big_word b = to_w (big_val b)"
  by (simp add: big_word_def to_w_def)

lemma limbs_length: "ls \<noteq> [] \<Longrightarrow> last ls \<noteq> 0 \<Longrightarrow> nat_limbs (limbs_value ls) = length ls"
proof (induction ls)
  case (Cons l ls)
  have d: "limbs_value (l # ls) div 2 ^ 32 = limbs_value ls" using unat_bound[of l] by simp
  have step: "nat_limbs (limbs_value (l # ls)) = (if limbs_value (l # ls) = 0 then 0 else Suc (nat_limbs (limbs_value ls)))"
    unfolding nat_limbs.simps[of "limbs_value (l # ls)"] d by (rule refl)
  show ?case
  proof (cases "ls = []")
    case True
    with Cons have "limbs_value (l # ls) \<noteq> 0" by (auto simp: unat_eq_zero)
    with True show ?thesis unfolding step by (simp add: nat_limbs.simps[of 0])
  next
    case False
    with Cons.prems last_value[of ls] less_le_trans[OF zero_less_power[of "2 :: nat"]] have "0 < limbs_value ls" by auto
    then have "limbs_value (l # ls) \<noteq> 0" by simp
    with False Cons show ?thesis unfolding step by simp
  qed
qed simp

lemma magnitude_limbs:
  assumes "big_ok b"
  shows "length (magnitude b) = limb_count (big_val b)"
proof (cases "magnitude b = []")
  case True
  then show ?thesis by (simp add: limb_count_def big_val_def nat_limbs.simps[of 0])
next
  case False
  with assms have "nat_limbs (limbs_value (magnitude b)) = length (magnitude b)"
    by (intro limbs_length) (auto simp: big_ok_def)
  with big_magnitude[OF assms] show ?thesis unfolding limb_count_def by (metis nat_int)
qed

lemma known_big_of: "known_int e = Some b \<Longrightarrow> big_of (big_val b) = b"
  by (rule big_unique) (simp_all add: known_int_ok)

section \<open>The operations on values\<close>

definition charged :: "nat \<Rightarrow> string \<Rightarrow> const \<Rightarrow> 'u sema_ty \<Rightarrow> 's \<Rightarrow> ('u, 's, 'x, 'd) folder
    \<Rightarrow> ('u, 's, 'x) mono_expr option \<times> ('u, 's, 'x, 'd) folder" where
  "charged work label c t sp st =
     (case charge_bulk_work work label sp st of (ok, st') \<Rightarrow> (if ok then Some (const_expr c t sp) else None, st'))"

lemma charged_free [simp]: "charged 0 label c t sp st = (Some (const_expr c t sp), st)"
  by (simp add: charged_def charge_bulk_work_def)

lemma word_result: "big_ok b \<Longrightarrow> int_expr (mod_word b) t sp = const_expr (CWord (to_w (big_val b))) t sp"
  using int_expr_word[OF mod_word_represents] by (simp add: big_word_to_w)

lemma to_w_simps: "to_w (a + b) = to_w a + to_w b" "to_w (a - b) = to_w a - to_w b" "to_w (a * b) = to_w a * to_w b"
  by (simp_all add: to_w_def)

lemma word_order:
  assumes "big_ok a" and "big_ok b"
  shows "big_cmp (mod_word a) (mod_word b) = Greater \<longleftrightarrow> to_w (big_val b) < to_w (big_val a)"
    "big_cmp (mod_word a) (mod_word b) = Less \<longleftrightarrow> to_w (big_val a) < to_w (big_val b)"
    "mod_word a = mod_word b \<longleftrightarrow> to_w (big_val a) = to_w (big_val b)"
    "big_is_zero (mod_word b) \<longleftrightarrow> to_w (big_val b) = 0"
  using represents_ord[OF mod_word_represents mod_word_represents, OF assms]
    represents_unique[OF mod_word_represents mod_word_represents, OF assms] represents_zero[OF mod_word_represents, OF assms(2)]
  by (simp_all add: big_word_to_w)

lemma int_order:
  assumes "big_ok a" and "big_ok b"
  shows "big_cmp a b = Less \<longleftrightarrow> big_val a < big_val b" "big_cmp a b = Greater \<longleftrightarrow> big_val b < big_val a"
    "a = b \<longleftrightarrow> big_val a = big_val b"
  using assms big_unique by (auto simp: big_cmp_value ord_of_simps)

lemma bitwise_results:
  assumes "big_ok a" and "big_ok b"
  shows "int_expr (bitand_word a b) t sp = const_expr (CWord (to_w (big_val a) AND to_w (big_val b))) t sp"
    "int_expr (bitor_word a b) t sp = const_expr (CWord (to_w (big_val a) OR to_w (big_val b))) t sp"
    "int_expr (bitxor_word a b) t sp = const_expr (CWord (to_w (big_val a) XOR to_w (big_val b))) t sp"
    "int_expr (not_word a) t sp = const_expr (CWord (NOT (to_w (big_val a)))) t sp"
  using bitand_represents[OF assms] bitor_represents[OF assms] bitxor_represents[OF assms] not_word_represents[OF assms(1)]
  by (simp_all add: int_expr_word big_word_to_w)

lemma division_results:
  assumes "big_ok a" and "big_ok b"
  shows "int_expr (word_div a b) t sp
      = const_expr (CWord (if to_w (big_val b) = 0 then 0 else to_w (big_val a) div to_w (big_val b))) t sp"
    "int_expr (word_mod a b) t sp
      = const_expr (CWord (if to_w (big_val b) = 0 then 0 else to_w (big_val a) mod to_w (big_val b))) t sp"
    "int_expr (shl_word a b) t sp = const_expr (CWord (push_bit (unat (to_w (big_val b))) (to_w (big_val a)))) t sp"
    "int_expr (shr_word a b) t sp = const_expr (CWord (drop_bit (unat (to_w (big_val b))) (to_w (big_val a)))) t sp"
  using word_div_represents[OF assms] word_mod_represents[OF assms] shl_word_represents[OF assms] shr_word_represents[OF assms]
  by (simp_all only: int_expr_word big_word_to_w)

lemma word_bytes_of: "big_ok b \<Longrightarrow> to_word_be_bytes b = word_bytes (to_w (big_val b))"
proof (rule nth_equalityI)
  fix j
  assume b: "big_ok b" and "j < length (to_word_be_bytes b)"
  then have j: "j < 32" by simp
  show "to_word_be_bytes b ! j = word_bytes (to_w (big_val b)) ! j"
  proof (rule bit_word_eqI)
    fix n
    assume "n < LENGTH(8)"
    then have n: "n < 8" by simp
    have "word_bytes w ! j = ucast (drop_bit (8 * (31 - j)) w)" for w
      using j by (simp add: word_bytes_def del: upt_rec_numeral upt.simps)
    with to_word_be_bytes_bit[OF b j n] n
    show "bit (to_word_be_bytes b ! j) n = bit (word_bytes (to_w (big_val b)) ! j) n"
      by (simp add: bit_unsigned_iff bit_drop_bit_eq big_word_to_w)
  qed
qed (simp add: word_bytes_def del: upt_rec_numeral upt.simps)

lemma hash_result: "int_expr (from_be_bytes (keccak256 bytes)) t sp = const_expr (hash_const bytes) t sp"
  by (simp add: int_expr_const from_be_bytes_ok hash_const_def)

lemma strlen_result: "int_expr (from_u64 (of_nat n)) t sp = const_expr (CInt (int (n mod 2 ^ 64))) t sp"
  by (simp add: int_expr_const from_u64_ok unsigned_of_nat uint_nat take_bit_eq_mod)

lemma concat_result: "eval_string_concat a b t sp st =
    charged (div_ceil (saturating_add (utf8_len a) (utf8_len b) - 64) 64) ''concatLit'' (CStr (a @ b)) t sp st"
  by (simp add: eval_string_concat_def charged_def Let_def split: prod.splits bool.splits)

lemma arithmetic_results:
  assumes "big_ok a" and "big_ok b"
  shows "eval_integer_arithmetic BinAdd a b t sp st =
      charged (limb_work (saturating_add (max (limb_count (big_val a)) (limb_count (big_val b))) 1)) ''integerAdd''
        (CInt (big_val a + big_val b)) t sp st"
    "eval_integer_arithmetic BinSub a b t sp st =
      charged (limb_work (saturating_add (max (limb_count (big_val a)) (limb_count (big_val b))) 1)) ''integerSub''
        (CInt (big_val a - big_val b)) t sp st"
    "eval_integer_arithmetic BinMul a b t sp st =
      charged (limb_work (saturating_add (limb_count (big_val a)) (limb_count (big_val b)))) ''integerMul''
        (CInt (big_val a * big_val b)) t sp st"
  using assms by (simp_all add: eval_integer_arithmetic_def charged_def limb_work_def magnitude_limbs big_simps
      int_expr_const Let_def split: prod.splits bool.splits)

lemmas operation_results = word_result word_const to_w_simps word_order int_order bitwise_results division_results word_bytes_of
  hash_result strlen_result concat_result arithmetic_results int_expr_const big_add_ok big_sub_ok big_mul_ok

lemma arg_cases:
  obtains (int) b where "known_int e = Some b" "known_string e = None" "known_const e = Some (CInt (big_val b))" "big_ok b"
  | (str) s where "known_int e = None" "known_string e = Some s" "known_const e = Some (CStr s)"
  | (bool) v where "known_int e = None" "known_string e = None" "known_const e = Some (CBool v)"
  | (none) "known_int e = None" "known_string e = None" "known_const e = None"
proof (cases "known_int e")
  case (Some b)
  moreover have "known_string e = None" using Some known_string_int[of e] by (cases "known_string e") auto
  ultimately show ?thesis using int known_const_cases(1) known_int_ok by blast
next
  case None
  then show ?thesis
    using str bool none by (cases "known_string e"; cases "known_bool e") (auto simp: known_const_def)
qed

section \<open>Folding computes the meaning\<close>

lemma eval_primitive_meaning:
  "eval_primitive intrinsic args t sp st =
     (case those (map known_const args) of
        None \<Rightarrow> (None, st)
      | Some cs \<Rightarrow>
          (case prim_meaning intrinsic cs of
             None \<Rightarrow> (None, st)
           | Some c \<Rightarrow> charged (prim_work intrinsic cs) (prim_label intrinsic) c t sp st))"
proof -
  consider "args = []" | e where "args = [e]" | e f where "args = [e, f]" | e f g gs where "args = e # f # g # gs"
    by (cases args rule: remdups_adj.cases) (auto, metis list.exhaust)
  then show ?thesis
  proof cases
    case 2
    show ?thesis unfolding 2
      by (cases e rule: arg_cases; cases intrinsic)
        (simp_all add: eval_primitive_def prim_meaning_def prim_work_def operation_results)
  next
    case 3
    show ?thesis unfolding 3
      by (cases e rule: arg_cases; cases f rule: arg_cases; cases intrinsic)
        (simp_all add: eval_primitive_def eval_word_binary_def prim_meaning_def prim_work_def prim_label_def
          operation_results)
  next
    case 4
    then show ?thesis by (cases intrinsic) (auto simp: eval_primitive_def prim_meaning_def split: option.splits const.splits)
  qed (cases intrinsic; simp add: eval_primitive_def prim_meaning_def)
qed

text \<open>C10. An intrinsic is folded exactly when each argument is a known literal and the intrinsic is
  defined on the values; the result is then the literal of the value that exact integer arithmetic, the
  operation on 256-bit words, concatenation, or the hash gives, at the requested type and span, unless
  the charge for big operands exceeds the budget. Otherwise nothing changes.\<close>

theorem eval_primitive_exact:
  "eval_primitive intrinsic args t sp st =
     (case those (map known_const args) of
        None \<Rightarrow> (None, st)
      | Some cs \<Rightarrow>
          (case prim_meaning intrinsic cs of
             None \<Rightarrow> (None, st)
           | Some c \<Rightarrow> charged (prim_work intrinsic cs) (prim_label intrinsic) c t sp st))"
  by (rule eval_primitive_meaning)

lemma ty_is_builtin_unique: "ty_is_builtin t a \<Longrightarrow> ty_is_builtin t b \<Longrightarrow> a = b"
  by (auto simp: ty_is_builtin_def split: sema_ty.splits sema_ty_ctor.splits)

text \<open>C30. An operator on known operands is folded exactly: strings are concatenated; at the integer type
  the result is that of exact arithmetic and order; at the word type it is that of the operation on 256-bit
  words, with division by zero 0, and left to run time inside an unchecked block; at the Boolean type order
  is that of words. With an operand that is not known, or at another type, nothing is folded.\<close>

theorem eval_binop_exact:
  "eval_binop lhs op rhs t sp st =
     (case (known_const lhs, known_const rhs) of
        (Some c, Some d) \<Rightarrow>
          (case binop_meaning t op c d of
             None \<Rightarrow> (None, st)
           | Some r \<Rightarrow> charged (prim_work (binop_intrinsic t op c) [c, d]) (prim_label (binop_intrinsic t op c)) r t sp st)
      | _ \<Rightarrow> (None, st))"
proof (cases lhs rule: arg_cases)
  case (int a)
  then show ?thesis
  proof (cases rhs rule: arg_cases)
    case (int b)
    consider "ty_is_builtin t BtInteger" | "\<not> ty_is_builtin t BtInteger" "ty_is_builtin t BtBool"
      | "\<not> ty_is_builtin t BtInteger" "\<not> ty_is_builtin t BtBool" by blast
    then show ?thesis
    proof cases
      case 1
      with int \<open>known_int lhs = Some a\<close> \<open>known_string lhs = None\<close> \<open>known_const lhs = Some (CInt (big_val a))\<close> \<open>big_ok a\<close>
      show ?thesis
        by (cases op) (simp_all add: eval_binop_def binop_meaning_def prim_work_def prim_label_def operation_results not_less)
    next
      case 2
      with int \<open>known_int lhs = Some a\<close> \<open>known_string lhs = None\<close> \<open>known_const lhs = Some (CInt (big_val a))\<close> \<open>big_ok a\<close>
      show ?thesis
        by (cases op) (simp_all add: eval_binop_def binop_meaning_def prim_work_def operation_results not_less)
    next
      case 3
      with int \<open>known_int lhs = Some a\<close> \<open>known_string lhs = None\<close> \<open>known_const lhs = Some (CInt (big_val a))\<close> \<open>big_ok a\<close>
      show ?thesis
        by (cases op) (simp_all add: eval_binop_def binop_meaning_def prim_work_def operation_results)
    qed
  qed (simp_all add: eval_binop_def binop_meaning_def)
next
  case (str a)
  then show ?thesis
    by (cases rhs rule: arg_cases)
      (simp_all add: eval_binop_def binop_meaning_def prim_work_def prim_label_def concat_result)
qed (simp_all add: eval_binop_def binop_meaning_def split: option.splits)

section \<open>The budget bounds the size of results\<close>

lemma limb_count_less: "\<bar>i\<bar> < 2 ^ (32 * limb_count i)"
proof -
  have "limbs_value (magnitude (big_of i)) < 2 ^ (32 * length (magnitude (big_of i)))" by (rule limbs_value_bound)
  then have "int (limbs_value (magnitude (big_of i))) < 2 ^ (32 * length (magnitude (big_of i)))"
    by (metis of_nat_less_iff of_nat_numeral of_nat_power)
  then show ?thesis by (simp add: big_magnitude magnitude_limbs)
qed

lemma limb_count_le: "\<bar>i\<bar> < 2 ^ (32 * k) \<Longrightarrow> limb_count i \<le> k"
  using magnitude_length[of "big_of i" k] by (simp add: magnitude_limbs)

lemma limb_count_sum:
  "limb_count (a + b) \<le> max (limb_count a) (limb_count b) + 1" "limb_count (a - b) \<le> max (limb_count a) (limb_count b) + 1"
proof -
  let ?k = "max (limb_count a) (limb_count b)"
  have "(2 :: int) ^ (32 * limb_count a) \<le> 2 ^ (32 * ?k)" "(2 :: int) ^ (32 * limb_count b) \<le> 2 ^ (32 * ?k)"
    by (intro power_increasing; simp)+
  with limb_count_less[of a] limb_count_less[of b] have "\<bar>a\<bar> < 2 ^ (32 * ?k)" "\<bar>b\<bar> < 2 ^ (32 * ?k)" by linarith+
  moreover have "(2 :: int) ^ (32 * (?k + 1)) = 4294967296 * 2 ^ (32 * ?k)" by (simp only: distrib_left power_add mult_1_right) simp
  ultimately have "\<bar>a + b\<bar> < 2 ^ (32 * (?k + 1))" "\<bar>a - b\<bar> < 2 ^ (32 * (?k + 1))" by linarith+
  then show "limb_count (a + b) \<le> ?k + 1" "limb_count (a - b) \<le> ?k + 1" by (simp_all only: limb_count_le)
qed

lemma limb_count_mul: "limb_count (a * b) \<le> limb_count a + limb_count b"
proof (rule limb_count_le)
  have "\<bar>a\<bar> * \<bar>b\<bar> < 2 ^ (32 * limb_count a) * 2 ^ (32 * limb_count b)"
    using limb_count_less[of a] limb_count_less[of b] by (intro mult_strict_mono') simp_all
  then show "\<bar>a * b\<bar> < 2 ^ (32 * (limb_count a + limb_count b))" by (simp add: abs_mult power_add algebra_simps)
qed

lemma limb_count_word: "limb_count (uint (w :: 256 word)) \<le> 8"
  by (rule limb_count_le) (use unsigned_less[of w, where 'a = int] in simp)

lemma div_ceil_bound: "0 < b \<Longrightarrow> a \<le> b * div_ceil a b"
proof -
  assume "0 < b"
  then have "a mod b < b" by simp
  with mult_div_mod_eq[of b a] show ?thesis unfolding div_ceil_def by (simp only: distrib_left split: if_split) linarith
qed

lemma limb_work_bound:
  assumes "limb_work (saturating_add m n) < 2 ^ 57"
  shows "m + n \<le> 32 \<or> (m + n)\<^sup>2 \<le> 64 * limb_work (saturating_add m n)"
proof (cases "32 < saturating_add m n")
  case False
  then show ?thesis by (auto simp: saturating_add_def usize_max_def)
next
  case True
  let ?k = "saturating_add m n"
  have w: "limb_work ?k = div_ceil (saturating_mul ?k ?k) 64" using True by (simp add: limb_work_def)
  have b: "saturating_mul ?k ?k \<le> 64 * limb_work ?k" unfolding w by (rule div_ceil_bound) simp
  with assms have s: "saturating_mul ?k ?k < 2 ^ 63" by simp
  have "?k \<le> ?k * ?k" using True by (cases ?k) simp_all
  moreover from s have m: "saturating_mul ?k ?k = ?k * ?k" by (auto simp: saturating_mul_def usize_max_def min_def split: if_splits)
  ultimately have "?k < 2 ^ 63" using s by linarith
  then have "?k = m + n" by (auto simp: saturating_add_def usize_max_def min_def split: if_splits)
  then show ?thesis using b m by (simp add: power2_eq_square)
qed

text \<open>The size of a result that work pays for.\<close>

fun within_work :: "nat \<Rightarrow> const \<Rightarrow> bool" where
  "within_work work (CInt i) \<longleftrightarrow> limb_count i \<le> 32 \<or> (limb_count i)\<^sup>2 \<le> 64 * work"
| "within_work work (CStr s) \<longleftrightarrow> utf8_len s \<le> 64 + 64 * work"
| "within_work work (CBool v) \<longleftrightarrow> True"

lemma be_value_less: "be_value bytes < 2 ^ (8 * length bytes)"
proof (induction bytes rule: rev_induct)
  case (snoc byte bytes)
  then have "Suc (be_value bytes) * 256 \<le> 2 ^ (8 * length bytes) * 256" by (intro mult_le_mono1) simp
  then show ?case using unat_bound[of byte] by (simp add: power_add)
qed simp

lemma keccak256_length: "length (keccak256 bytes) = 32"
  by (simp only: keccak256_def Let_def split_beta length_map length_upt)

lemma within_word: "within_work k (CWord w)"
  using limb_count_word[of w] by (simp add: CWord_def)

lemma within_hash: "within_work k (hash_const bytes)"
proof -
  have "int (be_value (keccak256 bytes)) < 2 ^ (8 * length (keccak256 bytes))"
    using be_value_less[of "keccak256 bytes"] by (metis of_nat_less_iff of_nat_numeral of_nat_power)
  then have "limb_count (int (be_value (keccak256 bytes))) \<le> 8"
    unfolding keccak256_length by (intro limb_count_le) simp
  then show ?thesis by (simp add: hash_const_def)
qed

lemma within_arithmetic:
  assumes "limb_work (saturating_add m n) < 2 ^ 57" and "limb_count i \<le> m + n"
  shows "within_work (limb_work (saturating_add m n)) (CInt i)"
  using limb_work_bound[OF assms(1)] assms(2) power_mono[OF assms(2) le0, of 2] order_trans by (simp only: within_work.simps) blast

lemma within_concat:
  assumes "div_ceil (saturating_add m n - 64) 64 < 2 ^ 57"
  shows "m + n \<le> 64 + 64 * div_ceil (saturating_add m n - 64) 64"
proof -
  have b: "saturating_add m n - 64 \<le> 64 * div_ceil (saturating_add m n - 64) 64" by (rule div_ceil_bound) simp
  with assms have "saturating_add m n < 2 ^ 63 + 64" by simp
  then have "saturating_add m n = m + n" by (auto simp: saturating_add_def usize_max_def min_def split: if_splits)
  with b show ?thesis by simp
qed

lemma utf8_len_append: "utf8_len (a @ b) = utf8_len a + utf8_len b"
  by (simp add: utf8_len_def)

lemma prim_result_within:
  assumes "prim_meaning intrinsic cs = Some c" and "intrinsic \<noteq> WordToInteger" and "prim_work intrinsic cs < 2 ^ 57"
  shows "within_work (prim_work intrinsic cs) c"
proof -
  have len: "limb_count (int (n mod 2 ^ 64)) \<le> 32" for n
    by (rule order_trans[OF limb_count_le[of _ 2]]) simp_all
  consider a where "cs = [CInt a]" | s where "cs = [CStr s]" | a b where "cs = [CInt a, CInt b]" | a b where "cs = [CStr a, CStr b]"
    using assms(1) by (auto simp: prim_meaning_def split: list.splits const.splits)
  then show ?thesis
  proof cases
    case 1
    with assms show ?thesis by (cases intrinsic) (auto simp: prim_meaning_def within_word within_hash)
  next
    case 2
    with assms len show ?thesis by (auto simp: prim_meaning_def within_hash split: if_splits)
  next
    case 3
    with assms within_arithmetic limb_count_sum[of a b] limb_count_mul[of a b] show ?thesis
      by (cases intrinsic) (auto simp: prim_meaning_def prim_work_def within_word simp del: within_work.simps(1))
  next
    case 4
    with assms within_concat show ?thesis by (auto simp: prim_meaning_def prim_work_def utf8_len_append split: if_splits)
  qed
qed

text \<open>A state and string literals for the witnesses.\<close>

definition sample_folder :: "nat \<Rightarrow> (unit, unit, unit, unit) folder" where
  "sample_folder n =
     \<lparr>comptime_mode = True, ev_memory = Map.empty, diagnostics = [], inline_stack = [], fuel_limit = n, fuel = n,
      literal_fuel = n, inline_depth_limit = 128\<rparr>"

definition sample_string :: "nat \<Rightarrow> (unit, unit, unit) mono_expr" where
  "sample_string n = MonoExpr () TyUnknown (MLit (LkString (CHR 0x22 # replicate n CHR ''a'' @ [CHR 0x22])))"

lemma sample_string_const: "known_const (sample_string 40) = Some (CStr (replicate 40 CHR ''a''))"
proof -
  have "decode_string_literal (CHR 0x22 # replicate 40 CHR ''a'' @ [CHR 0x22]) = Some (replicate 40 CHR ''a'')" by code_simp
  then show ?thesis by (simp add: known_const_def sample_string_def)
qed

lemma sample_concat:
  "those (map known_const [sample_string 40, sample_string 40]) = Some [CStr (replicate 40 CHR ''a''), CStr (replicate 40 CHR ''a'')]"
  "prim_meaning ConcatLit [CStr (replicate 40 CHR ''a''), CStr (replicate 40 CHR ''a'')]
     = Some (CStr (replicate 40 CHR ''a'' @ replicate 40 CHR ''a''))"
  "prim_work ConcatLit [CStr (replicate 40 CHR ''a''), CStr (replicate 40 CHR ''a'')] = 1"
proof -
  have "utf8_len (replicate 40 CHR ''a'') = 40" by code_simp
  then show "prim_work ConcatLit [CStr (replicate 40 CHR ''a''), CStr (replicate 40 CHR ''a'')] = 1"
    by (simp add: prim_work_def saturating_add_def usize_max_def div_ceil_def)
qed (simp_all add: sample_string_const prim_meaning_def)

text \<open>C28. The budget bounds the size of what folding builds. The result of an intrinsic other than the
  identity \<open>WordToInteger\<close> has at most 32 limbs or, for a string, 64 bytes, or else its size was paid for:
  the square of the limb count is at most 64 times the fuel spent, and a string has at most 64 bytes plus 64
  for each unit of fuel. Fuel never grows, and the fuel for literals, which is never refilled, pays the same
  amount. The bound on the fuel excludes saturation of \<open>usize\<close>.\<close>

theorem folded_size_is_paid_for:
  assumes "eval_primitive intrinsic args t sp st = (Some e, st')" and "intrinsic \<noteq> WordToInteger" and "fuel st < 2 ^ 57"
  shows "fuel st' \<le> fuel st \<and> literal_fuel st + fuel st' = literal_fuel st' + fuel st
    \<and> (\<exists>c. e = const_expr c t sp \<and> within_work (fuel st - fuel st') c)"
proof -
  obtain cs c where c: "prim_meaning intrinsic cs = Some c"
    and r: "charged (prim_work intrinsic cs) (prim_label intrinsic) c t sp st = (Some e, st')"
    using assms(1) unfolding eval_primitive_meaning by (auto split: option.splits)
  let ?w = "prim_work intrinsic cs"
  from r have w: "?w \<le> fuel st" "?w \<le> literal_fuel st" and e: "e = const_expr c t sp"
    and st': "st' = st\<lparr>fuel := fuel st - ?w, literal_fuel := literal_fuel st - ?w\<rparr>"
    by (auto simp: charged_def charge_bulk_work_def Let_def split: if_splits)
  from w(1) assms(3) have "within_work ?w c" by (intro prim_result_within[OF c assms(2)]) simp
  moreover from w have "fuel st - fuel st' = ?w" "fuel st' \<le> fuel st" "literal_fuel st + fuel st' = literal_fuel st' + fuel st"
    by (simp_all add: st')
  ultimately show ?thesis using e by auto
qed

theorem folded_size_is_paid_for_witness:
  "\<exists>e st'. eval_primitive ConcatLit [sample_string 40, sample_string 40] TyUnknown () (sample_folder 4096) = (Some e, st')
     \<and> literal_fuel (sample_folder 4096) + fuel st' = literal_fuel st' + fuel (sample_folder 4096)"
proof -
  have "charge_bulk_work 1 label sp (sample_folder 4096) = (True, (sample_folder 4096)\<lparr>fuel := 4095, literal_fuel := 4095\<rparr>)"
    for label sp by (simp add: charge_bulk_work_def sample_folder_def)
  then obtain e st' where r: "eval_primitive ConcatLit [sample_string 40, sample_string 40] TyUnknown () (sample_folder 4096) = (Some e, st')"
    unfolding eval_primitive_meaning sample_concat(1) option.case sample_concat(2) sample_concat(3) charged_def by auto
  have "fuel (sample_folder 4096) < 2 ^ 57" by (simp add: sample_folder_def)
  with folded_size_is_paid_for[OF r] r show ?thesis by blast
qed

text \<open>C29. Running out of budget is final and reported. When an intrinsic on known arguments, on which it is
  defined, is not folded, both fuels are zero afterwards, so that no call is inlined any more either, and
  there is a diagnostic: one is added, with the limit, only if none of its kind was there.\<close>

theorem exhausted_budget_is_reported:
  assumes "those (map known_const args) = Some cs" and "prim_meaning intrinsic cs = Some c"
    and "eval_primitive intrinsic args t sp st = (None, st')"
  shows "fuel st' = 0 \<and> literal_fuel st' = 0 \<and> inline_budget_exhaustion st' = Some (TotalWork (fuel_limit st))
    \<and> has_inline_failure_diagnostic st'
    \<and> (has_inline_failure_diagnostic st \<longrightarrow> diagnostics st' = diagnostics st)
    \<and> (\<not> has_inline_failure_diagnostic st \<longrightarrow> diagnostics st' = diagnostics st @
        [\<lparr>diag_kind = (if comptime_mode st \<or> list_ex frame_comptime (inline_stack st)
            then ComptimeFuelExhausted else ReductionFuelExhausted) (prim_label intrinsic) (fuel_limit st),
          diag_span = Some sp\<rparr>])"
proof -
  let ?w = "prim_work intrinsic cs"
  from assms have "charged ?w (prim_label intrinsic) c t sp st = (None, st')" unfolding eval_primitive_meaning by simp
  then have st': "st' = push_inline_limit_diagnostic (prim_label intrinsic)
      (inline_chain_is_comptime (comptime_mode st) st) sp (TotalWork (fuel_limit st)) (st\<lparr>fuel := 0, literal_fuel := 0\<rparr>)"
    by (auto simp: charged_def charge_bulk_work_def inline_chain_is_comptime_def Let_def split: if_splits)
  show ?thesis unfolding st'
    by (simp add: push_inline_limit_diagnostic_def inline_budget_exhaustion_def classify_inline_budget_exhaustion_def
        has_inline_failure_diagnostic_def inline_chain_is_comptime_def Let_def)
qed

theorem exhausted_budget_is_reported_witness:
  "\<exists>st'. eval_primitive ConcatLit [sample_string 40, sample_string 40] TyUnknown () (sample_folder 0) = (None, st')
     \<and> literal_fuel st' = 0 \<and> has_inline_failure_diagnostic st'"
proof -
  have "\<exists>st'. charge_bulk_work 1 label sp (sample_folder 0) = (False, st')"
    for label sp by (simp add: charge_bulk_work_def sample_folder_def Let_def)
  then obtain st' where r: "eval_primitive ConcatLit [sample_string 40, sample_string 40] TyUnknown () (sample_folder 0) = (None, st')"
    unfolding eval_primitive_meaning sample_concat(1) option.case sample_concat(2) sample_concat(3) charged_def
    by (metis (mono_tags, lifting) case_prod_conv)
  with exhausted_budget_is_reported[OF sample_concat(1,2) r] show ?thesis by blast
qed

end
