(* ===== verification/Known_Match.thy ===== *)
theory Known_Match
  imports Comptime_Prim
begin

text \<open>
  Selection of a match arm at compile time (\<open>crates/specialize/src/evaluate/known.rs\<close>). An expression may
  hold parts that are only known at run time; a pattern is then decided only if the known parts suffice.
  The reference is the choice of an arm by run-time values, with numerals read modulo $2^{256}$: the selected arm is the
  one that every value of the scrutinee selects, with the same bindings, and an arm is dropped only if no value
  selects it. Compile time compares numerals exactly, so both hold when no two different numerals of the match are the
  same word; a scrutinee 0 and a case $2^{256}$ show that the condition is needed. A body of an arm is opaque here.
\<close>

section \<open>Patterns and arms\<close>

datatype ('u, 's, 'x) mono_pat =
    MonoPat (mpat_span: 's) (mpat_ty: "'u sema_ty") (mpat_kind: "('u, 's, 'x) mono_pat_kind")
and ('u, 's, 'x) mono_pat_kind =
    MpWildcard
  | MpVar "('u, 's) mono_id"
  | MpLit lit_kind
  | MpCon "('u, 's) mono_id" "('u, 's, 'x) mono_pat list"
  | MpTuple "('u, 's, 'x) mono_pat list"
  | MpComptimeLabel "('u, 's, 'x) mono_expr"
  | MpError

record ('u, 's, 'x, 'b) mono_arm =
  arm_span :: 's
  arm_pats :: "('u, 's, 'x) mono_pat list"
  arm_body :: 'b

record ('u, 's, 'x) mono_expr_arm =
  xarm_span :: 's
  xarm_pat :: "('u, 's, 'x) mono_pat"
  xarm_expr :: "('u, 's, 'x) mono_expr"

type_synonym ('u, 's, 'x) venv = "name \<rightharpoonup> ('u, 's, 'x) mono_expr"

record ('u, 's, 'x, 'b) matched_arm =
  matched_index :: nat
  matched_env :: "('u, 's, 'x) venv"
  matched_bindings :: "('u, 's) mono_id list"
  matched_body :: 'b

record ('u, 's, 'x) known_pattern_bindings =
  kp_env :: "('u, 's, 'x) venv"
  kp_bindings :: "('u, 's) mono_id list"

section \<open>The code\<close>

text \<open>\<open>known\<close> decides the kinds that \<open>mono_expr_kind\<close> does not distinguish: a lambda, a proxy or the name of
  a function is known.\<close>

fun expr_is_known_value :: "('x \<Rightarrow> bool) \<Rightarrow> ('u, 's, 'x) mono_expr \<Rightarrow> bool" where
  "expr_is_known_value known (MonoExpr sp t (MLit l)) = True"
| "expr_is_known_value known (MonoExpr sp t (MTuple es)) = list_all (expr_is_known_value known) es"
| "expr_is_known_value known (MonoExpr sp t (MCon c es)) = list_all (expr_is_known_value known) es"
| "expr_is_known_value known (MonoExpr sp t (MTypeAnnot e u)) = expr_is_known_value known e"
| "expr_is_known_value known (MonoExpr sp t (MOther x)) = known x"

fun literal_from_known_expr :: "('u, 's, 'x) mono_expr \<Rightarrow> lit_kind option" where
  "literal_from_known_expr (MonoExpr sp t (MLit l)) = Some l"
| "literal_from_known_expr (MonoExpr sp t (MTypeAnnot e u)) = literal_from_known_expr e"
| "literal_from_known_expr (MonoExpr sp t _) = None"

fun unannotated_value :: "('u, 's, 'x) mono_expr \<Rightarrow> ('u, 's, 'x) mono_expr" where
  "unannotated_value (MonoExpr sp t (MTypeAnnot e u)) = unannotated_value e"
| "unannotated_value e = e"

definition canonical_ctor :: "string \<Rightarrow> string" where
  "canonical_ctor n = map (\<lambda>c. if c = CHR ''.'' then CHR ''_'' else c) n"

definition constructor_names_match :: "string \<Rightarrow> string \<Rightarrow> bool" where
  "constructor_names_match lhs rhs \<longleftrightarrow> canonical_ctor lhs = canonical_ctor rhs"

fun literal_bigint :: "lit_kind \<Rightarrow> bigint option" where
  "literal_bigint (LkNumber text) = from_decimal_str text"
| "literal_bigint (LkHex text) = from_hex_str text"
| "literal_bigint (LkString text) = None"
| "literal_bigint LkError = None"

definition literal_matches :: "lit_kind \<Rightarrow> ('u, 's, 'x) mono_expr \<Rightarrow> bool" where
  "literal_matches l v =
     (case l of
        LkString text \<Rightarrow>
          (case known_string v of
             None \<Rightarrow> False
           | Some rhs \<Rightarrow> (case decode_string_literal text of None \<Rightarrow> False | Some lhs \<Rightarrow> lhs = rhs))
      | LkError \<Rightarrow> False
      | _ \<Rightarrow>
          (case literal_bigint l of
             None \<Rightarrow> False
           | Some lhs \<Rightarrow> (case known_int v of None \<Rightarrow> False | Some rhs \<Rightarrow> lhs = rhs)))"

text \<open>The loop of \<open>product_pattern_decision\<close> stops at the first mismatch; an undecided column before it does
  not stop it.\<close>

fun pattern_decision :: "(('u, 's, 'x) mono_expr \<Rightarrow> bool) \<Rightarrow> ('u, 's, 'x) mono_pat \<Rightarrow> ('u, 's, 'x) mono_expr \<Rightarrow> bool option"
  and product_pattern_decision ::
    "(('u, 's, 'x) mono_expr \<Rightarrow> bool) \<Rightarrow> ('u, 's, 'x) mono_pat list \<Rightarrow> ('u, 's, 'x) mono_expr list \<Rightarrow> bool option" where
  "pattern_decision is_known (MonoPat sp t MpWildcard) v = Some True"
| "pattern_decision is_known (MonoPat sp t (MpVar i)) v = Some True"
| "pattern_decision is_known (MonoPat sp t (MpLit l)) v = (if is_known v then Some (literal_matches l v) else None)"
| "pattern_decision is_known (MonoPat sp t (MpComptimeLabel e)) v =
     (if is_known v
      then Some (case literal_from_known_expr e of None \<Rightarrow> False | Some l \<Rightarrow> literal_matches l v)
      else None)"
| "pattern_decision is_known (MonoPat sp t (MpCon ctor ps)) v =
     (case expr_kind (unannotated_value v) of
        MCon vctor vs \<Rightarrow>
          (if \<not> constructor_names_match (id_name ctor) (id_name vctor) \<or> length ps \<noteq> length vs then Some False
           else product_pattern_decision is_known ps vs)
      | _ \<Rightarrow> (if is_known v then Some False else None))"
| "pattern_decision is_known (MonoPat sp t (MpTuple ps)) v =
     (case expr_kind (unannotated_value v) of
        MTuple vs \<Rightarrow>
          (if length ps = length vs then product_pattern_decision is_known ps vs
           else if is_known v then Some False else None)
      | _ \<Rightarrow> (if is_known v then Some False else None))"
| "pattern_decision is_known (MonoPat sp t MpError) v = None"
| "product_pattern_decision is_known (p # ps) (v # vs) =
     (case pattern_decision is_known p v of
        Some False \<Rightarrow> Some False
      | None \<Rightarrow> (case product_pattern_decision is_known ps vs of Some False \<Rightarrow> Some False | _ \<Rightarrow> None)
      | Some True \<Rightarrow> product_pattern_decision is_known ps vs)"
| "product_pattern_decision is_known _ _ = Some True"

fun match_pat :: "(('u, 's, 'x) mono_expr \<Rightarrow> bool) \<Rightarrow> ('u, 's, 'x) venv \<Rightarrow> ('u, 's, 'x) mono_pat \<Rightarrow> ('u, 's, 'x) mono_expr
    \<Rightarrow> ('u, 's, 'x) venv option"
  and match_pats :: "(('u, 's, 'x) mono_expr \<Rightarrow> bool) \<Rightarrow> ('u, 's, 'x) venv \<Rightarrow> ('u, 's, 'x) mono_pat list
    \<Rightarrow> ('u, 's, 'x) mono_expr list \<Rightarrow> ('u, 's, 'x) venv option" where
  "match_pat is_known env (MonoPat sp t MpWildcard) v = Some env"
| "match_pat is_known env (MonoPat sp t (MpVar i)) v =
     Some (if is_known v then env(id_name i \<mapsto> v) else env(id_name i := None))"
| "match_pat is_known env (MonoPat sp t (MpLit l)) v = (if literal_matches l v then Some env else None)"
| "match_pat is_known env (MonoPat sp t (MpCon ctor ps)) v =
     (case expr_kind (unannotated_value v) of
        MCon vctor vs \<Rightarrow>
          (if constructor_names_match (id_name ctor) (id_name vctor) \<and> length ps = length vs
           then match_pats is_known env ps vs else None)
      | _ \<Rightarrow> None)"
| "match_pat is_known env (MonoPat sp t (MpTuple ps)) v =
     (case expr_kind (unannotated_value v) of
        MTuple vs \<Rightarrow> (if length ps = length vs then match_pats is_known env ps vs else None)
      | _ \<Rightarrow> None)"
| "match_pat is_known env (MonoPat sp t (MpComptimeLabel e)) v =
     (case literal_from_known_expr e of None \<Rightarrow> None | Some l \<Rightarrow> if literal_matches l v then Some env else None)"
| "match_pat is_known env (MonoPat sp t MpError) v = None"
| "match_pats is_known env (p # ps) (v # vs) =
     (case match_pat is_known env p v of None \<Rightarrow> None | Some env \<Rightarrow> match_pats is_known env ps vs)"
| "match_pats is_known env _ _ = Some env"

text \<open>The visitor of \<open>pattern_bindings\<close>, then the last occurrence of each name. The visitor also walks the
  expression of a label; \<open>ids\<close> gives the variables of the patterns inside an expression of an opaque kind,
  such as another match.\<close>

fun expr_bindings :: "('x \<Rightarrow> ('u, 's) mono_id list) \<Rightarrow> ('u, 's, 'x) mono_expr \<Rightarrow> ('u, 's) mono_id list" where
  "expr_bindings ids (MonoExpr sp t (MTuple es)) = concat (map (expr_bindings ids) es)"
| "expr_bindings ids (MonoExpr sp t (MCon c es)) = concat (map (expr_bindings ids) es)"
| "expr_bindings ids (MonoExpr sp t (MTypeAnnot e u)) = expr_bindings ids e"
| "expr_bindings ids (MonoExpr sp t (MOther x)) = ids x"
| "expr_bindings ids (MonoExpr sp t (MLit l)) = []"

fun collect_bindings :: "('x \<Rightarrow> ('u, 's) mono_id list) \<Rightarrow> ('u, 's, 'x) mono_pat \<Rightarrow> ('u, 's) mono_id list" where
  "collect_bindings ids (MonoPat sp t (MpVar i)) = [i]"
| "collect_bindings ids (MonoPat sp t (MpCon ctor ps)) = concat (map (collect_bindings ids) ps)"
| "collect_bindings ids (MonoPat sp t (MpTuple ps)) = concat (map (collect_bindings ids) ps)"
| "collect_bindings ids (MonoPat sp t (MpComptimeLabel e)) = expr_bindings ids e"
| "collect_bindings ids (MonoPat sp t _) = []"

fun retain_first :: "name set \<Rightarrow> ('u, 's) mono_id list \<Rightarrow> ('u, 's) mono_id list" where
  "retain_first seen [] = []"
| "retain_first seen (i # ids) =
     (if id_name i \<in> seen then retain_first seen ids else i # retain_first (insert (id_name i) seen) ids)"

definition pattern_bindings :: "('x \<Rightarrow> ('u, 's) mono_id list) \<Rightarrow> ('u, 's, 'x) mono_pat list \<Rightarrow> ('u, 's) mono_id list" where
  "pattern_bindings ids ps = rev (retain_first {} (rev (concat (map (collect_bindings ids) ps))))"

text \<open>The loop of \<open>match_known_patterns_with\<close> over the columns.\<close>

fun match_columns :: "('x \<Rightarrow> ('u, 's) mono_id list) \<Rightarrow> (('u, 's, 'x) mono_expr \<Rightarrow> bool) \<Rightarrow> ('u, 's, 'x) venv \<Rightarrow> ('u, 's, 'x) mono_pat list
    \<Rightarrow> ('u, 's, 'x) mono_expr list \<Rightarrow> ('u, 's, 'x) venv option" where
  "match_columns ids is_known env (p # ps) (v # vs) =
     (if is_known v
      then (case match_pat is_known env p v of None \<Rightarrow> None | Some env \<Rightarrow> match_columns ids is_known env ps vs)
      else match_columns ids is_known (fold (\<lambda>i env. env(id_name i := None)) (pattern_bindings ids [p]) env) ps vs)"
| "match_columns ids is_known env _ _ = Some env"

definition match_known_patterns_with ::
    "('x \<Rightarrow> ('u, 's) mono_id list) \<Rightarrow> ('u, 's, 'x) mono_pat list \<Rightarrow> ('u, 's, 'x) mono_expr list \<Rightarrow> (('u, 's, 'x) mono_expr \<Rightarrow> bool)
       \<Rightarrow> ('u, 's, 'x) known_pattern_bindings option" where
  "match_known_patterns_with ids ps vs is_known =
     (case match_columns ids is_known Map.empty ps vs of
        None \<Rightarrow> None
      | Some env \<Rightarrow> Some \<lparr>kp_env = env, kp_bindings = filter (\<lambda>i. env (id_name i) \<noteq> None) (pattern_bindings ids ps)\<rparr>)"

fun match_arms_from :: "('x \<Rightarrow> ('u, 's) mono_id list) \<Rightarrow> nat \<Rightarrow> ('u, 's, 'x) venv \<Rightarrow> ('u, 's, 'x) mono_expr list \<Rightarrow> ('u, 's, 'x, 'b) mono_arm list
    \<Rightarrow> (('u, 's, 'x) mono_expr \<Rightarrow> bool) \<Rightarrow> ('u, 's, 'x, 'b) matched_arm option" where
  "match_arms_from ids index env vs [] is_known = None"
| "match_arms_from ids index env vs (arm # arms) is_known =
     (if length (arm_pats arm) \<noteq> length vs then match_arms_from ids (index + 1) env vs arms is_known
      else case product_pattern_decision is_known (arm_pats arm) vs of
             None \<Rightarrow> None
           | Some False \<Rightarrow> match_arms_from ids (index + 1) env vs arms is_known
           | Some True \<Rightarrow>
               (case match_pats (\<lambda>_. True) env (arm_pats arm) vs of
                  None \<Rightarrow> None
                | Some env \<Rightarrow> Some \<lparr>matched_index = index, matched_env = env,
                    matched_bindings = pattern_bindings ids (arm_pats arm), matched_body = arm_body arm\<rparr>))"

definition match_arms_with ::
    "('x \<Rightarrow> ('u, 's) mono_id list) \<Rightarrow> ('u, 's, 'x) venv \<Rightarrow> ('u, 's, 'x) mono_expr list \<Rightarrow> ('u, 's, 'x, 'b) mono_arm list
       \<Rightarrow> (('u, 's, 'x) mono_expr \<Rightarrow> bool) \<Rightarrow> ('u, 's, 'x, 'b) matched_arm option" where
  "match_arms_with ids env vs arms is_known = match_arms_from ids 0 env vs arms is_known"

fun match_expr_arms_with :: "('x \<Rightarrow> ('u, 's) mono_id list) \<Rightarrow> ('u, 's, 'x) venv \<Rightarrow> ('u, 's, 'x) mono_expr \<Rightarrow> ('u, 's, 'x) mono_expr_arm list
    \<Rightarrow> (('u, 's, 'x) mono_expr \<Rightarrow> bool) \<Rightarrow> (('u, 's, 'x) venv \<times> ('u, 's, 'x) mono_expr \<times> ('u, 's) mono_id list) option" where
  "match_expr_arms_with ids env v [] is_known = None"
| "match_expr_arms_with ids env v (arm # arms) is_known =
     (case pattern_decision is_known (xarm_pat arm) v of
        None \<Rightarrow> None
      | Some False \<Rightarrow> match_expr_arms_with ids env v arms is_known
      | Some True \<Rightarrow>
          (case match_pat (\<lambda>_. True) env (xarm_pat arm) v of
             None \<Rightarrow> None
           | Some env \<Rightarrow> Some (env, xarm_expr arm, pattern_bindings ids [xarm_pat arm])))"

section \<open>The reference\<close>

text \<open>Run-time values, the values an expression may have (\<open>D\<close> gives those of the opaque kinds), and the
  choice of an arm by values. At run time every number is a word: numerals, in expressions and in patterns, are read modulo
  $2^{256}$, as \<open>wrap_word_lit_kind\<close> of \<open>crates/hull/src/emit/match_compile.rs\<close> does when it emits a match. Constructors are compared by canonical name.\<close>

datatype rt_value = RtWord "256 word" | RtString string | RtCon string "rt_value list" | RtTuple "rt_value list" | RtOther nat

fun lit_value :: "lit_kind \<Rightarrow> rt_value option" where
  "lit_value (LkString text) = map_option RtString (decode_string_literal text)"
| "lit_value l = map_option (\<lambda>b. RtWord (of_int (big_val b))) (literal_bigint l)"

fun denotes :: "('x \<Rightarrow> rt_value \<Rightarrow> bool) \<Rightarrow> ('u, 's, 'x) mono_expr \<Rightarrow> rt_value \<Rightarrow> bool"
  and denotes_all :: "('x \<Rightarrow> rt_value \<Rightarrow> bool) \<Rightarrow> ('u, 's, 'x) mono_expr list \<Rightarrow> rt_value list \<Rightarrow> bool" where
  "denotes D (MonoExpr sp t (MLit l)) r \<longleftrightarrow> lit_value l = Some r"
| "denotes D (MonoExpr sp t (MTuple es)) r \<longleftrightarrow> (case r of RtTuple rs \<Rightarrow> denotes_all D es rs | _ \<Rightarrow> False)"
| "denotes D (MonoExpr sp t (MCon c es)) r \<longleftrightarrow>
     (case r of RtCon n rs \<Rightarrow> n = canonical_ctor (id_name c) \<and> denotes_all D es rs | _ \<Rightarrow> False)"
| "denotes D (MonoExpr sp t (MTypeAnnot e u)) r \<longleftrightarrow> denotes D e r"
| "denotes D (MonoExpr sp t (MOther x)) r \<longleftrightarrow> D x r"
| "denotes_all D [] rs \<longleftrightarrow> rs = []"
| "denotes_all D (e # es) rs \<longleftrightarrow> (case rs of [] \<Rightarrow> False | r # rs \<Rightarrow> denotes D e r \<and> denotes_all D es rs)"

text \<open>A pattern against a value: the environment of the arm, if it matches. A label that was not evaluated,
  which is reported as an error before arms are selected, matches nothing.\<close>

fun rt_match :: "(name \<rightharpoonup> rt_value) \<Rightarrow> ('u, 's, 'x) mono_pat \<Rightarrow> rt_value \<Rightarrow> (name \<rightharpoonup> rt_value) option"
  and rt_matches :: "(name \<rightharpoonup> rt_value) \<Rightarrow> ('u, 's, 'x) mono_pat list \<Rightarrow> rt_value list \<Rightarrow> (name \<rightharpoonup> rt_value) option" where
  "rt_match \<rho> (MonoPat sp t MpWildcard) r = Some \<rho>"
| "rt_match \<rho> (MonoPat sp t (MpVar i)) r = Some (\<rho>(id_name i \<mapsto> r))"
| "rt_match \<rho> (MonoPat sp t (MpLit l)) r = (if lit_value l = Some r then Some \<rho> else None)"
| "rt_match \<rho> (MonoPat sp t (MpComptimeLabel e)) r =
     (case literal_from_known_expr e of None \<Rightarrow> None | Some l \<Rightarrow> if lit_value l = Some r then Some \<rho> else None)"
| "rt_match \<rho> (MonoPat sp t (MpCon ctor ps)) r =
     (case r of
        RtCon n rs \<Rightarrow> (if n = canonical_ctor (id_name ctor) \<and> length ps = length rs then rt_matches \<rho> ps rs else None)
      | _ \<Rightarrow> None)"
| "rt_match \<rho> (MonoPat sp t (MpTuple ps)) r =
     (case r of RtTuple rs \<Rightarrow> (if length ps = length rs then rt_matches \<rho> ps rs else None) | _ \<Rightarrow> None)"
| "rt_match \<rho> (MonoPat sp t MpError) r = None"
| "rt_matches \<rho> (p # ps) (r # rs) = (case rt_match \<rho> p r of None \<Rightarrow> None | Some \<rho> \<Rightarrow> rt_matches \<rho> ps rs)"
| "rt_matches \<rho> _ _ = Some \<rho>"

fun rt_select :: "nat \<Rightarrow> (name \<rightharpoonup> rt_value) \<Rightarrow> rt_value list \<Rightarrow> ('u, 's, 'x, 'b) mono_arm list
    \<Rightarrow> (nat \<times> (name \<rightharpoonup> rt_value) \<times> 'b) option" where
  "rt_select index \<rho> rs [] = None"
| "rt_select index \<rho> rs (arm # arms) =
     (if length (arm_pats arm) \<noteq> length rs then rt_select (index + 1) \<rho> rs arms
      else case rt_matches \<rho> (arm_pats arm) rs of
             None \<Rightarrow> rt_select (index + 1) \<rho> rs arms
           | Some \<rho> \<Rightarrow> Some (index, \<rho>, arm_body arm))"

fun rt_select_expr :: "(name \<rightharpoonup> rt_value) \<Rightarrow> rt_value \<Rightarrow> ('u, 's, 'x) mono_expr_arm list
    \<Rightarrow> ((name \<rightharpoonup> rt_value) \<times> ('u, 's, 'x) mono_expr) option" where
  "rt_select_expr \<rho> r [] = None"
| "rt_select_expr \<rho> r (arm # arms) =
     (case rt_match \<rho> (xarm_pat arm) r of None \<Rightarrow> rt_select_expr \<rho> r arms | Some \<rho> \<Rightarrow> Some (\<rho>, xarm_expr arm))"

text \<open>Every binding of the compile-time environment is an expression that may have the run-time value.\<close>

definition env_denotes :: "('x \<Rightarrow> rt_value \<Rightarrow> bool) \<Rightarrow> ('u, 's, 'x) venv \<Rightarrow> (name \<rightharpoonup> rt_value) \<Rightarrow> bool" where
  "env_denotes D env \<rho> \<longleftrightarrow> (\<forall>n e. env n = Some e \<longrightarrow> (\<exists>r. \<rho> n = Some r \<and> denotes D e r))"

text \<open>A known opaque expression, such as a lambda, has no value that a pattern takes apart.\<close>

definition opaque_known :: "('x \<Rightarrow> bool) \<Rightarrow> ('x \<Rightarrow> rt_value \<Rightarrow> bool) \<Rightarrow> bool" where
  "opaque_known known D \<longleftrightarrow> (\<forall>x r. known x \<and> D x r \<longrightarrow> (\<exists>k. r = RtOther k))"

text \<open>The numerals of an expression and of a pattern, and lists of numerals of which no two different ones are
  the same word. Compile time compares numerals exactly, so its decisions hold at run time under this condition
  only; numerals in the range of words satisfy it.\<close>

definition lit_numerals :: "lit_kind \<Rightarrow> int list" where
  "lit_numerals l = (case literal_bigint l of Some b \<Rightarrow> [big_val b] | None \<Rightarrow> [])"

fun expr_numerals :: "('u, 's, 'x) mono_expr \<Rightarrow> int list" where
  "expr_numerals (MonoExpr sp t (MLit l)) = lit_numerals l"
| "expr_numerals (MonoExpr sp t (MTuple es)) = concat (map expr_numerals es)"
| "expr_numerals (MonoExpr sp t (MCon c es)) = concat (map expr_numerals es)"
| "expr_numerals (MonoExpr sp t (MTypeAnnot e u)) = expr_numerals e"
| "expr_numerals (MonoExpr sp t (MOther x)) = []"

fun pat_numerals :: "('u, 's, 'x) mono_pat \<Rightarrow> int list" where
  "pat_numerals (MonoPat sp t (MpLit l)) = lit_numerals l"
| "pat_numerals (MonoPat sp t (MpCon ctor ps)) = concat (map pat_numerals ps)"
| "pat_numerals (MonoPat sp t (MpTuple ps)) = concat (map pat_numerals ps)"
| "pat_numerals (MonoPat sp t (MpComptimeLabel e)) = expr_numerals e"
| "pat_numerals (MonoPat sp t _) = []"

definition told_apart :: "int list \<Rightarrow> bool" where
  "told_apart ns \<longleftrightarrow> list_all (\<lambda>i. list_all (\<lambda>j. i mod 2 ^ 256 = j mod 2 ^ 256 \<longrightarrow> i = j) ns) ns"

lemma words_told_apart: "list_all (\<lambda>i. 0 \<le> i \<and> i < 2 ^ 256) ns \<Longrightarrow> told_apart ns"
  by (auto simp: told_apart_def list_all_iff)

lemma told_apartD:
  "told_apart ns \<Longrightarrow> i \<in> set ns \<Longrightarrow> j \<in> set ns \<Longrightarrow> (of_int i :: 256 word) = of_int j \<Longrightarrow> i = j"
  by (simp add: told_apart_def list_all_iff word_of_int_eq_iff take_bit_eq_mod)

lemma literal_numerals: "literal_from_known_expr e = Some l \<Longrightarrow> expr_numerals e = lit_numerals l"
  by (induction e rule: literal_from_known_expr.induct) auto

section \<open>Decisions are right for every value\<close>

lemma unannotated [simp]:
  "denotes D (unannotated_value v) r = denotes D v r"
  "expr_is_known_value known (unannotated_value v) = expr_is_known_value known v"
  "known_int (unannotated_value v) = known_int v" "known_string (unannotated_value v) = known_string v"
  "expr_numerals (unannotated_value v) = expr_numerals v"
  by (induction v rule: unannotated_value.induct) simp_all

lemma unannotated_kind: "expr_kind (unannotated_value v) \<noteq> MTypeAnnot e u"
  by (induction v rule: unannotated_value.induct) simp_all

lemma lit_value_int: "lit_value l = Some (RtWord i) \<longleftrightarrow> (\<exists>b. literal_bigint l = Some b \<and> i = of_int (big_val b))"
  by (cases l) auto

lemma lit_value_shape [simp]: "lit_value l \<noteq> Some (RtCon n rs)" "lit_value l \<noteq> Some (RtTuple rs)" "lit_value l \<noteq> Some (RtOther k)"
  by (cases l; simp)+

lemma literal_bigint_ok: "literal_bigint l = Some b \<Longrightarrow> big_ok b"
  by (cases l) (auto dest: from_decimal_str_ok(2) from_hex_str_ok(2))

lemma lit_value_string: "lit_value l = Some (RtString s) \<longleftrightarrow> (\<exists>text. l = LkString text \<and> decode_string_literal text = Some s)"
  by (cases l) auto

lemma known_denotes:
  assumes "denotes D v r"
  shows "known_int v = Some b \<Longrightarrow> r = RtWord (of_int (big_val b))" "known_string v = Some s \<Longrightarrow> r = RtString s"
  using assms by (induction v rule: known_int.induct) auto

lemma literal_matches_value:
  assumes "literal_matches l v" and "denotes D v r"
  shows "lit_value l = Some r"
  using assms(1) known_denotes[OF assms(2)] by (cases l) (auto simp: literal_matches_def split: option.splits)

lemma value_literal:
  assumes "denotes D v r" and "lit_value l = Some r" and "expr_is_known_value known v" and "opaque_known known D"
    and ns: "told_apart ns" "set (lit_numerals l) \<subseteq> set ns" "set (expr_numerals v) \<subseteq> set ns"
  shows "literal_matches l v"
proof -
  obtain sp t k where u: "unannotated_value v = MonoExpr sp t k" by (cases "unannotated_value v")
  have d: "denotes D (MonoExpr sp t k) r" "expr_is_known_value known (MonoExpr sp t k)"
    using unannotated(1)[of D v r] unannotated(2)[of known v] assms(1,3) unfolding u by simp_all
  have i: "known_int v = known_int (MonoExpr sp t k)" "known_string v = known_string (MonoExpr sp t k)"
    using unannotated(3,4)[of v] unfolding u by simp_all
  have lit: "(\<exists>i. r = RtWord i) \<or> (\<exists>s. r = RtString s)" using assms(2) by (cases l) auto
  show ?thesis
  proof (cases k)
    case (MLit l')
    with d have l': "lit_value l' = Some r" by simp
    from lit show ?thesis
    proof (elim disjE exE)
      fix j
      assume r: "r = RtWord j"
      from l' assms(2) obtain b b' where b: "literal_bigint l = Some b" "literal_bigint l' = Some b'"
        and eq: "(of_int (big_val b) :: 256 word) = of_int (big_val b')"
        unfolding r lit_value_int by auto
      have "expr_numerals v = lit_numerals l'" using unannotated(5)[of v] u MLit by simp
      then have "big_val b = big_val b'" using ns b by (intro told_apartD[OF ns(1) _ _ eq]) (auto simp: lit_numerals_def)
      with b have "b = b'" using big_unique literal_bigint_ok by blast
      with b MLit i show ?thesis by (cases l; cases l') (simp_all add: literal_matches_def)
    next
      fix s
      assume r: "r = RtString s"
      with l' assms(2) MLit i show ?thesis by (auto simp: lit_value_string literal_matches_def)
    qed
  next
    case (MOther x)
    with d assms(4) lit show ?thesis by (auto simp: opaque_known_def)
  next
    case (MTypeAnnot e u')
    with unannotated_kind[of v e u'] u show ?thesis by simp
  qed (use d lit in \<open>auto split: rt_value.splits\<close>)
qed

lemma literal_matches_iff:
  "denotes D v r \<Longrightarrow> expr_is_known_value known v \<Longrightarrow> opaque_known known D \<Longrightarrow> told_apart ns \<Longrightarrow>
    set (lit_numerals l) \<subseteq> set ns \<Longrightarrow> set (expr_numerals v) \<subseteq> set ns \<Longrightarrow> literal_matches l v \<longleftrightarrow> lit_value l = Some r"
  using literal_matches_value value_literal by blast

lemma denotes_all_length: "denotes_all D es rs \<Longrightarrow> length rs = length es"
  by (induction es arbitrary: rs) (auto split: list.splits)

lemma con_denotes:
  assumes "denotes D v r"
  shows "expr_kind (unannotated_value v) = MCon c es \<Longrightarrow> \<exists>rs. r = RtCon (canonical_ctor (id_name c)) rs \<and> denotes_all D es rs"
    and "expr_kind (unannotated_value v) = MTuple es \<Longrightarrow> \<exists>rs. r = RtTuple rs \<and> denotes_all D es rs"
proof -
  obtain sp t k where u: "unannotated_value v = MonoExpr sp t k" by (cases "unannotated_value v")
  have d: "denotes D (MonoExpr sp t k) r" using unannotated(1)[of D v r] assms unfolding u by simp
  then show "expr_kind (unannotated_value v) = MCon c es \<Longrightarrow> \<exists>rs. r = RtCon (canonical_ctor (id_name c)) rs \<and> denotes_all D es rs"
    "expr_kind (unannotated_value v) = MTuple es \<Longrightarrow> \<exists>rs. r = RtTuple rs \<and> denotes_all D es rs"
    unfolding u by (auto split: rt_value.splits)
qed

text \<open>A known expression that is no constructor application has no constructor value, and likewise for tuples.\<close>

lemma known_shape:
  assumes "denotes D v r" and "expr_is_known_value known v" and "opaque_known known D"
  shows "r = RtCon n rs \<Longrightarrow> \<exists>c es. expr_kind (unannotated_value v) = MCon c es"
    and "r = RtTuple rs \<Longrightarrow> \<exists>es. expr_kind (unannotated_value v) = MTuple es"
proof -
  obtain sp t k where u: "unannotated_value v = MonoExpr sp t k" by (cases "unannotated_value v")
  have d: "denotes D (MonoExpr sp t k) r" "expr_is_known_value known (MonoExpr sp t k)"
    using unannotated(1)[of D v r] unannotated(2)[of known v] assms(1,2) unfolding u by simp_all
  have "k \<noteq> MTypeAnnot e w" for e w using unannotated_kind[of v e w] u by simp
  then show "r = RtCon n rs \<Longrightarrow> \<exists>c es. expr_kind (unannotated_value v) = MCon c es"
    "r = RtTuple rs \<Longrightarrow> \<exists>es. expr_kind (unannotated_value v) = MTuple es"
    using d assms(3) unfolding u by (cases k; auto simp: opaque_known_def)+
qed

text \<open>Whether a pattern matches does not depend on the environment.\<close>

fun fits :: "('u, 's, 'x) mono_pat \<Rightarrow> rt_value \<Rightarrow> bool"
  and fits_all :: "('u, 's, 'x) mono_pat list \<Rightarrow> rt_value list \<Rightarrow> bool" where
  "fits (MonoPat sp t MpWildcard) r = True"
| "fits (MonoPat sp t (MpVar i)) r = True"
| "fits (MonoPat sp t (MpLit l)) r = (lit_value l = Some r)"
| "fits (MonoPat sp t (MpComptimeLabel e)) r =
     (case literal_from_known_expr e of None \<Rightarrow> False | Some l \<Rightarrow> lit_value l = Some r)"
| "fits (MonoPat sp t (MpCon ctor ps)) r =
     (case r of RtCon n rs \<Rightarrow> n = canonical_ctor (id_name ctor) \<and> length ps = length rs \<and> fits_all ps rs | _ \<Rightarrow> False)"
| "fits (MonoPat sp t (MpTuple ps)) r =
     (case r of RtTuple rs \<Rightarrow> length ps = length rs \<and> fits_all ps rs | _ \<Rightarrow> False)"
| "fits (MonoPat sp t MpError) r = False"
| "fits_all (p # ps) (r # rs) = (fits p r \<and> fits_all ps rs)"
| "fits_all _ _ = True"

lemma rt_match_fits:
  fixes p :: "('u, 's, 'x) mono_pat" and ps :: "('u, 's, 'x) mono_pat list"
  shows "rt_match \<rho> p r = None \<longleftrightarrow> \<not> fits p r" and "rt_matches \<rho> ps rs = None \<longleftrightarrow> \<not> fits_all ps rs"
  by (induction \<rho> p r and \<rho> ps rs rule: rt_match_rt_matches.induct) (auto split: option.splits rt_value.splits)

section \<open>Selection\<close>

lemma con_numerals:
  "expr_kind (unannotated_value v) = MCon c es \<Longrightarrow> expr_numerals v = concat (map expr_numerals es)"
  "expr_kind (unannotated_value v) = MTuple es \<Longrightarrow> expr_numerals v = concat (map expr_numerals es)"
  using unannotated(5)[of v] by (cases "unannotated_value v"; auto)+

lemma decision_right:
  fixes p :: "('u, 's, 'x) mono_pat" and ps :: "('u, 's, 'x) mono_pat list"
    and v :: "('u, 's, 'x) mono_expr" and vs :: "('u, 's, 'x) mono_expr list"
  assumes k: "is_known = expr_is_known_value known" and o: "opaque_known known D" and ns: "told_apart ns"
  shows "pattern_decision is_known p v = Some b \<Longrightarrow> denotes D v r \<Longrightarrow>
      set (pat_numerals p) \<union> set (expr_numerals v) \<subseteq> set ns \<Longrightarrow> b = fits p r"
    and "product_pattern_decision is_known ps vs = Some b \<Longrightarrow> denotes_all D vs rs \<Longrightarrow> length ps = length vs \<Longrightarrow>
      set (concat (map pat_numerals ps)) \<union> set (concat (map expr_numerals vs)) \<subseteq> set ns \<Longrightarrow> b = fits_all ps rs"
  using k
proof (induction is_known p v and is_known ps vs arbitrary: b r and b rs
    rule: pattern_decision_product_pattern_decision.induct)
  case (3 is_known sp t l v)
  with literal_matches_iff[OF 3(2) _ o ns, of l] show ?case by (auto split: if_splits)
next
  case (4 is_known sp t e v)
  with literal_matches_iff[OF 4(2) _ o ns] literal_numerals[of e] show ?case by (auto split: if_splits option.splits)
next
  case (5 is_known sp t ctor ps v)
  show ?case
  proof (cases "\<exists>c es. expr_kind (unannotated_value v) = MCon c es")
    case True
    then obtain c es where e: "expr_kind (unannotated_value v) = MCon c es" by blast
    with con_denotes(1)[OF 5(3)] obtain rs where rs: "r = RtCon (canonical_ctor (id_name c)) rs" "denotes_all D es rs" by auto
    have n: "set (concat (map pat_numerals ps)) \<union> set (concat (map expr_numerals es)) \<subseteq> set ns"
      using 5(4) con_numerals(1)[OF e] by simp
    show ?thesis
    proof (cases "constructor_names_match (id_name ctor) (id_name c) \<and> length ps = length es")
      case True
      with 5(1)[OF e _ _ rs(2) _ n 5(5), of b] 5(2) e rs denotes_all_length[OF rs(2)] show ?thesis
        by (auto simp: constructor_names_match_def)
    next
      case False
      with 5(2) e rs denotes_all_length[OF rs(2)] show ?thesis by (auto simp: constructor_names_match_def)
    qed
  next
    case False
    with 5(2,5) have "is_known v" "b = False" by (auto split: mono_expr_kind.splits if_splits)
    with False known_shape(1)[OF 5(3) _ o] 5(5) show ?thesis by (auto split: rt_value.splits)
  qed
next
  case (6 is_known sp t ps v)
  show ?case
  proof (cases "\<exists>es. expr_kind (unannotated_value v) = MTuple es")
    case True
    then obtain es where e: "expr_kind (unannotated_value v) = MTuple es" by blast
    with con_denotes(2)[OF 6(3)] obtain rs where rs: "r = RtTuple rs" "denotes_all D es rs" by auto
    have n: "set (concat (map pat_numerals ps)) \<union> set (concat (map expr_numerals es)) \<subseteq> set ns"
      using 6(4) con_numerals(2)[OF e] by simp
    show ?thesis
    proof (cases "length ps = length es")
      case True
      with 6(1)[OF e True _ rs(2) True n 6(5), of b] 6(2) e rs denotes_all_length[OF rs(2)] show ?thesis by auto
    next
      case False
      with 6(2) e rs denotes_all_length[OF rs(2)] show ?thesis by (auto split: if_splits)
    qed
  next
    case False
    with 6(2,5) have "is_known v" "b = False" by (auto split: mono_expr_kind.splits if_splits)
    with False known_shape(2)[OF 6(3) _ o] 6(5) show ?thesis by (auto split: rt_value.splits)
  qed
next
  case (8 is_known p ps v vs)
  from 8(5) obtain r rs' where rs: "rs = r # rs'" "denotes D v r" "denotes_all D vs rs'" by (auto split: list.splits)
  have n: "set (pat_numerals p) \<union> set (expr_numerals v) \<subseteq> set ns"
    "set (concat (map pat_numerals ps)) \<union> set (concat (map expr_numerals vs)) \<subseteq> set ns" and len: "length ps = length vs"
    using 8(6,7) by auto
  show ?case
  proof (cases "pattern_decision is_known p v")
    case None
    with 8(4) have "product_pattern_decision is_known ps vs = Some False" "\<not> b"
      by (auto split: option.splits bool.splits)
    with 8(2)[OF None _ rs(3) len n(2) 8(8)] rs show ?thesis by auto
  next
    case (Some d)
    have d: "d = fits p r" by (rule 8(1)[OF Some rs(2) n(1) 8(8)])
    show ?thesis
    proof (cases d)
      case True
      with Some 8(4) have "product_pattern_decision is_known ps vs = Some b" by simp
      from 8(3)[OF _ _ this rs(3) len n(2) 8(8)] True Some d rs show ?thesis by simp
    next
      case False
      with Some 8(4) d rs show ?thesis by simp
    qed
  qed
qed auto

text \<open>Bindings: a variable that the compile-time environment keeps has the value of the run-time one.\<close>

lemma env_denotes_update: "env_denotes D env \<rho> \<Longrightarrow> denotes D v r \<Longrightarrow> env_denotes D (env(n \<mapsto> v)) (\<rho>(n \<mapsto> r))"
  "env_denotes D env \<rho> \<Longrightarrow> env_denotes D (env(n := None)) (\<rho>(n \<mapsto> r))"
  by (auto simp: env_denotes_def)

lemma match_pat_right:
  fixes p :: "('u, 's, 'x) mono_pat" and ps :: "('u, 's, 'x) mono_pat list"
    and v :: "('u, 's, 'x) mono_expr" and vs :: "('u, 's, 'x) mono_expr list" and env env' :: "('u, 's, 'x) venv"
  shows "match_pat is_known env p v = Some env' \<Longrightarrow> denotes D v r \<Longrightarrow> env_denotes D env \<rho> \<Longrightarrow>
      \<exists>\<rho>'. rt_match \<rho> p r = Some \<rho>' \<and> env_denotes D env' \<rho>'"
    and "match_pats is_known env ps vs = Some env' \<Longrightarrow> denotes_all D vs rs \<Longrightarrow> length ps = length vs \<Longrightarrow> env_denotes D env \<rho> \<Longrightarrow>
      \<exists>\<rho>'. rt_matches \<rho> ps rs = Some \<rho>' \<and> env_denotes D env' \<rho>'"
proof (induction is_known env p v and is_known env ps vs arbitrary: env' r \<rho> and env' rs \<rho> rule: match_pat_match_pats.induct)
  case (2 is_known env sp t i v)
  then show ?case by (auto simp: env_denotes_update)
next
  case (3 is_known env sp t l v)
  with literal_matches_value[OF _ 3(2), of l] show ?case by (auto split: if_splits)
next
  case (4 is_known env sp t ctor ps v)
  from 4(2) obtain c es where e: "expr_kind (unannotated_value v) = MCon c es"
    "constructor_names_match (id_name ctor) (id_name c) \<and> length ps = length es" "match_pats is_known env ps es = Some env'"
    by (auto split: mono_expr_kind.splits if_splits)
  with con_denotes(1)[OF 4(3)] obtain rs where rs: "r = RtCon (canonical_ctor (id_name c)) rs" "denotes_all D es rs" by auto
  from 4(1)[OF e(1,2,3) rs(2) _ 4(4)] e(2) rs denotes_all_length[OF rs(2)] show ?case by (auto simp: constructor_names_match_def)
next
  case (5 is_known env sp t ps v)
  from 5(2) obtain es where e: "expr_kind (unannotated_value v) = MTuple es" "length ps = length es" "match_pats is_known env ps es = Some env'"
    by (auto split: mono_expr_kind.splits if_splits)
  with con_denotes(2)[OF 5(3)] obtain rs where rs: "r = RtTuple rs" "denotes_all D es rs" by auto
  from 5(1)[OF e(1,2,3) rs(2) _ 5(4)] e(2) rs denotes_all_length[OF rs(2)] show ?case by auto
next
  case (6 is_known env sp t e v)
  then obtain l where "literal_from_known_expr e = Some l" "literal_matches l v" "env' = env"
    by (auto split: option.splits if_splits)
  with literal_matches_value[OF _ 6(2), of l] 6(3) show ?case by auto
next
  case (8 is_known env p ps v vs)
  from 8(4) obtain r rs' where rs: "rs = r # rs'" "denotes D v r" "denotes_all D vs rs'" by (auto split: list.splits)
  from 8(3) obtain env1 where e: "match_pat is_known env p v = Some env1" "match_pats is_known env1 ps vs = Some env'"
    by (auto split: option.splits)
  from 8(1)[OF e(1) rs(2) 8(6)] obtain \<rho>1 where r1: "rt_match \<rho> p r = Some \<rho>1" "env_denotes D env1 \<rho>1" by blast
  from 8(2)[OF e(1,2) rs(3) _ r1(2)] 8(5) rs r1 show ?case by auto
qed auto

lemma match_arms_right:
  fixes vs :: "('u, 's, 'x) mono_expr list" and env :: "('u, 's, 'x) venv"
  assumes "opaque_known known D" and vs: "denotes_all D vs rs" and env: "env_denotes D env \<rho>"
    and ns: "told_apart ns" "set (concat (map expr_numerals vs)) \<subseteq> set ns"
  shows "match_arms_from ids k env vs arms (expr_is_known_value known) = Some m \<Longrightarrow>
    \<Union> (set (map (\<lambda>arm. set (concat (map pat_numerals (arm_pats arm)))) arms)) \<subseteq> set ns \<Longrightarrow>
    \<exists>\<rho>'. rt_select k \<rho> rs arms = Some (matched_index m, \<rho>', matched_body m) \<and> env_denotes D (matched_env m) \<rho>'"
proof (induction arms arbitrary: k)
  case (Cons arm arms)
  have len: "length rs = length vs" by (rule denotes_all_length[OF vs])
  show ?case
  proof (cases "length (arm_pats arm) = length vs")
    case False
    with Cons len show ?thesis by simp
  next
    case True
    with Cons.prems obtain b where d: "product_pattern_decision (expr_is_known_value known) (arm_pats arm) vs = Some b"
      by (auto split: option.splits)
    have b: "b = fits_all (arm_pats arm) rs" by (rule decision_right(2)[OF refl assms(1) ns(1) d vs True]) (use Cons.prems(2) ns(2) in simp)
    show ?thesis
    proof (cases b)
      case False
      with b rt_match_fits(2)[of \<rho> "arm_pats arm" rs] have "rt_matches \<rho> (arm_pats arm) rs = None" by simp
      with Cons d False True len show ?thesis by simp
    next
      case b: True
      with Cons.prems d True obtain env' where e: "match_pats (\<lambda>_. True) env (arm_pats arm) vs = Some env'"
        "m = \<lparr>matched_index = k, matched_env = env', matched_bindings = pattern_bindings ids (arm_pats arm), matched_body = arm_body arm\<rparr>"
        by (auto split: option.splits)
      from match_pat_right(2)[OF e(1) vs True env] True len e(2) show ?thesis by auto
    qed
  qed
qed simp

lemma match_expr_arms_right:
  fixes v :: "('u, 's, 'x) mono_expr" and env :: "('u, 's, 'x) venv"
  assumes "opaque_known known D" and v: "denotes D v r" and env: "env_denotes D env \<rho>"
    and ns: "told_apart ns" "set (expr_numerals v) \<subseteq> set ns"
  shows "match_expr_arms_with ids env v arms (expr_is_known_value known) = Some (env', e, bs) \<Longrightarrow>
    \<Union> (set (map (\<lambda>arm. set (pat_numerals (xarm_pat arm))) arms)) \<subseteq> set ns \<Longrightarrow>
    \<exists>\<rho>'. rt_select_expr \<rho> r arms = Some (\<rho>', e) \<and> env_denotes D env' \<rho>'"
proof (induction arms)
  case (Cons arm arms)
  then obtain b where d: "pattern_decision (expr_is_known_value known) (xarm_pat arm) v = Some b" by (auto split: option.splits)
  have b: "b = fits (xarm_pat arm) r" by (rule decision_right(1)[OF refl assms(1) ns(1) d v]) (use Cons.prems(2) ns(2) in simp)
  show ?case
  proof (cases b)
    case False
    with b rt_match_fits(1)[of \<rho> "xarm_pat arm" r] have "rt_match \<rho> (xarm_pat arm) r = None" by simp
    with Cons d False show ?thesis by simp
  next
    case True
    with Cons.prems d obtain env1 where e: "match_pat (\<lambda>_. True) env (xarm_pat arm) v = Some env1" "env' = env1" "e = xarm_expr arm"
      by (auto split: option.splits)
    from match_pat_right(1)[OF e(1) v env] e show ?thesis by auto
  qed
qed simp

text \<open>C11. An arm selected at compile time is the one that run time would select. Whatever values the parts of
  the scrutinees that are not known turn out to have, if \<open>match_arms_with\<close> selects an arm, then the first
  arm that matches the values is this one, and each variable that the environment binds is bound to an
  expression of the value it has at run time. No two different numerals of the scrutinees and the patterns may be the same
  word: run time reads numerals modulo $2^{256}$, compile time compares them exactly.\<close>

theorem selected_arm_is_right:
  fixes env :: "('u, 's, 'x) venv"
  assumes "opaque_known known D" and "denotes_all D vs rs" and "env_denotes D env \<rho>"
    and "told_apart (concat (map expr_numerals vs) @ concat (map (\<lambda>arm. concat (map pat_numerals (arm_pats arm))) arms))"
    and "match_arms_with ids env vs arms (expr_is_known_value known) = Some m"
  shows "\<exists>\<rho>'. rt_select 0 \<rho> rs arms = Some (matched_index m, \<rho>', matched_body m) \<and> env_denotes D (matched_env m) \<rho>'"
  using match_arms_right[OF assms(1-4), of ids 0 arms m] assms(5) by (auto simp: match_arms_with_def)

text \<open>A value whose constructor is known and whose second field is not, and arms that take it apart.\<close>

definition sample_id :: "string \<Rightarrow> (unit, unit) mono_id" where
  "sample_id n = \<lparr>id_name = n, id_ty = TyUnknown, id_span = ()\<rparr>"

definition sample_expr :: "(unit, unit, unit) mono_expr_kind \<Rightarrow> (unit, unit, unit) mono_expr" where
  "sample_expr k = MonoExpr () TyUnknown k"

definition sample_value :: "(unit, unit, unit) mono_expr" where
  "sample_value = sample_expr (MCon (sample_id ''Opt.Some'') [sample_expr (MLit (LkNumber ''5'')), sample_expr (MOther ())])"

definition sample_pat :: "(unit, unit, unit) mono_pat_kind \<Rightarrow> (unit, unit, unit) mono_pat" where
  "sample_pat k = MonoPat () TyUnknown k"

definition sample_arms :: "(unit, unit, unit, nat) mono_arm list" where
  "sample_arms =
     [\<lparr>arm_span = (), arm_pats = [sample_pat (MpCon (sample_id ''Opt_None'') [])], arm_body = 10\<rparr>,
      \<lparr>arm_span = (), arm_pats = [sample_pat (MpCon (sample_id ''Opt_Some'')
         [sample_pat (MpLit (LkNumber ''6'')), sample_pat (MpVar (sample_id ''x''))])], arm_body = 20\<rparr>,
      \<lparr>arm_span = (), arm_pats = [sample_pat (MpCon (sample_id ''Opt_Some'')
         [sample_pat (MpLit (LkHex ''0x05'')), sample_pat (MpVar (sample_id ''x''))])], arm_body = 30\<rparr>]"

lemmas sample_match_defs = sample_id_def sample_expr_def sample_value_def sample_pat_def sample_arms_def constructor_names_match_def
  canonical_ctor_def

lemma sample_literals:
  "from_decimal_str ''0'' = Some \<lparr>sign = 0, magnitude = []\<rparr>"
  "from_decimal_str ''5'' = Some \<lparr>sign = 1, magnitude = [5]\<rparr>"
  "from_decimal_str ''6'' = Some \<lparr>sign = 1, magnitude = [6]\<rparr>"
  "from_hex_str ''0x05'' = Some \<lparr>sign = 1, magnitude = [5]\<rparr>"
  "from_hex_str ''0x10000000000000000000000000000000000000000000000000000000000000000''
     = Some \<lparr>sign = 1, magnitude = [0, 0, 0, 0, 0, 0, 0, 0, 1]\<rparr>"
  by code_simp+

lemma sample_values:
  "big_val \<lparr>sign = 0, magnitude = []\<rparr> = 0" "big_val \<lparr>sign = 1, magnitude = [5]\<rparr> = 5" "big_val \<lparr>sign = 1, magnitude = [6]\<rparr> = 6"
  "big_val \<lparr>sign = 1, magnitude = [0, 0, 0, 0, 0, 0, 0, 0, 1]\<rparr> = 2 ^ 256"
  by (simp_all add: big_val_def)

lemmas sample_facts = sample_match_defs sample_literals sample_values

lemma sample_denotes: "denotes_all (\<lambda>_ _. True) [sample_value] [RtCon ''Opt_Some'' [RtWord 5, RtWord 7]]"
  by (simp add: sample_facts)

lemma sample_numerals:
  "concat (map expr_numerals [sample_value]) @ concat (map (\<lambda>arm. concat (map pat_numerals (arm_pats arm))) sample_arms) = [5, 6, 5]"
  by (simp add: sample_facts lit_numerals_def)

theorem selected_arm_is_right_witness:
  "\<exists>m \<rho>'. match_arms_with (\<lambda>_. []) Map.empty [sample_value] sample_arms (expr_is_known_value (\<lambda>_. False)) = Some m
     \<and> rt_select 0 Map.empty [RtCon ''Opt_Some'' [RtWord 5, RtWord 7]] sample_arms = Some (2, \<rho>', 30)
     \<and> env_denotes (\<lambda>_ _. True) (matched_env m) \<rho>'"
proof -
  have o: "opaque_known (\<lambda>_. False) (\<lambda>_ _. True)" by (simp add: opaque_known_def)
  have e: "env_denotes (\<lambda>_ _. True) Map.empty Map.empty" by (simp add: env_denotes_def)
  have n: "told_apart (concat (map expr_numerals [sample_value]) @ concat (map (\<lambda>arm. concat (map pat_numerals (arm_pats arm))) sample_arms))"
    unfolding sample_numerals by (rule words_told_apart) simp
  obtain m where m: "match_arms_with (\<lambda>_. []) Map.empty [sample_value] sample_arms (expr_is_known_value (\<lambda>_. False)) = Some m"
    "matched_index m = 2" "matched_body m = 30"
    by (simp add: match_arms_with_def literal_matches_def sample_facts)
  from selected_arm_is_right[OF o sample_denotes e n m(1)] m show ?thesis by auto
qed

text \<open>The condition is needed: with the scrutinee 0 and a case $2^{256}$ before the default, compile time selects
  the default and run time the case.\<close>

definition wrapped_arms :: "(unit, unit, unit, nat) mono_arm list" where
  "wrapped_arms =
     [\<lparr>arm_span = (), arm_pats = [sample_pat (MpLit (LkHex ''0x10000000000000000000000000000000000000000000000000000000000000000''))],
       arm_body = 10\<rparr>,
      \<lparr>arm_span = (), arm_pats = [sample_pat MpWildcard], arm_body = 20\<rparr>]"

lemma wrapped_numeral_missed:
  "map_option matched_body (match_arms_with (\<lambda>_. []) Map.empty [sample_expr (MLit (LkNumber ''0''))] wrapped_arms
      (expr_is_known_value (\<lambda>_. False))) = Some 20"
  "denotes_all D [sample_expr (MLit (LkNumber ''0''))] [RtWord 0]"
  "rt_select 0 \<rho> [RtWord 0] wrapped_arms = Some (0, \<rho>, 10)"
  "\<not> told_apart [0, 2 ^ 256]"
  by (simp_all add: match_arms_with_def wrapped_arms_def literal_matches_def told_apart_def sample_facts)

section \<open>Dropped arms\<close>

lemma match_pat_complete:
  fixes p :: "('u, 's, 'x) mono_pat" and ps :: "('u, 's, 'x) mono_pat list"
    and v :: "('u, 's, 'x) mono_expr" and vs :: "('u, 's, 'x) mono_expr list" and env :: "('u, 's, 'x) venv"
  assumes o: "opaque_known known D" and ns: "told_apart ns"
  shows "match_pat is_known env p v = None \<Longrightarrow> denotes D v r \<Longrightarrow> expr_is_known_value known v \<Longrightarrow>
      set (pat_numerals p) \<union> set (expr_numerals v) \<subseteq> set ns \<Longrightarrow> \<not> fits p r"
    and "match_pats is_known env ps vs = None \<Longrightarrow> denotes_all D vs rs \<Longrightarrow> list_all (expr_is_known_value known) vs \<Longrightarrow>
      set (concat (map pat_numerals ps)) \<union> set (concat (map expr_numerals vs)) \<subseteq> set ns \<Longrightarrow> \<not> fits_all ps rs"
proof (induction is_known env p v and is_known env ps vs arbitrary: r and rs rule: match_pat_match_pats.induct)
  case (3 is_known env sp t l v)
  with literal_matches_iff[OF 3(2,3) o ns, of l] show ?case by auto
next
  case (4 is_known env sp t ctor ps v)
  show ?case
  proof
    assume f: "fits (MonoPat sp t (MpCon ctor ps)) r"
    then obtain n rs where r: "r = RtCon n rs" by (auto split: rt_value.splits)
    with known_shape(1)[OF 4(3,4) o] obtain c es where e: "expr_kind (unannotated_value v) = MCon c es" by blast
    with con_denotes(1)[OF 4(3)] r have d: "n = canonical_ctor (id_name c)" "denotes_all D es rs" by auto
    have k: "list_all (expr_is_known_value known) es"
      using unannotated(2)[of known v] 4(4) e by (cases "unannotated_value v") auto
    have n: "set (concat (map pat_numerals ps)) \<union> set (concat (map expr_numerals es)) \<subseteq> set ns"
      using 4(5) con_numerals(1)[OF e] by simp
    from 4(1)[OF e _ _ d(2) k n] 4(2) e d f r denotes_all_length[OF d(2)] show False
      by (auto simp: constructor_names_match_def split: if_splits)
  qed
next
  case (5 is_known env sp t ps v)
  show ?case
  proof
    assume f: "fits (MonoPat sp t (MpTuple ps)) r"
    then obtain rs where r: "r = RtTuple rs" by (auto split: rt_value.splits)
    with known_shape(2)[OF 5(3,4) o] obtain es where e: "expr_kind (unannotated_value v) = MTuple es" by blast
    with con_denotes(2)[OF 5(3)] r have d: "denotes_all D es rs" by auto
    have k: "list_all (expr_is_known_value known) es"
      using unannotated(2)[of known v] 5(4) e by (cases "unannotated_value v") auto
    have n: "set (concat (map pat_numerals ps)) \<union> set (concat (map expr_numerals es)) \<subseteq> set ns"
      using 5(5) con_numerals(2)[OF e] by simp
    from 5(1)[OF e _ _ d k n] 5(2) e d f r denotes_all_length[OF d] show False by (auto split: if_splits)
  qed
next
  case (6 is_known env sp t e v)
  with literal_matches_iff[OF 6(2,3) o ns] literal_numerals[of e] show ?case by (auto split: option.splits if_splits)
next
  case (8 is_known env p ps v vs)
  from 8(4) obtain r rs' where rs: "rs = r # rs'" "denotes D v r" "denotes_all D vs rs'" by (auto split: list.splits)
  with 8 show ?case by (cases "match_pat is_known env p v") auto
qed auto

lemma rt_match_frame:
  fixes p :: "('u, 's, 'x) mono_pat" and ps :: "('u, 's, 'x) mono_pat list"
  shows "rt_match \<rho> p r = Some \<rho>' \<Longrightarrow> n \<notin> id_name ` set (collect_bindings ids p) \<Longrightarrow> \<rho>' n = \<rho> n"
    and "rt_matches \<rho> ps rs = Some \<rho>' \<Longrightarrow> n \<notin> (\<Union>p\<in>set ps. id_name ` set (collect_bindings ids p)) \<Longrightarrow> length ps = length rs \<Longrightarrow> \<rho>' n = \<rho> n"
proof (induction \<rho> p r and \<rho> ps rs arbitrary: \<rho>' and \<rho>' rule: rt_match_rt_matches.induct)
  case (5 \<rho> sp t ctor ps r)
  from 5(2) obtain m rs where r: "r = RtCon m rs" "m = canonical_ctor (id_name ctor) \<and> length ps = length rs" "rt_matches \<rho> ps rs = Some \<rho>'"
    by (auto split: rt_value.splits if_splits)
  from 5(1)[OF r] r(2) 5(3) show ?case by auto
next
  case (6 \<rho> sp t ps r)
  from 6(2) obtain rs where r: "r = RtTuple rs" "length ps = length rs" "rt_matches \<rho> ps rs = Some \<rho>'"
    by (auto split: rt_value.splits if_splits)
  from 6(1)[OF r] r(2) 6(3) show ?case by auto
next
  case (8 \<rho> p ps r rs)
  from 8(3) obtain \<rho>1 where "rt_match \<rho> p r = Some \<rho>1" "rt_matches \<rho>1 ps rs = Some \<rho>'" by (auto split: option.splits)
  with 8(1)[of \<rho>1] 8(2)[of \<rho>1 \<rho>'] 8(4,5) show ?case by auto
qed (auto split: if_splits option.splits)

lemma retain_first_names: "id_name ` set (retain_first seen ids) = id_name ` set ids - seen"
  by (induction seen ids rule: retain_first.induct) auto

lemma pattern_bindings_names: "id_name ` set (pattern_bindings ids ps) = (\<Union>p\<in>set ps. id_name ` set (collect_bindings ids p))"
  by (auto simp: pattern_bindings_def retain_first_names)

lemma fold_remove: "fold (\<lambda>i env. env(id_name i := None)) ids env n = (if n \<in> id_name ` set ids then None else env n)"
  by (induction ids arbitrary: env) auto

lemma match_columns_right:
  fixes ps :: "('u, 's, 'x) mono_pat list" and vs :: "('u, 's, 'x) mono_expr list" and env env' :: "('u, 's, 'x) venv"
  shows "match_columns ids is_known env ps vs = Some env' \<Longrightarrow> denotes_all D vs rs \<Longrightarrow> length ps = length vs \<Longrightarrow> env_denotes D env \<rho> \<Longrightarrow>
      rt_matches \<rho> ps rs = Some \<rho>' \<Longrightarrow> env_denotes D env' \<rho>'"
proof (induction ids is_known env ps vs arbitrary: rs \<rho> rule: match_columns.induct)
  case (1 ids is_known env p ps v vs)
  from 1(4) obtain r rs' where rs: "rs = r # rs'" "denotes D v r" "denotes_all D vs rs'" by (auto split: list.splits)
  from 1(7) rs obtain \<rho>1 where r1: "rt_match \<rho> p r = Some \<rho>1" "rt_matches \<rho>1 ps rs' = Some \<rho>'" by (auto split: option.splits)
  show ?case
  proof (cases "is_known v")
    case True
    with 1(3) obtain env1 where e: "match_pat is_known env p v = Some env1" "match_columns ids is_known env1 ps vs = Some env'"
      by (auto split: option.splits)
    from match_pat_right(1)[OF e(1) rs(2) 1(6)] r1 have "env_denotes D env1 \<rho>1" by auto
    from 1(1)[OF True e rs(3) _ this r1(2)] 1(5) show ?thesis by simp
  next
    case False
    let ?env = "fold (\<lambda>i env. env(id_name i := None)) (pattern_bindings ids [p]) env"
    have "env_denotes D ?env \<rho>1"
      using 1(6) rt_match_frame(1)[OF r1(1)] by (auto simp: env_denotes_def fold_remove pattern_bindings_names split: if_splits)
    from 1(2)[OF False _ rs(3) _ this r1(2)] False 1(3,5) show ?thesis by simp
  qed
qed auto

lemma match_columns_complete:
  fixes ps :: "('u, 's, 'x) mono_pat list" and vs :: "('u, 's, 'x) mono_expr list" and env :: "('u, 's, 'x) venv"
  assumes o: "opaque_known known D" and ns: "told_apart ns"
  shows "match_columns ids is_known env ps vs = None \<Longrightarrow> is_known = expr_is_known_value known \<Longrightarrow> denotes_all D vs rs \<Longrightarrow>
      set (concat (map pat_numerals ps)) \<union> set (concat (map expr_numerals vs)) \<subseteq> set ns \<Longrightarrow> \<not> fits_all ps rs"
proof (induction ids is_known env ps vs arbitrary: rs rule: match_columns.induct)
  case (1 ids is_known env p ps v vs)
  from 1(5) obtain r rs' where rs: "rs = r # rs'" "denotes D v r" "denotes_all D vs rs'" by (auto split: list.splits)
  show ?case
  proof (cases "is_known v")
    case True
    show ?thesis
    proof (cases "match_pat is_known env p v")
      case None
      with match_pat_complete(1)[OF o ns None rs(2)] True 1(4,6) rs show ?thesis by simp
    next
      case (Some env1)
      from 1(1)[OF True Some _ 1(4) rs(3)] Some True 1(3,6) rs show ?thesis by simp
    qed
  next
    case False
    from 1(2)[OF False _ 1(4) rs(3)] False 1(3,6) rs show ?thesis by simp
  qed
qed auto

text \<open>C12. Specialising a match to its known columns loses nothing. If \<open>match_known_patterns_with\<close> drops an arm,
  the arm matches no values that the scrutinees can have at run time; if it keeps the arm, each variable it binds
  statically has, whenever the arm matches, the value it has at run time, also when a name occurs twice. As for the
  selection, no two different numerals may be the same word.\<close>

theorem dropped_arm_never_matches:
  fixes ps :: "('u, 's, 'x) mono_pat list"
  assumes "opaque_known known D" and "denotes_all D vs rs" and "length ps = length vs"
    and "told_apart (concat (map pat_numerals ps) @ concat (map expr_numerals vs))"
  shows "case match_known_patterns_with ids ps vs (expr_is_known_value known) of
      None \<Rightarrow> rt_matches \<rho> ps rs = None
    | Some k \<Rightarrow> \<forall>\<rho>'. rt_matches \<rho> ps rs = Some \<rho>' \<longrightarrow> env_denotes D (kp_env k) \<rho>'"
proof (cases "match_columns ids (expr_is_known_value known) Map.empty ps vs")
  case None
  with match_columns_complete[OF assms(1,4) None refl assms(2)] rt_match_fits(2)[of \<rho> ps rs]
  show ?thesis by (simp add: match_known_patterns_with_def)
next
  case (Some env)
  have "env_denotes D Map.empty \<rho>" by (simp add: env_denotes_def)
  from match_columns_right[OF Some assms(2,3) this] Some show ?thesis by (simp add: match_known_patterns_with_def)
qed

theorem dropped_arm_never_matches_witness:
  "match_known_patterns_with (\<lambda>_. []) (arm_pats (sample_arms ! 1)) [sample_value] (expr_is_known_value (\<lambda>_. True)) = None
   \<and> rt_matches Map.empty (arm_pats (sample_arms ! 1)) [RtCon ''Opt_Some'' [RtWord 5, RtOther 0]] = None"
proof -
  have o: "opaque_known (\<lambda>_. True) (\<lambda>_ r. r = RtOther 0)" by (simp add: opaque_known_def)
  have d: "denotes_all (\<lambda>_ r. r = RtOther 0) [sample_value] [RtCon ''Opt_Some'' [RtWord 5, RtOther 0]]"
    by (simp add: sample_facts)
  have len: "length (arm_pats (sample_arms ! 1)) = length [sample_value]" by (simp add: sample_match_defs)
  have "concat (map pat_numerals (arm_pats (sample_arms ! 1))) @ concat (map expr_numerals [sample_value]) = [6, 5]"
    by (simp add: sample_facts lit_numerals_def)
  then have n: "told_apart (concat (map pat_numerals (arm_pats (sample_arms ! 1))) @ concat (map expr_numerals [sample_value]))"
    using words_told_apart[of "[6, 5]"] by simp
  have "match_known_patterns_with (\<lambda>_. []) (arm_pats (sample_arms ! 1)) [sample_value] (expr_is_known_value (\<lambda>_. True)) = None"
    by (simp add: match_known_patterns_with_def literal_matches_def sample_facts)
  with dropped_arm_never_matches[OF o d len n, where ids = "\<lambda>_. []" and \<rho> = Map.empty] show ?thesis by simp
qed

end
