(* ===== verification/Spec2Isabelle.thy ===== *)
theory Spec2Isabelle
  imports Hull_Typing Hull_Reach Hull_Check_Props Yul_Asm_Frame Yul_Functions Yul_Pretty_Props
    Yul_Valid_Output Yul_Lower_Sound Builtin_Agreement Accepted_Programs
    Hull_Safety Lower_Aliasing Known_Match
begin

text \<open>
  A verification development for solcore-rs, the Rust compiler of Core Solidity: its back end, and the
  arithmetic and inline assembly of its compile-time evaluator.

  \<^bold>\<open>The program.\<close> The front end (parser, name resolution, type inference, specialisation)
  produces a specialised program. While specialising, \<open>crates/specialize/src/evaluate\<close> evaluates what is
  known at compile time: it folds intrinsics and operators on big integers and strings, hashes with
  \<open>crates/hir/src/keccak.rs\<close>, runs pure inline assembly and propagates constants into the rest. From the
  result \<open>crates/hull/src/emit\<close> builds Hull: a first-order
  language with words, products, sums, pattern matching on sums and embedded inline assembly.
  The checker \<open>crates/hull/src/check.rs\<close> validates Hull and reports diagnostics;
  \<open>crates/yul/src/translate\<close> lowers it to Yul, assigning every word of a value a stack variable;
  \<open>translate/validate.rs\<close> checks the result structurally and \<open>crates/yul/src/pretty.rs\<close> prints it
  for the external compiler solc. This development models that back end, from Hull to text, and the
  parts of the evaluator that compute.

  \<^bold>\<open>Theories and sources.\<close>
  \<^item> \<open>Prelude\<close>: results as sums with the error on the left, Rust's string and character
    operations, decimal printing, and the locale \<open>lexical_scopes\<close>, the contract of a stack of
    scopes, with \<open>crates/hull/src/scope_stack.rs\<close>.
  \<^item> \<open>String_Literal\<close>: \<open>crates/hir/src/string_literal.rs\<close>. \<open>Word_Literal\<close>:
    \<open>crates/hull/src/word.rs\<close> with 32-bit limbs and 64-bit intermediate values as words.
  \<^item> \<open>Hull_IR\<close>: \<open>crates/hull/src/ir.rs\<close> and the assembly trees of \<open>crates/hir/src/ast/function.rs\<close>;
    \<open>erase\<close>, the shape of a type, and the locale \<open>slot_measure\<close>, the contract of the functions that
    count the words of a type.
  \<^item> \<open>Hull_Types\<close>, \<open>Hull_Builtins\<close>, \<open>Hull_Check\<close>: \<open>crates/hull/src/check.rs\<close>, its type functions, its
    builtin tables, and the checker itself, with \<open>Env\<close> as the record \<open>env\<close> and each method as a
    function on it. \<open>Hull_Check_Frame\<close> shows what each method may change, \<open>Hull_Typing\<close> that the
    checker decides a declarative type system, and \<open>Hull_Check_Props\<close> the rest: functions, objects,
    registration and the scoping of inline assembly.
  \<^item> \<open>Hull_Reach\<close>: \<open>crates/hull/src/emit/reachability.rs\<close>.
  \<^item> \<open>Yul_Ast\<close>, \<open>Yul_Names\<close>, \<open>Yul_Location\<close>, \<open>Yul_Asm\<close>, \<open>Yul_Lower\<close>: \<open>crates/yul/src/ast.rs\<close> and
    \<open>translate/{mod,names,location,asm,lower}.rs\<close>, with \<open>Translator\<close> as the record \<open>translator\<close>. The
    locale \<open>name_supply\<close> in \<open>Yul_Names\<close> is the contract of the three sources of fresh names.
    \<open>Yul_Asm_Frame\<close>, \<open>Yul_Conforms\<close> and \<open>Yul_Functions\<close> hold their lemmas.
  \<^item> \<open>Yul_Pretty\<close>, \<open>Yul_Validate\<close>: \<open>crates/yul/src/pretty.rs\<close> and \<open>translate/validate.rs\<close>, with their
    lemmas in \<open>Yul_Pretty_Props\<close> and \<open>Yul_Valid_Output\<close>.
  \<^item> \<open>Yul_Lower_Sound\<close> and \<open>Builtin_Agreement\<close> join the checker and the translator.
  \<^item> \<open>Sem_Results\<close>, \<open>Hull_Sem\<close>, \<open>Hull_Exec\<close>, \<open>Yul_Sem\<close>, \<open>Program_Sem\<close>: reference interpreters of
    Hull and of Yul, for expressions, statements and programs, over an abstract machine state. They
    model no code of the repository; they are what it means that lowering is right.
  \<^item> \<open>Hull_Typing_Stmts\<close> extends the type system to statements and functions; \<open>Hull_Plain\<close> delimits
    the fragment of the simulation and \<open>Hull_Exec_Props\<close> holds facts about its executions.
  \<^item> The simulation proof, bottom up: \<open>Yul_Store\<close> (locations in a store), \<open>Lower_Runs\<close> and
    \<open>Lower_Refines\<close> (expressions), \<open>Lower_Ctx\<close> and \<open>Lower_Executes\<close> (contexts of variables, what it
    means to execute a statement), \<open>Lower_Stmts\<close>, \<open>Lower_Loops\<close>, \<open>Lower_Match\<close> (one kind of
    statement each), \<open>Lower_Preserves\<close> (all statements), \<open>Lower_Functions\<close> (one function),
    \<open>Program_Refines\<close> (functions that call each other, code blocks), \<open>Accepted_Programs\<close> (from the
    verdict of the checker to whole programs). \<open>Lower_Aliasing\<close> holds an accepted statement outside
    the fragment that is miscompiled.
  \<^item> \<open>Hull_Safety\<close>: type safety of accepted programs, and what the terminator analysis of \<open>check.rs\<close>
    guarantees.
  \<^item> \<open>Big_Int\<close>, \<open>Big_Text\<close>, \<open>Big_Bits\<close>, \<open>Big_Word\<close>: the big integers of
    \<open>crates/specialize/src/evaluate/value.rs\<close> (limbs and signs; decimal, hexadecimal and bytes; bits,
    shifts and long division; operations modulo \<open>2^256\<close>), and \<open>eval_yul_op\<close> of \<open>yul_const.rs\<close>. The
    invariant \<open>big_ok\<close> makes the representation unique, \<open>big_val\<close> is the integer it stands for.
  \<^item> \<open>Yul_Subst\<close>: the substitution of known constants into inline assembly (\<open>yul_const.rs\<close>), with a
    reference interpreter of assembly trees. \<open>Comptime_Yul\<close>: which assembly can be evaluated, its
    evaluation, and the memory of the evaluator (\<open>yul_const.rs\<close>, \<open>evaluate/core.rs\<close>).
  \<^item> \<open>Keccak\<close>: \<open>crates/hir/src/keccak.rs\<close>, against the standard stated on bits.
  \<^item> \<open>Comptime_Prim\<close>: \<open>eval_primitive\<close>, \<open>eval_binop\<close> and \<open>eval_unary\<close> of \<open>evaluate/core.rs\<close> with
    \<open>evaluate/known.rs\<close>, against a meaning on integers, words and strings, and the budget of bulk work.
    \<open>Known_Match\<close>: the selection of match arms by known values (\<open>evaluate/known.rs\<close>), against the choice
    that run-time values make.
    The record \<open>folder\<close> extends the record \<open>evaluator\<close> of \<open>Comptime_Yul\<close>; both are fields of
    \<open>Evaluator\<close>.

  \<^bold>\<open>What the theorems show.\<close> The checker accepts exactly the well-typed expressions and, without
  inline assembly, the well-typed functions. A program it accepts is translated, and each object
  of the result runs like the Hull object it comes from, from every machine state: the same final
  state, the same halt, never stuck. Its functions return only values of the shape of their result
  type, and a body that the terminator analysis accepts ends with a return. An accepted expression is lowered to a location that has
  the shape of its type; a function gets one distinct legal Yul name per word of its signature;
  generated expression code passes the validator; the validator decides a traversal-free
  specification; conversion of inline assembly fails only for the two documented reasons; the
  worklist of reachability computes reachability; fresh names never collide; literals keep their
  values modulo \<open>2^256\<close> through parsing, lowering and printing.

  Before that, at compile time: big integers compute exactly, and the assembly builtins on them are the
  operations of the EVM on 256-bit words; propagating constants into an assembly block preserves its
  outcome; a block accepted as pure always evaluates, to what it would compute; a loaded word is the one
  stored; \<open>keccak256\<close> is the sponge of the standard; an intrinsic or operator on known operands is folded
  to the literal of its value; a match arm selected or dropped statically is one that run time would
  select or never select, provided no two different numerals of the match are the same word; and what folding builds is paid for, so that its size is bounded by the fuel.

  Some theorems exhibit flaws: the scoping of assembly \<open>if\<close> bodies (\<open>Hull_Check_Props\<close>), the escaping of C1
  control characters (\<open>Yul_Pretty_Props\<close>), the type comparison on placeholders (\<open>Hull_Types\<close>), assignments that
  permute the words of a variable (\<open>Lower_Aliasing\<close>), and numerals that are compared exactly at compile
  time and modulo \<open>2^256\<close> at run time (\<open>Known_Match\<close>).

  \<^bold>\<open>The limits of the simulation.\<close> The builtins are a parameter: the hypothesis \<open>calls_refine\<close> says
  that each Yul builtin does on words what the Hull builtin does on values, \<open>reverts_refine\<close> that
  the two builtins of a revert stop the execution. The fragment \<open>Hull_Plain\<close> excludes inline
  assembly, assignments to anything but a variable, assignments that permute the words of the
  assigned variable itself (the translator copies word by word, so they are miscompiled),
  assignments to a variable that an enclosing match takes apart (its binders share the
  location), catch-all alternatives that are not last, matches on values without words,
  declarations in the third clause of a loop, and revert messages of more than 32 bytes; \<open>jump_free\<close>
  excludes \<open>break\<close> and \<open>continue\<close> outside loops, which the checker accepts. One number bounds
  the iterations of a loop and the depth of calls; the statements hold for every bound, and
  exceeding it is a result of its own, so a run that ends ends the same way in both languages. Type
  safety holds for the same fragment, if the builtins respect their signatures (\<open>calls_fit\<close>).

  The terminator analysis asks every alternative of a final match to terminate, but not that some
  alternative fits: Hull that falls through passes it (\<open>open_match_falls_through\<close>). The emission of matches
  reports a missing case and compiles it to a revert; the theorems on terminators assume that final matches
  are exhaustive (\<open>covered_body\<close>).

  \<^bold>\<open>Modelling choices.\<close> The definitions that model code are total and use no fuel: loops that are
  not structural are functions with a termination proof (worklist, fresh names, long division). A
  method with \<open>&mut self\<close> takes and returns the state; on an error the translator's callers drop it,
  so an error carries no state. Counters and \<open>usize\<close> values are natural numbers. Strings are lists
  of characters U+0000 to U+00FF. A \<open>BTreeMap\<close> is a partial map, a \<open>BTreeSet\<close> a set whose iteration
  order is that of its elements. A panic (\<open>expect\<close>, an index out of range) is a branch of the
  result, and the lemmas show that it is not taken. Where the width of \<open>usize\<close> matters (limits, saturating
  arithmetic of the budget) it is 64 bits. The memory of the evaluator is keyed by big integers that are
  not reduced, as in the code. In \<open>Yul_Subst\<close> the calls and the values of literals are parameters of the
  interpreter, which skips function definitions. In \<open>Known_Match\<close> the expressions of kinds that matching does not take apart are opaque: which
  are known, what values they may have and which variables the patterns inside them bind are parameters. The
  folding of operators at type Bool compares for equality exactly and for order as words, as
  the code does. The interning database is a parameter: a
  function from identifiers to their text, absent in the checks that run without it.

  \<^bold>\<open>Not modelled.\<close> The rest of specialisation (monomorphisation, inlining, closures, effects and the
  evaluation of statements), the front end, the emission of Hull from the specialised program, the
  Sonatina back end, the language server, the driver and the WebAssembly bindings: they work on
  salsa-interned data, perform input and output, or call external libraries. The textual dump of Hull is
  left out, and so are \<open>venv_to_yul_state\<close> and its inverse, which move constants between the expressions of
  the evaluator and assembly.
\<close>

end
